(* ===== verification/Prelude.thy ===== *)
theory Prelude
  imports Main "HOL-Library.Word" "HOL-Library.Char_ord" "HOL-Library.List_Lexorder"
    "HOL-Library.Monad_Syntax" "HOL-Library.Multiset"
begin

unbundle bit_operations_syntax

text \<open>
  What the component theories share: the types of the model (C strings, byte strings, the
  record of the allocator's answers), the constants of a 64-bit C implementation, the string
  tests the code repeats everywhere (\<^verbatim>\<open>s[0] == '?'\<close>, \<^verbatim>\<open>strcmp\<close>), the collections of
  simplification rules, and generic lemmas on lists, options and words.
\<close>

section \<open>Lemma collections\<close>

named_theorems mem_simps "how the allocator's answers are consumed"
named_theorems key_simps "keys of facts and tries"
named_theorems inv_simps "unfolding of invariants"
named_theorems frame_simps "fields that an operation leaves alone"

section \<open>Types and machine constants\<close>

type_synonym cstr = string
type_synonym byte = "8 word"
type_synonym u64 = "64 word"

abbreviation (input) INT_MAX :: int where
  "INT_MAX \<equiv> 2 ^ 31 - 1"

text \<open>The sum of two \<^verbatim>\<open>int\<close>s; an overflow is undefined: \<open>None\<close>.\<close>

definition int_add :: "int \<Rightarrow> int \<Rightarrow> int option" where
  "int_add a b = (if a + b > INT_MAX \<or> a + b < - INT_MAX - 1 then None else Some (a + b))"

abbreviation (input) SIZE_MAX :: nat where
  "SIZE_MAX \<equiv> 2 ^ 64 - 1"

abbreviation (input) UINT64_MAX :: u64 where
  "UINT64_MAX \<equiv> - 1"

text \<open>
  An allocation (\<^verbatim>\<open>malloc\<close>, \<^verbatim>\<open>calloc\<close>, \<^verbatim>\<open>realloc\<close>, \<^verbatim>\<open>strdup\<close>) may fail. The model carries the
  allocator's answers to come: each request takes the next one, and when the list is used up
  every further request succeeds. A statement that holds for every such list holds for every
  pattern of allocation failures of a finite run.
\<close>

type_synonym mem = "bool list"

fun malloc :: "mem \<Rightarrow> bool \<times> mem" where
  "malloc [] = (True, [])"
| "malloc (b # bs) = (b, bs)"

lemma malloc_Nil [simp, mem_simps]: "malloc [] = (True, [])"
  by simp

section \<open>C strings\<close>

text \<open>
  A C string is the list of the characters before its terminating NUL, so
  \<^verbatim>\<open>s[0] == c\<close> (for a character \<open>c\<close> other than NUL) is false of the empty string.
\<close>

definition first_is :: "char \<Rightarrow> cstr \<Rightarrow> bool" where
  "first_is c s = (case s of [] \<Rightarrow> False | x # _ \<Rightarrow> x = c)"

lemma first_is_simps [simp]:
  "first_is c [] = False"
  "first_is c (x # s) = (x = c)"
  by (simp_all add: first_is_def)

text \<open>The test \<^verbatim>\<open>s[0] == '?'\<close>, which marks a variable.\<close>

definition is_var :: "cstr \<Rightarrow> bool" where
  "is_var s = first_is (CHR ''?'') s"

lemma is_var_simps [simp]:
  "is_var [] = False"
  "is_var (x # s) = (x = CHR ''?'')"
  by (simp_all add: is_var_def)

text \<open>\<^verbatim>\<open>strcmp\<close>: the sign of the first difference, characters compared as unsigned bytes.\<close>

fun strcmp :: "cstr \<Rightarrow> cstr \<Rightarrow> int" where
  "strcmp [] [] = 0"
| "strcmp [] (y # ys) = - 1"
| "strcmp (x # xs) [] = 1"
| "strcmp (x # xs) (y # ys) =
     (if x = y then strcmp xs ys else if x < y then - 1 else 1)"

lemma strcmp_eq_0_iff [simp]: "strcmp a b = 0 \<longleftrightarrow> a = b"
  by (induction a b rule: strcmp.induct) auto

lemma strcmp_le_0_iff: "strcmp a b \<le> 0 \<longleftrightarrow> a \<le> b"
  by (induction a b rule: strcmp.induct) auto

lemma strcmp_less_0_iff: "strcmp a b < 0 \<longleftrightarrow> a < b"
  by (induction a b rule: strcmp.induct) auto

lemma strcmp_antisym: "strcmp b a = - strcmp a b"
  by (induction a b rule: strcmp.induct) auto

section \<open>Loops that may stop early\<close>

text \<open>A counting loop whose body may fail: the state of the last iteration, or \<open>None\<close>.\<close>

fun fold_opt :: "('a \<Rightarrow> 's \<Rightarrow> 's option) \<Rightarrow> 'a list \<Rightarrow> 's \<Rightarrow> 's option" where
  "fold_opt f [] s = Some s"
| "fold_opt f (x # xs) s = (case f x s of None \<Rightarrow> None | Some s' \<Rightarrow> fold_opt f xs s')"

lemma fold_opt_append:
  "fold_opt f (xs @ ys) s = (case fold_opt f xs s of None \<Rightarrow> None | Some s' \<Rightarrow> fold_opt f ys s')"
  by (induction xs arbitrary: s) (auto split: option.split)

text \<open>A loop that never fails on states of the form \<open>g s\<close> is a plain fold underneath.\<close>

lemma fold_opt_sim:
  assumes "\<And>x s. x \<in> set xs \<Longrightarrow> P s \<Longrightarrow> f x (g s) = Some (g (h x s)) \<and> P (h x s)"
    and "P s"
  shows "fold_opt f xs (g s) = Some (g (fold h xs s)) \<and> P (fold h xs s)"
  using assms
proof (induction xs arbitrary: s)
  case (Cons x xs)
  from Cons.prems(1) [of x s] Cons.prems(2)
  have "f x (g s) = Some (g (h x s))" "P (h x s)" by simp_all
  with Cons.IH [of "h x s"] Cons.prems(1) show ?case by simp
qed simp

text \<open>
  A loop with its body as an argument: the body goes on with a new state (\<open>Inl\<close>), leaves the
  loop with a result (\<open>Inr\<close>), or fails. \<open>None\<close> also when the loop never ends.
\<close>

partial_function (option) run_loop :: "('s \<Rightarrow> ('s + 'r) option) \<Rightarrow> 's \<Rightarrow> 'r option" where
  "run_loop body s =
     (case body s of
        None \<Rightarrow> None
      | Some t \<Rightarrow> (case t of Inl s' \<Rightarrow> run_loop body s' | Inr r \<Rightarrow> Some r))"

declare run_loop.simps [code]

lemma run_loop_simps:
  "body s = None \<Longrightarrow> run_loop body s = None"
  "body s = Some (Inl s') \<Longrightarrow> run_loop body s = run_loop body s'"
  "body s = Some (Inr r) \<Longrightarrow> run_loop body s = Some r"
  by (simp_all add: run_loop.simps)

lemma run_loop_diverges:
  assumes "I s" and step: "\<And>s. I s \<Longrightarrow> \<exists>s'. body s = Some (Inl s') \<and> I s'"
  shows "run_loop body s = None"
proof (cases "run_loop body s")
  case (Some y)
  have "\<not> (body = body \<and> I s)"
  proof (rule run_loop.raw_induct [where P = "\<lambda>b s y. \<not> (b = body \<and> I s)", OF _ Some])
    fix rl :: "('a \<Rightarrow> ('a + 'b) option) \<Rightarrow> 'a \<Rightarrow> 'b option" and b s y
    assume IH: "\<And>b s y. rl b s = Some y \<Longrightarrow> \<not> (b = body \<and> I s)"
      and eq: "(case b s of None \<Rightarrow> None | Some t \<Rightarrow> (case t of Inl s' \<Rightarrow> rl b s' | Inr r \<Rightarrow> Some r)) = Some y"
    show "\<not> (b = body \<and> I s)"
    proof
      assume h: "b = body \<and> I s"
      with step obtain s' where "b s = Some (Inl s')" "I s'" by blast
      with IH [of b s' y] eq h show False by simp
    qed
  qed
  with assms(1) show ?thesis by simp
qed simp

lemma run_loop_ends:
  assumes "I s"
    and step: "\<And>s. I s \<Longrightarrow> (\<exists>s'. body s = Some (Inl s') \<and> I s' \<and> (m s' :: nat) < m s) \<or> (\<exists>r. body s = Some (Inr r) \<and> Q r)"
  obtains r where "run_loop body s = Some r" "Q r"
proof -
  have "\<exists>r. run_loop body s = Some r \<and> Q r"
    using assms(1)
  proof (induction "m s" arbitrary: s rule: less_induct)
    case less
    from step [OF less.prems] show ?case
    proof (elim disjE exE conjE)
      fix s' assume "body s = Some (Inl s')" "I s'" "m s' < m s"
      with less.hyps [of s'] run_loop_simps(2) [of body s s'] show ?thesis by auto
    qed (auto simp: run_loop_simps(3))
  qed
  with that show thesis by blast
qed

section \<open>Generic lemmas\<close>

lemma filter_update_length:
  "i < length xs \<Longrightarrow>
   length (filter P (xs[i := x])) + (if P (xs ! i) then 1 else 0)
     = length (filter P xs) + (if P x then 1 else 0)"
proof (induction xs arbitrary: i)
  case (Cons y ys)
  show ?case
  proof (cases i)
    case (Suc j)
    with Cons.IH [of j] Cons.prems show ?thesis by (auto split: if_splits)
  qed simp
qed simp

lemma length_filter_conv_all:
  "length (filter P xs) = length xs \<longleftrightarrow> (\<forall>x \<in> set xs. P x)"
  by (metis filter_id_conv length_filter_less less_irrefl)

lemma option_eqI: "(\<And>w. x = Some w \<longleftrightarrow> y = Some w) \<Longrightarrow> x = y"
  by (cases x; cases y) auto

lemma unat_Suc_word:
  fixes w :: "'a::len word"
  assumes "w \<noteq> - 1"
  shows "unat (w + 1) = Suc (unat w)"
  using assms
  by (metis add.commute add_eq_0_iff unatSuc)

lemma unat_pred_word:
  fixes w :: "'a::len word"
  assumes "w \<noteq> 0"
  shows "unat (w - 1) = unat w - 1"
  using assms by (simp add: unat_minus_one)

end
