(* ===== verification/Rax.thy ===== *)
theory Rax
  imports Prelude
begin

text \<open>
  The radix tree the repository vendors under \<^verbatim>\<open>deps/rax\<close>, represented by what its interface
  (\<^verbatim>\<open>deps/rax/rax.h\<close>) documents: a dictionary from byte strings to values, iterated in the
  lexicographic order of the keys. The node encoding of \<^verbatim>\<open>rax.c\<close> is not modelled. The
  dictionary is the strictly sorted list of its bindings, so iteration reads it from the left;
  the locale \<open>rax_dict\<close> states the contract that the clients (the symbol table and the
  three tries of the hexastore) rely on, and is interpreted on that representation.

  \<^item> \<open>raxInsert\<close> returns 1 for a new key, and 0 when it overwrote an existing key's value or
    when the allocator failed (then the dictionary is as it was); it takes one answer of the
    allocator for the whole insertion;
  \<^item> \<open>raxRemove\<close> returns 1 and the old value, or 0;
  \<^item> an iterator is the list of the bindings from its current one on; the empty list is
    \<^verbatim>\<open>raxEOF\<close>. The code never changes a tree while it iterates over it.
\<close>

section \<open>The representation and the operations\<close>

type_synonym ('c, 'v) rax = "('c list \<times> 'v) list"

definition raxNew :: "('c, 'v) rax" where
  "raxNew = []"

definition raxFind :: "('c, 'v) rax \<Rightarrow> 'c list \<Rightarrow> 'v option" where
  "raxFind t k = map_of t k"

fun rax_put :: "('c::linorder) list \<Rightarrow> 'v \<Rightarrow> ('c, 'v) rax \<Rightarrow> ('c, 'v) rax" where
  "rax_put k v [] = [(k, v)]"
| "rax_put k v ((k', v') # t) =
     (if k < k' then (k, v) # (k', v') # t
      else if k = k' then (k, v) # t
      else (k', v') # rax_put k v t)"

definition rax_del :: "'c list \<Rightarrow> ('c, 'v) rax \<Rightarrow> ('c, 'v) rax" where
  "rax_del k t = filter (\<lambda>e. fst e \<noteq> k) t"

definition raxInsert ::
  "('c::linorder, 'v) rax \<Rightarrow> 'c list \<Rightarrow> 'v \<Rightarrow> mem \<Rightarrow> nat \<times> ('c, 'v) rax \<times> mem" where
  "raxInsert t k v h =
     (let (ok, h') = malloc h in
      if \<not> ok then (0, t, h')
      else (if raxFind t k = None then 1 else 0, rax_put k v t, h'))"

definition raxRemove :: "('c, 'v) rax \<Rightarrow> 'c list \<Rightarrow> 'v option \<times> ('c, 'v) rax" where
  "raxRemove t k = (raxFind t k, rax_del k t)"

definition raxSize :: "('c, 'v) rax \<Rightarrow> nat" where
  "raxSize t = length t"

text \<open>\<^verbatim>\<open>raxSeek(it, "^")\<close> and \<^verbatim>\<open>raxSeek(it, ">=", key)\<close>.\<close>

definition raxSeekFirst :: "('c, 'v) rax \<Rightarrow> ('c list \<times> 'v) list" where
  "raxSeekFirst t = t"

definition raxSeekGe :: "('c::linorder, 'v) rax \<Rightarrow> 'c list \<Rightarrow> ('c list \<times> 'v) list" where
  "raxSeekGe t k = dropWhile (\<lambda>e. fst e < k) t"

section \<open>The contract\<close>

definition rax_ok :: "('c::linorder, 'v) rax \<Rightarrow> bool" where
  "rax_ok t \<longleftrightarrow> sorted_wrt (<) (map fst t)"

locale rax_dict =
  fixes ok :: "'t \<Rightarrow> bool"
    and empty :: "'t"
    and find :: "'t \<Rightarrow> ('c::linorder) list \<Rightarrow> 'v option"
    and put :: "'c list \<Rightarrow> 'v \<Rightarrow> 't \<Rightarrow> 't"
    and del :: "'c list \<Rightarrow> 't \<Rightarrow> 't"
    and entries :: "'t \<Rightarrow> ('c list \<times> 'v) list"
  assumes ok_empty: "ok empty"
    and ok_put: "ok t \<Longrightarrow> ok (put k v t)"
    and ok_del: "ok t \<Longrightarrow> ok (del k t)"
    and find_empty: "find empty k = None"
    and find_put: "ok t \<Longrightarrow> find (put k v t) k' = (if k' = k then Some v else find t k')"
    and find_del: "ok t \<Longrightarrow> find (del k t) k' = (if k' = k then None else find t k')"
    and entries_sorted: "ok t \<Longrightarrow> sorted_wrt (<) (map fst (entries t))"
    and entries_find: "ok t \<Longrightarrow> (k, v) \<in> set (entries t) \<longleftrightarrow> find t k = Some v"
    and entries_inject: "entries t = entries t' \<Longrightarrow> t = t'"
begin

lemma sorted_wrt_less_same_set:
  fixes xs ys :: "('c list \<times> 'v) list"
  assumes "sorted_wrt (<) (map fst xs)" "sorted_wrt (<) (map fst ys)" "set xs = set ys"
  shows "xs = ys"
proof -
  have srt: "sorted (map fst xs)" "distinct (map fst xs)"
    "sorted (map fst ys)" "distinct (map fst ys)"
    using assms by (auto simp: strict_sorted_iff)
  have "map fst xs = map fst ys"
    using assms srt by (metis set_map sorted_distinct_set_unique)
  moreover have "inj_on fst (set xs \<union> set ys)"
    using srt assms(3) by (simp add: distinct_map)
  ultimately show ?thesis
    by (metis inj_on_map_eq_map)
qed

text \<open>Two dictionaries with the same lookups are the same: iteration is determined by them.\<close>

lemma dict_ext:
  assumes "ok t" "ok t'" "\<And>k. find t k = find t' k"
  shows "t = t'"
proof -
  have "set (entries t) = set (entries t')"
    using assms by (auto simp: entries_find)
  then have "entries t = entries t'"
    using assms by (intro sorted_wrt_less_same_set) (auto simp: entries_sorted)
  then show ?thesis by (rule entries_inject)
qed

lemma del_put_cancel:
  assumes "ok t" "find t k = None"
  shows "del k (put k v t) = t"
  using assms by (intro dict_ext) (auto simp: ok_put ok_del find_put find_del)

lemma put_del_cancel:
  assumes "ok t" "find t k = Some v"
  shows "put k v (del k t) = t"
  using assms by (intro dict_ext) (auto simp: ok_put ok_del find_put find_del)

lemma put_commute:
  assumes "ok t" "k \<noteq> k'"
  shows "put k v (put k' v' t) = put k' v' (put k v t)"
  using assms by (intro dict_ext) (auto simp: ok_put find_put)

lemma del_commute:
  assumes "ok t"
  shows "del k (del k' t) = del k' (del k t)"
  using assms by (intro dict_ext) (auto simp: ok_del find_del)

lemma distinct_keys:
  assumes "ok t"
  shows "distinct (map fst (entries t))"
  using entries_sorted [OF assms] by (simp add: strict_sorted_iff)

end

section \<open>The representation meets the contract\<close>

lemma set_rax_put:
  "rax_ok t \<Longrightarrow> set (rax_put k v t) = insert (k, v) {e \<in> set t. fst e \<noteq> k}"
proof (induction k v t rule: rax_put.induct)
  case (2 k v k' v' t)
  then have ok: "rax_ok t" and less: "\<forall>e \<in> set t. k' < fst e"
    by (auto simp: rax_ok_def)
  show ?case
  proof (cases k k' rule: linorder_cases)
    case kless: less
    with less have "\<forall>e \<in> set t. fst e \<noteq> k"
      by (metis less_asym)
    with kless show ?thesis by auto
  next
    case equal
    with less have "\<forall>e \<in> set t. fst e \<noteq> k" by (metis less_irrefl)
    with equal show ?thesis by auto
  next
    case greater
    then have "\<not> k < k'" "k \<noteq> k'" by simp_all
    moreover from \<open>k \<noteq> k'\<close>
    have "{e \<in> set ((k', v') # t). fst e \<noteq> k} = insert (k', v') {e \<in> set t. fst e \<noteq> k}"
      by auto
    ultimately show ?thesis using "2.IH" ok by (simp add: insert_commute)
  qed
qed simp

lemma rax_ok_put: "rax_ok t \<Longrightarrow> rax_ok (rax_put k v t)"
proof (induction k v t rule: rax_put.induct)
  case (2 k v k' v' t)
  then have ok: "rax_ok t" and less: "\<forall>e \<in> set t. k' < fst e"
    by (auto simp: rax_ok_def)
  show ?case
  proof (cases k k' rule: linorder_cases)
    case less
    with "2.prems" show ?thesis by (auto simp: rax_ok_def)
  next
    case equal
    with "2.prems" show ?thesis by (auto simp: rax_ok_def)
  next
    case greater
    with "2.IH" ok have "rax_ok (rax_put k v t)" by simp
    with greater less ok show ?thesis
      by (auto simp: rax_ok_def set_rax_put)
  qed
qed (simp add: rax_ok_def)

lemma rax_ok_del: "rax_ok t \<Longrightarrow> rax_ok (rax_del k t)"
  by (induction t) (auto simp: rax_ok_def rax_del_def)

lemma rax_ok_distinct: "rax_ok t \<Longrightarrow> distinct (map fst t)"
  by (simp add: rax_ok_def strict_sorted_iff)

lemma raxFind_iff: "rax_ok t \<Longrightarrow> raxFind t k = Some v \<longleftrightarrow> (k, v) \<in> set t"
  by (simp add: raxFind_def rax_ok_distinct)

lemma raxFind_put:
  assumes "rax_ok t"
  shows "raxFind (rax_put k v t) k' = (if k' = k then Some v else raxFind t k')"
  by (rule option_eqI) (use assms in \<open>auto simp: raxFind_iff rax_ok_put set_rax_put\<close>)

lemma raxFind_del: "raxFind (rax_del k t) k' = (if k' = k then None else raxFind t k')"
  by (induction t) (auto simp: raxFind_def rax_del_def)

interpretation rx: rax_dict rax_ok raxNew raxFind rax_put rax_del "\<lambda>t. t"
  by unfold_locales
    (auto simp: rax_ok_put rax_ok_del raxFind_put raxFind_del raxFind_iff rax_ok_def [symmetric],
     simp_all add: rax_ok_def raxNew_def raxFind_def)

lemmas rax_laws = rx.ok_empty rx.ok_put rx.ok_del rx.find_empty rx.find_put rx.find_del

text \<open>Seeking \<^verbatim>\<open>>=\<close> positions the iterator on exactly the keys that are not below the bound.\<close>

lemma set_raxSeekGe:
  "rax_ok t \<Longrightarrow> set (raxSeekGe t k) = {e \<in> set t. k \<le> fst e}"
proof (induction t)
  case Nil
  then show ?case by (simp add: raxSeekGe_def)
next
  case (Cons e t)
  then have ok: "rax_ok t" and less: "\<forall>e' \<in> set t. fst e < fst e'"
    by (auto simp: rax_ok_def)
  show ?case
  proof (cases "fst e < k")
    case True
    then have "\<not> k \<le> fst e" by simp
    then have "{e' \<in> set (e # t). k \<le> fst e'} = {e' \<in> set t. k \<le> fst e'}"
      by (metis (mono_tags, lifting) set_ConsD list.set_intros(2))
    with True Cons.IH ok show ?thesis by (simp add: raxSeekGe_def)
  next
    case False
    then have "k \<le> fst e" by simp
    moreover from this less have "\<forall>e' \<in> set t. k \<le> fst e'"
      by (meson less_imp_le order_trans)
    ultimately have "{e' \<in> set (e # t). k \<le> fst e'} = set (e # t)" by auto
    with False show ?thesis by (simp add: raxSeekGe_def)
  qed
qed

lemma sorted_raxSeekGe: "rax_ok t \<Longrightarrow> rax_ok (raxSeekGe t k)"
  unfolding rax_ok_def raxSeekGe_def
  by (simp add: dropWhile_eq_drop drop_map [symmetric] sorted_wrt_drop)

end
