(* ===== verification/Symbols.thy ===== *)
theory Symbols
  imports Prelude
begin

text \<open>
  \<^verbatim>\<open>include/intern.h\<close> (the type \<^verbatim>\<open>Symbol\<close> and \<^verbatim>\<open>compare_symbol\<close>), \<^verbatim>\<open>include/fact.h\<close> and
  \<^verbatim>\<open>lib/fact.c\<close>: symbols, facts, the three orders on facts, and lists of facts.
\<close>

section \<open>Symbols\<close>

text \<open>
  A \<^verbatim>\<open>Symbol\<close> is a pointer to an interned string: the null pointer \<open>P_FIRST\<close>, the pointer
  \<open>P_LAST\<close> (\<^verbatim>\<open>(Symbol) - 1\<close>), or the address of a \<^verbatim>\<open>struct symbol\<close>. The table never moves or
  reuses a \<^verbatim>\<open>struct symbol\<close> and gives each its own \<^verbatim>\<open>id\<close>, so within one table the id stands
  for the address: two symbols are the same pointer iff they are equal here.
\<close>

datatype symbol = P_FIRST | P_LAST | Sym (sym_id: u64) (sym_data: cstr)

definition compare_symbol :: "symbol \<Rightarrow> symbol \<Rightarrow> int" where
  "compare_symbol a b =
     (if a = b then 0
      else if a = P_FIRST \<or> b = P_LAST then - 1
      else if a = P_LAST \<or> b = P_FIRST then 1
      else if sym_id a < sym_id b then - 1 else 1)"

fun symbol_to_str :: "symbol \<Rightarrow> cstr option" where
  "symbol_to_str P_FIRST = None"
| "symbol_to_str P_LAST = None"
| "symbol_to_str (Sym i d) = Some d"

section \<open>Facts\<close>

record fact =
  f_s :: symbol
  f_p :: symbol
  f_o :: symbol
  f_negated :: symbol
  asserted_count :: nat
  derived_count :: nat
  proof_count :: nat

definition fact_init :: "symbol \<Rightarrow> symbol \<Rightarrow> symbol \<Rightarrow> fact" where
  "fact_init s p o' =
     \<lparr>f_s = s, f_p = p, f_o = o', f_negated = P_FIRST,
      asserted_count = 1, derived_count = 0, proof_count = 1\<rparr>"

text \<open>The comparisons take two pointers, either of which may be null (\<open>None\<close>).\<close>

fun compare_keys :: "(symbol \<times> symbol) list \<Rightarrow> int" where
  "compare_keys [] = 0"
| "compare_keys ((a, b) # ks) =
     (let cmp = compare_symbol a b in if cmp = 0 then compare_keys ks else cmp)"

fun fact_compare_spo :: "fact option \<Rightarrow> fact option \<Rightarrow> int" where
  "fact_compare_spo None None = 0"
| "fact_compare_spo None (Some b) = - 1"
| "fact_compare_spo (Some a) None = 1"
| "fact_compare_spo (Some a) (Some b) =
     compare_keys [(f_s a, f_s b), (f_p a, f_p b), (f_o a, f_o b)]"

fun fact_compare_pos :: "fact option \<Rightarrow> fact option \<Rightarrow> int" where
  "fact_compare_pos None None = 0"
| "fact_compare_pos None (Some b) = - 1"
| "fact_compare_pos (Some a) None = 1"
| "fact_compare_pos (Some a) (Some b) =
     compare_keys [(f_p a, f_p b), (f_o a, f_o b), (f_s a, f_s b)]"

fun fact_compare_osp :: "fact option \<Rightarrow> fact option \<Rightarrow> int" where
  "fact_compare_osp None None = 0"
| "fact_compare_osp None (Some b) = - 1"
| "fact_compare_osp (Some a) None = 1"
| "fact_compare_osp (Some a) (Some b) =
     compare_keys [(f_o a, f_o b), (f_s a, f_s b), (f_p a, f_p b)]"

section \<open>Lists of facts\<close>

text \<open>
  A \<^verbatim>\<open>fact_list\<close> is a linked list of pointers to facts; pointers are addresses.
  \<^verbatim>\<open>fact_list_find\<close> returns the rest of the list from the node that holds the pointer.
\<close>

type_synonym addr = nat
type_synonym fact_list = "addr list"

definition new_fact_list :: "addr \<Rightarrow> fact_list \<Rightarrow> mem \<Rightarrow> fact_list option \<times> mem" where
  "new_fact_list f next h = (let (ok, h') = malloc h in (if ok then Some (f # next) else None, h'))"

fun fact_list_find :: "fact_list \<Rightarrow> addr \<Rightarrow> fact_list" where
  "fact_list_find [] f = []"
| "fact_list_find (x # fl) f = (if x \<noteq> f then fact_list_find fl f else x # fl)"

definition fact_list_intern :: "fact_list \<Rightarrow> addr \<Rightarrow> mem \<Rightarrow> fact_list option \<times> mem" where
  "fact_list_intern fl f h =
     (if fact_list_find fl f \<noteq> [] then (Some fl, h) else new_fact_list f fl h)"

lemma fact_list_find_iff [simp]: "fact_list_find fl f \<noteq> [] \<longleftrightarrow> f \<in> set fl"
  by (induction fl) auto

section \<open>The order of symbols\<close>

text \<open>
  The numeric key of a symbol (\<^verbatim>\<open>get_symbol_id\<close>, which \<^verbatim>\<open>hexastore.c\<close>, \<^verbatim>\<open>lftj.c\<close> and
  \<^verbatim>\<open>facts.c\<close> each define): 0 and the largest word for the two sentinels.
\<close>

fun get_symbol_id :: "symbol \<Rightarrow> u64" where
  "get_symbol_id P_FIRST = 0"
| "get_symbol_id P_LAST = UINT64_MAX"
| "get_symbol_id (Sym i d) = i"

text \<open>
  Symbols of one table: the ids are distinct, and neither 0 nor the largest word, which the
  table never hands out.
\<close>

definition proper_id :: "symbol \<Rightarrow> bool" where
  "proper_id a \<longleftrightarrow> (case a of Sym i d \<Rightarrow> i \<noteq> 0 \<and> i \<noteq> UINT64_MAX | _ \<Rightarrow> True)"

definition table_symbols :: "symbol set \<Rightarrow> bool" where
  "table_symbols S \<longleftrightarrow> (\<forall>a \<in> S. proper_id a) \<and> inj_on get_symbol_id S"

lemma word_not_less_0_max [simp]:
  "\<not> (i::u64) < 0" "i < 0 \<longleftrightarrow> False" "\<not> UINT64_MAX < (i::u64)"
  by (simp_all add: not_less)

lemma word_pos_neq: "(i::u64) \<noteq> 0 \<Longrightarrow> 0 < i" "(i::u64) \<noteq> UINT64_MAX \<Longrightarrow> i < UINT64_MAX"
  by (auto simp: word_neq_0_conv order.not_eq_order_implies_strict)

lemma compare_symbol_sign:
  assumes "table_symbols S" "a \<in> S" "b \<in> S"
  shows "compare_symbol a b = 0 \<longleftrightarrow> get_symbol_id a = get_symbol_id b"
    and "compare_symbol a b < 0 \<longleftrightarrow> get_symbol_id a < get_symbol_id b"
proof -
  have eq: "get_symbol_id a = get_symbol_id b \<longleftrightarrow> a = b"
    using assms by (auto simp: table_symbols_def inj_on_def)
  have p: "proper_id a" "proper_id b"
    using assms by (auto simp: table_symbols_def)
  show "compare_symbol a b = 0 \<longleftrightarrow> get_symbol_id a = get_symbol_id b"
    by (simp add: eq compare_symbol_def)
  show "compare_symbol a b < 0 \<longleftrightarrow> get_symbol_id a < get_symbol_id b"
    using p eq by (cases a; cases b) (auto simp: compare_symbol_def proper_id_def word_pos_neq)
qed

lemma compare_symbol_antisym: "compare_symbol b a < 0 \<Longrightarrow> \<not> compare_symbol a b < 0"
  by (cases a; cases b) (auto simp: compare_symbol_def split: if_splits)

end
