(* ===== verification/Binding.thy ===== *)
theory Binding
  imports Prelude
begin

text \<open>
  \<^verbatim>\<open>include/binding.h\<close> and \<^verbatim>\<open>lib/binding.c\<close>: the NULL-terminated array of bindings of a query.
  A binding is the name of a variable and a pointer to the slot (a \<^verbatim>\<open>const char *\<close>) that
  receives its value; slots are addresses, and the memory of slots is a function, so two
  bindings may share a slot. An array that is the null pointer behaves as the empty one.
\<close>

type_synonym slot = nat
type_synonym binding = "cstr \<times> slot"
type_synonym slots = "slot \<Rightarrow> cstr option"

fun bindings_get :: "binding list \<Rightarrow> cstr \<Rightarrow> slot option" where
  "bindings_get [] name = None"
| "bindings_get ((n, v) # bs) name = (if strcmp n name = 0 then Some v else bindings_get bs name)"

datatype 'a outcome = Returns 'a | Exits nat

definition bindings_get_or_die :: "binding list \<Rightarrow> cstr \<Rightarrow> slot outcome" where
  "bindings_get_or_die bs name =
     (case bindings_get bs name of None \<Rightarrow> Exits 1 | Some b \<Rightarrow> Returns b)"

fun bindings_nullify :: "binding list \<Rightarrow> slots \<Rightarrow> slots" where
  "bindings_nullify [] m = m"
| "bindings_nullify ((n, v) # bs) m = bindings_nullify bs (m(v := None))"

text \<open>The result and the new value of \<^verbatim>\<open>*pstr\<close>, which may become null.\<close>

definition bindings_resolve :: "binding list \<Rightarrow> slots \<Rightarrow> cstr \<Rightarrow> nat \<times> cstr option" where
  "bindings_resolve bs m str =
     (if bs \<noteq> [] \<and> is_var str
      then (case bindings_get bs str of
              Some value \<Rightarrow> (1, m value)
            | None \<Rightarrow> (0, Some str))
      else (0, Some str))"

lemma bindings_get_map_of: "bindings_get bs = map_of bs"
proof
  show "bindings_get bs name = map_of bs name" for name
    by (induction bs) auto
qed

lemma bindings_get_None_iff: "bindings_get bs name = None \<longleftrightarrow> name \<notin> fst ` set bs"
  by (simp add: bindings_get_map_of map_of_eq_None_iff)

lemma bindings_get_in: "bindings_get bs name = Some v \<Longrightarrow> (name, v) \<in> set bs"
  by (simp add: bindings_get_map_of map_of_SomeD)

lemma bindings_nullify_eq:
  "bindings_nullify bs m a = (if a \<in> snd ` set bs then None else m a)"
proof (induction bs arbitrary: m)
  case (Cons b bs)
  show ?case by (cases b) (simp add: Cons.IH)
qed simp

end
