(* ===== verification/Spec.thy ===== *)
theory Spec
  imports Binding
begin

text \<open>
  \<^verbatim>\<open>include/spec.h\<close> and \<^verbatim>\<open>lib/spec.c\<close>: the flat arrays of strings that describe facts and
  queries. The array is the list of its cells; a read past its end has no value in C and is
  \<open>None\<close> here, so a lemma \<open>f spec = Some r\<close> also says that \<open>f\<close> stays inside the array.
  Messages on stderr are not modelled.
\<close>

section \<open>Specifications and facts of a specification\<close>

type_synonym spec = "cstr option list"

record spec_fact =
  sf_s :: "cstr option"
  sf_p :: "cstr option"
  sf_o :: "cstr option"
  sf_negated :: "cstr option"

record spec_cursor =
  c_spec :: spec
  c_s :: "cstr option"
  c_pos :: nat

definition rd :: "spec \<Rightarrow> nat \<Rightarrow> cstr option option" where
  "rd spec i = (if i < length spec then Some (spec ! i) else None)"

section \<open>The cursor\<close>

definition spec_cursor_init :: "spec \<Rightarrow> spec_cursor option" where
  "spec_cursor_init spec =
     (case rd spec 0 of None \<Rightarrow> None
      | Some s \<Rightarrow> Some \<lparr>c_spec = spec, c_s = s, c_pos = 1\<rparr>)"

text \<open>\<open>None\<close>: a read past the array; \<open>Some (None, _)\<close>: returns 0; \<open>Some (Some f, _)\<close>: 1.\<close>

function spec_cursor_next :: "spec_cursor \<Rightarrow> (spec_fact option \<times> spec_cursor) option" where
  "spec_cursor_next c =
     (case c_s c of None \<Rightarrow> Some (None, c)
      | Some cs \<Rightarrow>
        if strcmp cs '':not'' = 0 then do {
          s \<leftarrow> rd (c_spec c) (c_pos c);
          p_val \<leftarrow> rd (c_spec c) (c_pos c + 1);
          o_val \<leftarrow> rd (c_spec c) (c_pos c + 2);
          if s = None \<or> p_val = None \<or> o_val = None then Some (None, c)
          else do {
            e \<leftarrow> rd (c_spec c) (c_pos c + 3);
            if e \<noteq> None then Some (None, c)
            else do {
              next_s \<leftarrow> rd (c_spec c) (c_pos c + 4);
              Some (Some \<lparr>sf_s = s, sf_p = p_val, sf_o = o_val, sf_negated = Some '':not''\<rparr>,
                    c\<lparr>c_s := next_s, c_pos := c_pos c + 5\<rparr>)
            }
          }
        }
        else
          (case rd (c_spec c) (c_pos c) of None \<Rightarrow> None
           | Some (Some p) \<Rightarrow>
               (case rd (c_spec c) (c_pos c + 1) of None \<Rightarrow> None
                | Some None \<Rightarrow> Some (None, c)
                | Some (Some ob) \<Rightarrow>
                    Some (Some \<lparr>sf_s = c_s c, sf_p = Some p, sf_o = Some ob, sf_negated = None\<rparr>,
                          c\<lparr>c_pos := c_pos c + 2\<rparr>))
           | Some None \<Rightarrow>
               (case rd (c_spec c) (c_pos c + 1) of None \<Rightarrow> None
                | Some next_s \<Rightarrow>
                    spec_cursor_next (c\<lparr>c_s := next_s, c_pos := c_pos c + 2\<rparr>))))"
  by pat_completeness auto
termination
  by (relation "measure (\<lambda>c. length (c_spec c) - c_pos c)") (auto simp: rd_def split: if_splits)

declare spec_cursor_next.simps [simp del]

lemma spec_cursor_next_progress:
  "spec_cursor_next c = Some (Some f, c') \<Longrightarrow>
   c_spec c' = c_spec c \<and> c_pos c < c_pos c' \<and> c_pos c < length (c_spec c)"
proof (induction c arbitrary: f c' rule: spec_cursor_next.induct)
  case (1 c)
  from "1.prems" show ?case
    by (subst (asm) spec_cursor_next.simps)
      (auto simp: rd_def Let_def split: option.splits if_splits bind_splits dest!: "1.IH")
qed

text \<open>
  The loop \<^verbatim>\<open>while (spec_cursor_next(&c, &f))\<close>: the facts it visits, in order. It ends since
  the position grows and stays inside the array.
\<close>

function cursor_facts :: "spec_cursor \<Rightarrow> spec_fact list option" where
  "cursor_facts c =
     (case spec_cursor_next c of
        None \<Rightarrow> None
      | Some (None, _) \<Rightarrow> Some []
      | Some (Some f, c') \<Rightarrow> map_option (Cons f) (cursor_facts c'))"
  by pat_completeness auto
termination
  by (relation "measure (\<lambda>c. length (c_spec c) - c_pos c)")
    (auto dest!: spec_cursor_next_progress)

declare cursor_facts.simps [simp del]

definition spec_facts :: "spec \<Rightarrow> spec_fact list option" where
  "spec_facts spec = (case spec_cursor_init spec of None \<Rightarrow> None | Some c \<Rightarrow> cursor_facts c)"

definition spec_count_facts :: "spec \<Rightarrow> nat option" where
  "spec_count_facts spec = map_option length (spec_facts spec)"

section \<open>Variables of a specification\<close>

text \<open>
  The scan \<^verbatim>\<open>while (spec[i] || spec[i + 1])\<close>, on the rest of the array from \<^verbatim>\<open>i\<close>: it stops at
  two consecutive nulls and collects the cells that name a variable.
\<close>

fun scan_vars :: "spec \<Rightarrow> cstr list option" where
  "scan_vars [] = None"
| "scan_vars [None] = None"
| "scan_vars (None # None # r) = Some []"
| "scan_vars (None # Some y # r) = scan_vars (Some y # r)"
| "scan_vars (Some x # r) = map_option (\<lambda>vs. if is_var x then x # vs else vs) (scan_vars r)"

definition spec_count_bindings :: "spec \<Rightarrow> nat option" where
  "spec_count_bindings spec =
     (case rd spec 0 of None \<Rightarrow> None
      | Some None \<Rightarrow> Some 0
      | Some (Some _) \<Rightarrow> map_option length (scan_vars spec))"

text \<open>
  \<^verbatim>\<open>spec_bindings\<close> allocates one slot for every occurrence of a variable, all null; the model
  gives the occurrences the slots \<open>0, 1, \<dots>\<close> of the new block. \<open>Some None\<close> is the null result
  (an empty specification, an overflowing size, or a failed allocation).
\<close>

definition spec_bindings :: "spec \<Rightarrow> mem \<Rightarrow> (binding list option \<times> mem) option" where
  "spec_bindings spec h = do {
     s0 \<leftarrow> rd spec 0;
     if s0 = None then Some (None, h)
     else do {
       count \<leftarrow> spec_count_bindings spec;
       if count = SIZE_MAX \<or> count + 1 > SIZE_MAX div 16 \<or> count > SIZE_MAX div 8
          \<or> (count + 1) * 16 > SIZE_MAX - count * 8
       then Some (None, h)
       else (case malloc h of
               (False, h') \<Rightarrow> Some (None, h')
             | (True, h') \<Rightarrow> do {
                 vs \<leftarrow> scan_vars spec;
                 Some (Some (zip vs [0..<length vs]), h')
               })
     }
   }"

fun resolve_field :: "binding list \<Rightarrow> slots \<Rightarrow> cstr option \<Rightarrow> nat \<times> cstr option" where
  "resolve_field bs m None = (0, None)"
| "resolve_field bs m (Some x) = (if is_var x then bindings_resolve bs m x else (0, Some x))"

definition spec_fact_bindings_resolve ::
  "spec_fact \<Rightarrow> binding list \<Rightarrow> slots \<Rightarrow> nat \<times> spec_fact" where
  "spec_fact_bindings_resolve f bs m =
     (let (r1, s') = resolve_field bs m (sf_s f);
          (r2, p') = resolve_field bs m (sf_p f);
          (r3, o') = resolve_field bs m (sf_o f)
      in (r1 + r2 + r3, f\<lparr>sf_s := s', sf_p := p', sf_o := o'\<rparr>))"

section \<open>Expansion and sorting\<close>

definition fact_cells :: "spec_fact \<Rightarrow> spec" where
  "fact_cells f = [sf_s f, sf_p f, sf_o f, sf_negated f]"

definition spec_expand :: "spec \<Rightarrow> mem \<Rightarrow> (spec option \<times> mem) option" where
  "spec_expand spec h = do {
     count \<leftarrow> spec_count_facts spec;
     if count > 0 then
       if count > (SIZE_MAX - 2) div 4 \<or> count * 4 + 2 > SIZE_MAX div 8 then Some (None, h)
       else (case malloc h of
               (False, h') \<Rightarrow> Some (None, h')
             | (True, h') \<Rightarrow> do {
                 fs \<leftarrow> spec_facts spec;
                 Some (Some (concat (map fact_cells fs) @ [None, None]), h')
               })
     else Some (None, h)
   }"

text \<open>The number of variables of a fact; reading the first character of a null string fails.\<close>

definition count_vars :: "spec_fact \<Rightarrow> nat option" where
  "count_vars f = do {
     s \<leftarrow> sf_s f; p \<leftarrow> sf_p f; ob \<leftarrow> sf_o f;
     Some (of_bool (is_var s) + of_bool (is_var p) + of_bool (is_var ob))
   }"

definition fact_compare_bindings :: "spec_fact \<Rightarrow> spec_fact \<Rightarrow> int option" where
  "fact_compare_bindings a b = do {
     ba \<leftarrow> count_vars a;
     bb \<leftarrow> count_vars b;
     Some (if ba < bb then - 1 else if ba > bb then 1 else 0)
   }"

text \<open>The cast of four cells to an \<^verbatim>\<open>s_spec_fact\<close>, and storing one.\<close>

definition get4 :: "spec \<Rightarrow> nat \<Rightarrow> spec_fact option" where
  "get4 spec j = do {
     s \<leftarrow> rd spec (j * 4); p \<leftarrow> rd spec (j * 4 + 1);
     ob \<leftarrow> rd spec (j * 4 + 2); n \<leftarrow> rd spec (j * 4 + 3);
     Some \<lparr>sf_s = s, sf_p = p, sf_o = ob, sf_negated = n\<rparr>
   }"

definition put4 :: "spec \<Rightarrow> nat \<Rightarrow> spec_fact \<Rightarrow> spec" where
  "put4 spec j f =
     spec[j * 4 := sf_s f, j * 4 + 1 := sf_p f, j * 4 + 2 := sf_o f, j * 4 + 3 := sf_negated f]"

definition sort_step :: "nat \<Rightarrow> spec \<Rightarrow> spec option" where
  "sort_step j spec = do {
     a \<leftarrow> get4 spec j;
     b \<leftarrow> get4 spec (j + 1);
     cmp \<leftarrow> fact_compare_bindings a b;
     Some (if cmp > 0 then put4 (put4 spec j b) (j + 1) a else spec)
   }"

definition spec_sort :: "spec \<Rightarrow> spec option" where
  "spec_sort spec = do {
     count \<leftarrow> spec_count_facts spec;
     if count \<noteq> 0
     then fold_opt (\<lambda>i. fold_opt sort_step [0..<count - i - 1]) [0..<count - 1] spec
     else Some spec
   }"

section \<open>Reading back a well-formed specification\<close>

text \<open>
  The documented grammar, \<^verbatim>\<open>(subject (predicate object)+ NULL)+ NULL\<close>, with the negated form
  \<^verbatim>\<open>:not s p o NULL\<close> that the cursor also accepts, and the cells it is written as.
\<close>

datatype group = Pos cstr "(cstr \<times> cstr) list" | Neg cstr cstr cstr

fun group_cells :: "group \<Rightarrow> spec" where
  "group_cells (Pos s pos) = Some s # concat (map (\<lambda>(p, ob). [Some p, Some ob]) pos) @ [None]"
| "group_cells (Neg s p ob) = [Some '':not'', Some s, Some p, Some ob, None]"

fun group_facts :: "group \<Rightarrow> spec_fact list" where
  "group_facts (Pos s pos) =
     map (\<lambda>(p, ob). \<lparr>sf_s = Some s, sf_p = Some p, sf_o = Some ob, sf_negated = None\<rparr>) pos"
| "group_facts (Neg s p ob) =
     [\<lparr>sf_s = Some s, sf_p = Some p, sf_o = Some ob, sf_negated = Some '':not''\<rparr>]"

fun group_ok :: "group \<Rightarrow> bool" where
  "group_ok (Pos s pos) = (s \<noteq> '':not'')"
| "group_ok (Neg s p ob) = True"

definition spec_of :: "group list \<Rightarrow> spec" where
  "spec_of gs = concat (map group_cells gs) @ [None]"

lemma rd_append [simp]:
  "rd (xs @ ys) (length xs) = rd ys 0"
  "rd (xs @ ys) (Suc (length xs)) = rd ys 1"
  "rd (xs @ ys) (length xs + n) = rd ys n"
  by (auto simp: rd_def nth_append)

lemma rd_append_offset: "i = length xs + n \<Longrightarrow> rd (xs @ ys) i = rd ys n"
  by simp

lemma rd_Cons [simp]: "rd (x # xs) 0 = Some x" "rd (x # xs) (Suc n) = rd xs n"
  by (simp_all add: rd_def)

lemma append_single: "(@) [x] = (#) x"
  by auto

lemma spec_of_Nil_iff [simp]: "spec_of gs \<noteq> []"
  by (simp add: spec_of_def)

lemma cursor_facts_same_next:
  "spec_cursor_next c = spec_cursor_next c' \<Longrightarrow> cursor_facts c = cursor_facts c'"
  by (simp add: cursor_facts.simps [of c] cursor_facts.simps [of c'])

lemma cursor_facts_pos:
  assumes "c_spec c = pre @ concat (map (\<lambda>(p, ob). [Some p, Some ob]) pos) @ None # x # suf"
    and "c_pos c = length pre" and "c_s c = Some s" and "s \<noteq> '':not''"
  shows "cursor_facts c =
     map_option (append (group_facts (Pos s pos)))
       (cursor_facts (c\<lparr>c_s := x, c_pos := length pre + 2 * length pos + 2\<rparr>))"
  using assms
proof (induction pos arbitrary: pre c)
  case Nil
  then have "spec_cursor_next c = spec_cursor_next (c\<lparr>c_s := x, c_pos := c_pos c + 2\<rparr>)"
    by (subst spec_cursor_next.simps) simp
  then have "cursor_facts c = cursor_facts (c\<lparr>c_s := x, c_pos := c_pos c + 2\<rparr>)"
    by (rule cursor_facts_same_next)
  with Nil show ?case by (simp add: option.map_ident)
next
  case (Cons po pos)
  obtain p ob where po: "po = (p, ob)" by (cases po)
  let ?c' = "c\<lparr>c_pos := c_pos c + 2\<rparr>"
  let ?f = "\<lparr>sf_s = Some s, sf_p = Some p, sf_o = Some ob, sf_negated = None\<rparr>"
  from Cons.prems have "spec_cursor_next c = Some (Some ?f, ?c')"
    by (subst spec_cursor_next.simps) (simp add: po)
  then have "cursor_facts c = map_option (Cons ?f) (cursor_facts ?c')"
    by (subst cursor_facts.simps) simp
  also have "cursor_facts ?c' = map_option (append (group_facts (Pos s pos)))
       (cursor_facts (?c'\<lparr>c_s := x, c_pos := length (pre @ [Some p, Some ob]) + 2 * length pos + 2\<rparr>))"
    using Cons.prems by (intro Cons.IH) (simp_all add: po)
  finally show ?case
    by (simp add: po option.map_comp comp_def)
qed

lemma cursor_facts_group:
  assumes "group_ok g" and "c_spec c = pre @ group_cells g @ x # suf"
    and "c_s c = hd (group_cells g)" and "c_pos c = Suc (length pre)"
  shows "cursor_facts c = map_option (append (group_facts g))
     (cursor_facts (c\<lparr>c_s := x, c_pos := Suc (length (pre @ group_cells g))\<rparr>))"
proof (cases g)
  case (Pos s pos)
  have "length (concat (map (\<lambda>(p, ob). [Some p, Some ob]) pos)) = 2 * length pos"
    by (induction pos) auto
  with Pos assms cursor_facts_pos [of c "pre @ [Some s]" pos x suf s] show ?thesis
    by simp
next
  case (Neg s p ob)
  with assms have "spec_cursor_next c =
     Some (Some \<lparr>sf_s = Some s, sf_p = Some p, sf_o = Some ob, sf_negated = Some '':not''\<rparr>,
           c\<lparr>c_s := x, c_pos := c_pos c + 5\<rparr>)"
    by (subst spec_cursor_next.simps)
      (simp add: rd_append_offset [where xs = pre and n = 1] rd_append_offset [where xs = pre and n = 2]
        rd_append_offset [where xs = pre and n = 3] rd_append_offset [where xs = pre and n = 4]
        rd_append_offset [where xs = pre and n = 5] numeral_eq_Suc)
  with Neg assms show ?thesis
    by (subst cursor_facts.simps) (simp add: numeral_eq_Suc append_single)
qed

lemma cursor_facts_groups:
  assumes "\<forall>g \<in> set gs. group_ok g"
    and "c_spec c = pre @ spec_of gs @ suf" and "c_s c = hd (spec_of gs)"
    and "c_pos c = Suc (length pre)"
  shows "cursor_facts c = Some (concat (map group_facts gs))"
  using assms
proof (induction gs arbitrary: pre c)
  case Nil
  then have "spec_cursor_next c = Some (None, c)"
    by (subst spec_cursor_next.simps) (simp add: spec_of_def)
  then show ?case
    by (subst cursor_facts.simps) simp
next
  case (Cons g gs)
  obtain x suf' where rest: "spec_of gs @ suf = x # suf'"
    by (cases "spec_of gs @ suf") auto
  then have x: "x = hd (spec_of gs)"
    by (metis hd_append2 list.sel(1) spec_of_Nil_iff)
  have hd: "hd (spec_of (g # gs)) = hd (group_cells g)"
    by (cases g) (auto simp: spec_of_def)
  have "cursor_facts c = map_option (append (group_facts g))
     (cursor_facts (c\<lparr>c_s := x, c_pos := Suc (length (pre @ group_cells g))\<rparr>))"
    using Cons.prems hd rest by (intro cursor_facts_group) (simp_all add: spec_of_def)
  also have "cursor_facts (c\<lparr>c_s := x, c_pos := Suc (length (pre @ group_cells g))\<rparr>)
     = Some (concat (map group_facts gs))"
    using Cons.prems x by (intro Cons.IH [of _ "pre @ group_cells g"]) (simp_all add: spec_of_def)
  finally show ?case by simp
qed

lemma spec_facts_spec_of:
  assumes "\<forall>g \<in> set gs. group_ok g"
  shows "spec_facts (spec_of gs @ suf) = Some (concat (map group_facts gs))"
proof -
  let ?c = "\<lparr>c_spec = spec_of gs @ suf, c_s = hd (spec_of gs), c_pos = 1\<rparr>"
  have "rd (spec_of gs @ suf) 0 = Some (hd (spec_of gs))"
    by (cases "spec_of gs") (use spec_of_Nil_iff [of gs] in \<open>auto simp: rd_def\<close>)
  then have "spec_cursor_init (spec_of gs @ suf) = Some ?c"
    by (simp add: spec_cursor_init_def)
  moreover have "cursor_facts ?c = Some (concat (map group_facts gs))"
    using assms by (intro cursor_facts_groups [of gs ?c "[]" suf]) simp_all
  ultimately show ?thesis by (simp add: spec_facts_def)
qed

section \<open>Bubble sort on arrays\<close>

text \<open>
  The loop of \<^verbatim>\<open>spec_sort\<close> on an array of records with a numeric key: neighbours are swapped
  only when their keys are strictly out of order, so records with one key keep their order
  and the result is the stable sort.
\<close>

definition bubble_step :: "('a \<Rightarrow> nat) \<Rightarrow> nat \<Rightarrow> 'a list \<Rightarrow> 'a list" where
  "bubble_step k j xs =
     (if k (xs ! j) > k (xs ! Suc j) then xs[j := xs ! Suc j, Suc j := xs ! j] else xs)"

definition bubble_row :: "('a \<Rightarrow> nat) \<Rightarrow> nat \<Rightarrow> 'a list \<Rightarrow> 'a list" where
  "bubble_row k m = fold (bubble_step k) [0..<m]"

definition bubble_sort :: "('a \<Rightarrow> nat) \<Rightarrow> 'a list \<Rightarrow> 'a list" where
  "bubble_sort k xs = fold (\<lambda>i. bubble_row k (length xs - i - 1)) [0..<length xs - 1] xs"

definition same_order :: "('a \<Rightarrow> nat) \<Rightarrow> 'a list \<Rightarrow> 'a list \<Rightarrow> bool" where
  "same_order k xs ys \<longleftrightarrow>
     mset ys = mset xs \<and> (\<forall>v. filter (\<lambda>x. v = k x) ys = filter (\<lambda>x. v = k x) xs)"

lemma same_order_refl: "same_order k xs xs"
  by (simp add: same_order_def)

lemma same_order_trans: "same_order k xs ys \<Longrightarrow> same_order k ys zs \<Longrightarrow> same_order k xs zs"
  by (simp add: same_order_def)

lemma same_order_length: "same_order k xs ys \<Longrightarrow> length ys = length xs"
  by (auto simp: same_order_def dest: mset_eq_length)

lemma swap_split:
  assumes "Suc j < length xs"
  shows "xs = take j xs @ xs ! j # xs ! Suc j # drop (j + 2) xs"
    and "xs[j := xs ! Suc j, Suc j := xs ! j] = take j xs @ xs ! Suc j # xs ! j # drop (j + 2) xs"
proof -
  show eq: "xs = take j xs @ xs ! j # xs ! Suc j # drop (j + 2) xs"
    using assms by (simp add: Cons_nth_drop_Suc)
  have "(take j xs @ xs ! j # xs ! Suc j # drop (j + 2) xs)[j := xs ! Suc j, Suc j := xs ! j]
     = take j xs @ xs ! Suc j # xs ! j # drop (j + 2) xs"
    using assms by (simp add: list_update_append)
  with eq show "xs[j := xs ! Suc j, Suc j := xs ! j] = take j xs @ xs ! Suc j # xs ! j # drop (j + 2) xs"
    by metis
qed

lemma bubble_step_same_order:
  assumes "Suc j < length xs"
  shows "same_order k xs (bubble_step k j xs)"
proof (cases "k (xs ! j) > k (xs ! Suc j)")
  case True
  let ?ys = "take j xs @ xs ! Suc j # xs ! j # drop (j + 2) xs"
  have "bubble_step k j xs = ?ys"
    using True swap_split(2) [OF assms] by (simp add: bubble_step_def)
  moreover have "same_order k (take j xs @ xs ! j # xs ! Suc j # drop (j + 2) xs) ?ys"
    using True by (auto simp: same_order_def)
  ultimately show ?thesis
    using swap_split(1) [OF assms] by metis
qed (simp add: bubble_step_def same_order_refl)

text \<open>After \<open>m\<close> steps the largest of the first \<open>m + 1\<close> keys is at \<open>m\<close>; the cells behind are untouched.\<close>

lemma bubble_row_props:
  assumes "m < length xs"
  shows "same_order k xs (bubble_row k m xs)
    \<and> (\<forall>i \<le> m. k (bubble_row k m xs ! i) \<le> k (bubble_row k m xs ! m))
    \<and> (\<forall>i. m < i \<longrightarrow> bubble_row k m xs ! i = xs ! i)
    \<and> (\<forall>i \<le> m. \<exists>i' \<le> m. bubble_row k m xs ! i = xs ! i')"
  using assms
proof (induction m)
  case 0
  then show ?case by (simp add: bubble_row_def same_order_refl)
next
  case (Suc m)
  let ?ys = "bubble_row k m xs"
  let ?zs = "bubble_step k m ?ys"
  have row: "bubble_row k (Suc m) xs = ?zs"
    by (simp add: bubble_row_def)
  from Suc have so: "same_order k xs ?ys"
    and mx: "\<forall>i \<le> m. k (?ys ! i) \<le> k (?ys ! m)"
    and frame: "\<forall>i. m < i \<longrightarrow> ?ys ! i = xs ! i"
    and src: "\<forall>i \<le> m. \<exists>i' \<le> m. ?ys ! i = xs ! i'"
    by simp_all
  have len: "Suc m < length ?ys"
    using Suc.prems so by (simp add: same_order_length)
  have "same_order k xs ?zs"
    using so bubble_step_same_order [OF len] by (rule same_order_trans)
  moreover have "k (?zs ! i) \<le> k (?zs ! Suc m)" if "i \<le> Suc m" for i
    using that len mx by (auto simp: bubble_step_def nth_list_update le_Suc_eq order.strict_implies_order
        intro: order_trans)
  moreover have "?zs ! i = xs ! i" if "Suc m < i" for i
    using that frame by (auto simp: bubble_step_def nth_list_update)
  moreover have "\<exists>i' \<le> Suc m. ?zs ! i = xs ! i'" if i: "i \<le> Suc m" for i
  proof -
    have ys: "\<exists>i' \<le> Suc m. ?ys ! j = xs ! i'" if "j \<le> Suc m" for j
    proof (cases "j \<le> m")
      case True
      with src obtain i' where "i' \<le> m" "?ys ! j = xs ! i'" by blast
      then show ?thesis by (intro exI [of _ i']) simp
    next
      case False
      with that frame have "j = Suc m" "?ys ! j = xs ! j" by simp_all
      then show ?thesis by blast
    qed
    have "?zs ! i \<in> {?ys ! i, ?ys ! m, ?ys ! Suc m}"
      using i len by (auto simp: bubble_step_def nth_list_update)
    with ys i show ?thesis by (metis insertE singletonD le_SucI order_refl)
  qed
  ultimately show ?case unfolding row by blast
qed

definition settled :: "('a \<Rightarrow> nat) \<Rightarrow> nat \<Rightarrow> 'a list \<Rightarrow> bool" where
  "settled k n xs \<longleftrightarrow> (\<forall>a b. a \<le> b \<longrightarrow> n \<le> b \<longrightarrow> b < length xs \<longrightarrow> k (xs ! a) \<le> k (xs ! b))"

lemma bubble_row_settled:
  assumes "settled k (Suc m) xs" "m < length xs"
  shows "settled k m (bubble_row k m xs)"
proof -
  note props = bubble_row_props [OF assms(2), of k]
  let ?ys = "bubble_row k m xs"
  show ?thesis
    unfolding settled_def
  proof (intro allI impI)
    fix a b assume ab: "a \<le> b" "m \<le> b" "b < length ?ys"
    have len: "length ?ys = length xs"
      by (rule same_order_length [OF props [THEN conjunct1]])
    show "k (?ys ! a) \<le> k (?ys ! b)"
    proof (cases "b = m")
      case False
      then have "m < b" using ab by simp
      then have b: "?ys ! b = xs ! b" using props by blast
      obtain a' where "a' \<le> b" "?ys ! a = xs ! a'"
      proof (cases "a \<le> m")
        case True
        with props obtain a' where "a' \<le> m" "?ys ! a = xs ! a'" by blast
        with \<open>m < b\<close> that show ?thesis by (meson le_less_trans less_imp_le)
      next
        case False
        then have "?ys ! a = xs ! a" using props by simp
        with ab that show ?thesis by blast
      qed
      with assms(1) b ab len \<open>m < b\<close> show ?thesis by (simp add: settled_def)
    qed (use props ab in blast)
  qed
qed

lemma bubble_sort_settled:
  "n < length xs \<Longrightarrow>
   (let ys = fold (\<lambda>i. bubble_row k (length xs - i - 1)) [0..<n] xs
    in same_order k xs ys \<and> settled k (length xs - n) ys)"
proof (induction n)
  case 0
  then show ?case by (simp add: same_order_refl settled_def)
next
  case (Suc n)
  let ?ys = "fold (\<lambda>i. bubble_row k (length xs - i - 1)) [0..<n] xs"
  from Suc have so: "same_order k xs ?ys" and st: "settled k (length xs - n) ?ys"
    by (simp_all add: Let_def)
  let ?m = "length xs - n - 1"
  from Suc.prems have m: "Suc ?m = length xs - n" "?m < length ?ys"
    using so by (simp_all add: same_order_length)
  have "same_order k xs (bubble_row k ?m ?ys)"
    using so bubble_row_props [OF m(2)] by (blast intro: same_order_trans)
  moreover have "settled k ?m (bubble_row k ?m ?ys)"
    using st m by (intro bubble_row_settled) simp_all
  ultimately show ?case by (simp add: Let_def)
qed

lemma bubble_sort_eq_sort_key: "bubble_sort k xs = sort_key k xs"
proof (cases "length xs \<le> 1")
  case True
  then have "xs = [] \<or> (\<exists>x. xs = [x])"
    by (cases xs) auto
  then show ?thesis by (auto simp: bubble_sort_def)
next
  case False
  let ?ys = "bubble_sort k xs"
  from False bubble_sort_settled [of "length xs - 1" xs k]
  have so: "same_order k xs ?ys" and st: "settled k 1 ?ys"
    by (simp_all add: bubble_sort_def Let_def)
  have "k (?ys ! a) \<le> k (?ys ! b)" if "a \<le> b" "b < length ?ys" for a b
    using st that by (cases "b = 0") (auto simp: settled_def)
  then have "sorted (map k ?ys)"
    by (simp add: sorted_iff_nth_mono)
  then have "sort_key k xs = ?ys"
    using so by (intro properties_for_sort_key) (auto simp: same_order_def)
  then show ?thesis by simp
qed

section \<open>\<open>spec_sort\<close> is a stable sort of the facts\<close>

definition pos_fact :: "spec_fact \<Rightarrow> bool" where
  "pos_fact f \<longleftrightarrow> sf_negated f = None \<and> sf_p f \<noteq> None \<and> sf_o f \<noteq> None
     \<and> sf_s f \<noteq> None \<and> sf_s f \<noteq> Some '':not''"

definition expanded :: "spec_fact list \<Rightarrow> spec" where
  "expanded fs = concat (map fact_cells fs) @ [None, None]"

definition nvars :: "spec_fact \<Rightarrow> nat" where
  "nvars f = the (count_vars f)"

lemma pos_fact_cells:
  assumes "pos_fact f"
  obtains s p ob where "f = \<lparr>sf_s = Some s, sf_p = Some p, sf_o = Some ob, sf_negated = None\<rparr>"
    and "s \<noteq> '':not''"
proof -
  obtain s p ob n where "f = \<lparr>sf_s = s, sf_p = p, sf_o = ob, sf_negated = n\<rparr>"
    by (cases f) auto
  with assms that show ?thesis by (auto simp: pos_fact_def)
qed

lemma pos_facts_groups:
  assumes "\<forall>f \<in> set fs. pos_fact f"
  shows "\<exists>gs. (\<forall>g \<in> set gs. group_ok g) \<and> concat (map group_facts gs) = fs
     \<and> expanded fs = spec_of gs @ [None]"
  using assms
proof (induction fs)
  case Nil
  show ?case by (rule exI [of _ "[]"]) (simp add: expanded_def spec_of_def)
next
  case (Cons f fs)
  then obtain gs where gs: "\<forall>g \<in> set gs. group_ok g" "concat (map group_facts gs) = fs"
    "expanded fs = spec_of gs @ [None]"
    by auto
  from Cons.prems have "pos_fact f" by simp
  then obtain s p ob where "f = \<lparr>sf_s = Some s, sf_p = Some p, sf_o = Some ob, sf_negated = None\<rparr>"
    "s \<noteq> '':not''"
    by (rule pos_fact_cells)
  with gs show ?case
    by (intro exI [of _ "Pos s [(p, ob)] # gs"]) (simp add: expanded_def spec_of_def fact_cells_def)
qed

lemma spec_facts_expanded:
  assumes "\<forall>f \<in> set fs. pos_fact f"
  shows "spec_facts (expanded fs) = Some fs"
  using pos_facts_groups [OF assms] spec_facts_spec_of by metis

lemma get4_expanded: "j < length fs \<Longrightarrow> get4 (expanded fs) j = Some (fs ! j)"
proof (induction fs arbitrary: j)
  case (Cons f fs)
  show ?case
  proof (cases j)
    case 0
    then show ?thesis by (simp add: get4_def expanded_def fact_cells_def numeral_eq_Suc)
  next
    case (Suc i)
    with Cons.prems Cons.IH [of i] show ?thesis
      by (simp add: get4_def expanded_def fact_cells_def numeral_eq_Suc)
  qed
qed simp

lemma put4_expanded: "j < length fs \<Longrightarrow> put4 (expanded fs) j f = expanded (fs[j := f])"
proof (induction fs arbitrary: j)
  case (Cons g fs)
  show ?case
  proof (cases j)
    case 0
    then show ?thesis by (simp add: put4_def expanded_def fact_cells_def numeral_eq_Suc)
  next
    case (Suc i)
    with Cons.prems Cons.IH [of i] show ?thesis
      by (simp add: put4_def expanded_def fact_cells_def numeral_eq_Suc)
  qed
qed simp

lemma sort_step_expanded:
  assumes "\<forall>f \<in> set fs. pos_fact f" and "Suc j < length fs"
  shows "sort_step j (expanded fs) = Some (expanded (bubble_step nvars j fs))"
proof -
  have "count_vars f = Some (nvars f)" if "pos_fact f" for f
    using that by (auto simp: nvars_def count_vars_def pos_fact_def)
  then have "count_vars (fs ! j) = Some (nvars (fs ! j))"
    "count_vars (fs ! Suc j) = Some (nvars (fs ! Suc j))"
    using assms by simp_all
  with assms(2) show ?thesis
    by (simp add: sort_step_def get4_expanded put4_expanded fact_compare_bindings_def bubble_step_def)
qed

lemma sort_row_expanded:
  assumes "\<forall>f \<in> set fs. pos_fact f" and "m < length fs"
  shows "fold_opt sort_step [0..<m] (expanded fs) = Some (expanded (bubble_row nvars m fs))"
proof -
  let ?P = "\<lambda>gs. (\<forall>f \<in> set gs. pos_fact f) \<and> length gs = length fs"
  have "fold_opt sort_step [0..<m] (expanded fs)
      = Some (expanded (fold (bubble_step nvars) [0..<m] fs)) \<and> ?P (fold (bubble_step nvars) [0..<m] fs)"
  proof (rule fold_opt_sim)
    fix j gs assume "j \<in> set [0..<m]" and gs: "?P gs"
    with assms(2) have j: "Suc j < length gs" by simp
    have "same_order nvars gs (bubble_step nvars j gs)"
      by (rule bubble_step_same_order [OF j])
    then show "sort_step j (expanded gs) = Some (expanded (bubble_step nvars j gs))
        \<and> ?P (bubble_step nvars j gs)"
      using gs j by (auto simp: sort_step_expanded same_order_length same_order_def dest: mset_eq_setD)
  qed (use assms in simp)
  then show ?thesis by (simp add: bubble_row_def)
qed

lemma spec_sort_expanded:
  assumes "\<forall>f \<in> set fs. pos_fact f"
  shows "spec_sort (expanded fs) = Some (expanded (sort_key nvars fs))"
proof -
  let ?n = "length fs"
  let ?P = "\<lambda>gs. (\<forall>f \<in> set gs. pos_fact f) \<and> length gs = ?n"
  have "fold_opt (\<lambda>i. fold_opt sort_step [0..<?n - i - 1]) [0..<?n - 1] (expanded fs)
      = Some (expanded (bubble_sort nvars fs))"
    if "?n \<noteq> 0"
    unfolding bubble_sort_def
  proof (rule fold_opt_sim [where P = ?P, THEN conjunct1])
    fix i gs assume i: "i \<in> set [0..<?n - 1]" and gs: "?P gs"
    then have m: "?n - i - 1 < length gs" using that by simp
    have "same_order nvars gs (bubble_row nvars (?n - i - 1) gs)"
      using bubble_row_props [OF m] by blast
    then show "fold_opt sort_step [0..<?n - i - 1] (expanded gs)
        = Some (expanded (bubble_row nvars (?n - i - 1) gs)) \<and> ?P (bubble_row nvars (?n - i - 1) gs)"
      using gs m by (auto simp: sort_row_expanded same_order_length same_order_def dest: mset_eq_setD)
  qed (use assms in simp)
  then show ?thesis
    using assms by (simp add: spec_sort_def spec_count_facts_def spec_facts_expanded bubble_sort_eq_sort_key)
qed

section \<open>Properties\<close>

text \<open>
  C13: the cursor reads a well-formed specification (groups of a subject with its
  predicate/object pairs, and negated triples) as exactly the list of its facts, in order,
  without a read outside the array, and \<^verbatim>\<open>spec_count_facts\<close> is their number; cells after the
  terminator are never looked at.
\<close>

theorem spec_cursor_reads_facts:
  assumes "\<forall>g \<in> set gs. group_ok g"
  shows "spec_facts (spec_of gs @ suf) = Some (concat (map group_facts gs))
     \<and> spec_count_facts (spec_of gs @ suf) = Some (length (concat (map group_facts gs)))"
  using spec_facts_spec_of [OF assms, of suf] by (simp add: spec_count_facts_def)

theorem spec_cursor_reads_facts_witness:
  "spec_count_facts (spec_of [Pos ''?x'' [(''a'', ''b''), (''c'', ''?y'')], Neg ''?x'' ''d'' ''e''] @ [])
     = Some 3"
  using spec_cursor_reads_facts [of "[Pos ''?x'' [(''a'', ''b''), (''c'', ''?y'')], Neg ''?x'' ''d'' ''e'']" "[]"]
  by simp

text \<open>
  C14: \<^verbatim>\<open>spec_sort\<close> on an expanded specification of positive facts stays inside the array and
  leaves the stable sort of its facts by their number of variables.
\<close>

theorem spec_sort_stable:
  assumes "\<forall>f \<in> set fs. pos_fact f"
  shows "spec_sort (expanded fs) = Some (expanded (sort_key nvars fs))"
  using assms by (rule spec_sort_expanded)

theorem spec_sort_stable_witness:
  "\<exists>fs. length fs = 2 \<and> spec_sort (expanded fs) = Some (expanded (rev fs)) \<and> rev fs \<noteq> fs"
proof -
  let ?a = "\<lparr>sf_s = Some ''?x'', sf_p = Some ''p'', sf_o = Some ''?y'', sf_negated = None\<rparr>"
  let ?b = "\<lparr>sf_s = Some ''a'', sf_p = Some ''p'', sf_o = Some ''b'', sf_negated = None\<rparr>"
  have "spec_sort (expanded [?a, ?b]) = Some (expanded (sort_key nvars [?a, ?b]))"
    by (rule spec_sort_stable) (simp add: pos_fact_def)
  also have "sort_key nvars [?a, ?b] = rev [?a, ?b]"
    by (simp add: nvars_def count_vars_def)
  finally show ?thesis by (intro exI [of _ "[?a, ?b]"]) simp
qed

end
