(* ===== verification/Hashset.thy ===== *)
theory Hashset
  imports Prelude
begin

text \<open>
  \<^verbatim>\<open>include/set.h\<close> and \<^verbatim>\<open>lib/set.c\<close>: the hash set with open addressing, linear probing and
  backward-shift deletion. An item holds a pointer to its data and the length of the data;
  a length of 0 marks a free slot. The model is polymorphic in the pointers \<open>'d\<close> and in what
  a pointer's bytes are (\<open>'k\<close>): \<open>rd d len\<close> is the content of the \<open>len\<close> bytes at \<open>d\<close>, so
  \<^verbatim>\<open>memcmp(a, b, len) == 0\<close> is \<open>rd a len = rd b len\<close>. The hash function is the field
  \<open>set_hash\<close>; the one \<^verbatim>\<open>set_init\<close> installs (\<^verbatim>\<open>wyhash\<close>, from a third-party header) is a parameter.
  Item pointers are indices into the array. Sizes are natural numbers: the array has at most
  \<open>SIZE_MAX div 64\<close> slots (\<^verbatim>\<open>sizeof(s_set_item)\<close> is 64), so no index or count overflows.
\<close>

section \<open>State\<close>

record 'd set_item =
  it_data :: "'d option"
  it_len :: nat
  it_hash :: u64
  it_usage :: u64
  it_long_p :: nat
  it_long_value :: u64
  it_double_p :: nat
  it_double_value :: u64

record ('d, 'k) set_tbl =
  set_max :: nat
  set_items :: "'d set_item list"
  set_count :: nat
  set_collisions :: nat
  set_hash :: "'k \<Rightarrow> nat \<Rightarrow> u64"

text \<open>What \<^verbatim>\<open>calloc\<close> leaves in a slot, and what clearing a slot leaves of an item.\<close>

definition zero_item :: "'d set_item" where
  "zero_item =
     \<lparr>it_data = None, it_len = 0, it_hash = 0, it_usage = 0, it_long_p = 0, it_long_value = 0,
      it_double_p = 0, it_double_value = 0\<rparr>"

definition clear_item :: "'d set_item \<Rightarrow> 'd set_item" where
  "clear_item it = it\<lparr>it_len := 0, it_data := None\<rparr>"

definition occ :: "'d set_item \<Rightarrow> bool" where
  "occ it \<longleftrightarrow> it_len it > 0"

definition home :: "nat \<Rightarrow> 'd set_item \<Rightarrow> nat" where
  "home n it = unat (it_hash it) mod n"

section \<open>Creation and destruction\<close>

definition set_init_checked ::
  "('k \<Rightarrow> nat \<Rightarrow> u64) \<Rightarrow> nat \<Rightarrow> ('d, 'k) set_tbl \<Rightarrow> mem \<Rightarrow> int \<times> ('d, 'k) set_tbl \<times> mem" where
  "set_init_checked wyhash mx S h =
     (if mx = 0 \<or> mx > SIZE_MAX div 64 then (- 1, S, h)
      else (case malloc h of
              (False, h') \<Rightarrow> (- 1, S, h')
            | (True, h') \<Rightarrow>
                (0, \<lparr>set_max = mx, set_items = replicate mx zero_item, set_count = 0,
                     set_collisions = 0, set_hash = wyhash\<rparr>, h')))"

text \<open>\<^verbatim>\<open>set_init\<close> asserts that \<^verbatim>\<open>set_init_checked\<close> returned 0; \<open>None\<close> is the failed assertion.\<close>

definition set_init ::
  "('k \<Rightarrow> nat \<Rightarrow> u64) \<Rightarrow> nat \<Rightarrow> ('d, 'k) set_tbl \<Rightarrow> mem \<Rightarrow> (('d, 'k) set_tbl \<times> mem) option" where
  "set_init wyhash mx S h =
     (case set_init_checked wyhash mx S h of
        (r, S', h') \<Rightarrow> if r = 0 then Some (S', h') else None)"

definition set_destroy :: "('d, 'k) set_tbl \<Rightarrow> ('d, 'k) set_tbl" where
  "set_destroy S = S\<lparr>set_items := [], set_max := 0, set_count := 0, set_collisions := 0\<rparr>"

definition new_set ::
  "('k \<Rightarrow> nat \<Rightarrow> u64) \<Rightarrow> nat \<Rightarrow> ('d, 'k) set_tbl \<Rightarrow> mem \<Rightarrow> ('d, 'k) set_tbl option \<times> mem" where
  "new_set wyhash mx garbage h =
     (case malloc h of
        (False, h1) \<Rightarrow> (None, h1)
      | (True, h1) \<Rightarrow>
          (case set_init_checked wyhash mx garbage h1 of
             (r, S, h2) \<Rightarrow> (if r \<noteq> 0 then None else Some S, h2)))"

section \<open>Probing\<close>

definition next_slot :: "nat \<Rightarrow> nat \<Rightarrow> nat" where
  "next_slot n i = (i + 1) mod n"

definition item_matches ::
  "('d \<Rightarrow> nat \<Rightarrow> 'k) \<Rightarrow> 'k \<Rightarrow> nat \<Rightarrow> u64 \<Rightarrow> 'd set_item \<Rightarrow> bool" where
  "item_matches rd k len hash it \<longleftrightarrow>
     it_hash it = hash \<and> it_len it = len \<and> map_option (\<lambda>d. rd d len) (it_data it) = Some k"

text \<open>
  The loop \<^verbatim>\<open>while (items[i].len > 0)\<close> of \<^verbatim>\<open>set_add_h\<close> and \<^verbatim>\<open>set_get_h\<close>: the slot where it
  stops, free or matching. \<open>None\<close>: it never stops.
\<close>

partial_function (option) set_probe ::
  "('d set_item \<Rightarrow> bool) \<Rightarrow> 'd set_item list \<Rightarrow> nat \<Rightarrow> nat option" where
  "set_probe matches items i =
     (if occ (items ! i) then
        (if matches (items ! i) then Some i
         else set_probe matches items (next_slot (length items) i))
      else Some i)"

definition set_get_h ::
  "('d \<Rightarrow> nat \<Rightarrow> 'k) \<Rightarrow> ('d, 'k) set_tbl \<Rightarrow> 'k \<Rightarrow> nat \<Rightarrow> u64 \<Rightarrow> nat option option" where
  "set_get_h rd S k len hash =
     (if set_max S = 0 then Some None
      else (case set_probe (item_matches rd k len hash) (set_items S) (unat hash mod set_max S) of
              None \<Rightarrow> None
            | Some i \<Rightarrow> Some (if occ (set_items S ! i) then Some i else None)))"

text \<open>The code asserts that the length is positive; a build without assertions does this for any length.\<close>

definition set_get ::
  "('d \<Rightarrow> nat \<Rightarrow> 'k) \<Rightarrow> ('d, 'k) set_tbl \<Rightarrow> 'k \<Rightarrow> nat \<Rightarrow> nat option option" where
  "set_get rd S k len = set_get_h rd S k len (set_hash S k len)"

section \<open>Insertion and resizing\<close>

definition set_store :: "('d, 'k) set_tbl \<Rightarrow> nat \<Rightarrow> 'd \<Rightarrow> nat \<Rightarrow> u64 \<Rightarrow> ('d, 'k) set_tbl" where
  "set_store S i data len hash =
     S\<lparr>set_collisions :=
          (if i \<noteq> unat hash mod set_max S then set_collisions S + 1 else set_collisions S),
       set_items := (set_items S)
         [i := \<lparr>it_data = Some data, it_len = len, it_hash = hash, it_usage = 0, it_long_p = 0,
                it_long_value = 0, it_double_p = 0, it_double_value = 0\<rparr>],
       set_count := set_count S + 1\<rparr>"

text \<open>The part of \<^verbatim>\<open>set_add_h\<close> after the load check.\<close>

definition set_insert ::
  "('d \<Rightarrow> nat \<Rightarrow> 'k) \<Rightarrow> 'd \<Rightarrow> nat \<Rightarrow> u64 \<Rightarrow> ('d, 'k) set_tbl \<Rightarrow> (nat \<times> ('d, 'k) set_tbl) option" where
  "set_insert rd data len hash S =
     (case set_probe (item_matches rd (rd data len) len hash) (set_items S)
             (unat hash mod set_max S) of
        None \<Rightarrow> None
      | Some i \<Rightarrow>
          Some (if occ (set_items S ! i) then (i, S) else (i, set_store S i data len hash)))"

text \<open>
  The loop of \<^verbatim>\<open>set_resize_checked\<close> over the old items, with the insertion as a parameter:
  \<open>Some (False, \<dots>)\<close> when an insertion failed.
\<close>

fun reinsert ::
  "('d set_item \<Rightarrow> ('d, 'k) set_tbl \<Rightarrow> mem \<Rightarrow> (nat option \<times> ('d, 'k) set_tbl \<times> mem) option) \<Rightarrow>
   'd set_item list \<Rightarrow> ('d, 'k) set_tbl \<Rightarrow> mem \<Rightarrow> (bool \<times> ('d, 'k) set_tbl \<times> mem) option" where
  "reinsert add [] S h = Some (True, S, h)"
| "reinsert add (it # its) S h =
     (if occ it then
        (case add it S h of
           None \<Rightarrow> None
         | Some (None, S', h') \<Rightarrow> Some (False, S', h')
         | Some (Some j, S', h') \<Rightarrow>
             reinsert add its
               (S'\<lparr>set_items := (set_items S')
                  [j := (set_items S' ! j)
                     \<lparr>it_usage := it_usage it, it_long_p := it_long_p it,
                      it_long_value := it_long_value it, it_double_p := it_double_p it,
                      it_double_value := it_double_value it\<rparr>]\<rparr>) h')
      else reinsert add its S h)"

definition count_occ :: "'d set_item list \<Rightarrow> nat" where
  "count_occ its = length (filter occ its)"

definition count_coll :: "'d set_item list \<Rightarrow> nat" where
  "count_coll its =
     length (filter (\<lambda>j. occ (its ! j) \<and> j \<noteq> home (length its) (its ! j)) [0..<length its])"

text \<open>
  \<^verbatim>\<open>set_add_h\<close> and \<^verbatim>\<open>set_resize_checked\<close> call each other; the fuel bounds the depth of that
  recursion (\<open>None\<close> when it runs out, or when a probe never stops).
\<close>

fun set_add_fuel ::
    "nat \<Rightarrow> ('d \<Rightarrow> nat \<Rightarrow> 'k) \<Rightarrow> 'd option \<Rightarrow> nat \<Rightarrow> u64 \<Rightarrow> ('d, 'k) set_tbl \<Rightarrow> mem \<Rightarrow>
     (nat option \<times> ('d, 'k) set_tbl \<times> mem) option"
  and set_resize_fuel ::
    "nat \<Rightarrow> ('d \<Rightarrow> nat \<Rightarrow> 'k) \<Rightarrow> nat \<Rightarrow> ('d, 'k) set_tbl \<Rightarrow> mem \<Rightarrow>
     (int \<times> ('d, 'k) set_tbl \<times> mem) option" where
  "set_add_fuel n rd None len hash S h = None"
| "set_add_fuel 0 rd (Some data) len hash S h = None"
| "set_add_fuel (Suc n) rd (Some data) len hash S h =
     (if set_count S * 2 \<ge> set_max S then
        (if set_max S > SIZE_MAX div 2 then Some (None, S, h)
         else (case set_resize_fuel n rd (set_max S * 2) S h of
                 None \<Rightarrow> None
               | Some (r, S', h') \<Rightarrow>
                   if r \<noteq> 0 then Some (None, S', h')
                   else map_option (\<lambda>(i, S''). (Some i, S'', h')) (set_insert rd data len hash S')))
      else map_option (\<lambda>(i, S''). (Some i, S'', h)) (set_insert rd data len hash S))"
| "set_resize_fuel 0 rd mx S h = None"
| "set_resize_fuel (Suc n) rd mx S h =
     (if mx = 0 \<or> mx > SIZE_MAX div 64 then Some (- 1, S, h)
      else if mx = set_max S then Some (0, S, h)
      else if mx < set_count S then Some (- 1, S, h)
      else (case malloc h of
              (False, h') \<Rightarrow> Some (- 1, S, h')
            | (True, h') \<Rightarrow>
                (case reinsert (\<lambda>it. set_add_fuel n rd (it_data it) (it_len it) (it_hash it))
                        (set_items S)
                        (S\<lparr>set_max := mx, set_items := replicate mx zero_item,
                           set_count := 0, set_collisions := 0\<rparr>) h' of
                   None \<Rightarrow> None
                 | Some (True, S', h'') \<Rightarrow> Some (0, S', h'')
                 | Some (False, S', h'') \<Rightarrow>
                     Some (- 1, S'\<lparr>set_items := set_items S, set_max := set_max S,
                                   set_count := count_occ (set_items S),
                                   set_collisions := count_coll (set_items S)\<rparr>, h''))))"

text \<open>The deepest chain is a resize whose reinsertion resizes once more.\<close>

definition set_add_h ::
  "('d \<Rightarrow> nat \<Rightarrow> 'k) \<Rightarrow> ('d, 'k) set_tbl \<Rightarrow> 'd \<Rightarrow> nat \<Rightarrow> u64 \<Rightarrow> mem \<Rightarrow>
   (nat option \<times> ('d, 'k) set_tbl \<times> mem) option" where
  "set_add_h rd S data len hash h = set_add_fuel 5 rd (Some data) len hash S h"

definition set_add ::
  "('d \<Rightarrow> nat \<Rightarrow> 'k) \<Rightarrow> ('d, 'k) set_tbl \<Rightarrow> 'd \<Rightarrow> nat \<Rightarrow> mem \<Rightarrow>
   (nat option \<times> ('d, 'k) set_tbl \<times> mem) option" where
  "set_add rd S data len h = set_add_h rd S data len (set_hash S (rd data len) len) h"

definition set_resize_checked ::
  "('d \<Rightarrow> nat \<Rightarrow> 'k) \<Rightarrow> ('d, 'k) set_tbl \<Rightarrow> nat \<Rightarrow> mem \<Rightarrow> (int \<times> ('d, 'k) set_tbl \<times> mem) option" where
  "set_resize_checked rd S mx h = set_resize_fuel 6 rd mx S h"

section \<open>Deletion\<close>

definition can_move :: "nat \<Rightarrow> nat \<Rightarrow> nat \<Rightarrow> bool" where
  "can_move i j bucket = (if i < j then bucket \<le> i \<or> bucket > j else bucket \<le> i \<and> bucket > j)"

definition moved_collisions :: "nat \<Rightarrow> nat \<Rightarrow> nat \<Rightarrow> nat \<Rightarrow> nat" where
  "moved_collisions coll i j bucket =
     (let was_collision = (j \<noteq> bucket); is_collision = (i \<noteq> bucket)
      in if was_collision \<and> \<not> is_collision then coll - 1
         else if \<not> was_collision \<and> is_collision then coll + 1 else coll)"

text \<open>The loop of \<^verbatim>\<open>set_remove\<close>: \<open>i\<close> is the free slot, \<open>j\<close> the slot last looked at.\<close>

partial_function (option) remove_shift ::
  "'d set_item list \<Rightarrow> nat \<Rightarrow> nat \<Rightarrow> nat \<Rightarrow> ('d set_item list \<times> nat) option" where
  "remove_shift items coll i j0 =
     (let n = length items; j = next_slot n j0
      in if \<not> occ (items ! j) then Some (items, coll)
         else (let bucket = home n (items ! j)
               in if can_move i j bucket
                  then remove_shift (items[i := items ! j, j := clear_item (items ! j)])
                         (moved_collisions coll i j bucket) j j
                  else remove_shift items coll i j))"

definition set_remove :: "('d, 'k) set_tbl \<Rightarrow> int option \<Rightarrow> (nat \<times> ('d, 'k) set_tbl) option" where
  "set_remove S item =
     (case item of
        None \<Rightarrow> Some (0, S)
      | Some p \<Rightarrow>
          if p < 0 \<or> p \<ge> int (set_max S) then Some (0, S)
          else let i = nat p; it = set_items S ! i in
            if \<not> occ it then Some (0, S)
            else
              let coll = (if i \<noteq> home (set_max S) it then set_collisions S - 1 else set_collisions S)
              in map_option
                   (\<lambda>(items', coll').
                      (1, S\<lparr>set_items := items', set_collisions := coll',
                            set_count := set_count S - 1\<rparr>))
                   (remove_shift ((set_items S)[i := clear_item it]) coll i i))"

section \<open>Iteration\<close>

record set_cursor =
  cur_i :: nat
  cur_item :: "nat option"
  cur_count :: nat

definition set_cursor_init :: set_cursor where
  "set_cursor_init = \<lparr>cur_i = 0, cur_item = None, cur_count = 0\<rparr>"

text \<open>The scan from slot \<open>i\<close>: the next occupied slot and the position after it.\<close>

function cursor_scan :: "('d, 'k) set_tbl \<Rightarrow> set_cursor \<Rightarrow> nat option \<times> set_cursor" where
  "cursor_scan S c =
     (if cur_i c < set_max S then
        (if occ (set_items S ! cur_i c)
         then (Some (cur_i c), c\<lparr>cur_i := cur_i c + 1, cur_count := cur_count c + 1\<rparr>)
         else cursor_scan S (c\<lparr>cur_i := cur_i c + 1\<rparr>))
      else (None, c))"
  by pat_completeness auto
termination
  by (relation "measure (\<lambda>(S, c). set_max S - cur_i c)") auto

declare cursor_scan.simps [simp del]

definition set_cursor_next :: "('d, 'k) set_tbl \<Rightarrow> set_cursor \<Rightarrow> nat option \<times> set_cursor" where
  "set_cursor_next S c =
     (if cur_count c \<ge> set_count S then (None, c) else cursor_scan S c)"

end
