(* ===== verification/Hashset_Inv.thy ===== *)
theory Hashset_Inv
  imports Hashset
begin

text \<open>
  Correctness of the hash set: the probing invariant (every slot between an item's home and
  its position is occupied), what a lookup returns, that insertion, resizing and
  backward-shift deletion keep the invariant and change the content as they should, and that
  the counters are exact. Content is the multiset of the occupied items.
\<close>

section \<open>Cyclic distance\<close>

definition cd :: "nat \<Rightarrow> nat \<Rightarrow> nat \<Rightarrow> nat" where
  "cd n a b = (if a \<le> b then b - a else b + n - a)"

lemma next_slot_eq: "i < n \<Longrightarrow> next_slot n i = (if Suc i = n then 0 else Suc i)"
  by (simp add: next_slot_def)

lemma next_slot_less: "i < n \<Longrightarrow> next_slot n i < n"
  by (simp add: next_slot_def)

lemma cd_self [simp]: "cd n a a = 0"
  by (simp add: cd_def)

lemma cd_eq_0: "a < n \<Longrightarrow> b < n \<Longrightarrow> cd n a b = 0 \<longleftrightarrow> a = b"
  by (auto simp: cd_def)

lemma cd_next:
  "s < n \<Longrightarrow> e < n \<Longrightarrow> s \<noteq> e \<Longrightarrow> Suc (cd n (next_slot n s) e) = cd n s e"
  by (auto simp: next_slot_eq cd_def)

lemma cd_inj: "s < n \<Longrightarrow> x < n \<Longrightarrow> y < n \<Longrightarrow> cd n s x = cd n s y \<longleftrightarrow> x = y"
  by (auto simp: cd_def split: if_splits)

lemma can_move_iff:
  assumes "i < n" "j < n" "b < n" "i \<noteq> j"
  shows "can_move i j b \<longleftrightarrow> cd n b i < cd n b j"
  using assms by (auto simp: can_move_def cd_def)

section \<open>Content and invariant\<close>

definition occ_items :: "'d set_item list \<Rightarrow> 'd set_item multiset" where
  "occ_items its = filter_mset occ (mset its)"

definition probe_inv :: "'d set_item list \<Rightarrow> bool" where
  "probe_inv its \<longleftrightarrow>
     (let n = length its in
      \<forall>y < n. occ (its ! y) \<longrightarrow>
        (\<forall>x < n. cd n (home n (its ! y)) x < cd n (home n (its ! y)) y \<longrightarrow> occ (its ! x)))"

definition ikey :: "('d \<Rightarrow> nat \<Rightarrow> 'k) \<Rightarrow> 'd set_item \<Rightarrow> u64 \<times> nat \<times> 'k option" where
  "ikey rd it = (it_hash it, it_len it, map_option (\<lambda>d. rd d (it_len it)) (it_data it))"

definition content_ok ::
  "('d \<Rightarrow> nat \<Rightarrow> 'k) \<Rightarrow> ('k \<Rightarrow> nat \<Rightarrow> u64) \<Rightarrow> 'd set_item multiset \<Rightarrow> bool" where
  "content_ok rd hf M \<longleftrightarrow>
     (\<forall>k. size (filter_mset (\<lambda>it. ikey rd it = k) M) \<le> 1) \<and>
     (\<forall>it \<in># M. \<exists>d. it_data it = Some d \<and> it_hash it = hf (rd d (it_len it)) (it_len it))"

definition set_inv :: "('d \<Rightarrow> nat \<Rightarrow> 'k) \<Rightarrow> ('d, 'k) set_tbl \<Rightarrow> bool" where
  "set_inv rd S \<longleftrightarrow>
     length (set_items S) = set_max S \<and> 2 \<le> set_max S \<and> set_max S \<le> SIZE_MAX div 64 \<and>
     set_count S = count_occ (set_items S) \<and> set_collisions S = count_coll (set_items S) \<and>
     set_count S * 2 \<le> set_max S + 1 \<and>
     probe_inv (set_items S) \<and> content_ok rd (set_hash S) (occ_items (set_items S))"

definition set_content :: "('d, 'k) set_tbl \<Rightarrow> 'd set_item multiset" where
  "set_content S = occ_items (set_items S)"

lemma item_matches_ikey: "item_matches rd k len hash it \<longleftrightarrow> ikey rd it = (hash, len, Some k)"
  by (auto simp: item_matches_def ikey_def)

lemma size_occ_items: "size (occ_items its) = count_occ its"
  by (simp add: occ_items_def count_occ_def flip: mset_filter)

lemma mem_occ_items: "it \<in># occ_items its \<longleftrightarrow> (\<exists>i < length its. its ! i = it \<and> occ it)"
  by (auto simp: occ_items_def in_set_conv_nth)

lemma occ_items_update:
  "i < length its \<Longrightarrow>
   occ_items (its[i := it]) + (if occ (its ! i) then {#its ! i#} else {#})
     = occ_items its + (if occ it then {#it#} else {#})"
  by (auto simp: occ_items_def mset_update)

lemma content_ok_unique:
  assumes "content_ok rd hf (occ_items its)" "i < length its" "j < length its"
    and "occ (its ! i)" "occ (its ! j)" "ikey rd (its ! i) = ikey rd (its ! j)"
  shows "i = j"
proof (rule ccontr)
  assume "i \<noteq> j"
  let ?P = "\<lambda>it. occ it \<and> ikey rd it = ikey rd (its ! i)"
  let ?I = "{x. x < length its \<and> ?P (its ! x)}"
  have "card {i, j} \<le> card ?I"
    using assms by (intro card_mono) auto
  then have "2 \<le> length (filter ?P its)"
    using \<open>i \<noteq> j\<close> by (simp add: length_filter_conv_card)
  also have "length (filter ?P its) = size (filter_mset (\<lambda>it. ikey rd it = ikey rd (its ! i)) (occ_items its))"
    by (simp add: occ_items_def filter_filter_mset conj_commute flip: mset_filter size_mset)
  also have "\<dots> \<le> 1"
    using assms(1) unfolding content_ok_def by blast
  finally show False by simp
qed

section \<open>Counters under an update\<close>

lemma filter_upt_update:
  assumes "i < n" "\<And>j. j < n \<Longrightarrow> j \<noteq> i \<Longrightarrow> Q j = P j"
  shows "length (filter Q [0..<n]) + of_bool (P i) = length (filter P [0..<n]) + of_bool (Q i)"
proof -
  have "[0..<n] = [0..<i] @ [i..<n]"
    using upt_add_eq_append [of 0 i "n - i"] assms(1) by simp
  also have "[i..<n] = i # [Suc i..<n]"
    using assms(1) by (rule upt_conv_Cons)
  finally have split: "[0..<n] = [0..<i] @ i # [Suc i..<n]" .
  have "filter Q [0..<i] = filter P [0..<i]" "filter Q [Suc i..<n] = filter P [Suc i..<n]"
    using assms by (auto intro: filter_cong)
  then show ?thesis by (simp add: split)
qed

definition off_home :: "nat \<Rightarrow> nat \<Rightarrow> 'd set_item \<Rightarrow> bool" where
  "off_home n j it \<longleftrightarrow> occ it \<and> j \<noteq> home n it"

lemma count_coll_update:
  assumes "i < length its"
  shows "count_coll (its[i := it]) + of_bool (off_home (length its) i (its ! i))
       = count_coll its + of_bool (off_home (length its) i it)"
  using filter_upt_update [OF assms, of "\<lambda>j. off_home (length its) j (its[i := it] ! j)"
      "\<lambda>j. off_home (length its) j (its ! j)"] assms
  by (simp add: count_coll_def off_home_def)

lemma count_occ_update:
  "i < length its \<Longrightarrow>
   count_occ (its[i := it]) + (if occ (its ! i) then 1 else 0) = count_occ its + (if occ it then 1 else 0)"
  unfolding count_occ_def by (rule filter_update_length)

lemma count_occ_le: "count_occ its \<le> length its"
  by (simp add: count_occ_def)

lemma free_slot_exists:
  assumes "count_occ its < length its"
  obtains e where "e < length its" "\<not> occ (its ! e)"
proof -
  have "\<not> (\<forall>it \<in> set its. occ it)"
    using assms by (metis count_occ_def length_filter_conv_all nat_neq_iff)
  with that show ?thesis by (auto simp: in_set_conv_nth)
qed

section \<open>Probing\<close>

declare set_probe.simps [code] remove_shift.simps [code]

lemma set_probe_stops:
  assumes "s < length its" "e < length its" "\<not> occ (its ! e)"
  shows "\<exists>i < length its. set_probe P its s = Some i \<and> (occ (its ! i) \<longrightarrow> P (its ! i))
     \<and> cd (length its) s i \<le> cd (length its) s e
     \<and> (\<forall>x < length its. cd (length its) s x < cd (length its) s i \<longrightarrow> occ (its ! x) \<and> \<not> P (its ! x))"
  using assms
proof (induction "cd (length its) s e" arbitrary: s)
  case 0
  then have "s = e" by (simp add: cd_eq_0)
  with 0 show ?case by (intro exI [of _ e]) (simp add: set_probe.simps)
next
  case (Suc d)
  let ?n = "length its"
  show ?case
  proof (cases "occ (its ! s) \<and> \<not> P (its ! s)")
    case False
    then show ?thesis
      using Suc.prems by (intro exI [of _ s]) (auto simp: set_probe.simps)
  next
    case True
    let ?t = "next_slot ?n s"
    from True Suc.prems have "s \<noteq> e" by blast
    have t: "?t < ?n" using Suc.prems(1) by (rule next_slot_less)
    have "d = cd ?n ?t e"
      using cd_next [OF Suc.prems(1,2) \<open>s \<noteq> e\<close>] Suc.hyps(2) by simp
    from Suc.hyps(1) [OF this t Suc.prems(2,3)] obtain i where i: "i < ?n" "set_probe P its ?t = Some i"
      "occ (its ! i) \<longrightarrow> P (its ! i)" "cd ?n ?t i \<le> cd ?n ?t e"
      and bef: "\<forall>x < ?n. cd ?n ?t x < cd ?n ?t i \<longrightarrow> occ (its ! x) \<and> \<not> P (its ! x)"
      by blast
    have "i \<noteq> s"
    proof
      assume "i = s"
      then have "cd ?n ?t i = ?n - 1"
        using Suc.prems(1) by (auto simp: next_slot_eq cd_def)
      moreover have "cd ?n ?t e < ?n - 1"
        using Suc.prems(1,2) \<open>s \<noteq> e\<close> by (auto simp: next_slot_eq cd_def)
      ultimately show False using i(4) by simp
    qed
    have "occ (its ! x) \<and> \<not> P (its ! x)" if "x < ?n" "cd ?n s x < cd ?n s i" for x
    proof (cases "x = s")
      case False
      with that cd_next [of s ?n x] cd_next [of s ?n i] Suc.prems(1) i(1) \<open>i \<noteq> s\<close> bef
      show ?thesis by (metis Suc_less_eq)
    qed (use True in simp)
    moreover have "set_probe P its s = Some i"
      using True i(2) by (simp add: set_probe.simps)
    moreover have "cd ?n s i \<le> cd ?n s e"
      using i cd_next [of s ?n e] cd_next [of s ?n i] Suc.prems \<open>i \<noteq> s\<close> \<open>s \<noteq> e\<close>
      by (metis Suc_le_mono)
    ultimately show ?thesis using i by blast
  qed
qed

text \<open>A probe from the home of an item with the wanted key stops at that item.\<close>

lemma set_probe_finds:
  assumes inv: "probe_inv its" and free: "e < length its" "\<not> occ (its ! e)"
    and y: "y < length its" "occ (its ! y)" "P (its ! y)"
    and uniq: "\<And>x. x < length its \<Longrightarrow> occ (its ! x) \<Longrightarrow> P (its ! x) \<Longrightarrow> x = y"
  shows "set_probe P its (home (length its) (its ! y)) = Some y"
proof -
  let ?n = "length its" and ?h = "home (length its) (its ! y)"
  have "0 < ?n" using y(1) by linarith
  then have h: "?h < ?n" by (simp add: home_def)
  from set_probe_stops [OF h free, of P] obtain i where i: "i < ?n" "set_probe P its ?h = Some i"
    "occ (its ! i) \<longrightarrow> P (its ! i)"
    "\<forall>x < ?n. cd ?n ?h x < cd ?n ?h i \<longrightarrow> occ (its ! x) \<and> \<not> P (its ! x)"
    by blast
  have "i = y"
  proof (rule ccontr)
    assume "i \<noteq> y"
    with i(1,3) uniq have "\<not> occ (its ! i)" by blast
    moreover from \<open>i \<noteq> y\<close> have "cd ?n ?h i < cd ?n ?h y"
      using i(1,4) y cd_inj [OF h] by (metis linorder_neqE_nat)
    ultimately show False
      using inv y i(1) unfolding probe_inv_def Let_def by blast
  qed
  with i(2) show ?thesis by simp
qed

section \<open>Lookup\<close>

lemma set_inv_free:
  assumes "set_inv rd S"
  obtains e where "e < length (set_items S)" "\<not> occ (set_items S ! e)"
proof -
  have "count_occ (set_items S) < length (set_items S)"
    using assms by (simp add: set_inv_def)
  then obtain e where "e < length (set_items S)" "\<not> occ (set_items S ! e)"
    by (rule free_slot_exists)
  then show ?thesis by (rule that)
qed

lemma set_inv_simps:
  assumes "set_inv rd S"
  shows "length (set_items S) = set_max S" "2 \<le> set_max S" "set_max S \<le> SIZE_MAX div 64"
    "set_count S = count_occ (set_items S)" "set_collisions S = count_coll (set_items S)"
    "set_count S * 2 \<le> set_max S + 1" "probe_inv (set_items S)"
    "content_ok rd (set_hash S) (occ_items (set_items S))"
  using assms unfolding set_inv_def by blast+

lemma set_inv_unique:
  assumes "set_inv rd S" "i < set_max S" "occ (set_items S ! i)"
    and "j < set_max S" "occ (set_items S ! j)"
    and "ikey rd (set_items S ! j) = ikey rd (set_items S ! i)"
  shows "j = i"
  using content_ok_unique [OF set_inv_simps(8) [OF assms(1)], of j i] assms
    set_inv_simps(1) [OF assms(1)] by simp

text \<open>The two readings of a lookup that clients use.\<close>

lemma set_probe_inv_finds:
  assumes "set_inv rd S" "i < set_max S" "occ (set_items S ! i)"
    and key: "ikey rd (set_items S ! i) = (hash, len, Some k)"
  shows "set_probe (item_matches rd k len hash) (set_items S) (unat hash mod set_max S) = Some i"
proof -
  from set_inv_free [OF assms(1)] obtain e
    where e: "e < length (set_items S)" "\<not> occ (set_items S ! e)" .
  have len: "length (set_items S) = set_max S" and pi: "probe_inv (set_items S)"
    using set_inv_simps [OF assms(1)] by simp_all
  have "x = i" if "x < length (set_items S)" "occ (set_items S ! x)"
      "item_matches rd k len hash (set_items S ! x)" for x
    using set_inv_unique [OF assms(1,2,3), of x] that key len by (simp add: item_matches_ikey)
  moreover have "home (length (set_items S)) (set_items S ! i) = unat hash mod set_max S"
    using key len by (simp add: home_def ikey_def)
  ultimately show ?thesis
    using set_probe_finds [OF pi e _ assms(3), of "item_matches rd k len hash"] assms(2) key len
    unfolding item_matches_ikey by metis
qed

lemma set_get_h_Some:
  assumes "set_inv rd S" "i < set_max S" "occ (set_items S ! i)"
    and "ikey rd (set_items S ! i) = (hash, len, Some k)"
  shows "set_get_h rd S k len hash = Some (Some i)"
  using set_probe_inv_finds [OF assms] set_inv_simps(2) [OF assms(1)] assms(3)
  by (simp add: set_get_h_def)

text \<open>Where a probe for an absent key stops, and what lies before.\<close>

lemma set_probe_inv_absent:
  assumes "set_inv rd S"
    and absent: "\<And>it. it \<in># set_content S \<Longrightarrow> ikey rd it \<noteq> (hash, len, Some k)"
  obtains i where "i < set_max S" "\<not> occ (set_items S ! i)"
    "set_probe (item_matches rd k len hash) (set_items S) (unat hash mod set_max S) = Some i"
    "\<And>x. x < set_max S \<Longrightarrow>
       cd (set_max S) (unat hash mod set_max S) x < cd (set_max S) (unat hash mod set_max S) i \<Longrightarrow>
       occ (set_items S ! x)"
proof -
  from set_inv_free [OF assms(1)] obtain e
    where e: "e < length (set_items S)" "\<not> occ (set_items S ! e)" .
  have len: "length (set_items S) = set_max S"
    using set_inv_simps [OF assms(1)] by simp
  have s: "unat hash mod set_max S < length (set_items S)"
    using len set_inv_simps(2) [OF assms(1)] by simp
  from set_probe_stops [OF s e, of "item_matches rd k len hash"] obtain i where
    i: "i < set_max S"
    "set_probe (item_matches rd k len hash) (set_items S) (unat hash mod set_max S) = Some i"
    "occ (set_items S ! i) \<longrightarrow> item_matches rd k len hash (set_items S ! i)"
    "\<forall>x < set_max S. cd (set_max S) (unat hash mod set_max S) x
       < cd (set_max S) (unat hash mod set_max S) i \<longrightarrow> occ (set_items S ! x)"
    unfolding len by blast
  have "\<not> occ (set_items S ! i)"
  proof
    assume "occ (set_items S ! i)"
    with i(1) len have "set_items S ! i \<in># set_content S"
      unfolding set_content_def mem_occ_items by metis
    from absent [OF this] i(3) \<open>occ (set_items S ! i)\<close> show False
      by (simp add: item_matches_ikey)
  qed
  with i show ?thesis by (intro that [of i]) simp_all
qed

lemma set_get_h_None:
  assumes "set_inv rd S"
    and "\<And>it. it \<in># set_content S \<Longrightarrow> ikey rd it \<noteq> (hash, len, Some k)"
  shows "set_get_h rd S k len hash = Some None"
proof -
  from set_probe_inv_absent [OF assms] obtain i
    where "\<not> occ (set_items S ! i)"
    "set_probe (item_matches rd k len hash) (set_items S) (unat hash mod set_max S) = Some i"
    by blast
  with set_inv_simps(2) [OF assms(1)] show ?thesis by (simp add: set_get_h_def)
qed

lemma set_get_h_cases:
  assumes "set_inv rd S"
  obtains (found) i where "set_get_h rd S k len hash = Some (Some i)" "i < set_max S"
      "occ (set_items S ! i)" "ikey rd (set_items S ! i) = (hash, len, Some k)"
  | (absent) "set_get_h rd S k len hash = Some None"
      "\<And>it. it \<in># set_content S \<Longrightarrow> ikey rd it \<noteq> (hash, len, Some k)"
proof (cases "\<exists>it \<in># set_content S. ikey rd it = (hash, len, Some k)")
  case True
  then obtain it where it: "it \<in># set_content S" "ikey rd it = (hash, len, Some k)" by blast
  from it(1) obtain i where i: "i < length (set_items S)" "set_items S ! i = it" "occ it"
    unfolding set_content_def mem_occ_items by blast
  have "length (set_items S) = set_max S"
    using set_inv_simps [OF assms(1)] by simp
  with i it(2) have i': "i < set_max S" "occ (set_items S ! i)"
    "ikey rd (set_items S ! i) = (hash, len, Some k)" by simp_all
  show ?thesis by (rule found [OF set_get_h_Some [OF assms i'] i'])
next
  case False
  then have no: "ikey rd it \<noteq> (hash, len, Some k)" if "it \<in># set_content S" for it
    using that by metis
  show ?thesis by (rule absent [OF set_get_h_None [OF assms no] no])
qed

end
