(* ===== verification/Hashset_Ops.thy ===== *)
theory Hashset_Ops
  imports Hashset_Inv
begin

text \<open>
  The hash set's changing operations: insertion, resizing (with its rollback when an
  allocation fails) and backward-shift deletion keep the invariant of \<open>Hashset_Inv\<close> and change
  the content as they should; the cursor visits exactly the occupied slots.
\<close>

section \<open>Insertion into a free slot\<close>

definition fresh_item :: "'d \<Rightarrow> nat \<Rightarrow> u64 \<Rightarrow> 'd set_item" where
  "fresh_item d len hash =
     \<lparr>it_data = Some d, it_len = len, it_hash = hash, it_usage = 0, it_long_p = 0,
      it_long_value = 0, it_double_p = 0, it_double_value = 0\<rparr>"

lemma fresh_item_simps [simp]:
  "it_data (fresh_item d len hash) = Some d" "it_len (fresh_item d len hash) = len"
  "it_hash (fresh_item d len hash) = hash" "it_usage (fresh_item d len hash) = 0"
  "occ (fresh_item d len hash) \<longleftrightarrow> 0 < len"
  "home n (fresh_item d len hash) = unat hash mod n"
  "ikey rd (fresh_item d len hash) = (hash, len, Some (rd d len))"
  by (simp_all add: fresh_item_def occ_def home_def ikey_def)

lemma probe_inv_store:
  assumes "probe_inv its" "i < length its" "\<not> occ (its ! i)"
    and "\<And>x. x < length its \<Longrightarrow> cd (length its) (home (length its) it) x < cd (length its) (home (length its) it) i
           \<Longrightarrow> occ (its ! x)"
    and "occ it"
  shows "probe_inv (its[i := it])"
  unfolding probe_inv_def Let_def
proof (intro allI impI)
  let ?n = "length (its[i := it])"
  fix y x
  assume y: "y < ?n" "occ (its[i := it] ! y)" and x: "x < ?n"
    and cd: "cd ?n (home ?n (its[i := it] ! y)) x < cd ?n (home ?n (its[i := it] ! y)) y"
  show "occ (its[i := it] ! x)"
  proof (cases "x = i")
    case False
    have "occ (its ! x)"
    proof (cases "y = i")
      case True
      with cd x assms(2,4) show ?thesis by simp
    next
      case False
      then have at_y: "its[i := it] ! y = its ! y" by simp
      have "y < length its" "x < length its" "occ (its ! y)"
        "cd (length its) (home (length its) (its ! y)) x < cd (length its) (home (length its) (its ! y)) y"
        using y x cd unfolding at_y by simp_all
      with assms(1) show ?thesis unfolding probe_inv_def Let_def by metis
    qed
    with False show ?thesis by simp
  qed (use assms in simp)
qed

lemma content_ok_add:
  assumes "content_ok rd hf M" and "it_data it = Some d" "it_hash it = hf (rd d (it_len it)) (it_len it)"
    and "\<And>it'. it' \<in># M \<Longrightarrow> ikey rd it' \<noteq> ikey rd it"
  shows "content_ok rd hf (add_mset it M)"
proof -
  have "size {#it' \<in># add_mset it M. ikey rd it' = k#} \<le> 1" for k
  proof (cases "ikey rd it = k")
    case True
    with assms(4) have "{#it' \<in># M. ikey rd it' = k#} = {#}"
      by (metis (mono_tags, lifting) filter_mset_eq_conv multiset_nonemptyE empty_iff set_mset_filter mem_Collect_eq)
    with True show ?thesis by simp
  next
    case False
    moreover have "size {#it' \<in># M. ikey rd it' = k#} \<le> 1"
      using assms(1) unfolding content_ok_def by blast
    ultimately show ?thesis by simp
  qed
  moreover from assms(1-3) have "\<forall>it \<in># add_mset it M. \<exists>d. it_data it = Some d
      \<and> it_hash it = hf (rd d (it_len it)) (it_len it)"
    unfolding content_ok_def by auto
  ultimately show ?thesis unfolding content_ok_def by blast
qed

lemma occ_items_store:
  assumes "i < length its" "\<not> occ (its ! i)" "occ it"
  shows "occ_items (its[i := it]) = add_mset it (occ_items its)"
  using occ_items_update [OF assms(1), of it] assms(2,3) by simp

lemma set_store_eq:
  "set_store S i d len hash =
     S\<lparr>set_collisions := (if i \<noteq> unat hash mod set_max S then set_collisions S + 1 else set_collisions S),
       set_items := (set_items S)[i := fresh_item d len hash], set_count := set_count S + 1\<rparr>"
  by (simp add: set_store_def fresh_item_def)

lemma set_store_inv:
  assumes inv: "set_inv rd S" and i: "i < set_max S" "\<not> occ (set_items S ! i)"
    and chain: "\<And>x. x < set_max S \<Longrightarrow> cd (set_max S) (unat hash mod set_max S) x
        < cd (set_max S) (unat hash mod set_max S) i \<Longrightarrow> occ (set_items S ! x)"
    and len: "0 < len" and hash: "hash = set_hash S (rd d len) len"
    and absent: "\<And>it. it \<in># set_content S \<Longrightarrow> ikey rd it \<noteq> (hash, len, Some (rd d len))"
    and load: "set_count S * 2 < set_max S"
  shows "set_inv rd (set_store S i d len hash)"
    and "set_content (set_store S i d len hash) = add_mset (fresh_item d len hash) (set_content S)"
proof -
  let ?it = "fresh_item d len hash" and ?its = "set_items S" and ?T = "set_store S i d len hash"
  note simps = set_inv_simps [OF inv]
  have il: "i < length ?its" using i simps by simp
  have occ: "occ ?it" using len by simp
  have content: "occ_items (?its[i := ?it]) = add_mset ?it (occ_items ?its)"
    by (rule occ_items_store [OF il i(2) occ])
  then show "set_content ?T = add_mset ?it (set_content S)"
    by (simp add: set_content_def set_store_eq)
  have "count_occ (?its[i := ?it]) = set_count S + 1"
    using count_occ_update [OF il, of ?it] i(2) occ simps(4) by simp
  moreover have "count_coll (?its[i := ?it]) = set_collisions ?T"
    using count_coll_update [OF il, of ?it] i(2) occ simps(1,5)
    by (auto simp: off_home_def set_store_eq split: if_splits)
  moreover have "probe_inv (?its[i := ?it])"
    by (rule probe_inv_store [OF simps(7) il i(2) _ occ]) (use chain simps(1) in simp)
  moreover have "content_ok rd (set_hash S) (occ_items (?its[i := ?it]))"
    unfolding content
    by (rule content_ok_add [OF simps(8), of _ d])
      (use absent hash in \<open>simp_all add: set_content_def\<close>)
  ultimately show "set_inv rd ?T"
    using simps load unfolding set_inv_def by (simp add: set_store_eq)
qed

text \<open>The insertion proper: found, or stored with the invariant.\<close>

lemma set_insert_found:
  assumes "set_inv rd S" "i < set_max S" "occ (set_items S ! i)"
    and "ikey rd (set_items S ! i) = (hash, len, Some (rd d len))"
  shows "set_insert rd d len hash S = Some (i, S)"
  using set_probe_inv_finds [OF assms(1,2,3,4)] assms(3) by (simp add: set_insert_def)

lemma set_insert_new:
  assumes inv: "set_inv rd S" and len: "0 < len" and hash: "hash = set_hash S (rd d len) len"
    and absent: "\<And>it. it \<in># set_content S \<Longrightarrow> ikey rd it \<noteq> (hash, len, Some (rd d len))"
    and load: "set_count S * 2 < set_max S"
  obtains i where "set_insert rd d len hash S = Some (i, set_store S i d len hash)"
    "i < set_max S" "set_inv rd (set_store S i d len hash)"
    "set_content (set_store S i d len hash) = add_mset (fresh_item d len hash) (set_content S)"
    "set_items (set_store S i d len hash) ! i = fresh_item d len hash"
proof -
  from set_probe_inv_absent [OF inv absent] obtain i where i: "i < set_max S" "\<not> occ (set_items S ! i)"
    "set_probe (item_matches rd (rd d len) len hash) (set_items S) (unat hash mod set_max S) = Some i"
    and chain: "\<And>x. x < set_max S \<Longrightarrow> cd (set_max S) (unat hash mod set_max S) x
        < cd (set_max S) (unat hash mod set_max S) i \<Longrightarrow> occ (set_items S ! x)"
    by metis
  have ins: "set_insert rd d len hash S = Some (i, set_store S i d len hash)"
    using i by (simp add: set_insert_def)
  have item: "set_items (set_store S i d len hash) ! i = fresh_item d len hash"
    using i(1) set_inv_simps(1) [OF inv] by (simp add: set_store_eq)
  show ?thesis
    by (rule that [OF ins i(1) set_store_inv [OF inv i(1,2) chain len hash absent load] item])
qed

section \<open>Reinsertion\<close>

lemma set_count_content: "set_inv rd S \<Longrightarrow> set_count S = size (set_content S)"
  using set_inv_simps(4) by (simp add: set_content_def size_occ_items)

lemma content_ok_subset: "content_ok rd hf M \<Longrightarrow> N \<subseteq># M \<Longrightarrow> content_ok rd hf N"
  unfolding content_ok_def
  by (meson le_trans mset_subset_eqD multiset_filter_mono size_mset_mono)

lemma content_ok_distinct:
  assumes "content_ok rd hf (add_mset it M)" "it' \<in># M"
  shows "ikey rd it' \<noteq> ikey rd it"
proof
  assume eq: "ikey rd it' = ikey rd it"
  from assms(2) obtain M' where M: "M = add_mset it' M'" by (metis multi_member_split)
  have "size {#x \<in># add_mset it M. ikey rd x = ikey rd it#} \<le> 1"
    using assms(1) unfolding content_ok_def by blast
  then show False using M eq by simp
qed

text \<open>Overwriting an item by one with the same data, length and hash keeps the invariant.\<close>

lemma ikey_cong:
  "it_data it = it_data it' \<Longrightarrow> it_len it = it_len it' \<Longrightarrow> it_hash it = it_hash it' \<Longrightarrow>
   ikey rd it = ikey rd it' \<and> occ it = occ it' \<and> home n it = home n it'"
  by (simp add: ikey_def occ_def home_def)

lemma content_ok_replace:
  assumes "content_ok rd hf (add_mset it M)" and eq: "it_data it' = it_data it" "it_len it' = it_len it"
    "it_hash it' = it_hash it"
  shows "content_ok rd hf (add_mset it' M)"
proof -
  obtain d where "it_data it = Some d" "it_hash it = hf (rd d (it_len it)) (it_len it)"
    using assms(1) unfolding content_ok_def by auto
  moreover have "ikey rd x \<noteq> ikey rd it'" if "x \<in># M" for x
    using content_ok_distinct [OF assms(1) that] ikey_cong [OF eq] by metis
  ultimately show ?thesis
    using content_ok_subset [OF assms(1), of M] eq by (intro content_ok_add) auto
qed

lemma set_inv_copy:
  assumes inv: "set_inv rd S" and j: "j < set_max S" and old: "set_items S ! j = it0" "occ it0"
    and eq: "it_data it = it_data it0" "it_len it = it_len it0" "it_hash it = it_hash it0"
    and content: "set_content S = add_mset it0 M"
  defines "T \<equiv> S\<lparr>set_items := (set_items S)[j := it]\<rparr>"
  shows "set_inv rd T" "set_content T = add_mset it M"
proof -
  let ?its = "set_items S"
  note simps = set_inv_simps [OF inv]
  have jl: "j < length ?its" using j simps by simp
  have occ: "occ it" using ikey_cong [OF eq] old(2) by blast
  have home_cong: "home n it = home n it0" for n using ikey_cong [OF eq] by blast
  have "occ_items (?its[j := it]) + {#it0#} = occ_items ?its + {#it#}"
    using occ_items_update [OF jl, of it] old occ by simp
  then show c: "set_content T = add_mset it M"
    using content by (simp add: T_def set_content_def)
  have at: "occ (?its[j := it] ! x) = occ (?its ! x)" "home n (?its[j := it] ! x) = home n (?its ! x)"
    if "x < length ?its" for x n
  proof -
    have occ0: "occ it = occ it0" and home0: "home n it = home n it0"
      using ikey_cong [OF eq, of undefined n] by blast+
    show "occ (?its[j := it] ! x) = occ (?its ! x)" "home n (?its[j := it] ! x) = home n (?its ! x)"
      unfolding nth_list_update [OF jl] using occ0 home0 old(1) by auto
  qed
  have "probe_inv (?its[j := it])"
    unfolding probe_inv_def Let_def length_list_update
  proof (intro allI impI)
    fix y x assume y: "y < length ?its" "occ (?its[j := it] ! y)" and x: "x < length ?its"
      and "cd (length ?its) (home (length ?its) (?its[j := it] ! y)) x
         < cd (length ?its) (home (length ?its) (?its[j := it] ! y)) y"
    then have "occ (?its ! x)"
      using simps(7) unfolding probe_inv_def Let_def at(2) [OF y(1)] at(1) [OF y(1)] by blast
    then show "occ (?its[j := it] ! x)" unfolding at(1) [OF x] .
  qed
  moreover have "count_occ (?its[j := it]) = count_occ ?its"
    using count_occ_update [OF jl, of it] old occ by (simp split: if_splits)
  moreover have "count_coll (?its[j := it]) = count_coll ?its"
    using count_coll_update [OF jl, of it] old occ
    by (simp add: off_home_def home_cong)
  moreover have "content_ok rd (set_hash S) (add_mset it M)"
    by (rule content_ok_replace [OF _ eq]) (use simps(8) content in \<open>simp add: set_content_def\<close>)
  ultimately show "set_inv rd T"
    using simps c unfolding set_inv_def T_def set_content_def by simp
qed

text \<open>What the loop needs of the insertion it calls, up to \<open>N\<close> items, and what it then does.\<close>

definition add_ok ::
  "('d \<Rightarrow> nat \<Rightarrow> 'k) \<Rightarrow> ('k \<Rightarrow> nat \<Rightarrow> u64) \<Rightarrow> (nat \<Rightarrow> bool) \<Rightarrow> nat \<Rightarrow>
   ('d set_item \<Rightarrow> ('d, 'k) set_tbl \<Rightarrow> mem \<Rightarrow> (nat option \<times> ('d, 'k) set_tbl \<times> mem) option) \<Rightarrow> bool" where
  "add_ok rd hf Q N add \<longleftrightarrow>
     (\<forall>it d S h. set_inv rd S \<longrightarrow> Q (set_max S) \<longrightarrow> set_hash S = hf \<longrightarrow> occ it \<longrightarrow> it_data it = Some d \<longrightarrow>
        it_hash it = hf (rd d (it_len it)) (it_len it) \<longrightarrow>
        (\<forall>it' \<in># set_content S. ikey rd it' \<noteq> ikey rd it) \<longrightarrow> set_count S < N \<longrightarrow>
        (\<exists>S' h'. add it S h = Some (None, S', h') \<and> set_hash S' = hf) \<or>
        (\<exists>j S' h'. add it S h = Some (Some j, S', h') \<and> set_inv rd S' \<and> Q (set_max S') \<and>
           set_hash S' = hf \<and> j < set_max S' \<and>
           set_items S' ! j = fresh_item d (it_len it) (it_hash it) \<and>
           set_content S' = add_mset (fresh_item d (it_len it) (it_hash it)) (set_content S)))"

lemma add_okD:
  assumes "add_ok rd hf Q N add" "set_inv rd S" "Q (set_max S)" "set_hash S = hf"
    and "content_ok rd hf (add_mset it (set_content S))" "occ it" "set_count S < N"
  obtains (failed) S' h' where "add it S h = Some (None, S', h')" "set_hash S' = hf"
  | (added) j S' h' d where "add it S h = Some (Some j, S', h')" "set_inv rd S'" "Q (set_max S')"
      "set_hash S' = hf" "j < set_max S'" "it_data it = Some d"
      "set_items S' ! j = fresh_item d (it_len it) (it_hash it)"
      "set_content S' = add_mset (fresh_item d (it_len it) (it_hash it)) (set_content S)"
proof -
  obtain d where d: "it_data it = Some d" "it_hash it = hf (rd d (it_len it)) (it_len it)"
    using assms(5) unfolding content_ok_def by auto
  have "\<forall>it' \<in># set_content S. ikey rd it' \<noteq> ikey rd it"
    using content_ok_distinct [OF assms(5)] by blast
  with assms(1) [unfolded add_ok_def] assms(2,3,4,6) d assms(7)
  have "(\<exists>S' h'. add it S h = Some (None, S', h') \<and> set_hash S' = hf) \<or>
        (\<exists>j S' h'. add it S h = Some (Some j, S', h') \<and> set_inv rd S' \<and> Q (set_max S') \<and>
           set_hash S' = hf \<and> j < set_max S' \<and>
           set_items S' ! j = fresh_item d (it_len it) (it_hash it) \<and>
           set_content S' = add_mset (fresh_item d (it_len it) (it_hash it)) (set_content S))"
    by blast
  then show ?thesis
  proof (elim disjE exE conjE)
    fix S' h' assume "add it S h = Some (None, S', h')" "set_hash S' = hf"
    then show ?thesis by (rule failed)
  next
    fix j S' h'
    assume "add it S h = Some (Some j, S', h')" "set_inv rd S'" "Q (set_max S')" "set_hash S' = hf"
      "j < set_max S'" "set_items S' ! j = fresh_item d (it_len it) (it_hash it)"
      "set_content S' = add_mset (fresh_item d (it_len it) (it_hash it)) (set_content S)"
    then show ?thesis using d(1) by (intro added)
  qed
qed

lemma reinsert_spec:
  assumes add: "add_ok rd hf Q N add"
  shows "set_inv rd S \<Longrightarrow> Q (set_max S) \<Longrightarrow> set_hash S = hf \<Longrightarrow>
     content_ok rd hf (set_content S + occ_items its) \<Longrightarrow> set_count S + count_occ its \<le> N \<Longrightarrow>
     (\<exists>S' h'. reinsert add its S h = Some (False, S', h') \<and> set_hash S' = hf) \<or>
     (\<exists>S' h'. reinsert add its S h = Some (True, S', h') \<and> set_inv rd S' \<and> Q (set_max S') \<and>
        set_hash S' = hf \<and> set_content S' = set_content S + occ_items its)"
proof (induction its arbitrary: S h)
  case Nil
  then show ?case by (simp add: occ_items_def)
next
  case (Cons it its)
  show ?case
  proof (cases "occ it")
    case False
    with Cons show ?thesis by (simp add: occ_items_def count_occ_def)
  next
    case True
    have items: "occ_items (it # its) = add_mset it (occ_items its)"
      using True by (simp add: occ_items_def)
    have ok: "content_ok rd hf (add_mset it (set_content S))"
      by (rule content_ok_subset [OF Cons.prems(4)]) (simp add: items)
    have room: "set_count S < N" using Cons.prems(5) True by (simp add: count_occ_def)
    show ?thesis
    proof (cases rule: add_okD [OF add Cons.prems(1,2,3) ok True room, of h])
      case (1 S' h')
      with True show ?thesis by simp
    next
      case (2 j S' h' d)
      define it' where "it' = (set_items S' ! j)
         \<lparr>it_usage := it_usage it, it_long_p := it_long_p it, it_long_value := it_long_value it,
          it_double_p := it_double_p it, it_double_value := it_double_value it\<rparr>"
      have it': "it' = it"
        unfolding it'_def \<open>set_items S' ! j = _\<close> using \<open>it_data it = Some d\<close>
        by (cases it) (simp add: fresh_item_def)
      let ?T = "S'\<lparr>set_items := (set_items S')[j := it]\<rparr>"
      have occ0: "occ (fresh_item d (it_len it) (it_hash it))" using True by (simp add: occ_def)
      have "set_inv rd ?T" "set_content ?T = add_mset it (set_content S)"
        using \<open>it_data it = Some d\<close>
        by (intro set_inv_copy [OF 2(2,5,7) occ0 _ _ _ 2(8)]; simp)+
      moreover have "set_count ?T = Suc (set_count S)"
        using set_count_content [OF 2(2)] set_count_content [OF Cons.prems(1)] 2(8) by simp
      ultimately have "(\<exists>S' h''. reinsert add its ?T h' = Some (False, S', h'') \<and> set_hash S' = hf) \<or>
         (\<exists>S' h''. reinsert add its ?T h' = Some (True, S', h'') \<and> set_inv rd S' \<and> Q (set_max S') \<and>
            set_hash S' = hf \<and> set_content S' = set_content S + occ_items (it # its))"
        using Cons.IH [of ?T h'] Cons.prems(4,5) 2(3,4) True
        by (simp add: items count_occ_def)
      moreover have "reinsert add (it # its) S h = reinsert add its ?T h'"
        using True 2(1) it' by (simp add: it'_def)
      ultimately show ?thesis by simp
    qed
  qed
qed

section \<open>Resizing\<close>

lemma set_add_room:
  assumes inv: "set_inv rd S" and len: "0 < len" and hash: "hash = set_hash S (rd d len) len"
    and absent: "\<And>it. it \<in># set_content S \<Longrightarrow> ikey rd it \<noteq> (hash, len, Some (rd d len))"
    and load: "set_count S * 2 < set_max S"
  obtains j S' where "set_add_fuel (Suc n) rd (Some d) len hash S h = Some (Some j, S', h)"
    "set_inv rd S'" "set_max S' = set_max S" "set_hash S' = set_hash S" "j < set_max S'"
    "set_items S' ! j = fresh_item d len hash"
    "set_content S' = add_mset (fresh_item d len hash) (set_content S)"
proof (rule set_insert_new [OF inv len hash absent load])
  fix i
  let ?T = "set_store S i d len hash"
  assume ins: "set_insert rd d len hash S = Some (i, ?T)" and i: "i < set_max S" "set_inv rd ?T"
    "set_content ?T = add_mset (fresh_item d len hash) (set_content S)"
    "set_items ?T ! i = fresh_item d len hash"
  have "set_add_fuel (Suc n) rd (Some d) len hash S h = Some (Some i, ?T, h)"
    using ins load by simp
  then show thesis
    by (rule that) (use i in \<open>simp_all add: set_store_eq\<close>)
qed

text \<open>Reinserting an item into a table with room for it never fails and never allocates.\<close>

lemma add_item_room:
  assumes "2 * N \<le> mx + 1" and inv: "set_inv rd S" and mx: "set_max S = mx" and hf: "set_hash S = hf"
    and occ: "occ it" and d: "it_data it = Some d" and hash: "it_hash it = hf (rd d (it_len it)) (it_len it)"
    and absent: "\<forall>it' \<in># set_content S. ikey rd it' \<noteq> ikey rd it" and N: "set_count S < N"
  shows "\<exists>j S'. set_add_fuel (Suc n) rd (it_data it) (it_len it) (it_hash it) S h = Some (Some j, S', h)
     \<and> set_inv rd S' \<and> set_max S' = mx \<and> set_hash S' = hf \<and> j < set_max S'
     \<and> set_items S' ! j = fresh_item d (it_len it) (it_hash it)
     \<and> set_content S' = add_mset (fresh_item d (it_len it) (it_hash it)) (set_content S)"
proof -
  have "0 < it_len it" using occ by (simp add: occ_def)
  moreover have "it_hash it = set_hash S (rd d (it_len it)) (it_len it)" using hash hf by simp
  moreover have "ikey rd it' \<noteq> (it_hash it, it_len it, Some (rd d (it_len it)))"
    if "it' \<in># set_content S" for it'
    using absent that d by (simp add: ikey_def)
  moreover have "set_count S * 2 < set_max S" using N mx assms by linarith
  ultimately show ?thesis
    unfolding d mx [symmetric] hf [symmetric]
    by (rule set_add_room [OF inv, where n = n and h = h]) blast+
qed

lemma add_ok_room:
  assumes "2 * N \<le> mx + 1"
  shows "add_ok rd hf (\<lambda>m. m = mx) N (\<lambda>it. set_add_fuel (Suc n) rd (it_data it) (it_len it) (it_hash it))"
  unfolding add_ok_def
proof (intro allI impI disjI2, goal_cases)
  case (1 it d S h)
  from add_item_room [OF assms 1, of n h] show ?case by blast
qed

text \<open>The outcome of a resize: refused with the table as it was, or done with the same content.\<close>

definition resized ::
  "('d \<Rightarrow> nat \<Rightarrow> 'k) \<Rightarrow> (nat \<Rightarrow> bool) \<Rightarrow> ('d, 'k) set_tbl \<Rightarrow> (int \<times> ('d, 'k) set_tbl \<times> mem) option \<Rightarrow> bool" where
  "resized rd Q S res \<longleftrightarrow>
     (\<exists>h'. res = Some (- 1, S, h')) \<or>
     (\<exists>S' h'. res = Some (0, S', h') \<and> set_inv rd S' \<and> Q (set_max S') \<and>
        set_hash S' = set_hash S \<and> set_content S' = set_content S)"

lemma set_inv_empty:
  assumes "2 \<le> mx" "mx \<le> SIZE_MAX div 64" "set_items S = replicate mx zero_item" "set_max S = mx"
    "set_count S = 0" "set_collisions S = 0"
  shows "set_inv rd S" "set_content S = {#}"
proof -
  have none: "\<not> occ (set_items S ! x)" if "x < mx" for x
    using that assms(3) by (simp add: zero_item_def occ_def)
  have z: "occ_items (set_items S) = {#}"
    using assms(3) by (auto simp: occ_items_def zero_item_def occ_def)
  then show c: "set_content S = {#}" by (simp add: set_content_def)
  have "count_occ (set_items S) = 0"
    using size_occ_items z by (metis size_empty)
  moreover have "count_coll (set_items S) = 0"
    using none assms(3) by (simp add: count_coll_def filter_empty_conv)
  moreover have "probe_inv (set_items S)"
    using none assms(3) unfolding probe_inv_def Let_def by simp
  moreover have "content_ok rd (set_hash S) (occ_items (set_items S))"
    unfolding z by (simp add: content_ok_def)
  ultimately show "set_inv rd S"
    using assms unfolding set_inv_def by simp
qed

lemma set_resize_fuel_spec:
  assumes inv: "set_inv rd S" and mx: "2 \<le> mx" and Q: "Q mx"
    and add: "add_ok rd (set_hash S) Q (set_count S)
        (\<lambda>it. set_add_fuel n rd (it_data it) (it_len it) (it_hash it))"
  shows "resized rd Q S (set_resize_fuel (Suc n) rd mx S h)"
proof -
  note simps = set_inv_simps [OF inv]
  consider "mx > SIZE_MAX div 64 \<or> (mx \<noteq> set_max S \<and> mx < set_count S)" | "mx \<le> SIZE_MAX div 64" "mx = set_max S"
    | "mx \<le> SIZE_MAX div 64" "mx \<noteq> set_max S" "\<not> mx < set_count S"
    by linarith
  then show ?thesis
  proof cases
    case 1
    then show ?thesis by (auto simp: resized_def)
  next
    case 2
    then show ?thesis using inv Q mx by (simp add: resized_def)
  next
    case 3
    obtain ok h' where m: "malloc h = (ok, h')" by (cases "malloc h")
    let ?E = "S\<lparr>set_max := mx, set_items := replicate mx zero_item, set_count := 0, set_collisions := 0\<rparr>"
    have E: "set_inv rd ?E" "set_content ?E = {#}"
      using set_inv_empty [OF mx 3(1), of ?E] by simp_all
    have "content_ok rd (set_hash S) (set_content ?E + occ_items (set_items S))"
      using simps(8) E(2) by simp
    then have "(\<exists>S' h''. reinsert (\<lambda>it. set_add_fuel n rd (it_data it) (it_len it) (it_hash it)) (set_items S) ?E h'
          = Some (False, S', h'') \<and> set_hash S' = set_hash S) \<or>
       (\<exists>S' h''. reinsert (\<lambda>it. set_add_fuel n rd (it_data it) (it_len it) (it_hash it)) (set_items S) ?E h'
          = Some (True, S', h'') \<and> set_inv rd S' \<and> Q (set_max S') \<and> set_hash S' = set_hash S \<and>
          set_content S' = set_content ?E + occ_items (set_items S))"
      using E(1) Q simps(4) by (intro reinsert_spec [OF add]) simp_all
    then show ?thesis
    proof (elim disjE exE conjE)
      fix S' h'' assume "reinsert (\<lambda>it. set_add_fuel n rd (it_data it) (it_len it) (it_hash it)) (set_items S) ?E h'
          = Some (False, S', h'')" "set_hash S' = set_hash S"
      moreover from this have "S'\<lparr>set_items := set_items S, set_max := set_max S,
          set_count := count_occ (set_items S), set_collisions := count_coll (set_items S)\<rparr> = S"
        using simps(4,5) by (cases S; cases S') simp
      ultimately show ?thesis using 3 m mx by (cases ok) (simp_all add: resized_def)
    next
      fix S' h'' assume "reinsert (\<lambda>it. set_add_fuel n rd (it_data it) (it_len it) (it_hash it)) (set_items S) ?E h'
          = Some (True, S', h'')" "set_inv rd S'" "Q (set_max S')" "set_hash S' = set_hash S"
        "set_content S' = set_content ?E + occ_items (set_items S)"
      with 3 m mx E(2) show ?thesis
        by (cases ok) (simp_all add: resized_def set_content_def)
    qed
  qed
qed

section \<open>\<open>set_add_h\<close> and \<open>set_resize_checked\<close>\<close>

text \<open>
  The outcome of adding the key of \<open>(d, len)\<close>: refused, with the table as it was; or the slot of
  the item with that key, which is the old one when there is one and else a fresh one.
\<close>

definition added ::
  "('d \<Rightarrow> nat \<Rightarrow> 'k) \<Rightarrow> 'd \<Rightarrow> nat \<Rightarrow> u64 \<Rightarrow> ('d, 'k) set_tbl \<Rightarrow>
   (nat option \<times> ('d, 'k) set_tbl \<times> mem) option \<Rightarrow> bool" where
  "added rd d len hash S res \<longleftrightarrow>
     (\<exists>h'. res = Some (None, S, h') \<and> set_max S \<le> set_count S * 2) \<or>
     (\<exists>j S' h'. res = Some (Some j, S', h') \<and> set_inv rd S' \<and> set_hash S' = set_hash S \<and>
        (set_max S' = set_max S \<or> set_max S' = 2 * set_max S) \<and> j < set_max S' \<and>
        (if \<exists>it \<in># set_content S. ikey rd it = (hash, len, Some (rd d len))
         then set_content S' = set_content S \<and> occ (set_items S' ! j) \<and>
              ikey rd (set_items S' ! j) = (hash, len, Some (rd d len))
         else set_items S' ! j = fresh_item d len hash \<and>
              set_content S' = add_mset (fresh_item d len hash) (set_content S)))"

lemma mem_content_slot:
  assumes "set_inv rd S" "it \<in># set_content S"
  obtains i where "i < set_max S" "occ (set_items S ! i)" "set_items S ! i = it"
  using assms(2) set_inv_simps(1) [OF assms(1)] unfolding set_content_def mem_occ_items by auto

lemma set_insert_added:
  assumes inv: "set_inv rd S" and len: "0 < len" and hash: "hash = set_hash S (rd d len) len"
    and load: "set_count S * 2 < set_max S"
    and S0: "set_content S = set_content S0" "set_hash S = set_hash S0"
      "set_max S = set_max S0 \<or> set_max S = 2 * set_max S0"
  shows "added rd d len hash S0 (map_option (\<lambda>(i, S''). (Some i, S'', h)) (set_insert rd d len hash S))"
proof (cases "\<exists>it \<in># set_content S. ikey rd it = (hash, len, Some (rd d len))")
  case True
  then obtain it where "it \<in># set_content S" and key: "ikey rd it = (hash, len, Some (rd d len))"
    by blast
  from mem_content_slot [OF inv this(1)] obtain i
    where i: "i < set_max S" "occ (set_items S ! i)" "set_items S ! i = it" .
  have "set_insert rd d len hash S = Some (i, S)"
    using set_insert_found [OF inv i(1,2)] i(3) key by simp
  with True i key inv S0 show ?thesis by (auto simp: added_def)
next
  case False
  then have "\<And>it. it \<in># set_content S \<Longrightarrow> ikey rd it \<noteq> (hash, len, Some (rd d len))" by blast
  from set_insert_new [OF inv len hash this load] obtain i
    where i: "set_insert rd d len hash S = Some (i, set_store S i d len hash)"
    "i < set_max S" "set_inv rd (set_store S i d len hash)"
    "set_content (set_store S i d len hash) = add_mset (fresh_item d len hash) (set_content S)"
    "set_items (set_store S i d len hash) ! i = fresh_item d len hash" by blast
  moreover have "set_max (set_store S i d len hash) = set_max S"
    "set_hash (set_store S i d len hash) = set_hash S"
    by (simp_all add: set_store_eq)
  ultimately show ?thesis using False S0 unfolding added_def by simp
qed

lemma set_add_fuel_added:
  assumes inv: "set_inv rd S" and len: "0 < len" and hash: "hash = set_hash S (rd d len) len"
  shows "added rd d len hash S (set_add_fuel (Suc (Suc (Suc n))) rd (Some d) len hash S h)"
proof (cases "set_count S * 2 \<ge> set_max S")
  case False
  then show ?thesis
    using set_insert_added [OF inv len hash _ refl refl, of h] by simp
next
  case True
  note simps = set_inv_simps [OF inv]
  let ?m = "set_max S * 2"
  have "add_ok rd (set_hash S) (\<lambda>m. m = ?m) (set_count S)
      (\<lambda>it. set_add_fuel (Suc n) rd (it_data it) (it_len it) (it_hash it))"
    using simps(6) by (intro add_ok_room) simp
  then have "resized rd (\<lambda>m. m = ?m) S (set_resize_fuel (Suc (Suc n)) rd ?m S h)"
    using simps(2) by (intro set_resize_fuel_spec [OF inv]) simp_all
  then show ?thesis
    unfolding resized_def
  proof (elim disjE exE conjE)
    fix h' assume "set_resize_fuel (Suc (Suc n)) rd ?m S h = Some (- 1, S, h')"
    with True show ?thesis
      unfolding set_add_fuel.simps(3) added_def by simp
  next
    fix S' h' assume r: "set_resize_fuel (Suc (Suc n)) rd ?m S h = Some (0, S', h')" "set_inv rd S'"
      "set_max S' = ?m" "set_hash S' = set_hash S" "set_content S' = set_content S"
    have "set_count S' = set_count S"
      using r inv by (simp add: set_count_content)
    then have "set_count S' * 2 < set_max S'" using r(3) simps(2,6) by simp
    then have "added rd d len hash S
        (map_option (\<lambda>(i, S''). (Some i, S'', h')) (set_insert rd d len hash S'))"
      using r by (intro set_insert_added [OF r(2) len]) (simp_all add: hash)
    moreover have "set_add_fuel (Suc (Suc (Suc n))) rd (Some d) len hash S h
        = (if set_max S > SIZE_MAX div 2 then Some (None, S, h)
           else map_option (\<lambda>(i, S''). (Some i, S'', h')) (set_insert rd d len hash S'))"
      unfolding set_add_fuel.simps(3) using True r(1) by simp
    moreover have "added rd d len hash S (Some (None, S, h))"
      using True unfolding added_def by simp
    ultimately show ?thesis by metis
  qed
qed

text \<open>The fuel of the definitions is enough: both always produce a result.\<close>

lemma set_add_h_added:
  assumes "set_inv rd S" "0 < len" "hash = set_hash S (rd d len) len"
  shows "added rd d len hash S (set_add_h rd S d len hash h)"
proof -
  have "(5::nat) = Suc (Suc (Suc 2))" by simp
  then show ?thesis using set_add_fuel_added [OF assms, of 2 h] by (simp only: set_add_h_def)
qed

lemma add_ok_grow:
  "add_ok rd hf (\<lambda>m. mx \<le> m) N
     (\<lambda>it. set_add_fuel (Suc (Suc (Suc n))) rd (it_data it) (it_len it) (it_hash it))"
  unfolding add_ok_def
proof (intro allI impI)
  fix it d S h
  assume inv: "set_inv rd S" and mx: "mx \<le> set_max S" and hf: "set_hash S = hf" and occ: "occ it"
    and d: "it_data it = Some d" and hash: "it_hash it = hf (rd d (it_len it)) (it_len it)"
    and absent: "\<forall>it' \<in># set_content S. ikey rd it' \<noteq> ikey rd it" and N: "set_count S < N"
  have key: "ikey rd it = (it_hash it, it_len it, Some (rd d (it_len it)))"
    using d by (simp add: ikey_def)
  have "0 < it_len it" using occ by (simp add: occ_def)
  then have "added rd d (it_len it) (it_hash it) S
      (set_add_fuel (Suc (Suc (Suc n))) rd (Some d) (it_len it) (it_hash it) S h)"
    using hash hf by (intro set_add_fuel_added [OF inv]) simp_all
  then show "(\<exists>S' h'. set_add_fuel (Suc (Suc (Suc n))) rd (it_data it) (it_len it) (it_hash it) S h
        = Some (None, S', h') \<and> set_hash S' = hf) \<or>
     (\<exists>j S' h'. set_add_fuel (Suc (Suc (Suc n))) rd (it_data it) (it_len it) (it_hash it) S h
        = Some (Some j, S', h')
     \<and> set_inv rd S' \<and> mx \<le> set_max S' \<and> set_hash S' = hf \<and> j < set_max S'
     \<and> set_items S' ! j = fresh_item d (it_len it) (it_hash it)
     \<and> set_content S' = add_mset (fresh_item d (it_len it) (it_hash it)) (set_content S))"
    unfolding added_def d key [symmetric] hf [symmetric]
    using absent mx by (elim disjE exE conjE) (auto split: if_splits)
qed

lemma set_resize_checked_resized:
  assumes "set_inv rd S" "2 \<le> mx"
  shows "resized rd (\<lambda>m. mx \<le> m) S (set_resize_checked rd S mx h)"
proof -
  have "(6::nat) = Suc (Suc (Suc (Suc 2)))" by simp
  moreover have "resized rd (\<lambda>m. mx \<le> m) S (set_resize_fuel (Suc (Suc (Suc (Suc 2)))) rd mx S h)"
    by (rule set_resize_fuel_spec [OF assms _ add_ok_grow]) simp
  ultimately show ?thesis by (simp only: set_resize_checked_def)
qed

end
