(* ===== verification/Hashset_Del.thy ===== *)
theory Hashset_Del
  imports Hashset_Ops
begin

text \<open>
  Backward-shift deletion: the loop of \<^verbatim>\<open>set_remove\<close> ends, restores the probing invariant,
  keeps the other items and the collision counter exact. The cursor enumerates the occupied
  slots.
\<close>

section \<open>The loop invariant\<close>

text \<open>
  \<open>i\<close> is the hole, \<open>j\<close> the slot last looked at, \<open>e\<close> a free slot that the scan has not reached.
  The hole may interrupt the chain of an item only when the item lies beyond \<open>j\<close>.
\<close>

definition shift_inv :: "'d set_item list \<Rightarrow> nat \<Rightarrow> nat \<Rightarrow> nat \<Rightarrow> bool" where
  "shift_inv its i j e \<longleftrightarrow>
     (let n = length its in
      i < n \<and> j < n \<and> e < n \<and> \<not> occ (its ! i) \<and> \<not> occ (its ! e) \<and> i \<noteq> e \<and> cd n i j < cd n i e \<and>
      (\<forall>y < n. occ (its ! y) \<longrightarrow> (\<forall>x < n. cd n (home n (its ! y)) x < cd n (home n (its ! y)) y \<longrightarrow>
          occ (its ! x) \<or> (x = i \<and> cd n i j < cd n i y))))"

lemma shift_inv_chain:
  assumes "shift_inv its i j e" "y < length its" "occ (its ! y)" "x < length its"
    and "cd (length its) (home (length its) (its ! y)) x < cd (length its) (home (length its) (its ! y)) y"
  shows "occ (its ! x) \<or> (x = i \<and> cd (length its) i j < cd (length its) i y)"
  using assms unfolding shift_inv_def Let_def by blast

lemma shift_inv_bounds:
  assumes "shift_inv its i j e"
  shows "i < length its" "j < length its" "e < length its" "\<not> occ (its ! i)" "\<not> occ (its ! e)"
    "i \<noteq> e" "cd (length its) i j < cd (length its) i e"
  using assms unfolding shift_inv_def Let_def by blast+

text \<open>Facts of cyclic distance.\<close>

lemma cd_next_from:
  assumes "i < n" "j < n" "e < n" "cd n i j < cd n i e"
  shows "cd n i (next_slot n j) = Suc (cd n i j)"
    and "next_slot n j \<noteq> e \<Longrightarrow> cd n i (next_slot n j) < cd n i e"
    and "next_slot n j \<noteq> i" and "cd n j e = Suc (cd n (next_slot n j) e)"
    and "cd n (next_slot n j) e < n"
  using assms by (auto simp: next_slot_eq cd_def split: if_splits)

lemma cd_chain_covers:
  assumes "h < n" "i < n" "y < n" "z < n" "cd n h i < cd n h y" "cd n i z < cd n i y"
  shows "cd n h z < cd n h y"
  using assms
  by (simp add: cd_def split: if_splits; linarith)

lemma home_less: "0 < n \<Longrightarrow> home n it < n"
  by (simp add: home_def)

text \<open>When the scan meets a free slot, no chain is interrupted.\<close>

lemma shift_inv_done:
  assumes inv: "shift_inv its i j e" and free: "\<not> occ (its ! next_slot (length its) j)"
  shows "probe_inv its"
  unfolding probe_inv_def Let_def
proof (intro allI impI)
  let ?n = "length its" and ?k = "next_slot (length its) j"
  note b = shift_inv_bounds [OF inv]
  note nx = cd_next_from [OF b(1,2,3,7)]
  fix y x
  assume y: "y < ?n" "occ (its ! y)" and x: "x < ?n"
    and less: "cd ?n (home ?n (its ! y)) x < cd ?n (home ?n (its ! y)) y"
  have k: "?k < ?n" by (rule next_slot_less [OF b(2)])
  have h: "home ?n (its ! y) < ?n" using y(1) by (intro home_less) linarith
  show "occ (its ! x)"
  proof (rule ccontr)
    assume "\<not> occ (its ! x)"
    with shift_inv_chain [OF inv y x less] have xi: "x = i" and beyond: "cd ?n i j < cd ?n i y"
      by blast+
    have "?k \<noteq> y" using free y(2) by blast
    then have "cd ?n i ?k \<noteq> cd ?n i y" using cd_inj [OF b(1) k y(1)] by blast
    with beyond nx(1) have "cd ?n i ?k < cd ?n i y" by linarith
    then have "cd ?n (home ?n (its ! y)) ?k < cd ?n (home ?n (its ! y)) y"
      using cd_chain_covers [OF h b(1) y(1) k] less xi by blast
    from shift_inv_chain [OF inv y k this] free nx(3) show False by blast
  qed
qed

text \<open>The scan goes on past an item that must not move.\<close>

lemma shift_inv_skip:
  assumes inv: "shift_inv its i j e" and k: "k = next_slot (length its) j" "occ (its ! k)"
    and stay: "\<not> can_move i k (home (length its) (its ! k))"
  shows "shift_inv its i k e"
proof -
  let ?n = "length its"
  note b = shift_inv_bounds [OF inv]
  note nx = cd_next_from [OF b(1,2,3,7)]
  have kn: "k < ?n" using next_slot_less [OF b(2)] k(1) by simp
  have h: "home ?n (its ! k) < ?n" using kn by (intro home_less) linarith
  have ik: "i \<noteq> k" using b(4) k(2) by blast
  have out: "\<not> cd ?n (home ?n (its ! k)) i < cd ?n (home ?n (its ! k)) k"
    using stay can_move_iff [OF b(1) kn h ik] by blast
  have ke: "k \<noteq> e" using b(5) k(2) by blast
  have "occ (its ! x) \<or> (x = i \<and> cd ?n i k < cd ?n i y)"
    if y: "y < ?n" "occ (its ! y)" and x: "x < ?n"
      and less: "cd ?n (home ?n (its ! y)) x < cd ?n (home ?n (its ! y)) y" for x y
  proof (cases "y = k")
    case True
    from shift_inv_chain [OF inv y x less] show ?thesis
      using out less True by blast
  next
    case False
    then have "cd ?n i y \<noteq> cd ?n i k" using cd_inj [OF b(1) y(1) kn] by blast
    with shift_inv_chain [OF inv y x less] nx(1) k(1) show ?thesis
      by (metis Suc_lessI)
  qed
  moreover have "cd ?n i k < cd ?n i e" using nx(2) k(1) ke by blast
  ultimately show ?thesis
    unfolding shift_inv_def Let_def using b kn by blast
qed

lemma clear_item_occ [simp]: "\<not> occ (clear_item it)"
  by (simp add: clear_item_def occ_def)

text \<open>Moving the item into the hole makes its old slot the hole.\<close>

lemma shift_inv_move:
  assumes inv: "shift_inv its i j e" and k: "k = next_slot (length its) j" "occ (its ! k)"
    and move: "can_move i k (home (length its) (its ! k))"
  defines "its' \<equiv> its[i := its ! k, k := clear_item (its ! k)]"
  shows "shift_inv its' k k e"
proof -
  let ?n = "length its"
  note b = shift_inv_bounds [OF inv]
  have kn: "k < ?n" using next_slot_less [OF b(2)] k(1) by simp
  have h: "home ?n (its ! k) < ?n" using kn by (intro home_less) linarith
  have ik: "i \<noteq> k" and ke: "k \<noteq> e" using b(4,5) k(2) by blast+
  have inside: "cd ?n (home ?n (its ! k)) i < cd ?n (home ?n (its ! k)) k"
    using move can_move_iff [OF b(1) kn h ik] by blast
  have len: "length its' = ?n" by (simp add: its'_def)
  have at: "its' ! i = its ! k" "its' ! k = clear_item (its ! k)"
    "\<And>x. x \<noteq> i \<Longrightarrow> x \<noteq> k \<Longrightarrow> its' ! x = its ! x"
    using b(1) kn ik by (simp_all add: its'_def)
  have occ': "occ (its' ! x)" if "occ (its ! x) \<or> x = i" "x \<noteq> k" for x
    using that at k(2) by (metis)
  have "occ (its' ! x) \<or> (x = k \<and> cd ?n k k < cd ?n k y)"
    if y: "y < ?n" "occ (its' ! y)" and x: "x < ?n"
      and less: "cd ?n (home ?n (its' ! y)) x < cd ?n (home ?n (its' ! y)) y" for x y
  proof (cases "y = i")
    case True
    have less_i: "cd ?n (home ?n (its ! k)) x < cd ?n (home ?n (its ! k)) i"
      using less True at(1) by simp
    with inside have less_k: "cd ?n (home ?n (its ! k)) x < cd ?n (home ?n (its ! k)) k" by linarith
    then have "x \<noteq> k" by blast
    moreover have "occ (its ! x)"
      using shift_inv_chain [OF inv kn k(2) x less_k] less_i by blast
    ultimately show ?thesis using occ' by blast
  next
    case False
    have "y \<noteq> k" using y(2) at(2) by auto
    with False have y': "its' ! y = its ! y" using at(3) by blast
    then have "occ (its ! x) \<or> x = i"
      using shift_inv_chain [OF inv y(1) _ x] y less by auto
    moreover have "0 < cd ?n k y"
      using cd_eq_0 [OF kn y(1)] \<open>y \<noteq> k\<close> by auto
    ultimately show ?thesis using occ' by auto
  qed
  moreover have "\<not> occ (its' ! k)" by (simp add: at)
  moreover have "\<not> occ (its' ! e)" using at(3) [of e] b(5,6) ke by simp
  moreover have "0 < cd ?n k e"
    using cd_eq_0 [OF kn b(3)] ke by auto
  ultimately show ?thesis
    unfolding shift_inv_def Let_def len using b(3) kn ke by simp
qed

section \<open>The loop\<close>

lemma occ_items_move:
  assumes "i < length its" "k < length its" "i \<noteq> k" "\<not> occ (its ! i)" "occ (its ! k)"
  shows "occ_items (its[i := its ! k, k := clear_item (its ! k)]) = occ_items its"
proof -
  let ?a = "its[i := its ! k]"
  have "occ_items ?a = add_mset (its ! k) (occ_items its)"
    using occ_items_update [OF assms(1), of "its ! k"] assms by simp
  moreover have "occ_items (?a[k := clear_item (its ! k)]) + {#its ! k#} = occ_items ?a"
    using occ_items_update [of k ?a "clear_item (its ! k)"] assms by simp
  ultimately show ?thesis by simp
qed

lemma moved_collisions_arith:
  "a = c + of_bool (i \<noteq> h) \<Longrightarrow> a' + of_bool (k \<noteq> h) = a \<Longrightarrow> i \<noteq> k \<Longrightarrow> moved_collisions c i k h = a'"
  by (auto simp: moved_collisions_def Let_def split: if_splits)

lemma moved_collisions_count:
  assumes "i < length its" "k < length its" "i \<noteq> k" "\<not> occ (its ! i)" "occ (its ! k)"
  shows "moved_collisions (count_coll its) i k (home (length its) (its ! k))
       = count_coll (its[i := its ! k, k := clear_item (its ! k)])"
proof -
  let ?a = "its[i := its ! k]" and ?n = "length its"
  have "count_coll ?a = count_coll its + of_bool (i \<noteq> home ?n (its ! k))"
    using count_coll_update [OF assms(1), of "its ! k"] assms by (simp add: off_home_def)
  moreover have "count_coll (?a[k := clear_item (its ! k)]) + of_bool (k \<noteq> home ?n (its ! k)) = count_coll ?a"
    using count_coll_update [of k ?a "clear_item (its ! k)"] assms by (simp add: off_home_def)
  ultimately show ?thesis using assms(3) by (rule moved_collisions_arith)
qed

lemma remove_shift_spec:
  assumes "shift_inv its i j e"
  shows "\<exists>its'. remove_shift its (count_coll its) i j = Some (its', count_coll its')
     \<and> length its' = length its \<and> probe_inv its' \<and> occ_items its' = occ_items its"
  using assms
proof (induction "cd (length its) j e" arbitrary: its i j rule: less_induct)
  case less
  let ?n = "length its"
  define k where "k = next_slot ?n j"
  note b = shift_inv_bounds [OF less.prems]
  have kn: "k < ?n" using next_slot_less [OF b(2)] by (simp add: k_def)
  have closer: "cd ?n k e < cd ?n j e"
    using cd_next_from(4) [OF b(1,2,3,7)] by (simp add: k_def)
  show ?case
  proof (cases "occ (its ! k)")
    case False
    then have "probe_inv its" using shift_inv_done [OF less.prems] by (simp add: k_def)
    with False show ?thesis
      by (simp add: remove_shift.simps k_def Let_def)
  next
    case True
    show ?thesis
    proof (cases "can_move i k (home ?n (its ! k))")
      case False
      with True have "shift_inv its i k e" using shift_inv_skip [OF less.prems k_def] by blast
      from less.hyps [OF closer this] show ?thesis
        using True False by (subst remove_shift.simps) (simp add: k_def Let_def)
    next
      case move: True
      let ?its = "its[i := its ! k, k := clear_item (its ! k)]"
      have ik: "i \<noteq> k" using b(4) True by blast
      have "shift_inv ?its k k e" using shift_inv_move [OF less.prems k_def True move] .
      moreover have "cd (length ?its) k e < cd ?n j e" using closer by simp
      ultimately obtain its' where "remove_shift ?its (count_coll ?its) k k = Some (its', count_coll its')"
        "length its' = length ?its" "probe_inv its'" "occ_items its' = occ_items ?its"
        using less.hyps by blast
      moreover have "remove_shift its (count_coll its) i j = remove_shift ?its (count_coll ?its) k k"
        using True move moved_collisions_count [OF b(1) kn ik b(4) True]
        by (subst remove_shift.simps) (simp add: k_def Let_def)
      ultimately show ?thesis
        using occ_items_move [OF b(1) kn ik b(4) True] by simp
    qed
  qed
qed

section \<open>\<open>set_remove\<close>\<close>

lemma shift_inv_start:
  assumes inv: "set_inv rd S" and i: "i < set_max S" "occ (set_items S ! i)"
  obtains e where "shift_inv ((set_items S)[i := clear_item (set_items S ! i)]) i i e"
proof -
  let ?its = "set_items S" and ?n = "set_max S"
  let ?new = "?its[i := clear_item (?its ! i)]"
  note simps = set_inv_simps [OF inv]
  from set_inv_free [OF inv] obtain e where e: "e < length ?its" "\<not> occ (?its ! e)" .
  have ie: "i \<noteq> e" using i(2) e(2) by blast
  have il: "i < length ?its" using i(1) simps(1) by simp
  have "occ (?new ! x) \<or> (x = i \<and> cd ?n i i < cd ?n i y)"
    if y: "y < ?n" "occ (?new ! y)" and x: "x < ?n"
      and less: "cd ?n (home ?n (?new ! y)) x < cd ?n (home ?n (?new ! y)) y" for x y
  proof -
    have yi: "y \<noteq> i" using y(2) il by auto
    then have "occ (?its ! y)" "cd ?n (home ?n (?its ! y)) x < cd ?n (home ?n (?its ! y)) y"
      using y less by simp_all
    then have "occ (?its ! x)"
      using simps(7) y(1) x unfolding probe_inv_def Let_def simps(1) by blast
    moreover have "0 < cd ?n i y" using cd_eq_0 [OF i(1) y(1)] yi by auto
    ultimately show ?thesis by (cases "x = i") simp_all
  qed
  moreover have "0 < cd ?n i e"
    using cd_eq_0 [OF i(1), of e] ie e(1) simps(1) by auto
  ultimately have "shift_inv ?new i i e"
    unfolding shift_inv_def Let_def using il e ie simps(1) by simp
  then show ?thesis by (rule that)
qed

lemma set_remove_spec:
  assumes inv: "set_inv rd S" and i: "i < set_max S" "occ (set_items S ! i)"
  obtains S' where "set_remove S (Some (int i)) = Some (1, S')" "set_inv rd S'"
    "set_content S = add_mset (set_items S ! i) (set_content S')"
    "set_max S' = set_max S" "set_hash S' = set_hash S"
proof -
  let ?its = "set_items S" and ?n = "set_max S"
  let ?new = "?its[i := clear_item (?its ! i)]"
  note simps = set_inv_simps [OF inv]
  have il: "i < length ?its" using i(1) simps(1) by simp
  from shift_inv_start [OF inv i] obtain e where "shift_inv ?new i i e" .
  from remove_shift_spec [OF this] obtain its' where
    r: "remove_shift ?new (count_coll ?new) i i = Some (its', count_coll its')"
    "length its' = length ?its" "probe_inv its'" "occ_items its' = occ_items ?new" by auto
  let ?S = "S\<lparr>set_items := its', set_collisions := count_coll its', set_count := set_count S - 1\<rparr>"
  have content: "occ_items ?its = add_mset (?its ! i) (occ_items its')"
    using occ_items_update [OF il, of "clear_item (?its ! i)"] i(2) r(4) by simp
  have coll: "(if i \<noteq> home ?n (?its ! i) then set_collisions S - 1 else set_collisions S) = count_coll ?new"
    using count_coll_update [OF il, of "clear_item (?its ! i)"] i(2) simps(1,5)
    by (auto simp: off_home_def)
  have "set_remove S (Some (int i)) = Some (1, ?S)"
    using i coll r(1) by (simp add: set_remove_def Let_def)
  moreover have "set_count S = Suc (count_occ its')"
    using content simps(4) by (metis size_add_mset size_occ_items)
  moreover have "content_ok rd (set_hash S) (occ_items its')"
    by (rule content_ok_subset [OF simps(8)]) (simp add: content)
  ultimately show ?thesis
    using simps r content
    by (intro that [of ?S]) (simp_all add: set_inv_def set_content_def)
qed

section \<open>The cursor\<close>

definition occ_slots :: "('d, 'k) set_tbl \<Rightarrow> nat \<Rightarrow> nat list" where
  "occ_slots S i = filter (\<lambda>j. occ (set_items S ! j)) [i..<set_max S]"

lemma cursor_scan_eq:
  "cursor_scan S c =
     (case occ_slots S (cur_i c) of
        [] \<Rightarrow> (None, c\<lparr>cur_i := max (cur_i c) (set_max S)\<rparr>)
      | i # _ \<Rightarrow> (Some i, c\<lparr>cur_i := i + 1, cur_count := cur_count c + 1\<rparr>))"
proof (induction S c rule: cursor_scan.induct)
  case (1 S c)
  show ?case
  proof (cases "cur_i c < set_max S")
    case True
    then have up: "[cur_i c..<set_max S] = cur_i c # [Suc (cur_i c)..<set_max S]" by (rule upt_conv_Cons)
    show ?thesis
    proof (cases "occ (set_items S ! cur_i c)")
      case False
      then have "occ_slots S (cur_i c) = occ_slots S (Suc (cur_i c))"
        by (simp add: occ_slots_def up)
      moreover have "max (cur_i c) (set_max S) = max (Suc (cur_i c)) (set_max S)"
        using True by simp
      ultimately show ?thesis
        using "1.IH" True False by (subst cursor_scan.simps) (simp split: list.split)
    qed (use True in \<open>simp add: cursor_scan.simps occ_slots_def up\<close>)
  next
    case False
    then show ?thesis by (simp add: cursor_scan.simps occ_slots_def max_def)
  qed
qed

text \<open>\<open>n\<close> calls of \<^verbatim>\<open>set_cursor_next\<close>, up to the first NULL.\<close>

fun cursor_run :: "nat \<Rightarrow> ('d, 'k) set_tbl \<Rightarrow> set_cursor \<Rightarrow> nat list" where
  "cursor_run 0 S c = []"
| "cursor_run (Suc n) S c =
     (case set_cursor_next S c of (None, c') \<Rightarrow> [] | (Some i, c') \<Rightarrow> i # cursor_run n S c')"

lemma occ_slots_step:
  "occ_slots S i = j # js \<Longrightarrow> js = occ_slots S (Suc j)"
proof -
  assume j: "occ_slots S i = j # js"
  then have ij: "i \<le> j" "j < set_max S" "occ (set_items S ! j)"
  proof -
    have "j \<in> set (occ_slots S i)" using j by simp
    then show "i \<le> j" "j < set_max S" "occ (set_items S ! j)" by (simp_all add: occ_slots_def)
  qed
  have split: "[i..<set_max S] = [i..<j] @ j # [Suc j..<set_max S]"
    using upt_add_eq_append [of i j "set_max S - j"] ij upt_conv_Cons [of j "set_max S"] by simp
  have "\<not> occ (set_items S ! x)" if "x \<in> set [i..<j]" for x
  proof
    assume "occ (set_items S ! x)"
    with that have "x \<in> set (filter (\<lambda>j. occ (set_items S ! j)) [i..<j])" by simp
    then obtain y ys where y: "filter (\<lambda>j. occ (set_items S ! j)) [i..<j] = y # ys"
      by (cases "filter (\<lambda>j. occ (set_items S ! j)) [i..<j]") auto
    then have "y \<in> set (filter (\<lambda>j. occ (set_items S ! j)) [i..<j])" by simp
    then have "y < j" by simp
    moreover have "y = j" using j y by (simp add: occ_slots_def split)
    ultimately show False by simp
  qed
  then have "filter (\<lambda>j. occ (set_items S ! j)) [i..<j] = []"
    by (simp add: filter_empty_conv)
  with j ij(3) show ?thesis by (simp add: occ_slots_def split)
qed

lemma cursor_run_eq:
  "cur_count c + length (occ_slots S (cur_i c)) = set_count S \<Longrightarrow> length (occ_slots S (cur_i c)) < n \<Longrightarrow>
   cursor_run n S c = occ_slots S (cur_i c)"
proof (induction n arbitrary: c)
  case (Suc n)
  show ?case
  proof (cases "occ_slots S (cur_i c)")
    case Nil
    with Suc.prems show ?thesis by (simp add: set_cursor_next_def)
  next
    case (Cons j js)
    have "js = occ_slots S (Suc j)" by (rule occ_slots_step [OF Cons])
    with Cons Suc.prems Suc.IH [of "c\<lparr>cur_i := j + 1, cur_count := cur_count c + 1\<rparr>"] show ?thesis
      by (simp add: set_cursor_next_def cursor_scan_eq)
  qed
qed simp

lemma length_occ_slots: "length (set_items S) = set_max S \<Longrightarrow> length (occ_slots S 0) = count_occ (set_items S)"
proof -
  assume len: "length (set_items S) = set_max S"
  have "filter occ (map ((!) (set_items S)) [0..<length (set_items S)])
      = map ((!) (set_items S)) (filter (occ \<circ> (!) (set_items S)) [0..<length (set_items S)])"
    by (rule filter_map)
  then have "filter occ (set_items S) = map ((!) (set_items S)) (occ_slots S 0)"
    using map_nth [of "set_items S"] len by (simp add: occ_slots_def comp_def)
  then show ?thesis by (simp add: count_occ_def)
qed

section \<open>A set of pointers keyed by what they point to\<close>

text \<open>
  The contract that the clients of the hash set use: a finite set of pointers whose contents
  differ. The operations take the allocator's answers; an insertion may be refused, and then
  nothing changes.
\<close>

locale keyed_set =
  fixes inv :: "'t \<Rightarrow> bool"
    and elems :: "'t \<Rightarrow> 'd set"
    and keyof :: "'d \<Rightarrow> 'k"
    and get :: "'t \<Rightarrow> 'k \<Rightarrow> 'd option option"
    and add :: "'t \<Rightarrow> 'd \<Rightarrow> mem \<Rightarrow> ('d option \<times> 't \<times> mem) option"
    and remove :: "'t \<Rightarrow> 'd \<Rightarrow> 't option"
  assumes keys_inj: "inv S \<Longrightarrow> inj_on keyof (elems S)"
    and get_Some: "inv S \<Longrightarrow> d \<in> elems S \<Longrightarrow> get S (keyof d) = Some (Some d)"
    and get_None: "inv S \<Longrightarrow> k \<notin> keyof ` elems S \<Longrightarrow> get S k = Some None"
    and add_total: "inv S \<Longrightarrow> \<exists>r S' h'. add S d h = Some (r, S', h')"
    and add_refused: "inv S \<Longrightarrow> add S d h = Some (None, S', h') \<Longrightarrow> S' = S"
    and add_inv: "inv S \<Longrightarrow> add S d h = Some (Some r, S', h') \<Longrightarrow> inv S'"
    and add_new: "inv S \<Longrightarrow> keyof d \<notin> keyof ` elems S \<Longrightarrow> add S d h = Some (Some r, S', h') \<Longrightarrow>
        r = d \<and> elems S' = insert d (elems S)"
    and add_old: "inv S \<Longrightarrow> d' \<in> elems S \<Longrightarrow> keyof d = keyof d' \<Longrightarrow>
        add S d h = Some (Some r, S', h') \<Longrightarrow> r = d' \<and> elems S' = elems S"
    and remove_elem: "inv S \<Longrightarrow> d \<in> elems S \<Longrightarrow>
        \<exists>S'. remove S d = Some S' \<and> inv S' \<and> elems S' = elems S - {d}"
begin

lemma get_total: "inv S \<Longrightarrow> \<exists>r. get S k = Some r"
  using get_Some get_None by (cases "k \<in> keyof ` elems S") blast+

lemma get_SomeD:
  assumes "inv S" "get S k = Some (Some d)"
  shows "d \<in> elems S" "keyof d = k"
proof -
  have "k \<in> keyof ` elems S"
    using assms get_None by fastforce
  then obtain d' where "d' \<in> elems S" "k = keyof d'" by blast
  with get_Some [OF assms(1)] assms(2) show "d \<in> elems S" "keyof d = k" by auto
qed

lemma get_NoneD: "inv S \<Longrightarrow> get S k = Some None \<Longrightarrow> k \<notin> keyof ` elems S"
  using get_Some by fastforce

lemma get_add:
  assumes "inv S" "add S d h = Some (Some r, S', h')"
  shows "get S' (keyof d) = Some (Some r)"
proof (cases "keyof d \<in> keyof ` elems S")
  case True
  then obtain d' where "d' \<in> elems S" "keyof d = keyof d'" by blast
  with add_old [OF assms(1) this assms(2)] get_Some [OF add_inv [OF assms]] show ?thesis by simp
next
  case False
  with add_new [OF assms(1) _ assms(2)] get_Some [OF add_inv [OF assms]] show ?thesis by simp
qed

lemma get_remove:
  assumes "inv S" "d \<in> elems S" "remove S d = Some S'"
  shows "get S' (keyof d) = Some None"
proof -
  from remove_elem [OF assms(1,2)] assms(3) have S': "inv S'" "elems S' = elems S - {d}" by auto
  then have "keyof d \<notin> keyof ` elems S'"
    using keys_inj [OF assms(1)] assms(2) by (auto simp: inj_on_def)
  then show ?thesis by (rule get_None [OF S'(1)])
qed

end

section \<open>The hash set meets the contract\<close>

text \<open>
  Pointers to contents of one fixed length, as the facts index and the listener index use the
  set: look up, add, and look up then remove.
\<close>

definition ptr_inv :: "('d \<Rightarrow> nat \<Rightarrow> 'k) \<Rightarrow> ('k \<Rightarrow> nat \<Rightarrow> u64) \<Rightarrow> nat \<Rightarrow> ('d, 'k) set_tbl \<Rightarrow> bool" where
  "ptr_inv rd hf len S \<longleftrightarrow>
     set_inv rd S \<and> set_hash S = hf \<and> 0 < len \<and> (\<forall>it \<in># set_content S. it_len it = len)"

definition ptr_elems :: "('d, 'k) set_tbl \<Rightarrow> 'd set" where
  "ptr_elems S = {d. \<exists>it \<in># set_content S. it_data it = Some d}"

definition ptr_get :: "('d \<Rightarrow> nat \<Rightarrow> 'k) \<Rightarrow> nat \<Rightarrow> ('d, 'k) set_tbl \<Rightarrow> 'k \<Rightarrow> 'd option option" where
  "ptr_get rd len S k =
     map_option (\<lambda>r. case r of None \<Rightarrow> None | Some i \<Rightarrow> it_data (set_items S ! i)) (set_get rd S k len)"

definition ptr_add ::
  "('d \<Rightarrow> nat \<Rightarrow> 'k) \<Rightarrow> nat \<Rightarrow> ('d, 'k) set_tbl \<Rightarrow> 'd \<Rightarrow> mem \<Rightarrow> ('d option \<times> ('d, 'k) set_tbl \<times> mem) option" where
  "ptr_add rd len S d h =
     map_option (\<lambda>(r, S', h'). (case r of None \<Rightarrow> None | Some i \<Rightarrow> it_data (set_items S' ! i), S', h'))
       (set_add rd S d len h)"

definition ptr_remove ::
  "('d \<Rightarrow> nat \<Rightarrow> 'k) \<Rightarrow> nat \<Rightarrow> ('d, 'k) set_tbl \<Rightarrow> 'd \<Rightarrow> ('d, 'k) set_tbl option" where
  "ptr_remove rd len S d =
     (case set_get rd S (rd d len) len of
        None \<Rightarrow> None
      | Some r \<Rightarrow> map_option snd (set_remove S (map_option int r)))"

lemma ptr_item:
  assumes "ptr_inv rd hf len S" "it \<in># set_content S"
  obtains d where "it_data it = Some d" "it_len it = len" "it_hash it = hf (rd d len) len"
    "ikey rd it = (hf (rd d len) len, len, Some (rd d len))" "d \<in> ptr_elems S"
proof -
  have inv: "set_inv rd S" "set_hash S = hf" and len: "it_len it = len"
    using assms by (simp_all add: ptr_inv_def)
  obtain d where d: "it_data it = Some d" "it_hash it = hf (rd d (it_len it)) (it_len it)"
    using set_inv_simps(8) [OF inv(1)] assms(2) inv(2)
    unfolding content_ok_def set_content_def by blast
  show ?thesis
    by (rule that [of d]) (use d len assms(2) in \<open>auto simp: ikey_def ptr_elems_def\<close>)
qed

lemma ptr_elemE:
  assumes "ptr_inv rd hf len S" "d \<in> ptr_elems S"
  obtains it i where "it \<in># set_content S" "it_data it = Some d" "i < set_max S" "occ (set_items S ! i)"
    "set_items S ! i = it" "ikey rd it = (hf (rd d len) len, len, Some (rd d len))"
proof -
  from assms(2) obtain it where it: "it \<in># set_content S" "it_data it = Some d"
    by (auto simp: ptr_elems_def)
  have inv: "set_inv rd S" using assms(1) by (simp add: ptr_inv_def)
  from ptr_item [OF assms(1) it(1)] it(2)
  have key: "ikey rd it = (hf (rd d len) len, len, Some (rd d len))" by auto
  from mem_content_slot [OF inv it(1)] obtain i
    where "i < set_max S" "occ (set_items S ! i)" "set_items S ! i = it" .
  with it key show ?thesis by (intro that)
qed

lemma ptr_keys_inj: "ptr_inv rd hf len S \<Longrightarrow> inj_on (\<lambda>d. rd d len) (ptr_elems S)"
proof (rule inj_onI)
  fix d d'
  assume inv: "ptr_inv rd hf len S" and d: "d \<in> ptr_elems S" "d' \<in> ptr_elems S" and eq: "rd d len = rd d' len"
  have sinv: "set_inv rd S" using inv by (simp add: ptr_inv_def)
  from ptr_elemE [OF inv d(1)] obtain it i where i: "it_data it = Some d" "i < set_max S"
    "occ (set_items S ! i)" "set_items S ! i = it" "ikey rd it = (hf (rd d len) len, len, Some (rd d len))"
    by metis
  from ptr_elemE [OF inv d(2)] obtain it' i' where i': "it_data it' = Some d'" "i' < set_max S"
    "occ (set_items S ! i')" "set_items S ! i' = it'" "ikey rd it' = (hf (rd d' len) len, len, Some (rd d' len))"
    by metis
  have "ikey rd (set_items S ! i') = ikey rd (set_items S ! i)"
    unfolding i(4,5) i'(4,5) eq ..
  then have "i' = i" by (rule set_inv_unique [OF sinv i(2,3) i'(2,3)])
  then have "it' = it" using i(4) i'(4) by simp
  then show "d = d'" using i(1) i'(1) by simp
qed

lemma ptr_get_Some:
  assumes "ptr_inv rd hf len S" "d \<in> ptr_elems S"
  shows "ptr_get rd len S (rd d len) = Some (Some d)"
proof -
  have inv: "set_inv rd S" "set_hash S = hf" using assms(1) by (simp_all add: ptr_inv_def)
  from ptr_elemE [OF assms] obtain it i where i: "it_data it = Some d" "i < set_max S"
    "occ (set_items S ! i)" "set_items S ! i = it" "ikey rd it = (hf (rd d len) len, len, Some (rd d len))"
    by metis
  then have "set_get_h rd S (rd d len) len (hf (rd d len) len) = Some (Some i)"
    by (intro set_get_h_Some [OF inv(1)]) simp_all
  with i inv(2) show ?thesis by (simp add: ptr_get_def set_get_def)
qed

lemma ptr_get_None:
  assumes "ptr_inv rd hf len S" "k \<notin> (\<lambda>d. rd d len) ` ptr_elems S"
  shows "set_get rd S k len = Some None" "ptr_get rd len S k = Some None"
proof -
  have inv: "set_inv rd S" "set_hash S = hf" using assms(1) by (simp_all add: ptr_inv_def)
  have "ikey rd it \<noteq> (hf k len, len, Some k)" if it: "it \<in># set_content S" for it
  proof (rule ptr_item [OF assms(1) it])
    fix d assume "ikey rd it = (hf (rd d len) len, len, Some (rd d len))" "d \<in> ptr_elems S"
    with assms(2) show ?thesis by force
  qed
  from set_get_h_None [OF inv(1) this] inv(2)
  show "set_get rd S k len = Some None" by (simp add: set_get_def)
  then show "ptr_get rd len S k = Some None" by (simp add: ptr_get_def)
qed

lemma ptr_inv_add_mset:
  assumes "ptr_inv rd hf len S" "set_inv rd S'" "set_hash S' = set_hash S"
    and "set_content S' = add_mset (fresh_item d len hash) (set_content S)"
  shows "ptr_inv rd hf len S'" "ptr_elems S' = insert d (ptr_elems S)"
  using assms by (auto simp: ptr_inv_def ptr_elems_def)

lemma ptr_add_cases:
  assumes inv: "ptr_inv rd hf len S"
  obtains (refused) h' where "ptr_add rd len S d h = Some (None, S, h')"
  | (old) S' h' d' where "ptr_add rd len S d h = Some (Some d', S', h')" "ptr_inv rd hf len S'"
      "d' \<in> ptr_elems S" "rd d' len = rd d len" "ptr_elems S' = ptr_elems S"
  | (new) S' h' where "ptr_add rd len S d h = Some (Some d, S', h')" "ptr_inv rd hf len S'"
      "rd d len \<notin> (\<lambda>d. rd d len) ` ptr_elems S" "ptr_elems S' = insert d (ptr_elems S)"
proof -
  let ?hash = "hf (rd d len) len"
  have sinv: "set_inv rd S" "set_hash S = hf" "0 < len" using inv by (simp_all add: ptr_inv_def)
  have res: "set_add rd S d len h = set_add_h rd S d len ?hash h"
    using sinv(2) by (simp add: set_add_def)
  have "added rd d len ?hash S (set_add_h rd S d len ?hash h)"
    using sinv by (intro set_add_h_added) simp_all
  then consider h' where "set_add_h rd S d len ?hash h = Some (None, S, h')"
    | j S' h' where "set_add_h rd S d len ?hash h = Some (Some j, S', h')" "set_inv rd S'"
      "set_hash S' = set_hash S" "j < set_max S'"
      "if \<exists>it \<in># set_content S. ikey rd it = (?hash, len, Some (rd d len))
         then set_content S' = set_content S \<and> occ (set_items S' ! j) \<and>
              ikey rd (set_items S' ! j) = (?hash, len, Some (rd d len))
         else set_items S' ! j = fresh_item d len ?hash \<and>
              set_content S' = add_mset (fresh_item d len ?hash) (set_content S)"
    unfolding added_def by blast
  then show ?thesis
  proof cases
    fix h' assume "set_add_h rd S d len ?hash h = Some (None, S, h')"
    then show ?thesis by (intro refused [of h']) (simp add: ptr_add_def res)
  next
    fix j S' h'
    assume r: "set_add_h rd S d len ?hash h = Some (Some j, S', h')" "set_inv rd S'"
      "set_hash S' = set_hash S" "j < set_max S'"
      and outcome: "if \<exists>it \<in># set_content S. ikey rd it = (?hash, len, Some (rd d len))
         then set_content S' = set_content S \<and> occ (set_items S' ! j) \<and>
              ikey rd (set_items S' ! j) = (?hash, len, Some (rd d len))
         else set_items S' ! j = fresh_item d len ?hash \<and>
              set_content S' = add_mset (fresh_item d len ?hash) (set_content S)"
    show ?thesis
    proof (cases "\<exists>it \<in># set_content S. ikey rd it = (?hash, len, Some (rd d len))")
      case True
      with outcome have o: "set_content S' = set_content S" "occ (set_items S' ! j)"
        "ikey rd (set_items S' ! j) = (?hash, len, Some (rd d len))" by simp_all
      have inv': "ptr_inv rd hf len S'" "ptr_elems S' = ptr_elems S"
        using inv r(2,3) o(1) by (simp_all add: ptr_inv_def ptr_elems_def)
      have "set_items S' ! j \<in># set_content S'"
        using o(2) r(4) set_inv_simps(1) [OF r(2)] unfolding set_content_def mem_occ_items by metis
      from ptr_item [OF inv'(1) this] obtain d' where "it_data (set_items S' ! j) = Some d'"
        "ikey rd (set_items S' ! j) = (hf (rd d' len) len, len, Some (rd d' len))" "d' \<in> ptr_elems S'"
        by metis
      with o(3) inv' r(1) show ?thesis
        by (intro old [of d' S' h']) (simp_all add: ptr_add_def res)
    next
      case False
      with outcome have o: "set_items S' ! j = fresh_item d len ?hash"
        "set_content S' = add_mset (fresh_item d len ?hash) (set_content S)" by simp_all
      have "rd d len \<notin> (\<lambda>d. rd d len) ` ptr_elems S"
      proof
        assume "rd d len \<in> (\<lambda>d. rd d len) ` ptr_elems S"
        then obtain d' where "d' \<in> ptr_elems S" "rd d len = rd d' len" by blast
        from ptr_elemE [OF inv this(1)] this(2) False show False by metis
      qed
      with o r(1) ptr_inv_add_mset [OF inv r(2,3) o(2)] show ?thesis
        by (intro new [of S' h']) (simp_all add: ptr_add_def res)
    qed
  qed
qed

lemma ptr_remove_elem:
  assumes inv: "ptr_inv rd hf len S" and d: "d \<in> ptr_elems S"
  shows "\<exists>S'. ptr_remove rd len S d = Some S' \<and> ptr_inv rd hf len S' \<and> ptr_elems S' = ptr_elems S - {d}"
proof -
  have sinv: "set_inv rd S" "set_hash S = hf" using inv by (simp_all add: ptr_inv_def)
  from ptr_elemE [OF inv d] obtain it i where i: "it_data it = Some d" "i < set_max S"
    "occ (set_items S ! i)" "set_items S ! i = it" "ikey rd it = (hf (rd d len) len, len, Some (rd d len))"
    by metis
  then have "set_get rd S (rd d len) len = Some (Some i)"
    using sinv by (simp add: set_get_def) (intro set_get_h_Some; simp)
  moreover from set_remove_spec [OF sinv(1) i(2,3)] obtain S' where
    S': "set_remove S (Some (int i)) = Some (1, S')" "set_inv rd S'"
    "set_content S = add_mset it (set_content S')" "set_hash S' = set_hash S"
    using i(4) by metis
  ultimately have r: "ptr_remove rd len S d = Some S'" by (simp add: ptr_remove_def)
  have inv': "ptr_inv rd hf len S'" using inv S' by (auto simp: ptr_inv_def)
  have elems: "ptr_elems S = insert d (ptr_elems S')" using S'(3) i(1) by (auto simp: ptr_elems_def)
  have "d \<notin> ptr_elems S'"
  proof
    assume "d \<in> ptr_elems S'"
    from ptr_elemE [OF inv' this] obtain it' where it': "it' \<in># set_content S'"
      "ikey rd it' = ikey rd it" using i(5) by metis
    have "content_ok rd hf (add_mset it (set_content S'))"
      using set_inv_simps(8) [OF sinv(1)] S'(3) sinv(2) by (simp add: set_content_def)
    from content_ok_distinct [OF this it'(1)] it'(2) show False by blast
  qed
  with r inv' elems show ?thesis by blast
qed

interpretation ks: keyed_set "ptr_inv rd hf len" ptr_elems "\<lambda>d. rd d len" "ptr_get rd len"
    "ptr_add rd len" "ptr_remove rd len"
  for rd :: "'d \<Rightarrow> nat \<Rightarrow> 'k" and hf and len
proof (unfold_locales, goal_cases)
  case (4 S d h)
  show ?case by (rule ptr_add_cases [OF 4, of d h]) simp_all
next
  case (5 S d h S' h')
  show ?case by (rule ptr_add_cases [OF 5(1), of d h]) (use 5(2) in simp_all)
next
  case (6 S d h r S' h')
  show ?case by (rule ptr_add_cases [OF 6(1), of d h]) (use 6(2) in simp_all)
next
  case (7 S d h r S' h')
  show ?case
    by (rule ptr_add_cases [OF 7(1), of d h]) (use 7(2,3) in \<open>auto simp: image_iff\<close>)
next
  case (8 S d' d h r S' h')
  show ?case
  proof (rule ptr_add_cases [OF 8(1), of d h])
    fix T g x assume "ptr_add rd len S d h = Some (Some x, T, g)" "x \<in> ptr_elems S"
      "rd x len = rd d len" "ptr_elems T = ptr_elems S"
    with 8 inj_onD [OF ptr_keys_inj [OF 8(1)], of x d'] show ?thesis by simp
  qed (use 8 in \<open>auto simp: image_iff\<close>)
qed (simp_all add: ptr_keys_inj ptr_get_Some ptr_get_None ptr_remove_elem)

end
