(* ===== verification/Hashset_Props.thy ===== *)
theory Hashset_Props
  imports Hashset_Del
begin

text \<open>The properties of the hash set, and an example table on which they apply.\<close>

section \<open>An example table\<close>

text \<open>
  Four slots, items that are their own content, hashed to themselves: 5 sits at its home 1,
  and 1, which has the same home, in slot 2.
\<close>

definition ex_rd :: "nat \<Rightarrow> nat \<Rightarrow> nat" where
  "ex_rd d len = d"

definition ex_hash :: "nat \<Rightarrow> nat \<Rightarrow> u64" where
  "ex_hash k len = of_nat k"

definition ex_set :: "(nat, nat) set_tbl" where
  "ex_set =
     \<lparr>set_max = 4,
      set_items = [zero_item, fresh_item 5 1 5, fresh_item 1 1 1, zero_item],
      set_count = 2, set_collisions = 1, set_hash = ex_hash\<rparr>"

lemma ex_occ [simp]: "\<not> occ zero_item"
  by (simp add: zero_item_def occ_def)

lemma ex_content: "occ_items [zero_item, fresh_item 5 1 5, fresh_item 1 1 1, zero_item]
    = {#fresh_item 5 1 5, fresh_item (1::nat) 1 1#}"
  by (simp add: occ_items_def)

lemma ex_set_inv: "set_inv ex_rd ex_set"
proof -
  let ?its = "[zero_item, fresh_item 5 1 5, fresh_item (1::nat) 1 1, zero_item]"
  have "count_occ ?its = 2" by (simp add: count_occ_def)
  moreover have "count_coll ?its = 1"
    by (simp add: count_coll_def upt_rec)
  moreover have "probe_inv ?its"
    unfolding probe_inv_def Let_def
  proof (intro allI impI)
    fix y x
    assume "y < length ?its" "occ (?its ! y)" "x < length ?its"
      and less: "cd (length ?its) (home (length ?its) (?its ! y)) x < cd (length ?its) (home (length ?its) (?its ! y)) y"
    then have "y = 0 \<or> y = 1 \<or> y = 2 \<or> y = 3" "x = 0 \<or> x = 1 \<or> x = 2 \<or> x = 3" "occ (?its ! y)"
      by simp_all linarith+
    with less show "occ (?its ! x)"
      by (elim disjE) (simp_all add: cd_def)
  qed
  moreover have "content_ok ex_rd ex_hash (occ_items ?its)"
    unfolding ex_content content_ok_def by (auto simp: ex_rd_def ex_hash_def)
  ultimately show ?thesis
    unfolding set_inv_def ex_set_def by simp
qed

section \<open>Properties\<close>

text \<open>
  C17: on a well-formed table \<^verbatim>\<open>set_get\<close> always returns: the item with the given bytes when there is one, and
  NULL when there is none.
\<close>

theorem set_get_correct:
  assumes "set_inv rd S"
  shows "(\<exists>i. set_get rd S k len = Some (Some i) \<and> i < set_max S \<and> occ (set_items S ! i)
           \<and> ikey rd (set_items S ! i) = (set_hash S k len, len, Some k))
     \<or> (set_get rd S k len = Some None
         \<and> (\<forall>it \<in># set_content S. ikey rd it \<noteq> (set_hash S k len, len, Some k)))"
  unfolding set_get_def
  by (rule set_get_h_cases [OF assms, where k = k and len = len and hash = "set_hash S k len"]) auto

theorem set_get_correct_witness: "set_get ex_rd ex_set 1 1 \<noteq> None"
  using set_get_correct [OF ex_set_inv, of 1 1] by auto

text \<open>
  C18: \<^verbatim>\<open>set_add\<close> on a well-formed table always returns. Either it returns NULL and the table is
  unchanged (only possible when the table is half full, so that it had to grow); or the
  table is well-formed again, its size is the old one or doubled, and the returned slot holds
  the item with the given bytes: the old one, with the content unchanged, or a fresh one
  that is the only addition. The load stays at most one half (rounded up).
\<close>

theorem set_add_correct:
  assumes "set_inv rd S" "0 < len"
  shows "added rd d len (set_hash S (rd d len) len) S (set_add rd S d len h)"
  unfolding set_add_def by (rule set_add_h_added [OF assms refl])

theorem set_add_correct_witness:
  "added ex_rd 9 1 (ex_hash 9 1) ex_set (set_add ex_rd ex_set 9 1 [False])"
  using set_add_correct [OF ex_set_inv, of 1 9 "[False]"] by (simp add: ex_rd_def ex_set_def)

text \<open>
  C19: \<^verbatim>\<open>set_resize_checked\<close> to a size of at least 2 either fails with \<^verbatim>\<open>-1\<close> and leaves the table,
  its counters included, exactly as it was, or succeeds with a well-formed table of at
  least that size whose items are the old ones with all their fields.
\<close>

theorem set_resize_correct:
  assumes "set_inv rd S" "2 \<le> mx"
  shows "(\<exists>h'. set_resize_checked rd S mx h = Some (- 1, S, h')) \<or>
     (\<exists>S' h'. set_resize_checked rd S mx h = Some (0, S', h') \<and> set_inv rd S' \<and> mx \<le> set_max S' \<and>
        set_hash S' = set_hash S \<and> set_content S' = set_content S)"
  using set_resize_checked_resized [OF assms, of h] unfolding resized_def .

theorem set_resize_correct_witness:
  "\<exists>r S' h'. set_resize_checked ex_rd ex_set 3 [True, False] = Some (r, S', h') \<and> set_content S' = set_content ex_set"
  using set_resize_correct [OF ex_set_inv, of 3 "[True, False]"] by auto

text \<open>
  C20: \<^verbatim>\<open>set_remove\<close> of an occupied slot returns 1 and ends with a well-formed table (the items that
  probing would no longer reach are shifted back, the collision counter stays exact) whose
  content has lost exactly that item.
\<close>

theorem set_remove_correct:
  assumes "set_inv rd S" "i < set_max S" "occ (set_items S ! i)"
  shows "\<exists>S'. set_remove S (Some (int i)) = Some (1, S') \<and> set_inv rd S'
     \<and> set_content S = add_mset (set_items S ! i) (set_content S')
     \<and> set_max S' = set_max S \<and> set_hash S' = set_hash S"
  using set_remove_spec [OF assms] by metis

theorem set_remove_correct_witness:
  "\<exists>S'. set_remove ex_set (Some 1) = Some (1, S') \<and> set_content S' = {#fresh_item 1 1 1#}"
  using set_remove_correct [OF ex_set_inv, of 1]
  by (auto simp: ex_set_def set_content_def ex_content [simplified])

text \<open>
  C21: a cursor on a well-formed table returns every occupied slot once, in the order of the slots,
  and then NULL: more calls than there are items visit all of them.
\<close>

theorem set_cursor_enumerates:
  assumes "set_inv rd S" "set_count S < n"
  shows "cursor_run n S set_cursor_init = filter (\<lambda>i. occ (set_items S ! i)) [0..<set_max S]"
proof -
  have "length (occ_slots S 0) = set_count S"
    using length_occ_slots set_inv_simps(1,4) [OF assms(1)] by metis
  then show ?thesis
    using cursor_run_eq [of set_cursor_init S n] assms(2)
    by (simp add: set_cursor_init_def occ_slots_def)
qed

theorem set_cursor_enumerates_witness: "cursor_run 3 ex_set set_cursor_init = [1, 2]"
  using set_cursor_enumerates [OF ex_set_inv, of 3]
  by (simp add: ex_set_def upt_rec)

lemma set_probe_full_loop:
  assumes "occ it" "\<not> P it"
  shows "set_probe P [it] 0 = None"
proof (cases "set_probe P [it] 0")
  case (Some y)
  have "\<not> (P = P \<and> [it] = [it] \<and> (0::nat) = 0)"
  proof (rule set_probe.raw_induct [where P = "\<lambda>m its i y. \<not> (m = P \<and> its = [it] \<and> i = 0)", OF _ Some])
    fix sp :: "('a set_item \<Rightarrow> bool) \<Rightarrow> 'a set_item list \<Rightarrow> nat \<Rightarrow> nat option" and m its i y
    assume IH: "\<And>m its i y. sp m its i = Some y \<Longrightarrow> \<not> (m = P \<and> its = [it] \<and> i = 0)"
      and body: "(if occ (its ! i) then if m (its ! i) then Some i
            else sp m its (next_slot (length its) i) else Some i) = Some y"
    show "\<not> (m = P \<and> its = [it] \<and> i = 0)"
    proof
      assume eq: "m = P \<and> its = [it] \<and> i = 0"
      with body assms have "sp P [it] 0 = Some y" by (simp add: next_slot_def)
      from IH [OF this] show False by simp
    qed
  qed
  then show ?thesis by simp
qed simp

text \<open>
  C22: with \<^verbatim>\<open>max\<close> 1 the load bound does not keep a slot free: after one \<^verbatim>\<open>set_add\<close> to \<^verbatim>\<open>new_set(1)\<close>
  a lookup of absent bytes, whose hash cannot matter, runs around the full table for ever.
\<close>

theorem set_max_1_lookup_diverges:
  assumes "set_init_checked hf 1 S0 h = (0, S, h1)"
    and "0 < len" "set_add rd S d len h1 = Some (Some j, S1, h2)"
    and "rd d len' \<noteq> k"
  shows "set_get rd S1 k len' = None"
proof -
  have S: "set_max S = 1" "set_items S = [zero_item]" "set_count S = 0"
    using assms(1) by (auto simp: set_init_checked_def split: if_splits prod.splits bool.splits)
  let ?hash = "set_hash S (rd d len) len"
  have "set_probe (item_matches rd (rd d len) len ?hash) [zero_item] 0 = Some 0"
    by (simp add: set_probe.simps)
  then have "set_add rd S d len h1 = Some (Some 0, set_store S 0 d len ?hash, h1)"
    using S by (simp add: set_add_def set_add_h_def numeral_eq_Suc set_insert_def)
  with assms(3) have S1: "S1 = set_store S 0 d len ?hash" by simp
  have "set_probe (item_matches rd k len' (set_hash S1 k len')) [fresh_item d len ?hash] 0 = None"
    by (rule set_probe_full_loop) (use assms(2,4) in \<open>auto simp: item_matches_def\<close>)
  then show ?thesis
    using S by (simp add: set_get_def set_get_h_def S1 set_store_eq)
qed

theorem set_max_1_lookup_diverges_witness:
  "\<exists>S1. set_get ex_rd S1 7 1 = None \<and> set_count S1 = 1"
proof -
  define S :: "(nat, nat) set_tbl" where "S = \<lparr>set_max = 1, set_items = [zero_item], set_count = 0,
     set_collisions = 0, set_hash = ex_hash\<rparr>"
  have init: "set_init_checked ex_hash 1 S [] = (0, S, [])"
    by (simp add: set_init_checked_def S_def)
  have add: "set_add ex_rd S 5 1 [] = Some (Some 0, set_store S 0 5 1 (ex_hash 5 1), [])"
    by (simp add: set_add_def set_add_h_def numeral_eq_Suc set_insert_def S_def set_probe.simps ex_rd_def)
  have "set_get ex_rd (set_store S 0 5 1 (ex_hash 5 1)) 7 1 = None"
    by (rule set_max_1_lookup_diverges [OF init _ add]) (simp_all add: ex_rd_def)
  moreover have "set_count (set_store S 0 5 1 (ex_hash 5 1)) = 1"
    by (simp add: set_store_eq S_def)
  ultimately show ?thesis by blast
qed

end
