(* ===== verification/Intern.thy ===== *)
theory Intern
  imports Rax Symbols Hashset_Del
begin

text \<open>
  \<^verbatim>\<open>include/intern.h\<close> and \<^verbatim>\<open>lib/intern.c\<close>: the table of interned strings, a radix tree from
  strings to reference-counted items, with the symbols in pages that only grow. The table
  never hands out an identifier twice; a symbol is released when its count falls to 0, and
  interning its string again makes a new symbol.
\<close>

section \<open>Pages\<close>

text \<open>
  The list of pages, the current one first. A pointer into a page is the number of the page
  (how many pages are older) and the offset in its data.
\<close>

record intern_page =
  pg_size :: nat
  pg_capacity :: nat

definition new_page :: "nat \<Rightarrow> mem \<Rightarrow> intern_page option \<times> mem" where
  "new_page min_capacity h =
     (let page_capacity = (if min_capacity > 65536 - 24 then min_capacity else 65536 - 24) in
      if page_capacity > SIZE_MAX - 24 then (None, h)
      else (case malloc h of
              (False, h') \<Rightarrow> (None, h')
            | (True, h') \<Rightarrow> (Some \<lparr>pg_size = 0, pg_capacity = page_capacity\<rparr>, h')))"

definition align_up8 :: "nat \<Rightarrow> nat" where
  "align_up8 sz = (sz + 7) div 8 * 8"

text \<open>The sum \<^verbatim>\<open>page->sz + size\<close> is computed on \<^verbatim>\<open>size_t\<close>, so it wraps.\<close>

definition bump :: "intern_page list \<Rightarrow> nat \<Rightarrow> (nat \<times> nat) \<times> intern_page list" where
  "bump pages sz =
     (let page = hd pages in
      ((length (tl pages), pg_size page),
       page\<lparr>pg_size := (pg_size page + sz) mod 2 ^ 64\<rparr> # tl pages))"

definition intern_alloc ::
  "intern_page list \<Rightarrow> nat \<Rightarrow> mem \<Rightarrow> (nat \<times> nat) option \<times> intern_page list \<times> mem" where
  "intern_alloc pages sz0 h =
     (if sz0 > SIZE_MAX - 7 then (None, pages, h)
      else let sz = align_up8 sz0 in
        if pages = [] \<or> (pg_size (hd pages) + sz) mod 2 ^ 64 > pg_capacity (hd pages)
        then (case new_page sz h of
                (None, h') \<Rightarrow> (None, pages, h')
              | (Some page, h') \<Rightarrow> (case bump (page # pages) sz of (p, ps) \<Rightarrow> (Some p, ps, h')))
        else (case bump pages sz of (p, ps) \<Rightarrow> (Some p, ps, h)))"

section \<open>The table\<close>

record intern_table =
  symbols :: "(char, symbol set_item) rax"
  symbols_delete :: bool
  next_id :: u64
  pages :: "intern_page list"

definition intern_init_checked :: "mem \<Rightarrow> intern_table option \<times> mem" where
  "intern_init_checked h =
     (case malloc h of
        (False, h') \<Rightarrow> (None, h')
      | (True, h') \<Rightarrow>
          (Some \<lparr>symbols = raxNew, symbols_delete = True, next_id = 1, pages = []\<rparr>, h'))"

text \<open>\<^verbatim>\<open>intern_init\<close> asserts that the checked version succeeded: \<open>None\<close> is the failed assertion.\<close>

definition intern_init :: "mem \<Rightarrow> (intern_table \<times> mem) option" where
  "intern_init h = (case intern_init_checked h of (None, h') \<Rightarrow> None | (Some t, h') \<Rightarrow> Some (t, h'))"

definition new_intern :: "mem \<Rightarrow> intern_table option \<times> mem" where
  "new_intern h =
     (case malloc h of (False, h') \<Rightarrow> (None, h') | (True, h') \<Rightarrow> intern_init_checked h')"

definition intern_find_symbol :: "intern_table \<Rightarrow> cstr \<Rightarrow> symbol set_item option" where
  "intern_find_symbol t str = raxFind (symbols t) str"

text \<open>A null result of the C function is \<open>P_FIRST\<close>, the null symbol, throughout.\<close>

definition item_symbol :: "symbol set_item \<Rightarrow> symbol" where
  "item_symbol it = (case it_data it of None \<Rightarrow> P_FIRST | Some s \<Rightarrow> s)"

definition intern_find_symbol_str :: "intern_table \<Rightarrow> cstr \<Rightarrow> symbol" where
  "intern_find_symbol_str t str =
     (case intern_find_symbol t str of None \<Rightarrow> P_FIRST | Some it \<Rightarrow> item_symbol it)"

text \<open>The item of a new symbol; the tree's insertion allocates nodes of its own.\<close>

definition new_symbol_item :: "symbol \<Rightarrow> nat \<Rightarrow> symbol set_item" where
  "new_symbol_item sy len =
     \<lparr>it_data = Some sy, it_len = len, it_hash = 0, it_usage = 0, it_long_p = 0,
      it_long_value = 0, it_double_p = 0, it_double_value = 0\<rparr>"

definition intern_add :: "intern_table \<Rightarrow> cstr \<Rightarrow> mem \<Rightarrow> symbol set_item option \<times> intern_table \<times> mem" where
  "intern_add t key h =
     (let len = length key in
      if len > SIZE_MAX - 8 - 1 \<or> next_id t = UINT64_MAX then (None, t, h)
      else (case intern_alloc (pages t) (8 + len + 1) h of
              (None, ps, h1) \<Rightarrow> (None, t\<lparr>pages := ps\<rparr>, h1)
            | (Some p, ps, h1) \<Rightarrow>
                let sy = Sym (next_id t) key;
                    t1 = t\<lparr>pages := ps, next_id := next_id t + 1\<rparr>
                in (case malloc h1 of
                      (False, h2) \<Rightarrow> (None, t1, h2)
                    | (True, h2) \<Rightarrow>
                        let i = new_symbol_item sy len in
                        (case raxInsert (symbols t1) key i h2 of
                           (ret, syms, h3) \<Rightarrow>
                             if ret \<noteq> 1 then (None, t1\<lparr>symbols := syms\<rparr>, h3)
                             else (Some i, t1\<lparr>symbols := syms\<rparr>, h3)))))"

text \<open>\<^verbatim>\<open>i->usage++\<close> changes the item the tree points to.\<close>

definition set_usage :: "intern_table \<Rightarrow> cstr \<Rightarrow> symbol set_item \<Rightarrow> u64 \<Rightarrow> intern_table" where
  "set_usage t key i u = t\<lparr>symbols := rax_put key (i\<lparr>it_usage := u\<rparr>) (symbols t)\<rparr>"

definition intern_string_view :: "intern_table \<Rightarrow> cstr \<Rightarrow> nat \<Rightarrow> mem \<Rightarrow> symbol \<times> intern_table \<times> mem" where
  "intern_string_view t str len h =
     (let key = take len str in
      case (case raxFind (symbols t) key of
              Some i \<Rightarrow> (Some i, t, h)
            | None \<Rightarrow> intern_add t key h) of
        (None, t', h') \<Rightarrow> (P_FIRST, t', h')
      | (Some i, t', h') \<Rightarrow>
          if it_usage i = UINT64_MAX then (P_FIRST, t', h')
          else (item_symbol i, set_usage t' key i (it_usage i + 1), h'))"

definition intern_string :: "intern_table \<Rightarrow> cstr \<Rightarrow> mem \<Rightarrow> symbol \<times> intern_table \<times> mem" where
  "intern_string t str h = intern_string_view t str (length str) h"

text \<open>
  \<^verbatim>\<open>intern_unstring\<close> finds the item by the symbol's string. Applied to one of the two
  sentinels, which carry no string, it reads invalid memory: \<open>None\<close>.
\<close>

definition intern_unstring :: "intern_table \<Rightarrow> symbol \<Rightarrow> intern_table option" where
  "intern_unstring t sy =
     (case symbol_to_str sy of
        None \<Rightarrow> None
      | Some str \<Rightarrow>
          (case intern_find_symbol t str of
             None \<Rightarrow> Some t
           | Some i \<Rightarrow>
               let u = it_usage i - 1 in
               if u = 0 then Some (t\<lparr>symbols := rax_del str (symbols t)\<rparr>)
               else Some (set_usage t str i u)))"

text \<open>
  Numbers are interned by their printed form; the formatting of \<^verbatim>\<open>snprintf\<close> and the parsing of
  \<^verbatim>\<open>strtol\<close> and \<^verbatim>\<open>strtod\<close> are parameters.
\<close>

definition intern_number :: "('n \<Rightarrow> cstr) \<Rightarrow> intern_table \<Rightarrow> 'n \<Rightarrow> mem \<Rightarrow> symbol \<times> intern_table \<times> mem" where
  "intern_number format t n h = intern_string t (format n) h"

definition intern_get_number :: "(cstr \<Rightarrow> 'n) \<Rightarrow> 'n \<Rightarrow> intern_table \<Rightarrow> cstr \<Rightarrow> 'n" where
  "intern_get_number parse zero t str =
     (case intern_find_symbol t str of None \<Rightarrow> zero | Some i \<Rightarrow> parse str)"

text \<open>\<^verbatim>\<open>intern_destroy\<close> frees the items and the pages; the freed table must not be used.\<close>

definition intern_destroy :: "intern_table \<Rightarrow> intern_table" where
  "intern_destroy t = t\<lparr>pages := []\<rparr>"

section \<open>The page allocator\<close>

lemma align_up8_bounds: "sz \<le> align_up8 sz" "align_up8 sz < sz + 8" "8 dvd align_up8 sz"
  unfolding align_up8_def by (presburger | simp)+

definition pages_ok :: "intern_page list \<Rightarrow> bool" where
  "pages_ok ps \<longleftrightarrow>
     (\<forall>p \<in> set ps. pg_size p \<le> pg_capacity p \<and> pg_capacity p \<le> 2 ^ 63 \<and> 8 dvd pg_size p)"

text \<open>The bytes in use: the page number and the offset.\<close>

definition used_bytes :: "intern_page list \<Rightarrow> (nat \<times> nat) set" where
  "used_bytes ps = {(n, off). n < length ps \<and> off < pg_size (rev ps ! n)}"

definition block :: "nat \<times> nat \<Rightarrow> nat \<Rightarrow> (nat \<times> nat) set" where
  "block p sz = {fst p} \<times> {snd p..<snd p + sz}"

lemma used_bytes_Cons:
  "used_bytes (p # ps) = used_bytes ps \<union> {length ps} \<times> {0..<pg_size p}"
  by (auto simp: used_bytes_def nth_append less_Suc_eq split: if_splits)

lemma bump_block:
  assumes "pages_ok (p # ps)" "pg_size p + sz \<le> pg_capacity p" "8 dvd sz"
    and "bump (p # ps) sz = (q, ps')"
  shows "pages_ok ps'" "used_bytes ps' = used_bytes (p # ps) \<union> block q sz"
    "used_bytes (p # ps) \<inter> block q sz = {}" "8 dvd snd q"
proof -
  have small: "(pg_size p + sz) mod 2 ^ 64 = pg_size p + sz"
    using assms(1,2) by (intro mod_less) (simp add: pages_ok_def)
  from assms(4) have q: "q = (length ps, pg_size p)"
    and ps': "ps' = p\<lparr>pg_size := pg_size p + sz\<rparr> # ps"
    using small by (simp_all add: bump_def Let_def)
  show "pages_ok ps'" "8 dvd snd q" using assms(1-3) by (auto simp: pages_ok_def ps' q)
  show "used_bytes ps' = used_bytes (p # ps) \<union> block q sz"
    by (auto simp: used_bytes_Cons ps' q block_def)
  show "used_bytes (p # ps) \<inter> block q sz = {}"
    by (auto simp: used_bytes_def q block_def nth_append less_Suc_eq split: if_splits)
qed

lemma align_up8_le: "sz \<le> 2 ^ 62 \<Longrightarrow> align_up8 sz \<le> 2 ^ 62"
  unfolding align_up8_def by (simp add: div_le_mono)

lemma intern_alloc_block:
  assumes ok: "pages_ok ps" and sz: "sz \<le> 2 ^ 62" and r: "intern_alloc ps sz h = (Some q, ps', h')"
  shows "pages_ok ps' \<and> used_bytes ps \<inter> block q (align_up8 sz) = {}
     \<and> used_bytes ps' = used_bytes ps \<union> block q (align_up8 sz) \<and> 8 dvd snd q"
proof -
  let ?n = "align_up8 sz"
  have n: "?n \<le> 2 ^ 62" "8 dvd ?n" using align_up8_le [OF sz] align_up8_bounds by simp_all
  have sz0: "\<not> sz > SIZE_MAX - 7" using sz by simp
  show ?thesis
  proof (cases "ps = [] \<or> (pg_size (hd ps) + ?n) mod 2 ^ 64 > pg_capacity (hd ps)")
    case True
    with r sz0 obtain page h1 where page: "new_page ?n h = (Some page, h1)" and b: "bump (page # ps) ?n = (q, ps')"
      by (auto simp: intern_alloc_def Let_def split: prod.splits option.splits)
    have "pg_size page = 0" "?n \<le> pg_capacity page" "pg_capacity page \<le> 2 ^ 63"
      using page n(1) by (auto simp: new_page_def Let_def split: if_splits prod.splits bool.splits)
    then have "pages_ok (page # ps)" "pg_size page + ?n \<le> pg_capacity page" "used_bytes (page # ps) = used_bytes ps"
      using ok by (simp_all add: pages_ok_def used_bytes_Cons)
    with bump_block [OF this(1,2) n(2) b] show ?thesis by simp
  next
    case False
    then obtain p rest where ps: "ps = p # rest" by (cases ps) auto
    have "pg_size p \<le> 2 ^ 63" using ok by (auto simp: pages_ok_def ps)
    then have "(pg_size p + ?n) mod 2 ^ 64 = pg_size p + ?n"
      using n(1) by (intro mod_less) simp
    with False have fits: "pg_size p + ?n \<le> pg_capacity p" by (simp add: ps)
    from False r sz0 have b: "bump ps ?n = (q, ps')"
      by (auto simp: intern_alloc_def Let_def split: prod.splits)
    show ?thesis
      using bump_block [OF ok [unfolded ps] fits n(2) b [unfolded ps]] by (simp add: ps)
  qed
qed

lemma intern_alloc_fails:
  "intern_alloc ps sz h = (None, ps', h') \<Longrightarrow> ps' = ps"
  by (auto simp: intern_alloc_def Let_def split: if_splits prod.splits option.splits)

section \<open>The contract of a symbol table\<close>

text \<open>
  \<open>refs t\<close> maps each live string to its symbol and its count. Strings are bounded by what can
  exist in memory.
\<close>

abbreviation (input) MAX_STRING :: nat where
  "MAX_STRING \<equiv> 2 ^ 61"

locale symtab =
  fixes inv :: "'t \<Rightarrow> bool"
    and refs :: "'t \<Rightarrow> cstr \<Rightarrow> (symbol \<times> nat) option"
    and intern :: "'t \<Rightarrow> cstr \<Rightarrow> mem \<Rightarrow> symbol \<times> 't \<times> mem"
    and release :: "'t \<Rightarrow> symbol \<Rightarrow> 't option"
  assumes refs_sym: "inv t \<Longrightarrow> refs t s = Some (y, n) \<Longrightarrow>
        \<exists>i. y = Sym i s \<and> i \<noteq> 0 \<and> i \<noteq> UINT64_MAX \<and> 0 < n"
    and refs_inj: "inv t \<Longrightarrow> refs t s = Some (y, n) \<Longrightarrow> refs t s' = Some (y', n') \<Longrightarrow>
        sym_id y = sym_id y' \<Longrightarrow> s = s'"
    and intern_null: "inv t \<Longrightarrow> length s \<le> MAX_STRING \<Longrightarrow> intern t s h = (P_FIRST, t', h') \<Longrightarrow>
        inv t' \<and> refs t' = refs t"
    and intern_sym: "inv t \<Longrightarrow> length s \<le> MAX_STRING \<Longrightarrow> intern t s h = (y, t', h') \<Longrightarrow> y \<noteq> P_FIRST \<Longrightarrow>
        inv t' \<and> refs t' = (refs t)(s \<mapsto> (y, Suc (case refs t s of None \<Rightarrow> 0 | Some (y0, n) \<Rightarrow> n)))
        \<and> (\<forall>y0 n. refs t s = Some (y0, n) \<longrightarrow> y = y0)"
    and release_sym: "inv t \<Longrightarrow> refs t s = Some (y, n) \<Longrightarrow>
        \<exists>t'. release t y = Some t' \<and> inv t' \<and>
          refs t' = (refs t)(s := if n = 1 then None else Some (y, n - 1))"
begin

definition live :: "'t \<Rightarrow> symbol set" where
  "live t = {y. \<exists>s n. refs t s = Some (y, n)}"

lemma live_table_symbols:
  assumes "inv t"
  shows "table_symbols (live t)"
proof -
  have "proper_id y" if "y \<in> live t" for y
  proof -
    from that obtain s n where "refs t s = Some (y, n)" by (auto simp: live_def)
    from refs_sym [OF assms this] show ?thesis by (auto simp: proper_id_def)
  qed
  moreover have "inj_on get_symbol_id (live t)"
  proof (rule inj_onI)
    fix y y' assume "y \<in> live t" "y' \<in> live t" and eq: "get_symbol_id y = get_symbol_id y'"
    then obtain s n s' n' where r: "refs t s = Some (y, n)" "refs t s' = Some (y', n')"
      by (auto simp: live_def)
    from refs_sym [OF assms r(1)] refs_sym [OF assms r(2)] obtain i i'
      where "y = Sym i s" "y' = Sym i' s'" by auto
    with refs_inj [OF assms r] eq show "y = y'" by simp
  qed
  ultimately show ?thesis by (simp add: table_symbols_def)
qed

lemma intern_data:
  assumes "inv t" "length s \<le> MAX_STRING" "intern t s h = (y, t', h')" "y \<noteq> P_FIRST"
  obtains i where "y = Sym i s"
  using intern_sym [OF assms] refs_sym [of t' s y] by auto

text \<open>Equal strings give equal pointers, and different strings different ones.\<close>

lemma intern_twice:
  assumes "inv t" "length s \<le> MAX_STRING" "intern t s h = (y, t', h')" "y \<noteq> P_FIRST"
    and "length s' \<le> MAX_STRING" "intern t' s' h' = (y', t'', h'')" "y' \<noteq> P_FIRST"
  shows "y = y' \<longleftrightarrow> s = s'"
proof
  have t': "inv t'" using intern_sym [OF assms(1-4)] by blast
  obtain i i' where "y = Sym i s" "y' = Sym i' s'"
    using intern_data [OF assms(1-4)] intern_data [OF t' assms(5-7)] by metis
  then show "s = s'" if "y = y'" using that by simp
  show "y = y'" if "s = s'"
    using that intern_sym [OF assms(1-4)] intern_sym [OF t' assms(5-7)] by simp
qed

text \<open>Releasing a symbol that was just interned restores all counts.\<close>

lemma intern_release:
  assumes "inv t" "length s \<le> MAX_STRING" "intern t s h = (y, t', h')" "y \<noteq> P_FIRST"
  shows "\<exists>t''. release t' y = Some t'' \<and> inv t'' \<and> refs t'' = refs t"
proof -
  note i = intern_sym [OF assms]
  then have "refs t' s = Some (y, Suc (case refs t s of None \<Rightarrow> 0 | Some (y0, n) \<Rightarrow> n))" by simp
  from release_sym [OF _ this] i obtain t'' where t'': "release t' y = Some t''" "inv t''"
    "refs t'' = (refs t')(s := if Suc (case refs t s of None \<Rightarrow> 0 | Some (y0, n) \<Rightarrow> n) = 1 then None
       else Some (y, Suc (case refs t s of None \<Rightarrow> 0 | Some (y0, n) \<Rightarrow> n) - 1))"
    by blast
  have "refs t'' = refs t"
  proof (cases "refs t s")
    case None
    have "refs t'' = (refs t)(s := None)" unfolding t''(3) using i None by simp
    with None show ?thesis by (simp add: fun_upd_idem)
  next
    case (Some yn)
    then obtain n where "refs t s = Some (y, n)" using i by (cases yn) auto
    moreover from refs_sym [OF assms(1) this] have "0 < n" by blast
    ultimately have "refs t s = Some (y, n)" "refs t'' = (refs t)(s := Some (y, n))"
      unfolding t''(3) using i by simp_all
    then show ?thesis by (simp add: fun_upd_idem)
  qed
  with t'' show ?thesis by blast
qed

end

section \<open>The intern table meets the contract\<close>

definition entry_ok :: "u64 \<Rightarrow> cstr \<Rightarrow> symbol set_item \<Rightarrow> bool" where
  "entry_ok next str it \<longleftrightarrow>
     it_len it = length str \<and> it_usage it \<noteq> 0 \<and>
     (\<exists>i. it_data it = Some (Sym i str) \<and> i \<noteq> 0 \<and> i < next)"

definition intern_ok :: "intern_table \<Rightarrow> bool" where
  "intern_ok t \<longleftrightarrow>
     rax_ok (symbols t) \<and> next_id t \<noteq> 0 \<and> pages_ok (pages t) \<and>
     (\<forall>str it. raxFind (symbols t) str = Some it \<longrightarrow> entry_ok (next_id t) str it) \<and>
     (\<forall>str it str' it'. raxFind (symbols t) str = Some it \<longrightarrow> raxFind (symbols t) str' = Some it' \<longrightarrow>
        sym_id (item_symbol it) = sym_id (item_symbol it') \<longrightarrow> str = str')"

definition refs :: "intern_table \<Rightarrow> cstr \<Rightarrow> (symbol \<times> nat) option" where
  "refs t str = map_option (\<lambda>it. (item_symbol it, unat (it_usage it))) (raxFind (symbols t) str)"

lemma intern_okD:
  assumes "intern_ok t"
  shows "rax_ok (symbols t)" "next_id t \<noteq> 0" "pages_ok (pages t)"
    "raxFind (symbols t) str = Some it \<Longrightarrow> entry_ok (next_id t) str it"
    "raxFind (symbols t) str = Some it \<Longrightarrow> raxFind (symbols t) str' = Some it' \<Longrightarrow>
      sym_id (item_symbol it) = sym_id (item_symbol it') \<Longrightarrow> str = str'"
  using assms unfolding intern_ok_def by blast+

lemma entry_ok_symbol:
  assumes "entry_ok next str it"
  obtains i where "item_symbol it = Sym i str" "i \<noteq> 0" "i < next" "0 < unat (it_usage it)"
  using assms by (auto simp: entry_ok_def item_symbol_def unat_gt_0)

text \<open>Changing only the count of a live entry keeps the invariant.\<close>

lemma set_usage_ok:
  assumes ok: "intern_ok t" and it: "raxFind (symbols t) str = Some it" and u: "u \<noteq> 0"
  shows "intern_ok (set_usage t str it u)"
    and "refs (set_usage t str it u) = (refs t)(str \<mapsto> (item_symbol it, unat u))"
proof -
  note d = intern_okD [OF ok]
  have find: "raxFind (symbols (set_usage t str it u)) str' =
      (if str' = str then Some (it\<lparr>it_usage := u\<rparr>) else raxFind (symbols t) str')" for str'
    by (simp add: set_usage_def rx.find_put d(1))
  have same: "item_symbol (it\<lparr>it_usage := u\<rparr>) = item_symbol it"
    by (simp add: item_symbol_def)
  show "refs (set_usage t str it u) = (refs t)(str \<mapsto> (item_symbol it, unat u))"
    by (rule ext) (simp add: refs_def find same)
  have "entry_ok (next_id t) str' it'" if "raxFind (symbols (set_usage t str it u)) str' = Some it'" for str' it'
    using that d(4) [OF it] d(4) [of str' it'] u by (auto simp: find entry_ok_def split: if_splits)
  moreover have "str1 = str2" if "raxFind (symbols (set_usage t str it u)) str1 = Some it1"
      "raxFind (symbols (set_usage t str it u)) str2 = Some it2"
      "sym_id (item_symbol it1) = sym_id (item_symbol it2)" for str1 it1 str2 it2
    using that d(5) [OF it, of str2 it2] d(5) [of str1 it1 str it] d(5) [of str1 it1 str2 it2] same it
    unfolding find by (metis option.inject)
  ultimately show "intern_ok (set_usage t str it u)"
    using d unfolding intern_ok_def by (simp add: set_usage_def rx.ok_put)
qed

text \<open>What a failed or a successful \<open>intern_add\<close> leaves.\<close>

definition grown :: "intern_table \<Rightarrow> intern_table \<Rightarrow> bool" where
  "grown t t' \<longleftrightarrow> symbols t' = symbols t \<and> next_id t \<le> next_id t' \<and> pages_ok (pages t')"

lemma grown_ok:
  assumes "intern_ok t" "grown t t'"
  shows "intern_ok t'" "refs t' = refs t"
proof -
  note d = intern_okD [OF assms(1)]
  have g: "symbols t' = symbols t" "next_id t \<le> next_id t'" "pages_ok (pages t')"
    using assms(2) by (simp_all add: grown_def)
  have "entry_ok (next_id t') str it" if "raxFind (symbols t) str = Some it" for str it
    using d(4) [OF that] g(2) unfolding entry_ok_def by (meson order_less_le_trans)
  moreover have "next_id t' \<noteq> 0" using d(2) g(2) by (metis word_le_0_iff)
  ultimately show "intern_ok t'"
    using d(1,5) g(1,3) unfolding intern_ok_def g(1) by blast
  show "refs t' = refs t" using g(1) by (simp add: refs_def fun_eq_iff)
qed

lemma unat_not_max: "(i::u64) \<noteq> UINT64_MAX \<Longrightarrow> i < i + 1 \<and> i \<le> i + 1 \<and> i + 1 \<noteq> 0"
  by (metis unat_Suc_word lessI less_imp_le nat.distinct(1) unat_0 word_less_nat_alt word_le_nat_alt)

lemma intern_add_cases:
  assumes ok: "intern_ok t" and len: "length key \<le> MAX_STRING" and absent: "raxFind (symbols t) key = None"
  obtains (failed) t' h' where "intern_add t key h = (None, t', h')" "grown t t'"
  | (added) t1 h' where "intern_add t key h =
        (Some (new_symbol_item (Sym (next_id t) key) (length key)),
         t1\<lparr>symbols := rax_put key (new_symbol_item (Sym (next_id t) key) (length key)) (symbols t1)\<rparr>, h')"
      "grown t t1" "next_id t1 = next_id t + 1" "next_id t < next_id t1"
proof -
  note d = intern_okD [OF ok]
  obtain p ps h1 where a: "intern_alloc (pages t) (8 + length key + 1) h = (p, ps, h1)"
    by (cases "intern_alloc (pages t) (8 + length key + 1) h")
  have small: "\<not> length key > SIZE_MAX - 8 - 1" "8 + length key + 1 \<le> 2 ^ 62" using len by simp_all
  have ps: "pages_ok ps"
  proof (cases p)
    case None
    with intern_alloc_fails a d(3) show ?thesis by metis
  next
    case (Some q)
    with intern_alloc_block [OF d(3) small(2)] a show ?thesis by metis
  qed
  show ?thesis
  proof (cases "next_id t = UINT64_MAX \<or> p = None")
    case True
    then have "\<exists>t' h'. intern_add t key h = (None, t', h') \<and> grown t t'"
      using small a ps d(3) by (cases "next_id t = UINT64_MAX") (simp_all add: intern_add_def grown_def)
    then show ?thesis using failed by blast
  next
    case False
    let ?t1 = "t\<lparr>pages := ps, next_id := next_id t + 1\<rparr>"
    let ?i = "new_symbol_item (Sym (next_id t) key) (length key)"
    have id: "next_id t < next_id t + 1" "next_id t \<le> next_id t + 1"
      using unat_not_max False by blast+
    then have g: "grown t ?t1" using ps by (simp add: grown_def)
    obtain ok1 h2 where m: "malloc h1 = (ok1, h2)" by (cases "malloc h1")
    obtain ok2 h3 where m2: "malloc h2 = (ok2, h3)" by (cases "malloc h2")
    show ?thesis
    proof (cases "ok1 \<and> ok2")
      case True
      then have "intern_add t key h = (Some ?i, ?t1\<lparr>symbols := rax_put key ?i (symbols ?t1)\<rparr>, h3)"
        using False a small m m2 absent by (auto simp: intern_add_def Let_def raxInsert_def)
      then show ?thesis using g id by (intro added [of ?t1 h3]) simp_all
    next
      case f: False
      then have "\<exists>t' h'. intern_add t key h = (None, t', h') \<and> grown t t'"
        using False a small m m2 g by (cases ok1) (auto simp: intern_add_def Let_def raxInsert_def grown_def)
      then show ?thesis using failed by blast
    qed
  qed
qed

lemma intern_add_put_ok:
  assumes ok: "intern_ok t" and g: "grown t t1" and id: "next_id t < next_id t1"
    and absent: "raxFind (symbols t) key = None"
  defines "it \<equiv> new_symbol_item (Sym (next_id t) key) (length key)\<lparr>it_usage := 1\<rparr>"
  shows "intern_ok (t1\<lparr>symbols := rax_put key it (symbols t)\<rparr>)"
    and "refs (t1\<lparr>symbols := rax_put key it (symbols t)\<rparr>) = (refs t)(key \<mapsto> (Sym (next_id t) key, 1))"
proof -
  note d = intern_okD [OF ok] and d1 = intern_okD [OF grown_ok(1) [OF ok g]]
  let ?T = "t1\<lparr>symbols := rax_put key it (symbols t)\<rparr>"
  have sy: "item_symbol it = Sym (next_id t) key" "it_usage it = 1"
    by (simp_all add: it_def item_symbol_def new_symbol_item_def)
  have find: "raxFind (symbols ?T) str = (if str = key then Some it else raxFind (symbols t) str)" for str
    by (simp add: rx.find_put d(1))
  show "refs ?T = (refs t)(key \<mapsto> (Sym (next_id t) key, 1))"
    by (rule ext) (simp add: refs_def rx.find_put [OF d(1)] sy)
  have same: "symbols t1 = symbols t" using g by (simp add: grown_def)
  have "entry_ok (next_id t1) str it'" if "raxFind (symbols ?T) str = Some it'" for str it'
  proof (cases "str = key")
    case True
    with that have "it' = it" unfolding find by simp
    with True d(2) id show ?thesis by (simp add: entry_ok_def it_def new_symbol_item_def)
  next
    case False
    with that d1(4) same show ?thesis unfolding find by simp
  qed
  moreover have old: "sym_id (item_symbol it') \<noteq> next_id t" if "raxFind (symbols t) str = Some it'" for str it'
    using entry_ok_symbol [OF d(4) [OF that]] by fastforce
  have "str1 = str2" if "raxFind (symbols ?T) str1 = Some it1" "raxFind (symbols ?T) str2 = Some it2"
      "sym_id (item_symbol it1) = sym_id (item_symbol it2)" for str1 it1 str2 it2
    using that old d(5) [of str1 it1 str2 it2] sy(1) absent unfolding find
    by (metis option.inject symbol.sel(1))
  ultimately show "intern_ok ?T"
    using d1(2,3) rx.ok_put [OF d(1)] unfolding intern_ok_def by simp
qed

lemma intern_string_cases:
  assumes ok: "intern_ok t" and len: "length str \<le> MAX_STRING"
  obtains (null) t' h' where "intern_string t str h = (P_FIRST, t', h')" "intern_ok t'" "refs t' = refs t"
  | (live) t' h' y n where "refs t str = Some (y, n)" "y \<noteq> P_FIRST" "intern_string t str h = (y, t', h')"
      "intern_ok t'" "refs t' = (refs t)(str \<mapsto> (y, Suc n))" "next_id t' = next_id t"
  | (new) t' h' where "refs t str = None" "intern_string t str h = (Sym (next_id t) str, t', h')"
      "intern_ok t'" "refs t' = (refs t)(str \<mapsto> (Sym (next_id t) str, 1))"
proof (cases "raxFind (symbols t) str")
  case (Some it)
  note d = intern_okD [OF ok]
  from entry_ok_symbol [OF d(4) [OF Some]] obtain i where i: "item_symbol it = Sym i str" "0 < unat (it_usage it)" .
  show ?thesis
  proof (cases "it_usage it = UINT64_MAX")
    case True
    then show ?thesis
      using Some ok by (intro null [of t h]) (simp_all add: intern_string_def intern_string_view_def)
  next
    case False
    then have u: "it_usage it + 1 \<noteq> 0" "unat (it_usage it + 1) = Suc (unat (it_usage it))"
      using unat_not_max unat_Suc_word by blast+
    let ?t = "set_usage t str it (it_usage it + 1)"
    have "intern_string t str h = (Sym i str, ?t, h)"
      using Some False i by (simp add: intern_string_def intern_string_view_def)
    moreover have "refs t str = Some (Sym i str, unat (it_usage it))"
      using Some i by (simp add: refs_def)
    ultimately show ?thesis
      using set_usage_ok [OF ok Some u(1)] u(2) i
      by (intro live [of "Sym i str" _ ?t h]) (simp_all add: set_usage_def)
  qed
next
  case None
  show ?thesis
  proof (cases rule: intern_add_cases [OF ok len None, of h])
    case (1 t' h')
    with None grown_ok [OF ok 1(2)] show ?thesis
      by (intro null [of t' h']) (simp_all add: intern_string_def intern_string_view_def)
  next
    case (2 t1 h')
    let ?i = "new_symbol_item (Sym (next_id t) str) (length str)"
    let ?T = "t1\<lparr>symbols := rax_put str (?i\<lparr>it_usage := 1\<rparr>) (symbols t)\<rparr>"
    have same: "symbols t1 = symbols t" using 2(2) by (simp add: grown_def)
    have usage: "it_usage ?i = 0" "item_symbol ?i = Sym (next_id t) str"
      by (simp_all add: new_symbol_item_def item_symbol_def)
    have "rax_put str (?i\<lparr>it_usage := 1\<rparr>) (rax_put str ?i (symbols t)) = rax_put str (?i\<lparr>it_usage := 1\<rparr>) (symbols t)"
      using intern_okD(1) [OF ok] by (intro rx.dict_ext) (simp_all add: rx.ok_put rx.find_put)
    then have "intern_string t str h = (Sym (next_id t) str, ?T, h')"
      using None 2(1) usage same
      by (simp add: intern_string_def intern_string_view_def set_usage_def)
    moreover have "refs t str = None" using None by (simp add: refs_def)
    ultimately show ?thesis
      using intern_add_put_ok [OF ok 2(2,4) None] by (intro new [of ?T h']) simp_all
  qed
qed

lemma intern_unstring_live:
  assumes ok: "intern_ok t" and r: "refs t str = Some (y, n)"
  shows "\<exists>t'. intern_unstring t y = Some t' \<and> intern_ok t' \<and>
     refs t' = (refs t)(str := if n = 1 then None else Some (y, n - 1))"
proof -
  note d = intern_okD [OF ok]
  from r obtain it where it: "raxFind (symbols t) str = Some it" "item_symbol it = y" "unat (it_usage it) = n"
    by (auto simp: refs_def)
  from entry_ok_symbol [OF d(4) [OF it(1)]] it(2,3) obtain i where i: "y = Sym i str" "0 < n" by metis
  then have u0: "it_usage it \<noteq> 0" using it(3) by auto
  have u: "unat (it_usage it - 1) = n - 1" using unat_pred_word [OF u0] it(3) by simp
  show ?thesis
  proof (cases "n = 1")
    case True
    let ?T = "t\<lparr>symbols := rax_del str (symbols t)\<rparr>"
    have "it_usage it - 1 = 0" using u True by (simp add: unat_eq_0)
    then have "intern_unstring t y = Some ?T"
      using it i by (simp add: intern_unstring_def intern_find_symbol_def)
    moreover have find: "raxFind (symbols ?T) str' = (if str' = str then None else raxFind (symbols t) str')" for str'
      by (simp add: rx.find_del d(1))
    have "intern_ok ?T"
      using d rx.ok_del [OF d(1)] unfolding intern_ok_def by (simp add: rx.find_del d(1))
    moreover have "refs ?T = (refs t)(str := None)"
      by (rule ext) (simp add: refs_def rx.find_del [OF d(1)])
    ultimately show ?thesis using True by simp
  next
    case False
    let ?T = "set_usage t str it (it_usage it - 1)"
    have nz: "it_usage it - 1 \<noteq> 0" using u False i(2) by (metis One_nat_def Suc_pred unat_0 )
    then have "intern_unstring t y = Some ?T"
      using it i by (simp add: intern_unstring_def intern_find_symbol_def Let_def)
    with set_usage_ok [OF ok it(1) nz] False u it show ?thesis by simp
  qed
qed

interpretation st: symtab intern_ok refs intern_string intern_unstring
proof (unfold_locales, goal_cases)
  case (1 t s y n)
  then obtain it where it: "raxFind (symbols t) s = Some it" "item_symbol it = y" "unat (it_usage it) = n"
    by (auto simp: refs_def)
  from entry_ok_symbol [OF intern_okD(4) [OF 1(1) it(1)]] it obtain i
    where i: "y = Sym i s" "i \<noteq> 0" "i < next_id t" "0 < n" by metis
  have "i \<noteq> UINT64_MAX" using i(3) by auto
  with i show ?case by blast
next
  case (2 t s y n s' y' n')
  then show ?case using intern_okD(5) [OF 2(1)] by (auto simp: refs_def)
next
  case (3 t s h t' h')
  show ?case by (rule intern_string_cases [OF 3(1,2), of h]) (use 3(3) in simp_all)
next
  case (4 t s h y t' h')
  show ?case by (rule intern_string_cases [OF 4(1,2), of h]) (use 4(3,4) in simp_all)
next
  case (5 t s y n)
  then show ?case by (rule intern_unstring_live)
qed

section \<open>Properties\<close>

definition ex_intern :: intern_table where
  "ex_intern = \<lparr>symbols = raxNew, symbols_delete = True, next_id = 1, pages = []\<rparr>"

lemma ex_intern_ok: "intern_ok ex_intern" "refs ex_intern = (\<lambda>_. None)"
  by (simp_all add: intern_ok_def ex_intern_def rx.ok_empty rx.find_empty pages_ok_def refs_def fun_eq_iff)

lemma ex_intern_string:
  "intern_string ex_intern ''a'' []
   = (Sym 1 ''a'', set_usage (ex_intern\<lparr>next_id := 2, pages := [\<lparr>pg_size = 16, pg_capacity = 65512\<rparr>]\<rparr>) ''a''
        (new_symbol_item (Sym 1 ''a'') 1) 1, [])"
  by (simp add: intern_string_def intern_string_view_def ex_intern_def raxNew_def raxFind_def
      intern_add_def Let_def intern_alloc_def new_page_def align_up8_def bump_def raxInsert_def
      item_symbol_def new_symbol_item_def set_usage_def)

text \<open>
  C27: interning the strings \<open>s\<close> and then \<open>s'\<close> (both successfully) gives the same pointer exactly when the
  strings are equal.
\<close>

theorem intern_pointer_equality:
  assumes "intern_ok t" "length s \<le> MAX_STRING" "intern_string t s h = (y, t', h')" "y \<noteq> P_FIRST"
    and "length s' \<le> MAX_STRING" "intern_string t' s' h' = (y', t'', h'')" "y' \<noteq> P_FIRST"
  shows "y = y' \<longleftrightarrow> s = s'"
  using assms by (rule st.intern_twice)

theorem intern_pointer_equality_witness:
  "fst (intern_string (fst (snd (intern_string ex_intern ''a'' []))) ''b'' []) \<noteq> Sym 1 ''a''"
proof -
  define t' where "t' = fst (snd (intern_string ex_intern ''a'' []))"
  obtain y' t'' h'' where r: "intern_string t' ''b'' [] = (y', t'', h'')"
    by (cases "intern_string t' ''b'' []")
  have t': "intern_string ex_intern ''a'' [] = (Sym 1 ''a'', t', [])"
    by (simp add: t'_def ex_intern_string)
  have "y' = P_FIRST \<or> y' \<noteq> Sym 1 ''a''"
    using intern_pointer_equality [OF ex_intern_ok(1) _ t' _ _ r] by auto
  then show ?thesis using r by (auto simp: t'_def)
qed

text \<open>
  C28: \<^verbatim>\<open>intern_string\<close> keeps the table well-formed. It returns NULL, with every count as it was; or the
  symbol of the string, live from then on with its count one higher: the symbol it already had
  when there was one, and else a symbol with an identifier the table never used.
\<close>

theorem intern_string_counts:
  assumes "intern_ok t" "length s \<le> MAX_STRING" "intern_string t s h = (y, t', h')"
  shows "intern_ok t' \<and>
     (if y = P_FIRST then refs t' = refs t
      else case refs t s of
             None \<Rightarrow> y = Sym (next_id t) s \<and> refs t' = (refs t)(s \<mapsto> (y, 1))
           | Some (y0, n) \<Rightarrow> y = y0 \<and> refs t' = (refs t)(s \<mapsto> (y, n + 1)))"
  by (rule intern_string_cases [OF assms(1,2), of h]) (use assms(3) in auto)

theorem intern_string_counts_witness:
  "\<exists>t'. intern_ok t' \<and> refs t' = [''a'' \<mapsto> (Sym 1 ''a'', 1)]"
  using intern_string_counts [OF ex_intern_ok(1) _ ex_intern_string] ex_intern_ok(2)
  by (auto simp: ex_intern_def)

text \<open>
  C29: \<^verbatim>\<open>intern_unstring\<close> of the symbol that \<^verbatim>\<open>intern_string\<close> just returned succeeds and restores every
  symbol and count of the table; a string interned for the first time is forgotten again.
\<close>

theorem intern_unstring_inverse:
  assumes "intern_ok t" "length s \<le> MAX_STRING" "intern_string t s h = (y, t', h')" "y \<noteq> P_FIRST"
  shows "\<exists>t''. intern_unstring t' y = Some t'' \<and> intern_ok t'' \<and> refs t'' = refs t"
  using assms by (rule st.intern_release)

theorem intern_unstring_inverse_witness:
  "\<exists>t' t''. refs t' ''a'' \<noteq> None \<and> intern_unstring t' (Sym 1 ''a'') = Some t'' \<and> refs t'' ''a'' = None"
proof -
  define t' where "t' = fst (snd (intern_string ex_intern ''a'' []))"
  have t': "intern_string ex_intern ''a'' [] = (Sym 1 ''a'', t', [])"
    by (simp add: t'_def ex_intern_string)
  have live: "refs t' ''a'' \<noteq> None"
    using st.intern_sym [OF ex_intern_ok(1) _ t'] by simp
  from intern_unstring_inverse [OF ex_intern_ok(1) _ t'] obtain t''
    where "intern_unstring t' (Sym 1 ''a'') = Some t''" "refs t'' = refs ex_intern" by auto
  moreover from this have "refs t'' ''a'' = None" using ex_intern_ok(2) by simp
  ultimately show ?thesis using live by blast
qed

text \<open>
  C30: the page allocator returns aligned blocks of unused bytes: a block never overlaps one
  handed out before, and exactly its bytes become used.
\<close>

theorem intern_alloc_fresh:
  assumes "pages_ok ps" "sz \<le> 2 ^ 62" "intern_alloc ps sz h = (Some q, ps', h')"
  shows "pages_ok ps' \<and> used_bytes ps \<inter> block q (align_up8 sz) = {}
     \<and> used_bytes ps' = used_bytes ps \<union> block q (align_up8 sz) \<and> 8 dvd snd q"
  using assms by (rule intern_alloc_block)

theorem intern_alloc_fresh_witness:
  "used_bytes [\<lparr>pg_size = 16, pg_capacity = 65512\<rparr>] \<inter> block (0, 16) 24 = {}"
proof -
  have "intern_alloc [\<lparr>pg_size = 16, pg_capacity = 65512\<rparr>] 17 [] = (Some (0, 16), [\<lparr>pg_size = 40, pg_capacity = 65512\<rparr>], [])"
    by (simp add: intern_alloc_def Let_def align_up8_def bump_def)
  from intern_alloc_fresh [OF _ _ this] show ?thesis by (simp add: pages_ok_def align_up8_def)
qed

end
