(* ===== verification/Hexastore.thy ===== *)
theory Hexastore
  imports Rax Symbols
begin

text \<open>
  \<^verbatim>\<open>include/hexastore.h\<close> and \<^verbatim>\<open>lib/hexastore.c\<close>: the three tries that index the facts by subject,
  predicate and object, by predicate, object and subject, and by object, subject and
  predicate. The keys are the 24 bytes of the three identifiers in big-endian order; the
  values are pointers to facts. A fact is passed as its address with its content; the content
  of the addresses in a trie is a function \<open>hp\<close>.
\<close>

section \<open>Keys\<close>

definition encode_uint64_be :: "u64 \<Rightarrow> byte list" where
  "encode_uint64_be val =
     [ucast (drop_bit 56 val), ucast (drop_bit 48 val), ucast (drop_bit 40 val), ucast (drop_bit 32 val),
      ucast (drop_bit 24 val), ucast (drop_bit 16 val), ucast (drop_bit 8 val), ucast val]"

definition encode_triple_key :: "symbol \<Rightarrow> symbol \<Rightarrow> symbol \<Rightarrow> byte list" where
  "encode_triple_key c1 c2 c3 =
     encode_uint64_be (get_symbol_id c1) @ encode_uint64_be (get_symbol_id c2)
       @ encode_uint64_be (get_symbol_id c3)"

section \<open>The store\<close>

type_synonym trie = "(byte, addr) rax"

record hexastore =
  trie_spo :: trie
  trie_pos :: trie
  trie_osp :: trie

definition new_hexastore :: "mem \<Rightarrow> hexastore option \<times> mem" where
  "new_hexastore h =
     (case malloc h of
        (False, h1) \<Rightarrow> (None, h1)
      | (True, h1) \<Rightarrow>
          let (a, h2) = malloc h1; (b, h3) = malloc h2; (c, h4) = malloc h3 in
          (if a \<and> b \<and> c then Some \<lparr>trie_spo = raxNew, trie_pos = raxNew, trie_osp = raxNew\<rparr> else None, h4))"

definition spo_key :: "fact \<Rightarrow> byte list" where
  "spo_key f = encode_triple_key (f_s f) (f_p f) (f_o f)"

definition pos_key :: "fact \<Rightarrow> byte list" where
  "pos_key f = encode_triple_key (f_p f) (f_o f) (f_s f)"

definition osp_key :: "fact \<Rightarrow> byte list" where
  "osp_key f = encode_triple_key (f_o f) (f_s f) (f_p f)"

definition hexastore_insert :: "hexastore \<Rightarrow> addr \<Rightarrow> fact \<Rightarrow> mem \<Rightarrow> int \<times> hexastore \<times> mem" where
  "hexastore_insert x a f h =
     (case raxInsert (trie_spo x) (spo_key f) a h of
        (r1, spo, h1) \<Rightarrow>
          if r1 \<noteq> 1 then (- 1, x\<lparr>trie_spo := spo\<rparr>, h1)
          else (case raxInsert (trie_pos x) (pos_key f) a h1 of
            (r2, pos, h2) \<Rightarrow>
              if r2 \<noteq> 1 then
                (- 1, x\<lparr>trie_spo := snd (raxRemove spo (spo_key f)), trie_pos := pos\<rparr>, h2)
              else (case raxInsert (trie_osp x) (osp_key f) a h2 of
                (r3, osp, h3) \<Rightarrow>
                  if r3 \<noteq> 1 then
                    (- 1, \<lparr>trie_spo = snd (raxRemove spo (spo_key f)),
                           trie_pos = snd (raxRemove pos (pos_key f)), trie_osp = osp\<rparr>, h3)
                  else (0, \<lparr>trie_spo = spo, trie_pos = pos, trie_osp = osp\<rparr>, h3))))"

definition hexastore_remove :: "hexastore \<Rightarrow> fact \<Rightarrow> hexastore" where
  "hexastore_remove x f =
     \<lparr>trie_spo = snd (raxRemove (trie_spo x) (spo_key f)),
      trie_pos = snd (raxRemove (trie_pos x) (pos_key f)),
      trie_osp = snd (raxRemove (trie_osp x) (osp_key f))\<rparr>"

text \<open>The result 0 or 1, and the three tries, which a failure leaves half filled.\<close>

definition insert_into_indexes ::
  "trie \<times> trie \<times> trie \<Rightarrow> addr \<Rightarrow> fact \<Rightarrow> mem \<Rightarrow> bool \<times> (trie \<times> trie \<times> trie) \<times> mem" where
  "insert_into_indexes ts a f h =
     (case ts of (spo, pos, osp) \<Rightarrow>
       (case raxInsert spo (spo_key f) a h of
          (r1, spo', h1) \<Rightarrow>
            if r1 \<noteq> 1 then (False, (spo', pos, osp), h1)
            else (case raxInsert pos (pos_key f) a h1 of
              (r2, pos', h2) \<Rightarrow>
                if r2 \<noteq> 1 then (False, (spo', pos', osp), h2)
                else (case raxInsert osp (osp_key f) a h2 of
                  (r3, osp', h3) \<Rightarrow> (r3 = 1, (spo', pos', osp'), h3)))))"

fun rebuild ::
  "(addr \<Rightarrow> fact) \<Rightarrow> addr list \<Rightarrow> trie \<times> trie \<times> trie \<Rightarrow> mem \<Rightarrow> bool \<times> (trie \<times> trie \<times> trie) \<times> mem" where
  "rebuild hp [] ts h = (True, ts, h)"
| "rebuild hp (a # as) ts h =
     (case insert_into_indexes ts a (hp a) h of
        (ok, ts', h') \<Rightarrow> if ok then rebuild hp as ts' h' else (False, ts', h'))"

definition hexastore_compact :: "(addr \<Rightarrow> fact) \<Rightarrow> hexastore \<Rightarrow> mem \<Rightarrow> hexastore \<times> mem" where
  "hexastore_compact hp x h =
     (let (a, h1) = malloc h; (b, h2) = malloc h1; (c, h3) = malloc h2 in
      if \<not> (a \<and> b \<and> c) then (x, h3)
      else (case rebuild hp (map snd (raxSeekFirst (trie_spo x))) (raxNew, raxNew, raxNew) h3 of
              (success, (spo, pos, osp), h4) \<Rightarrow>
                if \<not> success then (x, h4)
                else (\<lparr>trie_spo = spo, trie_pos = pos, trie_osp = osp\<rparr>, h4)))"

section \<open>The encoding keeps the order\<close>

fun nat_be :: "nat \<Rightarrow> nat \<Rightarrow> nat list" where
  "nat_be 0 n = []"
| "nat_be (Suc k) n = (n div 256 ^ k mod 256) # nat_be k n"

lemma length_nat_be [simp]: "length (nat_be k n) = k"
  by (induction k) auto

lemma mod_256_Suc: "(n::nat) mod 256 ^ Suc k = (n div 256 ^ k mod 256) * 256 ^ k + n mod 256 ^ k"
  using mod_mult2_eq [of n "256 ^ k" 256] by (simp add: mult.commute)

lemma digits_less:
  assumes "(x::nat) < B" "y < B"
  shows "a * B + x < b * B + y \<longleftrightarrow> a < b \<or> (a = b \<and> x < y)"
proof (cases a b rule: linorder_cases)
  case less
  then have "Suc a * B \<le> b * B" by (intro mult_le_mono1) simp
  with assms less show ?thesis by simp
next
  case greater
  then have "Suc b * B \<le> a * B" by (intro mult_le_mono1) simp
  with assms greater show ?thesis by simp
qed simp

lemma nat_be_less: "nat_be k m < nat_be k n \<longleftrightarrow> m mod 256 ^ k < n mod 256 ^ k"
proof (induction k)
  case (Suc k)
  have "m mod 256 ^ Suc k < n mod 256 ^ Suc k \<longleftrightarrow>
      m div 256 ^ k mod 256 < n div 256 ^ k mod 256 \<or>
      (m div 256 ^ k mod 256 = n div 256 ^ k mod 256 \<and> m mod 256 ^ k < n mod 256 ^ k)"
    unfolding mod_256_Suc by (rule digits_less) simp_all
  then show ?case using Suc.IH by simp
qed simp

lemma map_unat_less: "map unat xs < map unat ys \<longleftrightarrow> (xs::byte list) < ys"
proof (induction xs arbitrary: ys)
  case (Cons x xs)
  show ?case
    by (cases ys) (use Cons.IH in \<open>simp_all add: word_less_nat_alt word_unat_eq_iff\<close>)
qed (case_tac ys; simp)

lemma encode_unat: "map unat (encode_uint64_be v) = nat_be 8 (unat v)"
proof -
  have byte: "unat (ucast (drop_bit n v) :: byte) = unat v div 2 ^ n mod 256" for n
  proof -
    have "unat (ucast (drop_bit n v) :: byte) = take_bit 8 (unat (drop_bit n v))"
      by (simp add: unsigned_ucast_eq)
    also have "unat (drop_bit n v) = unat v div 2 ^ n"
      unfolding unat_drop_bit_eq by (simp add: drop_bit_eq_div)
    finally show ?thesis by (simp add: take_bit_eq_mod)
  qed
  have "unat (ucast v :: byte) = unat v mod 256"
    using byte [of 0] by simp
  moreover have "(8::nat) = Suc (Suc (Suc (Suc (Suc (Suc (Suc (Suc 0)))))))" by simp
  ultimately show ?thesis
    unfolding encode_uint64_be_def by (simp only: byte list.map nat_be.simps) simp
qed

lemma length_encode [simp]: "length (encode_uint64_be v) = 8"
  by (simp add: encode_uint64_be_def)

lemma encode_less: "encode_uint64_be v < encode_uint64_be w \<longleftrightarrow> v < w"
proof -
  have "unat u mod 256 ^ 8 = unat u" for u :: u64
    using unsigned_less [of u] by (intro mod_less) simp
  then show ?thesis
    by (metis map_unat_less encode_unat nat_be_less word_less_nat_alt)
qed

lemma encode_inject: "encode_uint64_be v = encode_uint64_be w \<longleftrightarrow> v = w"
  by (metis encode_less linorder_neq_iff)

text \<open>The order and equality of keys are those of the triples of identifiers.\<close>

lemma append_same_length_less:
  fixes xs ys us vs :: "'a::linorder list"
  assumes "length xs = length ys"
  shows "xs @ us < ys @ vs \<longleftrightarrow> xs < ys \<or> (xs = ys \<and> us < vs)"
  using assms
proof (induction xs ys rule: list_induct2)
  case (Cons x xs y ys)
  then show ?case by (simp only: append_Cons Cons_less_Cons list.inject) blast
qed simp

lemma triple_key_less:
  "encode_triple_key a b c < encode_triple_key a' b' c' \<longleftrightarrow>
     get_symbol_id a < get_symbol_id a' \<or> (get_symbol_id a = get_symbol_id a' \<and>
       (get_symbol_id b < get_symbol_id b' \<or> (get_symbol_id b = get_symbol_id b' \<and> get_symbol_id c < get_symbol_id c')))"
  by (simp add: encode_triple_key_def append_same_length_less encode_less encode_inject)

lemma triple_key_eq:
  "encode_triple_key a b c = encode_triple_key a' b' c' \<longleftrightarrow>
     get_symbol_id a = get_symbol_id a' \<and> get_symbol_id b = get_symbol_id b' \<and> get_symbol_id c = get_symbol_id c'"
  by (simp add: encode_triple_key_def encode_inject)

lemma length_triple_key: "length (encode_triple_key a b c) = 24"
  by (simp add: encode_triple_key_def)

section \<open>The three tries hold the same facts\<close>

text \<open>
  \<open>hexa_ok hp A x\<close>: the addresses \<open>A\<close>, each under the three keys of its fact. Then the facts of
  \<open>A\<close> have different keys.
\<close>

definition trie_of :: "(addr \<Rightarrow> byte list) \<Rightarrow> addr set \<Rightarrow> trie \<Rightarrow> bool" where
  "trie_of key A t \<longleftrightarrow> rax_ok t \<and> (\<forall>k a. raxFind t k = Some a \<longleftrightarrow> a \<in> A \<and> key a = k)"

definition hexa_ok :: "(addr \<Rightarrow> fact) \<Rightarrow> addr set \<Rightarrow> hexastore \<Rightarrow> bool" where
  "hexa_ok hp A x \<longleftrightarrow>
     trie_of (spo_key \<circ> hp) A (trie_spo x) \<and> trie_of (pos_key \<circ> hp) A (trie_pos x) \<and>
     trie_of (osp_key \<circ> hp) A (trie_osp x)"

lemma trie_ofD:
  assumes "trie_of key A t"
  shows "rax_ok t" "raxFind t k = Some a \<longleftrightarrow> a \<in> A \<and> key a = k" "a \<in> A \<Longrightarrow> raxFind t (key a) = Some a"
  using assms by (auto simp: trie_of_def)

lemma trie_of_inj: "trie_of key A t \<Longrightarrow> inj_on key A"
  by (rule inj_onI) (metis trie_ofD(3) option.inject)

lemma trie_of_absent:
  assumes "trie_of key A t"
  shows "k \<notin> key ` A \<longleftrightarrow> raxFind t k = None"
proof -
  have "k \<in> key ` A \<longleftrightarrow> (\<exists>a. raxFind t k = Some a)"
    unfolding trie_ofD(2) [OF assms] by (auto simp: image_iff)
  then show ?thesis by (metis not_Some_eq)
qed

lemma trie_of_new: "trie_of key {} raxNew"
  by (simp add: trie_of_def rx.ok_empty rx.find_empty)

lemma trie_of_put:
  assumes "trie_of key A t" "key a \<notin> key ` A"
  shows "trie_of key (insert a A) (rax_put (key a) a t)"
proof -
  note d = trie_ofD(1,2) [OF assms(1)]
  have "raxFind (rax_put (key a) a t) k = Some b \<longleftrightarrow> b \<in> insert a A \<and> key b = k" for k b
  proof (cases "k = key a")
    case True
    have "b \<notin> A \<or> key b \<noteq> key a" using assms(2) by (metis image_eqI)
    with True show ?thesis by (simp add: rx.find_put [OF d(1)]) blast
  next
    case False
    then show ?thesis by (auto simp: rx.find_put [OF d(1)] d(2))
  qed
  then show ?thesis unfolding trie_of_def using rx.ok_put [OF d(1)] by blast
qed

lemma trie_of_del:
  assumes "trie_of key A t" "a \<in> A"
  shows "trie_of key (A - {a}) (rax_del (key a) t)"
proof -
  note d = trie_ofD(1,2) [OF assms(1)]
  have "raxFind (rax_del (key a) t) k = Some b \<longleftrightarrow> b \<in> A - {a} \<and> key b = k" for k b
  proof (cases "k = key a")
    case True
    have "b = a" if "b \<in> A" "key b = key a"
      using inj_onD [OF trie_of_inj [OF assms(1)] that(2,1) assms(2)] .
    with True show ?thesis by (simp add: rx.find_del [OF d(1)]) blast
  next
    case False
    then show ?thesis by (auto simp: rx.find_del [OF d(1)] d(2))
  qed
  then show ?thesis unfolding trie_of_def using rx.ok_del [OF d(1)] by blast
qed

lemma trie_of_unique:
  assumes "trie_of key A t" "trie_of key A t'"
  shows "t = t'"
proof (rule rx.dict_ext [OF trie_ofD(1) [OF assms(1)] trie_ofD(1) [OF assms(2)]])
  show "raxFind t k = raxFind t' k" for k
    by (rule option_eqI) (simp add: trie_ofD(2) [OF assms(1)] trie_ofD(2) [OF assms(2)])
qed

lemma trie_of_values:
  assumes "trie_of key A t"
  shows "set (map snd t) = A" "distinct (map snd t)" "map key (map snd t) = map fst t"
proof -
  note ok = trie_ofD(1) [OF assms]
  have mem: "(k, a) \<in> set t \<longleftrightarrow> a \<in> A \<and> key a = k" for k a
    using trie_ofD(2) [OF assms] rx.entries_find [OF ok] by metis
  have "a \<in> snd ` set t \<longleftrightarrow> (\<exists>k. (k, a) \<in> set t)" for a
    by (auto intro: rev_image_eqI)
  then show "set (map snd t) = A"
    unfolding mem set_map by (intro set_eqI) simp
  have "key (snd e) = fst e" if "e \<in> set t" for e
    using that mem [of "fst e" "snd e"] by simp
  then show keys: "map key (map snd t) = map fst t" by simp
  have "distinct (map fst t)" using rx.distinct_keys [OF ok] .
  then show "distinct (map snd t)" by (metis keys distinct_map)
qed

text \<open>The keys of the three orders coincide, because each lists the same three identifiers.\<close>

lemma keys_cong:
  "spo_key f = spo_key g \<longleftrightarrow> pos_key f = pos_key g" "spo_key f = spo_key g \<longleftrightarrow> osp_key f = osp_key g"
  by (auto simp: spo_key_def pos_key_def osp_key_def triple_key_eq)

lemma keys_image:
  "spo_key f \<notin> (spo_key \<circ> hp) ` A \<Longrightarrow> pos_key f \<notin> (pos_key \<circ> hp) ` A \<and> osp_key f \<notin> (osp_key \<circ> hp) ` A"
  unfolding image_iff comp_def keys_cong(1) [symmetric] keys_cong(2) [symmetric] by simp

lemma hexa_okD:
  assumes "hexa_ok hp A x"
  shows "trie_of (spo_key \<circ> hp) A (trie_spo x)" "trie_of (pos_key \<circ> hp) A (trie_pos x)"
    "trie_of (osp_key \<circ> hp) A (trie_osp x)"
  using assms by (simp_all add: hexa_ok_def)

lemma hexa_ok_unique: "hexa_ok hp A x \<Longrightarrow> hexa_ok hp A y \<Longrightarrow> x = y"
  by (cases x; cases y) (auto simp: hexa_ok_def dest: trie_of_unique)

lemma raxInsert_new:
  "raxFind t k = None \<Longrightarrow> raxInsert t k v h = (r, t', h') \<Longrightarrow>
   (r = 1 \<and> t' = rax_put k v t) \<or> (r = 0 \<and> t' = t)"
  by (auto simp: raxInsert_def Let_def split: prod.splits if_splits)

section \<open>Operations\<close>

lemma hexastore_insert_new:
  assumes ok: "hexa_ok hp A x" and new: "spo_key (hp a) \<notin> (spo_key \<circ> hp) ` A"
  obtains (inserted) x' h' where "hexastore_insert x a (hp a) h = (0, x', h')" "hexa_ok hp (insert a A) x'"
  | (failed) h' where "hexastore_insert x a (hp a) h = (- 1, x, h')"
proof -
  let ?f = "hp a"
  note t = hexa_okD [OF ok]
  note new3 = keys_image [OF new]
  have n1: "(spo_key \<circ> hp) a \<notin> (spo_key \<circ> hp) ` A" "(pos_key \<circ> hp) a \<notin> (pos_key \<circ> hp) ` A"
    "(osp_key \<circ> hp) a \<notin> (osp_key \<circ> hp) ` A" using new new3 by simp_all
  have absent: "raxFind (trie_spo x) (spo_key ?f) = None" "raxFind (trie_pos x) (pos_key ?f) = None"
    "raxFind (trie_osp x) (osp_key ?f) = None"
    using n1 trie_of_absent [OF t(1)] trie_of_absent [OF t(2)] trie_of_absent [OF t(3)] by simp_all
  have undo: "rax_del (spo_key ?f) (rax_put (spo_key ?f) a (trie_spo x)) = trie_spo x"
    "rax_del (pos_key ?f) (rax_put (pos_key ?f) a (trie_pos x)) = trie_pos x"
    by (rule rx.del_put_cancel [OF trie_ofD(1) [OF t(1)] absent(1)],
        rule rx.del_put_cancel [OF trie_ofD(1) [OF t(2)] absent(2)])
  let ?x = "\<lparr>trie_spo = rax_put (spo_key ?f) a (trie_spo x), trie_pos = rax_put (pos_key ?f) a (trie_pos x),
      trie_osp = rax_put (osp_key ?f) a (trie_osp x)\<rparr>"
  have good: "hexa_ok hp (insert a A) ?x"
    using trie_of_put [OF t(1) n1(1)] trie_of_put [OF t(2) n1(2)] trie_of_put [OF t(3) n1(3)]
    by (simp add: hexa_ok_def comp_def)
  obtain r1 spo h1 where i1: "raxInsert (trie_spo x) (spo_key ?f) a h = (r1, spo, h1)"
    by (cases "raxInsert (trie_spo x) (spo_key ?f) a h")
  obtain r2 pos h2 where i2: "raxInsert (trie_pos x) (pos_key ?f) a h1 = (r2, pos, h2)"
    by (cases "raxInsert (trie_pos x) (pos_key ?f) a h1")
  obtain r3 osp h3 where i3: "raxInsert (trie_osp x) (osp_key ?f) a h2 = (r3, osp, h3)"
    by (cases "raxInsert (trie_osp x) (osp_key ?f) a h2")
  note r1 = raxInsert_new [OF absent(1) i1] and r2 = raxInsert_new [OF absent(2) i2]
    and r3 = raxInsert_new [OF absent(3) i3]
  show ?thesis
  proof (cases "r1 = 1 \<and> r2 = 1 \<and> r3 = 1")
    case True
    then have "hexastore_insert x a ?f h = (0, ?x, h3)"
      using i1 i2 i3 r1 r2 r3 by (simp add: hexastore_insert_def)
    then show ?thesis using good by (rule inserted)
  next
    case False
    then have "\<exists>h'. hexastore_insert x a ?f h = (- 1, x, h')"
      using i1 i2 i3 r1 r2 r3 undo
      by (cases "r1 = 1"; cases "r2 = 1") (simp_all add: hexastore_insert_def raxRemove_def)
    then show ?thesis using failed by blast
  qed
qed

lemma hexastore_remove_ok:
  assumes ok: "hexa_ok hp A x" and a: "a \<in> A"
  shows "hexa_ok hp (A - {a}) (hexastore_remove x (hp a))"
  using trie_of_del [OF hexa_okD(1) [OF ok] a] trie_of_del [OF hexa_okD(2) [OF ok] a]
    trie_of_del [OF hexa_okD(3) [OF ok] a]
  by (simp add: hexa_ok_def hexastore_remove_def raxRemove_def)

text \<open>Removing a fact whose triple is not stored changes nothing.\<close>

lemma rax_del_absent: "rax_ok t \<Longrightarrow> raxFind t k = None \<Longrightarrow> rax_del k t = t"
  by (rule rx.dict_ext) (auto simp: rx.ok_del rx.find_del)

lemma hexastore_remove_absent:
  assumes ok: "hexa_ok hp A x" and new: "spo_key f \<notin> (spo_key \<circ> hp) ` A"
  shows "hexastore_remove x f = x"
proof -
  note t = hexa_okD [OF ok]
  have "raxFind (trie_spo x) (spo_key f) = None" "raxFind (trie_pos x) (pos_key f) = None"
    "raxFind (trie_osp x) (osp_key f) = None"
    using new keys_image [OF new] trie_of_absent [OF t(1)] trie_of_absent [OF t(2)] trie_of_absent [OF t(3)]
    by simp_all
  then show ?thesis
    using t by (simp add: hexastore_remove_def raxRemove_def rax_del_absent trie_ofD(1))
qed

text \<open>Removing a fact that was just inserted restores the store, and the other way round.\<close>

lemma hexa_insert_remove:
  assumes "hexa_ok hp A x" "hexa_ok hp (insert a A) x'" "a \<notin> A"
  shows "hexastore_remove x' (hp a) = x"
proof -
  have "hexa_ok hp (insert a A - {a}) (hexastore_remove x' (hp a))"
    using assms(2) by (intro hexastore_remove_ok) simp_all
  with assms(1,3) show ?thesis by (simp add: hexa_ok_unique)
qed

lemma rebuild_ok:
  assumes "distinct as" "inj_on (spo_key \<circ> hp) (B \<union> set as)" "B \<inter> set as = {}"
    and "hexa_ok hp B \<lparr>trie_spo = spo, trie_pos = pos, trie_osp = osp\<rparr>"
    and "rebuild hp as (spo, pos, osp) h = (True, (spo', pos', osp'), h')"
  shows "hexa_ok hp (B \<union> set as) \<lparr>trie_spo = spo', trie_pos = pos', trie_osp = osp'\<rparr>"
  using assms
proof (induction as arbitrary: B spo pos osp h)
  case (Cons a as)
  let ?x = "\<lparr>trie_spo = spo, trie_pos = pos, trie_osp = osp\<rparr>"
  note t = hexa_okD [OF Cons.prems(4), simplified]
  have new: "spo_key (hp a) \<notin> (spo_key \<circ> hp) ` B"
  proof
    assume "spo_key (hp a) \<in> (spo_key \<circ> hp) ` B"
    then obtain b where "b \<in> B" "(spo_key \<circ> hp) a = (spo_key \<circ> hp) b" by auto
    then have "a = b" by (intro inj_onD [OF Cons.prems(2)]) auto
    with \<open>b \<in> B\<close> Cons.prems(3) show False by auto
  qed
  then have n1: "(spo_key \<circ> hp) a \<notin> (spo_key \<circ> hp) ` B" "(pos_key \<circ> hp) a \<notin> (pos_key \<circ> hp) ` B"
    "(osp_key \<circ> hp) a \<notin> (osp_key \<circ> hp) ` B" using keys_image [OF new] by simp_all
  then have absent: "raxFind spo (spo_key (hp a)) = None" "raxFind pos (pos_key (hp a)) = None"
    "raxFind osp (osp_key (hp a)) = None"
    using trie_of_absent [OF t(1)] trie_of_absent [OF t(2)] trie_of_absent [OF t(3)] by simp_all
  obtain r1 s1 h1 where i1: "raxInsert spo (spo_key (hp a)) a h = (r1, s1, h1)"
    by (cases "raxInsert spo (spo_key (hp a)) a h")
  obtain r2 s2 h2 where i2: "raxInsert pos (pos_key (hp a)) a h1 = (r2, s2, h2)"
    by (cases "raxInsert pos (pos_key (hp a)) a h1")
  obtain r3 s3 h3 where i3: "raxInsert osp (osp_key (hp a)) a h2 = (r3, s3, h3)"
    by (cases "raxInsert osp (osp_key (hp a)) a h2")
  have r: "r1 = 1" "r2 = 1" "r3 = 1" and rest: "rebuild hp as (s1, s2, s3) h3 = (True, (spo', pos', osp'), h')"
    using Cons.prems(5) i1 i2 i3
    by (auto simp: insert_into_indexes_def split: if_splits)
  have s: "s1 = rax_put ((spo_key \<circ> hp) a) a spo" "s2 = rax_put ((pos_key \<circ> hp) a) a pos"
    "s3 = rax_put ((osp_key \<circ> hp) a) a osp"
    using raxInsert_new [OF absent(1) i1] raxInsert_new [OF absent(2) i2] raxInsert_new [OF absent(3) i3] r
    by simp_all
  have "hexa_ok hp (insert a B) \<lparr>trie_spo = s1, trie_pos = s2, trie_osp = s3\<rparr>"
    unfolding hexa_ok_def s using trie_of_put [OF t(1) n1(1)] trie_of_put [OF t(2) n1(2)] trie_of_put [OF t(3) n1(3)]
    by (simp add: comp_def)
  then have "hexa_ok hp (insert a B \<union> set as) \<lparr>trie_spo = spo', trie_pos = pos', trie_osp = osp'\<rparr>"
    using Cons.prems(1-3) rest by (intro Cons.IH [of "insert a B" s1 s2 s3 h3]) auto
  then show ?case by simp
qed simp

lemma hexastore_compact_same:
  assumes ok: "hexa_ok hp A x"
  shows "fst (hexastore_compact hp x h) = x"
proof -
  obtain a h1 b h2 c h3 where m: "malloc h = (a, h1)" "malloc h1 = (b, h2)" "malloc h2 = (c, h3)"
    by (metis surj_pair)
  let ?as = "map snd (trie_spo x)"
  obtain su spo pos osp h4 where r: "rebuild hp ?as (raxNew, raxNew, raxNew) h3 = (su, (spo, pos, osp), h4)"
    by (metis surj_pair)
  note t = hexa_okD [OF ok] and v = trie_of_values [OF hexa_okD(1) [OF ok]]
  have "hexa_ok hp A \<lparr>trie_spo = spo, trie_pos = pos, trie_osp = osp\<rparr>" if su
  proof -
    have "hexa_ok hp ({} \<union> set ?as) \<lparr>trie_spo = spo, trie_pos = pos, trie_osp = osp\<rparr>"
      using v trie_of_inj [OF t(1)] r that
      by (intro rebuild_ok [of ?as hp "{}" raxNew raxNew raxNew h3]) (simp_all add: hexa_ok_def trie_of_new)
    then show ?thesis using v(1) by simp
  qed
  then have "\<lparr>trie_spo = spo, trie_pos = pos, trie_osp = osp\<rparr> = x" if su
    using hexa_ok_unique [OF _ ok] that by blast
  then show ?thesis
    using m r by (simp add: hexastore_compact_def raxSeekFirst_def)
qed

text \<open>The order of the facts in the first trie is the order \<^verbatim>\<open>fact_compare_spo\<close>.\<close>

lemma spo_key_compare:
  assumes "table_symbols S" "{f_s a, f_p a, f_o a, f_s b, f_p b, f_o b} \<subseteq> S"
  shows "spo_key a < spo_key b \<longleftrightarrow> fact_compare_spo (Some a) (Some b) < 0"
  using assms(2) compare_symbol_sign [OF assms(1)]
  by (simp add: spo_key_def triple_key_less Let_def)

lemma trie_spo_sorted:
  assumes ok: "hexa_ok hp A x" and S: "table_symbols S" "\<And>a. a \<in> A \<Longrightarrow> {f_s (hp a), f_p (hp a), f_o (hp a)} \<subseteq> S"
  shows "sorted_wrt (\<lambda>a b. fact_compare_spo (Some (hp a)) (Some (hp b)) < 0) (map snd (trie_spo x))"
proof -
  note v = trie_of_values [OF hexa_okD(1) [OF ok]]
  have "sorted_wrt (<) (map (spo_key \<circ> hp) (map snd (trie_spo x)))"
    unfolding v(3) using trie_ofD(1) [OF hexa_okD(1) [OF ok]] by (simp add: rax_ok_def)
  then have "sorted_wrt (\<lambda>a b. spo_key (hp a) < spo_key (hp b)) (map snd (trie_spo x))"
    by (simp add: sorted_wrt_map comp_def)
  then show ?thesis
  proof (rule sorted_wrt_mono_rel [rotated])
    fix a b assume ab: "a \<in> set (map snd (trie_spo x))" "b \<in> set (map snd (trie_spo x))"
      and less: "spo_key (hp a) < spo_key (hp b)"
    have "{f_s (hp a), f_p (hp a), f_o (hp a), f_s (hp b), f_p (hp b), f_o (hp b)} \<subseteq> S"
      using ab S(2) [of a] S(2) [of b] v(1) by auto
    from spo_key_compare [OF S(1) this] less show "fact_compare_spo (Some (hp a)) (Some (hp b)) < 0" by simp
  qed
qed

section \<open>Properties\<close>

definition ex_fact :: fact where
  "ex_fact = fact_init (Sym 1 ''a'') (Sym 2 ''b'') (Sym 3 ''c'')"

definition empty_store :: hexastore where
  "empty_store = \<lparr>trie_spo = raxNew, trie_pos = raxNew, trie_osp = raxNew\<rparr>"

lemma empty_store_ok: "hexa_ok hp {} empty_store"
  by (simp add: empty_store_def hexa_ok_def trie_of_new)

definition ex_store :: hexastore where
  "ex_store = fst (snd (hexastore_insert empty_store 7 ex_fact []))"

lemma ex_store_ok: "hexa_ok (\<lambda>_. ex_fact) {7} ex_store"
proof -
  have "hexastore_insert empty_store 7 ex_fact [] = (0, ex_store, [])"
    by (simp add: ex_store_def hexastore_insert_def raxInsert_def empty_store_def raxNew_def raxFind_def)
  with hexastore_insert_new [OF empty_store_ok, of "\<lambda>_. ex_fact" 7 "[]"] show ?thesis by auto
qed

text \<open>
  C23: inserting a fact whose triple is not stored puts its pointer in all three tries, or, when the
  allocator fails at any of the three insertions, leaves all three exactly as they were.
\<close>

theorem hexastore_insert_atomic:
  assumes "hexa_ok hp A x" "spo_key (hp a) \<notin> (spo_key \<circ> hp) ` A"
  shows "\<exists>x' h'. (hexastore_insert x a (hp a) h = (0, x', h') \<and> hexa_ok hp (insert a A) x')
     \<or> (hexastore_insert x a (hp a) h = (- 1, x', h') \<and> x' = x)"
  by (rule hexastore_insert_new [OF assms, of h]) blast+

theorem hexastore_insert_atomic_witness:
  "\<exists>x' h'. hexastore_insert empty_store 7 ex_fact [True, True, False] = (- 1, x', h') \<and> x' = empty_store"
  using hexastore_insert_atomic [OF empty_store_ok, of "\<lambda>_. ex_fact" 7 "[True, True, False]"]
  by (auto simp: hexastore_insert_def raxInsert_def empty_store_def raxNew_def raxFind_def)

text \<open>
  C24: removing a stored fact takes it out of all three tries, and removing one that was just inserted
  gives back the store as it was before the insertion.
\<close>

theorem hexastore_remove_correct:
  assumes "hexa_ok hp A x" "a \<in> A"
  shows "hexa_ok hp (A - {a}) (hexastore_remove x (hp a))
     \<and> (\<forall>y. hexa_ok hp (A - {a}) y \<longrightarrow> hexastore_remove x (hp a) = y)"
  using hexastore_remove_ok [OF assms] hexa_ok_unique by blast

theorem hexastore_remove_correct_witness: "hexastore_remove ex_store ex_fact = empty_store"
  using hexastore_remove_correct [OF ex_store_ok, of 7] empty_store_ok [of "\<lambda>_. ex_fact"] by simp

text \<open>
  C26: compaction rebuilds the three tries from the first one and swaps them in only when every insertion
  succeeded; with or without allocation failures the content and the order of iteration stay
  the same.
\<close>

theorem hexastore_compact_identity:
  assumes "hexa_ok hp A x"
  shows "fst (hexastore_compact hp x h) = x"
  using assms by (rule hexastore_compact_same)

theorem hexastore_compact_identity_witness:
  "fst (hexastore_compact (\<lambda>_. ex_fact) ex_store [True, True, True, True, False]) = ex_store"
  using hexastore_compact_identity [OF ex_store_ok] .

text \<open>
  C25: iterating over the first trie gives each stored fact once, in the strict order of
  \<^verbatim>\<open>fact_compare_spo\<close>: the byte order of the big-endian keys is the order of the identifiers.
\<close>

theorem hexastore_iterates_in_order:
  assumes "hexa_ok hp A x" "table_symbols S" "\<forall>a \<in> A. {f_s (hp a), f_p (hp a), f_o (hp a)} \<subseteq> S"
  shows "set (map snd (raxSeekFirst (trie_spo x))) = A
     \<and> sorted_wrt (\<lambda>a b. fact_compare_spo (Some (hp a)) (Some (hp b)) < 0) (map snd (raxSeekFirst (trie_spo x)))"
  using trie_spo_sorted [OF assms(1,2)] trie_of_values(1) [OF hexa_okD(1) [OF assms(1)]] assms(3)
  by (simp add: raxSeekFirst_def)

theorem hexastore_iterates_in_order_witness:
  "set (map snd (raxSeekFirst (trie_spo ex_store))) = {7}"
proof -
  have "table_symbols {Sym 1 ''a'', Sym 2 ''b'', Sym 3 ''c''}"
    by (simp add: table_symbols_def proper_id_def)
  from hexastore_iterates_in_order [OF ex_store_ok this] show ?thesis
    by (simp add: ex_fact_def fact_init_def)
qed

text \<open>
  inserting a second fact with a triple that is already stored (allocator permitting) fails, but not
  without effect: the first trie then holds the pointer of the refused fact, the other two
  that of the stored one.
\<close>

theorem hexastore_duplicate_insert:
  assumes "hexa_ok hp A x" "a \<in> A" "spo_key f = spo_key (hp a)"
  shows "\<exists>x'. hexastore_insert x b f [] = (- 1, x', []) \<and>
     raxFind (trie_spo x') (spo_key f) = Some b \<and> raxFind (trie_pos x') (pos_key f) = Some a \<and>
     raxFind (trie_osp x') (osp_key f) = Some a"
proof -
  note t = hexa_okD [OF assms(1)]
  have "raxFind (trie_spo x) (spo_key f) = Some a" "raxFind (trie_pos x) (pos_key f) = Some a"
    "raxFind (trie_osp x) (osp_key f) = Some a"
    using trie_ofD(3) [OF t(1) assms(2)] trie_ofD(3) [OF t(2) assms(2)] trie_ofD(3) [OF t(3) assms(2)]
      assms(3) keys_cong [of f "hp a"] by simp_all
  then show ?thesis
    using rx.find_put [OF trie_ofD(1) [OF t(1)]]
    by (simp add: hexastore_insert_def raxInsert_def)
qed

theorem hexastore_duplicate_insert_witness:
  "\<exists>x'. hexastore_insert ex_store 8 ex_fact [] = (- 1, x', []) \<and> x' \<noteq> ex_store"
proof -
  from hexastore_duplicate_insert [OF ex_store_ok, of 7 ex_fact 8] obtain x' where
    "hexastore_insert ex_store 8 ex_fact [] = (- 1, x', [])" "raxFind (trie_spo x') (spo_key ex_fact) = Some 8"
    by auto
  moreover have "raxFind (trie_spo ex_store) (spo_key ex_fact) = Some 7"
    using trie_ofD(3) [OF hexa_okD(1) [OF ex_store_ok], of 7] by simp
  ultimately show ?thesis by (intro exI [of _ x']) auto
qed

end
