(* ===== verification/Justification.thy ===== *)
theory Justification
  imports Prelude
begin

text \<open>
  \<^verbatim>\<open>include/justification.h\<close> and \<^verbatim>\<open>lib/justification.c\<close>: the graph of grounded rule applications
  that support derived facts, a dynamic array of distinct proofs. Strings are copied, so the
  graph is a value. Null arguments, which all operations reject, are not modelled.
\<close>

section \<open>State\<close>

record support =
  js_s :: cstr
  js_p :: cstr
  js_o :: cstr
  js_negated :: int

record justification =
  j_s :: cstr
  j_p :: cstr
  j_o :: cstr
  rule_index :: nat
  supports :: "support list"

record jgraph =
  j_items :: "justification list"
  j_capacity :: nat

definition new_justification_graph :: "mem \<Rightarrow> jgraph option \<times> mem" where
  "new_justification_graph h =
     (let (ok, h') = malloc h in (if ok then Some \<lparr>j_items = [], j_capacity = 0\<rparr> else None, h'))"

section \<open>Adding a proof\<close>

definition support_equal :: "support \<Rightarrow> support \<Rightarrow> bool" where
  "support_equal a b \<longleftrightarrow>
     js_negated a = js_negated b \<and> strcmp (js_s a) (js_s b) = 0 \<and> strcmp (js_p a) (js_p b) = 0
     \<and> strcmp (js_o a) (js_o b) = 0"

definition justification_equal ::
  "justification \<Rightarrow> cstr \<Rightarrow> cstr \<Rightarrow> cstr \<Rightarrow> nat \<Rightarrow> support list \<Rightarrow> bool" where
  "justification_equal item s p ob r sups \<longleftrightarrow>
     rule_index item = r \<and> length (supports item) = length sups \<and> strcmp (j_s item) s = 0
     \<and> strcmp (j_p item) p = 0 \<and> strcmp (j_o item) ob = 0
     \<and> (\<forall>i \<in> set [0..<length sups]. support_equal (supports item ! i) (sups ! i))"

text \<open>\<open>n\<close> copies of strings: all are attempted even when one fails.\<close>

fun strdups :: "nat \<Rightarrow> mem \<Rightarrow> bool \<times> mem" where
  "strdups 0 h = (True, h)"
| "strdups (Suc n) h = (let (a, h1) = malloc h; (b, h2) = strdups n h1 in (a \<and> b, h2))"

fun support_copies :: "support list \<Rightarrow> mem \<Rightarrow> bool \<times> mem" where
  "support_copies [] h = (True, h)"
| "support_copies (x # xs) h =
     (let (ok, h1) = strdups 3 h in if ok then support_copies xs h1 else (False, h1))"

text \<open>The growth of the array when it is full: whether there is room now.\<close>

definition grow_items :: "jgraph \<Rightarrow> mem \<Rightarrow> bool \<times> jgraph \<times> mem" where
  "grow_items g h =
     (if length (j_items g) = j_capacity g then
        (let capacity = (if j_capacity g \<noteq> 0 then j_capacity g * 2 mod 2 ^ 64 else 16) in
         if capacity < j_capacity g \<or> capacity > SIZE_MAX div 48 then (False, g, h)
         else (case malloc h of
                 (False, h') \<Rightarrow> (False, g, h')
               | (True, h') \<Rightarrow> (True, g\<lparr>j_capacity := capacity\<rparr>, h')))
      else (True, g, h))"

definition justification_graph_add ::
  "jgraph \<Rightarrow> cstr \<Rightarrow> cstr \<Rightarrow> cstr \<Rightarrow> nat \<Rightarrow> support list \<Rightarrow> mem \<Rightarrow> int \<times> jgraph \<times> mem" where
  "justification_graph_add g s p ob r sups h =
     (if \<exists>item \<in> set (j_items g). justification_equal item s p ob r sups then (0, g, h)
      else
        (let (ok, g1, h1) = grow_items g h
         in if \<not> ok then (- 1, g1, h1)
            else
              (let (strs, h2) = strdups 3 h1;
                   (arr, h3) = (if sups \<noteq> [] then malloc h2 else (True, h2))
               in if \<not> (strs \<and> arr) then (- 1, g1, h3)
                  else
                    (let (copied, h4) = support_copies sups h3
                     in if \<not> copied then (- 1, g1, h4)
                        else (1, g1\<lparr>j_items := j_items g1 @
                                [\<lparr>j_s = s, j_p = p, j_o = ob, rule_index = r, supports = sups\<rparr>]\<rparr>, h4)))))"

section \<open>Cloning and counting\<close>

fun clone_items :: "justification list \<Rightarrow> jgraph \<Rightarrow> mem \<Rightarrow> jgraph option \<times> mem" where
  "clone_items [] copy h = (Some copy, h)"
| "clone_items (x # xs) copy h =
     (case justification_graph_add copy (j_s x) (j_p x) (j_o x) (rule_index x) (supports x) h of
        (r, copy', h') \<Rightarrow> if r < 0 then (None, h') else clone_items xs copy' h')"

definition justification_graph_clone :: "jgraph option \<Rightarrow> mem \<Rightarrow> jgraph option \<times> mem" where
  "justification_graph_clone g h =
     (case new_justification_graph h of
        (None, h') \<Rightarrow> (None, h')
      | (Some copy, h') \<Rightarrow>
          (case g of None \<Rightarrow> (Some copy, h') | Some g' \<Rightarrow> clone_items (j_items g') copy h'))"

definition justification_graph_count :: "jgraph option \<Rightarrow> cstr \<Rightarrow> cstr \<Rightarrow> cstr \<Rightarrow> nat" where
  "justification_graph_count g s p ob =
     (case g of None \<Rightarrow> 0
      | Some g' \<Rightarrow> length (filter (\<lambda>item. strcmp (j_s item) s = 0 \<and> strcmp (j_p item) p = 0
                                        \<and> strcmp (j_o item) ob = 0) (j_items g')))"

section \<open>Removing the proofs that use a support\<close>

definition justification_uses_support ::
  "justification \<Rightarrow> cstr \<Rightarrow> cstr \<Rightarrow> cstr \<Rightarrow> int \<Rightarrow> bool" where
  "justification_uses_support item s p ob negated \<longleftrightarrow>
     (\<exists>x \<in> set (supports item). js_negated x = negated \<and> strcmp (js_s x) s = 0 \<and> strcmp (js_p x) p = 0
        \<and> strcmp (js_o x) ob = 0)"

definition conclusion_append :: "support list \<Rightarrow> justification \<Rightarrow> mem \<Rightarrow> int \<times> support list \<times> mem" where
  "conclusion_append items pf h =
     (if \<exists>x \<in> set items. strcmp (js_s x) (j_s pf) = 0 \<and> strcmp (js_p x) (j_p pf) = 0
          \<and> strcmp (js_o x) (j_o pf) = 0 then (0, items, h)
      else if length items = SIZE_MAX div 32 then (- 1, items, h)
      else (case malloc h of
              (False, h1) \<Rightarrow> (- 1, items, h1)
            | (True, h1) \<Rightarrow>
                (case strdups 3 h1 of
                   (False, h2) \<Rightarrow> (- 1, items, h2)
                 | (True, h2) \<Rightarrow>
                     (0, items @ [\<lparr>js_s = j_s pf, js_p = j_p pf, js_o = j_o pf, js_negated = 0\<rparr>], h2))))"

fun collect_conclusions ::
  "(justification \<Rightarrow> bool) \<Rightarrow> justification list \<Rightarrow> support list \<Rightarrow> mem \<Rightarrow> support list option \<times> mem" where
  "collect_conclusions uses [] out h = (Some out, h)"
| "collect_conclusions uses (x # xs) out h =
     (if uses x then
        (case conclusion_append out x h of
           (r, out', h') \<Rightarrow> if r \<noteq> 0 then (None, h') else collect_conclusions uses xs out' h')
      else collect_conclusions uses xs out h)"

text \<open>The second loop, with its index: the array closes up over each removed proof.\<close>

function remove_loop ::
  "(justification \<Rightarrow> bool) \<Rightarrow> justification list \<Rightarrow> nat \<Rightarrow> int \<Rightarrow> justification list \<times> int" where
  "remove_loop uses items i removed =
     (if i < length items then
        (if \<not> uses (items ! i) then remove_loop uses items (i + 1) removed
         else remove_loop uses (take i items @ drop (Suc i) items) i (removed + 1))
      else (items, removed))"
  by pat_completeness auto
termination
  by (relation "measure (\<lambda>(uses, items, i, removed). length items - i)") auto

declare remove_loop.simps [simp del]

text \<open>The result, the conclusions (\<open>None\<close> when the output pointer stays null) and the graph.\<close>

definition justification_graph_remove_support ::
  "jgraph \<Rightarrow> cstr \<Rightarrow> cstr \<Rightarrow> cstr \<Rightarrow> int \<Rightarrow> mem \<Rightarrow> int \<times> support list \<times> jgraph \<times> mem" where
  "justification_graph_remove_support g s p ob negated h =
     (let uses = (\<lambda>item. justification_uses_support item s p ob negated) in
      case collect_conclusions uses (j_items g) [] h of
        (None, h') \<Rightarrow> (- 1, [], g, h')
      | (Some out, h') \<Rightarrow>
          (case remove_loop uses (j_items g) 0 0 of
             (items, removed) \<Rightarrow> (removed, out, g\<lparr>j_items := items\<rparr>, h')))"

section \<open>Lemmas\<close>

lemma support_equal_iff: "support_equal a b \<longleftrightarrow> a = b"
  by (cases a; cases b) (auto simp: support_equal_def)

lemma justification_equal_iff:
  "justification_equal item s p ob r sups \<longleftrightarrow>
     item = \<lparr>j_s = s, j_p = p, j_o = ob, rule_index = r, supports = sups\<rparr>"
proof -
  have "(length xs = length ys \<and> (\<forall>i \<in> set [0..<length ys]. xs ! i = ys ! i)) \<longleftrightarrow> xs = ys" for xs ys :: "support list"
    using list_eq_iff_nth_eq [of xs ys] by auto
  then show ?thesis
    by (cases item) (auto simp: justification_equal_def support_equal_iff)
qed

definition graph_ok :: "jgraph \<Rightarrow> bool" where
  "graph_ok g \<longleftrightarrow> distinct (j_items g) \<and> length (j_items g) \<le> j_capacity g"

lemma grow_items_room:
  assumes "length (j_items g) \<le> j_capacity g" "grow_items g h = (ok, g1, h1)"
  shows "j_items g1 = j_items g" "length (j_items g) \<le> j_capacity g1"
    "ok \<Longrightarrow> length (j_items g) < j_capacity g1"
proof -
  define c where "c = j_capacity g * 2 mod 2 ^ 64"
  obtain r h2 where m: "malloc h = (r, h2)" by (cases "malloc h")
  have "grow_items g h =
     (if length (j_items g) \<noteq> j_capacity g then (True, g, h)
      else if j_capacity g = 0 then (r, if r then g\<lparr>j_capacity := 16\<rparr> else g, h2)
      else if c < j_capacity g \<or> c > SIZE_MAX div 48 then (False, g, h)
      else (r, if r then g\<lparr>j_capacity := c\<rparr> else g, h2))"
    unfolding grow_items_def Let_def m c_def [symmetric] by (cases r) simp_all
  moreover have "j_capacity g < c" if "j_capacity g \<noteq> 0" "\<not> (c < j_capacity g \<or> c > SIZE_MAX div 48)"
  proof -
    have "j_capacity g \<le> SIZE_MAX div 48" using that(2) by linarith
    then have "c = j_capacity g * 2" unfolding c_def by (intro mod_less) simp
    with that(1) show ?thesis by simp
  qed
  ultimately have "j_items g1 = j_items g \<and> length (j_items g) \<le> j_capacity g1
      \<and> (ok \<longrightarrow> length (j_items g) < j_capacity g1)"
    using assms by (auto split: if_splits)
  then show "j_items g1 = j_items g" "length (j_items g) \<le> j_capacity g1"
    "ok \<Longrightarrow> length (j_items g) < j_capacity g1" by simp_all
qed

lemma justification_graph_add_cases:
  fixes g s p ob r sups h
  defines "x \<equiv> \<lparr>j_s = s, j_p = p, j_o = ob, rule_index = r, supports = sups\<rparr>"
  assumes "graph_ok g"
  obtains (known) "x \<in> set (j_items g)" "justification_graph_add g s p ob r sups h = (0, g, h)"
  | (added) g' h' where "x \<notin> set (j_items g)" "justification_graph_add g s p ob r sups h = (1, g', h')"
      "j_items g' = j_items g @ [x]" "graph_ok g'"
  | (failed) g' h' where "x \<notin> set (j_items g)" "justification_graph_add g s p ob r sups h = (- 1, g', h')"
      "j_items g' = j_items g" "graph_ok g'"
proof (cases "x \<in> set (j_items g)")
  case True
  then have "\<exists>item \<in> set (j_items g). justification_equal item s p ob r sups"
    by (auto simp: justification_equal_iff x_def)
  then have "justification_graph_add g s p ob r sups h = (0, g, h)"
    by (simp add: justification_graph_add_def)
  with True show ?thesis by (rule known)
next
  case False
  then have no: "\<not> (\<exists>item \<in> set (j_items g). justification_equal item s p ob r sups)"
    by (auto simp: justification_equal_iff x_def)
  have dist: "distinct (j_items g)" "length (j_items g) \<le> j_capacity g"
    using assms(2) by (simp_all add: graph_ok_def)
  obtain ok g1 h1 where grow: "grow_items g h = (ok, g1, h1)"
    by (cases "grow_items g h")
  note g1 = grow_items_room [OF dist(2) grow]
  obtain strs h2 where s3: "strdups 3 h1 = (strs, h2)" by (cases "strdups 3 h1")
  obtain arr h3 where ar: "(if sups \<noteq> [] then malloc h2 else (True, h2)) = (arr, h3)"
    by (cases "if sups \<noteq> [] then malloc h2 else (True, h2)")
  obtain copied h4 where sc: "support_copies sups h3 = (copied, h4)" by (cases "support_copies sups h3")
  have eq: "justification_graph_add g s p ob r sups h =
      (if \<not> ok then (- 1, g1, h1)
       else if \<not> (strs \<and> arr) then (- 1, g1, h3)
       else if \<not> copied then (- 1, g1, h4)
       else (1, g1\<lparr>j_items := j_items g1 @ [x]\<rparr>, h4))"
    unfolding justification_graph_add_def if_not_P [OF no] x_def [symmetric]
    by (simp add: grow s3 ar sc)
  show ?thesis
  proof (cases "ok \<and> strs \<and> arr \<and> copied")
    case True
    then have "justification_graph_add g s p ob r sups h = (1, g1\<lparr>j_items := j_items g1 @ [x]\<rparr>, h4)"
      using eq by simp
    then show ?thesis
      using False g1 dist True by (intro added [of "g1\<lparr>j_items := j_items g1 @ [x]\<rparr>" h4]) (simp_all add: graph_ok_def)
  next
    case f: False
    then have "\<exists>h'. justification_graph_add g s p ob r sups h = (- 1, g1, h')"
      using eq by auto
    then show ?thesis
      using False g1 dist by (auto intro: failed simp: graph_ok_def)
  qed
qed

text \<open>Cloning a graph of distinct proofs copies all of them.\<close>

lemma clone_items_append:
  "graph_ok copy \<Longrightarrow> distinct (j_items copy @ xs) \<Longrightarrow> clone_items xs copy h = (Some g', h') \<Longrightarrow>
   graph_ok g' \<and> j_items g' = j_items copy @ xs"
proof (induction xs arbitrary: copy h)
  case (Cons x xs)
  have x: "\<lparr>j_s = j_s x, j_p = j_p x, j_o = j_o x, rule_index = rule_index x, supports = supports x\<rparr> = x"
    by (cases x) simp
  have new: "x \<notin> set (j_items copy)" using Cons.prems(2) by simp
  show ?case
  proof (cases rule: justification_graph_add_cases [OF Cons.prems(1), of "j_s x" "j_p x" "j_o x" "rule_index x" "supports x" h])
    case 1
    then show ?thesis using x new by simp
  next
    case (2 g1 h1)
    then have "clone_items xs g1 h1 = (Some g', h')" using Cons.prems(3) by simp
    moreover have "distinct (j_items g1 @ xs)" using Cons.prems(2) 2(3) x by simp
    ultimately show ?thesis using Cons.IH [of g1 h1] 2(3,4) x by simp
  next
    case (3 g1 h1)
    then show ?thesis using Cons.prems(3) by simp
  qed
qed simp

lemma remove_loop_eq:
  "i \<le> length items \<Longrightarrow>
   remove_loop uses items i r = (take i items @ filter (\<lambda>x. \<not> uses x) (drop i items),
                                 r + int (length (filter uses (drop i items))))"
proof (induction uses items i r rule: remove_loop.induct)
  case (1 uses items i r)
  show ?case
  proof (cases "i < length items")
    case True
    then have drop: "drop i items = items ! i # drop (Suc i) items" by (rule Cons_nth_drop_Suc [symmetric])
    show ?thesis
    proof (cases "uses (items ! i)")
      case False
      have "take (Suc i) items = take i items @ [items ! i]" using True by (rule take_Suc_conv_app_nth)
      with "1.IH"(1) [OF True False] True False drop show ?thesis
        by (subst remove_loop.simps) simp
    next
      case uses: True
      have "remove_loop uses (take i items @ drop (Suc i) items) i (r + 1)
          = (take i items @ filter (\<lambda>x. \<not> uses x) (drop (Suc i) items),
             r + 1 + int (length (filter uses (drop (Suc i) items))))"
        using "1.IH"(2) [OF True] uses True by simp
      with True uses drop show ?thesis by (subst remove_loop.simps) simp
    qed
  next
    case False
    with "1.prems" show ?thesis by (subst remove_loop.simps) simp
  qed
qed

definition conclusion :: "justification \<Rightarrow> support" where
  "conclusion x = \<lparr>js_s = j_s x, js_p = j_p x, js_o = j_o x, js_negated = 0\<rparr>"

lemma conclusion_append_cases:
  assumes "distinct items" "\<forall>x \<in> set items. js_negated x = 0"
    and "conclusion_append items pf h = (0, out, h')"
  shows "distinct out \<and> set out = insert (conclusion pf) (set items) \<and> (\<forall>x \<in> set out. js_negated x = 0)"
proof -
  have known: "(\<exists>x \<in> set items. strcmp (js_s x) (j_s pf) = 0 \<and> strcmp (js_p x) (j_p pf) = 0
      \<and> strcmp (js_o x) (j_o pf) = 0) \<longleftrightarrow> conclusion pf \<in> set items"
  proof
    assume "\<exists>x \<in> set items. strcmp (js_s x) (j_s pf) = 0 \<and> strcmp (js_p x) (j_p pf) = 0 \<and> strcmp (js_o x) (j_o pf) = 0"
    then obtain x where "x \<in> set items" "js_s x = j_s pf" "js_p x = j_p pf" "js_o x = j_o pf" by auto
    moreover from this assms(2) have "js_negated x = 0" by blast
    ultimately have "conclusion pf = x" "x \<in> set items"
      by (auto intro!: support.equality simp: conclusion_def)
    then show "conclusion pf \<in> set items" by simp
  next
    assume "conclusion pf \<in> set items"
    then show "\<exists>x \<in> set items. strcmp (js_s x) (j_s pf) = 0 \<and> strcmp (js_p x) (j_p pf) = 0 \<and> strcmp (js_o x) (j_o pf) = 0"
      by (rule bexI [rotated]) (simp add: conclusion_def)
  qed
  show ?thesis
  proof (cases "conclusion pf \<in> set items")
    case True
    then have "out = items" using assms(3) known by (simp add: conclusion_append_def)
    with True assms(1,2) show ?thesis by auto
  next
    case False
    then have "out = items @ [conclusion pf]"
      using assms(3) known
      by (auto simp: conclusion_append_def conclusion_def split: if_splits prod.splits bool.splits)
    with False assms(1,2) show ?thesis by (simp add: conclusion_def)
  qed
qed

lemma collect_conclusions_set:
  "distinct out \<Longrightarrow> \<forall>x \<in> set out. js_negated x = 0 \<Longrightarrow> collect_conclusions uses xs out h = (Some out', h') \<Longrightarrow>
   distinct out' \<and> set out' = set out \<union> conclusion ` {x \<in> set xs. uses x} \<and> (\<forall>x \<in> set out'. js_negated x = 0)"
proof (induction xs arbitrary: out h)
  case (Cons x xs)
  show ?case
  proof (cases "uses x")
    case True
    obtain r out1 h1 where a: "conclusion_append out x h = (r, out1, h1)"
      by (cases "conclusion_append out x h")
    with True Cons.prems(3) have r: "r = 0" "collect_conclusions uses xs out1 h1 = (Some out', h')"
      by (simp_all split: if_splits)
    note c = conclusion_append_cases [OF Cons.prems(1,2) a [unfolded r(1)]]
    have "{y \<in> set (x # xs). uses y} = insert x {y \<in> set xs. uses y}" using True by auto
    with Cons.IH [OF _ _ r(2)] c show ?thesis by auto
  next
    case False
    then have "{y \<in> set (x # xs). uses y} = {y \<in> set xs. uses y}" by auto
    with False Cons.IH [OF Cons.prems(1,2), of h] Cons.prems(3) show ?thesis by simp
  qed
qed simp

section \<open>Properties\<close>

text \<open>
  a graph holds distinct proofs: adding one returns 0 and changes nothing when it is known, returns
  1 and appends it otherwise, or returns \<^verbatim>\<open>-1\<close> with the proofs as they were.
\<close>

theorem justification_graph_add_distinct:
  assumes "graph_ok g" "justification_graph_add g s p ob r sups h = (res, g', h')"
  defines "x \<equiv> \<lparr>j_s = s, j_p = p, j_o = ob, rule_index = r, supports = sups\<rparr>"
  shows "graph_ok g' \<and>
     (if x \<in> set (j_items g) then res = 0 \<and> g' = g
      else (res = 1 \<and> j_items g' = j_items g @ [x]) \<or> (res = - 1 \<and> j_items g' = j_items g))"
  by (rule justification_graph_add_cases [OF assms(1), of s p ob r sups h])
    (use assms(1,2) in \<open>simp_all add: x_def\<close>)

theorem justification_graph_add_distinct_witness:
  "\<exists>g'. graph_ok g' \<and> justification_graph_add \<lparr>j_items = [], j_capacity = 0\<rparr> ''a'' ''b'' ''c'' 0 [] [] = (1, g', [])"
proof -
  let ?g = "\<lparr>j_items = [], j_capacity = 0\<rparr>"
  obtain r g' h' where a: "justification_graph_add ?g ''a'' ''b'' ''c'' 0 [] [] = (r, g', h')"
    by (cases "justification_graph_add ?g ''a'' ''b'' ''c'' 0 [] []")
  moreover have "fst (justification_graph_add ?g ''a'' ''b'' ''c'' 0 [] []) = 1"
    "snd (snd (justification_graph_add ?g ''a'' ''b'' ''c'' 0 [] [])) = []"
    by (simp_all add: justification_graph_add_def grow_items_def Let_def numeral_3_eq_3)
  moreover have "graph_ok ?g" by (simp add: graph_ok_def)
  from justification_graph_add_distinct [OF this a] have "graph_ok g'" by simp
  ultimately show ?thesis by simp
qed



end
