(* ===== verification/Rules.thy ===== *)
theory Rules
  imports Spec
begin

text \<open>
  \<^verbatim>\<open>include/rule.h\<close> and the first half of \<^verbatim>\<open>lib/rule.c\<close>: Datalog rules and programs, their
  construction by deep copies, the safety check and the printed form. A string that is the
  null pointer is \<open>None\<close>.
\<close>

section \<open>Data\<close>

record datalog_rule =
  head :: spec_fact
  body :: "spec_fact list"

record datalog_program =
  rules :: "datalog_rule list"

definition new_datalog_program :: "mem \<Rightarrow> datalog_program option \<times> mem" where
  "new_datalog_program h = (let (ok, h') = malloc h in (if ok then Some \<lparr>rules = []\<rparr> else None, h'))"

text \<open>\<^verbatim>\<open>datalog_program_truncate\<close> drops rules from the end.\<close>

function datalog_program_truncate :: "datalog_program \<Rightarrow> nat \<Rightarrow> datalog_program" where
  "datalog_program_truncate prog n =
     (if length (rules prog) > n
      then datalog_program_truncate (prog\<lparr>rules := butlast (rules prog)\<rparr>) n
      else prog)"
  by pat_completeness auto
termination
  by (relation "measure (\<lambda>(prog, n). length (rules prog))") auto

declare datalog_program_truncate.simps [simp del]

section \<open>Copying\<close>

definition strdup :: "cstr option \<Rightarrow> mem \<Rightarrow> bool \<times> mem" where
  "strdup s h = (case s of None \<Rightarrow> (True, h) | Some _ \<Rightarrow> malloc h)"

text \<open>\<open>None\<close> is the result 0; the fields copied before the failure are freed.\<close>

definition clone_spec_fact_fields :: "spec_fact \<Rightarrow> mem \<Rightarrow> spec_fact option \<times> mem" where
  "clone_spec_fact_fields src h =
     (case strdup (sf_s src) h of (False, h1) \<Rightarrow> (None, h1) | (True, h1) \<Rightarrow>
     (case strdup (sf_p src) h1 of (False, h2) \<Rightarrow> (None, h2) | (True, h2) \<Rightarrow>
     (case strdup (sf_o src) h2 of (False, h3) \<Rightarrow> (None, h3) | (True, h3) \<Rightarrow>
     (case strdup (sf_negated src) h3 of (False, h4) \<Rightarrow> (None, h4) | (True, h4) \<Rightarrow>
        (Some \<lparr>sf_s = sf_s src, sf_p = sf_p src, sf_o = sf_o src, sf_negated = sf_negated src\<rparr>, h4)))))"

fun clone_body :: "spec_fact list \<Rightarrow> mem \<Rightarrow> spec_fact list option \<times> mem" where
  "clone_body [] h = (Some [], h)"
| "clone_body (b # bs) h =
     (case clone_spec_fact_fields b h of
        (None, h1) \<Rightarrow> (None, h1)
      | (Some b', h1) \<Rightarrow>
          (case clone_body bs h1 of (None, h2) \<Rightarrow> (None, h2) | (Some bs', h2) \<Rightarrow> (Some (b' # bs'), h2)))"

text \<open>The index of the new rule, or \<open>None\<close> for a null result. \<^verbatim>\<open>sizeof(s_datalog_rule)\<close> is 48.\<close>

definition datalog_program_add_rule ::
  "datalog_program \<Rightarrow> spec_fact \<Rightarrow> spec_fact list \<Rightarrow> mem \<Rightarrow> nat option \<times> datalog_program \<times> mem" where
  "datalog_program_add_rule prog hd0 bd h =
     (if length (rules prog) = SIZE_MAX \<or> length (rules prog) + 1 > SIZE_MAX div 48 then (None, prog, h)
      else case malloc h of
        (False, h1) \<Rightarrow> (None, prog, h1)
      | (True, h1) \<Rightarrow>
          (case clone_spec_fact_fields hd0 h1 of
             (None, h2) \<Rightarrow> (None, prog, h2)
           | (Some hd', h2) \<Rightarrow>
               if bd \<noteq> [] then
                 (case malloc h2 of
                    (False, h3) \<Rightarrow> (None, prog, h3)
                  | (True, h3) \<Rightarrow>
                      (case clone_body bd h3 of
                         (None, h4) \<Rightarrow> (None, prog, h4)
                       | (Some bd', h4) \<Rightarrow>
                           (Some (length (rules prog)),
                            prog\<lparr>rules := rules prog @ [\<lparr>head = hd', body = bd'\<rparr>]\<rparr>, h4)))
               else (Some (length (rules prog)), prog\<lparr>rules := rules prog @ [\<lparr>head = hd', body = []\<rparr>]\<rparr>, h2)))"

fun clone_rules :: "datalog_rule list \<Rightarrow> datalog_program \<Rightarrow> mem \<Rightarrow> datalog_program option \<times> mem" where
  "clone_rules [] copy h = (Some copy, h)"
| "clone_rules (r # rs) copy h =
     (case datalog_program_add_rule copy (head r) (body r) h of
        (None, copy', h') \<Rightarrow> (None, h')
      | (Some _, copy', h') \<Rightarrow> clone_rules rs copy' h')"

definition datalog_program_clone :: "datalog_program option \<Rightarrow> mem \<Rightarrow> datalog_program option \<times> mem" where
  "datalog_program_clone prog h =
     (case prog of None \<Rightarrow> (None, h)
      | Some pr \<Rightarrow>
          (case new_datalog_program h of
             (None, h1) \<Rightarrow> (None, h1)
           | (Some copy, h1) \<Rightarrow> clone_rules (rules pr) copy h1))"

section \<open>The safety check\<close>

definition is_variable :: "cstr option \<Rightarrow> bool" where
  "is_variable s = (case s of None \<Rightarrow> False | Some str \<Rightarrow> is_var str)"

text \<open>The list and whether the variable is in it afterwards (false: out of memory).\<close>

definition add_var_to_list :: "cstr list \<Rightarrow> cstr \<Rightarrow> mem \<Rightarrow> bool \<times> cstr list \<times> mem" where
  "add_var_to_list list var h =
     (if \<exists>v \<in> set list. strcmp v var = 0 then (True, list, h)
      else if length list = SIZE_MAX div 8 then (False, list, h)
      else (let (ok, h') = malloc h in (ok, if ok then list @ [var] else list, h')))"

definition list_contains :: "cstr list \<Rightarrow> cstr \<Rightarrow> bool" where
  "list_contains list var \<longleftrightarrow> (\<exists>v \<in> set list. strcmp v var = 0)"

fun collect_vars :: "cstr option list \<Rightarrow> cstr list \<Rightarrow> mem \<Rightarrow> bool \<times> cstr list \<times> mem" where
  "collect_vars [] list h = (True, list, h)"
| "collect_vars (x # xs) list h =
     (case x of
        Some v \<Rightarrow>
          if is_variable x then
            (case add_var_to_list list v h of
               (ok, list', h') \<Rightarrow> if ok then collect_vars xs list' h' else (False, list', h'))
          else collect_vars xs list h
      | None \<Rightarrow> collect_vars xs list h)"

definition fact_fields :: "spec_fact \<Rightarrow> cstr option list" where
  "fact_fields f = [sf_s f, sf_p f, sf_o f]"

definition field_bound :: "cstr list \<Rightarrow> cstr option \<Rightarrow> bool" where
  "field_bound list x \<longleftrightarrow> \<not> (is_variable x \<and> \<not> list_contains list (the x))"

definition datalog_rule_validate :: "datalog_rule \<Rightarrow> mem \<Rightarrow> int \<times> mem" where
  "datalog_rule_validate rule h =
     (case collect_vars (concat (map fact_fields (filter (\<lambda>b. sf_negated b = None) (body rule)))) [] h of
        (False, pos_vars, h') \<Rightarrow> (- 1, h')
      | (True, pos_vars, h') \<Rightarrow>
          (if list_all (field_bound pos_vars) (fact_fields (head rule)) \<and>
              list_all (\<lambda>b. sf_negated b \<noteq> None \<longrightarrow> list_all (field_bound pos_vars) (fact_fields b)) (body rule)
           then 1 else 0, h'))"

section \<open>Printing\<close>

text \<open>Printing a null string is undefined: \<open>None\<close>.\<close>

definition print_triple :: "spec_fact \<Rightarrow> cstr option" where
  "print_triple f = do {
     s \<leftarrow> sf_s f; p \<leftarrow> sf_p f; ob \<leftarrow> sf_o f;
     Some (s @ '' <'' @ p @ ''> '' @ ob)
   }"

definition print_subgoal :: "spec_fact \<Rightarrow> cstr option" where
  "print_subgoal f = do {
     t \<leftarrow> print_triple f;
     Some (if sf_negated f \<noteq> None then ''NOT( '' @ t @ '' )'' else t)
   }"

fun print_body :: "spec_fact list \<Rightarrow> cstr option" where
  "print_body [] = Some []"
| "print_body [f] = print_subgoal f"
| "print_body (f # fs) = do {
     t \<leftarrow> print_subgoal f;
     ts \<leftarrow> print_body fs;
     Some (t @ '', '' @ ts)
   }"

definition datalog_rule_print :: "datalog_rule \<Rightarrow> cstr option" where
  "datalog_rule_print rule = do {
     hd0 \<leftarrow> print_triple (head rule);
     bd \<leftarrow> print_body (body rule);
     Some (hd0 @ '' :- '' @ bd @ '' .'' @ [CHR 0x0A])
   }"

fun print_program_rules :: "datalog_rule list \<Rightarrow> cstr option" where
  "print_program_rules [] = Some []"
| "print_program_rules (r # rs) = do {
     t \<leftarrow> datalog_rule_print r;
     ts \<leftarrow> print_program_rules rs;
     Some (t @ ts)
   }"

definition datalog_program_print :: "datalog_program \<Rightarrow> cstr option" where
  "datalog_program_print prog = print_program_rules (rules prog)"

section \<open>Lemmas\<close>

lemma datalog_program_truncate_eq:
  "datalog_program_truncate prog n = prog\<lparr>rules := take n (rules prog)\<rparr>"
proof (induction prog n rule: datalog_program_truncate.induct)
  case (1 prog n)
  show ?case
  proof (cases "length (rules prog) > n")
    case True
    then have "take n (butlast (rules prog)) = take n (rules prog)"
      by (simp add: take_butlast)
    with 1 True show ?thesis by (subst datalog_program_truncate.simps) simp
  qed (subst datalog_program_truncate.simps, simp)
qed

lemma clone_spec_fact_fields_same: "clone_spec_fact_fields f h = (Some f', h') \<Longrightarrow> f' = f"
  by (auto simp: clone_spec_fact_fields_def split: prod.splits bool.splits)

lemma clone_body_same: "clone_body bs h = (Some bs', h') \<Longrightarrow> bs' = bs"
  by (induction bs arbitrary: h bs')
    (auto split: prod.splits option.splits dest: clone_spec_fact_fields_same)

text \<open>A rule is appended, as it was given, or the program stays as it was.\<close>

lemma datalog_program_add_rule_cases:
  obtains (failed) h' where "datalog_program_add_rule prog hd0 bd h = (None, prog, h')"
  | (added) h' where "datalog_program_add_rule prog hd0 bd h =
      (Some (length (rules prog)), prog\<lparr>rules := rules prog @ [\<lparr>head = hd0, body = bd\<rparr>]\<rparr>, h')"
proof -
  have "(\<exists>h'. datalog_program_add_rule prog hd0 bd h = (None, prog, h')) \<or>
    (\<exists>h'. datalog_program_add_rule prog hd0 bd h =
      (Some (length (rules prog)), prog\<lparr>rules := rules prog @ [\<lparr>head = hd0, body = bd\<rparr>]\<rparr>, h'))"
    unfolding datalog_program_add_rule_def
    by (auto split: prod.splits bool.splits option.splits
        dest!: clone_spec_fact_fields_same clone_body_same)
  then show ?thesis using failed added by blast
qed

lemma clone_rules_append:
  "clone_rules rs copy h = (Some copy', h') \<Longrightarrow> rules copy' = rules copy @ rs"
proof (induction rs arbitrary: copy h)
  case (Cons r rs)
  show ?case
    by (rule datalog_program_add_rule_cases [of copy "head r" "body r" h])
      (use Cons in \<open>auto split: if_splits\<close>)
qed simp

text \<open>The variables of the positive subgoals, of the head and of the negated subgoals.\<close>

definition vars_of :: "cstr option list \<Rightarrow> cstr set" where
  "vars_of xs = {v. Some v \<in> set xs \<and> is_var v}"

lemma vars_of_simps [simp]:
  "vars_of [] = {}"
  "vars_of (None # xs) = vars_of xs"
  "vars_of (Some v # xs) = (if is_var v then insert v (vars_of xs) else vars_of xs)"
  by (auto simp: vars_of_def)

definition positive_vars :: "datalog_rule \<Rightarrow> cstr set" where
  "positive_vars rule = (\<Union>b \<in> {b \<in> set (body rule). sf_negated b = None}. vars_of (fact_fields b))"

definition safe_rule :: "datalog_rule \<Rightarrow> bool" where
  "safe_rule rule \<longleftrightarrow>
     vars_of (fact_fields (head rule)) \<subseteq> positive_vars rule \<and>
     (\<forall>b \<in> set (body rule). sf_negated b \<noteq> None \<longrightarrow> vars_of (fact_fields b) \<subseteq> positive_vars rule)"

lemma collect_vars_set:
  "collect_vars xs list h = (True, list', h') \<Longrightarrow> set list' = set list \<union> vars_of xs"
proof (induction xs arbitrary: list h)
  case (Cons x xs)
  have v: "vars_of (x # xs) = (case x of Some v \<Rightarrow> if is_var v then {v} else {} | None \<Rightarrow> {}) \<union> vars_of xs"
    by (auto simp: vars_of_def split: option.splits)
  show ?case
  proof (cases "is_variable x")
    case True
    then obtain y where y: "x = Some y" "is_var y" by (auto simp: is_variable_def split: option.splits)
    obtain ok list1 h1 where a: "add_var_to_list list y h = (ok, list1, h1)"
      by (cases "add_var_to_list list y h")
    have "ok" "collect_vars xs list1 h1 = (True, list', h')"
      using Cons.prems y True a by (auto split: if_splits)
    moreover have "set list1 = insert y (set list)" if ok
      using a that by (auto simp: add_var_to_list_def split: if_splits prod.splits)
    ultimately show ?thesis using Cons.IH [of list1 h1] v y by auto
  next
    case False
    then have "collect_vars xs list h = (True, list', h')"
      using Cons.prems by (auto split: option.splits)
    with Cons.IH False v show ?thesis by (auto simp: is_variable_def split: option.splits)
  qed
qed (simp add: vars_of_def)

lemma field_bound_iff: "list_all (field_bound list) xs \<longleftrightarrow> vars_of xs \<subseteq> set list"
  by (auto simp: list_all_iff field_bound_def vars_of_def list_contains_def is_variable_def split: option.splits)

lemma vars_of_concat: "vars_of (concat (map fact_fields bs)) = (\<Union>b \<in> set bs. vars_of (fact_fields b))"
  by (auto simp: vars_of_def)

lemma datalog_rule_validate_iff:
  assumes "datalog_rule_validate rule h = (r, h')"
  shows "r = - 1 \<or> (r = 1 \<and> safe_rule rule) \<or> (r = 0 \<and> \<not> safe_rule rule)"
proof -
  let ?xs = "concat (map fact_fields (filter (\<lambda>b. sf_negated b = None) (body rule)))"
  obtain ok vs h1 where c: "collect_vars ?xs [] h = (ok, vs, h1)"
    by (cases "collect_vars ?xs [] h")
  show ?thesis
  proof (cases ok)
    case True
    then have "collect_vars ?xs [] h = (True, vs, h1)" using c by simp
    then have "set vs = positive_vars rule"
      using collect_vars_set [of ?xs "[]" h vs h1]
      by (simp add: vars_of_concat positive_vars_def)
    then have "(list_all (field_bound vs) (fact_fields (head rule)) \<and>
        list_all (\<lambda>b. sf_negated b \<noteq> None \<longrightarrow> list_all (field_bound vs) (fact_fields b)) (body rule))
      = safe_rule rule"
      unfolding field_bound_iff safe_rule_def by (simp add: list_all_iff)
    with assms c True show ?thesis
      by (simp add: datalog_rule_validate_def split: if_splits)
  next
    case False
    with assms c show ?thesis by (simp add: datalog_rule_validate_def)
  qed
qed

lemma finite_vars_of [simp]: "finite (vars_of xs)"
proof -
  have "vars_of xs \<subseteq> the ` set xs" by (force simp: vars_of_def)
  then show ?thesis by (rule finite_subset) simp
qed

text \<open>Each variable takes one allocation, when it is seen first.\<close>

lemma collect_vars_ok:
  "distinct list \<Longrightarrow> length list \<le> SIZE_MAX div 8 \<Longrightarrow> collect_vars xs list h = (ok, list', h') \<Longrightarrow>
   ok \<longleftrightarrow> card (set list \<union> vars_of xs) \<le> SIZE_MAX div 8 \<and> False \<notin> set (take (card (vars_of xs - set list)) h)"
proof (induction xs arbitrary: list h)
  case Nil
  then show ?case by (simp add: distinct_card)
next
  case (Cons x xs)
  show ?case
  proof (cases "\<exists>v. x = Some v \<and> is_var v")
    case False
    then have "vars_of (x # xs) = vars_of xs" "collect_vars xs list h = (ok, list', h')"
      using Cons.prems(3) by (auto simp: is_variable_def split: option.splits)
    with Cons.IH [OF Cons.prems(1,2)] show ?thesis by simp
  next
    case True
    then obtain v where v: "x = Some v" "is_var v" by blast
    have run: "(case add_var_to_list list v h of (b, l, g) \<Rightarrow> if b then collect_vars xs l g else (False, l, g)) = (ok, list', h')"
      using Cons.prems(3) v by (simp add: is_variable_def)
    let ?V = "vars_of xs"
    show ?thesis
    proof (cases "v \<in> set list")
      case True
      then have "add_var_to_list list v h = (True, list, h)" by (simp add: add_var_to_list_def)
      then have "collect_vars xs list h = (ok, list', h')" using run by simp
      from Cons.IH [OF Cons.prems(1,2) this] True v show ?thesis by (simp add: insert_absorb insert_Diff_if)
    next
      case new: False
      have n: "card (insert v ?V - set list) = Suc (card (?V - insert v (set list)))"
      proof -
        have "insert v ?V - set list = insert v (?V - insert v (set list))" using new by auto
        then show ?thesis by simp
      qed
      have len: "card (insert v (set list)) = Suc (length list)" using new Cons.prems(1) by (simp add: distinct_card)
      have more: "Suc (length list) \<le> card (set list \<union> insert v ?V)"
        unfolding len [symmetric] by (rule card_mono) auto
      show ?thesis
      proof (cases "length list = SIZE_MAX div 8")
        case True
        then have "\<not> ok" using run new by (auto simp: add_var_to_list_def)
        with more True v show ?thesis by simp
      next
        case False
        obtain b g where m: "malloc h = (b, g)" by (cases "malloc h")
        show ?thesis
        proof (cases b)
          case True
          then have "collect_vars xs (list @ [v]) g = (ok, list', h')"
            using run new False m by (auto simp: add_var_to_list_def)
          from Cons.IH [OF _ _ this] new Cons.prems(1,2) False
          have "ok \<longleftrightarrow> card (set list \<union> insert v ?V) \<le> SIZE_MAX div 8 \<and>
              False \<notin> set (take (card (?V - insert v (set list))) g)" by (simp add: Un_insert_right)
          moreover have "False \<in> set (take (Suc k) h) \<longleftrightarrow> False \<in> set (take k g)" for k
            using m True by (cases h) auto
          ultimately show ?thesis using v n by simp
        next
          case False
          then have "\<not> ok" using run new \<open>length list \<noteq> SIZE_MAX div 8\<close> m by (auto simp: add_var_to_list_def)
          moreover have "False \<in> set (take (Suc k) h)" for k using m False by (cases h) auto
          ultimately show ?thesis using v n by simp
        qed
      qed
    qed
  qed
qed

lemma datalog_rule_validate_eq:
  "fst (datalog_rule_validate rule h) =
     (if card (positive_vars rule) > SIZE_MAX div 8 \<or> False \<in> set (take (card (positive_vars rule)) h) then - 1
      else if safe_rule rule then 1 else 0)"
proof -
  let ?xs = "concat (map fact_fields (filter (\<lambda>b. sf_negated b = None) (body rule)))"
  obtain ok vs h1 where c: "collect_vars ?xs [] h = (ok, vs, h1)" by (cases "collect_vars ?xs [] h")
  have "vars_of ?xs = positive_vars rule" by (simp add: vars_of_concat positive_vars_def)
  with collect_vars_ok [OF _ _ c] have ok: "ok \<longleftrightarrow> card (positive_vars rule) \<le> SIZE_MAX div 8 \<and>
      False \<notin> set (take (card (positive_vars rule)) h)" by simp
  obtain r h' where r: "datalog_rule_validate rule h = (r, h')" by (cases "datalog_rule_validate rule h")
  have "r = - 1 \<longleftrightarrow> \<not> ok" using r c by (auto simp: datalog_rule_validate_def split: if_splits bool.splits)
  with datalog_rule_validate_iff [OF r] ok show ?thesis by (auto simp: r not_le)
qed

text \<open>With no allocation failure the check always decides.\<close>

lemma malloc_ok: "False \<notin> set h \<Longrightarrow> malloc h = (b, h') \<Longrightarrow> b \<and> False \<notin> set h'"
  by (cases h) auto

section \<open>Properties\<close>

text \<open>
  \<^verbatim>\<open>datalog_program_add_rule\<close> appends exactly the given rule, or, when an allocation fails, leaves
  the program as it was.
\<close>

theorem datalog_program_add_rule_atomic:
  "\<exists>r prog' h'. datalog_program_add_rule prog hd0 bd h = (r, prog', h') \<and>
     ((r = None \<and> prog' = prog) \<or>
      (r = Some (length (rules prog)) \<and> rules prog' = rules prog @ [\<lparr>head = hd0, body = bd\<rparr>]))"
  by (rule datalog_program_add_rule_cases [of prog hd0 bd h]) auto

text \<open>
  \<^verbatim>\<open>datalog_program_clone\<close>, when it returns a program, returns one with the same rules.
\<close>

theorem datalog_program_clone_same:
  assumes "datalog_program_clone (Some prog) h = (Some copy, h')"
  shows "copy = prog"
proof -
  from assms obtain c h1 where "new_datalog_program h = (Some c, h1)" "clone_rules (rules prog) c h1 = (Some copy, h')"
    by (auto simp: datalog_program_clone_def split: prod.splits option.splits)
  moreover from this(1) have "rules c = []"
    by (auto simp: new_datalog_program_def split: prod.splits if_splits)
  ultimately have "rules copy = rules prog" using clone_rules_append by fastforce
  then show ?thesis by simp
qed

definition ex_rule :: datalog_rule where
  "ex_rule = \<lparr>head = \<lparr>sf_s = Some ''?x'', sf_p = Some ''path'', sf_o = Some ''?y'', sf_negated = None\<rparr>,
     body = [\<lparr>sf_s = Some ''?x'', sf_p = Some ''edge'', sf_o = Some ''?y'', sf_negated = None\<rparr>]\<rparr>"

theorem datalog_program_clone_same_witness:
  "\<exists>h'. datalog_program_clone (Some \<lparr>rules = [ex_rule]\<rparr>) [] = (Some \<lparr>rules = [ex_rule]\<rparr>, h')"
proof -
  obtain c h' where c: "datalog_program_clone (Some \<lparr>rules = [ex_rule]\<rparr>) [] = (Some c, h')"
    by (simp add: datalog_program_clone_def new_datalog_program_def datalog_program_add_rule_def
        clone_spec_fact_fields_def strdup_def ex_rule_def)
  with datalog_program_clone_same [OF c] show ?thesis by simp
qed

text \<open>
  C36: \<^verbatim>\<open>datalog_rule_validate\<close> allocates once for each variable of the positive subgoals. When one of
  these allocations fails (or there are more variables than an array has room for) it returns \<^verbatim>\<open>-1\<close>;
  otherwise it returns 1 for a safe rule and 0 for an unsafe one, in which a variable of the head or
  of a negated subgoal is bound by no positive subgoal.
\<close>

theorem datalog_rule_validate_decides:
  "fst (datalog_rule_validate rule h) =
     (if card (positive_vars rule) > SIZE_MAX div 8 \<or> False \<in> set (take (card (positive_vars rule)) h) then - 1
      else if safe_rule rule then 1 else 0)"
  by (rule datalog_rule_validate_eq)

text \<open>The rule of the example has two variables; without its subgoal it is not safe.\<close>

theorem datalog_rule_validate_decides_witness:
  "fst (datalog_rule_validate ex_rule []) = 1 \<and> fst (datalog_rule_validate ex_rule [True, False]) = - 1 \<and>
   fst (datalog_rule_validate (ex_rule\<lparr>body := []\<rparr>) []) = 0"
proof -
  have v: "positive_vars ex_rule = {''?x'', ''?y''}" "positive_vars (ex_rule\<lparr>body := []\<rparr>) = {}"
    by (auto simp: positive_vars_def ex_rule_def fact_fields_def is_var_def)
  have s: "safe_rule ex_rule" "\<not> safe_rule (ex_rule\<lparr>body := []\<rparr>)"
    unfolding safe_rule_def v by (auto simp: ex_rule_def fact_fields_def is_var_def)
  show ?thesis using s by (simp add: datalog_rule_validate_decides v)
qed

end
