(* ===== verification/Rule_Parser.thy ===== *)
theory Rule_Parser
  imports Rules
begin

text \<open>
  The rule parser of \<^verbatim>\<open>lib/rule.c\<close>: the lexer, the array of tokens and the recursive-descent
  parser over positions in it. The text is the list of its characters; the moving pointer
  \<^verbatim>\<open>*p\<close> is the rest of the text.
\<close>

section \<open>Tokens\<close>

datatype e_rule_token =
  RULE_TOK_VAR | RULE_TOK_CONST | RULE_TOK_TURNSTILE | RULE_TOK_COMMA | RULE_TOK_DOT | RULE_TOK_NOT
  | RULE_TOK_LPAREN | RULE_TOK_RPAREN | RULE_TOK_EOF | RULE_TOK_ERROR

record rule_token =
  tok_type :: e_rule_token
  tok_value :: "cstr option"

definition is_space :: "char \<Rightarrow> bool" where
  "is_space c \<longleftrightarrow> c = CHR '' '' \<or> c = CHR 0x09 \<or> c = CHR 0x0D \<or> c = CHR 0x0A"

definition is_word :: "char \<Rightarrow> bool" where
  "is_word c \<longleftrightarrow>
     (CHR ''a'' \<le> c \<and> c \<le> CHR ''z'') \<or> (CHR ''A'' \<le> c \<and> c \<le> CHR ''Z'') \<or>
     (CHR ''0'' \<le> c \<and> c \<le> CHR ''9'') \<or> c = CHR ''_''"

definition is_bare :: "char \<Rightarrow> bool" where
  "is_bare c \<longleftrightarrow> is_word c \<or> c = CHR '':'' \<or> c = CHR ''-''"

text \<open>\<^verbatim>\<open>strcasecmp(a, b) == 0\<close> in the C locale.\<close>

definition to_lower :: "char \<Rightarrow> char" where
  "to_lower c = (if CHR ''A'' \<le> c \<and> c \<le> CHR ''Z'' then char_of (of_char c + 32 :: nat) else c)"

definition strcase_eq :: "cstr \<Rightarrow> cstr \<Rightarrow> bool" where
  "strcase_eq a b \<longleftrightarrow> map to_lower a = map to_lower b"

definition alloc_token :: "e_rule_token \<Rightarrow> cstr \<Rightarrow> cstr \<Rightarrow> mem \<Rightarrow> rule_token \<times> cstr \<times> mem" where
  "alloc_token ty val rest h =
     (let (ok, h') = malloc h in
      (if ok then \<lparr>tok_type = ty, tok_value = Some val\<rparr> else \<lparr>tok_type = RULE_TOK_ERROR, tok_value = None\<rparr>,
       rest, h'))"

text \<open>A constant up to the closing character \<open>q\<close>, after the opening one.\<close>

definition quoted_token :: "char \<Rightarrow> cstr \<Rightarrow> mem \<Rightarrow> rule_token \<times> cstr \<times> mem" where
  "quoted_token q p h =
     (case dropWhile (\<lambda>c. c \<noteq> q) p of
        [] \<Rightarrow> (\<lparr>tok_type = RULE_TOK_ERROR, tok_value = None\<rparr>, [], h)
      | _ # rest \<Rightarrow> alloc_token RULE_TOK_CONST (takeWhile (\<lambda>c. c \<noteq> q) p) rest h)"

definition next_rule_token :: "cstr \<Rightarrow> mem \<Rightarrow> rule_token \<times> cstr \<times> mem" where
  "next_rule_token p0 h =
     (let p = dropWhile is_space p0 in
      case p of
        [] \<Rightarrow> (\<lparr>tok_type = RULE_TOK_EOF, tok_value = None\<rparr>, [], h)
      | c # r \<Rightarrow>
          if c = CHR '':'' \<and> first_is (CHR ''-'') r then alloc_token RULE_TOK_TURNSTILE '':-'' (tl r) h
          else if c = CHR '','' then alloc_token RULE_TOK_COMMA '','' r h
          else if c = CHR ''.'' then alloc_token RULE_TOK_DOT ''.'' r h
          else if c = CHR ''('' then alloc_token RULE_TOK_LPAREN ''('' r h
          else if c = CHR '')'' then alloc_token RULE_TOK_RPAREN '')'' r h
          else if c = CHR ''?'' then alloc_token RULE_TOK_VAR (c # takeWhile is_word r) (dropWhile is_word r) h
          else if c = CHR ''<'' then quoted_token (CHR ''>'') r h
          else if c = CHR 0x22 then quoted_token (CHR 0x22) r h
          else let w = takeWhile is_bare p in
            if w \<noteq> [] then
              alloc_token (if strcase_eq w ''NOT'' then RULE_TOK_NOT else RULE_TOK_CONST) w (dropWhile is_bare p) h
            else (\<lparr>tok_type = RULE_TOK_ERROR, tok_value = None\<rparr>, p, h))"

text \<open>Every token but the end and an error consumes text.\<close>

lemma length_dropWhile_less: "length (dropWhile P xs) \<le> length xs"
  by (rule length_dropWhile_le)

lemma alloc_token_rest [simp]: "fst (snd (alloc_token ty v r h)) = r"
  by (simp add: alloc_token_def split: prod.split)

lemma quoted_token_rest: "length (fst (snd (quoted_token q p h))) \<le> length p"
proof (cases "dropWhile (\<lambda>c. c \<noteq> q) p")
  case (Cons x rest)
  then have "length rest < length p"
    using length_dropWhile_le [of "\<lambda>c. c \<noteq> q" p] by simp
  with Cons show ?thesis by (simp add: quoted_token_def)
next
  case Nil
  show ?thesis unfolding quoted_token_def Nil by simp
qed

lemma next_rule_token_progress:
  assumes "next_rule_token p h = (t, p', h')" "tok_type t \<noteq> RULE_TOK_EOF" "tok_type t \<noteq> RULE_TOK_ERROR"
  shows "length p' < length p"
proof (cases "dropWhile is_space p")
  case Nil
  with assms show ?thesis by (auto simp: next_rule_token_def)
next
  case (Cons c r)
  have r: "Suc (length r) \<le> length p" using length_dropWhile_le [of is_space p] Cons by simp
  have w: "length (dropWhile is_word r) \<le> length r" by (rule length_dropWhile_le)
  have b: "length (dropWhile is_bare (c # r)) \<le> length r" if "takeWhile is_bare (c # r) \<noteq> []"
    using that length_dropWhile_le [of is_bare r] by (simp split: if_splits)
  have t: "length (tl r) \<le> length r" by simp
  have q: "length (fst (snd (quoted_token x r h))) \<le> length r" for x by (rule quoted_token_rest)
  have "tok_type (fst (next_rule_token p h)) = RULE_TOK_ERROR \<or>
      length (fst (snd (next_rule_token p h))) \<le> length r"
    unfolding next_rule_token_def Cons Let_def list.case
    by (split if_split, rule conjI, rule impI, simp add: t w q, rule impI)+ (use b in simp)
  with assms have "length p' \<le> length r" by simp
  with r show ?thesis by linarith
qed

section \<open>The array of tokens\<close>

function lex_loop :: "cstr \<Rightarrow> rule_token list \<Rightarrow> nat \<Rightarrow> mem \<Rightarrow> rule_token list option \<times> mem" where
  "lex_loop p toks cap h =
     (case next_rule_token p h of
        (tok, p', h1) \<Rightarrow>
          (case (if length toks \<ge> cap then
                   (if cap > SIZE_MAX div 2 \<or> cap * 2 > SIZE_MAX div 16 then (False, cap, h1)
                    else let (ok, h2) = malloc h1 in (ok, cap * 2, h2))
                 else (True, cap, h1)) of
             (ok, cap', h2) \<Rightarrow>
               if \<not> ok then (None, h2)
               else if tok_type tok = RULE_TOK_EOF then (Some (toks @ [tok]), h2)
               else if tok_type tok = RULE_TOK_ERROR then (None, h2)
               else lex_loop p' (toks @ [tok]) cap' h2))"
  by pat_completeness auto
termination
  by (relation "measure (\<lambda>(p, toks, cap, h). length p)") (auto intro: next_rule_token_progress [OF sym])

declare lex_loop.simps [simp del]

section \<open>The parser\<close>

definition is_tok :: "rule_token list \<Rightarrow> nat \<Rightarrow> e_rule_token \<Rightarrow> bool" where
  "is_tok toks pos ty \<longleftrightarrow> pos < length toks \<and> tok_type (toks ! pos) = ty"

definition rule_token_is_term :: "rule_token list \<Rightarrow> nat \<Rightarrow> bool" where
  "rule_token_is_term toks pos \<longleftrightarrow>
     pos < length toks \<and> (tok_type (toks ! pos) = RULE_TOK_VAR \<or> tok_type (toks ! pos) = RULE_TOK_CONST)"

text \<open>Three terms from \<open>pos\<close> on.\<close>

definition parse_terms :: "rule_token list \<Rightarrow> nat \<Rightarrow> (cstr option \<times> cstr option \<times> cstr option) option" where
  "parse_terms toks pos =
     (if rule_token_is_term toks pos \<and> rule_token_is_term toks (pos + 1) \<and> rule_token_is_term toks (pos + 2)
      then Some (tok_value (toks ! pos), tok_value (toks ! (pos + 1)), tok_value (toks ! (pos + 2)))
      else None)"

text \<open>
  One subgoal from \<open>pos\<close> on: the body with it appended, the position after it and the capacity
  of the body's array; \<open>None\<close> is a parse error.
\<close>

definition parse_subgoal ::
  "rule_token list \<Rightarrow> nat \<Rightarrow> spec_fact list \<Rightarrow> nat \<Rightarrow> mem \<Rightarrow> (spec_fact list \<times> nat \<times> nat) option \<times> mem" where
  "parse_subgoal toks pos bd cap h =
     (let negated = is_tok toks pos RULE_TOK_NOT;
          pos1 = (if negated then (if is_tok toks (pos + 1) RULE_TOK_LPAREN then pos + 2 else pos + 1) else pos)
      in case parse_terms toks pos1 of
           None \<Rightarrow> (None, h)
         | Some (s, p, ob) \<Rightarrow>
             (let pos2 = pos1 + 3;
                  paren = (negated \<and> pos2 > 4 \<and> tok_type (toks ! (pos2 - 4)) = RULE_TOK_LPAREN)
              in if paren \<and> \<not> is_tok toks pos2 RULE_TOK_RPAREN then (None, h)
                 else
                   (let pos3 = (if paren then pos2 + 1 else pos2);
                        (ok, h1) = (if length bd \<ge> cap then malloc h else (True, h));
                        cap' = (if length bd \<ge> cap then cap * 2 else cap)
                    in if \<not> ok then (None, h1)
                       else (Some (bd @ [\<lparr>sf_s = s, sf_p = p, sf_o = ob,
                                           sf_negated = (if negated then Some '':not'' else None)\<rparr>],
                                   pos3, cap'), h1))))"

lemma parse_subgoal_progress:
  "parse_subgoal toks pos bd cap h = (Some (bd', pos', cap'), h') \<Longrightarrow> pos < pos'"
  by (auto simp: parse_subgoal_def Let_def split: option.splits prod.splits if_splits)

function parse_body ::
  "rule_token list \<Rightarrow> nat \<Rightarrow> spec_fact list \<Rightarrow> nat \<Rightarrow> mem \<Rightarrow> (spec_fact list \<times> nat) option \<times> mem" where
  "parse_body toks pos bd cap h =
     (case parse_subgoal toks pos bd cap h of
        (None, h1) \<Rightarrow> (None, h1)
      | (Some (bd', pos', cap'), h1) \<Rightarrow>
          if is_tok toks pos' RULE_TOK_COMMA then parse_body toks (pos' + 1) bd' cap' h1
          else if is_tok toks pos' RULE_TOK_DOT then (Some (bd', pos' + 1), h1)
          else (None, h1))"
  by pat_completeness auto
termination
  by (relation "measure (\<lambda>(toks, pos, bd, cap, h). length toks - pos)")
    (auto simp: is_tok_def dest!: sym [of _ "parse_subgoal _ _ _ _ _"] parse_subgoal_progress)

declare parse_body.simps [simp del]

lemma parse_body_progress: "parse_body toks pos bd cap h = (Some (bd', pos'), h') \<Longrightarrow> pos < pos'"
proof (induction toks pos bd cap h rule: parse_body.induct)
  case (1 toks pos bd cap h)
  obtain r h1 where s: "parse_subgoal toks pos bd cap h = (r, h1)" by (cases "parse_subgoal toks pos bd cap h")
  with "1.prems" obtain bd1 pos1 cap1 where r: "r = Some (bd1, pos1, cap1)"
    by (subst (asm) parse_body.simps) (auto split: option.splits)
  note less = parse_subgoal_progress [OF s [unfolded r]]
  show ?case
  proof (cases "is_tok toks pos1 RULE_TOK_COMMA")
    case True
    then have "parse_body toks (pos1 + 1) bd1 cap1 h1 = (Some (bd', pos'), h')"
      using "1.prems" s r by (subst (asm) parse_body.simps) simp
    from "1.IH" [OF s [unfolded r, symmetric] refl refl refl True this] less show ?thesis by simp
  next
    case False
    then have "pos' = pos1 + 1"
      using "1.prems" s r by (subst (asm) parse_body.simps) (simp split: if_splits)
    with less show ?thesis by simp
  qed
qed

text \<open>
  The loop over the rules. The result is whether all was parsed; an error leaves the rules
  added so far, which the caller drops.
\<close>

function parse_loop :: "rule_token list \<Rightarrow> nat \<Rightarrow> datalog_program \<Rightarrow> mem \<Rightarrow> bool \<times> datalog_program \<times> mem" where
  "parse_loop toks pos prog h =
     (if pos < length toks \<and> tok_type (toks ! pos) \<noteq> RULE_TOK_EOF then
        (case parse_terms toks pos of
           None \<Rightarrow> (False, prog, h)
         | Some (s, p, ob) \<Rightarrow>
             if \<not> is_tok toks (pos + 3) RULE_TOK_TURNSTILE then (False, prog, h)
             else
               (case malloc h of
                  (False, h1) \<Rightarrow> (False, prog, h1)
                | (True, h1) \<Rightarrow>
                    (case parse_body toks (pos + 4) [] 4 h1 of
                       (None, h2) \<Rightarrow> (False, prog, h2)
                     | (Some (bd, pos'), h2) \<Rightarrow>
                         (let hd0 = \<lparr>sf_s = s, sf_p = p, sf_o = ob, sf_negated = None\<rparr> in
                          case datalog_rule_validate \<lparr>head = hd0, body = bd\<rparr> h2 of
                            (v, h3) \<Rightarrow>
                              if v \<noteq> 1 then (False, prog, h3)
                              else (case datalog_program_add_rule prog hd0 bd h3 of
                                      (None, prog', h4) \<Rightarrow> (False, prog', h4)
                                    | (Some _, prog', h4) \<Rightarrow> parse_loop toks pos' prog' h4)))))
      else (pos < length toks, prog, h))"
  by pat_completeness auto
termination
  by (relation "measure (\<lambda>(toks, pos, prog, h). length toks - pos)")
    (auto dest!: sym [of _ "parse_body _ _ _ _ _"] parse_body_progress)

declare parse_loop.simps [simp del]

definition datalog_program_parse_rules :: "datalog_program \<Rightarrow> cstr \<Rightarrow> mem \<Rightarrow> int \<times> datalog_program \<times> mem" where
  "datalog_program_parse_rules prog txt h =
     (let original_rule_count = length (rules prog) in
      case malloc h of
        (False, h1) \<Rightarrow> (- 1, prog, h1)
      | (True, h1) \<Rightarrow>
          (case lex_loop txt [] 16 h1 of
             (None, h2) \<Rightarrow> (- 1, prog, h2)
           | (Some toks, h2) \<Rightarrow>
               (case parse_loop toks 0 prog h2 of
                  (True, prog', h3) \<Rightarrow> (0, prog', h3)
                | (False, prog', h3) \<Rightarrow> (- 1, datalog_program_truncate prog' original_rule_count, h3))))"

section \<open>All or nothing\<close>

lemma parse_loop_appends:
  "parse_loop toks pos prog h = (ok, prog', h') \<Longrightarrow>
   \<exists>rs. rules prog' = rules prog @ rs \<and> (\<forall>r \<in> set rs. safe_rule r)"
proof (induction toks pos prog h rule: parse_loop.induct)
  case (1 toks pos prog h)
  show ?case
  proof (cases "pos < length toks \<and> tok_type (toks ! pos) \<noteq> RULE_TOK_EOF")
    case more: True
    show ?thesis
    proof (cases "parse_terms toks pos")
      case None
      with "1.prems" more show ?thesis by (subst (asm) parse_loop.simps) simp
    next
      case (Some t)
      obtain s p ob where t: "t = (s, p, ob)" by (cases t)
      obtain okm h1 where m: "malloc h = (okm, h1)" by (cases "malloc h")
      obtain b h2 where b: "parse_body toks (pos + 4) [] 4 h1 = (b, h2)"
        by (cases "parse_body toks (pos + 4) [] 4 h1")
      show ?thesis
      proof (cases "is_tok toks (pos + 3) RULE_TOK_TURNSTILE \<and> okm \<and> b \<noteq> None")
        case False
        with "1.prems" more Some t m b show ?thesis
          by (subst (asm) parse_loop.simps) (cases okm; cases b; simp split: if_splits)
      next
        case True
        then obtain bd pos' where bd: "b = Some (bd, pos')" by (cases b) auto
        let ?hd = "\<lparr>sf_s = s, sf_p = p, sf_o = ob, sf_negated = None\<rparr>"
        obtain v h3 where v: "datalog_rule_validate \<lparr>head = ?hd, body = bd\<rparr> h2 = (v, h3)"
          by (cases "datalog_rule_validate \<lparr>head = ?hd, body = bd\<rparr> h2")
        obtain a prog1 h4 where a: "datalog_program_add_rule prog ?hd bd h3 = (a, prog1, h4)"
          by (cases "datalog_program_add_rule prog ?hd bd h3")
        have step: "parse_loop toks pos prog h =
          (if v \<noteq> 1 then (False, prog, h3) else if a = None then (False, prog1, h4) else parse_loop toks pos' prog1 h4)"
          using more Some t m b True bd v a by (subst parse_loop.simps) (auto split: option.split)
        show ?thesis
        proof (cases "v = 1 \<and> a \<noteq> None")
          case False
          have "prog1 = prog" if "a = None"
            using datalog_program_add_rule_cases [of prog ?hd bd h3] a that by (metis Pair_inject option.distinct(1))
          with False step "1.prems" show ?thesis by (auto split: if_splits)
        next
          case ok: True
          then obtain n where n: "a = Some n" by blast
          have safe: "safe_rule \<lparr>head = ?hd, body = bd\<rparr>"
            using datalog_rule_validate_iff [OF v] ok by simp
          have prog1: "rules prog1 = rules prog @ [\<lparr>head = ?hd, body = bd\<rparr>]"
            by (rule datalog_program_add_rule_cases [of prog ?hd bd h3]) (use a ok in auto)
          have "parse_loop toks pos' prog1 h4 = (ok, prog', h')" using step ok "1.prems" by simp
          have tn: "\<not> \<not> is_tok toks (pos + 3) RULE_TOK_TURNSTILE" and okm: "okm = True" using True by simp_all
          from "1.IH" [OF more Some [unfolded t] refl refl tn m [symmetric, unfolded okm] _ b [symmetric, unfolded bd] refl refl refl v [symmetric] _ a [symmetric, unfolded n]]
          show ?thesis
            using step ok "1.prems" prog1 safe by fastforce
        qed
      qed
    qed
  next
    case False
    with "1.prems" show ?thesis by (subst (asm) parse_loop.simps) auto
  qed
qed

end
