(* ===== verification/Rule_Roundtrip.thy ===== *)
theory Rule_Roundtrip
  imports Rule_Parser
begin

text \<open>
  The rule parser reads back what \<^verbatim>\<open>datalog_program_print\<close> writes: first the lexer on the printed
  text, then the parser on the tokens, then the two together.
\<close>

section \<open>Printable rules\<close>

definition term_ok :: "cstr \<Rightarrow> bool" where
  "term_ok s \<longleftrightarrow>
     (\<exists>w. s = CHR ''?'' # w \<and> list_all is_word w) \<or>
     (s \<noteq> [] \<and> list_all is_bare s \<and> \<not> strcase_eq s ''NOT'' \<and> take 2 s \<noteq> '':-'')"

definition fact_ok :: "spec_fact \<Rightarrow> bool" where
  "fact_ok f \<longleftrightarrow>
     (\<exists>s p ob. sf_s f = Some s \<and> sf_p f = Some p \<and> sf_o f = Some ob \<and> term_ok s \<and> term_ok ob \<and> CHR ''>'' \<notin> set p)
     \<and> (sf_negated f = None \<or> sf_negated f = Some '':not'')"

definition rule_ok :: "datalog_rule \<Rightarrow> bool" where
  "rule_ok r \<longleftrightarrow>
     fact_ok (head r) \<and> sf_negated (head r) = None \<and> body r \<noteq> [] \<and> (\<forall>b \<in> set (body r). fact_ok b) \<and> safe_rule r"

section \<open>Tokens of the printed form\<close>

definition T :: "e_rule_token \<Rightarrow> cstr \<Rightarrow> rule_token" where
  "T ty v = \<lparr>tok_type = ty, tok_value = Some v\<rparr>"

lemma T_simps [simp]: "tok_type (T ty v) = ty" "tok_value (T ty v) = Some v"
  by (simp_all add: T_def)

definition term_tok :: "cstr \<Rightarrow> rule_token" where
  "term_tok s = T (if is_var s then RULE_TOK_VAR else RULE_TOK_CONST) s"

lemma term_tok_simps [simp]:
  "tok_value (term_tok s) = Some s" "tok_type (term_tok s) = RULE_TOK_VAR \<or> tok_type (term_tok s) = RULE_TOK_CONST"
  by (simp_all add: term_tok_def)

definition fact_toks :: "spec_fact \<Rightarrow> rule_token list" where
  "fact_toks f = [term_tok (the (sf_s f)), T RULE_TOK_CONST (the (sf_p f)), term_tok (the (sf_o f))]"

definition sub_toks :: "spec_fact \<Rightarrow> rule_token list" where
  "sub_toks f =
     (if sf_negated f \<noteq> None
      then T RULE_TOK_NOT ''NOT'' # T RULE_TOK_LPAREN ''('' # fact_toks f @ [T RULE_TOK_RPAREN '')'']
      else fact_toks f)"

fun body_toks :: "spec_fact list \<Rightarrow> rule_token list" where
  "body_toks [] = []"
| "body_toks [f] = sub_toks f"
| "body_toks (f # fs) = sub_toks f @ T RULE_TOK_COMMA '','' # body_toks fs"

definition rule_toks :: "datalog_rule \<Rightarrow> rule_token list" where
  "rule_toks r =
     fact_toks (head r) @ T RULE_TOK_TURNSTILE '':-'' # body_toks (body r) @ [T RULE_TOK_DOT ''.'']"

section \<open>The lexer on the printed form\<close>

fun lexes :: "cstr \<Rightarrow> rule_token list \<Rightarrow> cstr \<Rightarrow> bool" where
  "lexes p [] q \<longleftrightarrow> p = q"
| "lexes p (t # ts) q \<longleftrightarrow>
     (\<exists>p'. next_rule_token p [] = (t, p', []) \<and> tok_type t \<noteq> RULE_TOK_EOF \<and> tok_type t \<noteq> RULE_TOK_ERROR
        \<and> lexes p' ts q)"

lemma lexes_append: "lexes p ts q \<Longrightarrow> lexes q us r \<Longrightarrow> lexes p (ts @ us) r"
  by (induction ts arbitrary: p) auto

lemma lexes_one:
  "next_rule_token p [] = (t, q, []) \<Longrightarrow> tok_type t \<noteq> RULE_TOK_EOF \<Longrightarrow> tok_type t \<noteq> RULE_TOK_ERROR \<Longrightarrow>
   lexes p [t] q"
  by simp

lemma next_rule_token_space: "is_space c \<Longrightarrow> next_rule_token (c # p) h = next_rule_token p h"
  by (simp add: next_rule_token_def)

lemma lexes_space: "is_space c \<Longrightarrow> ts \<noteq> [] \<Longrightarrow> lexes p ts q \<Longrightarrow> lexes (c # p) ts q"
  by (cases ts) (simp_all add: next_rule_token_space)

lemma lexes_length: "lexes p ts q \<Longrightarrow> length ts + length q \<le> length p"
proof (induction ts arbitrary: p)
  case (Cons t ts)
  then obtain p' where "next_rule_token p [] = (t, p', [])" "tok_type t \<noteq> RULE_TOK_EOF"
    "tok_type t \<noteq> RULE_TOK_ERROR" "lexes p' ts q" by auto
  with next_rule_token_progress [OF this(1-3)] Cons.IH [of p'] show ?case by simp
qed simp

lemma space_simps [simp]: "is_space (CHR '' '')" "is_space (CHR 0x0A)"
  by (simp_all add: is_space_def)

lemma word_not_space: "is_word c \<Longrightarrow> \<not> is_space c"
  by (auto simp: is_word_def is_space_def less_eq_char_def)

lemma bare_not_space: "is_bare c \<Longrightarrow> \<not> is_space c"
  by (auto simp: is_bare_def is_space_def is_word_def less_eq_char_def)

lemma bare_not_special:
  "is_bare c \<Longrightarrow> c \<noteq> CHR '','' \<and> c \<noteq> CHR ''.'' \<and> c \<noteq> CHR ''('' \<and> c \<noteq> CHR '')'' \<and> c \<noteq> CHR ''?''
     \<and> c \<noteq> CHR ''<'' \<and> c \<noteq> CHR 0x22"
  by (auto simp: is_bare_def is_word_def less_eq_char_def)

lemma word_bare: "is_word c \<Longrightarrow> is_bare c"
  by (simp add: is_bare_def)

lemma span_word:
  assumes "list_all P w" "\<not> P c"
  shows "takeWhile P (w @ c # r) = w" "dropWhile P (w @ c # r) = c # r"
  using assms by (induction w) auto

lemma next_term:
  assumes "term_ok s" "\<not> is_bare c"
  shows "next_rule_token (s @ c # r) [] = (term_tok s, c # r, [])"
proof (cases "is_var s")
  case True
  then obtain w where s: "s = CHR ''?'' # w" by (cases s) auto
  with assms(1) have w: "list_all is_word w"
    by (auto simp: term_ok_def is_bare_def is_word_def less_eq_char_def)
  have "\<not> is_word c" using assms(2) word_bare by blast
  from span_word [OF w this] show ?thesis
    by (simp add: s next_rule_token_def is_space_def alloc_token_def term_tok_def T_def)
next
  case False
  then have bare: "s \<noteq> []" "list_all is_bare s" "\<not> strcase_eq s ''NOT''" "take 2 s \<noteq> '':-''"
    using assms(1) by (auto simp: term_ok_def)
  then obtain x w where s: "s = x # w" "is_bare x" by (cases s) auto
  have sp: "\<not> is_space x" "dropWhile is_space (s @ c # r) = x # w @ c # r"
    using bare_not_space [OF s(2)] by (simp_all add: s(1))
  have not_turn: "\<not> (x = CHR '':'' \<and> first_is (CHR ''-'') (w @ c # r))"
  proof
    assume a: "x = CHR '':'' \<and> first_is (CHR ''-'') (w @ c # r)"
    show False
    proof (cases w)
      case Nil
      with a assms(2) show False by (simp add: is_bare_def)
    next
      case (Cons y ys)
      with a bare(4) s(1) show False by simp
    qed
  qed
  have span: "takeWhile is_bare (x # w @ c # r) = s" "dropWhile is_bare (x # w @ c # r) = c # r"
    using span_word [OF bare(2) assms(2), of r] by (simp_all add: s(1))
  show ?thesis
    unfolding next_rule_token_def sp(2) Let_def list.case span
    using not_turn bare_not_special [OF s(2)] bare False
    by (simp add: alloc_token_def term_tok_def T_def)
qed

lemma next_pred:
  assumes "CHR ''>'' \<notin> set p"
  shows "next_rule_token (CHR ''<'' # p @ CHR ''>'' # r) [] = (T RULE_TOK_CONST p, r, [])"
proof -
  have "list_all (\<lambda>c. c \<noteq> CHR ''>'') p" using assms by (auto simp: list_all_iff)
  from span_word [OF this, of "CHR ''>''" r]
  have "takeWhile (\<lambda>c. c \<noteq> CHR ''>'') (p @ CHR ''>'' # r) = p"
    "dropWhile (\<lambda>c. c \<noteq> CHR ''>'') (p @ CHR ''>'' # r) = CHR ''>'' # r" by simp_all
  then show ?thesis
    by (simp add: next_rule_token_def is_space_def quoted_token_def alloc_token_def T_def)
qed

lemma next_fixed:
  "next_rule_token ('':-'' @ r) [] = (T RULE_TOK_TURNSTILE '':-'', r, [])"
  "next_rule_token (CHR '','' # r) [] = (T RULE_TOK_COMMA '','', r, [])"
  "next_rule_token (CHR ''.'' # r) [] = (T RULE_TOK_DOT ''.'', r, [])"
  "next_rule_token (CHR ''('' # r) [] = (T RULE_TOK_LPAREN ''('', r, [])"
  "next_rule_token (CHR '')'' # r) [] = (T RULE_TOK_RPAREN '')'', r, [])"
  by (simp_all add: next_rule_token_def is_space_def alloc_token_def T_def)

lemma next_not:
  "next_rule_token (''NOT'' @ CHR ''('' # r) [] = (T RULE_TOK_NOT ''NOT'', CHR ''('' # r, [])"
proof -
  have bare: "list_all is_bare ''NOT''" "\<not> is_bare (CHR ''('')"
    by (simp_all add: is_bare_def is_word_def less_eq_char_def)
  have sp: "dropWhile is_space (''NOT'' @ CHR ''('' # r) = ''NOT'' @ CHR ''('' # r"
    by (simp add: is_space_def)
  have cons: "''NOT'' @ CHR ''('' # r = CHR ''N'' # ''OT'' @ CHR ''('' # r" by simp
  show ?thesis
    unfolding next_rule_token_def sp Let_def span_word [OF bare]
    unfolding cons list.case by (simp add: alloc_token_def T_def strcase_eq_def)
qed

lemma not_bare [simp]: "\<not> is_bare (CHR '' '')" "\<not> is_bare (CHR '','')"
  by (simp_all add: is_bare_def is_word_def less_eq_char_def)

lemma fact_okD:
  assumes "fact_ok f"
  obtains s p ob where "sf_s f = Some s" "sf_p f = Some p" "sf_o f = Some ob" "term_ok s" "term_ok ob"
    "CHR ''>'' \<notin> set p" "print_triple f = Some (s @ '' <'' @ p @ ''> '' @ ob)"
  using assms by (auto simp: fact_ok_def print_triple_def)

lemma lexes_triple:
  assumes "fact_ok f" "print_triple f = Some t" "\<not> is_bare c"
  shows "lexes (t @ c # r) (fact_toks f) (c # r)"
proof -
  from assms(1) obtain s p ob where f: "sf_s f = Some s" "sf_p f = Some p" "sf_o f = Some ob" "term_ok s"
    "term_ok ob" "CHR ''>'' \<notin> set p" "print_triple f = Some (s @ '' <'' @ p @ ''> '' @ ob)"
    by (rule fact_okD)
  have t: "t @ c # r = s @ CHR '' '' # (CHR ''<'' # p @ CHR ''>'' # (CHR '' '' # ob @ c # r))"
    using assms(2) f(7) by simp
  have ne: "tok_type (term_tok x) \<noteq> RULE_TOK_EOF" "tok_type (term_tok x) \<noteq> RULE_TOK_ERROR" for x
    by (simp_all add: term_tok_def)
  let ?q2 = "CHR '' '' # ob @ c # r"
  let ?q1 = "CHR '' '' # CHR ''<'' # p @ CHR ''>'' # ?q2"
  have "lexes (ob @ c # r) [term_tok ob] (c # r)"
    by (rule lexes_one [OF next_term [OF f(5) assms(3)] ne])
  then have l3: "lexes ?q2 [term_tok ob] (c # r)" by (rule lexes_space [rotated 2]) simp_all
  have "lexes (CHR ''<'' # p @ CHR ''>'' # ?q2) [T RULE_TOK_CONST p] ?q2"
    by (rule lexes_one [OF next_pred [OF f(6)]]) simp_all
  then have l2: "lexes ?q1 [T RULE_TOK_CONST p] ?q2" by (rule lexes_space [rotated 2]) simp_all
  have l1: "lexes (s @ ?q1) [term_tok s] ?q1"
    by (rule lexes_one [OF next_term [OF f(4)] ne]) simp
  have "lexes (t @ c # r) ([term_tok s] @ [T RULE_TOK_CONST p] @ [term_tok ob]) (c # r)"
    unfolding t by (rule lexes_append [OF l1 lexes_append [OF l2 l3]])
  then show ?thesis using f by (simp add: fact_toks_def)
qed

lemma lexes_subgoal:
  assumes "fact_ok f" "print_subgoal f = Some t" "\<not> is_bare c"
  shows "lexes (t @ c # r) (sub_toks f) (c # r)"
proof -
  from assms(1) obtain u where u: "print_triple f = Some u" by (rule fact_okD) simp
  show ?thesis
  proof (cases "sf_negated f = None")
    case True
    with assms u lexes_triple [OF assms(1) u assms(3)] show ?thesis
      by (simp add: print_subgoal_def sub_toks_def)
  next
    case False
    let ?q = "CHR '' '' # CHR '')'' # c # r"
    have t: "t @ c # r = ''NOT'' @ CHR ''('' # CHR '' '' # u @ ?q"
      using assms(2) u False by (simp add: print_subgoal_def)
    have l1: "lexes (''NOT'' @ CHR ''('' # CHR '' '' # u @ ?q) [T RULE_TOK_NOT ''NOT''] (CHR ''('' # CHR '' '' # u @ ?q)"
      by (rule lexes_one [OF next_not]) simp_all
    have l2: "lexes (CHR ''('' # CHR '' '' # u @ ?q) [T RULE_TOK_LPAREN ''(''] (CHR '' '' # u @ ?q)"
      by (rule lexes_one [OF next_fixed(4)]) simp_all
    have l3: "lexes (CHR '' '' # u @ ?q) (fact_toks f) ?q"
      by (rule lexes_space [OF _ _ lexes_triple [OF assms(1) u]]) (simp_all add: fact_toks_def)
    have "lexes (CHR '')'' # c # r) [T RULE_TOK_RPAREN '')''] (c # r)"
      by (rule lexes_one [OF next_fixed(5)]) simp_all
    then have l4: "lexes ?q [T RULE_TOK_RPAREN '')''] (c # r)" by (rule lexes_space [rotated 2]) simp_all
    have "lexes (t @ c # r) ([T RULE_TOK_NOT ''NOT''] @ [T RULE_TOK_LPAREN ''(''] @ fact_toks f @ [T RULE_TOK_RPAREN '')'']) (c # r)"
      unfolding t by (rule lexes_append [OF l1 lexes_append [OF l2 lexes_append [OF l3 l4]]])
    then show ?thesis using False by (simp add: sub_toks_def)
  qed
qed

lemma sub_toks_ne: "sub_toks f \<noteq> []"
  by (simp add: sub_toks_def fact_toks_def)

lemma body_toks_ne: "fs \<noteq> [] \<Longrightarrow> body_toks fs \<noteq> []"
  by (cases fs rule: body_toks.cases) (auto simp: sub_toks_ne)

lemma lexes_body:
  "fs \<noteq> [] \<Longrightarrow> \<forall>f \<in> set fs. fact_ok f \<Longrightarrow> print_body fs = Some t \<Longrightarrow> \<not> is_bare c \<Longrightarrow>
   lexes (t @ c # r) (body_toks fs) (c # r)"
proof (induction fs arbitrary: t rule: body_toks.induct)
  case (2 f)
  then show ?case by (simp add: lexes_subgoal)
next
  case (3 f g fs)
  from "3.prems"(3) obtain u v where uv: "print_subgoal f = Some u" "print_body (g # fs) = Some v"
    "t = u @ '', '' @ v"
    by (auto simp: bind_eq_Some_conv)
  have l1: "lexes (u @ CHR '','' # CHR '' '' # v @ c # r) (sub_toks f) (CHR '','' # CHR '' '' # v @ c # r)"
    using "3.prems"(2) by (intro lexes_subgoal uv) simp_all
  have l2: "lexes (CHR '','' # CHR '' '' # v @ c # r) [T RULE_TOK_COMMA '',''] (CHR '' '' # v @ c # r)"
    by (rule lexes_one [OF next_fixed(2)]) simp_all
  have "lexes (v @ c # r) (body_toks (g # fs)) (c # r)"
    using "3.IH" [OF _ _ uv(2) "3.prems"(4)] "3.prems"(2) by simp
  then have l3: "lexes (CHR '' '' # v @ c # r) (body_toks (g # fs)) (c # r)"
    by (rule lexes_space [rotated 2]) (simp_all add: body_toks_ne)
  have "lexes (t @ c # r) (sub_toks f @ [T RULE_TOK_COMMA '',''] @ body_toks (g # fs)) (c # r)"
    unfolding uv(3) using lexes_append [OF l1 lexes_append [OF l2 l3]] by simp
  then show ?case by simp
qed simp

lemma lexes_rule:
  assumes "rule_ok r" "datalog_rule_print r = Some t"
  shows "lexes (t @ rest) (rule_toks r) (CHR 0x0A # rest)"
proof -
  from assms(2) obtain u v where uv: "print_triple (head r) = Some u" "print_body (body r) = Some v"
    and t: "t = u @ '' :- '' @ v @ '' .'' @ [CHR 0x0A]"
    by (auto simp: datalog_rule_print_def bind_eq_Some_conv)
  have ok: "fact_ok (head r)" "body r \<noteq> []" "\<forall>b \<in> set (body r). fact_ok b"
    using assms(1) by (simp_all add: rule_ok_def)
  let ?q3 = "CHR ''.'' # CHR 0x0A # rest"
  let ?q2 = "CHR '' '' # v @ CHR '' '' # ?q3"
  have l1: "lexes (u @ CHR '' '' # '':-'' @ ?q2) (fact_toks (head r)) (CHR '' '' # '':-'' @ ?q2)"
    by (rule lexes_triple [OF ok(1) uv(1)]) simp
  have "lexes ('':-'' @ ?q2) [T RULE_TOK_TURNSTILE '':-''] ?q2"
    by (rule lexes_one [OF next_fixed(1)]) simp_all
  then have l2: "lexes (CHR '' '' # '':-'' @ ?q2) [T RULE_TOK_TURNSTILE '':-''] ?q2"
    by (rule lexes_space [rotated 2]) simp_all
  have "lexes (v @ CHR '' '' # ?q3) (body_toks (body r)) (CHR '' '' # ?q3)"
    by (rule lexes_body [OF ok(2,3) uv(2)]) simp
  then have l3: "lexes ?q2 (body_toks (body r)) (CHR '' '' # ?q3)"
    by (rule lexes_space [rotated 2]) (simp_all add: body_toks_ne ok)
  have "lexes ?q3 [T RULE_TOK_DOT ''.''] (CHR 0x0A # rest)"
    by (rule lexes_one [OF next_fixed(3)]) simp_all
  then have l4: "lexes (CHR '' '' # ?q3) [T RULE_TOK_DOT ''.''] (CHR 0x0A # rest)"
    by (rule lexes_space [rotated 2]) simp_all
  have "lexes (u @ CHR '' '' # '':-'' @ ?q2)
      (fact_toks (head r) @ [T RULE_TOK_TURNSTILE '':-''] @ body_toks (body r) @ [T RULE_TOK_DOT ''.'']) (CHR 0x0A # rest)"
    by (rule lexes_append [OF l1 lexes_append [OF l2 lexes_append [OF l3 l4]]])
  then show ?thesis by (simp add: t rule_toks_def)
qed

lemma rule_toks_ne: "rule_toks r \<noteq> []"
  by (simp add: rule_toks_def)

lemma lexes_rules:
  "\<forall>r \<in> set rs. rule_ok r \<Longrightarrow> print_program_rules rs = Some t \<Longrightarrow>
   \<exists>q. lexes t (concat (map rule_toks rs)) q \<and> (q = [] \<or> q = [CHR 0x0A])"
proof (induction rs arbitrary: t)
  case (Cons r rs)
  from Cons.prems(2) obtain u v where uv: "datalog_rule_print r = Some u" "print_program_rules rs = Some v" "t = u @ v"
    by (auto simp: bind_eq_Some_conv)
  from Cons.IH [OF _ uv(2)] Cons.prems(1) obtain q where q: "lexes v (concat (map rule_toks rs)) q" "q = [] \<or> q = [CHR 0x0A]"
    by auto
  have l1: "lexes t (rule_toks r) (CHR 0x0A # v)"
    unfolding uv(3) using Cons.prems(1) by (intro lexes_rule uv) simp
  show ?case
  proof (cases "rs = []")
    case True
    with uv q l1 show ?thesis by auto
  next
    case False
    have "concat (map rule_toks rs) \<noteq> []" using False rule_toks_ne by (cases rs) auto
    with q(1) have "lexes (CHR 0x0A # v) (concat (map rule_toks rs)) q" by (intro lexes_space) simp_all
    with l1 q(2) show ?thesis using lexes_append by fastforce
  qed
qed simp

section \<open>The token array\<close>

abbreviation (input) eof_tok :: rule_token where
  "eof_tok \<equiv> \<lparr>tok_type = RULE_TOK_EOF, tok_value = None\<rparr>"

lemma lex_loop_lexes:
  "lexes p ts q \<Longrightarrow> next_rule_token q [] = (eof_tok, [], []) \<Longrightarrow>
   length toks + length ts < 2 ^ 48 \<Longrightarrow> 16 \<le> cap \<Longrightarrow> cap \<le> 2 ^ 49 \<Longrightarrow>
   lex_loop p toks cap [] = (Some (toks @ ts @ [eof_tok]), [])"
proof (induction ts arbitrary: p toks cap)
  case Nil
  then have "next_rule_token p [] = (eof_tok, [], [])" by simp
  with Nil.prems(3-5) show ?case by (subst lex_loop.simps) simp
next
  case (Cons t ts)
  then obtain p' where n: "next_rule_token p [] = (t, p', [])" "tok_type t \<noteq> RULE_TOK_EOF"
    "tok_type t \<noteq> RULE_TOK_ERROR" "lexes p' ts q" by auto
  let ?cap = "if length toks \<ge> cap then cap * 2 else cap"
  have cap: "16 \<le> ?cap" "?cap \<le> 2 ^ 49" using Cons.prems(3-5) by simp_all
  have "lex_loop p toks cap [] = lex_loop p' (toks @ [t]) ?cap []"
    using n Cons.prems(3-5) by (subst lex_loop.simps) (simp add: Let_def)
  also have "\<dots> = (Some ((toks @ [t]) @ ts @ [eof_tok]), [])"
    using Cons.IH [OF n(4) Cons.prems(2) _ cap, of "toks @ [t]"] Cons.prems(3) by simp
  finally show ?case by simp
qed

section \<open>The parser on the tokens\<close>

lemma is_tok_at [simp]: "is_tok (pre @ x # suf) (length pre) ty \<longleftrightarrow> tok_type x = ty"
  by (simp add: is_tok_def)

lemma is_tok_shift: "is_tok (pre @ xs) (length pre + n) ty \<longleftrightarrow> is_tok xs n ty"
  by (simp add: is_tok_def nth_append)

lemma is_tok_Cons [simp]: "is_tok (x # xs) 0 ty \<longleftrightarrow> tok_type x = ty" "is_tok (x # xs) (Suc n) ty \<longleftrightarrow> is_tok xs n ty"
  by (simp_all add: is_tok_def)

lemma parse_terms_shift: "parse_terms (pre @ xs) (length pre + n) = parse_terms xs n"
  by (simp add: parse_terms_def rule_token_is_term_def nth_append)

lemma parse_terms_fact:
  assumes "fact_ok f"
  shows "parse_terms (fact_toks f @ suf) 0 = Some (sf_s f, sf_p f, sf_o f)"
  by (rule fact_okD [OF assms])
    (simp add: parse_terms_def rule_token_is_term_def fact_toks_def numeral_2_eq_2)

lemma term_tok_not [simp]: "tok_type (term_tok s) \<noteq> RULE_TOK_NOT"
  by (simp add: term_tok_def)

lemma parse_subgoal_sub_toks:
  assumes "fact_ok f"
  shows "\<exists>cap'. parse_subgoal (pre @ sub_toks f @ suf) (length pre) bd cap []
     = (Some (bd @ [f], length pre + length (sub_toks f), cap'), [])"
proof -
  have f: "f = \<lparr>sf_s = sf_s f, sf_p = sf_p f, sf_o = sf_o f, sf_negated = sf_negated f\<rparr>" by simp
  have m: "(if cap \<le> length bd then malloc [] else (True, [])) = (True, [])" by simp
  show ?thesis
  proof (cases "sf_negated f = None")
    case True
    have n: "\<not> is_tok (pre @ fact_toks f @ suf) (length pre) RULE_TOK_NOT"
      by (simp add: fact_toks_def)
    have t: "parse_terms (pre @ fact_toks f @ suf) (length pre) = Some (sf_s f, sf_p f, sf_o f)"
      using parse_terms_shift [of pre _ 0] parse_terms_fact [OF assms] by simp
    show ?thesis
      using True f by (simp add: parse_subgoal_def sub_toks_def n t Let_def m) (simp add: fact_toks_def)
  next
    case False
    then have neg: "sf_negated f = Some '':not''" using assms by (auto simp: fact_ok_def)
    let ?xs = "T RULE_TOK_NOT ''NOT'' # T RULE_TOK_LPAREN ''('' # fact_toks f @ T RULE_TOK_RPAREN '')'' # suf"
    have sub: "sub_toks f @ suf = ?xs" "length (sub_toks f) = 6"
      using False by (simp_all add: sub_toks_def fact_toks_def)
    have n: "is_tok (pre @ ?xs) (length pre) RULE_TOK_NOT" by simp
    have l: "is_tok (pre @ ?xs) (length pre + 1) RULE_TOK_LPAREN"
      unfolding is_tok_shift by simp
    have "parse_terms ?xs 2 = parse_terms (fact_toks f @ T RULE_TOK_RPAREN '')'' # suf) 0"
      using parse_terms_shift [of "[T RULE_TOK_NOT ''NOT'', T RULE_TOK_LPAREN ''('']" _ 0] by (simp add: numeral_2_eq_2)
    then have t: "parse_terms (pre @ ?xs) (length pre + 2) = Some (sf_s f, sf_p f, sf_o f)"
      unfolding parse_terms_shift using parse_terms_fact [OF assms] by simp
    have r: "is_tok (pre @ ?xs) (length pre + 2 + 3) RULE_TOK_RPAREN"
      unfolding add.assoc is_tok_shift by (simp add: fact_toks_def numeral_eq_Suc)
    have p: "tok_type ((pre @ ?xs) ! (length pre + 2 + 3 - 4)) = RULE_TOK_LPAREN"
      by (simp add: nth_append)
    have "parse_subgoal (pre @ ?xs) (length pre) bd cap []
      = (Some (bd @ [f], length pre + 6, if length bd \<ge> cap then cap * 2 else cap), [])"
      unfolding parse_subgoal_def Let_def
      using neg f by (simp only: n l t r p m if_True option.case prod.case) simp
    then show ?thesis using sub by auto
  qed
qed

lemma parse_body_body_toks:
  "fs \<noteq> [] \<Longrightarrow> \<forall>f \<in> set fs. fact_ok f \<Longrightarrow>
   parse_body (pre @ body_toks fs @ T RULE_TOK_DOT ''.'' # suf) (length pre) bd cap []
     = (Some (bd @ fs, length pre + length (body_toks fs) + 1), [])"
proof (induction fs arbitrary: pre bd cap rule: body_toks.induct)
  case (2 f)
  obtain cap' where s: "parse_subgoal (pre @ sub_toks f @ T RULE_TOK_DOT ''.'' # suf) (length pre) bd cap []
     = (Some (bd @ [f], length pre + length (sub_toks f), cap'), [])"
    using parse_subgoal_sub_toks "2.prems"(2) by fastforce
  have "is_tok (pre @ sub_toks f @ T RULE_TOK_DOT ''.'' # suf) (length pre + length (sub_toks f)) ty
      \<longleftrightarrow> ty = RULE_TOK_DOT" for ty
    unfolding is_tok_shift by auto
  with s show ?case by (subst parse_body.simps) simp
next
  case (3 f g fs)
  let ?suf = "T RULE_TOK_COMMA '','' # body_toks (g # fs) @ T RULE_TOK_DOT ''.'' # suf"
  obtain cap' where s: "parse_subgoal (pre @ sub_toks f @ ?suf) (length pre) bd cap []
     = (Some (bd @ [f], length pre + length (sub_toks f), cap'), [])"
    using parse_subgoal_sub_toks "3.prems"(2) by fastforce
  have c: "is_tok (pre @ sub_toks f @ ?suf) (length pre + length (sub_toks f)) RULE_TOK_COMMA"
    unfolding is_tok_shift by simp
  have "parse_body (pre @ sub_toks f @ ?suf) (length pre) bd cap []
      = parse_body (pre @ sub_toks f @ ?suf) (length pre + length (sub_toks f) + 1) (bd @ [f]) cap' []"
    using s c by (subst parse_body.simps) simp
  also have "\<dots> = parse_body ((pre @ sub_toks f @ [T RULE_TOK_COMMA '','']) @ body_toks (g # fs) @ T RULE_TOK_DOT ''.'' # suf)
      (length (pre @ sub_toks f @ [T RULE_TOK_COMMA '',''])) (bd @ [f]) cap' []"
    by simp
  also have "\<dots> = (Some ((bd @ [f]) @ g # fs, length (pre @ sub_toks f @ [T RULE_TOK_COMMA '','']) + length (body_toks (g # fs)) + 1), [])"
    using "3.prems"(2) by (intro "3.IH") simp_all
  finally show ?case by simp
qed simp

text \<open>Without allocation failures, and within the size limits, the checks of a rule succeed.\<close>

lemma collect_vars_succeeds:
  "length list + length xs < SIZE_MAX div 8 \<Longrightarrow> fst (collect_vars xs list []) \<and> snd (snd (collect_vars xs list [])) = []"
proof (induction xs arbitrary: list)
  case (Cons x xs)
  show ?case
  proof (cases x)
    case (Some v)
    obtain list' where a: "add_var_to_list list v [] = (True, list', [])" "length list' \<le> Suc (length list)"
    proof (cases "v \<in> set list")
      case False
      have "length list \<noteq> SIZE_MAX div 8" using Cons.prems by simp
      with False show ?thesis by (intro that [of "list @ [v]"]) (simp_all add: add_var_to_list_def)
    qed (intro that [of list], simp_all add: add_var_to_list_def)
    with Cons Some show ?thesis by simp
  qed (use Cons in simp)
qed simp

lemma validate_succeeds:
  assumes "safe_rule r" "length (body r) < 2 ^ 48"
  shows "datalog_rule_validate r [] = (1, [])"
proof -
  let ?bs = "filter (\<lambda>b. sf_negated b = None) (body r)"
  have len: "length (concat (map fact_fields bs)) = 3 * length bs" for bs
    by (induction bs) (simp_all add: fact_fields_def)
  define n where "n = length ?bs"
  have "n \<le> length (body r)" unfolding n_def by (rule length_filter_le)
  then have "3 * n < SIZE_MAX div 8" using assms(2) by simp
  then have "length (concat (map fact_fields ?bs)) < SIZE_MAX div 8" unfolding len n_def .
  then have "fst (collect_vars (concat (map fact_fields ?bs)) [] []) \<and> snd (snd (collect_vars (concat (map fact_fields ?bs)) [] [])) = []"
    by (intro collect_vars_succeeds) simp
  then obtain vs where "collect_vars (concat (map fact_fields ?bs)) [] [] = (True, vs, [])"
    by (cases "collect_vars (concat (map fact_fields ?bs)) [] []") simp
  then obtain v where "datalog_rule_validate r [] = (v, [])" "v \<noteq> - 1"
    by (auto simp: datalog_rule_validate_def)
  with datalog_rule_validate_iff [OF this(1)] assms(1) show ?thesis by auto
qed

lemma clone_spec_fact_fields_Nil: "clone_spec_fact_fields f [] = (Some f, [])"
  by (simp add: clone_spec_fact_fields_def strdup_def split: option.split)

lemma clone_body_Nil: "clone_body bs [] = (Some bs, [])"
  by (induction bs) (simp_all add: clone_spec_fact_fields_Nil)

lemma add_rule_succeeds:
  assumes "length (rules prog) < 2 ^ 48"
  shows "datalog_program_add_rule prog hd0 bd []
     = (Some (length (rules prog)), prog\<lparr>rules := rules prog @ [\<lparr>head = hd0, body = bd\<rparr>]\<rparr>, [])"
  using assms by (simp add: datalog_program_add_rule_def clone_spec_fact_fields_Nil clone_body_Nil)

lemma parse_loop_rules:
  "\<forall>r \<in> set rs. rule_ok r \<and> length (body r) < 2 ^ 48 \<Longrightarrow> length (rules prog) + length rs < 2 ^ 48 \<Longrightarrow>
   parse_loop (pre @ concat (map rule_toks rs) @ [eof_tok]) (length pre) prog []
     = (True, prog\<lparr>rules := rules prog @ rs\<rparr>, [])"
proof (induction rs arbitrary: pre prog)
  case Nil
  then show ?case by (subst parse_loop.simps) simp
next
  case (Cons r rs)
  let ?suf = "concat (map rule_toks rs) @ [eof_tok]"
  let ?h = "head r" and ?b = "body r"
  let ?toks = "pre @ concat (map rule_toks (r # rs)) @ [eof_tok]"
  have ok: "fact_ok ?h" "sf_negated ?h = None" "?b \<noteq> []" "\<forall>b \<in> set ?b. fact_ok b" "safe_rule r"
      "length ?b < 2 ^ 48"
    using Cons.prems(1) by (auto simp: rule_ok_def)
  have hd0: "\<lparr>sf_s = sf_s ?h, sf_p = sf_p ?h, sf_o = sf_o ?h, sf_negated = None\<rparr> = ?h"
    using ok(2) by (cases ?h) simp
  have toks: "?toks = pre @ fact_toks ?h @ T RULE_TOK_TURNSTILE '':-'' # body_toks ?b @ T RULE_TOK_DOT ''.'' # ?suf"
    by (simp add: rule_toks_def)
  have len: "length (fact_toks ?h) = 3" by (simp add: fact_toks_def)
  have start: "length pre < length ?toks \<and> tok_type (?toks ! length pre) \<noteq> RULE_TOK_EOF"
    unfolding toks by (simp add: fact_toks_def nth_append term_tok_def)
  have t: "parse_terms ?toks (length pre) = Some (sf_s ?h, sf_p ?h, sf_o ?h)"
    unfolding toks using parse_terms_shift [of pre _ 0] parse_terms_fact [OF ok(1)] by simp
  have tn: "is_tok ?toks (length pre + 3) RULE_TOK_TURNSTILE"
    unfolding toks is_tok_shift by (simp add: fact_toks_def numeral_3_eq_3)
  let ?pre = "pre @ fact_toks ?h @ [T RULE_TOK_TURNSTILE '':-'']"
  have b: "parse_body ?toks (length pre + 4) [] 4 []
      = (Some (?b, length pre + 4 + length (body_toks ?b) + 1), [])"
    unfolding toks using parse_body_body_toks [OF ok(3,4), of ?pre ?suf "[]" 4] by (simp add: len)
  have v: "datalog_rule_validate \<lparr>head = ?h, body = ?b\<rparr> [] = (1, [])"
    using validate_succeeds [OF ok(5,6)] by (cases r) simp
  let ?prog = "prog\<lparr>rules := rules prog @ [r]\<rparr>"
  have a: "datalog_program_add_rule prog ?h ?b [] = (Some (length (rules prog)), ?prog, [])"
    using add_rule_succeeds [of prog ?h ?b] Cons.prems(2) by simp
  have "parse_loop ?toks (length pre) prog [] = parse_loop ?toks (length pre + 4 + length (body_toks ?b) + 1) ?prog []"
    using start t tn b v a hd0 by (subst parse_loop.simps) (simp add: Let_def)
  also have "\<dots> = parse_loop ((pre @ rule_toks r) @ ?suf) (length (pre @ rule_toks r)) ?prog []"
    by (simp add: rule_toks_def len add.left_commute)
  also have "\<dots> = (True, ?prog\<lparr>rules := rules ?prog @ rs\<rparr>, [])"
    using Cons.prems by (intro Cons.IH) simp_all
  finally show ?case by simp
qed

lemma body_toks_length: "length fs \<le> length (body_toks fs)"
  by (induction fs rule: body_toks.induct) (auto simp: sub_toks_def fact_toks_def)

lemma rules_toks_length:
  "length rs \<le> length (concat (map rule_toks rs))"
  "r \<in> set rs \<Longrightarrow> length (body r) \<le> length (concat (map rule_toks rs))"
proof (induction rs)
  case (Cons x xs)
  have x: "1 \<le> length (rule_toks x)" "length (body x) \<le> length (rule_toks x)"
    using body_toks_length [of "body x"] by (simp_all add: rule_toks_def)
  {
    case 1
    from Cons.IH(1) x show ?case by simp
  next
    case 2
    with Cons.IH(2) x show ?case by auto
  }
qed simp_all

lemma parse_print:
  assumes "\<forall>r \<in> set rs. rule_ok r" "print_program_rules rs = Some txt"
    and "length txt < 2 ^ 47" "length (rules prog) < 2 ^ 47"
  shows "datalog_program_parse_rules prog txt [] = (0, prog\<lparr>rules := rules prog @ rs\<rparr>, [])"
proof -
  let ?ts = "concat (map rule_toks rs)"
  from lexes_rules [OF assms(1,2)] obtain q where q: "lexes txt ?ts q" "q = [] \<or> q = [CHR 0x0A]" by blast
  have e: "next_rule_token q [] = (eof_tok, [], [])"
    using q(2) by (auto simp: next_rule_token_def)
  have n: "length ?ts < 2 ^ 47" using lexes_length [OF q(1)] assms(3) by linarith
  have l: "lex_loop txt [] 16 [] = (Some (?ts @ [eof_tok]), [])"
    using lex_loop_lexes [OF q(1) e, of "[]" 16] n by simp
  have "\<forall>r \<in> set rs. rule_ok r \<and> length (body r) < 2 ^ 48"
    using assms(1) rules_toks_length(2) [of _ rs] n by fastforce
  moreover have "length (rules prog) + length rs < 2 ^ 48"
  proof -
    have "length rs < 2 ^ 47" using rules_toks_length(1) [of rs] n by linarith
    then show ?thesis using assms(4) by simp
  qed
  ultimately have "parse_loop (?ts @ [eof_tok]) 0 prog [] = (True, prog\<lparr>rules := rules prog @ rs\<rparr>, [])"
    using parse_loop_rules [of rs prog "[]"] by simp
  with l show ?thesis by (simp add: datalog_program_parse_rules_def)
qed

section \<open>Properties\<close>

text \<open>
  C35: \<^verbatim>\<open>datalog_program_parse_rules\<close> is all or nothing: it returns 0 and has appended safe rules only,
  or returns \<^verbatim>\<open>-1\<close> and the program is as it was, whatever the text and wherever an allocation
  fails.
\<close>

theorem parse_rules_all_or_nothing:
  assumes "datalog_program_parse_rules prog txt h = (r, prog', h')"
  shows "(r = 0 \<and> (\<exists>rs. rules prog' = rules prog @ rs \<and> (\<forall>x \<in> set rs. safe_rule x))) \<or>
         (r = - 1 \<and> prog' = prog)"
proof -
  obtain ok h1 where m: "malloc h = (ok, h1)" by (cases "malloc h")
  obtain toks h2 where l: "lex_loop txt [] 16 h1 = (toks, h2)" by (cases "lex_loop txt [] 16 h1")
  show ?thesis
  proof (cases "ok \<and> toks \<noteq> None")
    case False
    with assms m l show ?thesis
      by (cases ok; cases toks) (auto simp: datalog_program_parse_rules_def)
  next
    case True
    then obtain ts where ts: "toks = Some ts" by blast
    obtain b prog1 h3 where p: "parse_loop ts 0 prog h2 = (b, prog1, h3)"
      by (cases "parse_loop ts 0 prog h2")
    from parse_loop_appends [OF p] obtain rs where rs: "rules prog1 = rules prog @ rs" "\<forall>x \<in> set rs. safe_rule x"
      by blast
    have "prog1\<lparr>rules := rules prog\<rparr> = prog" by (cases prog; cases prog1) simp
    then have "datalog_program_truncate prog1 (length (rules prog)) = prog"
      by (simp add: datalog_program_truncate_eq rs(1))
    with assms m l ts p True rs show ?thesis
      by (cases b) (auto simp: datalog_program_parse_rules_def Let_def)
  qed
qed

theorem parse_rules_all_or_nothing_witness:
  "\<exists>h'. datalog_program_parse_rules \<lparr>rules = [ex_rule]\<rparr> ''?x p'' [] = (- 1, \<lparr>rules = [ex_rule]\<rparr>, h')"
proof -
  obtain r prog' h' where p: "datalog_program_parse_rules \<lparr>rules = [ex_rule]\<rparr> ''?x p'' [] = (r, prog', h')"
    by (cases "datalog_program_parse_rules \<lparr>rules = [ex_rule]\<rparr> ''?x p'' []")
  moreover have "fst (datalog_program_parse_rules \<lparr>rules = [ex_rule]\<rparr> ''?x p'' []) = - 1"
    by code_simp
  ultimately show ?thesis using parse_rules_all_or_nothing [OF p] by auto
qed

text \<open>
  C34: parsing what \<^verbatim>\<open>datalog_program_print\<close> printed adds exactly the printed rules, when every rule is
  safe, its body is not empty, its subjects and objects are variables or plain words, and no
  predicate contains \<^verbatim>\<open>>\<close>; sizes are bounded by what fits in memory and no allocation fails.
\<close>

theorem parse_print_roundtrip:
  assumes "\<forall>r \<in> set (rules p). rule_ok r" "datalog_program_print p = Some txt"
    and "length txt < 2 ^ 47" "length (rules prog) < 2 ^ 47"
  shows "datalog_program_parse_rules prog txt [] = (0, prog\<lparr>rules := rules prog @ rules p\<rparr>, [])"
  using assms unfolding datalog_program_print_def by (intro parse_print)

theorem parse_print_roundtrip_witness:
  "\<exists>txt. datalog_program_print \<lparr>rules = [ex_rule]\<rparr> = Some txt \<and>
     datalog_program_parse_rules \<lparr>rules = []\<rparr> txt [] = (0, \<lparr>rules = [ex_rule]\<rparr>, [])"
proof -
  have t: "term_ok ''?x''" "term_ok ''?y''"
    by (simp_all add: term_ok_def is_word_def less_eq_char_def)
  have f: "fact_ok (head ex_rule)" "\<forall>b \<in> set (body ex_rule). fact_ok b"
    by (simp_all add: ex_rule_def fact_ok_def t)
  have "safe_rule ex_rule"
    by (simp add: ex_rule_def safe_rule_def positive_vars_def fact_fields_def)
  with f have ok: "\<forall>r \<in> set (rules \<lparr>rules = [ex_rule]\<rparr>). rule_ok r"
    by (simp add: rule_ok_def) (simp add: ex_rule_def)
  have "datalog_program_print \<lparr>rules = [ex_rule]\<rparr> = Some (''?x <path> ?y :- ?x <edge> ?y .'' @ [CHR 0x0A])"
    by (simp add: datalog_program_print_def datalog_rule_print_def print_triple_def print_subgoal_def ex_rule_def)
  with parse_print_roundtrip [OF ok this, of "\<lparr>rules = []\<rparr>"] show ?thesis by simp
qed

end
