(* ===== verification/Stratify.thy ===== *)
theory Stratify
  imports Rules
begin

text \<open>
  \<^verbatim>\<open>datalog_program_stratify\<close> of \<^verbatim>\<open>lib/rule.c\<close>: the stratum of every rule by a fixed-point
  iteration over the constant predicates. It is sound, and it finds a stratification whenever
  there is one: \<^verbatim>\<open>pred_count + 1\<close> passes are enough.
\<close>

section \<open>The code\<close>

text \<open>A null predicate is skipped; the result false is an allocation failure.\<close>

definition add_pred_to_list :: "cstr list \<Rightarrow> cstr option \<Rightarrow> mem \<Rightarrow> bool \<times> cstr list \<times> mem" where
  "add_pred_to_list list pred h =
     (case pred of None \<Rightarrow> (True, list, h)
      | Some p \<Rightarrow>
          if \<exists>x \<in> set list. strcmp x p = 0 then (True, list, h)
          else if length list = SIZE_MAX div 8 then (False, list, h)
          else (let (ok, h') = malloc h in (ok, if ok then list @ [p] else list, h')))"

fun find_pred_from :: "cstr list \<Rightarrow> cstr \<Rightarrow> nat \<Rightarrow> nat option" where
  "find_pred_from [] pred i = None"
| "find_pred_from (x # xs) pred i = (if strcmp x pred = 0 then Some i else find_pred_from xs pred (Suc i))"

text \<open>\<open>None\<close> is the result \<^verbatim>\<open>-1\<close>. The code returns \<^verbatim>\<open>(int)i\<close>, which is \<open>i\<close> for less than \<open>2 ^ 31\<close> predicates.\<close>

definition find_pred_idx :: "cstr list \<Rightarrow> cstr option \<Rightarrow> nat option" where
  "find_pred_idx preds pred = (case pred of None \<Rightarrow> None | Some p \<Rightarrow> find_pred_from preds p 0)"

definition const_pred :: "cstr option \<Rightarrow> bool" where
  "const_pred p = (case p of None \<Rightarrow> False | Some s \<Rightarrow> \<not> is_var s)"

fun collect_preds :: "cstr option list \<Rightarrow> cstr list \<Rightarrow> mem \<Rightarrow> bool \<times> cstr list \<times> mem" where
  "collect_preds [] list h = (True, list, h)"
| "collect_preds (p # ps) list h =
     (if const_pred p then
        (case add_pred_to_list list p h of
           (ok, list', h') \<Rightarrow> if ok then collect_preds ps list' h' else (False, list', h'))
      else collect_preds ps list h)"

definition rule_preds :: "datalog_rule \<Rightarrow> cstr option list" where
  "rule_preds r = sf_p (head r) # map sf_p (body r)"

text \<open>The body of the innermost loop, on the strata and the flag \<^verbatim>\<open>changed\<close>.\<close>

definition dep_step :: "cstr list \<Rightarrow> nat \<Rightarrow> spec_fact \<Rightarrow> int list \<times> bool \<Rightarrow> int list \<times> bool" where
  "dep_step preds head_idx sub st =
     (case st of (stratum, changed) \<Rightarrow>
        (case find_pred_idx preds (sf_p sub) of
           None \<Rightarrow> (stratum, changed)
         | Some sub_idx \<Rightarrow>
             if sf_negated sub = None then
               (if stratum ! head_idx < stratum ! sub_idx
                then (stratum[head_idx := stratum ! sub_idx], True) else (stratum, changed))
             else
               (if stratum ! head_idx \<le> stratum ! sub_idx
                then (stratum[head_idx := stratum ! sub_idx + 1], True) else (stratum, changed))))"

definition rule_step :: "cstr list \<Rightarrow> datalog_rule \<Rightarrow> int list \<times> bool \<Rightarrow> int list \<times> bool" where
  "rule_step preds r st =
     (case find_pred_idx preds (sf_p (head r)) of
        None \<Rightarrow> st
      | Some head_idx \<Rightarrow> fold (dep_step preds head_idx) (body r) st)"

text \<open>The outer loop, \<open>n\<close> passes at most.\<close>

fun strata_loop :: "cstr list \<Rightarrow> datalog_rule list \<Rightarrow> nat \<Rightarrow> int list \<times> bool \<Rightarrow> int list \<times> bool" where
  "strata_loop preds rs 0 st = st"
| "strata_loop preds rs (Suc n) st =
     (let st' = fold (rule_step preds) rs (fst st, False)
      in if \<not> snd st' then st' else strata_loop preds rs n st')"

definition rule_stratum :: "cstr list \<Rightarrow> int list \<Rightarrow> datalog_rule \<Rightarrow> int" where
  "rule_stratum preds stratum r =
     (case find_pred_idx preds (sf_p (head r)) of None \<Rightarrow> 0 | Some i \<Rightarrow> stratum ! i)"

definition max_stratum :: "int list \<Rightarrow> int" where
  "max_stratum xs = fold (\<lambda>x m. if x > m then x else m) xs 0"

text \<open>The strata of the rules (\<open>None\<close> is NULL) and \<^verbatim>\<open>*num_strata_out\<close>.\<close>

definition datalog_program_stratify :: "datalog_program \<Rightarrow> mem \<Rightarrow> (int list option \<times> int) \<times> mem" where
  "datalog_program_stratify prog h =
     (if length (rules prog) = 0 then ((None, 0), h)
      else (case collect_preds (concat (map rule_preds (rules prog))) [] h of
              (False, preds, h1) \<Rightarrow> ((None, 0), h1)
            | (True, preds, h1) \<Rightarrow>
                if length preds = 0 then ((None, 0), h1)
                else (case malloc h1 of
                        (False, h2) \<Rightarrow> ((None, 0), h2)
                      | (True, h2) \<Rightarrow>
                          (case strata_loop preds (rules prog) (length preds + 1)
                                  (replicate (length preds) 0, False) of
                             (stratum, changed) \<Rightarrow>
                               if changed then ((None, 0), h2)
                               else (case malloc h2 of
                                       (False, h3) \<Rightarrow> ((None, 0), h3)
                                     | (True, h3) \<Rightarrow>
                                         (let rs = map (rule_stratum preds stratum) (rules prog)
                                          in ((Some rs, max_stratum rs + 1), h3)))))))"

section \<open>Relaxation of difference constraints\<close>

text \<open>An edge \<open>(u, v, w)\<close> demands that the stratum of \<open>v\<close> is at least that of \<open>u\<close> plus \<open>w\<close>.\<close>

type_synonym edge = "nat \<times> nat \<times> int"

definition relax :: "edge \<Rightarrow> int list \<times> bool \<Rightarrow> int list \<times> bool" where
  "relax e st =
     (case e of (u, v, w) \<Rightarrow> case st of (xs, c) \<Rightarrow>
        if xs ! v < xs ! u + w then (xs[v := xs ! u + w], True) else (xs, c))"

definition edge_in :: "nat \<Rightarrow> edge \<Rightarrow> bool" where
  "edge_in n e \<longleftrightarrow> (case e of (u, v, w) \<Rightarrow> u < n \<and> v < n)"

definition valid :: "edge list \<Rightarrow> (nat \<Rightarrow> int) \<Rightarrow> bool" where
  "valid es f \<longleftrightarrow> (\<forall>(u, v, w) \<in> set es. f u + w \<le> f v)"

lemma relax_props:
  fixes c :: bool
  assumes "edge_in (length xs) e"
  defines "xs' \<equiv> fst (relax e (xs, c))"
  shows "length xs' = length xs" "i < length xs \<Longrightarrow> xs ! i \<le> xs' ! i"
    "e = (u, v, w) \<Longrightarrow> xs ! u + w \<le> xs' ! v"
    "\<forall>j < length xs. xs ! j \<le> f j \<Longrightarrow> valid [e] f \<Longrightarrow> i < length xs \<Longrightarrow> xs' ! i \<le> f i"
    "\<not> snd (relax e (xs, c)) \<Longrightarrow> xs' = xs \<and> \<not> c \<and> valid [e] (nth xs)"
    "valid [e] (nth xs) \<Longrightarrow> relax e (xs, c) = (xs, c)"
proof -
  obtain u0 v0 w0 where e: "e = (u0, v0, w0)" by (cases e)
  have in_range: "u0 < length xs" "v0 < length xs" using assms(1) by (simp_all add: edge_in_def e)
  show "length xs' = length xs" by (simp add: xs'_def relax_def e)
  show "i < length xs \<Longrightarrow> xs ! i \<le> xs' ! i"
    by (cases "i = v0") (simp_all add: xs'_def relax_def e)
  show "e = (u, v, w) \<Longrightarrow> xs ! u + w \<le> xs' ! v"
    using in_range by (simp add: xs'_def relax_def e)
  show "xs' ! i \<le> f i" if up: "\<forall>j < length xs. xs ! j \<le> f j" and v: "valid [e] f" and i: "i < length xs"
  proof -
    have "xs ! u0 \<le> f u0" "xs ! i \<le> f i" using up in_range(1) i by simp_all
    moreover have "f u0 + w0 \<le> f v0" using v by (simp add: valid_def e)
    ultimately show ?thesis using in_range i by (cases "i = v0") (simp_all add: xs'_def relax_def e)
  qed
  show "\<not> snd (relax e (xs, c)) \<Longrightarrow> xs' = xs \<and> \<not> c \<and> valid [e] (nth xs)"
    by (simp add: xs'_def relax_def e valid_def split: if_splits)
  show "valid [e] (nth xs) \<Longrightarrow> relax e (xs, c) = (xs, c)"
    by (simp add: relax_def e valid_def)
qed

lemma valid_Cons: "valid (e # es) f \<longleftrightarrow> valid [e] f \<and> valid es f"
  by (simp add: valid_def)

text \<open>One pass relaxes the edges in order.\<close>

definition pass_ok :: "edge list \<Rightarrow> int list \<Rightarrow> bool \<Rightarrow> int list \<times> bool \<Rightarrow> bool" where
  "pass_ok es xs c st \<longleftrightarrow>
     length (fst st) = length xs \<and>
     (\<forall>i < length xs. xs ! i \<le> fst st ! i) \<and>
     (\<forall>(u, v, w) \<in> set es. xs ! u + w \<le> fst st ! v) \<and>
     (\<forall>f. (\<forall>j < length xs. xs ! j \<le> f j) \<and> valid es f \<longrightarrow> (\<forall>i < length xs. fst st ! i \<le> f i)) \<and>
     (\<not> snd st \<longrightarrow> fst st = xs \<and> valid es (nth xs) \<and> \<not> c) \<and>
     (valid es (nth xs) \<longrightarrow> st = (xs, c))"

lemma pass_ok_Cons:
  assumes e: "edge_in (length xs) e" and es: "\<forall>e \<in> set es. edge_in (length xs) e"
    and r: "relax e (xs, c) = (ys, d)" and ok: "pass_ok es ys d st"
  shows "pass_ok (e # es) xs c st"
proof -
  note R = relax_props [OF e, where c = c, unfolded r fst_conv snd_conv]
  have len: "length ys = length xs" by (rule R(1))
  have a: "length (fst st) = length ys" and b: "\<forall>i < length ys. ys ! i \<le> fst st ! i"
    and p: "\<forall>(u, v, w) \<in> set es. ys ! u + w \<le> fst st ! v"
    and l: "\<And>f. \<forall>j < length ys. ys ! j \<le> f j \<Longrightarrow> valid es f \<Longrightarrow> \<forall>i < length ys. fst st ! i \<le> f i"
    and n: "\<not> snd st \<Longrightarrow> fst st = ys \<and> valid es (nth ys) \<and> \<not> d"
    and v: "valid es (nth ys) \<Longrightarrow> st = (ys, d)"
    using ok unfolding pass_ok_def by blast+
  have up: "xs ! i \<le> ys ! i" if "i < length xs" for i using R(2) [OF that] .
  have up': "xs ! i \<le> fst st ! i" if "i < length xs" for i
    using up [OF that] spec [OF b, of i] that len by simp
  have prog: "xs ! u + w \<le> fst st ! v" if m: "(u, v, w) \<in> set (e # es)" for u v w
  proof -
    have rng: "u < length xs" "v < length xs" using m e es by (auto simp: edge_in_def)
    show ?thesis
    proof (cases "e = (u, v, w)")
      case True
      have "xs ! u + w \<le> ys ! v" by (rule R(3) [OF True])
      also have "ys ! v \<le> fst st ! v" using b rng len by simp
      finally show ?thesis .
    next
      case False
      then have "(u, v, w) \<in> set es" using m by simp
      from bspec [OF p this] have "ys ! u + w \<le> fst st ! v" by simp
      with up [OF rng(1)] show ?thesis by simp
    qed
  qed
  have low: "fst st ! i \<le> f i"
    if "\<forall>j < length xs. xs ! j \<le> f j" "valid (e # es) f" "i < length xs" for f i
  proof -
    have vv: "valid [e] f" "valid es f" using that(2) unfolding valid_Cons [of e es] by blast+
    have "\<forall>j < length ys. ys ! j \<le> f j"
      using R(4) [OF that(1) vv(1)] len by simp
    from l [OF this vv(2)] show ?thesis using that(3) len by simp
  qed
  have same: "fst st = xs \<and> valid (e # es) (nth xs) \<and> \<not> c" if "\<not> snd st"
  proof -
    have x: "fst st = ys \<and> valid es (nth ys) \<and> \<not> d" by (rule n [OF that])
    then have "ys = xs \<and> \<not> c \<and> valid [e] (nth xs)"
      using R(5) by simp
    with x show ?thesis unfolding valid_Cons [of e es] by blast
  qed
  have idem: "st = (xs, c)" if "valid (e # es) (nth xs)"
  proof -
    have vv: "valid [e] (nth xs)" "valid es (nth xs)" using that unfolding valid_Cons [of e es] by blast+
    have "ys = xs" "d = c" using relax_props(6) [OF e vv(1), where c = c] r by simp_all
    with v vv(2) show ?thesis by simp
  qed
  show ?thesis unfolding pass_ok_def
  proof (intro conjI)
    show "length (fst st) = length xs" using a len by simp
    show "\<forall>i < length xs. xs ! i \<le> fst st ! i" using up' by simp
    show "\<forall>(u, v, w) \<in> set (e # es). xs ! u + w \<le> fst st ! v" using prog by blast
    show "\<forall>f. (\<forall>j < length xs. xs ! j \<le> f j) \<and> valid (e # es) f \<longrightarrow> (\<forall>i < length xs. fst st ! i \<le> f i)"
      using low by blast
    show "\<not> snd st \<longrightarrow> fst st = xs \<and> valid (e # es) (nth xs) \<and> \<not> c" using same by blast
    show "valid (e # es) (nth xs) \<longrightarrow> st = (xs, c)" using idem by blast
  qed
qed

lemma pass_ok:
  assumes "\<forall>e \<in> set es. edge_in (length xs) e"
  shows "pass_ok es xs c (fold relax es (xs, c))"
  using assms
proof (induction es arbitrary: xs c)
  case Nil
  show ?case by (simp add: pass_ok_def valid_def)
next
  case (Cons e es)
  obtain ys d where r: "relax e (xs, c) = (ys, d)" by (cases "relax e (xs, c)")
  have e: "edge_in (length xs) e" and es: "\<forall>e \<in> set es. edge_in (length xs) e"
    using Cons.prems by simp_all
  have "length ys = length xs" using relax_props(1) [OF e, where c = c] r by simp
  then have "pass_ok es ys d (fold relax es (ys, d))" using Cons.IH [of ys d] es by simp
  then have "pass_ok (e # es) xs c (fold relax es (ys, d))" by (rule pass_ok_Cons [OF e es r])
  then show ?case by (simp add: r)
qed

text \<open>
  The least non-negative solution, and why as many passes as there are nodes reach it: a pass
  that settles no further node would leave a smaller solution, one less on all the others.
\<close>

definition least_solution :: "edge list \<Rightarrow> (nat \<Rightarrow> int) \<Rightarrow> bool" where
  "least_solution es l \<longleftrightarrow> valid es l \<and> (\<forall>i. 0 \<le> l i) \<and>
     (\<forall>g. valid es g \<and> (\<forall>i. 0 \<le> g i) \<longrightarrow> (\<forall>i. l i \<le> g i))"

lemma least_solution_exists:
  assumes v: "valid es f" and nn: "\<forall>i. 0 \<le> f i"
  shows "\<exists>l. least_solution es l"
proof -
  define A where "A i = {k::nat. \<exists>g. valid es g \<and> (\<forall>j. 0 \<le> g j) \<and> g i = int k}" for i
  define l where "l i = int (LEAST k. k \<in> A i)" for i
  have memA: "nat (g i) \<in> A i" if "valid es g" "\<forall>j. 0 \<le> g j" for g i
  proof -
    have "valid es g \<and> (\<forall>j. 0 \<le> g j) \<and> g i = int (nat (g i))" using that by simp
    then show ?thesis unfolding A_def by blast
  qed
  have lower: "l i \<le> g i" if "valid es g" "\<forall>j. 0 \<le> g j" for g i
  proof -
    have "(LEAST k. k \<in> A i) \<le> nat (g i)" by (rule Least_le) (rule memA [OF that])
    moreover have "0 \<le> g i" using that(2) by simp
    ultimately show ?thesis unfolding l_def by linarith
  qed
  have attained: "\<exists>g. valid es g \<and> (\<forall>j. 0 \<le> g j) \<and> g i = l i" for i
  proof -
    have "(LEAST k. k \<in> A i) \<in> A i" by (rule LeastI) (rule memA [OF v nn])
    then show ?thesis unfolding A_def l_def by simp
  qed
  have "l u + w \<le> l x" if e: "(u, x, w) \<in> set es" for u x w
  proof -
    obtain g where g: "valid es g" "\<forall>j. 0 \<le> g j" "g x = l x" using attained [of x] by blast
    have "l u \<le> g u" by (rule lower [OF g(1,2)])
    moreover have "g u + w \<le> g x" using bspec [OF g(1) [unfolded valid_def] e] by simp
    ultimately show ?thesis using g(3) by simp
  qed
  then have "valid es l" by (auto simp: valid_def)
  moreover have "0 \<le> l i" for i by (simp add: l_def)
  ultimately show ?thesis unfolding least_solution_def using lower by blast
qed

definition settled :: "(nat \<Rightarrow> int) \<Rightarrow> int list \<Rightarrow> nat set" where
  "settled l xs = {i. i < length xs \<and> xs ! i = l i}"

definition below :: "(nat \<Rightarrow> int) \<Rightarrow> int list \<Rightarrow> bool" where
  "below l xs \<longleftrightarrow> (\<forall>i < length xs. 0 \<le> xs ! i \<and> xs ! i \<le> l i)"

lemma pass_settles:
  assumes es: "\<forall>e \<in> set es. edge_in (length xs) e" and l: "least_solution es l"
    and b: "below l xs" and ok: "pass_ok es xs c (ys, d)"
  shows "below l ys" "settled l xs \<subseteq> settled l ys"
    and "settled l ys = settled l xs \<Longrightarrow> settled l xs = {..<length xs}"
proof -
  have lv: "valid es l" and l0: "\<And>i. 0 \<le> l i"
    and least: "\<And>g i. valid es g \<Longrightarrow> \<forall>i. 0 \<le> g i \<Longrightarrow> l i \<le> g i"
    using l unfolding least_solution_def by blast+
  have len: "length ys = length xs" and up: "\<And>i. i < length xs \<Longrightarrow> xs ! i \<le> ys ! i"
    and prog: "\<And>u v w. (u, v, w) \<in> set es \<Longrightarrow> xs ! u + w \<le> ys ! v"
    and low: "\<And>f. \<forall>j < length xs. xs ! j \<le> f j \<Longrightarrow> valid es f \<Longrightarrow> \<forall>i < length xs. ys ! i \<le> f i"
    using ok unfolding pass_ok_def by (auto 0 3)
  have yl: "ys ! i \<le> l i" if "i < length xs" for i
    using low [OF _ lv] b that by (simp add: below_def)
  have y0: "0 \<le> ys ! i" if "i < length xs" for i
    using up [OF that] b that by (simp add: below_def) fastforce
  show "below l ys" using yl y0 len by (simp add: below_def)
  have sub: "i \<in> settled l ys" if "i \<in> settled l xs" for i
    using that up [of i] yl [of i] len by (simp add: settled_def)
  then show "settled l xs \<subseteq> settled l ys" by blast
  show "settled l xs = {..<length xs}" if eq: "settled l ys = settled l xs"
  proof (rule ccontr)
    assume ne: "settled l xs \<noteq> {..<length xs}"
    have "settled l xs \<subseteq> {..<length xs}" by (auto simp: settled_def)
    with ne obtain k where k: "k < length xs" "k \<notin> settled l xs" by blast
    define g where "g i = (if i < length xs \<and> i \<notin> settled l xs then l i - 1 else l i)" for i
    have g0: "0 \<le> g i" for i
    proof (cases "i < length xs \<and> i \<notin> settled l xs")
      case True
      then have "0 \<le> xs ! i" "xs ! i < l i" using b by (auto simp: below_def settled_def order.strict_iff_order)
      then show ?thesis using True by (simp add: g_def)
    next
      case False
      then have "g i = l i" by (auto simp: g_def)
      then show ?thesis using l0 by simp
    qed
    have "g u + w \<le> g v" if e: "(u, v, w) \<in> set es" for u v w
    proof -
      have rng: "u < length xs" "v < length xs" using es e by (auto simp: edge_in_def)
      have le: "l u + w \<le> l v" using bspec [OF lv [unfolded valid_def] e] by simp
      show ?thesis
      proof (cases "v \<in> settled l xs \<or> u \<notin> settled l xs")
        case True
        then show ?thesis using le rng by (auto simp: g_def)
      next
        case False
        then have "xs ! u = l u" by (simp add: settled_def)
        moreover have "ys ! v < l v" using False eq yl [OF rng(2)] rng(2) len
          by (auto simp: settled_def order.strict_iff_order)
        moreover have "xs ! u + w \<le> ys ! v" by (rule prog [OF e])
        ultimately show ?thesis using False rng by (simp add: g_def)
      qed
    qed
    then have "valid es g" by (auto simp: valid_def)
    then have "l k \<le> g k" using least g0 by blast
    then show False using k by (simp add: g_def)
  qed
qed

section \<open>The iteration as repeated relaxation\<close>

definition sub_edge :: "cstr list \<Rightarrow> nat \<Rightarrow> spec_fact \<Rightarrow> edge list" where
  "sub_edge preds h sub =
     (case find_pred_idx preds (sf_p sub) of None \<Rightarrow> []
      | Some k \<Rightarrow> [(k, h, if sf_negated sub = None then 0 else 1)])"

definition rule_edges :: "cstr list \<Rightarrow> datalog_rule \<Rightarrow> edge list" where
  "rule_edges preds r =
     (case find_pred_idx preds (sf_p (head r)) of None \<Rightarrow> []
      | Some h \<Rightarrow> concat (map (sub_edge preds h) (body r)))"

definition edges :: "cstr list \<Rightarrow> datalog_rule list \<Rightarrow> edge list" where
  "edges preds rs = concat (map (rule_edges preds) rs)"

lemma dep_step_relax: "dep_step preds h sub st = fold relax (sub_edge preds h sub) st"
proof (cases st)
  case (Pair xs c)
  show ?thesis
  proof (cases "find_pred_idx preds (sf_p sub)")
    case (Some k)
    have "(xs ! h < xs ! k + 1) = (xs ! h \<le> xs ! k)" by linarith
    with Some Pair show ?thesis by (simp add: dep_step_def sub_edge_def relax_def)
  qed (simp add: Pair dep_step_def sub_edge_def)
qed

lemma fold_concat_map: "(\<And>x st. f x st = fold g (h x) st) \<Longrightarrow> fold f xs st = fold g (concat (map h xs)) st"
  by (induction xs arbitrary: st) simp_all

lemma rule_step_relax: "rule_step preds r st = fold relax (rule_edges preds r) st"
  unfolding rule_step_def rule_edges_def
  by (simp add: fold_concat_map [OF dep_step_relax] split: option.split)

lemma pass_relax: "fold (rule_step preds) rs st = fold relax (edges preds rs) st"
  unfolding edges_def by (rule fold_concat_map) (rule rule_step_relax)

lemma find_pred_from_Some:
  "find_pred_from xs p i = Some k \<Longrightarrow> i \<le> k \<and> k - i < length xs \<and> xs ! (k - i) = p"
  by (induction xs p i rule: find_pred_from.induct) (auto split: if_splits simp: Suc_diff_le nth_Cons')

lemma find_pred_from_None: "find_pred_from xs p i = None \<longleftrightarrow> p \<notin> set xs"
  by (induction xs p i rule: find_pred_from.induct) auto

lemma find_pred_idx_Some:
  "find_pred_idx xs q = Some k \<Longrightarrow> k < length xs \<and> q = Some (xs ! k)"
  using find_pred_from_Some [of xs _ 0 k] by (auto simp: find_pred_idx_def split: option.splits)

lemma edges_in_range: "\<forall>e \<in> set (edges preds rs). edge_in (length preds) e"
proof -
  have "edge_in (length preds) e" if h: "h < length preds" and e: "e \<in> set (sub_edge preds h sub)" for e h sub
  proof (cases "find_pred_idx preds (sf_p sub)")
    case (Some k)
    with e h find_pred_idx_Some [OF Some] show ?thesis by (simp add: sub_edge_def edge_in_def)
  qed (use e in \<open>simp add: sub_edge_def\<close>)
  then have "edge_in (length preds) e" if "e \<in> set (rule_edges preds r)" for e r
  proof (cases "find_pred_idx preds (sf_p (head r))")
    case (Some k)
    with that obtain sub where "e \<in> set (sub_edge preds k sub)" by (auto simp: rule_edges_def)
    moreover have "k < length preds" using find_pred_idx_Some [OF Some] by simp
    ultimately show ?thesis using \<open>\<And>h e sub. h < length preds \<Longrightarrow> e \<in> set (sub_edge preds h sub) \<Longrightarrow> edge_in (length preds) e\<close> by blast
  qed (use that in \<open>simp add: rule_edges_def\<close>)
  then show ?thesis by (auto simp: edges_def)
qed

text \<open>
  The strata of the code are \<^verbatim>\<open>int\<close>s. A pass raises them by at most the number of its subgoals, so none
  overflows when the number of predicates plus one, times the number of subgoals, is less than \<open>2 ^ 31\<close>.
  They never decrease, so this holds at every point of a run.
\<close>

lemma edge_weight: "(u, v, w) \<in> set (edges preds rs) \<Longrightarrow> w = 0 \<or> w = 1"
  by (auto simp: edges_def rule_edges_def sub_edge_def split: option.splits if_splits)

lemma length_edges: "length (edges preds rs) \<le> (\<Sum>r\<leftarrow>rs. length (body r))"
proof -
  have "length (concat (map (sub_edge preds h) bs)) \<le> length bs" for h bs
    by (induction bs) (auto simp: sub_edge_def split: option.split)
  then have "length (rule_edges preds r) \<le> length (body r)" for r by (simp add: rule_edges_def split: option.split)
  then show ?thesis unfolding edges_def by (induction rs) (auto intro: add_mono)
qed

lemma relax_bounded:
  assumes "\<forall>x \<in> set xs. 0 \<le> x \<and> x \<le> m" "edge_in (length xs) (u, v, w)" "w = 0 \<or> w = 1"
  shows "\<forall>x \<in> set (fst (relax (u, v, w) (xs, c))). 0 \<le> x \<and> x \<le> m + 1"
proof -
  have "xs ! u \<in> set xs" using assms(2) by (simp add: edge_in_def)
  then have "0 \<le> xs ! u" "xs ! u + w \<le> m + 1" using assms(1,3) by auto
  moreover have "x \<le> m + 1" if "x \<in> set xs" for x using assms(1) that by fastforce
  ultimately show ?thesis using assms(1,3) by (auto simp: relax_def dest!: set_update_subset_insert [THEN subsetD])
qed

lemma pass_bounded:
  "\<forall>x \<in> set xs. 0 \<le> x \<and> x \<le> m \<Longrightarrow> \<forall>e \<in> set es. edge_in (length xs) e \<and> (\<forall>u v w. e = (u, v, w) \<longrightarrow> w = 0 \<or> w = 1) \<Longrightarrow>
   \<forall>x \<in> set (fst (fold relax es (xs, c))). 0 \<le> x \<and> x \<le> m + int (length es)"
proof (induction es arbitrary: xs c m)
  case (Cons e es)
  obtain u v w where e: "e = (u, v, w)" by (rule prod_cases3)
  obtain ys d where r: "relax e (xs, c) = (ys, d)" by (cases "relax e (xs, c)")
  have in_range: "edge_in (length xs) e" using Cons.prems(2) by simp
  have len: "length ys = length xs" using relax_props(1) [OF in_range, where c = c] r by simp
  have "\<forall>x \<in> set ys. 0 \<le> x \<and> x \<le> m + 1"
    using relax_bounded [OF Cons.prems(1), of u v w c] Cons.prems(2) r by (simp add: e)
  from Cons.IH [OF this, of d] Cons.prems(2) len show ?case by (simp add: r ac_simps)
qed simp

lemma loop_bounded:
  "\<forall>x \<in> set xs. 0 \<le> x \<and> x \<le> m \<Longrightarrow> length xs = length preds \<Longrightarrow>
   \<forall>x \<in> set (fst (strata_loop preds rs n (xs, c))). 0 \<le> x \<and> x \<le> m + int (n * (\<Sum>r\<leftarrow>rs. length (body r)))"
proof (induction n arbitrary: xs c m)
  case (Suc n)
  let ?k = "(\<Sum>r\<leftarrow>rs. length (body r))"
  obtain ys d where F: "fold (rule_step preds) rs (xs, False) = (ys, d)" by (cases "fold (rule_step preds) rs (xs, False)")
  have es: "\<forall>e \<in> set (edges preds rs). edge_in (length xs) e" using edges_in_range Suc.prems(2) by simp
  have "\<forall>x \<in> set ys. 0 \<le> x \<and> x \<le> m + int (length (edges preds rs))"
    using pass_bounded [OF Suc.prems(1), of "edges preds rs" False] es edge_weight F by (fastforce simp: pass_relax)
  then have ys: "\<forall>x \<in> set ys. 0 \<le> x \<and> x \<le> m + int ?k" using length_edges [of preds rs] by fastforce
  have len: "length ys = length preds" using pass_ok [OF es, of False] F Suc.prems(2) by (simp add: pass_ok_def pass_relax)
  show ?case
  proof (cases d)
    case True
    from Suc.IH [OF ys len, of d] True F show ?thesis by (simp add: Let_def algebra_simps)
  next
    case False
    have "x \<le> m + int (Suc n * ?k)" if "x \<le> m + int ?k" for x using that by (simp add: add_increasing2 add.assoc [symmetric])
    then show ?thesis using False F ys by (simp add: Let_def)
  qed
qed auto

lemma strata_bounded:
  assumes "strata_loop preds rs (length preds + 1) (replicate (length preds) 0, False) = (xs, ch)" "x \<in> set xs"
  shows "0 \<le> x \<and> x \<le> int ((length preds + 1) * (\<Sum>r\<leftarrow>rs. length (body r)))"
  using loop_bounded [of "replicate (length preds) 0" 0 preds rs "length preds + 1" False] assms by simp

lemma valid_is_least:
  assumes es: "\<forall>e \<in> set es. edge_in (length xs) e" and l: "least_solution es l"
    and b: "below l xs" and v: "valid es (nth xs)" and i: "i < length xs"
  shows "xs ! i = l i"
proof -
  define g where "g j = (if j < length xs then xs ! j else 0)" for j
  have "g u + w \<le> g x" if e: "(u, x, w) \<in> set es" for u x w
    using bspec [OF es e] bspec [OF v [unfolded valid_def] e] by (simp add: g_def edge_in_def)
  then have "valid es g" by (auto simp: valid_def)
  moreover have "\<forall>j. 0 \<le> g j" using b by (simp add: g_def below_def)
  ultimately have "l i \<le> g i" using l unfolding least_solution_def by blast
  then show ?thesis using i b by (simp add: g_def below_def order_antisym)
qed

text \<open>What the loop returns, and that it stops within the given number of passes.\<close>

definition loop_ok :: "cstr list \<Rightarrow> (nat \<Rightarrow> int) \<Rightarrow> bool \<Rightarrow> int list \<times> bool \<Rightarrow> bool" where
  "loop_ok preds l stops st \<longleftrightarrow>
     length (fst st) = length preds \<and>
     (\<not> snd st \<longrightarrow> (\<forall>i < length preds. fst st ! i = l i)) \<and> (stops \<longrightarrow> \<not> snd st)"

lemma settled_card: "card (settled l xs) \<le> length xs" "finite (settled l xs)"
proof -
  have "settled l xs \<subseteq> {..<length xs}" by (auto simp: settled_def)
  from card_mono [OF _ this] finite_subset [OF this]
  show "card (settled l xs) \<le> length xs" "finite (settled l xs)" by simp_all
qed

lemma strata_loop_ok:
  assumes "length xs = length preds" "below l xs" "least_solution (edges preds rs) l"
  shows "loop_ok preds l (length preds \<le> card (settled l xs) + n) (strata_loop preds rs (Suc n) (xs, c))"
  using assms(1,2)
proof (induction n arbitrary: xs c)
  case (0 xs c)
  have es: "\<forall>e \<in> set (edges preds rs). edge_in (length xs) e" using edges_in_range 0 by simp
  obtain ys d where F: "fold relax (edges preds rs) (xs, False) = (ys, d)"
    by (cases "fold relax (edges preds rs) (xs, False)")
  note ok = pass_ok [OF es, of False, unfolded F]
  have len: "length ys = length xs" using ok by (simp add: pass_ok_def)
  have fix0: "\<forall>i < length preds. ys ! i = l i" if "\<not> d"
  proof -
    have "ys = xs" "valid (edges preds rs) (nth xs)" using ok that by (simp_all add: pass_ok_def)
    then show ?thesis using valid_is_least [OF es assms(3) 0(2)] 0(1) by simp
  qed
  have stop: "\<not> d" if "length preds \<le> card (settled l xs)"
  proof -
    have "settled l xs = {..<length xs}"
      by (rule card_subset_eq) (use that 0(1) settled_card [of l xs] in \<open>auto simp: settled_def\<close>)
    then have "\<forall>i < length xs. xs ! i = l i" by (auto simp: settled_def)
    moreover have "valid (edges preds rs) l" using assms(3) by (simp add: least_solution_def)
    ultimately have "valid (edges preds rs) (nth xs)" using es
      by (auto simp: valid_def edge_in_def) fastforce
    then show ?thesis using ok by (simp add: pass_ok_def)
  qed
  show ?case using F len fix0 stop 0(1)
    by (simp add: loop_ok_def pass_relax Let_def del: fold_simps)
next
  case (Suc n xs c)
  have es: "\<forall>e \<in> set (edges preds rs). edge_in (length xs) e" using edges_in_range Suc.prems by simp
  obtain ys d where F: "fold relax (edges preds rs) (xs, False) = (ys, d)"
    by (cases "fold relax (edges preds rs) (xs, False)")
  note ok = pass_ok [OF es, of False, unfolded F]
  have len: "length ys = length preds" using ok Suc.prems(1) by (simp add: pass_ok_def)
  show ?case
  proof (cases d)
    case False
    then have "ys = xs" "valid (edges preds rs) (nth xs)" using ok by (simp_all add: pass_ok_def)
    then have "\<forall>i < length preds. ys ! i = l i"
      using valid_is_least [OF es assms(3) Suc.prems(2)] Suc.prems(1) by simp
    then show ?thesis using False F len by (simp add: loop_ok_def pass_relax Let_def del: fold_simps)
  next
    case True
    note S = pass_settles [OF es assms(3) Suc.prems(2) ok]
    have IH: "loop_ok preds l (length preds \<le> card (settled l ys) + n) (strata_loop preds rs (Suc n) (ys, d))"
      by (rule Suc.IH [OF len S(1)])
    have step: "strata_loop preds rs (Suc (Suc n)) (xs, c) = strata_loop preds rs (Suc n) (ys, d)"
      using F True by (simp add: pass_relax Let_def del: fold_simps)
    have "length preds \<le> card (settled l ys) + n" if "length preds \<le> card (settled l xs) + Suc n"
    proof (cases "settled l ys = settled l xs")
      case True
      then have "card (settled l ys) = length preds" using S(3) Suc.prems(1) by simp
      then show ?thesis by simp
    next
      case False
      then have "settled l xs \<subset> settled l ys" using S(2) by blast
      then have "card (settled l xs) < card (settled l ys)"
        by (rule psubset_card_mono [OF settled_card(2)])
      then show ?thesis using that by simp
    qed
    then show ?thesis using IH unfolding step loop_ok_def by blast
  qed
qed

section \<open>Stratifications of a program\<close>

text \<open>The level of a predicate under \<open>f\<close>; only constant predicates are stratified.\<close>

definition level :: "(cstr \<Rightarrow> int) \<Rightarrow> cstr option \<Rightarrow> int" where
  "level f p = (case p of None \<Rightarrow> 0 | Some s \<Rightarrow> if is_var s then 0 else f s)"

definition obeys :: "(cstr \<Rightarrow> int) \<Rightarrow> datalog_rule \<Rightarrow> spec_fact \<Rightarrow> bool" where
  "obeys f r sub \<longleftrightarrow>
     (if sf_negated sub = None then level f (sf_p sub) \<le> level f (sf_p (head r))
      else level f (sf_p sub) < level f (sf_p (head r)))"

definition stratification :: "datalog_program \<Rightarrow> (cstr \<Rightarrow> int) \<Rightarrow> bool" where
  "stratification prog f \<longleftrightarrow>
     (\<forall>r \<in> set (rules prog). \<forall>sub \<in> set (body r).
        const_pred (sf_p (head r)) \<and> const_pred (sf_p sub) \<longrightarrow> obeys f r sub)"

lemma collect_preds_True:
  "collect_preds ps list h = (True, list', h') \<Longrightarrow>
   set list' = set list \<union> {p. Some p \<in> set ps \<and> \<not> is_var p}"
proof (induction ps arbitrary: list h)
  case (Cons p ps)
  show ?case
  proof (cases "const_pred p")
    case False
    then have "\<And>q. p = Some q \<Longrightarrow> is_var q" by (simp add: const_pred_def)
    then show ?thesis using Cons False by auto
  next
    case True
    then obtain q where q: "p = Some q" "\<not> is_var q" by (auto simp: const_pred_def split: option.splits)
    obtain ok l h1 where a: "add_pred_to_list list p h = (ok, l, h1)"
      by (cases "add_pred_to_list list p h") auto
    with Cons.prems True have ok: "ok" and rest: "collect_preds ps l h1 = (True, list', h')"
      by (simp_all split: if_splits)
    have "set l = insert q (set list)"
      using a q ok by (auto simp: add_pred_to_list_def split: if_splits prod.splits)
    then show ?thesis using Cons.IH [OF rest] q by auto
  qed
qed auto

lemma collect_preds_succeeds:
  "False \<notin> set h \<Longrightarrow> length list + length ps < 2 ^ 61 \<Longrightarrow>
   \<exists>list' h'. collect_preds ps list h = (True, list', h') \<and> False \<notin> set h'"
proof (induction ps arbitrary: list h)
  case (Cons p ps)
  show ?case
  proof (cases "const_pred p")
    case False
    then show ?thesis using Cons.IH [of h list] Cons.prems by simp
  next
    case True
    then obtain q where q: "p = Some q" by (auto simp: const_pred_def split: option.splits)
    obtain b h1 where m: "malloc h = (b, h1)" by (cases "malloc h")
    have b: "b \<and> False \<notin> set h1" by (rule malloc_ok [OF Cons.prems(1) m])
    have room: "length list \<noteq> SIZE_MAX div 8" using Cons.prems(2) by simp
    show ?thesis
    proof (cases "q \<in> set list")
      case True
      then show ?thesis using Cons.IH [of h list] Cons.prems q \<open>const_pred p\<close>
        by (simp add: add_pred_to_list_def)
    next
      case False
      have "\<exists>list' h'. collect_preds ps (list @ [q]) h1 = (True, list', h') \<and> False \<notin> set h'"
        by (rule Cons.IH) (use b Cons.prems(2) in simp_all)
      then show ?thesis using b m False room q \<open>const_pred p\<close>
        by (simp add: add_pred_to_list_def)
    qed
  qed
qed simp

text \<open>The predicates of the list, as nodes.\<close>

definition pred_list :: "datalog_program \<Rightarrow> cstr list \<Rightarrow> bool" where
  "pred_list prog preds \<longleftrightarrow>
     set preds = {p. \<not> is_var p \<and> (\<exists>r \<in> set (rules prog). Some p \<in> set (rule_preds r))}"

lemma collect_pred_list:
  "collect_preds (concat (map rule_preds (rules prog))) [] h = (True, preds, h') \<Longrightarrow> pred_list prog preds"
  using collect_preds_True by (auto simp: pred_list_def)

definition of_strata :: "cstr list \<Rightarrow> (nat \<Rightarrow> int) \<Rightarrow> cstr \<Rightarrow> int" where
  "of_strata preds l p = (case find_pred_idx preds (Some p) of None \<Rightarrow> 0 | Some i \<Rightarrow> l i)"

lemma find_pred_idx_iff:
  assumes "pred_list prog preds" "r \<in> set (rules prog)" "p \<in> set (rule_preds r)"
  shows "find_pred_idx preds p = None \<longleftrightarrow> \<not> const_pred p"
  using assms
  by (auto simp: find_pred_idx_def const_pred_def pred_list_def find_pred_from_None split: option.split)

lemma level_of_strata:
  assumes "const_pred p" "find_pred_idx preds p = Some i"
  shows "level (of_strata preds l) p = l i"
  using assms by (auto simp: level_def of_strata_def const_pred_def split: option.splits)

lemma sub_in_rule_preds: "sub \<in> set (body r) \<Longrightarrow> sf_p sub \<in> set (rule_preds r)"
  and head_in_rule_preds: "sf_p (head r) \<in> set (rule_preds r)"
  by (simp_all add: rule_preds_def)

lemma stratification_edges:
  assumes P: "pred_list prog preds" and r: "r \<in> set (rules prog)" and sub: "sub \<in> set (body r)"
    and c: "const_pred (sf_p (head r))" "const_pred (sf_p sub)"
  obtains h k where "find_pred_idx preds (sf_p (head r)) = Some h"
    "find_pred_idx preds (sf_p sub) = Some k"
    "(k, h, if sf_negated sub = None then 0 else 1) \<in> set (edges preds (rules prog))"
proof -
  obtain h where h: "find_pred_idx preds (sf_p (head r)) = Some h"
    using find_pred_idx_iff [OF P r head_in_rule_preds] c(1) by auto
  obtain k where k: "find_pred_idx preds (sf_p sub) = Some k"
    using find_pred_idx_iff [OF P r sub_in_rule_preds [OF sub]] c(2) by auto
  have "(k, h, if sf_negated sub = None then 0 else 1) \<in> set (sub_edge preds h sub)"
    by (simp add: sub_edge_def k)
  then have "(k, h, if sf_negated sub = None then 0 else 1) \<in> set (rule_edges preds r)"
    using sub unfolding rule_edges_def h by fastforce
  then have "(k, h, if sf_negated sub = None then 0 else 1) \<in> set (edges preds (rules prog))"
    using r unfolding edges_def by fastforce
  with h k show ?thesis by (rule that)
qed

lemma solution_stratifies:
  assumes P: "pred_list prog preds" and v: "valid (edges preds (rules prog)) l"
  shows "stratification prog (of_strata preds l)"
  unfolding stratification_def
proof (intro ballI impI)
  fix r sub assume r: "r \<in> set (rules prog)" and sub: "sub \<in> set (body r)"
    and c: "const_pred (sf_p (head r)) \<and> const_pred (sf_p sub)"
  obtain h k where hk: "find_pred_idx preds (sf_p (head r)) = Some h" "find_pred_idx preds (sf_p sub) = Some k"
      "(k, h, if sf_negated sub = None then 0 else 1) \<in> set (edges preds (rules prog))"
    by (rule stratification_edges [OF P r sub]) (use c in simp_all)
  have "l k + (if sf_negated sub = None then 0 else 1) \<le> l h"
    using bspec [OF v [unfolded valid_def] hk(3)] by simp
  then show "obeys (of_strata preds l) r sub"
    using c level_of_strata [OF _ hk(1)] level_of_strata [OF _ hk(2)]
    by (simp add: obeys_def split: if_splits)
qed

lemma stratification_solves:
  assumes P: "pred_list prog preds" and st: "stratification prog f"
  shows "valid (edges preds (rules prog)) (\<lambda>i. f (preds ! i))"
proof -
  have "f (preds ! u) + w \<le> f (preds ! v)" if e: "(u, v, w) \<in> set (edges preds (rules prog))" for u v w
  proof -
    obtain r where r: "r \<in> set (rules prog)" and er: "(u, v, w) \<in> set (rule_edges preds r)"
      using e by (auto simp: edges_def)
    then obtain sub where h: "find_pred_idx preds (sf_p (head r)) = Some v" and sub: "sub \<in> set (body r)"
      and k: "find_pred_idx preds (sf_p sub) = Some u" and w: "w = (if sf_negated sub = None then 0 else 1)"
      by (auto simp: rule_edges_def sub_edge_def split: option.splits)
    have c: "const_pred (sf_p (head r))" "const_pred (sf_p sub)"
      using find_pred_idx_iff [OF P r head_in_rule_preds] find_pred_idx_iff [OF P r sub_in_rule_preds [OF sub]] h k
      by auto
    have "obeys f r sub" using st r sub c by (simp add: stratification_def)
    moreover have "level f (sf_p (head r)) = f (preds ! v)" "level f (sf_p sub) = f (preds ! u)"
      using find_pred_idx_Some [OF h] find_pred_idx_Some [OF k] c by (simp_all add: level_def const_pred_def)
    ultimately show ?thesis using w by (simp add: obeys_def split: if_splits)
  qed
  then show ?thesis by (auto simp: valid_def)
qed

text \<open>The two halves of the routine: collecting the predicates, and the strata of the rules.\<close>

lemma find_pred_level:
  assumes P: "pred_list prog preds" and r: "r \<in> set (rules prog)"
    and st: "\<forall>i < length preds. xs ! i = l i"
  shows "rule_stratum preds xs r = level (of_strata preds l) (sf_p (head r))"
proof (cases "find_pred_idx preds (sf_p (head r))")
  case None
  then have "\<not> const_pred (sf_p (head r))"
    using find_pred_idx_iff [OF P r head_in_rule_preds] by simp
  then show ?thesis using None by (auto simp: rule_stratum_def level_def const_pred_def split: option.splits)
next
  case (Some i)
  then have "const_pred (sf_p (head r))" "i < length preds"
    using find_pred_idx_iff [OF P r head_in_rule_preds] find_pred_idx_Some [OF Some] by auto
  then show ?thesis using Some st level_of_strata [OF _ Some] by (simp add: rule_stratum_def)
qed

lemma max_stratum_fold:
  "fold (\<lambda>x m. if x > m then x else m) xs (m::int) = Max (insert m (set xs))"
proof (induction xs arbitrary: m)
  case (Cons x xs)
  have "(if x > m then x else m) = Orderings.max x m" by (simp add: max_def)
  then have "fold (\<lambda>x m. if x > m then x else m) (x # xs) m = Max (insert (Orderings.max x m) (set xs))"
    using Cons.IH by simp
  also have "\<dots> = Max (insert m (set (x # xs)))"
    by (cases "xs = []") (simp_all add: ac_simps)
  finally show ?case .
qed simp

lemma max_stratum_Max: "max_stratum xs = Max (insert 0 (set xs))"
  unfolding max_stratum_def by (rule max_stratum_fold)

definition least_stratification :: "datalog_program \<Rightarrow> (cstr \<Rightarrow> int) \<Rightarrow> bool" where
  "least_stratification prog f \<longleftrightarrow> stratification prog f \<and> (\<forall>p. 0 \<le> f p) \<and>
     (\<forall>g. stratification prog g \<and> (\<forall>p. 0 \<le> g p) \<longrightarrow> (\<forall>p. f p \<le> g p))"

lemma least_of_strata:
  assumes P: "pred_list prog preds" and l: "least_solution (edges preds (rules prog)) l"
  shows "least_stratification prog (of_strata preds l)"
proof -
  have l': "valid (edges preds (rules prog)) l" "\<And>i. 0 \<le> l i"
    "\<And>g i. valid (edges preds (rules prog)) g \<Longrightarrow> \<forall>i. 0 \<le> g i \<Longrightarrow> l i \<le> g i"
    using l unfolding least_solution_def by blast+
  have "of_strata preds l p \<le> g p" if g: "stratification prog g" "\<forall>p. 0 \<le> g p" for g p
  proof (cases "find_pred_idx preds (Some p)")
    case (Some i)
    have "l i \<le> g (preds ! i)" by (rule l'(3) [OF stratification_solves [OF P g(1)]]) (simp add: g(2))
    then show ?thesis using Some find_pred_idx_Some [OF Some] by (simp add: of_strata_def)
  qed (simp add: of_strata_def g(2))
  moreover have "0 \<le> of_strata preds l p" for p
    by (simp add: of_strata_def l'(2) split: option.split)
  ultimately show ?thesis
    unfolding least_stratification_def using solution_stratifies [OF P l'(1)] by blast
qed

text \<open>A solution may be shifted to be non-negative.\<close>

lemma shift_solution:
  assumes "\<forall>e \<in> set es. edge_in n e" "valid es f"
  shows "\<exists>g. valid es g \<and> (\<forall>i. 0 \<le> g i)"
proof -
  define m where "m = Min (insert 0 (f ` {..<n}))"
  define g where "g i = (if i < n then f i - m else 0)" for i
  have m: "m \<le> f i" if "i < n" for i unfolding m_def by (rule Min_le) (use that in auto)
  have "g u + w \<le> g v" if "(u, v, w) \<in> set es" for u v w
    using bspec [OF assms(1) that] bspec [OF assms(2) [unfolded valid_def] that]
    by (simp add: g_def edge_in_def)
  then have "valid es g" by (auto simp: valid_def)
  moreover have "0 \<le> g i" for i using m by (simp add: g_def)
  ultimately show ?thesis by blast
qed

lemma strata_loop_valid:
  "length xs = length preds \<Longrightarrow> strata_loop preds rs (Suc n) (xs, c) = (ys, d) \<Longrightarrow> \<not> d \<Longrightarrow>
   valid (edges preds rs) (nth ys)"
proof (induction n arbitrary: xs c)
  case (0 xs c)
  have "\<forall>e \<in> set (edges preds rs). edge_in (length xs) e" using edges_in_range 0 by simp
  from pass_ok [OF this, of False] 0 show ?case
    by (simp add: pass_relax pass_ok_def Let_def del: fold_simps split: if_splits)
next
  case (Suc n xs c)
  have "\<forall>e \<in> set (edges preds rs). edge_in (length xs) e" using edges_in_range Suc.prems(1) by simp
  note ok = pass_ok [OF this, of False]
  obtain zs e where F: "fold relax (edges preds rs) (xs, False) = (zs, e)"
    by (cases "fold relax (edges preds rs) (xs, False)")
  have len: "length zs = length preds" using ok F Suc.prems(1) by (simp add: pass_ok_def)
  have L: "(if \<not> e then (zs, e) else strata_loop preds rs (Suc n) (zs, e)) = (ys, d)"
    using Suc.prems(2) F by (simp add: pass_relax Let_def del: fold_simps split: if_splits)
  show ?case
  proof (cases e)
    case True
    then show ?thesis using L Suc.IH [OF len _ Suc.prems(3), of e] by simp
  next
    case False
    then show ?thesis using L ok F by (simp add: pass_ok_def)
  qed
qed

lemma strata_loop_decides:
  assumes P: "pred_list prog preds"
    and L: "strata_loop preds (rules prog) (length preds + 1) (replicate (length preds) 0, False) = (xs, d)"
  shows "d \<longleftrightarrow> (\<nexists>f. stratification prog f)"
    and "\<not> d \<Longrightarrow> \<exists>f. least_stratification prog f \<and>
           map (rule_stratum preds xs) (rules prog) = map (\<lambda>r. level f (sf_p (head r))) (rules prog)"
proof -
  let ?es = "edges preds (rules prog)"
  let ?zs = "replicate (length preds) (0::int)"
  have L': "strata_loop preds (rules prog) (Suc (length preds)) (?zs, False) = (xs, d)" using L by simp
  have use_solution: "\<not> d \<and> (\<exists>f. least_stratification prog f \<and>
      map (rule_stratum preds xs) (rules prog) = map (\<lambda>r. level f (sf_p (head r))) (rules prog))"
    if v: "valid ?es f" for f
  proof -
    obtain g where g: "valid ?es g" "\<forall>i. 0 \<le> g i" using shift_solution [OF edges_in_range v] by blast
    obtain l where l: "least_solution ?es l" using least_solution_exists [OF g] by blast
    have "below l ?zs" using l by (simp add: below_def least_solution_def)
    from strata_loop_ok [OF _ this l, of "length preds" False] L'
    have ok: "\<not> d" "\<forall>i < length preds. xs ! i = l i" by (simp_all add: loop_ok_def)
    have "map (rule_stratum preds xs) (rules prog) =
        map (\<lambda>r. level (of_strata preds l) (sf_p (head r))) (rules prog)"
      using find_pred_level [OF P _ ok(2)] by simp
    with ok(1) least_of_strata [OF P l] show ?thesis by blast
  qed
  have "\<exists>f. stratification prog f" if "\<not> d"
    using solution_stratifies [OF P strata_loop_valid [OF _ L' that]] by auto
  moreover have "\<not> d" if "stratification prog f" for f
    using use_solution [OF stratification_solves [OF P that]] by simp
  ultimately show "d \<longleftrightarrow> (\<nexists>f. stratification prog f)" by blast
  show "\<exists>f. least_stratification prog f \<and>
           map (rule_stratum preds xs) (rules prog) = map (\<lambda>r. level f (sf_p (head r))) (rules prog)" if "\<not> d"
    using use_solution [OF strata_loop_valid [OF _ L' that]] by simp
qed

section \<open>Properties\<close>

text \<open>Two programs: one with a negation above a positive rule, one with negation in a cycle.\<close>

definition ex_atom :: "cstr \<Rightarrow> cstr \<Rightarrow> cstr \<Rightarrow> bool \<Rightarrow> spec_fact" where
  "ex_atom s p o' n = \<lparr>sf_s = Some s, sf_p = Some p, sf_o = Some o', sf_negated = (if n then Some '':not'' else None)\<rparr>"

definition ex_strata :: datalog_program where
  "ex_strata = \<lparr>rules =
     [\<lparr>head = ex_atom ''?x'' ''reach'' ''?y'' False, body = [ex_atom ''?x'' ''edge'' ''?y'' False]\<rparr>,
      \<lparr>head = ex_atom ''?x'' ''apart'' ''?y'' False,
       body = [ex_atom ''?x'' ''node'' ''?y'' False, ex_atom ''?x'' ''reach'' ''?y'' True]\<rparr>]\<rparr>"

definition ex_win :: datalog_program where
  "ex_win = \<lparr>rules =
     [\<lparr>head = ex_atom ''?x'' ''win'' ''?x'' False,
       body = [ex_atom ''?x'' ''move'' ''?y'' False, ex_atom ''?y'' ''win'' ''?y'' True]\<rparr>]\<rparr>"

text \<open>
  C32: when \<^verbatim>\<open>datalog_program_stratify\<close> returns an array, it holds for every rule the stratum of its
  head in the least stratification of the program: positive dependencies never go down, negative
  ones go up strictly, every stratum is as small as it can be, and the number of strata is one
  more than the largest.
\<close>

theorem stratify_least:
  assumes "datalog_program_stratify prog h = ((Some strata, num), h')"
  shows "\<exists>f. least_stratification prog f \<and>
    strata = map (\<lambda>r. level f (sf_p (head r))) (rules prog) \<and> num = Max (insert 0 (set strata)) + 1"
proof -
  obtain preds h1 where P: "collect_preds (concat (map rule_preds (rules prog))) [] h = (True, preds, h1)"
    using assms by (auto simp: datalog_program_stratify_def split: if_splits prod.splits bool.splits)
  obtain xs d where L: "strata_loop preds (rules prog) (length preds + 1) (replicate (length preds) 0, False) = (xs, d)"
    by (cases "strata_loop preds (rules prog) (length preds + 1) (replicate (length preds) 0, False)")
  have R: "\<not> d" "strata = map (rule_stratum preds xs) (rules prog)" "num = max_stratum strata + 1"
    using assms P L
    by (auto simp add: datalog_program_stratify_def Let_def del: strata_loop.simps
        split: if_splits prod.splits bool.splits)
  from strata_loop_decides(2) [OF collect_pred_list [OF P] L R(1)]
  show ?thesis unfolding R(3) max_stratum_Max R(2) by blast
qed

lemmas ex_simps = ex_atom_def rule_preds_def const_pred_def add_pred_to_list_def dep_step_def rule_step_def
  find_pred_idx_def rule_stratum_def max_stratum_def

theorem stratify_least_witness:
  "\<exists>f. least_stratification ex_strata f \<and>
    [0, 1] = map (\<lambda>r. level f (sf_p (head r))) (rules ex_strata) \<and> 2 = Max (insert 0 (set [0, 1 :: int])) + 1"
proof (rule stratify_least)
  show "datalog_program_stratify ex_strata [True] = ((Some [0, 1], 2), [])"
    by (simp add: datalog_program_stratify_def ex_strata_def ex_simps)
qed

text \<open>
  C33: with no allocation failure, \<^verbatim>\<open>datalog_program_stratify\<close> decides whether a program with a
  constant predicate can be stratified at all: the \<^verbatim>\<open>pred_count + 1\<close> passes are enough. The strata are
  unbounded here; those of the code are the same as long as the number of predicates plus one, times the
  number of subgoals, is less than \<open>2 ^ 31\<close> (\<open>strata_bounded\<close>).
\<close>

theorem stratify_decides:
  assumes mem: "False \<notin> set h"
    and preds: "\<exists>r \<in> set (rules prog). \<exists>p \<in> set (rule_preds r). const_pred p"
    and len: "length (concat (map rule_preds (rules prog))) < 2 ^ 61"
  shows "fst (fst (datalog_program_stratify prog h)) = None \<longleftrightarrow> (\<nexists>f. stratification prog f)"
proof -
  obtain ps h1 where P: "collect_preds (concat (map rule_preds (rules prog))) [] h = (True, ps, h1)"
    and h1: "False \<notin> set h1"
    using collect_preds_succeeds [OF mem, of "[]" "concat (map rule_preds (rules prog))"] len
    by (auto simp del: length_concat)
  note PL = collect_pred_list [OF P]
  have ne: "rules prog \<noteq> []" "ps \<noteq> []"
    using preds PL by (auto simp: pred_list_def const_pred_def split: option.splits)
  obtain b2 h2 where m2: "malloc h1 = (b2, h2)" by (cases "malloc h1")
  note o2 = malloc_ok [OF h1 m2]
  obtain b3 h3 where m3: "malloc h2 = (b3, h3)" by (cases "malloc h2")
  have b3: "b3" using malloc_ok [OF _ m3] o2 by simp
  obtain xs d where L: "strata_loop ps (rules prog) (length ps + 1) (replicate (length ps) 0, False) = (xs, d)"
    by (cases "strata_loop ps (rules prog) (length ps + 1) (replicate (length ps) 0, False)")
  have "fst (fst (datalog_program_stratify prog h)) = None \<longleftrightarrow> d"
    using P ne m2 o2 m3 b3 L by (simp add: datalog_program_stratify_def Let_def del: strata_loop.simps)
  then show ?thesis using strata_loop_decides(1) [OF PL L] by simp
qed

theorem stratify_decides_witness: "\<nexists>f. stratification ex_win f"
proof -
  have "fst (fst (datalog_program_stratify ex_win [])) = None"
    by (simp add: datalog_program_stratify_def ex_win_def ex_simps)
  moreover have "\<exists>r \<in> set (rules ex_win). \<exists>p \<in> set (rule_preds r). const_pred p"
    by (simp add: ex_win_def ex_simps)
  moreover have "length (concat (map rule_preds (rules ex_win))) < 2 ^ 61"
    by (simp add: ex_win_def ex_simps)
  ultimately show ?thesis using stratify_decides [of "[]" ex_win] by simp
qed

end
