(* ===== verification/Arena.thy ===== *)
theory Arena
  imports Symbols
begin

text \<open>
  \<^verbatim>\<open>lib/arena.c\<close>: the slab pool the facts live in, its reference count, and the chunked bump
  allocator of the radix trees. The mutexes only serialise the operations, each of which is
  one step here.
\<close>

section \<open>The slab pool\<close>

text \<open>
  An address is the number of its item, counted over the pages in the order they were
  allocated. The free list is threaded through the free items; the model keeps it as the list
  of their addresses.
\<close>

record slab_pool =
  item_size :: nat
  items_per_page :: nat
  pool_pages :: nat
  free_list :: "addr list"

definition fact_pool0 :: slab_pool where
  "fact_pool0 = \<lparr>item_size = 0, items_per_page = 0, pool_pages = 0, free_list = []\<rparr>"

definition slab_pool_destroy :: "slab_pool \<Rightarrow> slab_pool" where
  "slab_pool_destroy pool = pool\<lparr>pool_pages := 0, free_list := [], items_per_page := 0\<rparr>"

definition slab_pool_alloc :: "slab_pool \<Rightarrow> nat \<Rightarrow> mem \<Rightarrow> addr option \<times> slab_pool \<times> mem" where
  "slab_pool_alloc pool0 isize h =
     (let pool = (if items_per_page pool0 = 0
                  then pool0\<lparr>item_size := (if isize < 8 then 8 else isize), items_per_page := 1024\<rparr>
                  else pool0);
          n = items_per_page pool
      in case free_list pool of
           item # rest \<Rightarrow> (Some item, pool\<lparr>free_list := rest\<rparr>, h)
         | [] \<Rightarrow>
             (case malloc h of
                (False, h') \<Rightarrow> (None, pool, h')
              | (True, h') \<Rightarrow>
                  let page = [pool_pages pool * n ..< (pool_pages pool + 1) * n]
                  in (Some (hd page), pool\<lparr>pool_pages := pool_pages pool + 1, free_list := tl page\<rparr>, h')))"

definition slab_pool_free :: "slab_pool \<Rightarrow> addr option \<Rightarrow> slab_pool" where
  "slab_pool_free pool item =
     (case item of None \<Rightarrow> pool | Some a \<Rightarrow> pool\<lparr>free_list := a # free_list pool\<rparr>)"

text \<open>The pool with its reference count; the pages go away with the last database.\<close>

record arena =
  arena_pool :: slab_pool
  ref_count :: int

definition arena_init :: "arena \<Rightarrow> arena" where
  "arena_init A = A\<lparr>ref_count := ref_count A + 1\<rparr>"

definition arena_destroy :: "arena \<Rightarrow> arena" where
  "arena_destroy A =
     (let A' = A\<lparr>ref_count := ref_count A - 1\<rparr>
      in if ref_count A' = 0 then A'\<lparr>arena_pool := slab_pool_destroy (arena_pool A')\<rparr> else A')"

text \<open>\<^verbatim>\<open>sizeof(s_fact)\<close> is 48.\<close>

definition arena_alloc_fact :: "arena \<Rightarrow> mem \<Rightarrow> addr option \<times> arena \<times> mem" where
  "arena_alloc_fact A h =
     (case slab_pool_alloc (arena_pool A) 48 h of (r, pool, h') \<Rightarrow> (r, A\<lparr>arena_pool := pool\<rparr>, h'))"

definition arena_free_fact :: "arena \<Rightarrow> addr option \<Rightarrow> arena" where
  "arena_free_fact A p = A\<lparr>arena_pool := slab_pool_free (arena_pool A) p\<rparr>"

section \<open>The contract of an allocator of facts\<close>

locale allocator =
  fixes inv :: "'p \<Rightarrow> bool"
    and live :: "'p \<Rightarrow> addr set"
    and alloc :: "'p \<Rightarrow> mem \<Rightarrow> addr option \<times> 'p \<times> mem"
    and release :: "'p \<Rightarrow> addr option \<Rightarrow> 'p"
  assumes alloc_Some: "inv p \<Longrightarrow> alloc p h = (Some a, p', h') \<Longrightarrow>
        inv p' \<and> a \<notin> live p \<and> live p' = insert a (live p)"
    and alloc_None: "inv p \<Longrightarrow> alloc p h = (None, p', h') \<Longrightarrow> inv p' \<and> live p' = live p"
    and alloc_succeeds: "inv p \<Longrightarrow> alloc p [] = (r, p', h') \<Longrightarrow> r \<noteq> None \<and> h' = []"
    and release_live: "inv p \<Longrightarrow> a \<in> live p \<Longrightarrow> inv (release p (Some a)) \<and> live (release p (Some a)) = live p - {a}"
begin

lemma alloc_release:
  assumes "inv p" "alloc p h = (Some a, p', h')"
  shows "inv (release p' (Some a)) \<and> live (release p' (Some a)) = live p"
  using alloc_Some [OF assms] release_live [of p' a] by auto

text \<open>A released address is free, and another live one stays live.\<close>

lemma release_other: "inv p \<Longrightarrow> a \<in> live p \<Longrightarrow> b \<in> live p \<Longrightarrow> b \<noteq> a \<Longrightarrow> b \<in> live (release p (Some a))"
  using release_live [of p a] by blast

end

definition pool_ok :: "slab_pool \<Rightarrow> bool" where
  "pool_ok p \<longleftrightarrow> distinct (free_list p) \<and> set (free_list p) \<subseteq> {..<pool_pages p * 1024} \<and>
     (items_per_page p = 1024 \<or> (items_per_page p = 0 \<and> pool_pages p = 0))"

definition pool_live :: "slab_pool \<Rightarrow> addr set" where
  "pool_live p = {..<pool_pages p * 1024} - set (free_list p)"

lemma slab_pool_alloc_cases:
  assumes "pool_ok p"
  obtains (null) p' h' where "slab_pool_alloc p sz h = (None, p', h')" "h \<noteq> []" "pool_ok p'" "pool_live p' = pool_live p"
  | (item) a p' h' where "slab_pool_alloc p sz h = (Some a, p', h')" "pool_ok p'" "a \<notin> pool_live p"
      "pool_live p' = insert a (pool_live p)" "h = [] \<longrightarrow> h' = []"
proof -
  define q where "q = (if items_per_page p = 0
     then p\<lparr>item_size := (if sz < 8 then 8 else sz), items_per_page := 1024\<rparr> else p)"
  have q: "items_per_page q = 1024" "pool_pages q = pool_pages p" "free_list q = free_list p"
    using assms by (auto simp: q_def pool_ok_def)
  have qok: "pool_ok q" "pool_live q = pool_live p" using assms q by (auto simp: pool_ok_def pool_live_def)
  show ?thesis
  proof (cases "free_list q")
    case (Cons item rest)
    let ?p' = "q\<lparr>free_list := rest\<rparr>"
    have "slab_pool_alloc p sz h = (Some item, ?p', h)"
      using Cons by (simp add: slab_pool_alloc_def q_def [symmetric] Let_def)
    moreover have "pool_ok ?p'" using qok(1) Cons q(1) by (simp add: pool_ok_def)
    moreover have "item \<notin> pool_live p" "pool_live ?p' = insert item (pool_live p)"
      using qok Cons unfolding pool_ok_def pool_live_def by (auto simp: q)
    ultimately show ?thesis by (intro item [of item ?p' h]) simp_all
  next
    case Nil
    obtain ok h' where m: "malloc h = (ok, h')" by (cases "malloc h")
    show ?thesis
    proof (cases ok)
      case False
      then have "slab_pool_alloc p sz h = (None, q, h')" "h \<noteq> []"
        using Nil m by (auto simp: slab_pool_alloc_def q_def [symmetric] Let_def)
      then show ?thesis using qok by (rule null)
    next
      case True
      let ?a = "pool_pages p * 1024"
      let ?p' = "q\<lparr>pool_pages := pool_pages p + 1, free_list := [Suc ?a..<?a + 1024]\<rparr>"
      have "[?a..<(pool_pages p + 1) * 1024] = ?a # [Suc ?a..<?a + 1024]"
        by (subst upt_conv_Cons) (simp_all add: algebra_simps)
      then have "slab_pool_alloc p sz h = (Some ?a, ?p', h')"
        using Nil m True q by (simp add: slab_pool_alloc_def q_def [symmetric] Let_def)
      moreover have "pool_ok ?p'" using q by (auto simp: pool_ok_def)
      moreover have "pool_live ?p' = insert ?a (pool_live p)" "?a \<notin> pool_live p"
        using Nil q by (auto simp: pool_live_def)
      ultimately show ?thesis using m by (intro item [of ?a ?p' h']) auto
    qed
  qed
qed

definition arena_ok :: "arena \<Rightarrow> bool" where
  "arena_ok A \<longleftrightarrow> pool_ok (arena_pool A)"

definition arena_live :: "arena \<Rightarrow> addr set" where
  "arena_live A = pool_live (arena_pool A)"

lemma arena_alloc_fact_cases:
  assumes "arena_ok A"
  obtains (null) A' h' where "arena_alloc_fact A h = (None, A', h')" "h \<noteq> []" "arena_ok A'"
      "arena_live A' = arena_live A"
  | (item) a A' h' where "arena_alloc_fact A h = (Some a, A', h')" "arena_ok A'" "a \<notin> arena_live A"
      "arena_live A' = insert a (arena_live A)" "h = [] \<longrightarrow> h' = []"
proof -
  have ok: "pool_ok (arena_pool A)" using assms by (simp add: arena_ok_def)
  show ?thesis
  proof (cases rule: slab_pool_alloc_cases [OF ok, of 48 h])
    case (1 p' h')
    then show ?thesis
      by (intro null [of "A\<lparr>arena_pool := p'\<rparr>" h'])
        (simp_all add: arena_alloc_fact_def arena_ok_def arena_live_def)
  next
    case (2 a p' h')
    then show ?thesis
      by (intro item [of a "A\<lparr>arena_pool := p'\<rparr>" h'])
        (simp_all add: arena_alloc_fact_def arena_ok_def arena_live_def)
  qed
qed

interpretation ar: allocator arena_ok arena_live arena_alloc_fact arena_free_fact
proof (unfold_locales, goal_cases)
  case (1 p h a p' h')
  show ?case by (rule arena_alloc_fact_cases [OF 1(1), of h]) (use 1(2) in simp_all)
next
  case (2 p h p' h')
  show ?case by (rule arena_alloc_fact_cases [OF 2(1), of h]) (use 2(2) in simp_all)
next
  case (3 p r p' h')
  show ?case by (rule arena_alloc_fact_cases [OF 3(1), of "[]"]) (use 3(2) in simp_all)
next
  case (4 p a)
  then show ?case
    by (auto simp: arena_ok_def arena_live_def arena_free_fact_def slab_pool_free_def pool_ok_def pool_live_def)
qed

section \<open>The arena of the radix trees\<close>

text \<open>A list of chunks; a pointer is the position of its chunk in the list and an offset.\<close>

record rax_chunk =
  rc_offset :: nat
  rc_capacity :: nat
  rc_chunk_size :: nat

definition rax_arena_new_chunk :: "nat \<Rightarrow> mem \<Rightarrow> rax_chunk option \<times> mem" where
  "rax_arena_new_chunk chunk_size h =
     (case malloc h of
        (False, h1) \<Rightarrow> (None, h1)
      | (True, h1) \<Rightarrow>
          (case malloc h1 of
             (False, h2) \<Rightarrow> (None, h2)
           | (True, h2) \<Rightarrow>
               (Some \<lparr>rc_offset = 0, rc_capacity = chunk_size, rc_chunk_size = chunk_size\<rparr>, h2)))"

definition rax_arena_create :: "nat \<Rightarrow> mem \<Rightarrow> rax_chunk list option \<times> mem" where
  "rax_arena_create chunk_size h =
     (case rax_arena_new_chunk chunk_size h of (c, h') \<Rightarrow> (map_option (\<lambda>c. [c]) c, h'))"

definition chunk_fits :: "rax_chunk \<Rightarrow> nat \<Rightarrow> bool" where
  "chunk_fits c sz \<longleftrightarrow> rc_capacity c - rc_offset c \<ge> sz"

text \<open>The loop over the chunks, \<open>i\<close> the position of the first; a new chunk is appended at the end.\<close>

function chunk_alloc ::
  "nat \<Rightarrow> rax_chunk list \<Rightarrow> nat \<Rightarrow> mem \<Rightarrow> (nat \<times> nat) option \<times> rax_chunk list \<times> mem" where
  "chunk_alloc i [] sz h = (None, [], h)"
| "chunk_alloc i (c # cs) sz h =
     (if chunk_fits c sz then (Some (i, rc_offset c), c\<lparr>rc_offset := rc_offset c + sz\<rparr> # cs, h)
      else (case (if cs = [] then
                    (case rax_arena_new_chunk (if sz > rc_chunk_size c then sz else rc_chunk_size c) h of
                       (None, h') \<Rightarrow> ([], h')
                     | (Some c', h') \<Rightarrow> ([c'], h'))
                  else (cs, h)) of
              ([], h') \<Rightarrow> (None, [c], h')
            | (c' # cs', h') \<Rightarrow> (case chunk_alloc (Suc i) (c' # cs') sz h' of (r, cs'', h'') \<Rightarrow> (r, c # cs'', h''))))"
  by pat_completeness auto
termination
  by (relation "measure (\<lambda>(i, cs, sz, h). length cs + (if cs \<noteq> [] \<and> chunk_fits (last cs) sz then 0 else 1))")
    (auto simp: rax_arena_new_chunk_def chunk_fits_def split: if_splits prod.splits bool.splits option.splits)

definition rax_arena_alloc ::
  "rax_chunk list \<Rightarrow> nat \<Rightarrow> mem \<Rightarrow> (nat \<times> nat) option \<times> rax_chunk list \<times> mem" where
  "rax_arena_alloc chunks sz h = chunk_alloc 0 chunks ((sz + 7) mod 2 ^ 64 div 8 * 8) h"

text \<open>The bytes handed out.\<close>

definition chunks_ok :: "rax_chunk list \<Rightarrow> bool" where
  "chunks_ok cs \<longleftrightarrow> (\<forall>c \<in> set cs. rc_offset c \<le> rc_capacity c \<and> 8 dvd rc_offset c)"

definition chunk_bytes :: "nat \<Rightarrow> rax_chunk list \<Rightarrow> (nat \<times> nat) set" where
  "chunk_bytes i cs = {(n, off). i \<le> n \<and> n < i + length cs \<and> off < rc_offset (cs ! (n - i))}"

lemma chunk_bytes_Cons: "chunk_bytes i (c # cs) = {i} \<times> {..<rc_offset c} \<union> chunk_bytes (Suc i) cs"
  by (auto simp: chunk_bytes_def nth_Cons' Suc_le_eq le_less split: if_splits)

lemma chunk_bytes_other: "(i, off) \<notin> chunk_bytes (Suc i) cs"
  by (simp add: chunk_bytes_def)

definition allocated :: "nat \<Rightarrow> rax_chunk list \<Rightarrow> nat \<Rightarrow> (nat \<times> nat) option \<times> rax_chunk list \<times> mem \<Rightarrow> bool" where
  "allocated i cs sz r \<longleftrightarrow>
     (case r of (q, cs', h') \<Rightarrow> chunks_ok cs' \<and>
        (case q of
           None \<Rightarrow> cs' = cs
         | Some (n, off) \<Rightarrow> i \<le> n \<and> n < i + length cs' \<and> 8 dvd off \<and> off + sz \<le> rc_capacity (cs' ! (n - i)) \<and>
             chunk_bytes i cs \<inter> {n} \<times> {off..<off + sz} = {} \<and>
             chunk_bytes i cs' = chunk_bytes i cs \<union> {n} \<times> {off..<off + sz}))"

lemma chunk_alloc_here:
  assumes "8 dvd sz" "chunks_ok (c # cs)" "chunk_fits c sz"
  shows "allocated i (c # cs) sz (Some (i, rc_offset c), c\<lparr>rc_offset := rc_offset c + sz\<rparr> # cs, h)"
proof -
  have "rc_offset c + sz \<le> rc_capacity c" using assms(2,3) by (auto simp: chunks_ok_def chunk_fits_def)
  moreover have "chunk_bytes i (c # cs) \<inter> {i} \<times> {rc_offset c..<rc_offset c + sz} = {}"
    by (auto simp: chunk_bytes_Cons chunk_bytes_other)
  moreover have "chunk_bytes i (c\<lparr>rc_offset := rc_offset c + sz\<rparr> # cs) =
      chunk_bytes i (c # cs) \<union> {i} \<times> {rc_offset c..<rc_offset c + sz}"
    by (auto simp: chunk_bytes_Cons)
  ultimately show ?thesis using assms(1,2) by (simp add: allocated_def chunks_ok_def)
qed

text \<open>An allocation in the rest of the list is one in the whole list.\<close>

lemma allocated_Cons:
  assumes A: "allocated (Suc i) cs sz (q, cs', h')" and c: "chunks_ok [c]"
  shows "allocated i (c # cs) sz (q, c # cs', h')"
proof (cases q)
  case None
  with A c show ?thesis by (simp add: allocated_def chunks_ok_def)
next
  case (Some p)
  obtain n off where p: "p = (n, off)" by (cases p)
  from A have a: "chunks_ok cs'" "Suc i \<le> n" "n < Suc i + length cs'" "8 dvd off"
      "off + sz \<le> rc_capacity (cs' ! (n - Suc i))"
      "chunk_bytes (Suc i) cs \<inter> {n} \<times> {off..<off + sz} = {}"
      "chunk_bytes (Suc i) cs' = chunk_bytes (Suc i) cs \<union> {n} \<times> {off..<off + sz}"
    by (simp_all add: allocated_def Some p)
  have "(c # cs') ! (n - i) = cs' ! (n - Suc i)" using a(2) by (simp add: nth_Cons')
  moreover have "chunk_bytes i (c # cs) \<inter> {n} \<times> {off..<off + sz} = {}"
    using a(2,6) by (auto simp: chunk_bytes_Cons)
  moreover have "chunk_bytes i (c # cs') = chunk_bytes i (c # cs) \<union> {n} \<times> {off..<off + sz}"
    by (simp add: chunk_bytes_Cons a(7) Un_assoc)
  ultimately show ?thesis using a c by (simp add: allocated_def Some p chunks_ok_def)
qed

lemma chunk_alloc_allocated:
  assumes "8 dvd sz" "chunks_ok cs"
  shows "allocated i cs sz (chunk_alloc i cs sz h)"
  using assms
proof (induction i cs sz h rule: chunk_alloc.induct)
  case (1 i sz h)
  then show ?case by (simp add: allocated_def)
next
  case (2 i c cs sz h)
  have c: "chunks_ok [c]" and cs: "chunks_ok cs" using "2.prems"(2) by (simp_all add: chunks_ok_def)
  show ?case
  proof (cases "chunk_fits c sz")
    case True
    then show ?thesis using chunk_alloc_here [OF "2.prems" True, of i h] by simp
  next
    case full: False
    show ?thesis
    proof (cases cs)
      case Nil
      obtain r h1 where n: "rax_arena_new_chunk (if sz > rc_chunk_size c then sz else rc_chunk_size c) h = (r, h1)"
        by (cases "rax_arena_new_chunk (if sz > rc_chunk_size c then sz else rc_chunk_size c) h")
      show ?thesis
      proof (cases r)
        case None
        then show ?thesis using full Nil n "2.prems"(2) by (simp add: allocated_def)
      next
        case (Some c')
        then have c': "rc_offset c' = 0" "sz \<le> rc_capacity c'"
          using n by (auto simp: rax_arena_new_chunk_def split: if_splits prod.splits bool.splits)
        then have f: "chunk_fits c' sz" "chunks_ok [c']" by (simp_all add: chunk_fits_def chunks_ok_def)
        have e: "chunk_bytes (Suc i) [] = chunk_bytes (Suc i) [c']"
          by (auto simp: chunk_bytes_def c'(1))
        have "allocated (Suc i) [] sz (Some (Suc i, rc_offset c'), [c'\<lparr>rc_offset := rc_offset c' + sz\<rparr>], h1)"
          using chunk_alloc_here [OF "2.prems"(1) f(2,1), of "Suc i" h1]
          unfolding allocated_def prod.case option.case e .
        from allocated_Cons [OF this c] show ?thesis using full Nil n Some f(1) by simp
      qed
    next
      case (Cons d ds)
      obtain r cs'' h'' where r: "chunk_alloc (Suc i) cs sz h = (r, cs'', h'')"
        by (cases "chunk_alloc (Suc i) cs sz h")
      have "allocated (Suc i) cs sz (chunk_alloc (Suc i) cs sz h)"
        unfolding Cons by (rule "2.IH") (use full Cons "2.prems"(1) cs in simp_all)
      from allocated_Cons [OF this [unfolded r] c] show ?thesis using full Cons r by simp
    qed
  qed
qed

section \<open>Properties\<close>

text \<open>
  C37: the pool never hands out a fact that is in use: an allocation returns an address that was not
  live and makes exactly it live, or fails and changes nothing; freeing it again restores the
  live facts.
\<close>

theorem arena_alloc_fact_fresh:
  assumes "arena_ok A" "arena_alloc_fact A h = (r, A', h')"
  shows "arena_ok A' \<and>
    (case r of
       None \<Rightarrow> arena_live A' = arena_live A
     | Some a \<Rightarrow> a \<notin> arena_live A \<and> arena_live A' = insert a (arena_live A) \<and>
         arena_ok (arena_free_fact A' (Some a)) \<and> arena_live (arena_free_fact A' (Some a)) = arena_live A)"
proof (cases r)
  case None
  then show ?thesis using ar.alloc_None [OF assms(1)] assms(2) by simp
next
  case (Some a)
  then show ?thesis using ar.alloc_Some [OF assms(1)] ar.alloc_release [OF assms(1)] assms(2) by simp
qed

definition ex_arena :: arena where
  "ex_arena = \<lparr>arena_pool = fact_pool0, ref_count = 1\<rparr>"

lemma ex_arena_ok: "arena_ok ex_arena" "arena_live ex_arena = {}"
  by (simp_all add: ex_arena_def arena_ok_def arena_live_def pool_ok_def pool_live_def fact_pool0_def)

theorem arena_alloc_fact_fresh_witness:
  "\<exists>A'. arena_alloc_fact ex_arena [] = (Some 0, A', []) \<and> arena_live A' = {0} \<and>
     arena_live (arena_free_fact A' (Some 0)) = {}"
proof -
  obtain r A' h' where a: "arena_alloc_fact ex_arena [] = (r, A', h')" by (cases "arena_alloc_fact ex_arena []")
  then have r: "r = Some 0" "h' = []"
    by (auto simp: arena_alloc_fact_def ex_arena_def fact_pool0_def slab_pool_alloc_def Let_def)
  from arena_alloc_fact_fresh [OF ex_arena_ok(1) a] a r ex_arena_ok(2) show ?thesis by simp
qed

text \<open>
  C38: \<^verbatim>\<open>rax_arena_alloc\<close> returns an aligned block inside a chunk that overlaps no block handed out
  before, and exactly its bytes become used; when it fails the chunks are unchanged.
\<close>

theorem rax_arena_alloc_fresh:
  assumes "chunks_ok cs" "sz \<le> 2 ^ 63" "rax_arena_alloc cs sz h = (Some (n, off), cs', h')"
  shows "chunks_ok cs' \<and> 8 dvd off \<and> off + sz \<le> rc_capacity (cs' ! n) \<and>
    chunk_bytes 0 cs \<inter> {n} \<times> {off..<off + sz} = {} \<and>
    {n} \<times> {off..<off + sz} \<subseteq> chunk_bytes 0 cs' \<and> chunk_bytes 0 cs \<subseteq> chunk_bytes 0 cs'"
proof -
  let ?a = "(sz + 7) mod 2 ^ 64 div 8 * 8"
  have "(sz + 7) mod 2 ^ 64 = sz + 7" using assms(2) by (intro mod_less) simp
  then have a: "sz \<le> ?a" "8 dvd ?a" by (simp_all add: mult.commute)
  have A: "allocated 0 cs ?a (Some (n, off), cs', h')"
    using chunk_alloc_allocated [OF a(2) assms(1), of 0 h] assms(3) by (simp add: rax_arena_alloc_def)
  have sub: "{n} \<times> {off..<off + sz} \<subseteq> {n} \<times> {off..<off + ?a}" using a(1) by auto
  from A have "chunks_ok cs'" "8 dvd off" "off + ?a \<le> rc_capacity (cs' ! n)"
      "chunk_bytes 0 cs \<inter> {n} \<times> {off..<off + ?a} = {}"
      "chunk_bytes 0 cs' = chunk_bytes 0 cs \<union> {n} \<times> {off..<off + ?a}"
    by (simp_all add: allocated_def)
  with sub a(1) show ?thesis by auto
qed

theorem rax_arena_alloc_fresh_witness:
  "chunk_bytes 0 [\<lparr>rc_offset = 8, rc_capacity = 16, rc_chunk_size = 16\<rparr>] \<inter> {1} \<times> {0..<13} = {}"
proof -
  have "rax_arena_alloc [\<lparr>rc_offset = 8, rc_capacity = 16, rc_chunk_size = 16\<rparr>] 13 [] =
      (Some (1, 0), [\<lparr>rc_offset = 8, rc_capacity = 16, rc_chunk_size = 16\<rparr>,
                     \<lparr>rc_offset = 16, rc_capacity = 16, rc_chunk_size = 16\<rparr>], [])"
    by (simp add: rax_arena_alloc_def chunk_fits_def rax_arena_new_chunk_def)
  from rax_arena_alloc_fresh [OF _ _ this] show ?thesis by (simp add: chunks_ok_def)
qed

end
