(* ===== verification/Random_Gen.thy ===== *)
theory Random_Gen
  imports Prelude
begin

text \<open>
  \<^verbatim>\<open>lib/random.c\<close>, the generators splitmix64 and xoshiro256**, and \<^verbatim>\<open>random_id\<close> of
  \<^verbatim>\<open>lib/facts.c\<close>, which draws the names of anonymous symbols. All arithmetic is that of
  \<^verbatim>\<open>uint64_t\<close>.
\<close>

section \<open>The generators\<close>

definition splitmix64_mix :: "u64 \<Rightarrow> u64" where
  "splitmix64_mix x =
     (let z1 = (x XOR drop_bit 30 x) * 0xbf58476d1ce4e5b9;
          z2 = (z1 XOR drop_bit 27 z1) * 0x94d049bb133111eb
      in z2 XOR drop_bit 31 z2)"

text \<open>The output and the new state.\<close>

definition splitmix64_next :: "u64 \<Rightarrow> u64 \<times> u64" where
  "splitmix64_next x = (let x' = x + 0x9e3779b97f4a7c15 in (splitmix64_mix x', x'))"

record xoshiro =
  xs0 :: u64
  xs1 :: u64
  xs2 :: u64
  xs3 :: u64

definition xoshiro256_init :: xoshiro where
  "xoshiro256_init = \<lparr>xs0 = 0x1234567890abcdef, xs1 = 0xfedcba0987654321,
     xs2 = 0x0f0f0f0f0f0f0f0f, xs3 = 0xf0f0f0f0f0f0f0f0\<rparr>"

definition rotl :: "u64 \<Rightarrow> nat \<Rightarrow> u64" where
  "rotl x k = push_bit k x OR drop_bit (64 - k) x"

definition xoshiro256_seed :: "u64 \<Rightarrow> xoshiro" where
  "xoshiro256_seed seed =
     (case splitmix64_next seed of (a, x1) \<Rightarrow>
      case splitmix64_next x1 of (b, x2) \<Rightarrow>
      case splitmix64_next x2 of (c, x3) \<Rightarrow>
      case splitmix64_next x3 of (d, x4) \<Rightarrow>
        \<lparr>xs0 = a, xs1 = b, xs2 = c, xs3 = d\<rparr>)"

definition xoshiro256_next :: "xoshiro \<Rightarrow> u64 \<times> xoshiro" where
  "xoshiro256_next st =
     (let result = rotl (xs1 st * 5) 7 * 9;
          t = push_bit 17 (xs1 st);
          s2 = xs2 st XOR xs0 st;
          s3 = xs3 st XOR xs1 st;
          s1 = xs1 st XOR s2;
          s0 = xs0 st XOR s3
      in (result, \<lparr>xs0 = s0, xs1 = s1, xs2 = s2 XOR t, xs3 = rotl s3 45\<rparr>))"

section \<open>Random identifiers\<close>

definition base64url :: cstr where
  "base64url = ''ABCDEFGHIJKLMNOPQRSTUVWXYZabcdefghijklmnopqrstuvwxyz0123456789-_''"

text \<open>\<open>r\<close> are the bits drawn, \<open>bits\<close> how many of them are left.\<close>

fun random_chars :: "nat \<Rightarrow> u64 \<Rightarrow> nat \<Rightarrow> xoshiro \<Rightarrow> cstr \<times> xoshiro" where
  "random_chars 0 r bits st = ([], st)"
| "random_chars (Suc n) r bits st =
     (case (if bits < 6 then (case xoshiro256_next st of (r', st') \<Rightarrow> (r', 64, st')) else (r, bits, st)) of
        (r1, bits1, st1) \<Rightarrow>
          (case random_chars n (drop_bit 6 r1) (bits1 - 6) st1 of
             (cs, st2) \<Rightarrow> (base64url ! unat (r1 AND 63) # cs, st2)))"

definition random_id :: "nat \<Rightarrow> xoshiro \<Rightarrow> cstr \<times> xoshiro" where
  "random_id len st = (case xoshiro256_next st of (r, st') \<Rightarrow> random_chars len r 64 st')"

section \<open>The state is never all zero\<close>

definition zero_state :: xoshiro where
  "zero_state = \<lparr>xs0 = 0, xs1 = 0, xs2 = 0, xs3 = 0\<rparr>"

lemma rotl_eq_0:
  assumes "0 < k" "k < 64" "rotl x k = 0"
  shows "x = 0"
proof -
  have "\<not> bit x n" if n: "n < 64" for n
  proof (cases "n + k < 64")
    case True
    have "\<not> bit (rotl x k) (n + k)" using assms(3) by simp
    then show ?thesis using True by (simp add: rotl_def bit_or_iff bit_push_bit_iff)
  next
    case False
    have "\<not> bit (rotl x k) (n + k - 64)" using assms(3) by simp
    then show ?thesis using False assms(1,2) n
      by (simp add: rotl_def bit_or_iff bit_drop_bit_eq)
  qed
  then show ?thesis by (intro bit_word_eqI) simp
qed

lemma shift_fixpoint:
  fixes x :: u64
  assumes "0 < k" "x = push_bit k x"
  shows "x = 0"
proof -
  have "\<not> bit x n" for n
  proof (induction n rule: less_induct)
    case (less n)
    have "bit x n \<longleftrightarrow> bit (push_bit k x) n" using assms(2) by simp
    also have "\<dots> \<longleftrightarrow> k \<le> n \<and> n < 64 \<and> bit x (n - k)"
      by (auto simp: bit_push_bit_iff)
    finally show ?case using less [of "n - k"] assms(1) by (cases "k \<le> n") auto
  qed
  then show ?thesis by (intro bit_word_eqI) simp
qed

lemma xor_eq_0: "(a::u64) XOR b = 0 \<longleftrightarrow> a = b"
  by (metis bit.xor_cancel_right bit.xor_self xor.commute xor.left_commute xor.right_neutral xor_self_eq)

lemma xoshiro256_next_nonzero:
  assumes "snd (xoshiro256_next st) = zero_state"
  shows "st = zero_state"
proof -
  define a where "a = xs0 st" define b where "b = xs1 st" define c where "c = xs2 st" define d where "d = xs3 st"
  from assms have z: "a XOR (d XOR b) = 0" "b XOR (c XOR a) = 0" "c XOR a XOR push_bit 17 b = 0" "rotl (d XOR b) 45 = 0"
    by (simp_all add: xoshiro256_next_def zero_state_def Let_def a_def b_def c_def d_def xor.assoc)
  have db: "d XOR b = 0" by (rule rotl_eq_0 [OF _ _ z(4)]) simp_all
  then have a0: "a = 0" using z(1) by simp
  then have bc: "b = c" using z(2) by (simp add: xor_eq_0)
  then have "b = push_bit 17 b" using z(3) a0 by (simp add: xor_eq_0)
  then have "b = 0" by (intro shift_fixpoint [of 17]) simp_all
  with db bc a0 show ?thesis by (simp add: zero_state_def xor_eq_0 a_def b_def c_def d_def)
qed

text \<open>The output function of splitmix64 is injective, so at most one of four outputs in a row is 0.\<close>

lemma xorshift_inj:
  fixes x y :: u64
  assumes "0 < k" "x XOR drop_bit k x = y XOR drop_bit k y"
  shows "x = y"
proof -
  let ?w = "x XOR y"
  have same: "bit ?w n \<longleftrightarrow> bit ?w (n + k)" if "n < 64" for n
  proof -
    have "bit (x XOR drop_bit k x) n \<longleftrightarrow> bit (y XOR drop_bit k y) n" using assms(2) by simp
    then show ?thesis by (auto simp: bit_xor_iff bit_drop_bit_eq add.commute)
  qed
  have "\<not> bit ?w n" if "n = 64 - m" for n m
    using that
  proof (induction m arbitrary: n rule: less_induct)
    case (less m)
    show ?case
    proof (cases "n < 64")
      case True
      show ?thesis
      proof (cases "n + k < 64")
        case True
        then have "\<not> bit ?w (n + k)" using less.IH [of "64 - (n + k)" "n + k"] less.prems assms(1) by simp
        then show ?thesis using same [OF \<open>n < 64\<close>] by simp
      next
        case False
        then have "\<not> bit ?w (n + k)" using bit_imp_le_length [of ?w "n + k"] by auto
        then show ?thesis using same [OF \<open>n < 64\<close>] by simp
      qed
    next
      case False
      then show ?thesis using bit_imp_le_length [of ?w n] by auto
    qed
  qed
  then have "\<not> bit ?w n" if "n < 64" for n using that by (metis diff_diff_cancel less_imp_le)
  then have "?w = 0" by (intro bit_word_eqI) simp
  then show ?thesis by (simp only: xor_eq_0)
qed

lemma mult_inverse_inj:
  fixes x y c d :: u64
  assumes "c * d = 1" "x * c = y * c"
  shows "x = y"
proof -
  have "x = x * c * d" using assms(1) by (simp add: mult.assoc)
  also have "\<dots> = y * c * d" using assms(2) by simp
  also have "\<dots> = y" using assms(1) by (simp add: mult.assoc)
  finally show ?thesis .
qed

lemma splitmix64_mix_inj: "splitmix64_mix x = splitmix64_mix y \<Longrightarrow> x = y"
proof -
  assume eq: "splitmix64_mix x = splitmix64_mix y"
  have c1: "(0xbf58476d1ce4e5b9 :: u64) * 0x96de1b173f119089 = 1" by simp
  have c2: "(0x94d049bb133111eb :: u64) * 0x319642b2d24d8ec3 = 1" by simp
  let ?z1 = "\<lambda>x. (x XOR drop_bit 30 x) * (0xbf58476d1ce4e5b9 :: u64)"
  let ?z2 = "\<lambda>x. (x XOR drop_bit 27 x) * (0x94d049bb133111eb :: u64)"
  have "?z2 (?z1 x) XOR drop_bit 31 (?z2 (?z1 x)) = ?z2 (?z1 y) XOR drop_bit 31 (?z2 (?z1 y))"
    using eq unfolding splitmix64_mix_def Let_def .
  then have "?z2 (?z1 x) = ?z2 (?z1 y)" by (rule xorshift_inj [rotated]) simp
  then have "?z1 x XOR drop_bit 27 (?z1 x) = ?z1 y XOR drop_bit 27 (?z1 y)" by (rule mult_inverse_inj [OF c2])
  then have "?z1 x = ?z1 y" by (rule xorshift_inj [rotated]) simp
  then have "x XOR drop_bit 30 x = y XOR drop_bit 30 y" by (rule mult_inverse_inj [OF c1])
  then show "x = y" by (rule xorshift_inj [rotated]) simp
qed

lemma xoshiro256_seed_nonzero: "xoshiro256_seed seed \<noteq> zero_state"
proof
  define c where "c = (0x9e3779b97f4a7c15 :: u64)"
  have c: "c \<noteq> 0" by (simp add: c_def)
  assume "xoshiro256_seed seed = zero_state"
  then have "splitmix64_mix (seed + c) = 0" "splitmix64_mix (seed + c + c) = 0"
    by (simp_all add: xoshiro256_seed_def zero_state_def splitmix64_next_def Let_def c_def [symmetric])
  then have "splitmix64_mix (seed + c) = splitmix64_mix (seed + c + c)" by (simp only:)
  then have "seed + c = seed + c + c" by (rule splitmix64_mix_inj)
  then show False using c by simp
qed

section \<open>Properties\<close>

text \<open>The state after \<open>n\<close> draws.\<close>

fun draws :: "nat \<Rightarrow> xoshiro \<Rightarrow> xoshiro" where
  "draws 0 st = st"
| "draws (Suc n) st = draws n (snd (xoshiro256_next st))"

text \<open>
  seeded with any number, or started from its initial state, xoshiro256** never falls into the
  all-zero state, from which it would only ever return 0.
\<close>

theorem xoshiro256_never_zero:
  "draws n (xoshiro256_seed seed) \<noteq> zero_state \<and> draws n xoshiro256_init \<noteq> zero_state"
proof -
  have step: "draws n st \<noteq> zero_state" if "st \<noteq> zero_state" for st
    using that by (induction n arbitrary: st) (simp, metis draws.simps(2) xoshiro256_next_nonzero)
  have "xoshiro256_init \<noteq> zero_state" by (simp add: xoshiro256_init_def zero_state_def)
  then show ?thesis using step xoshiro256_seed_nonzero by blast
qed

lemma random_chars_alphabet:
  "fst (random_chars n r bits st) = cs \<Longrightarrow> length cs = n \<and> set cs \<subseteq> set base64url"
proof (induction n arbitrary: r bits st cs)
  case (Suc n)
  obtain r1 bits1 st1 where 1: "(if bits < 6 then (case xoshiro256_next st of (r', st') \<Rightarrow> (r', 64, st')) else (r, bits, st)) = (r1, bits1, st1)"
    by (cases "if bits < 6 then (case xoshiro256_next st of (r', st') \<Rightarrow> (r', 64, st')) else (r, bits, st)") 
  obtain ds st2 where 2: "random_chars n (drop_bit 6 r1) (bits1 - 6) st1 = (ds, st2)"
    by (cases "random_chars n (drop_bit 6 r1) (bits1 - 6) st1")
  have "unat (r1 AND 63) < 64"
    using word_and_le1 [of r1 63] by (simp add: word_le_nat_alt and.commute)
  moreover have "length base64url = 64" by (simp add: base64url_def)
  ultimately have "base64url ! unat (r1 AND 63) \<in> set base64url" by simp
  moreover have "length ds = n \<and> set ds \<subseteq> set base64url" by (rule Suc.IH [of "drop_bit 6 r1" "bits1 - 6" st1]) (simp add: 2)
  moreover have "cs = base64url ! unat (r1 AND 63) # ds"
    using Suc.prems unfolding random_chars.simps 1 prod.case 2 by simp
  ultimately show ?case by simp
qed simp

text \<open>
  \<^verbatim>\<open>random_id\<close> writes exactly \<^verbatim>\<open>len\<close> characters, all of them letters, digits, \<^verbatim>\<open>-\<close> or \<^verbatim>\<open>_\<close>; the table
  is never read out of its bounds.
\<close>

theorem random_id_alphabet:
  "length (fst (random_id n st)) = n \<and> set (fst (random_id n st)) \<subseteq> set base64url \<and> length base64url = 64"
proof -
  have "length base64url = 64" by (simp add: base64url_def)
  moreover obtain r st' where "xoshiro256_next st = (r, st')" by (cases "xoshiro256_next st")
  ultimately show ?thesis using random_chars_alphabet [of n r 64 st'] by (simp add: random_id_def)
qed

end
