(* ===== verification/Text_IO.thy ===== *)
theory Text_IO
  imports Spec Symbols
begin

text \<open>
  The text format of \<^verbatim>\<open>lib/io.c\<close>: one string per line, quoted when it has to be, a fact as
  its three strings and an empty line. An output is the list of the characters written (no
  write fails), an input the list of the characters still to be read.
\<close>

section \<open>Writing\<close>

abbreviation newline :: char where
  "newline \<equiv> CHR 0x0A"

abbreviation dquote :: char where
  "dquote \<equiv> CHR 0x22"

abbreviation backslash :: char where
  "backslash \<equiv> CHR 0x5C"

definition quote_char :: "char \<Rightarrow> cstr" where
  "quote_char c = (if c = dquote \<or> c = backslash then [backslash, c] else [c])"

definition write_string_quoted :: "cstr \<Rightarrow> cstr" where
  "write_string_quoted str = [dquote] @ concat (map quote_char str) @ [dquote, newline]"

definition write_string :: "cstr \<Rightarrow> cstr" where
  "write_string str =
     (if first_is dquote str \<or> newline \<in> set str \<or> backslash \<in> set str then write_string_quoted str
      else str @ [newline])"

text \<open>A fact whose field is a sentinel has no string: writing it reads a null pointer (\<open>None\<close>).\<close>

definition write_fact :: "fact \<Rightarrow> cstr option" where
  "write_fact f =
     do { s \<leftarrow> symbol_to_str (f_s f); p \<leftarrow> symbol_to_str (f_p f); ob \<leftarrow> symbol_to_str (f_o f);
          Some (write_string s @ write_string p @ write_string ob @ write_string []) }"

definition write_fact_log :: "cstr \<Rightarrow> fact \<Rightarrow> cstr option" where
  "write_fact_log operation f = do { t \<leftarrow> write_fact f; Some (operation @ [newline] @ t) }"

definition write_spec_fact :: "spec_fact \<Rightarrow> cstr option" where
  "write_spec_fact f =
     do { s \<leftarrow> sf_s f; p \<leftarrow> sf_p f; ob \<leftarrow> sf_o f;
          Some (write_string s @ write_string p @ write_string ob @ write_string []) }"

fun write_spec_facts :: "spec_fact list \<Rightarrow> cstr option" where
  "write_spec_facts [] = Some []"
| "write_spec_facts (f # fs) = do { t \<leftarrow> write_spec_fact f; ts \<leftarrow> write_spec_facts fs; Some (t @ ts) }"

definition write_spec :: "spec \<Rightarrow> cstr option" where
  "write_spec sp = do { fs \<leftarrow> spec_facts sp; write_spec_facts fs }"

section \<open>Reading\<close>

text \<open>
  The loop of \<^verbatim>\<open>read_string_quoted\<close>: \<open>c\<close> is the character just read, \<open>len\<close> what is left of the
  buffer, \<open>buf\<close> what was stored. \<open>None\<close> is the result \<^verbatim>\<open>-1\<close>.
\<close>

fun quoted_loop :: "char \<Rightarrow> nat \<Rightarrow> cstr \<Rightarrow> cstr \<Rightarrow> cstr option \<times> cstr" where
  "quoted_loop c len buf inp =
     (if c = dquote then
        (case inp of
           [] \<Rightarrow> (None, [])
         | d # inp' \<Rightarrow> if d \<noteq> newline then (None, inp') else (Some buf, inp'))
      else if len = 1 then (None, inp)
      else (case inp of
              [] \<Rightarrow> (None, [])
            | d # inp' \<Rightarrow>
                if c = backslash then
                  (if d = CHR 0x00 then (None, inp')
                   else (case inp' of [] \<Rightarrow> (None, []) | e # inp'' \<Rightarrow> quoted_loop e (len - 1) (buf @ [d]) inp''))
                else if c = CHR 0x00 then (None, inp)
                else quoted_loop d (len - 1) (buf @ [c]) inp'))"

declare quoted_loop.simps [simp del]

definition read_string_quoted :: "nat \<Rightarrow> cstr \<Rightarrow> cstr option \<times> cstr" where
  "read_string_quoted len inp =
     (case inp of [] \<Rightarrow> (None, []) | c # inp' \<Rightarrow> quoted_loop c len [] inp')"

fun plain_loop :: "char \<Rightarrow> nat \<Rightarrow> cstr \<Rightarrow> cstr \<Rightarrow> cstr option \<times> cstr" where
  "plain_loop c len buf inp =
     (if c = newline then (Some buf, inp)
      else if len = 1 \<or> c = CHR 0x00 then (None, inp)
      else (case inp of [] \<Rightarrow> (None, []) | d # inp' \<Rightarrow> plain_loop d (len - 1) (buf @ [c]) inp'))"

declare plain_loop.simps [simp del]

definition read_string :: "nat \<Rightarrow> cstr \<Rightarrow> cstr option \<times> cstr" where
  "read_string len inp =
     (case inp of
        [] \<Rightarrow> (None, [])
      | c # inp' \<Rightarrow> if c = dquote then read_string_quoted len inp' else plain_loop c len [] inp')"

section \<open>What is written can be read back\<close>

text \<open>A C string has no NUL among its characters.\<close>

definition no_nul :: "cstr \<Rightarrow> bool" where
  "no_nul s \<longleftrightarrow> CHR 0x00 \<notin> set s"

lemma no_nul_Cons [simp]: "no_nul (c # s) \<longleftrightarrow> c \<noteq> CHR 0x00 \<and> no_nul s" "no_nul []"
  by (auto simp: no_nul_def)

lemma plain_loop_reads:
  assumes "no_nul s" "newline \<notin> set s" "length s < len" "s @ newline # inp = c # r"
  shows "plain_loop c len buf r = (Some (buf @ s), inp)"
  using assms
proof (induction s arbitrary: len buf c r)
  case Nil
  then show ?case by (simp add: plain_loop.simps)
next
  case (Cons x s)
  obtain d q where dq: "s @ newline # inp = d # q" by (cases s) auto
  have "plain_loop d (len - 1) (buf @ [x]) q = (Some ((buf @ [x]) @ s), inp)"
    by (rule Cons.IH [OF _ _ _ dq]) (use Cons.prems in simp_all)
  moreover have "plain_loop x len buf (d # q) = plain_loop d (len - 1) (buf @ [x]) q"
    using Cons.prems by (subst plain_loop.simps) auto
  ultimately show ?case using Cons.prems(4) dq by simp
qed

lemma quoted_loop_reads:
  assumes "no_nul s" "length s < len" "concat (map quote_char s) @ dquote # newline # inp = c # r"
  shows "quoted_loop c len buf r = (Some (buf @ s), inp)"
  using assms
proof (induction s arbitrary: len buf c r)
  case Nil
  then have "c = dquote" "r = newline # inp" by simp_all
  then show ?case by (simp add: quoted_loop.simps)
next
  case (Cons x s)
  let ?rest = "concat (map quote_char s) @ dquote # newline # inp"
  obtain d q where dq: "?rest = d # q" by (cases ?rest) auto
  have IH: "quoted_loop d (len - 1) (buf @ [x]) q = (Some ((buf @ [x]) @ s), inp)"
    by (rule Cons.IH [OF _ _ dq]) (use Cons.prems in simp_all)
  show ?case
  proof (cases "x = dquote \<or> x = backslash")
    case True
    then have qx: "quote_char x = [backslash, x]" by (simp add: quote_char_def)
    have "quoted_loop backslash len buf (x # d # q) = quoted_loop d (len - 1) (buf @ [x]) q"
      using Cons.prems by (subst quoted_loop.simps) simp
    moreover have "c = backslash" "r = x # d # q"
      using qx Cons.prems(3) dq by auto
    ultimately show ?thesis using IH by simp
  next
    case False
    then have qx: "quote_char x = [x]" by (simp add: quote_char_def)
    have "quoted_loop x len buf (d # q) = quoted_loop d (len - 1) (buf @ [x]) q"
      using Cons.prems False by (subst quoted_loop.simps) simp
    moreover have "c = x" "r = d # q"
      using qx Cons.prems(3) dq by auto
    ultimately show ?thesis using IH by simp
  qed
qed

lemma read_write_string:
  assumes "no_nul s" "length s < len"
  shows "read_string len (write_string s @ inp) = (Some s, inp)"
proof (cases "first_is dquote s \<or> newline \<in> set s \<or> backslash \<in> set s")
  case True
  obtain c r where cr: "concat (map quote_char s) @ dquote # newline # inp = c # r"
    by (cases "concat (map quote_char s) @ dquote # newline # inp") auto
  have "read_string_quoted len (c # r) = (Some s, inp)"
    using quoted_loop_reads [OF assms cr, of "[]"] by (simp add: read_string_quoted_def)
  then show ?thesis
    using True cr by (simp add: write_string_def write_string_quoted_def read_string_def)
next
  case False
  obtain c r where cr: "s @ newline # inp = c # r" by (cases s) auto
  have "c \<noteq> dquote" using False cr by (cases s) auto
  moreover have "plain_loop c len [] r = (Some s, inp)"
    using plain_loop_reads [OF assms(1) _ assms(2) cr, of "[]"] False by simp
  ultimately show ?thesis using False cr by (simp add: write_string_def read_string_def)
qed

section \<open>Properties\<close>

text \<open>
  C39: a string written by \<^verbatim>\<open>write_string\<close>, quoted or not, is read back by \<^verbatim>\<open>read_string\<close> exactly, up to the
  end of what was written, whenever it fits the buffer.
\<close>

theorem string_roundtrip:
  assumes "no_nul s" "length s < len"
  shows "read_string len (write_string s @ inp) = (Some s, inp)"
  using assms by (rule read_write_string)

theorem string_roundtrip_witness:
  "read_string 8 (write_string [CHR ''a'', newline, dquote, backslash] @ ''rest'')
   = (Some [CHR ''a'', newline, dquote, backslash], ''rest'')"
  by (rule string_roundtrip) simp_all

end
