(* ===== verification/Facts_State.thy ===== *)
theory Facts_State
  imports Intern Hexastore Justification Arena Random_Gen Rules Text_IO
begin

text \<open>
  \<^verbatim>\<open>include/facts.h\<close>, \<^verbatim>\<open>include/transaction.h\<close>: the state of a database as one of its threads
  sees it, and the locking discipline of \<^verbatim>\<open>lib/transaction.c\<close> from that thread's side. The
  memory the facts live in, the arena they come from, the answers of the allocator and the
  random generator, which the C code keeps in globals, are fields of the state.

  A result \<open>None\<close> of an operation stands for what has no result: undefined behaviour (a null
  pointer passed on), a loop that never ends, or a thread that waits for itself.
\<close>

section \<open>Transactions\<close>

datatype e_rollback_action = ROLLBACK_ADD | ROLLBACK_REMOVE | ROLLBACK_STATE

datatype e_fact_origin = FACT_ORIGIN_ASSERTED | FACT_ORIGIN_DERIVED

record rollback_entry =
  re_action :: e_rollback_action
  re_fact :: fact

text \<open>The entries of the stack in the order they were pushed; their number is its \<^verbatim>\<open>size\<close>.\<close>

record rollback_stack =
  rb_entries :: "rollback_entry list"
  rb_capacity :: nat

text \<open>
  \<open>tx_owned\<close> is \<^verbatim>\<open>owner_valid && pthread_equal(owner, self)\<close>, \<open>tx_readers\<close> the depth of the
  thread's reader slot (0: no slot). Registered callbacks are identified by a number.
\<close>

record transaction =
  tx_level :: int
  tx_rollback :: rollback_stack
  tx_owned :: bool
  tx_readers :: nat
  tx_listener :: "nat option"
  tx_internal_listener :: "nat option"
  tx_commit_observer :: "nat option"
  tx_summary_observer :: "nat option"
  tx_internal_summary_observer :: "nat option"

definition transaction_zero :: transaction where
  "transaction_zero =
     \<lparr>tx_level = 0, tx_rollback = \<lparr>rb_entries = [], rb_capacity = 0\<rparr>, tx_owned = False, tx_readers = 0,
      tx_listener = None, tx_internal_listener = None, tx_commit_observer = None,
      tx_summary_observer = None, tx_internal_summary_observer = None\<rparr>"

text \<open>The lock, the mutex and the read-copy-update state may each fail to be created.\<close>

definition transaction_init_checked :: "mem \<Rightarrow> transaction option \<times> mem" where
  "transaction_init_checked h =
     (case malloc h of (False, h1) \<Rightarrow> (None, h1) | (True, h1) \<Rightarrow>
      case malloc h1 of (False, h2) \<Rightarrow> (None, h2) | (True, h2) \<Rightarrow>
      case malloc h2 of (False, h3) \<Rightarrow> (None, h3) | (True, h3) \<Rightarrow> (Some transaction_zero, h3))"

section \<open>The database\<close>

text \<open>The bytes that the index compares: the first four fields of a fact.\<close>

type_synonym fact_key = "symbol \<times> symbol \<times> symbol \<times> symbol"

definition fact_key :: "fact \<Rightarrow> fact_key" where
  "fact_key f = (f_s f, f_p f, f_o f, f_negated f)"

record facts =
  db_symbols :: intern_table
  db_symbols_delete :: bool
  db_index :: "(addr, fact_key) set_tbl"
  db_hexastore :: hexastore
  db_log :: "cstr option"
  db_tx :: transaction
  db_prog :: "datalog_program option"
  db_owns_prog :: bool
  db_disable_listener :: bool
  db_justifications :: jgraph
  db_staging :: "jgraph option"
  db_heap :: "addr \<Rightarrow> fact"
  db_arena :: arena
  db_mem :: mem
  db_rng :: xoshiro

text \<open>\<^verbatim>\<open>sizeof(Symbol) * 4\<close>.\<close>

abbreviation (input) KEY_LEN :: nat where
  "KEY_LEN \<equiv> 32"

definition index_rd :: "(addr \<Rightarrow> fact) \<Rightarrow> addr \<Rightarrow> nat \<Rightarrow> fact_key" where
  "index_rd hp a len = fact_key (hp a)"

section \<open>Locks, as one thread sees them\<close>

text \<open>
  The writer lock is reentrant through the owner; a thread that holds a read lock and asks for
  the write lock waits for itself. The first component is \<^verbatim>\<open>has_lock\<close>.
\<close>

definition transaction_acquire_writer :: "transaction \<Rightarrow> (bool \<times> transaction) option" where
  "transaction_acquire_writer tx =
     (if tx_owned tx then Some (True, tx)
      else if tx_readers tx > 0 then None
      else Some (False, tx\<lparr>tx_owned := True\<rparr>))"

definition transaction_release_writer :: "transaction \<Rightarrow> bool \<Rightarrow> transaction" where
  "transaction_release_writer tx has_lock = (if has_lock then tx else tx\<lparr>tx_owned := False\<rparr>)"

definition transaction_writer_owned :: "transaction \<Rightarrow> bool" where
  "transaction_writer_owned tx = tx_owned tx"

definition transaction_acquire_reader :: "transaction \<Rightarrow> bool \<times> transaction" where
  "transaction_acquire_reader tx =
     (if transaction_writer_owned tx then (False, tx)
      else (True, tx\<lparr>tx_readers := tx_readers tx + 1\<rparr>))"

text \<open>Releasing without a slot is a failed assertion.\<close>

definition transaction_release_reader :: "transaction \<Rightarrow> bool \<Rightarrow> transaction option" where
  "transaction_release_reader tx acquired =
     (if \<not> acquired then Some tx
      else if tx_readers tx = 0 then None
      else Some (tx\<lparr>tx_readers := tx_readers tx - 1\<rparr>))"

text \<open>
  An operation is a function from the state to a result and a state. \<open>with_writer\<close> and
  \<open>with_reader\<close> are the brackets the operations of \<^verbatim>\<open>facts.c\<close> have on all their paths.
\<close>

type_synonym 'a action = "facts \<Rightarrow> ('a \<times> facts) option"

definition with_writer :: "'a action \<Rightarrow> 'a action" where
  "with_writer act st =
     do { (has_lock, tx) \<leftarrow> transaction_acquire_writer (db_tx st);
          (r, st') \<leftarrow> act (st\<lparr>db_tx := tx\<rparr>);
          Some (r, st'\<lparr>db_tx := transaction_release_writer (db_tx st') has_lock\<rparr>) }"

definition with_reader :: "'a action \<Rightarrow> 'a action" where
  "with_reader act st =
     (case transaction_acquire_reader (db_tx st) of (acquired, tx) \<Rightarrow>
        do { (r, st') \<leftarrow> act (st\<lparr>db_tx := tx\<rparr>);
             tx' \<leftarrow> transaction_release_reader (db_tx st') acquired;
             Some (r, st'\<lparr>db_tx := tx'\<rparr>) })"

section \<open>Symbols\<close>

definition facts_intern :: "cstr \<Rightarrow> symbol action" where
  "facts_intern str = with_writer (\<lambda>st.
     case intern_string (db_symbols st) str (db_mem st) of
       (y, t, h) \<Rightarrow> Some (y, st\<lparr>db_symbols := t, db_mem := h\<rparr>))"

text \<open>\<^verbatim>\<open>facts_intern(facts, symbol_to_str(sym))\<close>; a sentinel has no string.\<close>

definition facts_intern_symbol :: "symbol \<Rightarrow> symbol action" where
  "facts_intern_symbol y st = do { str \<leftarrow> symbol_to_str y; facts_intern str st }"

definition facts_unintern :: "symbol \<Rightarrow> unit action" where
  "facts_unintern y = with_writer (\<lambda>st.
     do { t \<leftarrow> intern_unstring (db_symbols st) y; Some ((), st\<lparr>db_symbols := t\<rparr>) })"

text \<open>\<^verbatim>\<open>if (ref) facts_unintern(facts, ref)\<close>\<close>

definition unintern_nonnull :: "symbol \<Rightarrow> unit action" where
  "unintern_nonnull y st = (if y \<noteq> P_FIRST then facts_unintern y st else Some ((), st))"

definition facts_find_symbol :: "cstr \<Rightarrow> symbol set_item option action" where
  "facts_find_symbol str = with_reader (\<lambda>st. Some (intern_find_symbol (db_symbols st) str, st))"

definition facts_contains_symbol :: "cstr \<Rightarrow> bool action" where
  "facts_contains_symbol str =
     with_reader (\<lambda>st. Some (intern_find_symbol (db_symbols st) str \<noteq> None, st))"

definition facts_find_symbol_str :: "cstr \<Rightarrow> symbol action" where
  "facts_find_symbol_str str =
     with_reader (\<lambda>st. Some (intern_find_symbol_str (db_symbols st) str, st))"

text \<open>The formatting and the parsing of the numbers are parameters, as in \<open>intern_number\<close>.\<close>

definition facts_number :: "('n \<Rightarrow> cstr) \<Rightarrow> 'n \<Rightarrow> cstr option action" where
  "facts_number format n = with_writer (\<lambda>st.
     case intern_number format (db_symbols st) n (db_mem st) of
       (y, t, h) \<Rightarrow> Some (symbol_to_str y, st\<lparr>db_symbols := t, db_mem := h\<rparr>))"

definition facts_get_number :: "(cstr \<Rightarrow> 'n) \<Rightarrow> 'n \<Rightarrow> cstr \<Rightarrow> 'n action" where
  "facts_get_number parse zero str =
     with_reader (\<lambda>st. Some (intern_get_number parse zero (db_symbols st) str, st))"

text \<open>
  \<^verbatim>\<open>facts_anon\<close>: a name cut to 1012 characters, a dash and ten random characters, drawn again
  while the symbol exists; it may do so forever, so the number of tries is bounded by \<open>n\<close>.
\<close>

definition anon_prefix :: "cstr option \<Rightarrow> cstr" where
  "anon_prefix name =
     (let nm = (case name of None \<Rightarrow> [] | Some s \<Rightarrow> if is_var s then tl s else s);
          nm' = (if nm = [] then ''anon'' else nm)
      in take 1012 nm' @ ''-'')"

fun anon_loop :: "nat \<Rightarrow> cstr \<Rightarrow> cstr option action" where
  "anon_loop 0 pre st = None"
| "anon_loop (Suc n) pre st =
     (case random_id 10 (db_rng st) of
        (rnd, g) \<Rightarrow>
          do { (found, st1) \<leftarrow> facts_contains_symbol (pre @ rnd) (st\<lparr>db_rng := g\<rparr>);
               if found then anon_loop n pre st1
               else do { (y, st2) \<leftarrow> facts_intern (pre @ rnd) st1; Some (symbol_to_str y, st2) } })"

definition facts_anon :: "nat \<Rightarrow> cstr option \<Rightarrow> cstr option action" where
  "facts_anon n name = anon_loop n (anon_prefix name)"

section \<open>Facts in memory\<close>

definition new_fact :: "symbol \<Rightarrow> symbol \<Rightarrow> symbol \<Rightarrow> facts \<Rightarrow> addr option \<times> facts" where
  "new_fact s p ob st =
     (case arena_alloc_fact (db_arena st) (db_mem st) of
        (None, A, h) \<Rightarrow> (None, st\<lparr>db_arena := A, db_mem := h\<rparr>)
      | (Some a, A, h) \<Rightarrow>
          (Some a, st\<lparr>db_arena := A, db_mem := h, db_heap := (db_heap st)(a := fact_init s p ob)\<rparr>))"

definition delete_fact :: "addr \<Rightarrow> facts \<Rightarrow> facts" where
  "delete_fact a st = st\<lparr>db_arena := arena_free_fact (db_arena st) (Some a)\<rparr>"

definition fact_set_origin :: "e_fact_origin \<Rightarrow> fact \<Rightarrow> fact" where
  "fact_set_origin origin f =
     (let a = (if origin = FACT_ORIGIN_ASSERTED then 1 else 0);
          d = (if origin = FACT_ORIGIN_DERIVED then 1 else 0)
      in f\<lparr>asserted_count := a, derived_count := d, proof_count := a + d\<rparr>)"

text \<open>\<^verbatim>\<open>if (facts->log) write_fact_log(...)\<close>: what was written is appended to the log.\<close>

definition log_fact :: "cstr \<Rightarrow> fact \<Rightarrow> unit action" where
  "log_fact operation f st =
     (case db_log st of
        None \<Rightarrow> Some ((), st)
      | Some l \<Rightarrow> do { t \<leftarrow> write_fact_log operation f; Some ((), st\<lparr>db_log := Some (l @ t)\<rparr>) })"

end
