(* ===== verification/Facts.thy ===== *)
theory Facts
  imports Facts_State
begin

text \<open>
  The operations of \<^verbatim>\<open>lib/facts.c\<close> that read and change the set of facts, and the stack of
  rollback entries of \<^verbatim>\<open>lib/transaction.c\<close> they push to.
\<close>

section \<open>The index\<close>

text \<open>\<^verbatim>\<open>set_get(&facts->index, key, ...)\<close>: the item (its slot) and the fact it points to.\<close>

definition index_get :: "fact_key \<Rightarrow> facts \<Rightarrow> (nat \<times> addr) option option" where
  "index_get key st =
     (case set_get (index_rd (db_heap st)) (db_index st) key KEY_LEN of
        None \<Rightarrow> None
      | Some None \<Rightarrow> Some None
      | Some (Some i) \<Rightarrow>
          (case it_data (set_items (db_index st) ! i) of None \<Rightarrow> None | Some a \<Rightarrow> Some (Some (i, a))))"

definition index_add :: "addr \<Rightarrow> nat option action" where
  "index_add a st =
     do { (item, S, h) \<leftarrow> set_add (index_rd (db_heap st)) (db_index st) a KEY_LEN (db_mem st);
          Some (item, st\<lparr>db_index := S, db_mem := h\<rparr>) }"

definition index_remove :: "nat \<Rightarrow> unit action" where
  "index_remove i st =
     do { (n, S) \<leftarrow> set_remove (db_index st) (Some (int i)); Some ((), st\<lparr>db_index := S\<rparr>) }"

section \<open>The rollback stack\<close>

text \<open>\<^verbatim>\<open>sizeof(s_rollback_entry)\<close> is 56. The result says whether the entry was pushed (0) or not.\<close>

definition rollback_room :: "bool action" where
  "rollback_room st =
     (let rb = tx_rollback (db_tx st) in
      if length (rb_entries rb) \<ge> rb_capacity rb then
        (let capacity = (if rb_capacity rb \<noteq> 0 then rb_capacity rb * 2 mod 2 ^ 64 else 16) in
         if capacity < rb_capacity rb \<or> capacity > SIZE_MAX div 56 then Some (False, st)
         else (case malloc (db_mem st) of
                 (False, h) \<Rightarrow> Some (False, st\<lparr>db_mem := h\<rparr>)
               | (True, h) \<Rightarrow>
                   Some (True, st\<lparr>db_mem := h,
                     db_tx := (db_tx st)\<lparr>tx_rollback := rb\<lparr>rb_capacity := capacity\<rparr>\<rparr>\<rparr>)))
      else Some (True, st))"

definition push_entry :: "e_rollback_action \<Rightarrow> fact \<Rightarrow> facts \<Rightarrow> facts" where
  "push_entry act f st =
     (let tx = db_tx st; rb = tx_rollback tx
      in st\<lparr>db_tx := tx\<lparr>tx_rollback := rb\<lparr>rb_entries := rb_entries rb @ [\<lparr>re_action = act, re_fact = f\<rparr>]\<rparr>\<rparr>\<rparr>)"

text \<open>Interning the three strings of a fact, and giving back the references that were taken.\<close>

definition intern_three :: "fact \<Rightarrow> (symbol \<times> symbol \<times> symbol) action" where
  "intern_three f st =
     do { (s_ref, st) \<leftarrow> facts_intern_symbol (f_s f) st;
          (p_ref, st) \<leftarrow> facts_intern_symbol (f_p f) st;
          (o_ref, st) \<leftarrow> facts_intern_symbol (f_o f) st;
          Some ((s_ref, p_ref, o_ref), st) }"

definition unintern_three :: "symbol \<times> symbol \<times> symbol \<Rightarrow> unit action" where
  "unintern_three trio st =
     (case trio of (s_ref, p_ref, o_ref) \<Rightarrow>
        do { (_, st) \<leftarrow> unintern_nonnull s_ref st;
             (_, st) \<leftarrow> unintern_nonnull p_ref st;
             unintern_nonnull o_ref st })"

definition some_null :: "symbol \<times> symbol \<times> symbol \<Rightarrow> bool" where
  "some_null trio = (case trio of (a, b, c) \<Rightarrow> a = P_FIRST \<or> b = P_FIRST \<or> c = P_FIRST)"

definition transaction_rollback_push :: "e_rollback_action \<Rightarrow> fact \<Rightarrow> bool action" where
  "transaction_rollback_push act f st =
     (if tx_level (db_tx st) > 0 then
        do { (ok, st) \<leftarrow> rollback_room st;
             if \<not> ok then Some (False, st)
             else do {
               (trio, st) \<leftarrow> intern_three f st;
               if some_null trio then do { (_, st) \<leftarrow> unintern_three trio st; Some (False, st) }
               else Some (True, push_entry act f st)
             } }
      else Some (True, st))"

section \<open>Inserting and removing a fact\<close>

definition unintern_fact :: "fact \<Rightarrow> unit action" where
  "unintern_fact f st =
     do { (_, st) \<leftarrow> facts_unintern (f_s f) st;
          (_, st) \<leftarrow> facts_unintern (f_p f) st;
          facts_unintern (f_o f) st }"

definition hexa_remove :: "fact \<Rightarrow> facts \<Rightarrow> facts" where
  "hexa_remove f st = st\<lparr>db_hexastore := hexastore_remove (db_hexastore st) f\<rparr>"

definition insert_copy_of :: "fact \<Rightarrow> fact" where
  "insert_copy_of f =
     (fact_init (f_s f) (f_p f) (f_o f))
       \<lparr>f_negated := f_negated f, asserted_count := asserted_count f, derived_count := derived_count f,
        proof_count := asserted_count f + derived_count f\<rparr>"

definition facts_insert_fact_copy :: "fact \<Rightarrow> bool \<Rightarrow> addr option action" where
  "facts_insert_fact_copy f record_rollback st =
     (case new_fact (f_s f) (f_p f) (f_o f) st of
        (None, st) \<Rightarrow> Some (None, st)
      | (Some a, st) \<Rightarrow>
          (let nf = insert_copy_of f;
               st = st\<lparr>db_heap := (db_heap st)(a := nf)\<rparr>
           in do {
             (trio, st) \<leftarrow> intern_three nf st;
             if some_null trio then do { (_, st) \<leftarrow> unintern_three trio st; Some (None, delete_fact a st) }
             else (case hexastore_insert (db_hexastore st) a nf (db_mem st) of
               (r, x, h) \<Rightarrow>
                 (let st = st\<lparr>db_hexastore := x, db_mem := h\<rparr> in
                  if r \<noteq> 0 then do { (_, st) \<leftarrow> unintern_fact nf st; Some (None, delete_fact a st) }
                  else do {
                    (index_item, st) \<leftarrow> index_add a st;
                    case index_item of
                      None \<Rightarrow> do { (_, st) \<leftarrow> unintern_fact nf (hexa_remove nf st); Some (None, delete_fact a st) }
                    | Some i \<Rightarrow>
                        if record_rollback then do {
                          (ok, st) \<leftarrow> transaction_rollback_push ROLLBACK_REMOVE nf st;
                          if ok then Some (Some a, st)
                          else do {
                            (_, st) \<leftarrow> index_remove i st;
                            (_, st) \<leftarrow> unintern_fact nf (hexa_remove nf st);
                            Some (None, delete_fact a st)
                          }
                        }
                        else Some (Some a, st)
                  }))
           }))"

definition facts_remove_found :: "nat \<Rightarrow> addr \<Rightarrow> unit action" where
  "facts_remove_found i a st =
     do { (_, st) \<leftarrow> index_remove i st;
          (_, st) \<leftarrow> unintern_fact (db_heap st a) (hexa_remove (db_heap st a) st);
          Some ((), delete_fact a st) }"

section \<open>Support\<close>

definition support_of :: "e_fact_origin \<Rightarrow> fact \<Rightarrow> nat" where
  "support_of origin f = (case origin of FACT_ORIGIN_ASSERTED \<Rightarrow> asserted_count f | FACT_ORIGIN_DERIVED \<Rightarrow> derived_count f)"

definition set_support :: "e_fact_origin \<Rightarrow> nat \<Rightarrow> fact \<Rightarrow> fact" where
  "set_support origin n f =
     (let g = (case origin of
                 FACT_ORIGIN_ASSERTED \<Rightarrow> f\<lparr>asserted_count := n\<rparr> | FACT_ORIGIN_DERIVED \<Rightarrow> f\<lparr>derived_count := n\<rparr>)
      in g\<lparr>proof_count := asserted_count g + derived_count g\<rparr>)"

definition update_fact :: "addr \<Rightarrow> (fact \<Rightarrow> fact) \<Rightarrow> facts \<Rightarrow> facts" where
  "update_fact a u st = st\<lparr>db_heap := (db_heap st)(a := u (db_heap st a))\<rparr>"

definition log_asserted :: "e_fact_origin \<Rightarrow> cstr \<Rightarrow> fact \<Rightarrow> unit action" where
  "log_asserted origin operation f st =
     (if origin = FACT_ORIGIN_ASSERTED then log_fact operation f st else Some ((), st))"

definition facts_add_fact_origin :: "fact \<Rightarrow> e_fact_origin \<Rightarrow> addr option action" where
  "facts_add_fact_origin f origin = with_writer (\<lambda>st.
     do { si \<leftarrow> index_get (fact_key f) st;
          case si of
            Some (i, found) \<Rightarrow>
              if support_of origin (db_heap st found) = 0 then do {
                (ok, st) \<leftarrow> transaction_rollback_push ROLLBACK_STATE (db_heap st found) st;
                if \<not> ok then Some (None, st)
                else do {
                  (_, st) \<leftarrow> log_asserted origin ''add'' (db_heap st found) st;
                  Some (Some found, update_fact found (set_support origin 1) st)
                }
              }
              else Some (Some found, st)
          | None \<Rightarrow> do {
              (new, st) \<leftarrow> facts_insert_fact_copy (fact_set_origin origin f) True st;
              case new of
                None \<Rightarrow> Some (None, st)
              | Some a \<Rightarrow> do { (_, st) \<leftarrow> log_asserted origin ''add'' (db_heap st a) st; Some (Some a, st) }
            } })"

definition facts_add_fact :: "fact \<Rightarrow> addr option action" where
  "facts_add_fact f = facts_add_fact_origin f FACT_ORIGIN_ASSERTED"

definition facts_add_spo_origin :: "cstr \<Rightarrow> cstr \<Rightarrow> cstr \<Rightarrow> e_fact_origin \<Rightarrow> addr option action" where
  "facts_add_spo_origin s p ob origin st =
     do { (s_ref, st) \<leftarrow> facts_intern s st;
          (p_ref, st) \<leftarrow> facts_intern p st;
          (o_ref, st) \<leftarrow> facts_intern ob st;
          if some_null (s_ref, p_ref, o_ref)
          then do { (_, st) \<leftarrow> unintern_three (s_ref, p_ref, o_ref) st; Some (None, st) }
          else do {
            (ret, st) \<leftarrow> facts_add_fact_origin (fact_set_origin origin (fact_init s_ref p_ref o_ref)) origin st;
            (_, st) \<leftarrow> unintern_fact (fact_init s_ref p_ref o_ref) st;
            Some (ret, st)
          } }"

definition facts_add_spo :: "cstr \<Rightarrow> cstr \<Rightarrow> cstr \<Rightarrow> addr option action" where
  "facts_add_spo s p ob = facts_add_spo_origin s p ob FACT_ORIGIN_ASSERTED"

text \<open>The result is \<^verbatim>\<open>-1\<close>, 0 or 1.\<close>

definition facts_remove_fact_origin :: "fact \<Rightarrow> e_fact_origin \<Rightarrow> int action" where
  "facts_remove_fact_origin f origin = with_writer (\<lambda>st.
     do { si \<leftarrow> index_get (fact_key f) st;
          case si of
            None \<Rightarrow> Some (0, st)
          | Some (i, found) \<Rightarrow>
              (let ff = db_heap st found in
               if support_of origin ff = 0 then Some (0, st)
               else
                 (let act = (if asserted_count ff + derived_count ff > 1 then ROLLBACK_STATE else ROLLBACK_ADD)
                  in do {
                    (ok, st) \<leftarrow> transaction_rollback_push act ff st;
                    if \<not> ok then Some (- 1, st)
                    else do {
                      (_, st) \<leftarrow> log_asserted origin ''remove'' ff st;
                      if act = ROLLBACK_STATE then Some (1, update_fact found (set_support origin 0) st)
                      else do { (_, st) \<leftarrow> facts_remove_found i found st; Some (1, st) }
                    }
                  })) })"

definition facts_remove_fact :: "fact \<Rightarrow> int action" where
  "facts_remove_fact f = facts_remove_fact_origin f FACT_ORIGIN_ASSERTED"

section \<open>Looking up\<close>

definition facts_lookup_spo_locked :: "cstr \<Rightarrow> cstr \<Rightarrow> cstr \<Rightarrow> addr option action" where
  "facts_lookup_spo_locked s p ob st =
     (let s_sym = intern_find_symbol_str (db_symbols st) s;
          p_sym = intern_find_symbol_str (db_symbols st) p;
          o_sym = intern_find_symbol_str (db_symbols st) ob
      in if some_null (s_sym, p_sym, o_sym) then Some (None, st)
         else do { si \<leftarrow> index_get (s_sym, p_sym, o_sym, P_FIRST) st; Some (map_option snd si, st) })"

definition facts_remove_spo_origin :: "cstr \<Rightarrow> cstr \<Rightarrow> cstr \<Rightarrow> e_fact_origin \<Rightarrow> int action" where
  "facts_remove_spo_origin s p ob origin = with_writer (\<lambda>st.
     do { (found, st) \<leftarrow> facts_lookup_spo_locked s p ob st;
          case found of
            None \<Rightarrow> Some (0, st)
          | Some a \<Rightarrow> facts_remove_fact_origin (db_heap st a) origin st })"

definition facts_remove_spo :: "cstr \<Rightarrow> cstr \<Rightarrow> cstr \<Rightarrow> int action" where
  "facts_remove_spo s p ob = facts_remove_spo_origin s p ob FACT_ORIGIN_ASSERTED"

record fact_support =
  sup_asserted :: nat
  sup_derived :: nat

text \<open>Whether the fact was found, and what is in \<^verbatim>\<open>*support\<close>.\<close>

definition facts_get_support_spo :: "cstr \<Rightarrow> cstr \<Rightarrow> cstr \<Rightarrow> (bool \<times> fact_support) action" where
  "facts_get_support_spo s p ob = with_reader (\<lambda>st.
     do { (found, st) \<leftarrow> facts_lookup_spo_locked s p ob st;
          case found of
            None \<Rightarrow> Some ((False, \<lparr>sup_asserted = 0, sup_derived = 0\<rparr>), st)
          | Some a \<Rightarrow>
              Some ((True, \<lparr>sup_asserted = asserted_count (db_heap st a),
                            sup_derived = derived_count (db_heap st a)\<rparr>), st) })"

definition facts_contains_spo :: "cstr \<Rightarrow> cstr \<Rightarrow> cstr \<Rightarrow> bool action" where
  "facts_contains_spo s p ob = with_reader (\<lambda>st.
     do { (found, st) \<leftarrow> facts_lookup_spo_locked s p ob st; Some (found \<noteq> None, st) })"

definition facts_get_fact :: "fact \<Rightarrow> addr option action" where
  "facts_get_fact f = with_reader (\<lambda>st.
     do { si \<leftarrow> index_get (fact_key f) st; Some (map_option snd si, st) })"

definition facts_get_spo :: "cstr \<Rightarrow> cstr \<Rightarrow> cstr \<Rightarrow> addr option action" where
  "facts_get_spo s p ob = with_reader (facts_lookup_spo_locked s p ob)"

definition facts_count :: "nat action" where
  "facts_count = with_reader (\<lambda>st. Some (raxSize (trie_spo (db_hexastore st)), st))"

text \<open>A snapshot owns copies of the strings; the result is \<^verbatim>\<open>-1\<close>, 0 or 1.\<close>

record fact_snapshot =
  snap_s :: "cstr option"
  snap_p :: "cstr option"
  snap_o :: "cstr option"
  snap_support :: fact_support

definition snapshot_zero :: fact_snapshot where
  "snapshot_zero =
     \<lparr>snap_s = None, snap_p = None, snap_o = None, snap_support = \<lparr>sup_asserted = 0, sup_derived = 0\<rparr>\<rparr>"

definition facts_snapshot_destroy :: "fact_snapshot \<Rightarrow> fact_snapshot" where
  "facts_snapshot_destroy snap = snapshot_zero"

definition facts_get_spo_snapshot :: "cstr \<Rightarrow> cstr \<Rightarrow> cstr \<Rightarrow> (int \<times> fact_snapshot) action" where
  "facts_get_spo_snapshot s p ob = with_reader (\<lambda>st.
     do { (found, st) \<leftarrow> facts_lookup_spo_locked s p ob st;
          case found of
            None \<Rightarrow> Some ((0, snapshot_zero), st)
          | Some a \<Rightarrow> do {
              s' \<leftarrow> symbol_to_str (f_s (db_heap st a));
              p' \<leftarrow> symbol_to_str (f_p (db_heap st a));
              o' \<leftarrow> symbol_to_str (f_o (db_heap st a));
              let (ok1, h1) = malloc (db_mem st);
              let (ok2, h2) = malloc h1;
              let (ok3, h3) = malloc h2;
              Some (if ok1 \<and> ok2 \<and> ok3
                    then (1, \<lparr>snap_s = Some s', snap_p = Some p', snap_o = Some o',
                              snap_support = \<lparr>sup_asserted = asserted_count (db_heap st a),
                                              sup_derived = derived_count (db_heap st a)\<rparr>\<rparr>)
                    else (- 1, snapshot_zero), st\<lparr>db_mem := h3\<rparr>)
            } })"

end
