(* ===== verification/Hashset_Ptr.thy ===== *)
theory Hashset_Ptr
  imports Hashset_Del
begin

text \<open>
  The hash set as the facts index uses it, continued: the slots of the pointers, changes of the
  memory the pointers point to, and when an insertion cannot fail.
\<close>

section \<open>Changing the memory elsewhere\<close>

lemma content_data:
  "set_inv rd S \<Longrightarrow> it \<in># set_content S \<Longrightarrow> \<exists>d. it_data it = Some d \<and> it_hash it = set_hash S (rd d (it_len it)) (it_len it)"
  using set_inv_simps(8) [of rd S] unfolding content_ok_def set_content_def by blast

lemma ptr_inv_cong:
  assumes inv: "ptr_inv rd hf len S" and same: "\<And>d. d \<in> ptr_elems S \<Longrightarrow> rd' d len = rd d len"
  shows "ptr_inv rd' hf len S"
proof -
  have sinv: "set_inv rd S" "\<forall>it \<in># set_content S. it_len it = len" using inv by (simp_all add: ptr_inv_def)
  have key: "ikey rd' it = ikey rd it \<and> (\<exists>d. it_data it = Some d \<and> it_hash it = set_hash S (rd' d (it_len it)) (it_len it))"
    if it: "it \<in># set_content S" for it
  proof -
    obtain d where d: "it_data it = Some d" "it_hash it = set_hash S (rd d (it_len it)) (it_len it)"
      using content_data [OF sinv(1) it] by blast
    then have "rd' d len = rd d len" using same it by (auto simp: ptr_elems_def)
    then show ?thesis using d sinv(2) it by (simp add: ikey_def)
  qed
  have "filter_mset (\<lambda>it. ikey rd' it = k) (set_content S) = filter_mset (\<lambda>it. ikey rd it = k) (set_content S)" for k
    using key by (intro filter_mset_cong) auto
  then have "content_ok rd' (set_hash S) (set_content S)"
    using set_inv_simps(8) [OF sinv(1)] key unfolding content_ok_def set_content_def by metis
  then have "set_inv rd' S" using sinv(1) unfolding set_inv_def set_content_def by blast
  then show ?thesis using inv by (simp add: ptr_inv_def)
qed

lemma finite_ptr_elems: "finite (ptr_elems S)"
proof -
  have "ptr_elems S \<subseteq> (\<lambda>it. the (it_data it)) ` set_mset (set_content S)"
    by (force simp: ptr_elems_def)
  then show ?thesis by (rule finite_subset) simp
qed

section \<open>Slots\<close>

text \<open>
  Looking up gives the slot of the pointer with the key, and removing that slot removes the
  pointer; adding a new key gives the slot of the new pointer.
\<close>

lemma ptr_get_slot:
  assumes inv: "ptr_inv rd hf len S" and d: "d \<in> ptr_elems S"
  obtains i S' where "set_get rd S (rd d len) len = Some (Some i)" "it_data (set_items S ! i) = Some d"
    "set_remove S (Some (int i)) = Some (1, S')" "ptr_inv rd hf len S'" "ptr_elems S' = ptr_elems S - {d}"
proof -
  have sinv: "set_inv rd S" "set_hash S = hf" using inv by (simp_all add: ptr_inv_def)
  from ptr_elemE [OF inv d] obtain it i where i: "it_data it = Some d" "i < set_max S"
    "occ (set_items S ! i)" "set_items S ! i = it" "ikey rd it = (hf (rd d len) len, len, Some (rd d len))"
    by metis
  have get: "set_get rd S (rd d len) len = Some (Some i)"
    unfolding set_get_def sinv(2) by (rule set_get_h_Some [OF sinv(1) i(2,3)]) (simp add: i(4,5))
  from set_remove_spec [OF sinv(1) i(2,3)] obtain T where T: "set_remove S (Some (int i)) = Some (1, T)"
    by blast
  from ptr_remove_elem [OF inv d] obtain S' where S': "ptr_remove rd len S d = Some S'" "ptr_inv rd hf len S'"
    "ptr_elems S' = ptr_elems S - {d}" by blast
  have "T = S'" using S'(1) get T by (simp add: ptr_remove_def)
  then show ?thesis using that [OF get _ _ S'(2,3)] i(1,4) T by simp
qed

lemma ptr_add_slot:
  assumes inv: "ptr_inv rd hf len S" and new: "rd d len \<notin> (\<lambda>d. rd d len) ` ptr_elems S"
  obtains (refused) h' where "set_add rd S d len h = Some (None, S, h')"
  | (added) i S' h' where "set_add rd S d len h = Some (Some i, S', h')" "ptr_inv rd hf len S'"
      "ptr_elems S' = insert d (ptr_elems S)" "set_get rd S' (rd d len) len = Some (Some i)"
proof -
  let ?hash = "hf (rd d len) len"
  have sinv: "set_inv rd S" "set_hash S = hf" "0 < len" using inv by (simp_all add: ptr_inv_def)
  have res: "set_add rd S d len h = set_add_h rd S d len ?hash h"
    using sinv(2) by (simp add: set_add_def)
  have "added rd d len ?hash S (set_add_h rd S d len ?hash h)"
    using sinv by (intro set_add_h_added) simp_all
  moreover have none: "\<not> (\<exists>it \<in># set_content S. ikey rd it = (?hash, len, Some (rd d len)))"
  proof
    assume "\<exists>it \<in># set_content S. ikey rd it = (?hash, len, Some (rd d len))"
    then obtain it where it: "it \<in># set_content S" "ikey rd it = (?hash, len, Some (rd d len))" by blast
    show False
      by (rule ptr_item [OF inv it(1)]) (use it(2) new in auto)
  qed
  ultimately consider h' where "set_add_h rd S d len ?hash h = Some (None, S, h')"
    | j S' h' where "set_add_h rd S d len ?hash h = Some (Some j, S', h')" "set_inv rd S'"
      "set_hash S' = set_hash S" "j < set_max S'" "set_items S' ! j = fresh_item d len ?hash"
      "set_content S' = add_mset (fresh_item d len ?hash) (set_content S)"
    unfolding added_def by auto
  then show ?thesis
  proof cases
    case 1
    then show ?thesis using refused res by simp
  next
    case (2 j S' h')
    have P: "ptr_inv rd hf len S'" "ptr_elems S' = insert d (ptr_elems S)"
      using ptr_inv_add_mset [OF inv 2(2,3,6)] by simp_all
    have "set_get rd S' (rd d len) len = Some (Some j)"
      unfolding set_get_def 2(3) sinv(2)
      by (rule set_get_h_Some [OF 2(2,4)]) (use 2(5) sinv(3) in \<open>simp_all add: occ_def ikey_def fresh_item_def\<close>)
    with P 2(1) res show ?thesis by (intro added) simp_all
  qed
qed

section \<open>When an insertion succeeds\<close>

text \<open>
  An insertion that diverges instead of failing or allocating, to see that the loop of a resize
  does neither.
\<close>

definition strict_add ::
  "('it \<Rightarrow> 'tbl \<Rightarrow> mem \<Rightarrow> (nat option \<times> 'tbl \<times> mem) option) \<Rightarrow> 'it \<Rightarrow> 'tbl \<Rightarrow> mem \<Rightarrow> (nat option \<times> 'tbl \<times> mem) option" where
  "strict_add add it S h =
     (case add it S h of Some (Some j, S', h') \<Rightarrow> if h' = h then Some (Some j, S', h') else None | r \<Rightarrow> None)"

lemma strict_add_Some:
  "strict_add add it S h = Some (r, S', h') \<Longrightarrow> r \<noteq> None \<and> h' = h \<and> add it S h = Some (r, S', h')"
  by (auto simp: strict_add_def split: option.splits if_splits)

lemma reinsert_strict:
  "reinsert (strict_add add) its S h = Some (ok, S', h') \<Longrightarrow> ok \<and> h' = h \<and> reinsert add its S h = Some (ok, S', h')"
proof (induction its arbitrary: S)
  case (Cons it its)
  show ?case
  proof (cases "occ it")
    case True
    obtain r S1 h1 where s: "strict_add add it S h = Some (r, S1, h1)"
      using Cons.prems True by (cases "strict_add add it S h") auto
    then obtain j where j: "r = Some j" "h1 = h" "add it S h = Some (Some j, S1, h)"
      using strict_add_Some [OF s] by (cases r) auto
    define T where "T = S1\<lparr>set_items := (set_items S1)
                  [j := (set_items S1 ! j)
                     \<lparr>it_usage := it_usage it, it_long_p := it_long_p it,
                      it_long_value := it_long_value it, it_double_p := it_double_p it,
                      it_double_value := it_double_value it\<rparr>]\<rparr>"
    have "reinsert (strict_add add) its T h = Some (ok, S', h')"
      using Cons.prems True s j(1,2) by (simp add: T_def)
    from Cons.IH [OF this] show ?thesis using True j(3) by (simp add: T_def)
  next
    case False
    then have "reinsert (strict_add add) its S h = Some (ok, S', h')" using Cons.prems by simp
    from Cons.IH [OF this] show ?thesis using False by simp
  qed
qed simp

text \<open>With enough memory and a table that may still double, adding succeeds, and takes no answer.\<close>

lemma reinsert_room:
  assumes N: "2 * N \<le> mx + 1" and inv: "set_inv rd S" and mx: "set_max S = mx" and hf: "set_hash S = hf"
    and ok: "content_ok rd hf (set_content S + occ_items its)" and cnt: "set_count S + count_occ its \<le> N"
  shows "\<exists>S'. reinsert (\<lambda>it. set_add_fuel (Suc n) rd (it_data it) (it_len it) (it_hash it)) its S h = Some (True, S', h)"
proof -
  let ?add = "\<lambda>it. set_add_fuel (Suc n) rd (it_data it) (it_len it) (it_hash it)"
  have "add_ok rd hf (\<lambda>m. m = mx) N (strict_add ?add)"
    unfolding add_ok_def
  proof (intro allI impI disjI2, goal_cases)
    case (1 it d S h)
    from add_item_room [OF N 1, of n h] show ?case by (auto simp: strict_add_def)
  qed
  from reinsert_spec [OF this inv mx hf ok cnt, of h] obtain b S' h'
    where "reinsert (strict_add ?add) its S h = Some (b, S', h')" by blast
  from reinsert_strict [OF this] show ?thesis by auto
qed

lemma set_resize_room:
  assumes inv: "set_inv rd S" and mx: "set_max S * 2 \<le> SIZE_MAX div 64"
  shows "\<exists>S'. set_resize_fuel (Suc (Suc n)) rd (set_max S * 2) S [] = Some (0, S', [])"
proof -
  note simps = set_inv_simps [OF inv]
  let ?m = "set_max S * 2"
  let ?E = "S\<lparr>set_max := ?m, set_items := replicate ?m zero_item, set_count := 0, set_collisions := 0\<rparr>"
  have E: "set_inv rd ?E" "set_content ?E = {#}"
    using simps(2) mx by (intro set_inv_empty [of ?m]; simp)+
  have "\<exists>S'. reinsert (\<lambda>it. set_add_fuel (Suc n) rd (it_data it) (it_len it) (it_hash it)) (set_items S) ?E []
      = Some (True, S', [])"
    by (rule reinsert_room [of "set_count S" ?m rd ?E "set_hash S"])
      (use E simps in \<open>simp_all add: set_content_def\<close>)
  then obtain S' where "reinsert (\<lambda>it. set_add_fuel (Suc n) rd (it_data it) (it_len it) (it_hash it)) (set_items S) ?E []
      = Some (True, S', [])" by blast
  moreover have "\<not> ?m < set_count S" "?m \<noteq> set_max S" "?m \<noteq> 0" using simps(2,6) by simp_all
  ultimately show ?thesis using mx by simp
qed

lemma card_ptr_elems:
  assumes "ptr_inv rd hf len S"
  shows "card (ptr_elems S) = set_count S"
proof -
  have sinv: "set_inv rd S" using assms by (simp add: ptr_inv_def)
  note simps = set_inv_simps [OF sinv]
  let ?I = "{i. i < length (set_items S) \<and> occ (set_items S ! i)}"
  have data: "\<exists>d. it_data (set_items S ! i) = Some d \<and> ikey rd (set_items S ! i) = (hf (rd d len) len, len, Some (rd d len))"
    if "i \<in> ?I" for i
  proof -
    have "set_items S ! i \<in># set_content S" using that by (auto simp: set_content_def mem_occ_items)
    from ptr_item [OF assms this] show ?thesis by metis
  qed
  have "inj_on (\<lambda>i. it_data (set_items S ! i)) ?I"
  proof (rule inj_onI)
    fix i j assume ij: "i \<in> ?I" "j \<in> ?I" "it_data (set_items S ! i) = it_data (set_items S ! j)"
    then have "ikey rd (set_items S ! i) = ikey rd (set_items S ! j)"
      using data [OF ij(1)] data [OF ij(2)] by auto
    then show "i = j" using set_inv_unique [OF sinv, of j i] ij simps(1) by simp
  qed
  moreover have "Some ` ptr_elems S = (\<lambda>i. it_data (set_items S ! i)) ` ?I"
  proof (intro set_eqI iffI)
    fix x assume "x \<in> Some ` ptr_elems S"
    then obtain it d where "x = Some d" "it \<in># set_content S" "it_data it = Some d"
      by (auto simp: ptr_elems_def)
    then show "x \<in> (\<lambda>i. it_data (set_items S ! i)) ` ?I"
      unfolding set_content_def mem_occ_items by force
  next
    fix x assume "x \<in> (\<lambda>i. it_data (set_items S ! i)) ` ?I"
    then obtain i where i: "i \<in> ?I" "x = it_data (set_items S ! i)" by blast
    obtain d where "x = Some d" using data [OF i(1)] i(2) by auto
    moreover have "set_items S ! i \<in># set_content S" using i(1) by (auto simp: set_content_def mem_occ_items)
    ultimately show "x \<in> Some ` ptr_elems S" using i(2) by (auto simp: ptr_elems_def)
  qed
  ultimately have "card (Some ` ptr_elems S) = card ?I" by (simp add: card_image)
  then have "card (ptr_elems S) = card ?I" by (simp add: card_image)
  also have "\<dots> = set_count S" by (simp add: simps(4) count_occ_def length_filter_conv_card)
  finally show ?thesis .
qed

lemma ptr_add_succeeds:
  assumes inv: "ptr_inv rd hf len S" and small: "card (ptr_elems S) < 2 ^ 55"
    and r: "set_add rd S d len [] = Some (r, S', h')"
  shows "r \<noteq> None \<and> h' = []"
proof -
  have sinv: "set_inv rd S" "set_hash S = hf" "0 < len" using inv by (simp_all add: ptr_inv_def)
  note simps = set_inv_simps [OF sinv(1)]
  let ?hash = "hf (rd d len) len"
  have R: "set_add_fuel (Suc (Suc (Suc (Suc (Suc 0))))) rd (Some d) len ?hash S [] = Some (r, S', h')"
    using r sinv(2) by (simp add: set_add_def set_add_h_def eval_nat_numeral)
  show ?thesis
  proof (cases "set_count S * 2 \<ge> set_max S")
    case False
    then show ?thesis using R by (auto simp del: set_add_fuel.simps simp: set_add_fuel.simps(3) split: option.splits)
  next
    case True
    have c: "set_count S < 2 ^ 55" using small card_ptr_elems [OF inv] by simp
    have m: "set_max S * 2 \<le> SIZE_MAX div 64" "\<not> set_max S > SIZE_MAX div 2" using True c by simp_all
    obtain T where "set_resize_fuel (Suc (Suc (Suc (Suc 0)))) rd (set_max S * 2) S [] = Some (0, T, [])"
      using set_resize_room [OF sinv(1) m(1)] by blast
    then show ?thesis using R True m(2)
      by (auto simp del: set_add_fuel.simps set_resize_fuel.simps simp: set_add_fuel.simps(3))
  qed
qed

end
