(* ===== verification/Transactions.thy ===== *)
theory Transactions
  imports Facts
begin

text \<open>
  The outer transactions of \<^verbatim>\<open>lib/transaction.c\<close> and the operations of \<^verbatim>\<open>lib/facts.c\<close> they call:
  nesting, the listeners that may veto a commit, the observers told about it, the rollback that
  replays the stack of entries backwards, and the staged graph of justifications.
\<close>

section \<open>Begin\<close>

text \<open>
  A thread that holds a read lock waits for itself; the level is an \<^verbatim>\<open>int\<close>, whose overflow is
  undefined.
\<close>

definition transaction_begin :: "int action" where
  "transaction_begin st =
     (let tx = db_tx st in
      if tx_owned tx then
        if tx_level tx \<ge> 2 ^ 31 - 1 then None else Some (0, st\<lparr>db_tx := tx\<lparr>tx_level := tx_level tx + 1\<rparr>\<rparr>)
      else if tx_readers tx > 0 then None
      else Some (0, st\<lparr>db_tx := tx\<lparr>tx_owned := True, tx_level := 1\<rparr>\<rparr>))"

definition facts_transaction_begin :: "int action" where
  "facts_transaction_begin = transaction_begin"

definition may_finish :: "transaction \<Rightarrow> bool" where
  "may_finish tx \<longleftrightarrow> tx_level tx > 0 \<and> tx_owned tx"

definition finish :: "facts \<Rightarrow> facts" where
  "finish st = st\<lparr>db_tx := (db_tx st)\<lparr>tx_level := 0, tx_owned := False\<rparr>\<rparr>"

definition set_entries :: "rollback_entry list \<Rightarrow> facts \<Rightarrow> facts" where
  "set_entries es st = st\<lparr>db_tx := (db_tx st)\<lparr>tx_rollback := (tx_rollback (db_tx st))\<lparr>rb_entries := es\<rparr>\<rparr>\<rparr>"

abbreviation entries :: "facts \<Rightarrow> rollback_entry list" where
  "entries st \<equiv> rb_entries (tx_rollback (db_tx st))"

section \<open>Staged justifications\<close>

definition facts_justifications_stage :: "bool \<Rightarrow> int action" where
  "facts_justifications_stage preserve_existing st =
     (if db_staging st \<noteq> None then Some (- 1, st)
      else case (if preserve_existing then justification_graph_clone (Some (db_justifications st)) (db_mem st)
                 else new_justification_graph (db_mem st)) of
             (g, h) \<Rightarrow> Some (if g = None then - 1 else 0, st\<lparr>db_staging := g, db_mem := h\<rparr>))"

definition facts_justifications_commit :: "facts \<Rightarrow> facts" where
  "facts_justifications_commit st =
     (case db_staging st of None \<Rightarrow> st | Some g \<Rightarrow> st\<lparr>db_justifications := g, db_staging := None\<rparr>)"

definition facts_justifications_discard :: "facts \<Rightarrow> facts" where
  "facts_justifications_discard st = st\<lparr>db_staging := None\<rparr>"

definition facts_justification_count :: "cstr \<Rightarrow> cstr \<Rightarrow> cstr \<Rightarrow> nat action" where
  "facts_justification_count s p ob = with_reader (\<lambda>st.
     Some (justification_graph_count (Some (db_justifications st)) s p ob, st))"

section \<open>Rollback\<close>

definition facts_apply_rollback_entry :: "rollback_entry \<Rightarrow> unit action" where
  "facts_apply_rollback_entry e = with_writer (\<lambda>st.
     (let ef = re_fact e in
      do { si \<leftarrow> index_get (fact_key ef) st;
           case re_action e of
             ROLLBACK_REMOVE \<Rightarrow>
               (case si of None \<Rightarrow> Some ((), st)
                | Some (i, a) \<Rightarrow> do {
                    (_, st) \<leftarrow> (if asserted_count ef \<noteq> 0 then log_fact ''remove'' (db_heap st a) st else Some ((), st));
                    facts_remove_found i a st })
           | ROLLBACK_ADD \<Rightarrow>
               (case si of Some _ \<Rightarrow> Some ((), st)
                | None \<Rightarrow> do {
                    (_, st) \<leftarrow> (if asserted_count ef \<noteq> 0 then log_fact ''add'' ef st else Some ((), st));
                    (_, st) \<leftarrow> facts_insert_fact_copy ef False st;
                    Some ((), st) })
           | ROLLBACK_STATE \<Rightarrow>
               (case si of None \<Rightarrow> Some ((), st)
                | Some (i, a) \<Rightarrow> do {
                    (_, st) \<leftarrow> (if asserted_count (db_heap st a) \<noteq> asserted_count ef
                                then log_fact (if asserted_count ef \<noteq> 0 then ''add'' else ''remove'') (db_heap st a) st
                                else Some ((), st));
                    Some ((), update_fact a (\<lambda>f. f\<lparr>asserted_count := asserted_count ef,
                                derived_count := derived_count ef,
                                proof_count := asserted_count ef + derived_count ef\<rparr>) st) }) }))"

text \<open>
  The loop \<^verbatim>\<open>while (tx->rollback.size > 0)\<close>; its body could in principle push entries, so it is
  given as many rounds as there are entries at its start.
\<close>

fun rollback_loop :: "nat \<Rightarrow> unit action" where
  "rollback_loop n st =
     (if entries st = [] then Some ((), st)
      else case n of 0 \<Rightarrow> None
      | Suc m \<Rightarrow>
          (let e = last (entries st) in do {
             (_, st) \<leftarrow> facts_apply_rollback_entry e (set_entries (butlast (entries st)) st);
             (_, st) \<leftarrow> unintern_fact (re_fact e) st;
             rollback_loop m st }))"

declare rollback_loop.simps [simp del]

definition transaction_rollback :: "int action" where
  "transaction_rollback st =
     (if \<not> may_finish (db_tx st) then Some (- 1, st)
      else do {
        (_, st) \<leftarrow> rollback_loop (length (entries st)) (facts_justifications_discard st);
        Some (0, finish st) })"

definition facts_transaction_rollback :: "int action" where
  "facts_transaction_rollback = transaction_rollback"

section \<open>Commit\<close>

record facts_commit_summary =
  subject_partitions :: u64
  physical_changes :: nat

text \<open>The partition of a subject, from the hash djb2 on 32 bits.\<close>

definition djb2 :: "cstr \<Rightarrow> 32 word" where
  "djb2 s = foldl (\<lambda>hash c. (push_bit 5 hash + hash) + of_nat (of_char c)) 5381 s"

definition facts_commit_subject_partition :: "cstr option \<Rightarrow> nat" where
  "facts_commit_subject_partition subject =
     (case subject of None \<Rightarrow> 0
      | Some s \<Rightarrow> if is_var s then 0 else 1 + unat (djb2 s) mod (64 - 1))"

definition summary_step :: "rollback_entry \<Rightarrow> bool \<times> facts_commit_summary \<Rightarrow> bool \<times> facts_commit_summary" where
  "summary_step e acc =
     (case acc of (changed, sm) \<Rightarrow>
        if re_action e \<noteq> ROLLBACK_STATE then
          (let part = facts_commit_subject_partition (symbol_to_str (f_s (re_fact e))) in
           (True, \<lparr>subject_partitions = or (or (subject_partitions sm) 1) (push_bit part 1),
                   physical_changes = physical_changes sm + 1\<rparr>))
        else (changed, sm))"

definition commit_summary :: "rollback_entry list \<Rightarrow> bool \<times> facts_commit_summary" where
  "commit_summary es = fold summary_step es (False, \<lparr>subject_partitions = 0, physical_changes = 0\<rparr>)"

text \<open>
  The callbacks the program registers are given as functions of their identification: what they
  return, and what they do to the database. \<open>None\<close> as an optional callback is not called.
\<close>

record callbacks =
  cb_listener :: "nat \<Rightarrow> rollback_entry list \<Rightarrow> int action"
  cb_observer :: "nat \<Rightarrow> unit action"
  cb_summary :: "nat \<Rightarrow> facts_commit_summary \<Rightarrow> unit action"

definition call_listener :: "callbacks \<Rightarrow> nat option \<Rightarrow> rollback_entry list \<Rightarrow> int action" where
  "call_listener cb l es st = (case l of None \<Rightarrow> Some (0, st) | Some i \<Rightarrow> cb_listener cb i es st)"

definition call_observer :: "callbacks \<Rightarrow> nat option \<Rightarrow> unit action" where
  "call_observer cb ob st = (case ob of None \<Rightarrow> Some ((), st) | Some i \<Rightarrow> cb_observer cb i st)"

definition call_summary :: "callbacks \<Rightarrow> nat option \<Rightarrow> facts_commit_summary \<Rightarrow> unit action" where
  "call_summary cb ob sm st = (case ob of None \<Rightarrow> Some ((), st) | Some i \<Rightarrow> cb_summary cb i sm st)"

fun unintern_entries :: "rollback_entry list \<Rightarrow> unit action" where
  "unintern_entries [] st = Some ((), st)"
| "unintern_entries (e # es) st = do { (_, st) \<leftarrow> unintern_fact (re_fact e) st; unintern_entries es st }"

text \<open>
  The veto: the internal listener first, then, if it returns 0, the other one. Both were read
  before the first is called. The result is whether the commit goes on.
\<close>

definition run_listeners :: "callbacks \<Rightarrow> bool \<Rightarrow> bool action" where
  "run_listeners cb suppress st =
     (let tx = db_tx st; es = entries st in
      if \<not> suppress \<and> (tx_internal_listener tx \<noteq> None \<or> tx_listener tx \<noteq> None) \<and> es \<noteq> [] then
        (case malloc (db_mem st) of
           (False, h) \<Rightarrow> do { (_, st) \<leftarrow> transaction_rollback (st\<lparr>db_mem := h\<rparr>); Some (False, st) }
         | (True, h) \<Rightarrow> do {
             (r1, st) \<leftarrow> call_listener cb (tx_internal_listener tx) es (st\<lparr>db_mem := h\<rparr>);
             (r2, st) \<leftarrow> (if r1 = 0 then call_listener cb (tx_listener tx) es st else Some (r1, st));
             if r2 \<noteq> 0 then do { (_, st) \<leftarrow> transaction_rollback st; Some (False, st) }
             else Some (True, st) })
      else Some (True, st))"

definition transaction_commit_impl :: "callbacks \<Rightarrow> bool \<Rightarrow> int action" where
  "transaction_commit_impl cb suppress st =
     (let tx = db_tx st in
      if \<not> may_finish tx then Some (- 1, st)
      else if tx_level tx > 1 then Some (0, st\<lparr>db_tx := tx\<lparr>tx_level := tx_level tx - 1\<rparr>\<rparr>)
      else do {
        (go, st) \<leftarrow> run_listeners cb suppress st;
        if \<not> go then Some (- 1, st)
        else do {
          let st = facts_justifications_commit st;
          let (changed, summary) = commit_summary (entries st);
          (_, st) \<leftarrow> unintern_entries (entries st) st;
          let st = finish (set_entries [] st);
          let tx = db_tx st;
          if changed then do {
            (_, st) \<leftarrow> call_summary cb (tx_summary_observer tx) summary st;
            (_, st) \<leftarrow> call_summary cb (tx_internal_summary_observer tx) summary st;
            (_, st) \<leftarrow> call_observer cb (tx_commit_observer tx) st;
            Some (0, st)
          }
          else Some (0, st)
        } })"

definition transaction_commit :: "callbacks \<Rightarrow> int action" where
  "transaction_commit cb = transaction_commit_impl cb False"

definition transaction_commit_silent :: "callbacks \<Rightarrow> int action" where
  "transaction_commit_silent cb = transaction_commit_impl cb True"

definition facts_transaction_commit :: "callbacks \<Rightarrow> int action" where
  "facts_transaction_commit cb = transaction_commit cb"

section \<open>Registering callbacks\<close>

definition facts_register_tx_listener :: "nat option \<Rightarrow> facts \<Rightarrow> facts" where
  "facts_register_tx_listener l st = st\<lparr>db_tx := (db_tx st)\<lparr>tx_listener := l\<rparr>\<rparr>"

definition facts_register_internal_tx_listener :: "nat option \<Rightarrow> facts \<Rightarrow> facts" where
  "facts_register_internal_tx_listener l st = st\<lparr>db_tx := (db_tx st)\<lparr>tx_internal_listener := l\<rparr>\<rparr>"

definition facts_register_commit_observer :: "nat option \<Rightarrow> facts \<Rightarrow> facts" where
  "facts_register_commit_observer l st = st\<lparr>db_tx := (db_tx st)\<lparr>tx_commit_observer := l\<rparr>\<rparr>"

definition facts_register_commit_summary_observer :: "nat option \<Rightarrow> facts \<Rightarrow> facts" where
  "facts_register_commit_summary_observer l st = st\<lparr>db_tx := (db_tx st)\<lparr>tx_summary_observer := l\<rparr>\<rparr>"

definition facts_register_internal_commit_summary_observer :: "nat option \<Rightarrow> facts \<Rightarrow> facts" where
  "facts_register_internal_commit_summary_observer l st =
     st\<lparr>db_tx := (db_tx st)\<lparr>tx_internal_summary_observer := l\<rparr>\<rparr>"

section \<open>Read guards\<close>

text \<open>The result, and the guard: whether it names the database, and what was acquired.\<close>

definition facts_read_begin :: "facts \<Rightarrow> (int \<times> (bool \<times> bool)) \<times> facts" where
  "facts_read_begin st =
     (if transaction_writer_owned (db_tx st) then ((- 1, (False, False)), st)
      else case transaction_acquire_reader (db_tx st) of
             (acquired, tx) \<Rightarrow> ((0, (True, acquired)), st\<lparr>db_tx := tx\<rparr>))"

definition facts_read_end :: "bool \<times> bool \<Rightarrow> (bool \<times> bool) action" where
  "facts_read_end guard st =
     (if \<not> fst guard then Some (guard, st)
      else do { tx \<leftarrow> transaction_release_reader (db_tx st) (snd guard);
                Some ((False, False), st\<lparr>db_tx := tx\<rparr>) })"

end
