(* ===== verification/Lifecycle.thy ===== *)
theory Lifecycle
  imports Transactions
begin

text \<open>
  Creation, reset and destruction of a database, with all their allocation failures
  (\<^verbatim>\<open>lib/facts.c\<close>), and the entities, which wrap one transaction. The index hashes with \<open>wyhash\<close>
  of \<^verbatim>\<open>include/wyhash.h\<close>, a parameter.
\<close>

section \<open>Creation\<close>

definition set_zero :: "(fact_key \<Rightarrow> nat \<Rightarrow> u64) \<Rightarrow> (addr, fact_key) set_tbl" where
  "set_zero wyhash = \<lparr>set_max = 0, set_items = [], set_count = 0, set_collisions = 0, set_hash = wyhash\<rparr>"

text \<open>What is outside the structure: the arena, the memory of facts, the generator.\<close>

record globals =
  g_arena :: arena
  g_heap :: "addr \<Rightarrow> fact"
  g_mem :: mem
  g_rng :: xoshiro

definition init_error :: "globals \<Rightarrow> mem \<Rightarrow> facts option \<times> globals" where
  "init_error g h = (None, g\<lparr>g_arena := arena_destroy (g_arena g), g_mem := h\<rparr>)"

definition facts_init_checked ::
  "(fact_key \<Rightarrow> nat \<Rightarrow> u64) \<Rightarrow> intern_table option \<Rightarrow> nat \<Rightarrow> globals \<Rightarrow> facts option \<times> globals" where
  "facts_init_checked wyhash symbols0 mx g0 =
     (if mx = 0 then (None, g0)
      else let g = g0\<lparr>g_arena := arena_init (g_arena g0)\<rparr> in
      case (case symbols0 of Some t \<Rightarrow> (Some t, g_mem g) | None \<Rightarrow> new_intern (g_mem g)) of
        (None, h) \<Rightarrow> init_error g h
      | (Some t, h) \<Rightarrow>
      (case set_init_checked wyhash mx (set_zero wyhash) h of (r, S, h) \<Rightarrow>
       if r \<noteq> 0 then init_error g h
       else (case new_hexastore h of (None, h) \<Rightarrow> init_error g h | (Some x, h) \<Rightarrow>
       (case new_justification_graph h of (None, h) \<Rightarrow> init_error g h | (Some j, h) \<Rightarrow>
       (case transaction_init_checked h of (None, h) \<Rightarrow> init_error g h | (Some tx, h) \<Rightarrow>
         (Some \<lparr>db_symbols = t, db_symbols_delete = (symbols0 = None), db_index = S, db_hexastore = x,
                db_log = None, db_tx = tx, db_prog = None, db_owns_prog = False,
                db_disable_listener = False, db_justifications = j, db_staging = None,
                db_heap = g_heap g, db_arena = g_arena g, db_mem = h, db_rng = g_rng g\<rparr>,
          g\<lparr>g_mem := h\<rparr>))))))"

text \<open>\<^verbatim>\<open>facts_init\<close> asserts the result; \<open>None\<close> is the failed assertion.\<close>

definition facts_init ::
  "(fact_key \<Rightarrow> nat \<Rightarrow> u64) \<Rightarrow> intern_table option \<Rightarrow> nat \<Rightarrow> globals \<Rightarrow> facts option" where
  "facts_init wyhash symbols0 mx g = fst (facts_init_checked wyhash symbols0 mx g)"

definition new_facts ::
  "(fact_key \<Rightarrow> nat \<Rightarrow> u64) \<Rightarrow> intern_table option \<Rightarrow> nat \<Rightarrow> globals \<Rightarrow> facts option \<times> globals" where
  "new_facts wyhash symbols0 mx g =
     (case malloc (g_mem g) of
        (False, h) \<Rightarrow> (None, g\<lparr>g_mem := h\<rparr>)
      | (True, h) \<Rightarrow> facts_init_checked wyhash symbols0 mx (g\<lparr>g_mem := h\<rparr>))"

section \<open>Releasing all facts\<close>

text \<open>
  The loop \<^verbatim>\<open>while ((si = set_cursor_next(&sc)))\<close>, which does not change the set: the facts it
  visits.
\<close>

lemma set_cursor_next_progress:
  "set_cursor_next S c = (Some i, c') \<Longrightarrow> cur_i c < cur_i c' \<and> cur_i c' \<le> set_max S"
proof -
  have "cursor_scan S c = (Some i, c') \<Longrightarrow> cur_i c < cur_i c' \<and> cur_i c' \<le> set_max S" for c
    by (induction S c rule: cursor_scan.induct) (subst (asm) cursor_scan.simps, force split: if_splits)
  then show "set_cursor_next S c = (Some i, c') \<Longrightarrow> cur_i c < cur_i c' \<and> cur_i c' \<le> set_max S"
    by (auto simp: set_cursor_next_def split: if_splits)
qed

function cursor_items :: "('d, 'k) set_tbl \<Rightarrow> set_cursor \<Rightarrow> 'd option list" where
  "cursor_items S c =
     (case set_cursor_next S c of
        (None, _) \<Rightarrow> []
      | (Some i, c') \<Rightarrow> it_data (set_items S ! i) # cursor_items S c')"
  by pat_completeness auto
termination
  by (relation "measure (\<lambda>(S, c). set_max S - cur_i c)") (auto dest!: sym [of "(_, _)"] set_cursor_next_progress)

declare cursor_items.simps [simp del]

text \<open>\<^verbatim>\<open>intern_unstring\<close> of the three symbols of a fact, on the table itself.\<close>

definition unstring_fact :: "fact \<Rightarrow> intern_table \<Rightarrow> intern_table option" where
  "unstring_fact f t =
     do { t \<leftarrow> intern_unstring t (f_s f); t \<leftarrow> intern_unstring t (f_p f); intern_unstring t (f_o f) }"

fun release_facts :: "(addr \<Rightarrow> fact) \<Rightarrow> addr option list \<Rightarrow> intern_table \<Rightarrow> arena \<Rightarrow> (intern_table \<times> arena) option" where
  "release_facts hp [] t A = Some (t, A)"
| "release_facts hp (None # as) t A = None"
| "release_facts hp (Some a # as) t A =
     do { t' \<leftarrow> unstring_fact (hp a) t; release_facts hp as t' (arena_free_fact A (Some a)) }"

section \<open>Destruction\<close>

fun unstring_facts :: "(addr \<Rightarrow> fact) \<Rightarrow> addr option list \<Rightarrow> intern_table \<Rightarrow> intern_table option" where
  "unstring_facts hp [] t = Some t"
| "unstring_facts hp (None # as) t = None"
| "unstring_facts hp (Some a # as) t = do { t' \<leftarrow> unstring_fact (hp a) t; unstring_facts hp as t' }"

definition transaction_destroy :: "transaction \<Rightarrow> transaction option" where
  "transaction_destroy tx =
     (if tx_owned tx \<or> tx_level tx \<noteq> 0 \<or> rb_entries (tx_rollback tx) \<noteq> [] then None
      else Some (tx\<lparr>tx_rollback := \<lparr>rb_entries = [], rb_capacity = 0\<rparr>\<rparr>))"

text \<open>What is left: a shared symbol table, and the arena.\<close>

definition facts_destroy :: "facts \<Rightarrow> (intern_table option \<times> arena) option" where
  "facts_destroy st =
     do { t \<leftarrow> (if db_symbols_delete st then Some None
                else map_option Some (unstring_facts (db_heap st)
                       (cursor_items (db_index st) set_cursor_init) (db_symbols st)));
          _ \<leftarrow> transaction_destroy (db_tx st);
          Some (t, arena_destroy (db_arena st)) }"

section \<open>Reset\<close>

text \<open>
  The two functions that reset a database share their body: every replacement is allocated
  first; an owned symbol table is replaced, the references on a shared one are given back.
\<close>

definition replacements ::
  "facts \<Rightarrow> ((addr, fact_key) set_tbl \<times> hexastore \<times> jgraph \<times> intern_table option) option \<times> mem" where
  "replacements st =
     (case set_init_checked (set_hash (db_index st)) (set_max (db_index st))
             (set_zero (set_hash (db_index st))) (db_mem st) of (r, S, h) \<Rightarrow>
      if r \<noteq> 0 then (None, h)
      else (case new_hexastore h of (None, h) \<Rightarrow> (None, h) | (Some x, h) \<Rightarrow>
      (case new_justification_graph h of (None, h) \<Rightarrow> (None, h) | (Some j, h) \<Rightarrow>
       if db_symbols_delete st then
         (case new_intern h of (None, h) \<Rightarrow> (None, h) | (Some t, h) \<Rightarrow> (Some (S, x, j, Some t), h))
       else (Some (S, x, j, None), h))))"

definition reset_body :: "int action" where
  "reset_body st =
     (case replacements st of
        (None, h) \<Rightarrow> Some (- 1, st\<lparr>db_mem := h\<rparr>)
      | (Some (S, x, j, symbols'), h) \<Rightarrow>
          do { (t, A) \<leftarrow> release_facts (db_heap st) (cursor_items (db_index st) set_cursor_init)
                            (db_symbols st) (db_arena st);
               Some (0, st\<lparr>db_mem := h, db_justifications := j, db_staging := None, db_arena := A,
                           db_hexastore := x, db_index := S,
                           db_symbols := (case symbols' of Some t' \<Rightarrow> t' | None \<Rightarrow> t)\<rparr>) })"

definition facts_reset_checked :: "int action" where
  "facts_reset_checked st =
     (if transaction_writer_owned (db_tx st) then Some (- 1, st) else with_writer reset_body st)"

definition facts_reset :: "unit action" where
  "facts_reset st = do { (r, st) \<leftarrow> facts_reset_checked st; if r = 0 then Some ((), st) else None }"

definition facts_reset_local_db :: "int action" where
  "facts_reset_local_db st =
     (if \<not> transaction_writer_owned (db_tx st) \<or> tx_level (db_tx st) \<noteq> 0 \<or> entries st \<noteq> []
      then Some (- 1, st) else reset_body st)"

section \<open>Entities\<close>

record s_entity =
  ent_subject :: "cstr option"
  ent_in_transaction :: bool

definition facts_entity_begin :: "cstr \<Rightarrow> s_entity option action" where
  "facts_entity_begin subject st =
     (case malloc (db_mem st) of
        (False, h) \<Rightarrow> Some (None, st\<lparr>db_mem := h\<rparr>)
      | (True, h) \<Rightarrow> do {
          (y, st) \<leftarrow> facts_intern subject (st\<lparr>db_mem := h\<rparr>);
          (_, st) \<leftarrow> facts_transaction_begin st;
          Some (Some \<lparr>ent_subject = symbol_to_str y, ent_in_transaction = True\<rparr>, st) })"

text \<open>A null subject or object fails the assertions of \<^verbatim>\<open>facts_add_spo\<close>. Its result is ignored.\<close>

definition facts_entity_add :: "s_entity \<Rightarrow> cstr \<Rightarrow> cstr option \<Rightarrow> int action" where
  "facts_entity_add ent predicate object st =
     (if \<not> ent_in_transaction ent then Some (- 1, st)
      else do { subject \<leftarrow> ent_subject ent; ob \<leftarrow> object;
                (_, st) \<leftarrow> facts_add_spo subject predicate ob st; Some (0, st) })"

definition facts_entity_add_number :: "('n \<Rightarrow> cstr) \<Rightarrow> s_entity \<Rightarrow> cstr \<Rightarrow> 'n \<Rightarrow> int action" where
  "facts_entity_add_number format ent predicate value st =
     (if \<not> ent_in_transaction ent then Some (- 1, st)
      else do { (val_str, st) \<leftarrow> facts_number format value st;
                facts_entity_add ent predicate val_str st })"

definition facts_entity_commit :: "callbacks \<Rightarrow> s_entity \<Rightarrow> int action" where
  "facts_entity_commit cb ent st =
     (if ent_in_transaction ent then facts_transaction_commit cb st else Some (0, st))"

definition facts_entity_abort :: "s_entity \<Rightarrow> unit action" where
  "facts_entity_abort ent st =
     (if ent_in_transaction ent then do { (_, st) \<leftarrow> facts_transaction_rollback st; Some ((), st) }
      else Some ((), st))"

section \<open>Adding the facts of a specification\<close>

text \<open>
  The pairs of a variable and the name of the anonymous symbol made for it, one pair for every
  occurrence; \<open>n\<close> bounds the draws of each name. A null name ends the whole operation. More
  variables than were counted (after a leading null) would be written past the block.
\<close>

fun anon_pairs :: "nat \<Rightarrow> cstr list \<Rightarrow> (cstr \<times> cstr) list option action" where
  "anon_pairs n [] st = Some (Some [], st)"
| "anon_pairs n (v # vs) st =
     do { (name, st) \<leftarrow> facts_anon n (Some v) st;
          case name of
            None \<Rightarrow> Some (None, st)
          | Some x \<Rightarrow> do { (rest, st) \<leftarrow> anon_pairs n vs st; Some (map_option (Cons (v, x)) rest, st) } }"

definition spec_bindings_anon_assoc :: "nat \<Rightarrow> spec \<Rightarrow> (cstr \<times> cstr) list option action" where
  "spec_bindings_anon_assoc n spec st =
     do { count \<leftarrow> spec_count_bindings spec;
          if count > (SIZE_MAX - 1) div 2 \<or> count * 2 + 1 > SIZE_MAX div 8 then Some (None, st)
          else (case malloc (db_mem st) of
                  (False, h) \<Rightarrow> Some (None, st\<lparr>db_mem := h\<rparr>)
                | (True, h) \<Rightarrow> do { vs \<leftarrow> scan_vars spec;
                                    if length vs > count then None else anon_pairs n vs (st\<lparr>db_mem := h\<rparr>) }) }"

fun assoc_get :: "(cstr \<times> cstr) list \<Rightarrow> cstr \<Rightarrow> cstr option" where
  "assoc_get [] k = None"
| "assoc_get ((x, v) # kv) k = (if strcmp x k \<noteq> 0 then assoc_get kv k else Some v)"

definition anon_field :: "(cstr \<times> cstr) list \<Rightarrow> cstr option \<Rightarrow> cstr option" where
  "anon_field anon x = (case x of None \<Rightarrow> None | Some s \<Rightarrow> if is_var s then assoc_get anon s else Some s)"

text \<open>A null field is dereferenced, or fails the assertions of \<^verbatim>\<open>facts_add_spo\<close>.\<close>

fun add_spec_facts :: "(cstr \<times> cstr) list \<Rightarrow> spec_fact list \<Rightarrow> int action" where
  "add_spec_facts anon [] st = Some (0, st)"
| "add_spec_facts anon (f # fs) st =
     (if sf_negated f \<noteq> None then add_spec_facts anon fs st
      else do {
        s \<leftarrow> anon_field anon (sf_s f); p \<leftarrow> anon_field anon (sf_p f); ob \<leftarrow> anon_field anon (sf_o f);
        (a, st) \<leftarrow> facts_add_spo s p ob st;
        if a = None then Some (- 1, st) else add_spec_facts anon fs st })"

definition facts_add :: "nat \<Rightarrow> spec \<Rightarrow> int action" where
  "facts_add n spec = with_writer (\<lambda>st.
     do { (anon, st) \<leftarrow> spec_bindings_anon_assoc n spec st;
          case anon of
            None \<Rightarrow> Some (- 1, st)
          | Some kv \<Rightarrow> do { fs \<leftarrow> spec_facts spec; add_spec_facts kv fs st } })"

end
