(* ===== verification/Heapsort.thy ===== *)
theory Heapsort
  imports Prelude
begin

text \<open>
  The heap sort of the cached results of a query (\<^verbatim>\<open>lib/facts.c\<close>): \<^verbatim>\<open>swap_matches\<close>,
  \<^verbatim>\<open>compare_matches\<close>, \<^verbatim>\<open>sift_down_matches\<close> and \<^verbatim>\<open>heapsort_matches\<close>. A cached result is the list of
  the values of its variables.
\<close>

type_synonym cached_match = "cstr option list"

section \<open>The code\<close>

definition swap_matches :: "nat \<Rightarrow> nat \<Rightarrow> 'a list \<Rightarrow> 'a list" where
  "swap_matches a b arr = arr[a := arr ! b, b := arr ! a]"

definition compare_matches :: "nat \<Rightarrow> bool \<Rightarrow> cached_match \<Rightarrow> cached_match \<Rightarrow> int" where
  "compare_matches idx desc a b =
     (case (a ! idx, b ! idx) of
        (None, None) \<Rightarrow> 0
      | (None, Some _) \<Rightarrow> if desc then 1 else - 1
      | (Some _, None) \<Rightarrow> if desc then - 1 else 1
      | (Some val_a, Some val_b) \<Rightarrow> (let cmp = strcmp val_a val_b in if desc then - cmp else cmp))"

text \<open>The comparison is an argument of the loops. The early return is in the condition.\<close>

function sift_down_matches :: "('a \<Rightarrow> 'a \<Rightarrow> int) \<Rightarrow> 'a list \<Rightarrow> nat \<Rightarrow> nat \<Rightarrow> 'a list" where
  "sift_down_matches cmp arr root n =
     (if n \<ge> 2 \<and> root \<le> (n - 2) div 2 then
        let child = root * 2 + 1;
            child = (if child + 1 < n \<and> cmp (arr ! child) (arr ! (child + 1)) < 0 then child + 1 else child)
        in if cmp (arr ! root) (arr ! child) \<ge> 0 then arr
           else sift_down_matches cmp (swap_matches root child arr) child n
      else arr)"
  by pat_completeness auto
termination
  by (relation "measure (\<lambda>(cmp, arr, root, n). n - root)") (auto simp: Let_def split: if_splits)

declare sift_down_matches.simps [simp del]

text \<open>The loops \<^verbatim>\<open>for (start = count / 2; start > 0; start--)\<close> and \<^verbatim>\<open>for (end = count - 1; end > 0; end--)\<close>.\<close>

fun build_heap :: "('a \<Rightarrow> 'a \<Rightarrow> int) \<Rightarrow> nat \<Rightarrow> nat \<Rightarrow> 'a list \<Rightarrow> 'a list" where
  "build_heap cmp n 0 arr = arr"
| "build_heap cmp n (Suc start) arr = build_heap cmp n start (sift_down_matches cmp arr start n)"

fun take_maxima :: "('a \<Rightarrow> 'a \<Rightarrow> int) \<Rightarrow> nat \<Rightarrow> 'a list \<Rightarrow> 'a list" where
  "take_maxima cmp 0 arr = arr"
| "take_maxima cmp (Suc e) arr =
     take_maxima cmp e (sift_down_matches cmp (swap_matches 0 (Suc e) arr) 0 (Suc e))"

definition heapsort_matches :: "('a \<Rightarrow> 'a \<Rightarrow> int) \<Rightarrow> 'a list \<Rightarrow> nat \<Rightarrow> 'a list" where
  "heapsort_matches cmp arr n =
     (if n < 2 then arr else take_maxima cmp (n - 1) (build_heap cmp n (n div 2) arr))"

section \<open>Swapping\<close>

lemma length_swap [simp]: "length (swap_matches a b arr) = length arr"
  by (simp add: swap_matches_def)

lemma mset_swap_matches [simp]:
  "a < length arr \<Longrightarrow> b < length arr \<Longrightarrow> mset (swap_matches a b arr) = mset arr"
  by (simp add: swap_matches_def mset_swap)

lemma nth_swap:
  "a < length arr \<Longrightarrow> b < length arr \<Longrightarrow> i < length arr \<Longrightarrow>
   swap_matches a b arr ! i = arr ! (if i = a then b else if i = b then a else i)"
  by (auto simp: swap_matches_def nth_list_update)

lemma nth_swap_other: "i \<noteq> a \<Longrightarrow> i \<noteq> b \<Longrightarrow> swap_matches a b arr ! i = arr ! i"
  by (simp add: swap_matches_def)

section \<open>Heaps for a total preorder\<close>

abbreviation parent :: "nat \<Rightarrow> nat" where
  "parent i \<equiv> (i - 1) div 2"

locale comparison =
  fixes cmp :: "'a \<Rightarrow> 'a \<Rightarrow> int"
  assumes flip: "cmp a b \<le> 0 \<longleftrightarrow> cmp b a \<ge> 0"
    and trans: "cmp a b \<le> 0 \<Longrightarrow> cmp b c \<le> 0 \<Longrightarrow> cmp a c \<le> 0"
begin

abbreviation le :: "'a \<Rightarrow> 'a \<Rightarrow> bool" where
  "le a b \<equiv> cmp a b \<le> 0"

lemma le_refl [simp]: "le a a"
  using flip [of a a] by linarith

lemma le_total: "le a b \<or> le b a"
  using flip [of a b] by linarith

definition heap_from :: "nat \<Rightarrow> nat \<Rightarrow> 'a list \<Rightarrow> bool" where
  "heap_from lo n arr \<longleftrightarrow> (\<forall>i < n. 0 < i \<longrightarrow> lo \<le> parent i \<longrightarrow> le (arr ! i) (arr ! parent i))"

text \<open>The heap order may fail between \<open>root\<close> and its children only.\<close>

definition heap_but :: "nat \<Rightarrow> nat \<Rightarrow> nat \<Rightarrow> 'a list \<Rightarrow> bool" where
  "heap_but lo n root arr \<longleftrightarrow>
     (\<forall>i < n. 0 < i \<longrightarrow> lo \<le> parent i \<longrightarrow> parent i \<noteq> root \<longrightarrow> le (arr ! i) (arr ! parent i)) \<and>
     (\<forall>i < n. 0 < i \<longrightarrow> parent i = root \<longrightarrow> 0 < root \<longrightarrow> lo \<le> parent root \<longrightarrow> le (arr ! i) (arr ! parent root))"

lemma sift_child:
  fixes arr :: "'a list"
  assumes "n \<ge> 2" "root \<le> (n - 2) div 2"
  defines "child \<equiv> (if root * 2 + 1 + 1 < n \<and> cmp (arr ! (root * 2 + 1)) (arr ! (root * 2 + 1 + 1)) < 0
                    then root * 2 + 1 + 1 else root * 2 + 1)"
  shows "root < child" "child < n" "parent child = root"
    "0 < i \<Longrightarrow> i < n \<Longrightarrow> parent i = root \<Longrightarrow> le (arr ! i) (arr ! child)"
proof -
  show "root < child" "child < n" "parent child = root" using assms(1,2) by (auto simp: child_def)
  assume i: "0 < i" "i < n" "parent i = root"
  then have "i = root * 2 + 1 \<or> i = root * 2 + 1 + 1" by presburger
  then show "le (arr ! i) (arr ! child)"
    using i(2) flip [of "arr ! (root * 2 + 1 + 1)" "arr ! (root * 2 + 1)"] by (auto simp: child_def)
qed

lemma heap_but_swap:
  assumes h: "heap_but lo n root arr" and c: "root < child" "child < n" "parent child = root"
    and big: "\<And>i. 0 < i \<Longrightarrow> i < n \<Longrightarrow> parent i = root \<Longrightarrow> le (arr ! i) (arr ! child)"
    and less: "le (arr ! root) (arr ! child)" and len: "n \<le> length arr"
  shows "heap_but lo n child (swap_matches root child arr)"
proof -
  let ?s = "swap_matches root child arr"
  have nth: "?s ! i = arr ! (if i = root then child else if i = child then root else i)" if "i < n" for i
    using c len that by (simp add: nth_swap)
  have A: "le (?s ! i) (?s ! parent i)" if i: "i < n" "0 < i" "lo \<le> parent i" "parent i \<noteq> child" for i
  proof -
    have p: "parent i < n" using i by simp
    show ?thesis
    proof (cases "parent i = root")
      case True
      then have "i \<noteq> root" using i c by (metis div_less_dividend diff_less div_le_dividend le_less_trans less_irrefl zero_less_one)
      with True show ?thesis
        using nth [OF i(1)] nth [OF p] big [OF i(2,1) True] less c(1) by auto
    next
      case False
      note eq = nth [OF i(1)] nth [OF p] False i(4)
      show ?thesis
      proof (cases "i = root")
        case True
        have "le (arr ! child) (arr ! parent root)"
          using h c i True unfolding heap_but_def by auto
        then show ?thesis using eq True by simp
      next
        case False
        moreover have "i \<noteq> child" using c(3) \<open>parent i \<noteq> root\<close> by auto
        ultimately show ?thesis using eq h i unfolding heap_but_def by simp
      qed
    qed
  qed
  have B: "le (?s ! i) (?s ! parent child)" if i: "i < n" "0 < i" "parent i = child" "lo \<le> parent child" for i
  proof -
    have "i > child" using i(2,3) by auto
    then have "le (arr ! i) (arr ! child)" using h i c unfolding heap_but_def by auto
    then show ?thesis using nth [OF i(1)] nth [of root] c i(3) \<open>i > child\<close> by auto
  qed
  from A B show ?thesis unfolding heap_but_def by blast
qed

lemma child_in_range: "0 < i \<Longrightarrow> i < n \<Longrightarrow> n \<ge> 2 \<and> parent i \<le> (n - 2) div 2"
  by (auto intro: div_le_mono)

lemma sift_down:
  assumes "heap_but lo n root arr" "n \<le> length arr"
  shows "heap_from lo n (sift_down_matches cmp arr root n)"
    "length (sift_down_matches cmp arr root n) = length arr"
    "mset (sift_down_matches cmp arr root n) = mset arr"
    "\<And>i. n \<le> i \<Longrightarrow> sift_down_matches cmp arr root n ! i = arr ! i"
proof -
  have "heap_from lo n (sift_down_matches cmp arr root n) \<and>
    length (sift_down_matches cmp arr root n) = length arr \<and>
    mset (sift_down_matches cmp arr root n) = mset arr \<and>
    (\<forall>i \<ge> n. sift_down_matches cmp arr root n ! i = arr ! i)"
    using assms
  proof (induction "n - root" arbitrary: root arr rule: less_induct)
    case less
    note h = less.prems
    show ?case
    proof (cases "n \<ge> 2 \<and> root \<le> (n - 2) div 2")
      case False
      have "heap_from lo n arr"
        using h(1) False unfolding heap_from_def heap_but_def by (metis child_in_range)
      then show ?thesis using False by (subst (1 2 3 4) sift_down_matches.simps) auto
    next
      case True
      define child where "child = (if root * 2 + 1 + 1 < n \<and> cmp (arr ! (root * 2 + 1)) (arr ! (root * 2 + 1 + 1)) < 0
                    then root * 2 + 1 + 1 else root * 2 + 1)"
      note c = sift_child [where n = n and root = root and arr = arr, folded child_def, OF conjunct1 [OF True] conjunct2 [OF True]]
      have step: "sift_down_matches cmp arr root n =
          (if cmp (arr ! root) (arr ! child) \<ge> 0 then arr
           else sift_down_matches cmp (swap_matches root child arr) child n)"
        using True by (subst sift_down_matches.simps) (simp add: child_def Let_def)
      show ?thesis
      proof (cases "cmp (arr ! root) (arr ! child) \<ge> 0")
        case True
        then have "le (arr ! i) (arr ! root)" if "i < n" "0 < i" "parent i = root" for i
          using c(4) [OF that(2,1,3)] trans flip by blast
        then have "heap_from lo n arr" using h(1) unfolding heap_from_def heap_but_def by metis
        then show ?thesis using step True by simp
      next
        case False
        have sw: "heap_but lo n child (swap_matches root child arr)"
          by (rule heap_but_swap [OF h(1) c(1-3) _ _ h(2)]) (use c(4) False in auto)
        have "n - child < n - root" using c(1,2) by linarith
        from less.hyps [OF this sw] h(2) c(1,2) False step show ?thesis
          by (auto simp: nth_swap_other)
      qed
    qed
  qed
  then show "heap_from lo n (sift_down_matches cmp arr root n)"
    "length (sift_down_matches cmp arr root n) = length arr"
    "mset (sift_down_matches cmp arr root n) = mset arr"
    "\<And>i. n \<le> i \<Longrightarrow> sift_down_matches cmp arr root n ! i = arr ! i" by auto
qed

lemma build_heap:
  assumes "heap_from start n arr" "n \<le> length arr"
  shows "heap_from 0 n (build_heap cmp n start arr)"
    "length (build_heap cmp n start arr) = length arr"
    "mset (build_heap cmp n start arr) = mset arr"
    "\<And>i. n \<le> i \<Longrightarrow> build_heap cmp n start arr ! i = arr ! i"
proof -
  have "heap_from 0 n (build_heap cmp n start arr) \<and> length (build_heap cmp n start arr) = length arr \<and>
    mset (build_heap cmp n start arr) = mset arr \<and> (\<forall>i \<ge> n. build_heap cmp n start arr ! i = arr ! i)"
    using assms
  proof (induction start arbitrary: arr)
    case (Suc start)
    have "heap_but start n start arr"
      using Suc.prems(1) unfolding heap_from_def heap_but_def
      by (metis Suc_leI div_less_dividend diff_less leD le_neq_implies_less less_or_eq_imp_le one_less_numeral_iff
            order.strict_trans2 semiring_norm(76) zero_less_one div_le_dividend diff_le_self)
    note sd = sift_down [OF this Suc.prems(2)]
    from Suc.IH [OF sd(1)] sd(2-4) Suc.prems(2) show ?case by simp
  qed simp
  then show "heap_from 0 n (build_heap cmp n start arr)"
    "length (build_heap cmp n start arr) = length arr"
    "mset (build_heap cmp n start arr) = mset arr"
    "\<And>i. n \<le> i \<Longrightarrow> build_heap cmp n start arr ! i = arr ! i" by auto
qed

lemma heap_max:
  assumes "heap_from 0 n arr" "i < n"
  shows "le (arr ! i) (arr ! 0)"
  using assms(2)
proof (induction i rule: less_induct)
  case (less i)
  show ?case
  proof (cases "i = 0")
    case False
    then have "parent i < i" by simp
    with less False have "le (arr ! parent i) (arr ! 0)" by simp
    moreover have "le (arr ! i) (arr ! parent i)" using assms(1) less.prems False by (simp add: heap_from_def)
    ultimately show ?thesis using trans by blast
  qed simp
qed

text \<open>
  The invariant of the second loop: the first \<open>e + 1\<close> elements are a heap, the others are
  sorted, and none of these is smaller than one of the first.
\<close>

definition split_at :: "nat \<Rightarrow> nat \<Rightarrow> 'a list \<Rightarrow> bool" where
  "split_at e n arr \<longleftrightarrow>
     heap_from 0 (Suc e) arr \<and> (\<forall>i j. i \<le> j \<longrightarrow> e < j \<longrightarrow> j < n \<longrightarrow> le (arr ! i) (arr ! j))"

lemma perm_in_prefix:
  assumes "mset xs = mset ys" "k \<le> length ys" "\<And>i. k \<le> i \<Longrightarrow> xs ! i = ys ! i" "i < k"
  obtains j where "j < k" "xs ! i = ys ! j"
proof -
  have len: "length xs = length ys" using assms(1) by (metis size_mset)
  have "drop k xs = drop k ys" using assms(3) len by (intro nth_equalityI) auto
  then have "mset (take k xs) = mset (take k ys)"
    using assms(1) by (metis append_take_drop_id mset_append add_right_cancel)
  moreover have "xs ! i \<in> set (take k xs)" using assms(2,4) len by (auto simp: in_set_conv_nth)
  ultimately have "xs ! i \<in> set (take k ys)" by (metis set_mset_mset)
  then show ?thesis using that by (auto simp: in_set_conv_nth)
qed

lemma take_maxima_step:
  assumes s: "split_at (Suc e) n arr" and n: "Suc e < n" "n \<le> length arr"
  defines "arr' \<equiv> sift_down_matches cmp (swap_matches 0 (Suc e) arr) 0 (Suc e)"
  shows "split_at e n arr'" "length arr' = length arr" "mset arr' = mset arr"
    "\<And>i. Suc (Suc e) \<le> i \<Longrightarrow> arr' ! i = arr ! i"
proof -
  let ?sw = "swap_matches 0 (Suc e) arr"
  have nth: "?sw ! i = arr ! (if i = 0 then Suc e else if i = Suc e then 0 else i)" if "i < n" for i
    by (subst nth_swap) (use n that in auto)
  have heap: "heap_from 0 (Suc (Suc e)) arr" and sorted: "\<And>i j. i \<le> j \<Longrightarrow> Suc e < j \<Longrightarrow> j < n \<Longrightarrow> le (arr ! i) (arr ! j)"
    using s by (auto simp: split_at_def)
  have "heap_but 0 (Suc e) 0 ?sw"
    unfolding heap_but_def
  proof (intro conjI allI impI)
    fix i assume i: "i < Suc e" "0 < i" "parent i \<noteq> 0"
    then have "le (arr ! i) (arr ! parent i)" using heap by (auto simp: heap_from_def)
    then show "le (?sw ! i) (?sw ! parent i)" using i n nth [of i] nth [of "parent i"] by auto
  qed simp
  note sd = sift_down [OF this, folded arr'_def]
  have len: "Suc e \<le> length ?sw" "Suc e < length arr" "0 < length arr" using n by auto
  show "length arr' = length arr" "mset arr' = mset arr" using sd(2,3) [OF len(1)] len by simp_all
  show rest: "arr' ! i = arr ! i" if "Suc (Suc e) \<le> i" for i
    using sd(4) [OF len(1), of i] that by (simp add: nth_swap_other)
  have top: "arr' ! Suc e = arr ! 0" using sd(4) [OF len(1), of "Suc e"] nth [of "Suc e"] n by simp
  have first: "\<exists>j \<le> Suc e. arr' ! i = arr ! j" if "i < Suc (Suc e)" for i
    by (rule perm_in_prefix [of arr' arr "Suc (Suc e)" i])
      (use \<open>mset arr' = mset arr\<close> n rest that in \<open>auto simp: less_Suc_eq_le\<close>)
  have "le (arr' ! i) (arr' ! j)" if ij: "i \<le> j" "e < j" "j < n" for i j
  proof (cases "i < Suc (Suc e)")
    case True
    from first [OF this] obtain k where k: "k \<le> Suc e" "arr' ! i = arr ! k" by blast
    show ?thesis
    proof (cases "j = Suc e")
      case True
      then show ?thesis using heap_max [OF heap, of k] k top by simp
    next
      case False
      then show ?thesis using sorted [of k j] k ij rest [of j] by simp
    qed
  next
    case False
    then show ?thesis using sorted [of i j] ij rest [of i] rest [of j] by simp
  qed
  with sd(1) [OF len(1)] show "split_at e n arr'" by (simp add: split_at_def)
qed

lemma take_maxima:
  assumes "split_at e n arr" "e < n" "n \<le> length arr"
  shows "split_at 0 n (take_maxima cmp e arr) \<and> length (take_maxima cmp e arr) = length arr \<and>
    mset (take_maxima cmp e arr) = mset arr \<and> (\<forall>i \<ge> n. take_maxima cmp e arr ! i = arr ! i)"
  using assms
proof (induction e arbitrary: arr)
  case (Suc e)
  note st = take_maxima_step [OF Suc.prems]
  from Suc.IH [OF st(1)] st(2-4) Suc.prems show ?case by simp
qed simp

lemma heapsort_sorts:
  assumes "n \<le> length arr"
  shows "sorted_wrt le (take n (heapsort_matches cmp arr n))"
    "mset (heapsort_matches cmp arr n) = mset arr"
    "\<And>i. n \<le> i \<Longrightarrow> heapsort_matches cmp arr n ! i = arr ! i"
proof -
  have "sorted_wrt le (take n (heapsort_matches cmp arr n)) \<and> mset (heapsort_matches cmp arr n) = mset arr \<and>
    (\<forall>i \<ge> n. heapsort_matches cmp arr n ! i = arr ! i)"
  proof (cases "n < 2")
    case True
    then have "n = 0 \<or> n = 1" by auto
    with assms True show ?thesis by (cases arr) (auto simp: heapsort_matches_def)
  next
    case False
    have leaf: False if "i < n" "0 < i" "n div 2 \<le> parent i" for i
      using that by presburger
    have "heap_from (n div 2) n arr" unfolding heap_from_def using leaf by blast
    note b = build_heap [OF this assms]
    have "split_at (n - 1) n (build_heap cmp n (n div 2) arr)"
      using b(1) False by (auto simp: split_at_def)
    from take_maxima [OF this] b(2-4) assms False show ?thesis
      by (auto simp: heapsort_matches_def split_at_def sorted_wrt_iff_nth_less dest!: mset_eq_length)
  qed
  then show "sorted_wrt le (take n (heapsort_matches cmp arr n))"
    "mset (heapsort_matches cmp arr n) = mset arr"
    "\<And>i. n \<le> i \<Longrightarrow> heapsort_matches cmp arr n ! i = arr ! i" by auto
qed

end

section \<open>The cached results\<close>

lemma compare_matches_flip: "compare_matches idx desc b a = - compare_matches idx desc a b"
  using strcmp_antisym [of "the (a ! idx)" "the (b ! idx)"]
  by (cases "a ! idx"; cases "b ! idx") (simp_all add: compare_matches_def Let_def)

lemma compare_matches_trans:
  assumes "compare_matches idx desc a b \<le> 0" "compare_matches idx desc b c \<le> 0"
  shows "compare_matches idx desc a c \<le> 0"
proof -
  have pos: "0 \<le> strcmp x y \<longleftrightarrow> y \<le> x" for x y
    using strcmp_antisym [of x y] strcmp_le_0_iff [of y x] by simp
  show ?thesis
    using assms
    by (cases "a ! idx"; cases "b ! idx"; cases "c ! idx"; cases desc)
      (auto simp: compare_matches_def strcmp_le_0_iff pos Let_def)
qed

interpretation cm: comparison "compare_matches idx desc" for idx desc
proof
  show "compare_matches idx desc a b \<le> 0 \<longleftrightarrow> compare_matches idx desc b a \<ge> 0" for a b
    using compare_matches_flip [of idx desc b a] by simp
qed (rule compare_matches_trans)

text \<open>
  the heap sort of the cached results returns a permutation of them in which no result is
  greater than a later one, by the value of the chosen variable, in the chosen direction, nulls
  smallest.
\<close>

theorem heapsort_matches_sorts:
  "mset (heapsort_matches (compare_matches idx desc) ms (length ms)) = mset ms
   \<and> sorted_wrt (\<lambda>a b. compare_matches idx desc a b \<le> 0)
       (heapsort_matches (compare_matches idx desc) ms (length ms))"
proof -
  note h = cm.heapsort_sorts [OF order_refl, where arr = ms and idx = idx and desc = desc]
  from h(2) have "length (heapsort_matches (compare_matches idx desc) ms (length ms)) = length ms"
    by (rule mset_eq_length)
  with h show ?thesis by simp
qed

end
