(* ===== verification/Query.thy ===== *)
theory Query
  imports Lifecycle
begin

text \<open>
  The queries of \<^verbatim>\<open>lib/facts.c\<close>: cursors over one trie, the cursors for one pattern of a query,
  the ordering of the patterns, and the backtracking cursor over a whole specification.

  An iterator is the list of the entries of its tree from the current one on. The tree is the
  one at the time of the seek: the code does not change a tree that it iterates over.
\<close>

section \<open>Cursors\<close>

record facts_cursor =
  cu_it :: "(byte list \<times> addr) list"
  cu_end_key :: "byte list"
  cu_started :: nat
  cu_locked :: bool
  cu_index_type :: nat
  cu_var_s :: "slot option"
  cu_var_p :: "slot option"
  cu_var_o :: "slot option"

text \<open>\<^verbatim>\<open>encode_cursor_key\<close>, by the index: 0 is SPO, 1 is POS, anything else OSP.\<close>

definition encode_cursor_key :: "symbol \<times> symbol \<times> symbol \<Rightarrow> nat \<Rightarrow> byte list" where
  "encode_cursor_key f index_type =
     (case f of (s, p, ob) \<Rightarrow>
        if index_type = 0 then
          encode_uint64_be (get_symbol_id s) @ encode_uint64_be (get_symbol_id p) @ encode_uint64_be (get_symbol_id ob)
        else if index_type = 1 then
          encode_uint64_be (get_symbol_id p) @ encode_uint64_be (get_symbol_id ob) @ encode_uint64_be (get_symbol_id s)
        else
          encode_uint64_be (get_symbol_id ob) @ encode_uint64_be (get_symbol_id s) @ encode_uint64_be (get_symbol_id p))"

definition tree_of :: "hexastore \<Rightarrow> nat \<Rightarrow> trie" where
  "tree_of x index_type =
     (if index_type = 0 then trie_spo x else if index_type = 1 then trie_pos x else trie_osp x)"

text \<open>The three distinct trees of a database are named by their index.\<close>

definition facts_cursor_init ::
  "nat \<Rightarrow> (symbol \<times> symbol \<times> symbol) option \<Rightarrow> (symbol \<times> symbol \<times> symbol) option \<Rightarrow> facts \<Rightarrow> facts_cursor \<times> facts" where
  "facts_cursor_init tree start stop st =
     (case transaction_acquire_reader (db_tx st) of (acquired, tx) \<Rightarrow>
        let resolved_start = (case start of Some f \<Rightarrow> f | None \<Rightarrow> (P_FIRST, P_FIRST, P_FIRST));
            resolved_end = (case stop of Some f \<Rightarrow> f | None \<Rightarrow> (P_LAST, P_LAST, P_LAST))
        in (\<lparr>cu_it = raxSeekGe (tree_of (db_hexastore st) tree) (encode_cursor_key resolved_start tree),
             cu_end_key = encode_cursor_key resolved_end tree, cu_started = 0, cu_locked = acquired,
             cu_index_type = tree, cu_var_s = None, cu_var_p = None, cu_var_o = None\<rparr>,
            st\<lparr>db_tx := tx\<rparr>))"

definition facts_cursor_stop :: "facts_cursor \<Rightarrow> facts \<Rightarrow> (facts_cursor \<times> facts) option" where
  "facts_cursor_stop c st =
     (if cu_started c \<noteq> 2 then
        do { tx \<leftarrow> transaction_release_reader (db_tx st) (cu_locked c);
             Some (c\<lparr>cu_it := [], cu_started := 2, cu_locked := False\<rparr>, st\<lparr>db_tx := tx\<rparr>) }
      else Some (c, st))"

definition put_slot :: "slot option \<Rightarrow> cstr option \<Rightarrow> slots \<Rightarrow> slots" where
  "put_slot v x m = (case v of None \<Rightarrow> m | Some i \<Rightarrow> m(i := x))"

definition facts_cursor_next :: "facts_cursor \<Rightarrow> slots \<Rightarrow> facts \<Rightarrow> (addr option \<times> facts_cursor \<times> slots \<times> facts) option" where
  "facts_cursor_next c0 m st =
     (if cu_started c0 = 2 then Some (None, c0, m, st)
      else
        let c = (if cu_started c0 = 0 then c0\<lparr>cu_started := 1\<rparr> else c0\<lparr>cu_it := tl (cu_it c0)\<rparr>);
            current = (case cu_it c of [] \<Rightarrow> None
                       | (k, a) # _ \<Rightarrow> if k \<le> cu_end_key c then Some a else None)
        in (case current of
              Some a \<Rightarrow>
                (let f = db_heap st a in
                 Some (Some a, c,
                   put_slot (cu_var_o c) (symbol_to_str (f_o f))
                     (put_slot (cu_var_p c) (symbol_to_str (f_p f))
                       (put_slot (cu_var_s c) (symbol_to_str (f_s f)) m)), st))
            | None \<Rightarrow> do {
                (c', st') \<leftarrow> facts_cursor_stop c st;
                Some (None, c', put_slot (cu_var_o c) None (put_slot (cu_var_p c) None (put_slot (cu_var_s c) None m)), st')
              }))"

section \<open>The cursor of one pattern\<close>

text \<open>The brackets of \<^verbatim>\<open>facts_with_3\<close> and its siblings are those of \<open>with_reader\<close>.\<close>

definition empty_cursor :: "facts \<Rightarrow> (facts_cursor \<times> facts) option" where
  "empty_cursor st = (case facts_cursor_init 0 None None st of (c, st) \<Rightarrow> facts_cursor_stop c st)"

definition facts_with_3 :: "cstr \<Rightarrow> cstr \<Rightarrow> cstr \<Rightarrow> facts_cursor action" where
  "facts_with_3 s p ob = with_reader (\<lambda>st.
     (let s' = intern_find_symbol_str (db_symbols st) s;
          p' = intern_find_symbol_str (db_symbols st) p;
          o' = intern_find_symbol_str (db_symbols st) ob
      in if some_null (s', p', o') then empty_cursor st
         else Some (facts_cursor_init 0 (Some (s', p', o')) (Some (s', p', o')) st)))"

definition with_vars :: "slot option \<Rightarrow> slot option \<Rightarrow> slot option \<Rightarrow> facts_cursor \<Rightarrow> facts_cursor" where
  "with_vars vs vp vo c = c\<lparr>cu_var_s := vs, cu_var_p := vp, cu_var_o := vo\<rparr>"

definition facts_with_0 :: "slot option \<Rightarrow> slot option \<Rightarrow> slot option \<Rightarrow> facts_cursor action" where
  "facts_with_0 var_s var_p var_o = with_reader (\<lambda>st.
     case facts_cursor_init 0 None None st of (c, st) \<Rightarrow> Some (with_vars var_s var_p var_o c, st))"

definition facts_with_1_2 ::
  "cstr \<Rightarrow> cstr \<Rightarrow> cstr \<Rightarrow> slot option \<Rightarrow> slot option \<Rightarrow> slot option \<Rightarrow> facts_cursor action" where
  "facts_with_1_2 s p ob var_s var_p var_o = with_reader (\<lambda>st.
     (let find = (\<lambda>v x. if v \<noteq> None then P_FIRST else intern_find_symbol_str (db_symbols st) x);
          s' = find var_s s; p' = find var_p p; o' = find var_o ob
      in if (var_s = None \<and> s' = P_FIRST) \<or> (var_p = None \<and> p' = P_FIRST) \<or> (var_o = None \<and> o' = P_FIRST)
         then empty_cursor st
         else
           (let start = (if var_s \<noteq> None then P_FIRST else s', if var_p \<noteq> None then P_FIRST else p',
                         if var_o \<noteq> None then P_FIRST else o');
                stop = (if var_s \<noteq> None then P_LAST else s', if var_p \<noteq> None then P_LAST else p',
                        if var_o \<noteq> None then P_LAST else o');
                tree = (if var_s = None \<and> var_o \<noteq> None then 0 else if var_p = None then 1 else 2)
            in case facts_cursor_init tree (Some start) (Some stop) st of
                 (c, st) \<Rightarrow> Some (with_vars var_s var_p var_o c, st))))"

definition var_slot :: "binding list \<Rightarrow> cstr \<Rightarrow> slot option" where
  "var_slot bs x = (if is_var x then bindings_get bs x else None)"

definition facts_with_spo :: "binding list \<Rightarrow> cstr \<Rightarrow> cstr \<Rightarrow> cstr \<Rightarrow> facts_cursor action" where
  "facts_with_spo bs s p ob =
     (let var_s = var_slot bs s; var_p = var_slot bs p; var_o = var_slot bs ob
      in if var_s \<noteq> None \<and> var_p \<noteq> None \<and> var_o \<noteq> None then facts_with_0 var_s var_p var_o
         else if var_s = None \<and> var_p = None \<and> var_o = None then facts_with_3 s p ob
         else facts_with_1_2 s p ob var_s var_p var_o)"

end
