(* ===== verification/Query_With.thy ===== *)
theory Query_With
  imports Query Heapsort
begin

text \<open>
  \<^verbatim>\<open>facts_spec_sort\<close> and the backtracking cursor \<^verbatim>\<open>facts_with\<close> of \<^verbatim>\<open>lib/facts.c\<close>, with the sorted
  results and the operations built on it.
\<close>

section \<open>The order of the patterns\<close>

text \<open>
  The costs are doubles; their arithmetic is a parameter, with the literals of the code.
\<close>

record 'd double_ops =
  d_lit :: "nat \<Rightarrow> 'd"
  d_tenth :: 'd
  d_minus_one :: 'd
  d_of_u64 :: "u64 \<Rightarrow> 'd"
  d_times :: "'d \<Rightarrow> 'd \<Rightarrow> 'd"
  d_less :: "'d \<Rightarrow> 'd \<Rightarrow> bool"

definition is_bound :: "cstr list \<Rightarrow> cstr \<Rightarrow> bool" where
  "is_bound bound_vars x = (\<exists>v \<in> set bound_vars. strcmp v x = 0)"

definition term_cost :: "'d double_ops \<Rightarrow> intern_table \<Rightarrow> cstr list \<Rightarrow> cstr \<Rightarrow> 'd" where
  "term_cost D t bound_vars x =
     (if is_var x then if is_bound bound_vars x then d_lit D 1 else d_lit D 100000
      else case intern_find_symbol t x of
             Some it \<Rightarrow> d_of_u64 D (it_usage it) | None \<Rightarrow> d_tenth D)"

definition is_not :: "cstr option \<Rightarrow> bool" where
  "is_not n = (case n of None \<Rightarrow> False | Some x \<Rightarrow> strcmp x '':not'' = 0)"

definition fact_cost :: "'d double_ops \<Rightarrow> intern_table \<Rightarrow> cstr list \<Rightarrow> spec_fact \<Rightarrow> 'd option" where
  "fact_cost D t bound_vars f =
     do { s \<leftarrow> sf_s f; p \<leftarrow> sf_p f; ob \<leftarrow> sf_o f;
          let unbound = (\<lambda>x. is_var x \<and> \<not> is_bound bound_vars x);
          Some (if is_not (sf_negated f) then
                  if unbound s \<or> unbound p \<or> unbound ob then d_lit D 1000000000000000 else d_lit D 1
                else d_times D (d_times D (d_times D (d_lit D 1) (term_cost D t bound_vars s))
                       (term_cost D t bound_vars p)) (term_cost D t bound_vars ob)) }"

text \<open>The loop over \<open>j\<close>: the cheapest fact so far.\<close>

fun cheapest ::
  "'d double_ops \<Rightarrow> intern_table \<Rightarrow> cstr list \<Rightarrow> spec \<Rightarrow> nat list \<Rightarrow> nat \<times> 'd \<Rightarrow> (nat \<times> 'd) option" where
  "cheapest D t bv spec [] best = Some best"
| "cheapest D t bv spec (j # js) (best_idx, best_cost) =
     do { f \<leftarrow> get4 spec j;
          cost \<leftarrow> fact_cost D t bv f;
          cheapest D t bv spec js
            (if d_less D best_cost (d_lit D 0) \<or> d_less D cost best_cost then (j, cost) else (best_idx, best_cost)) }"

definition bind_var :: "cstr option \<Rightarrow> cstr list \<Rightarrow> cstr list" where
  "bind_var x bv =
     (case x of None \<Rightarrow> bv
      | Some v \<Rightarrow> if is_var v \<and> length bv < 128 \<and> \<not> is_bound bv v then bv @ [v] else bv)"

definition select_step ::
  "'d double_ops \<Rightarrow> intern_table \<Rightarrow> nat \<Rightarrow> nat \<Rightarrow> spec \<times> cstr list \<Rightarrow> (spec \<times> cstr list) option" where
  "select_step D t n i acc =
     (case acc of (spec, bv) \<Rightarrow>
        do { (best_idx, _) \<leftarrow> cheapest D t bv spec [i..<n] (i, d_minus_one D);
             a \<leftarrow> get4 spec i;
             b \<leftarrow> get4 spec best_idx;
             let spec' = (if best_idx \<noteq> i then put4 (put4 spec i b) best_idx a else spec);
             chosen \<leftarrow> get4 spec' i;
             Some (spec', if is_not (sf_negated chosen) then bv
                          else bind_var (sf_o chosen) (bind_var (sf_p chosen) (bind_var (sf_s chosen) bv))) })"

definition facts_spec_sort :: "'d double_ops \<Rightarrow> intern_table \<Rightarrow> spec \<Rightarrow> nat \<Rightarrow> spec option" where
  "facts_spec_sort D t spec n =
     (if n \<le> 1 then Some spec
      else map_option fst (fold_opt (select_step D t n) [0..<n] (spec, [])))"

section \<open>The state of a query\<close>

record with_level =
  lv_c :: facts_cursor
  lv_fact :: "addr option"
  lv_spec :: spec
  lv_init :: bool

text \<open>
  \<open>wc_sorted\<close> is the array of cached results (\<open>None\<close>: a null pointer); a cached result whose
  values are a null pointer, which it is when there are no bindings, is the empty list.
\<close>

record with_cursor =
  wc_bindings :: "binding list"
  wc_count :: nat
  wc_l :: "with_level list"
  wc_level :: nat
  wc_spec :: spec
  wc_locked :: bool
  wc_limit :: int
  wc_offset :: int
  wc_result_count :: int
  wc_is_sorted :: bool
  wc_sort_var :: "cstr option"
  wc_sort_desc :: bool
  wc_sorted :: "cached_match list option"
  wc_sorted_pos :: nat
  wc_error :: int

text \<open>A query runs on its cursor, the slots of its variables and the database.\<close>

record query =
  q_c :: with_cursor
  q_m :: slots
  q_db :: facts

definition stopped_cursor :: facts_cursor where
  "stopped_cursor =
     \<lparr>cu_it = [], cu_end_key = [], cu_started = 0, cu_locked = False, cu_index_type = 0,
      cu_var_s = None, cu_var_p = None, cu_var_o = None\<rparr>"

definition zero_level :: "nat \<Rightarrow> with_level" where
  "zero_level cells = \<lparr>lv_c = stopped_cursor, lv_fact = None, lv_spec = replicate cells None, lv_init = False\<rparr>"

definition with_cursor0 :: "binding list \<Rightarrow> nat \<Rightarrow> bool \<Rightarrow> with_cursor" where
  "with_cursor0 bs n locked =
     \<lparr>wc_bindings = bs, wc_count = n, wc_l = [], wc_level = 0, wc_spec = [], wc_locked = locked,
      wc_limit = - 1, wc_offset = 0, wc_result_count = 0, wc_is_sorted = False, wc_sort_var = None,
      wc_sort_desc = False, wc_sorted = None, wc_sorted_pos = 0, wc_error = 0\<rparr>"

text \<open>
  The sizes: \<^verbatim>\<open>sizeof(s_facts_with_cursor_level)\<close> is a multiple of 8 given as \<open>lsz\<close> (it contains
  the iterator of the radix tree). The result says whether the block is too large.
\<close>

definition total_ptrs :: "nat \<Rightarrow> nat" where
  "total_ptrs n = sum_list (map (\<lambda>i. (n - i) * 4 + 2) [0..<n])"

definition with_too_large :: "nat \<Rightarrow> nat \<Rightarrow> bool" where
  "with_too_large lsz n \<longleftrightarrow>
     n > SIZE_MAX div lsz \<or> n > (SIZE_MAX - 2) div 4 \<or> total_ptrs n > SIZE_MAX \<or>
     total_ptrs n > SIZE_MAX div 8 \<or> n * lsz > SIZE_MAX - total_ptrs n * 8"

definition with_failed :: "with_cursor \<Rightarrow> facts \<Rightarrow> ((int \<times> with_cursor) \<times> facts) option" where
  "with_failed c st =
     do { tx \<leftarrow> transaction_release_reader (db_tx st) (wc_locked c);
          Some ((- 1, c\<lparr>wc_count := 0, wc_error := - 1, wc_locked := False\<rparr>), st\<lparr>db_tx := tx\<rparr>) }"

definition facts_with_checked ::
  "'d double_ops \<Rightarrow> nat \<Rightarrow> binding list \<Rightarrow> spec \<Rightarrow> slots \<Rightarrow> facts \<Rightarrow> (int \<times> query) option" where
  "facts_with_checked D lsz bs spec m st0 =
     (case transaction_acquire_reader (db_tx st0) of (acquired, tx) \<Rightarrow>
        do { n \<leftarrow> spec_count_facts spec;
             let st = st0\<lparr>db_tx := tx\<rparr>;
             let c = with_cursor0 bs n acquired;
             let m = bindings_nullify bs m;
             let failed = (\<lambda>st. do { ((r, c'), st') \<leftarrow> with_failed c st; Some (r, \<lparr>q_c = c', q_m = m, q_db = st'\<rparr>) });
             if n = 0 then Some (0, \<lparr>q_c = c, q_m = m, q_db = st\<rparr>)
             else if with_too_large lsz n then failed st
             else (case malloc (db_mem st) of
               (False, h) \<Rightarrow> failed (st\<lparr>db_mem := h\<rparr>)
             | (True, h) \<Rightarrow> do {
                 (sp, h) \<leftarrow> spec_expand spec h;
                 case sp of
                   None \<Rightarrow> failed (st\<lparr>db_mem := h\<rparr>)
                 | Some spec' \<Rightarrow> do {
                     sorted \<leftarrow> facts_spec_sort D (db_symbols st) spec' n;
                     Some (0, \<lparr>q_c = c\<lparr>wc_l := map (\<lambda>i. zero_level ((n - i) * 4 + 2)) [0..<n], wc_spec := sorted\<rparr>,
                               q_m = m, q_db = st\<lparr>db_mem := h\<rparr>\<rparr>)
                   } }) })"

definition facts_with_cursor_error :: "with_cursor \<Rightarrow> int" where
  "facts_with_cursor_error c = wc_error c"

fun stop_levels :: "with_level list \<Rightarrow> facts \<Rightarrow> facts option" where
  "stop_levels [] st = Some st"
| "stop_levels (l # ls) st =
     (if lv_init l then do { (_, st) \<leftarrow> facts_cursor_stop (lv_c l) st; stop_levels ls st }
      else stop_levels ls st)"

text \<open>The levels are visited up to the current \<^verbatim>\<open>facts_count\<close>.\<close>

definition facts_with_cursor_destroy :: "with_cursor \<Rightarrow> facts \<Rightarrow> (with_cursor \<times> facts) option" where
  "facts_with_cursor_destroy c st =
     do { st \<leftarrow> stop_levels (take (wc_count c) (wc_l c)) st;
          tx \<leftarrow> transaction_release_reader (db_tx st) (wc_locked c);
          Some (c\<lparr>wc_bindings := [], wc_count := 0, wc_l := [], wc_level := 0, wc_spec := [], wc_locked := False\<rparr>,
                st\<lparr>db_tx := tx\<rparr>) }"

section \<open>Substitution\<close>

text \<open>
  The scan of \<^verbatim>\<open>spec_subst\<close>: a variable without a binding is a null pointer dereferenced
  (\<open>None\<close>), and so is a scan past the end of the array.
\<close>

fun subst_scan :: "binding list \<Rightarrow> slots \<Rightarrow> spec \<Rightarrow> spec option" where
  "subst_scan bs m [] = None"
| "subst_scan bs m [None] = None"
| "subst_scan bs m (None # None # r) = Some (None # None # r)"
| "subst_scan bs m (None # Some y # r) = map_option (Cons None) (subst_scan bs m (Some y # r))"
| "subst_scan bs m (Some x # r) =
     (if is_var x then
        (case bindings_get bs x of
           None \<Rightarrow> None
         | Some v \<Rightarrow> map_option (Cons (case m v of None \<Rightarrow> Some x | Some y \<Rightarrow> Some y)) (subst_scan bs m r))
      else map_option (Cons (Some x)) (subst_scan bs m r))"

definition spec_subst :: "binding list \<Rightarrow> slots \<Rightarrow> spec \<Rightarrow> spec option" where
  "spec_subst bs m spec =
     (case spec of [] \<Rightarrow> None | None # _ \<Rightarrow> Some spec | Some _ # _ \<Rightarrow> subst_scan bs m spec)"

section \<open>Backtracking\<close>

datatype 'a turn = Again 'a | Done bool 'a

definition level_of :: "query \<Rightarrow> nat \<Rightarrow> with_level option" where
  "level_of q i = (if i < length (wc_l (q_c q)) then Some (wc_l (q_c q) ! i) else None)"

definition set_level :: "nat \<Rightarrow> with_level \<Rightarrow> query \<Rightarrow> query" where
  "set_level i l q = q\<lparr>q_c := (q_c q)\<lparr>wc_l := (wc_l (q_c q))[i := l]\<rparr>\<rparr>"

definition at_level :: "nat \<Rightarrow> query \<Rightarrow> query" where
  "at_level i q = q\<lparr>q_c := (q_c q)\<lparr>wc_level := i\<rparr>\<rparr>"

definition no_more :: "query \<Rightarrow> query" where
  "no_more q = q\<lparr>q_c := (q_c q)\<lparr>wc_count := 0\<rparr>\<rparr>"

definition negated_level :: "with_level \<Rightarrow> bool option" where
  "negated_level l = map_option is_not (rd (lv_spec l) 3)"

text \<open>\<^verbatim>\<open>facts_cursor_stop(&l->c); l->spec_init = 0;\<close>\<close>

definition stop_level :: "nat \<Rightarrow> query \<Rightarrow> query option" where
  "stop_level i q =
     do { l \<leftarrow> level_of q i;
          (c', st) \<leftarrow> facts_cursor_stop (lv_c l) (q_db q);
          Some (set_level i (l\<lparr>lv_c := c', lv_init := False\<rparr>) (q\<lparr>q_db := st\<rparr>)) }"

text \<open>\<^verbatim>\<open>l->fact = facts_cursor_next(&l->c)\<close>\<close>

definition next_of :: "nat \<Rightarrow> query \<Rightarrow> (addr option \<times> query) option" where
  "next_of i q =
     do { l \<leftarrow> level_of q i;
          (f, c', m, st) \<leftarrow> facts_cursor_next (lv_c l) (q_m q) (q_db q);
          Some (f, set_level i (l\<lparr>lv_c := c'\<rparr>) (q\<lparr>q_m := m, q_db := st\<rparr>)) }"

definition store_fact :: "nat \<Rightarrow> addr option \<Rightarrow> query \<Rightarrow> query option" where
  "store_fact i f q = do { l \<leftarrow> level_of q i; Some (set_level i (l\<lparr>lv_fact := f\<rparr>) q) }"

text \<open>The initialisation of a level from the specification of its parent.\<close>

definition init_level :: "query \<Rightarrow> query option" where
  "init_level q =
     (let c = q_c q; k = wc_level c in
      do { l \<leftarrow> level_of q k;
           if lv_init l then Some q
           else do {
             parent_spec \<leftarrow> (if k > 0 then map_option (\<lambda>p. drop 4 (lv_spec p)) (level_of q (k - 1)) else Some (wc_spec c));
             let cells = (wc_count c - k) * 4 + 1;
             if length parent_spec < cells \<or> length (lv_spec l) \<noteq> cells + 1 then None
             else do {
               spec \<leftarrow> spec_subst (wc_bindings c) (q_m q) (take cells parent_spec @ [None]);
               s \<leftarrow> spec ! 0; p \<leftarrow> spec ! 1; ob \<leftarrow> spec ! 2;
               (cu, st) \<leftarrow> facts_with_spo (wc_bindings c) s p ob (q_db q);
               Some (set_level k (l\<lparr>lv_spec := spec, lv_c := cu, lv_init := True\<rparr>) (q\<lparr>q_db := st\<rparr>))
             } } })"

definition save_slots :: "binding list \<Rightarrow> slots \<Rightarrow> cstr option list" where
  "save_slots bs m = map (\<lambda>b. m (snd b)) bs"

fun restore_slots :: "binding list \<Rightarrow> cstr option list \<Rightarrow> slots \<Rightarrow> slots" where
  "restore_slots ((n, v) # bs) (x # xs) m = restore_slots bs xs (m(v := x))"
| "restore_slots bs xs m = m"

text \<open>No match: stop the level and go back to the one before, or give up.\<close>

definition backtrack :: "query \<Rightarrow> query turn option" where
  "backtrack q =
     (let k = wc_level (q_c q) in
      do { q \<leftarrow> stop_level k q;
           Some (if k > 0 then Again (at_level (k - 1) q) else Done False (no_more q)) })"

text \<open>One round of the loop \<^verbatim>\<open>while (c->level < c->facts_count)\<close>.\<close>

definition with_turn :: "query \<Rightarrow> query turn option" where
  "with_turn q =
     do { q \<leftarrow> init_level q;
          let c = q_c q;
          let k = wc_level c;
          l \<leftarrow> level_of q k;
          neg \<leftarrow> negated_level l;
          if neg then
            (case (if wc_bindings c \<noteq> [] then malloc (db_mem (q_db q)) else (True, db_mem (q_db q))) of
               (False, h) \<Rightarrow> do { q \<leftarrow> stop_level k (q\<lparr>q_db := (q_db q)\<lparr>db_mem := h\<rparr>\<rparr>); Some (Done False (no_more q)) }
             | (True, h) \<Rightarrow> do {
                 let q = q\<lparr>q_db := (q_db q)\<lparr>db_mem := h\<rparr>\<rparr>;
                 let saved = save_slots (wc_bindings c) (q_m q);
                 (found, q) \<leftarrow> next_of k q;
                 let q = q\<lparr>q_m := restore_slots (wc_bindings c) saved (q_m q)\<rparr>;
                 if found \<noteq> None then backtrack q else Some (Again (at_level (k + 1) q)) })
          else do {
            (found, q) \<leftarrow> next_of k q;
            q \<leftarrow> store_fact k found q;
            if found \<noteq> None then Some (Again (at_level (k + 1) q)) else backtrack q } }"

definition with_body :: "query \<Rightarrow> (query + bool \<times> query) option" where
  "with_body q =
     (if wc_level (q_c q) < wc_count (q_c q) then
        (case with_turn q of
           None \<Rightarrow> None
         | Some (Done r q') \<Rightarrow> Some (Inr (r, q'))
         | Some (Again q') \<Rightarrow> Some (Inl q'))
      else Some (Inr (True, q)))"

definition with_loop :: "query \<Rightarrow> (bool \<times> query) option" where
  "with_loop = run_loop with_body"

text \<open>
  Going on after a result: the last level is tried again if it is not negated; otherwise, and
  when it has no more facts, the search goes back to the level before.
\<close>

definition resume :: "query \<Rightarrow> query turn option" where
  "resume q =
     (let n = wc_count (q_c q);
          back = (\<lambda>q. do { q \<leftarrow> stop_level (n - 1) q;
                           Some (if n - 1 = 0 then Done False (no_more (at_level 0 q))
                                 else Again (at_level (n - 2) q)) })
      in do { l \<leftarrow> level_of q (n - 1);
              neg \<leftarrow> negated_level l;
              if neg then back q
              else do { (found, q) \<leftarrow> next_of (n - 1) q;
                        q \<leftarrow> store_fact (n - 1) found q;
                        if found \<noteq> None then Some (Done True q) else back q } })"

definition facts_with_cursor_next_inner :: "query \<Rightarrow> (bool \<times> query) option" where
  "facts_with_cursor_next_inner q =
     (if wc_count (q_c q) = 0 then Some (False, q)
      else if wc_level (q_c q) = wc_count (q_c q) then
        (case resume q of
           None \<Rightarrow> None
         | Some (Done r q') \<Rightarrow> Some (r, q')
         | Some (Again q') \<Rightarrow> with_loop q')
      else with_loop q)"

end
