(* ===== verification/Query_Ops.thy ===== *)
theory Query_Ops
  imports Query_With Stratify
begin

text \<open>
  The results of a query with offset, limit and order, and the operations of \<^verbatim>\<open>lib/facts.c\<close>
  that run queries: removal by pattern, properties, the removal of all derived support, and the
  attachment of a program (whose evaluation is a parameter here).
\<close>

section \<open>The next result\<close>

definition upd_c :: "(with_cursor \<Rightarrow> with_cursor) \<Rightarrow> query \<Rightarrow> query" where
  "upd_c u q = q\<lparr>q_c := u (q_c q)\<rparr>"

text \<open>The results in front of the offset; the result says whether all were there.\<close>

fun skip_results :: "nat \<Rightarrow> query \<Rightarrow> (bool \<times> query) option" where
  "skip_results 0 q = Some (True, q)"
| "skip_results (Suc n) q =
     do { (ok, q) \<leftarrow> facts_with_cursor_next_inner (upd_c (\<lambda>c. c\<lparr>wc_offset := wc_offset c - 1\<rparr>) q);
          if ok then skip_results n q else Some (False, q) }"

definition next_unsorted :: "query \<Rightarrow> (bool \<times> query) option" where
  "next_unsorted q =
     (if wc_limit (q_c q) \<ge> 0 \<and> wc_result_count (q_c q) \<ge> wc_limit (q_c q) then Some (False, q)
      else do {
        (go, q) \<leftarrow> skip_results (nat (wc_offset (q_c q))) q;
        if \<not> go then Some (False, q)
        else do {
          (ok, q) \<leftarrow> facts_with_cursor_next_inner q;
          Some (ok, if ok then upd_c (\<lambda>c. c\<lparr>wc_result_count := wc_result_count c + 1\<rparr>) q else q)
        } })"

definition set_error :: "query \<Rightarrow> query" where
  "set_error = upd_c (\<lambda>c. c\<lparr>wc_error := - 1\<rparr>)"

definition use_mem :: "mem \<Rightarrow> query \<Rightarrow> query" where
  "use_mem h q = q\<lparr>q_db := (q_db q)\<lparr>db_mem := h\<rparr>\<rparr>"

text \<open>
  The loop that collects the results; \<open>None\<close> also when the results never end. The sizes are
  those of an array of pointers.
\<close>

definition collect_body ::
  "nat \<times> cached_match list \<times> query \<Rightarrow> ((nat \<times> cached_match list \<times> query) + (cached_match list \<times> query)) option" where
  "collect_body x =
     (case x of (capacity, ms, q) \<Rightarrow>
        do { (ok, q) \<leftarrow> next_unsorted q;
             let full = (length ms \<ge> capacity);
             let grown = (if full then capacity * 2 else capacity);
             if \<not> ok then Some (Inr (ms, q))
             else if full \<and> (capacity > SIZE_MAX div 2 \<or> grown > SIZE_MAX div 8) then Some (Inr (ms, set_error q))
             else (case (if full then malloc (db_mem (q_db q)) else (True, db_mem (q_db q))) of
               (False, h) \<Rightarrow> Some (Inr (ms, set_error (use_mem h q)))
             | (True, h) \<Rightarrow>
                (case (if wc_bindings (q_c q) \<noteq> [] then malloc h else (True, h)) of
                   (False, h) \<Rightarrow> Some (Inr (ms, set_error (use_mem h q)))
                 | (True, h) \<Rightarrow>
                     Some (Inl (grown, ms @ [save_slots (wc_bindings (q_c q)) (q_m q)], use_mem h q)))) })"

definition collect_matches :: "nat \<Rightarrow> cached_match list \<Rightarrow> query \<Rightarrow> (cached_match list \<times> query) option" where
  "collect_matches capacity ms q = run_loop collect_body (capacity, ms, q)"

definition find_sort_idx :: "binding list \<Rightarrow> cstr option \<Rightarrow> nat option" where
  "find_sort_idx bs sort_var =
     (case sort_var of None \<Rightarrow> None
      | Some v \<Rightarrow> List.find (\<lambda>i. strcmp (fst (bs ! i)) v = 0) [0..<length bs])"

text \<open>The first call on a sorted cursor caches and sorts all results; \<open>False\<close> on an error.\<close>

definition cache_matches :: "query \<Rightarrow> (bool \<times> query) option" where
  "cache_matches q =
     (if wc_sorted (q_c q) \<noteq> None \<or> wc_sorted_pos (q_c q) \<noteq> 0 then Some (True, q)
      else (case malloc (db_mem (q_db q)) of
        (False, h) \<Rightarrow> Some (False, set_error (use_mem h q))
      | (True, h) \<Rightarrow>
         (let orig = q_c q in do {
            (ms, q) \<leftarrow> collect_matches 16 [] (upd_c (\<lambda>c. c\<lparr>wc_limit := - 1, wc_offset := 0, wc_is_sorted := False\<rparr>) (use_mem h q));
            let q = upd_c (\<lambda>c. c\<lparr>wc_sorted := Some ms, wc_is_sorted := True, wc_limit := wc_limit orig,
                                 wc_offset := wc_offset orig, wc_result_count := 0\<rparr>) q;
            if wc_error (q_c q) \<noteq> 0 then Some (False, q)
            else
              let c = q_c q;
                  ms' = (case find_sort_idx (wc_bindings c) (wc_sort_var c) of
                           None \<Rightarrow> ms
                         | Some idx \<Rightarrow> if length ms > 1
                                       then heapsort_matches (compare_matches idx (wc_sort_desc c)) ms (length ms) else ms)
              in Some (True, upd_c (\<lambda>c. c\<lparr>wc_sorted := Some ms', wc_sorted_pos := 0\<rparr>) q) })))"

fun skip_sorted :: "nat \<Rightarrow> nat \<Rightarrow> with_cursor \<Rightarrow> bool \<times> with_cursor" where
  "skip_sorted 0 len c = (True, c)"
| "skip_sorted (Suc n) len c =
     (let c = c\<lparr>wc_offset := wc_offset c - 1\<rparr> in
      if wc_sorted_pos c < len then skip_sorted n len (c\<lparr>wc_sorted_pos := wc_sorted_pos c + 1\<rparr>)
      else (False, c))"

definition next_sorted :: "query \<Rightarrow> (bool \<times> query) option" where
  "next_sorted q =
     do { (ok, q) \<leftarrow> cache_matches q;
          if \<not> ok then Some (False, q)
          else
            let ms = (case wc_sorted (q_c q) of None \<Rightarrow> [] | Some ms \<Rightarrow> ms);
                (go, c) = skip_sorted (nat (wc_offset (q_c q))) (length ms) (q_c q);
                q = q\<lparr>q_c := c\<rparr>
            in if \<not> go \<or> (wc_limit c \<ge> 0 \<and> wc_result_count c \<ge> wc_limit c) \<or> wc_sorted_pos c \<ge> length ms
               then Some (False, q)
               else Some (True, q\<lparr>q_m := restore_slots (wc_bindings c) (ms ! wc_sorted_pos c) (q_m q),
                                 q_c := c\<lparr>wc_sorted_pos := wc_sorted_pos c + 1, wc_result_count := wc_result_count c + 1\<rparr>\<rparr>) }"

definition facts_with_cursor_next :: "query \<Rightarrow> (bool \<times> query) option" where
  "facts_with_cursor_next q = (if wc_is_sorted (q_c q) then next_sorted q else next_unsorted q)"

section \<open>Removing by pattern\<close>

text \<open>
  The stored facts a result stands for, for all patterns that are not negated, are collected in
  a list without repetition; the first component says whether an allocation failed. A null
  field makes \<^verbatim>\<open>facts_get_spo\<close> return null.
\<close>

definition get_spo_fields :: "cstr option \<Rightarrow> cstr option \<Rightarrow> cstr option \<Rightarrow> addr option action" where
  "get_spo_fields s p ob st =
     (case (s, p, ob) of
        (Some s', Some p', Some o') \<Rightarrow> facts_get_spo s' p' o' st
      | _ \<Rightarrow> Some (None, st))"

fun collect_result :: "binding list \<Rightarrow> slots \<Rightarrow> spec_fact list \<Rightarrow> fact_list \<Rightarrow> (bool \<times> fact_list) action" where
  "collect_result bs m [] fl st = Some ((False, fl), st)"
| "collect_result bs m (f # fs) fl st =
     (if sf_negated f \<noteq> None then collect_result bs m fs fl st
      else let f' = snd (spec_fact_bindings_resolve f bs m) in
        do { (dbf, st) \<leftarrow> get_spo_fields (sf_s f') (sf_p f') (sf_o f') st;
             case dbf of
               None \<Rightarrow> collect_result bs m fs fl st
             | Some a \<Rightarrow>
                 if fact_list_find fl a \<noteq> [] then collect_result bs m fs fl st
                 else (case new_fact_list a fl (db_mem st) of
                         (None, h) \<Rightarrow> Some ((True, fl), st\<lparr>db_mem := h\<rparr>)
                       | (Some fl', h) \<Rightarrow> collect_result bs m fs fl' (st\<lparr>db_mem := h\<rparr>)) })"

definition results_body ::
  "spec_fact list \<Rightarrow> fact_list \<times> query \<Rightarrow> ((fact_list \<times> query) + ((bool \<times> fact_list) \<times> query)) option" where
  "results_body fs x =
     (case x of (fl, q) \<Rightarrow>
        do { (ok, q) \<leftarrow> facts_with_cursor_next q;
             if \<not> ok then Some (Inr ((False, fl), q))
             else do {
               ((err, fl'), st) \<leftarrow> collect_result (wc_bindings (q_c q)) (q_m q) fs fl (q_db q);
               if err then Some (Inr ((True, fl'), q\<lparr>q_db := st\<rparr>)) else Some (Inl (fl', q\<lparr>q_db := st\<rparr>)) } })"

definition collect_results ::
  "spec_fact list \<Rightarrow> fact_list \<Rightarrow> query \<Rightarrow> ((bool \<times> fact_list) \<times> query) option" where
  "collect_results fs fl q = run_loop (results_body fs) (fl, q)"

text \<open>The fact is read from memory when its turn comes; any result but 0 counts as found.\<close>

fun remove_listed :: "fact_list \<Rightarrow> bool \<Rightarrow> bool action" where
  "remove_listed [] found st = Some (found, st)"
| "remove_listed (a # fl) found st =
     do { (r, st) \<leftarrow> facts_remove_fact (db_heap st a) st; remove_listed fl (found \<or> r \<noteq> 0) st }"

definition facts_remove :: "'d double_ops \<Rightarrow> nat \<Rightarrow> spec \<Rightarrow> int action" where
  "facts_remove D lsz spec = with_writer (\<lambda>st.
     do { (bs, h) \<leftarrow> spec_bindings spec (db_mem st);
          case bs of
            None \<Rightarrow> Some (- 1, st\<lparr>db_mem := h\<rparr>)
          | Some bs \<Rightarrow> do {
              (r, q) \<leftarrow> facts_with_checked D lsz bs spec (\<lambda>_. None) (st\<lparr>db_mem := h\<rparr>);
              if r \<noteq> 0 then Some (- 1, q_db q)
              else do {
                fs \<leftarrow> spec_facts spec;
                ((err, fl), q) \<leftarrow> collect_results fs [] q;
                let err = (err \<or> facts_with_cursor_error (q_c q) \<noteq> 0);
                (_, st) \<leftarrow> facts_with_cursor_destroy (q_c q) (q_db q);
                (found, st) \<leftarrow> remove_listed (if err then [] else fl) False st;
                Some (if err then - 1 else if found then 1 else 0, st)
              } } })"

section \<open>Properties\<close>

text \<open>The first value of a property: the query \<^verbatim>\<open>s p ?o\<close> with one variable, in slot 0.\<close>

definition first_value :: "cstr \<Rightarrow> cstr \<Rightarrow> (bool \<times> cstr option) action" where
  "first_value s p st =
     do { (c, st) \<leftarrow> facts_with_spo [(''?o'', 0)] s p ''?o'' st;
          (found, c, m, st) \<leftarrow> facts_cursor_next c (\<lambda>_. None) st;
          (_, st) \<leftarrow> facts_cursor_stop c st;
          Some ((found \<noteq> None, m 0), st) }"

definition facts_get_prop :: "cstr \<Rightarrow> cstr \<Rightarrow> cstr option action" where
  "facts_get_prop s p st =
     do { ((found, ob), st) \<leftarrow> first_value s p st; Some (if found then ob else None, st) }"

text \<open>The result, and the copy in \<^verbatim>\<open>*value\<close>.\<close>

definition facts_get_prop_copy :: "cstr \<Rightarrow> cstr \<Rightarrow> (int \<times> cstr option) action" where
  "facts_get_prop_copy s p st =
     do { ((found, ob), st) \<leftarrow> first_value s p st;
          if found then do {
            value \<leftarrow> ob;
            case malloc (db_mem st) of
              (True, h) \<Rightarrow> Some ((1, Some value), st\<lparr>db_mem := h\<rparr>)
            | (False, h) \<Rightarrow> Some ((- 1, None), st\<lparr>db_mem := h\<rparr>) }
          else Some ((0, None), st) }"

definition facts_get_prop_number :: "(cstr \<Rightarrow> 'n) \<Rightarrow> 'n \<Rightarrow> cstr \<Rightarrow> cstr \<Rightarrow> 'n action" where
  "facts_get_prop_number parse zero s p st =
     do { ((found, ob), st) \<leftarrow> first_value s p st;
          if found then do { value \<leftarrow> ob; Some (parse value, st) } else Some (zero, st) }"

definition facts_set_prop :: "'d double_ops \<Rightarrow> nat \<Rightarrow> cstr \<Rightarrow> cstr \<Rightarrow> cstr \<Rightarrow> addr option action" where
  "facts_set_prop D lsz s p ob = with_writer (\<lambda>st.
     do { (_, st) \<leftarrow> facts_remove D lsz [Some s, Some p, Some ''?o'', None, None] st;
          facts_add_spo s p ob st })"

section \<open>Derived support\<close>

text \<open>
  The facts with derived support are copied before anything is removed.
\<close>

definition derived_body ::
  "nat \<Rightarrow> fact list \<times> facts_cursor \<times> facts \<Rightarrow> ((fact list \<times> facts_cursor \<times> facts) + ((bool \<times> fact list) \<times> facts)) option" where
  "derived_body capacity x =
     (case x of (fs, c, st) \<Rightarrow>
        do { (found, c, _, st) \<leftarrow> facts_cursor_next c (\<lambda>_. None) st;
             case found of
               None \<Rightarrow> do { (_, st) \<leftarrow> facts_cursor_stop c st; Some (Inr ((True, fs), st)) }
             | Some a \<Rightarrow>
                 if derived_count (db_heap st a) = 0 then Some (Inl (fs, c, st))
                 else if length fs \<ge> capacity then do { (_, st) \<leftarrow> facts_cursor_stop c st; Some (Inr ((False, fs), st)) }
                 else Some (Inl (fs @ [db_heap st a], c, st)) })"

definition derived_copies :: "nat \<Rightarrow> facts_cursor \<Rightarrow> facts \<Rightarrow> ((bool \<times> fact list) \<times> facts) option" where
  "derived_copies capacity c st = run_loop (derived_body capacity) ([], c, st)"

fun remove_derived :: "fact list \<Rightarrow> int action" where
  "remove_derived [] st = Some (0, st)"
| "remove_derived (f # fs) st =
     do { (r, st) \<leftarrow> facts_remove_fact_origin f FACT_ORIGIN_DERIVED st;
          if r < 0 then Some (- 1, st) else remove_derived fs st }"

definition facts_remove_all_derived :: "int action" where
  "facts_remove_all_derived st =
     do { (capacity, st) \<leftarrow> facts_count st;
          case (if capacity \<noteq> 0 then malloc (db_mem st) else (True, db_mem st)) of
            (False, h) \<Rightarrow> Some (- 1, st\<lparr>db_mem := h\<rparr>)
          | (True, h) \<Rightarrow> do {
              (c, st) \<leftarrow> facts_with_0 None None None (st\<lparr>db_mem := h\<rparr>);
              ((ok, fs), st) \<leftarrow> derived_copies capacity c st;
              if \<not> ok then Some (- 1, st) else remove_derived fs st } }"

section \<open>Attaching a program\<close>

text \<open>
  \<open>eval\<close> is \<^verbatim>\<open>facts_datalog_eval\<close> and \<open>reactive\<close> the identification of the listener
  \<^verbatim>\<open>reactive_tx_listener\<close>. A program that cannot be stratified is refused.
\<close>

definition prepare_program :: "datalog_program option \<Rightarrow> mem \<Rightarrow> (datalog_program option option \<times> mem) option" where
  "prepare_program prog h =
     (case prog of
        None \<Rightarrow> Some (Some None, h)
      | Some p \<Rightarrow>
          (case datalog_program_clone (Some p) h of
             (None, h) \<Rightarrow> Some (None, h)
           | (Some copy, h) \<Rightarrow>
               if rules copy \<noteq> [] then do {
                 let ((strata, _), h) = datalog_program_stratify copy h;
                 Some (if strata = None then None else Some (Some copy), h) }
               else Some (Some (Some copy), h)))"

definition facts_attach_program ::
  "callbacks \<Rightarrow> (datalog_program \<Rightarrow> int action) \<Rightarrow> nat \<Rightarrow> datalog_program option \<Rightarrow> int action" where
  "facts_attach_program cb eval reactive prog st =
     (if transaction_writer_owned (db_tx st) then Some (- 1, st)
      else do {
        (prepared, h) \<leftarrow> prepare_program prog (db_mem st);
        case prepared of
          None \<Rightarrow> Some (- 1, st\<lparr>db_mem := h\<rparr>)
        | Some copy \<Rightarrow> do {
            (_, st) \<leftarrow> facts_transaction_begin (st\<lparr>db_mem := h\<rparr>);
            let old = st;
            let st = facts_register_internal_tx_listener (if copy \<noteq> None then Some reactive else None)
                       (st\<lparr>db_disable_listener := True, db_prog := copy, db_owns_prog := copy \<noteq> None\<rparr>);
            (r, st) \<leftarrow> facts_justifications_stage False st;
            (r, st) \<leftarrow> (if r = 0 then facts_remove_all_derived st else Some (r, st));
            (r, st) \<leftarrow> (case copy of
                           Some p \<Rightarrow> if r = 0 then do { (n, st) \<leftarrow> eval p st; Some (if n < 0 then - 1 else 0, st) }
                                     else Some (r, st)
                         | None \<Rightarrow> Some (r, st));
            let restore = (\<lambda>st. facts_justifications_discard
                 (facts_register_internal_tx_listener (tx_internal_listener (db_tx old))
                   (st\<lparr>db_prog := db_prog old, db_owns_prog := db_owns_prog old\<rparr>)));
            let st = st\<lparr>db_disable_listener := db_disable_listener old\<rparr>;
            if r \<noteq> 0 then do { (_, st) \<leftarrow> facts_transaction_rollback (restore st); Some (- 1, st) }
            else do {
              (r, st) \<leftarrow> transaction_commit_silent cb st;
              if r \<noteq> 0 then Some (- 1, restore st) else Some (0, facts_justifications_commit st)
            } } })"

definition facts_detach_program ::
  "callbacks \<Rightarrow> (datalog_program \<Rightarrow> int action) \<Rightarrow> nat \<Rightarrow> int action" where
  "facts_detach_program cb eval reactive = facts_attach_program cb eval reactive None"

end
