(* ===== verification/Facts_IO.thy ===== *)
theory Facts_IO
  imports Query_Ops
begin

text \<open>
  Dumping and loading a database, and replaying its log (\<^verbatim>\<open>lib/io.c\<close>). A stream is the list of
  the characters that are left in it.
\<close>

section \<open>Writing\<close>

text \<open>The text of the facts a cursor visits, appended to \<open>out\<close>.\<close>

definition write_facts_body :: "cstr \<times> facts_cursor \<times> slots \<times> facts \<Rightarrow> ((cstr \<times> facts_cursor \<times> slots \<times> facts) + cstr \<times> facts) option" where
  "write_facts_body x =
     (case x of (out, c, m, st) \<Rightarrow>
        do { (found, c, m, st) \<leftarrow> facts_cursor_next c m st;
             case found of
               None \<Rightarrow> Some (Inr (out, st))
             | Some a \<Rightarrow> do { t \<leftarrow> write_fact (db_heap st a); Some (Inl (out @ t, c, m, st)) } })"

definition write_facts :: "cstr action" where
  "write_facts st =
     do { (c, st) \<leftarrow> facts_with_0 (Some 0) (Some 1) (Some 2) st;
          run_loop write_facts_body ('''', c, \<lambda>_. None, st) }"

section \<open>Reading\<close>

text \<open>
  One field: a string that is not empty, interned. The result is the symbol, or null for a
  failure, and the rest of the stream.
\<close>

definition read_field :: "nat \<Rightarrow> cstr \<Rightarrow> (symbol \<times> cstr) action" where
  "read_field buf_sz fp st =
     (case read_string buf_sz fp of
        (None, fp') \<Rightarrow> Some ((P_FIRST, fp'), st)
      | (Some buf, fp') \<Rightarrow>
          if buf = [] then Some ((P_FIRST, fp'), st)
          else do { (y, st) \<leftarrow> facts_intern buf st; Some ((y, fp'), st) })"

text \<open>
  The fact that was read, or \<open>None\<close> when the result is \<^verbatim>\<open>-1\<close>. The symbols interned before a
  failure stay interned. Only the first four fields of the fact are set.
\<close>

definition read_fact :: "nat \<Rightarrow> cstr \<Rightarrow> (fact option \<times> cstr) action" where
  "read_fact buf_sz fp st =
     do { ((s, fp), st) \<leftarrow> read_field buf_sz fp st;
          if s = P_FIRST then Some ((None, fp), st)
          else do {
            ((p, fp), st) \<leftarrow> read_field buf_sz fp st;
            if p = P_FIRST then Some ((None, fp), st)
            else do {
              ((ob, fp), st) \<leftarrow> read_field buf_sz fp st;
              if ob = P_FIRST then Some ((None, fp), st)
              else (case fp of
                      [] \<Rightarrow> Some ((None, []), st)
                    | c # rest \<Rightarrow> Some ((if c \<noteq> newline then None else Some (fact_init s p ob), rest), st))
            } } }"

definition FACTS_LOAD_BUFSZ :: nat where
  "FACTS_LOAD_BUFSZ = 1024 * 1024"

definition read_facts_body :: "cstr \<times> facts \<Rightarrow> ((cstr \<times> facts) + (int \<times> facts)) option" where
  "read_facts_body x =
     (case x of (fp, st) \<Rightarrow>
        if fp = [] then Some (Inr (0, st))
        else do {
          ((f, fp), st) \<leftarrow> read_fact FACTS_LOAD_BUFSZ fp st;
          case f of
            None \<Rightarrow> Some (Inr (- 1, st))
          | Some f \<Rightarrow> do {
              (added, st) \<leftarrow> facts_add_fact f st;
              (_, st) \<leftarrow> unintern_fact f st;
              if added = None then Some (Inr (- 1, st)) else Some (Inl (fp, st)) } })"

definition read_facts :: "cstr \<Rightarrow> int action" where
  "read_facts fp st =
     (case malloc (db_mem st) of
        (False, h) \<Rightarrow> Some (- 1, st\<lparr>db_mem := h\<rparr>)
      | (True, h) \<Rightarrow> run_loop read_facts_body (fp, st\<lparr>db_mem := h\<rparr>))"

section \<open>The log\<close>

text \<open>\<^verbatim>\<open>fgets\<close> with a buffer of \<^verbatim>\<open>n + 1\<close> characters: what was read, and the rest.\<close>

fun fgets :: "nat \<Rightarrow> cstr \<Rightarrow> cstr \<times> cstr" where
  "fgets 0 fp = ('''', fp)"
| "fgets (Suc n) [] = ('''', [])"
| "fgets (Suc n) (c # fp) =
     (if c = newline then ([c], fp) else case fgets n fp of (s, rest) \<Rightarrow> (c # s, rest))"

text \<open>A string ends at its first zero byte.\<close>

definition c_string :: "cstr \<Rightarrow> cstr" where
  "c_string s = takeWhile (\<lambda>c. c \<noteq> CHR 0x00) s"

definition to_lower :: "char \<Rightarrow> char" where
  "to_lower c = (let n = of_char c :: nat in if 65 \<le> n \<and> n \<le> 90 then char_of (n + 32) else c)"

definition strcaseeq :: "cstr \<Rightarrow> cstr \<Rightarrow> bool" where
  "strcaseeq a b \<longleftrightarrow> strcmp (map to_lower a) (map to_lower b) = 0"

text \<open>
  One entry of the log. An operation that begins with a zero byte has length 0 and is
  unknown. Anything but 0 counts as removed, an error too.
\<close>

definition log_entry_body :: "cstr \<times> facts \<Rightarrow> ((cstr \<times> facts) + (int \<times> facts)) option" where
  "log_entry_body x =
     (case x of (fp, st) \<Rightarrow>
        if fp = [] then Some (Inr (0, st))
        else
          let (line, fp) = fgets 31 fp;
              operation = c_string line
          in if operation \<noteq> [] \<and> last operation \<noteq> newline then Some (Inr (- 1, st))
             else if strcaseeq operation (''add'' @ [newline]) then do {
               ((f, fp), st) \<leftarrow> read_fact FACTS_LOAD_BUFSZ fp st;
               case f of
                 None \<Rightarrow> Some (Inr (- 1, st))
               | Some f \<Rightarrow> do {
                   (added, st) \<leftarrow> facts_add_fact f st;
                   (_, st) \<leftarrow> unintern_fact f st;
                   if added = None then Some (Inr (- 1, st)) else Some (Inl (fp, st)) } }
             else if strcaseeq operation (''remove'' @ [newline]) then do {
               ((f, fp), st) \<leftarrow> read_fact FACTS_LOAD_BUFSZ fp st;
               case f of
                 None \<Rightarrow> Some (Inr (- 1, st))
               | Some f \<Rightarrow> do {
                   (removed, st) \<leftarrow> facts_remove_fact f st;
                   (_, st) \<leftarrow> unintern_fact f st;
                   if removed = 0 then Some (Inr (- 1, st)) else Some (Inl (fp, st)) } }
             else Some (Inr (- 1, st)))"

definition read_facts_log :: "cstr \<Rightarrow> int action" where
  "read_facts_log fp st =
     (case malloc (db_mem st) of
        (False, h) \<Rightarrow> Some (- 1, st\<lparr>db_mem := h\<rparr>)
      | (True, h) \<Rightarrow> run_loop log_entry_body (fp, st\<lparr>db_mem := h\<rparr>))"

end
