(* ===== verification/Facts_Inv.thy ===== *)
theory Facts_Inv
  imports Transactions Hashset_Ptr
begin

text \<open>
  The consistency of a database: the index, the three tries and the arena agree on which facts
  are stored, every fact has at least one support, and every symbol is held in the table as
  often as the facts and the rollback entries use it, plus \<open>ext\<close> times by others.
\<close>

section \<open>How often a symbol is held\<close>

definition held :: "intern_table \<Rightarrow> symbol \<Rightarrow> nat" where
  "held t y =
     (case symbol_to_str y of None \<Rightarrow> 0
      | Some s \<Rightarrow> (case refs t s of None \<Rightarrow> 0 | Some (y', n) \<Rightarrow> if y' = y then n else 0))"

lemma held_sentinels [simp]: "held t P_FIRST = 0" "held t P_LAST = 0"
  by (simp_all add: held_def)

lemma held_cong: "refs t' = refs t \<Longrightarrow> held t' = held t"
  by (rule ext) (simp only: held_def)

lemma held_pos:
  assumes "intern_ok t" "0 < held t y"
  obtains i where "y = Sym i (sym_data y)" "i \<noteq> 0" "i \<noteq> UINT64_MAX" "refs t (sym_data y) = Some (y, held t y)"
proof -
  obtain s where s: "symbol_to_str y = Some s" using assms(2) by (cases "symbol_to_str y") (simp_all add: held_def)
  then obtain i where y: "y = Sym i s" by (cases y) auto
  from assms(2) s have r: "refs t s = Some (y, held t y)"
    by (auto simp: held_def split: option.splits if_splits)
  from st.refs_sym [OF assms(1) r] show ?thesis using that y r by auto
qed

lemma held_refs: "intern_ok t \<Longrightarrow> refs t s = Some (y, n) \<Longrightarrow> held t y = n \<and> 0 < n \<and> sym_data y = s"
  using st.refs_sym [of t s y n] by (auto simp: held_def)

lemma held_ids:
  assumes "intern_ok t" "0 < held t y" "0 < held t z" "get_symbol_id y = get_symbol_id z"
  shows "y = z"
proof -
  from held_pos [OF assms(1,2)] obtain i where y: "y = Sym i (sym_data y)" "refs t (sym_data y) = Some (y, held t y)" .
  from held_pos [OF assms(1,3)] obtain j where z: "z = Sym j (sym_data z)" "refs t (sym_data z) = Some (z, held t z)" .
  have "i = j" using assms(4) y(1) z(1) by (metis get_symbol_id.simps(3))
  then have "sym_id y = sym_id z" using y(1) z(1) by (metis symbol.sel(1))
  from st.refs_inj [OF assms(1) y(2) z(2) this] show ?thesis using \<open>i = j\<close> y(1) z(1) by metis
qed

lemma intern_string_held:
  assumes ok: "intern_ok t" and len: "length s \<le> MAX_STRING" and r: "intern_string t s h = (y, t', h')"
  shows "intern_ok t'" "y = P_FIRST \<Longrightarrow> held t' = held t"
    "y \<noteq> P_FIRST \<Longrightarrow> held t' = (held t)(y := Suc (held t y)) \<and> symbol_to_str y = Some s"
    "y \<noteq> P_FIRST \<Longrightarrow> 0 < held t z \<Longrightarrow> sym_data z = s \<Longrightarrow> y = z"
proof -
  show ok': "intern_ok t'"
    using st.intern_null [OF ok len, of h t' h'] st.intern_sym [OF ok len r] r by (cases "y = P_FIRST") auto
  show "held t' = held t" if "y = P_FIRST"
    by (rule held_cong) (use st.intern_null [OF ok len, of h t' h'] r that in simp)
  assume y: "y \<noteq> P_FIRST"
  define m where "m = (case refs t s of None \<Rightarrow> 0 | Some (y0, n) \<Rightarrow> n)"
  from st.intern_sym [OF ok len r y] have r': "refs t' = (refs t)(s \<mapsto> (y, Suc m))"
    and same: "\<And>y0 n. refs t s = Some (y0, n) \<Longrightarrow> y = y0" by (simp_all add: m_def)
  have "refs t' s = Some (y, Suc m)" by (simp add: r')
  from st.refs_sym [OF ok' this] have ys: "symbol_to_str y = Some s" by auto
  have my: "held t y = m"
    using same by (auto simp: held_def ys m_def split: option.split)
  have "held t' z = (if z = y then Suc (held t y) else held t z)" for z
  proof (cases "symbol_to_str z = Some s")
    case True
    have "held t z = 0" if "z \<noteq> y" using same that True by (auto simp: held_def split: option.split)
    then show ?thesis using True my by (auto simp: held_def r')
  next
    case False
    then have "z \<noteq> y" using ys by auto
    with False show ?thesis by (auto simp: held_def r' split: option.split)
  qed
  then show "held t' = (held t)(y := Suc (held t y)) \<and> symbol_to_str y = Some s"
    using ys by (simp add: fun_eq_iff)
  show "y = z" if "0 < held t z" "sym_data z = s"
    using held_pos [OF ok that(1)] that(2) same by metis
qed

lemma intern_unstring_held:
  assumes ok: "intern_ok t" and y: "0 < held t y"
  obtains t' where "intern_unstring t y = Some t'" "intern_ok t'" "held t' = (held t)(y := held t y - 1)"
proof -
  from held_pos [OF ok y] obtain i where i: "y = Sym i (sym_data y)" "refs t (sym_data y) = Some (y, held t y)" .
  let ?s = "sym_data y"
  from st.release_sym [OF ok i(2)] obtain t' where t': "intern_unstring t y = Some t'" "intern_ok t'"
    "refs t' = (refs t)(?s := if held t y = 1 then None else Some (y, held t y - 1))" by blast
  have ys: "symbol_to_str y = Some ?s" using i(1) by (metis symbol_to_str.simps(3))
  have "held t' z = (if z = y then held t y - 1 else held t z)" for z
  proof (cases "symbol_to_str z = Some ?s")
    case True
    have "held t z = 0" if "z \<noteq> y" using i(2) that True by (simp add: held_def)
    then show ?thesis using True y by (auto simp: held_def t'(3))
  next
    case False
    then have "z \<noteq> y" using ys by auto
    with False show ?thesis by (auto simp: held_def t'(3) split: option.split)
  qed
  then have "held t' = (held t)(y := held t y - 1)" by (simp add: fun_eq_iff)
  with t' show ?thesis using that by blast
qed

lemma find_symbol_refs:
  assumes "intern_ok t"
  shows "intern_find_symbol_str t s = (case refs t s of None \<Rightarrow> P_FIRST | Some (y, n) \<Rightarrow> y)"
  by (simp add: refs_def intern_find_symbol_str_def intern_find_symbol_def split: option.split)

text \<open>The symbol of a string is null exactly when no symbol with that string is held.\<close>

lemma find_symbol_held:
  assumes ok: "intern_ok t"
  shows "0 < held t y \<Longrightarrow> intern_find_symbol_str t (sym_data y) = y"
    and "intern_find_symbol_str t s \<noteq> P_FIRST \<Longrightarrow>
      0 < held t (intern_find_symbol_str t s) \<and> sym_data (intern_find_symbol_str t s) = s"
proof -
  show "intern_find_symbol_str t (sym_data y) = y" if "0 < held t y"
    by (rule held_pos [OF ok that]) (simp add: find_symbol_refs [OF ok])
  show "0 < held t (intern_find_symbol_str t s) \<and> sym_data (intern_find_symbol_str t s) = s"
    if "intern_find_symbol_str t s \<noteq> P_FIRST"
  proof (cases "refs t s")
    case (Some r)
    obtain y n where r: "r = (y, n)" by (cases r)
    from held_refs [OF ok, of s y n] Some r find_symbol_refs [OF ok, of s] show ?thesis by simp
  qed (use that find_symbol_refs [OF ok, of s] in simp)
qed

text \<open>Interning a held string succeeds unless the counter is at its end, and allocates nothing.\<close>

lemma intern_held_room:
  assumes ok: "intern_ok t" and y: "0 < held t y" "held t y < 2 ^ 64 - 1"
  obtains t' where "intern_string t (sym_data y) h = (y, t', h)"
proof -
  from held_pos [OF ok y(1)] obtain i where i: "refs t (sym_data y) = Some (y, held t y)" .
  then obtain it where it: "raxFind (symbols t) (sym_data y) = Some it" "item_symbol it = y" "unat (it_usage it) = held t y"
    by (auto simp: refs_def)
  have "it_usage it \<noteq> UINT64_MAX"
  proof
    assume "it_usage it = UINT64_MAX"
    then have "unat (it_usage it) = 2 ^ 64 - 1" by (simp add: unsigned_minus_1_eq_mask mask_eq_exp_minus_1)
    with it(3) y(2) show False by simp
  qed
  with it that show ?thesis by (simp add: intern_string_def intern_string_view_def)
qed

lemma held_data: "intern_ok t \<Longrightarrow> 0 < held t y \<Longrightarrow> symbol_to_str y = Some (sym_data y)"
  by (erule (1) held_pos) (metis symbol_to_str.simps(3))

section \<open>The invariant\<close>

definition stored :: "facts \<Rightarrow> addr set" where
  "stored st = ptr_elems (db_index st)"

definition fact_wf :: "fact \<Rightarrow> bool" where
  "fact_wf f \<longleftrightarrow> f_negated f = P_FIRST \<and> asserted_count f \<le> 1 \<and> derived_count f \<le> 1 \<and>
     0 < asserted_count f + derived_count f \<and> proof_count f = asserted_count f + derived_count f"

definition fsyms :: "fact \<Rightarrow> symbol multiset" where
  "fsyms f = {#f_s f, f_p f, f_o f#}"

text \<open>The references the database holds itself: for its facts, and for its rollback entries.\<close>

definition fact_claims :: "facts \<Rightarrow> symbol multiset" where
  "fact_claims st = (\<Sum>a \<in> stored st. fsyms (db_heap st a))"

definition entry_claims :: "rollback_entry list \<Rightarrow> symbol multiset" where
  "entry_claims es = sum_list (map (\<lambda>e. fsyms (re_fact e)) es)"

definition symbols_ok :: "symbol multiset \<Rightarrow> intern_table \<Rightarrow> bool" where
  "symbols_ok X t \<longleftrightarrow> intern_ok t \<and> (\<forall>y. held t y = count X y) \<and>
     (\<forall>y \<in># X. length (sym_data y) \<le> MAX_STRING)"

text \<open>The part of the invariant about the facts in memory.\<close>

definition store_ok :: "facts \<Rightarrow> bool" where
  "store_ok st \<longleftrightarrow>
     ptr_inv (index_rd (db_heap st)) (set_hash (db_index st)) KEY_LEN (db_index st) \<and>
     hexa_ok (db_heap st) (stored st) (db_hexastore st) \<and>
     arena_ok (db_arena st) \<and> stored st \<subseteq> arena_live (db_arena st) \<and>
     (\<forall>a \<in> stored st. fact_wf (db_heap st a))"

definition db_ok :: "symbol multiset \<Rightarrow> facts \<Rightarrow> bool" where
  "db_ok X st \<longleftrightarrow>
     symbols_ok (fact_claims st + entry_claims (entries st) + X) (db_symbols st) \<and>
     store_ok st \<and> (\<forall>e \<in> set (entries st). fact_wf (re_fact e))"

text \<open>What the operations on facts never change.\<close>

definition tx_rest :: "transaction \<Rightarrow> (int \<times> bool \<times> nat) \<times> nat option list" where
  "tx_rest tx = ((tx_level tx, tx_owned tx, tx_readers tx),
     [tx_listener tx, tx_internal_listener tx, tx_commit_observer tx, tx_summary_observer tx, tx_internal_summary_observer tx])"

definition rest_of :: "facts \<Rightarrow> ((bool \<times> bool \<times> bool \<times> datalog_program option) \<times> (fact_key \<Rightarrow> nat \<Rightarrow> u64) \<times> int)
    \<times> ((int \<times> bool \<times> nat) \<times> nat option list) \<times> jgraph \<times> jgraph option \<times> xoshiro" where
  "rest_of st = (((db_symbols_delete st, db_owns_prog st, db_disable_listener st, db_prog st),
      set_hash (db_index st), ref_count (db_arena st)),
     tx_rest (db_tx st), db_justifications st, db_staging st, db_rng st)"

section \<open>Symbols\<close>

text \<open>Only the symbol table and the allocator's answers changed.\<close>

definition symbols_only :: "facts \<Rightarrow> facts \<Rightarrow> bool" where
  "symbols_only st st' \<longleftrightarrow> (\<exists>t h. st' = st\<lparr>db_symbols := t, db_mem := h\<rparr>)"

lemma symbols_only_refl [simp]: "symbols_only st st"
  unfolding symbols_only_def by (rule exI [of _ "db_symbols st"], rule exI [of _ "db_mem st"]) simp

lemma symbols_only_trans: "symbols_only a b \<Longrightarrow> symbols_only b c \<Longrightarrow> symbols_only a c"
proof -
  assume "symbols_only a b" "symbols_only b c"
  then obtain t h t' h' where "b = a\<lparr>db_symbols := t, db_mem := h\<rparr>" "c = b\<lparr>db_symbols := t', db_mem := h'\<rparr>"
    by (auto simp: symbols_only_def)
  then have "c = a\<lparr>db_symbols := t', db_mem := h'\<rparr>" by simp
  then show "symbols_only a c" unfolding symbols_only_def by blast
qed

lemma symbols_only_same:
  assumes "symbols_only st st'"
  shows "stored st' = stored st" "db_heap st' = db_heap st" "entries st' = entries st" "store_ok st' = store_ok st"
    "db_tx st' = db_tx st" "fact_claims st' = fact_claims st" "rest_of st' = rest_of st" "db_log st' = db_log st"
    "db_index st' = db_index st" "db_hexastore st' = db_hexastore st" "db_arena st' = db_arena st"
  using assms by (auto simp: symbols_only_def stored_def store_ok_def fact_claims_def rest_of_def)

lemma db_ok_symbols:
  assumes "db_ok X st" "symbols_only st st'"
    and "symbols_ok (fact_claims st + entry_claims (entries st) + Y) (db_symbols st')"
  shows "db_ok Y st'"
  using assms symbols_only_same [OF assms(2)] by (simp add: db_ok_def)

lemma db_ok_table: "db_ok X st \<Longrightarrow> symbols_ok (fact_claims st + entry_claims (entries st) + X) (db_symbols st)"
  by (simp add: db_ok_def)

lemma symbols_okD:
  assumes "symbols_ok X t"
  shows "intern_ok t" "held t y = count X y" "y \<in># X \<Longrightarrow> length (sym_data y) \<le> MAX_STRING"
    "y \<in># X \<longleftrightarrow> 0 < held t y"
  using assms by (simp_all add: symbols_ok_def)

text \<open>The thread can take the writer lock: it has it, or it holds no read lock.\<close>

definition can_write :: "facts \<Rightarrow> bool" where
  "can_write st \<longleftrightarrow> tx_owned (db_tx st) \<or> tx_readers (db_tx st) = 0"

definition owning :: "facts \<Rightarrow> facts" where
  "owning st = (if tx_owned (db_tx st) then st else st\<lparr>db_tx := (db_tx st)\<lparr>tx_owned := True\<rparr>\<rparr>)"

definition give_back :: "facts \<Rightarrow> facts \<Rightarrow> facts" where
  "give_back st st' = (if tx_owned (db_tx st) then st' else st'\<lparr>db_tx := (db_tx st')\<lparr>tx_owned := False\<rparr>\<rparr>)"

lemma tx_not_owned [simp]: "\<not> tx_owned tx \<Longrightarrow> tx\<lparr>tx_owned := False\<rparr> = tx"
  by (cases tx) simp

lemma db_tx_same [simp]: "st\<lparr>db_tx := db_tx st\<rparr> = st"
  by (cases st) simp

lemma owning_simps [simp]:
  "db_symbols (owning st) = db_symbols st" "db_mem (owning st) = db_mem st" "db_index (owning st) = db_index st"
  "db_heap (owning st) = db_heap st" "db_hexastore (owning st) = db_hexastore st" "db_arena (owning st) = db_arena st"
  "db_log (owning st) = db_log st" "entries (owning st) = entries st" "tx_owned (db_tx (owning st))"
  "tx_level (db_tx (owning st)) = tx_level (db_tx st)"
  by (simp_all add: owning_def)

lemma can_write_upd [simp]:
  "can_write (st\<lparr>db_mem := h\<rparr>) = can_write st" "can_write (st\<lparr>db_symbols := t\<rparr>) = can_write st"
  "can_write (st\<lparr>db_index := S\<rparr>) = can_write st" "can_write (st\<lparr>db_hexastore := x\<rparr>) = can_write st"
  "can_write (st\<lparr>db_heap := hp\<rparr>) = can_write st" "can_write (st\<lparr>db_log := l\<rparr>) = can_write st"
  "can_write (owning st)"
  by (simp_all add: can_write_def)

lemma with_writer_run:
  assumes "can_write st"
  shows "with_writer act st = map_option (\<lambda>(r, st'). (r, give_back st st')) (act (owning st))"
  using assms
  by (cases "act (owning st)"; cases "tx_owned (db_tx st)")
    (auto simp: with_writer_def transaction_acquire_writer_def transaction_release_writer_def can_write_def
      owning_def give_back_def)

lemma with_writer_owned:
  assumes "tx_owned (db_tx st)"
  shows "with_writer act st = act st"
  using assms(1) by (cases "act st") (auto simp: with_writer_def transaction_acquire_writer_def transaction_release_writer_def)

lemma with_reader_owned: "tx_owned (db_tx st) \<Longrightarrow> with_reader act st = act st"
  by (cases "act st")
    (auto simp: with_reader_def transaction_acquire_reader_def transaction_writer_owned_def transaction_release_reader_def)

lemma symbols_only_can_write: "symbols_only st st' \<Longrightarrow> can_write st' = can_write st"
  using symbols_only_same(5) by (simp add: can_write_def)

text \<open>Interning a string while the writer lock can be taken.\<close>

lemma intern_owned:
  assumes ok: "symbols_ok X (db_symbols st)" and own: "can_write st" and len: "length s \<le> MAX_STRING"
  obtains (null) st' where "facts_intern s st = Some (P_FIRST, st')" "symbols_only st st'" "symbols_ok X (db_symbols st')"
  | (symbol) y st' where "facts_intern s st = Some (y, st')" "y \<noteq> P_FIRST" "symbols_only st st'"
      "symbols_ok (add_mset y X) (db_symbols st')" "sym_data y = s"
      "\<And>z. z \<in># X \<Longrightarrow> sym_data z = s \<Longrightarrow> y = z"
      "(\<exists>z \<in># X. sym_data z = s) \<Longrightarrow> db_mem st' = db_mem st"
proof -
  note d = symbols_okD [OF ok]
  obtain y t' h' where r: "intern_string (db_symbols st) s (db_mem st) = (y, t', h')"
    by (metis surj_pair)
  note i = intern_string_held [OF d(1) len r]
  let ?st' = "st\<lparr>db_symbols := t', db_mem := h'\<rparr>"
  have run: "facts_intern s st = Some (y, ?st')"
    using own r by (auto simp: facts_intern_def with_writer_run owning_def give_back_def)
  have only: "symbols_only st ?st'" unfolding symbols_only_def by blast
  show ?thesis
  proof (cases "y = P_FIRST")
    case True
    with i(1,2) ok have "symbols_ok X t'" by (simp add: symbols_ok_def)
    with run only True show ?thesis by (intro null [of ?st']) simp_all
  next
    case False
    note j = i(3) [OF False]
    from j have data: "sym_data y = s" by (cases y) auto
    have ok': "symbols_ok (add_mset y X) t'"
      using i(1) j ok data len by (auto simp: symbols_ok_def)
    have same: "y = z" if "z \<in># X" "sym_data z = s" for z using i(4) [OF False] d(4) that by blast
    have "h' = db_mem st" if z: "z \<in># X" "sym_data z = s" for z
    proof -
      have "0 < held (db_symbols st) z" using d(4) z(1) by simp
      from held_refs [OF d(1)] held_pos [OF d(1) this] z(2)
      have "refs (db_symbols st) s \<noteq> None" by (metis option.distinct(1))
      then have "raxFind (symbols (db_symbols st)) s \<noteq> None" by (auto simp: refs_def)
      then show ?thesis using r by (auto simp: intern_string_def intern_string_view_def split: if_splits)
    qed
    then show ?thesis using run only False ok' data same by (intro symbol [of y ?st']) auto
  qed
qed

text \<open>Interning the string of a symbol that is held gives the symbol, or fails.\<close>

lemma intern_symbol_owned:
  assumes ok: "symbols_ok X (db_symbols st)" and own: "can_write st" and y: "y \<in># X"
  obtains (null) st' where "facts_intern_symbol y st = Some (P_FIRST, st')" "symbols_only st st'"
      "symbols_ok X (db_symbols st')" "count X y \<ge> 2 ^ 64 - 1"
  | (symbol) st' where "facts_intern_symbol y st = Some (y, st')" "symbols_only st st'"
      "symbols_ok (add_mset y X) (db_symbols st')" "db_mem st' = db_mem st" "y \<noteq> P_FIRST"
proof -
  note d = symbols_okD [OF ok]
  have h: "0 < held (db_symbols st) y" using d(4) y by simp
  have str: "symbol_to_str y = Some (sym_data y)" using held_data [OF d(1) h] .
  then have run: "facts_intern_symbol y st = facts_intern (sym_data y) st" by (simp add: facts_intern_symbol_def)
  show ?thesis
  proof (cases rule: intern_owned [OF ok own d(3) [OF y]])
    case (1 st')
    have "\<not> count X y < 2 ^ 64 - 1"
    proof
      assume "count X y < 2 ^ 64 - 1"
      then have "held (db_symbols st) y < 2 ^ 64 - 1" by (simp add: d(2))
      from intern_held_room [OF d(1) h this, of "db_mem st"] obtain t' where
        "intern_string (db_symbols st) (sym_data y) (db_mem st) = (y, t', db_mem st)" .
      with 1(1) own str show False by (auto simp: facts_intern_def with_writer_run split: prod.splits)
    qed
    with 1 run show ?thesis by (intro null [of st']) simp_all
  next
    case (2 y' st')
    from 2(6) [OF y] have "y' = y" by simp
    with 2 run y show ?thesis by (intro symbol [of st']) auto
  qed
qed

lemma unintern_owned:
  assumes ok: "symbols_ok (add_mset y X) (db_symbols st)" and own: "can_write st"
  obtains st' where "facts_unintern y st = Some ((), st')" "symbols_only st st'" "symbols_ok X (db_symbols st')"
    "db_mem st' = db_mem st"
proof -
  note d = symbols_okD [OF ok]
  have "0 < held (db_symbols st) y" by (simp add: d(2))
  from intern_unstring_held [OF d(1) this] obtain t' where t': "intern_unstring (db_symbols st) y = Some t'"
    "intern_ok t'" "held t' = (held (db_symbols st))(y := held (db_symbols st) y - 1)" .
  let ?st' = "st\<lparr>db_symbols := t'\<rparr>"
  have "facts_unintern y st = Some ((), ?st')"
    using own t'(1) by (auto simp: facts_unintern_def with_writer_run owning_def give_back_def)
  moreover have "symbols_ok X t'" using t'(2,3) ok by (auto simp: symbols_ok_def)
  moreover have "symbols_only st ?st'"
    unfolding symbols_only_def by (rule exI [of _ t'], rule exI [of _ "db_mem st"]) simp
  ultimately show ?thesis by (intro that [of ?st']) simp_all
qed

section \<open>Three symbols\<close>

text \<open>The references a possibly null symbol stands for.\<close>

definition nn :: "symbol \<Rightarrow> symbol multiset" where
  "nn y = (if y = P_FIRST then {#} else {#y#})"

lemma nn_simps [simp]: "nn P_FIRST = {#}" "y \<noteq> P_FIRST \<Longrightarrow> nn y = {#y#}"
  by (simp_all add: nn_def)

lemma intern_symbol_maybe:
  assumes ok: "symbols_ok X (db_symbols st)" and own: "can_write st" and y: "y \<in># X"
  obtains y' st' where "facts_intern_symbol y st = Some (y', st')" "symbols_only st st'"
      "symbols_ok (nn y' + X) (db_symbols st')" "y' = P_FIRST \<or> y' = y"
      "y' \<noteq> P_FIRST \<Longrightarrow> db_mem st' = db_mem st" "y' = P_FIRST \<Longrightarrow> count X y \<ge> 2 ^ 64 - 1"
  by (rule intern_symbol_owned [OF ok own y]) (metis nn_simps add_mset_add_single union_commute empty_neutral(1))+

lemma unintern_nonnull_owned:
  assumes ok: "symbols_ok (nn y + X) (db_symbols st)" and own: "can_write st"
  obtains st' where "unintern_nonnull y st = Some ((), st')" "symbols_only st st'" "symbols_ok X (db_symbols st')"
    "db_mem st' = db_mem st"
proof (cases "y = P_FIRST")
  case True
  with ok show ?thesis by (intro that [of st]) (simp_all add: unintern_nonnull_def)
next
  case False
  with ok have "symbols_ok (add_mset y X) (db_symbols st)" by simp
  from unintern_owned [OF this own] that show ?thesis using False by (metis unintern_nonnull_def)
qed

definition nn3 :: "symbol \<times> symbol \<times> symbol \<Rightarrow> symbol multiset" where
  "nn3 trio = (case trio of (a, b, c) \<Rightarrow> nn a + nn b + nn c)"

lemma unintern_three_owned:
  assumes ok: "symbols_ok (nn3 trio + X) (db_symbols st)" and own: "can_write st"
  obtains st' where "unintern_three trio st = Some ((), st')" "symbols_only st st'" "symbols_ok X (db_symbols st')"
    "db_mem st' = db_mem st"
proof -
  obtain a b c where t: "trio = (a, b, c)" by (cases trio)
  have "symbols_ok (nn a + (nn b + (nn c + X))) (db_symbols st)" using ok t by (simp add: nn3_def ac_simps)
  from unintern_nonnull_owned [OF this own] obtain st1 where 1: "unintern_nonnull a st = Some ((), st1)"
    "symbols_only st st1" "symbols_ok (nn b + (nn c + X)) (db_symbols st1)" "db_mem st1 = db_mem st" .
  from unintern_nonnull_owned [OF 1(3)] own symbols_only_can_write [OF 1(2)] obtain st2 where
    2: "unintern_nonnull b st1 = Some ((), st2)" "symbols_only st1 st2" "symbols_ok (nn c + X) (db_symbols st2)"
      "db_mem st2 = db_mem st1" by metis
  from unintern_nonnull_owned [OF 2(3)] own symbols_only_can_write [OF 1(2)] symbols_only_can_write [OF 2(2)]
  obtain st3 where 3: "unintern_nonnull c st2 = Some ((), st3)" "symbols_only st2 st3" "symbols_ok X (db_symbols st3)"
    "db_mem st3 = db_mem st2" by metis
  show ?thesis
    using 1 2 3 t symbols_only_trans [OF symbols_only_trans [OF 1(2) 2(2)] 3(2)]
    by (intro that [of st3]) (simp_all add: unintern_three_def)
qed

lemma unintern_fact_owned:
  assumes ok: "symbols_ok (fsyms f + X) (db_symbols st)" and own: "can_write st"
  obtains st' where "unintern_fact f st = Some ((), st')" "symbols_only st st'" "symbols_ok X (db_symbols st')"
    "db_mem st' = db_mem st"
proof -
  have "symbols_ok (add_mset (f_s f) (add_mset (f_p f) (add_mset (f_o f) X))) (db_symbols st)"
    using ok by (simp add: fsyms_def ac_simps)
  from unintern_owned [OF this own] obtain st1 where 1: "facts_unintern (f_s f) st = Some ((), st1)"
    "symbols_only st st1" "symbols_ok (add_mset (f_p f) (add_mset (f_o f) X)) (db_symbols st1)" "db_mem st1 = db_mem st" .
  from unintern_owned [OF 1(3)] own symbols_only_can_write [OF 1(2)] obtain st2 where
    2: "facts_unintern (f_p f) st1 = Some ((), st2)" "symbols_only st1 st2" "symbols_ok (add_mset (f_o f) X) (db_symbols st2)"
      "db_mem st2 = db_mem st1" by metis
  from unintern_owned [OF 2(3)] own symbols_only_can_write [OF 1(2)] symbols_only_can_write [OF 2(2)]
  obtain st3 where 3: "facts_unintern (f_o f) st2 = Some ((), st3)" "symbols_only st2 st3" "symbols_ok X (db_symbols st3)"
    "db_mem st3 = db_mem st2" by metis
  show ?thesis
    using 1 2 3 symbols_only_trans [OF symbols_only_trans [OF 1(2) 2(2)] 3(2)]
    by (intro that [of st3]) (simp_all add: unintern_fact_def)
qed

text \<open>
  Taking one more reference on each symbol of a fact whose symbols are held: all three, or, when
  a counter is at its end, none.
\<close>

lemma intern_three_owned:
  assumes ok: "symbols_ok X (db_symbols st)" and own: "can_write st"
    and held: "set_mset (fsyms f) \<subseteq> set_mset X"
  obtains (null) trio st1 st' where "intern_three f st = Some (trio, st1)" "some_null trio"
      "unintern_three trio st1 = Some ((), st')" "symbols_only st st'" "symbols_ok X (db_symbols st')"
      "\<exists>y \<in># X. count X y \<ge> 2 ^ 64 - 4"
  | (symbols) st' where "intern_three f st = Some ((f_s f, f_p f, f_o f), st')" "\<not> some_null (f_s f, f_p f, f_o f)"
      "symbols_only st st'" "symbols_ok (fsyms f + X) (db_symbols st')" "db_mem st' = db_mem st"
proof -
  have in3: "f_s f \<in># X" "f_p f \<in># X" "f_o f \<in># X" using held by (simp_all add: fsyms_def)
  have nn_le: "count (nn u + Y) y \<le> Suc (count Y y)" for u y and Y :: "symbol multiset"
    by (simp add: nn_def)
  from intern_symbol_maybe [OF ok own in3(1)] obtain a st1 where 1: "facts_intern_symbol (f_s f) st = Some (a, st1)"
    "symbols_only st st1" "symbols_ok (nn a + X) (db_symbols st1)" "a = P_FIRST \<or> a = f_s f"
    "a \<noteq> P_FIRST \<Longrightarrow> db_mem st1 = db_mem st" "a = P_FIRST \<Longrightarrow> count X (f_s f) \<ge> 2 ^ 64 - 1" by blast
  have o1: "can_write st1" using own symbols_only_can_write [OF 1(2)] by simp
  have "f_p f \<in># nn a + X" using in3 by simp
  from intern_symbol_maybe [OF 1(3) o1 this] obtain b st2 where 2: "facts_intern_symbol (f_p f) st1 = Some (b, st2)"
    "symbols_only st1 st2" "symbols_ok (nn b + (nn a + X)) (db_symbols st2)" "b = P_FIRST \<or> b = f_p f"
    "b \<noteq> P_FIRST \<Longrightarrow> db_mem st2 = db_mem st1" "b = P_FIRST \<Longrightarrow> count (nn a + X) (f_p f) \<ge> 2 ^ 64 - 1" by blast
  have o2: "can_write st2" using o1 symbols_only_can_write [OF 2(2)] by simp
  have "f_o f \<in># nn b + (nn a + X)" using in3 by simp
  from intern_symbol_maybe [OF 2(3) o2 this] obtain c st3 where 3: "facts_intern_symbol (f_o f) st2 = Some (c, st3)"
    "symbols_only st2 st3" "symbols_ok (nn c + (nn b + (nn a + X))) (db_symbols st3)" "c = P_FIRST \<or> c = f_o f"
    "c \<noteq> P_FIRST \<Longrightarrow> db_mem st3 = db_mem st2" "c = P_FIRST \<Longrightarrow> count (nn b + (nn a + X)) (f_o f) \<ge> 2 ^ 64 - 1" by blast
  have o3: "can_write st3" using o2 symbols_only_can_write [OF 3(2)] by simp
  have run: "intern_three f st = Some ((a, b, c), st3)" using 1(1) 2(1) 3(1) by (simp add: intern_three_def)
  have only: "symbols_only st st3" using 1(2) 2(2) 3(2) symbols_only_trans by blast
  have ok3: "symbols_ok (nn3 (a, b, c) + X) (db_symbols st3)" using 3(3) by (simp add: nn3_def ac_simps)
  show ?thesis
  proof (cases "some_null (a, b, c)")
    case True
    from unintern_three_owned [OF ok3 o3] obtain st' where u: "unintern_three (a, b, c) st3 = Some ((), st')"
      "symbols_only st3 st'" "symbols_ok X (db_symbols st')" by blast
    have "\<exists>y \<in># X. count X y \<ge> 2 ^ 64 - 4"
    proof -
      have "2 ^ 64 - 4 \<le> count X (f_s f)" if "a = P_FIRST" using 1(6) [OF that] by linarith
      moreover have "2 ^ 64 - 4 \<le> count X (f_p f)" if "b = P_FIRST"
        using 2(6) [OF that] nn_le [of a X "f_p f"] by linarith
      moreover have "2 ^ 64 - 4 \<le> count X (f_o f)" if "c = P_FIRST"
        using 3(6) [OF that] nn_le [of b "nn a + X" "f_o f"] nn_le [of a X "f_o f"] by linarith
      ultimately show ?thesis using True in3 unfolding some_null_def by blast
    qed
    with run True u only symbols_only_trans show ?thesis by (intro null [of "(a, b, c)" st3 st']) blast+
  next
    case False
    then have eq: "a = f_s f" "b = f_p f" "c = f_o f" "a \<noteq> P_FIRST" "b \<noteq> P_FIRST" "c \<noteq> P_FIRST"
      using 1(4) 2(4) 3(4) by (auto simp: some_null_def)
    have "nn3 (a, b, c) = fsyms f" using eq by (simp add: nn3_def fsyms_def)
    with run False only ok3 eq 1(5) 2(5) 3(5) show ?thesis by (intro symbols [of st3]) simp_all
  qed
qed

end
