(* ===== verification/Facts_Ops.thy ===== *)
theory Facts_Ops
  imports Facts_Inv
begin

text \<open>
  Every operation on facts keeps the consistency of the database, whether it succeeds or fails:
  the lemmas here go through \<^verbatim>\<open>transaction_rollback_push\<close>, \<^verbatim>\<open>facts_insert_fact_copy\<close> and
  \<^verbatim>\<open>facts_remove_found\<close>, for a thread that has or can take the writer lock.
\<close>

section \<open>Frames\<close>

text \<open>The facts and everything else but the symbols, the rollback stack and the answers of the allocator.\<close>

definition same_store :: "facts \<Rightarrow> facts \<Rightarrow> bool" where
  "same_store st st' \<longleftrightarrow>
     db_index st' = db_index st \<and> db_heap st' = db_heap st \<and> db_hexastore st' = db_hexastore st \<and>
     db_arena st' = db_arena st \<and> db_log st' = db_log st \<and> rest_of st' = rest_of st"

lemma same_store_refl [simp]: "same_store st st"
  by (simp add: same_store_def)

lemma same_store_trans: "same_store a b \<Longrightarrow> same_store b c \<Longrightarrow> same_store a c"
  by (simp add: same_store_def)

lemma symbols_only_same_store: "symbols_only st st' \<Longrightarrow> same_store st st'"
  using symbols_only_same by (simp add: same_store_def)

lemma same_store_facts:
  assumes "same_store st st'"
  shows "stored st' = stored st" "fact_claims st' = fact_claims st" "store_ok st' = store_ok st"
  using assms by (simp_all add: same_store_def stored_def fact_claims_def store_ok_def)

lemma rest_of_tx:
  assumes "rest_of st' = rest_of st"
  shows "tx_owned (db_tx st') = tx_owned (db_tx st)" "tx_level (db_tx st') = tx_level (db_tx st)"
    "tx_readers (db_tx st') = tx_readers (db_tx st)" "db_rng st' = db_rng st"
    "db_justifications st' = db_justifications st" "db_staging st' = db_staging st"
    "db_symbols_delete st' = db_symbols_delete st" "db_prog st' = db_prog st"
    "set_hash (db_index st') = set_hash (db_index st)" "ref_count (db_arena st') = ref_count (db_arena st)"
  using assms by (simp_all add: rest_of_def tx_rest_def)

lemma rest_of_can_write: "rest_of st' = rest_of st \<Longrightarrow> can_write st' = can_write st"
  unfolding can_write_def by (frule rest_of_tx(1), drule rest_of_tx(3)) simp

lemma same_store_can_write: "same_store st st' \<Longrightarrow> can_write st' = can_write st"
  unfolding same_store_def by (elim conjE) (erule rest_of_can_write)

lemma db_ok_same_store:
  assumes "db_ok X st" "same_store st st'" "entries st' = entries st"
    and "symbols_ok (fact_claims st + entry_claims (entries st) + Y) (db_symbols st')"
  shows "db_ok Y st'"
  unfolding db_ok_def same_store_facts [OF assms(2)] assms(3)
  using assms(1,4) unfolding db_ok_def by blast

section \<open>Pushing a rollback entry\<close>

lemma rollback_room_cases:
  obtains (full) st' where "rollback_room st = Some (False, st')" "same_store st st'" "entries st' = entries st"
      "db_symbols st' = db_symbols st"
  | (room) st' where "rollback_room st = Some (True, st')" "same_store st st'" "entries st' = entries st"
      "db_symbols st' = db_symbols st" "db_mem st = [] \<longrightarrow> db_mem st' = []"
proof -
  obtain b h where m: "malloc (db_mem st) = (b, h)" by (cases "malloc (db_mem st)")
  have h: "db_mem st = [] \<longrightarrow> b \<and> h = []" using m by auto
  let ?rb = "tx_rollback (db_tx st)"
  let ?c = "if rb_capacity ?rb \<noteq> 0 then rb_capacity ?rb * 2 mod 2 ^ 64 else 16"
  consider "\<not> length (entries st) \<ge> rb_capacity ?rb"
    | "length (entries st) \<ge> rb_capacity ?rb" "?c < rb_capacity ?rb \<or> ?c > SIZE_MAX div 56"
    | "length (entries st) \<ge> rb_capacity ?rb" "\<not> (?c < rb_capacity ?rb \<or> ?c > SIZE_MAX div 56)" by blast
  then show ?thesis
  proof cases
    case 1
    then show ?thesis by (intro room [of st]) (simp_all add: rollback_room_def)
  next
    case 2
    then show ?thesis by (intro full [of st]) (simp_all add: rollback_room_def Let_def)
  next
    case 3
    show ?thesis
    proof (cases b)
      case True
      let ?st' = "st\<lparr>db_mem := h, db_tx := (db_tx st)\<lparr>tx_rollback := ?rb\<lparr>rb_capacity := ?c\<rparr>\<rparr>\<rparr>"
      have "rollback_room st = Some (True, ?st')" using 3 m True by (simp add: rollback_room_def Let_def)
      with h show ?thesis by (intro room [of ?st']) (simp_all add: same_store_def rest_of_def tx_rest_def)
    next
      case False
      then have "rollback_room st = Some (False, st\<lparr>db_mem := h\<rparr>)" using 3 m by (simp add: rollback_room_def Let_def)
      then show ?thesis by (intro full [of "st\<lparr>db_mem := h\<rparr>"]) (simp_all add: same_store_def rest_of_def tx_rest_def)
    qed
  qed
qed

lemma push_entry_simps [simp]:
  "same_store st (push_entry act f st)" "entries (push_entry act f st) = entries st @ [\<lparr>re_action = act, re_fact = f\<rparr>]"
  "db_symbols (push_entry act f st) = db_symbols st" "db_mem (push_entry act f st) = db_mem st"
  by (simp_all add: push_entry_def Let_def same_store_def rest_of_def tx_rest_def)

definition pushed :: "facts \<Rightarrow> e_rollback_action \<Rightarrow> fact \<Rightarrow> rollback_entry list" where
  "pushed st act f = (if tx_level (db_tx st) > 0 then [\<lparr>re_action = act, re_fact = f\<rparr>] else [])"

lemma rollback_push_owned:
  assumes ok: "db_ok X st" and own: "can_write st" and f: "fact_wf f"
    and held: "set_mset (fsyms f) \<subseteq> set_mset (fact_claims st + entry_claims (entries st) + X)"
  obtains (refused) st' where "transaction_rollback_push act f st = Some (False, st')" "db_ok X st'"
      "same_store st st'" "entries st' = entries st"
  | (recorded) st' where "transaction_rollback_push act f st = Some (True, st')" "db_ok X st'"
      "same_store st st'" "entries st' = entries st @ pushed st act f" "db_mem st = [] \<Longrightarrow> db_mem st' = []"
proof (cases "tx_level (db_tx st) > 0")
  case False
  with ok show ?thesis by (intro recorded [of st]) (simp_all add: transaction_rollback_push_def pushed_def)
next
  case True
  show ?thesis
  proof (cases rule: rollback_room_cases [of st])
    case (full st')
    have "db_ok X st'" by (rule db_ok_same_store [OF ok full(2,3)]) (use ok full(4) in \<open>simp add: db_ok_def\<close>)
    with full True show ?thesis by (intro refused [of st']) (simp_all add: transaction_rollback_push_def)
  next
    case (room st1)
    let ?C = "fact_claims st + entry_claims (entries st) + X"
    have ok1: "symbols_ok ?C (db_symbols st1)" using ok room(4) by (simp add: db_ok_def)
    have own1: "can_write st1" using own same_store_can_write [OF room(2)] by simp
    show ?thesis
    proof (cases rule: intern_three_owned [OF ok1 own1 held])
      case (1 trio st2 st')
      have same: "same_store st st'" using same_store_trans [OF room(2)] symbols_only_same_store [OF 1(4)] by blast
      have ent: "entries st' = entries st" using symbols_only_same(3) [OF 1(4)] room(3) by simp
      have "db_ok X st'" by (rule db_ok_same_store [OF ok same ent 1(5)])
      with 1 room(1) True same ent show ?thesis
        by (intro refused [of st']) (simp_all add: transaction_rollback_push_def)
    next
      case (2 st2)
      let ?st' = "push_entry act f st2"
      have run: "transaction_rollback_push act f st = Some (True, ?st')"
        using 2 room(1) True by (simp add: transaction_rollback_push_def)
      have same: "same_store st ?st'"
        using same_store_trans [OF room(2)] symbols_only_same_store [OF 2(3)] same_store_trans push_entry_simps(1)
        by blast
      have ent: "entries ?st' = entries st @ pushed st act f"
        using symbols_only_same(3) [OF 2(3)] room(3) True by (simp add: pushed_def)
      have "symbols_ok (fact_claims st + entry_claims (entries st @ pushed st act f) + X) (db_symbols ?st')"
        using 2(4) True by (simp add: entry_claims_def pushed_def ac_simps)
      then have "db_ok X ?st'"
        using ok f ent same_store_facts [OF same] True unfolding db_ok_def by (auto simp: pushed_def)
      moreover have "db_mem st = [] \<Longrightarrow> db_mem ?st' = []"
        using 2(5) room(5) by simp
      ultimately show ?thesis using run same ent by (intro recorded [of ?st'])
    qed
  qed
qed


section \<open>The facts in memory\<close>

definition same_facts :: "facts \<Rightarrow> facts \<Rightarrow> bool" where
  "same_facts st st' \<longleftrightarrow>
     stored st' = stored st \<and> (\<forall>a \<in> stored st. db_heap st' a = db_heap st a) \<and>
     entries st' = entries st \<and> db_log st' = db_log st \<and> rest_of st' = rest_of st"

lemma same_facts_refl [simp]: "same_facts st st"
  by (simp add: same_facts_def)

lemma same_facts_trans: "same_facts a b \<Longrightarrow> same_facts b c \<Longrightarrow> same_facts a c"
  by (simp add: same_facts_def)

lemma same_store_same_facts: "same_store st st' \<Longrightarrow> entries st' = entries st \<Longrightarrow> same_facts st st'"
  by (simp add: same_facts_def same_store_def stored_def)

lemma same_facts_claims: "same_facts st st' \<Longrightarrow> fact_claims st' = fact_claims st"
  unfolding fact_claims_def same_facts_def by (intro sum.cong) auto

lemma same_facts_can_write: "same_facts st st' \<Longrightarrow> can_write st' = can_write st"
  unfolding same_facts_def by (elim conjE) (erule rest_of_can_write)

lemma db_ok_same_facts:
  assumes "db_ok X st" "same_facts st st'" "store_ok st'"
    and "symbols_ok (fact_claims st + entry_claims (entries st) + Y) (db_symbols st')"
  shows "db_ok Y st'"
proof -
  have "entries st' = entries st" using assms(2) by (simp add: same_facts_def)
  then show ?thesis
    using assms(1,3,4) same_facts_claims [OF assms(2)] unfolding db_ok_def by simp
qed

lemma hexa_ok_cong:
  assumes "hexa_ok hp A x" "\<And>a. a \<in> A \<Longrightarrow> hp' a = hp a"
  shows "hexa_ok hp' A x"
proof -
  have "inj_on (k \<circ> hp') A = inj_on (k \<circ> hp) A" for k :: "fact \<Rightarrow> byte list"
    using assms(2) by (intro inj_on_cong) simp
  moreover have "a \<in> A \<and> (k \<circ> hp') a = y \<longleftrightarrow> a \<in> A \<and> (k \<circ> hp) a = y" for k :: "fact \<Rightarrow> byte list" and a y
    using assms(2) by auto
  ultimately show ?thesis using assms(1) unfolding hexa_ok_def trie_of_def by simp
qed

lemma store_okD:
  assumes "store_ok st"
  shows "ptr_inv (index_rd (db_heap st)) (set_hash (db_index st)) KEY_LEN (db_index st)"
    "hexa_ok (db_heap st) (stored st) (db_hexastore st)" "arena_ok (db_arena st)"
    "stored st \<subseteq> arena_live (db_arena st)" "a \<in> stored st \<Longrightarrow> fact_wf (db_heap st a)"
  using assms by (simp_all add: store_ok_def)

lemma store_ok_change:
  assumes ok: "store_ok st" and "db_index st' = db_index st" "db_hexastore st' = db_hexastore st"
    and heap: "\<And>a. a \<in> stored st \<Longrightarrow> db_heap st' a = db_heap st a"
    and "arena_ok (db_arena st')" "stored st \<subseteq> arena_live (db_arena st')"
  shows "store_ok st'"
proof -
  have "stored st' = stored st" using assms(2) by (simp add: stored_def)
  moreover have "ptr_inv (index_rd (db_heap st')) (set_hash (db_index st)) KEY_LEN (db_index st)"
    by (rule ptr_inv_cong [OF store_okD(1) [OF ok]]) (use heap in \<open>simp add: index_rd_def stored_def\<close>)
  moreover have "hexa_ok (db_heap st') (stored st) (db_hexastore st)"
    by (rule hexa_ok_cong [OF store_okD(2) [OF ok] heap])
  ultimately show ?thesis using assms by (simp add: store_ok_def)
qed

section \<open>Looking facts up in the index\<close>

lemma stored_held:
  assumes "db_ok X st" "a \<in> stored st" "y \<in># fsyms (db_heap st a)"
  shows "0 < held (db_symbols st) y" "y \<in># fact_claims st"
proof -
  have "finite (stored st)" by (simp add: stored_def finite_ptr_elems)
  then show "y \<in># fact_claims st"
    using assms(2,3) unfolding fact_claims_def by (subst set_mset_sum) auto
  then show "0 < held (db_symbols st) y"
    using assms(1) by (simp add: db_ok_def symbols_ok_def)
qed

lemma index_get_cong: "db_heap st' = db_heap st \<Longrightarrow> db_index st' = db_index st \<Longrightarrow> index_get k st' = index_get k st"
  by (simp only: index_get_def)

lemma index_get_stored:
  assumes ok: "store_ok st" and a: "a \<in> stored st"
  obtains i st' where "index_get (fact_key (db_heap st a)) st = Some (Some (i, a))"
    "index_remove i st = Some ((), st')" "st' = st\<lparr>db_index := db_index st'\<rparr>"
    "ptr_inv (index_rd (db_heap st)) (set_hash (db_index st)) KEY_LEN (db_index st')"
    "stored st' = stored st - {a}"
proof -
  note d = store_okD [OF ok]
  have "a \<in> ptr_elems (db_index st)" using a by (simp add: stored_def)
  from ptr_get_slot [OF d(1) this] obtain i S' where i:
    "set_get (index_rd (db_heap st)) (db_index st) (index_rd (db_heap st) a KEY_LEN) KEY_LEN = Some (Some i)"
    "it_data (set_items (db_index st) ! i) = Some a" "set_remove (db_index st) (Some (int i)) = Some (1, S')"
    "ptr_inv (index_rd (db_heap st)) (set_hash (db_index st)) KEY_LEN S'" "ptr_elems S' = ptr_elems (db_index st) - {a}" .
  show ?thesis
    by (rule that [of i "st\<lparr>db_index := S'\<rparr>"])
      (use i in \<open>simp_all add: index_get_def index_remove_def index_rd_def stored_def\<close>)
qed

lemma index_get_absent:
  assumes ok: "store_ok st" and "\<And>a. a \<in> stored st \<Longrightarrow> fact_key (db_heap st a) \<noteq> k"
  shows "index_get k st = Some None"
proof -
  have "k \<notin> (\<lambda>d. index_rd (db_heap st) d KEY_LEN) ` ptr_elems (db_index st)"
    using assms(2) by (auto simp: index_rd_def stored_def)
  from ptr_get_None(1) [OF store_okD(1) [OF ok] this] show ?thesis by (simp add: index_get_def)
qed

lemma index_get_cases:
  assumes ok: "store_ok st"
  obtains (absent) "index_get k st = Some None" "\<And>a. a \<in> stored st \<Longrightarrow> fact_key (db_heap st a) \<noteq> k"
  | (found) i a where "index_get k st = Some (Some (i, a))" "a \<in> stored st" "fact_key (db_heap st a) = k"
proof (cases "\<exists>a \<in> stored st. fact_key (db_heap st a) = k")
  case True
  then obtain a where a: "a \<in> stored st" "fact_key (db_heap st a) = k" by blast
  from index_get_stored [OF ok a(1)] a show ?thesis using found by metis
next
  case False
  then show ?thesis using absent index_get_absent [OF ok, of k] by blast
qed

lemma fact_key_inj:
  assumes "store_ok st" "a \<in> stored st" "b \<in> stored st" "fact_key (db_heap st a) = fact_key (db_heap st b)"
  shows "a = b"
  using ptr_keys_inj [OF store_okD(1) [OF assms(1)]] assms(2-4)
  by (auto simp: inj_on_def index_rd_def stored_def)

section \<open>Removing a found fact\<close>

lemma remove_found_owned:
  assumes ok: "db_ok X st" and own: "can_write st" and a: "a \<in> stored st"
  obtains i st' where "index_get (fact_key (db_heap st a)) st = Some (Some (i, a))"
    "facts_remove_found i a st = Some ((), st')" "db_ok X st'" "stored st' = stored st - {a}"
    "db_heap st' = db_heap st" "entries st' = entries st" "db_log st' = db_log st" "rest_of st' = rest_of st"
    "db_mem st' = db_mem st"
proof -
  let ?f = "db_heap st a"
  have sok: "store_ok st" using ok by (simp add: db_ok_def)
  note d = store_okD [OF sok]
  from index_get_stored [OF sok a] obtain i st1 where 1: "index_get (fact_key ?f) st = Some (Some (i, a))"
    "index_remove i st = Some ((), st1)" "st1 = st\<lparr>db_index := db_index st1\<rparr>"
    "ptr_inv (index_rd (db_heap st)) (set_hash (db_index st)) KEY_LEN (db_index st1)" "stored st1 = stored st - {a}" .
  let ?x = "hexastore_remove (db_hexastore st) ?f"
  let ?st2 = "st\<lparr>db_index := db_index st1, db_hexastore := ?x\<rparr>"
  have st2: "hexa_remove ?f st1 = ?st2" by (subst 1(3)) (simp add: hexa_remove_def)
  have claims: "fact_claims st = fsyms ?f + fact_claims ?st2"
  proof -
    have "finite (stored st)" by (simp add: stored_def finite_ptr_elems)
    then show ?thesis
      using a 1(5) unfolding fact_claims_def by (simp add: sum.remove stored_def)
  qed
  have "symbols_ok (fsyms ?f + (fact_claims ?st2 + entry_claims (entries st) + X)) (db_symbols ?st2)"
    using db_ok_table [OF ok] claims by (simp add: ac_simps)
  from unintern_fact_owned [OF this] own obtain st3 where 3: "unintern_fact ?f ?st2 = Some ((), st3)"
    "symbols_only ?st2 st3" "symbols_ok (fact_claims ?st2 + entry_claims (entries st) + X) (db_symbols st3)"
    "db_mem st3 = db_mem st" by auto
  note so = symbols_only_same [OF 3(2)]
  let ?st' = "delete_fact a st3"
  have hash: "set_hash (db_index st1) = set_hash (db_index st)" using 1(4) by (simp add: ptr_inv_def)
  have sto: "stored ?st' = stored st - {a}" using so(1,9) 1(5) by (simp add: delete_fact_def stored_def)
  have arena: "arena_ok (arena_free_fact (db_arena st) (Some a))"
    "arena_live (arena_free_fact (db_arena st) (Some a)) = arena_live (db_arena st) - {a}"
    using ar.release_live [OF d(3), of a] d(4) a by auto
  have "store_ok ?st'"
    unfolding store_ok_def sto
    using so(2,9-11) hash 1(4) hexastore_remove_ok [OF d(2) a] d(4,5) arena
    by (auto simp: delete_fact_def)
  moreover have "fact_claims ?st' = fact_claims ?st2"
    using sto so(2) 1(5) by (simp add: fact_claims_def delete_fact_def stored_def)
  ultimately have "db_ok X ?st'"
    using 3(3) ok so(3) unfolding db_ok_def by (simp add: delete_fact_def)
  moreover have "facts_remove_found i a st = Some ((), ?st')"
  proof -
    have "db_heap st1 = db_heap st" by (subst 1(3)) simp
    then show ?thesis using 1(2) st2 3(1) by (simp add: facts_remove_found_def)
  qed
  moreover have "rest_of ?st' = rest_of st"
    using so(7) hash by (simp add: rest_of_def delete_fact_def arena_free_fact_def)
  ultimately show ?thesis
    using 1(1) sto so(2,3,8) 3(4) by (intro that [of i ?st']) (simp_all add: delete_fact_def)
qed

section \<open>Inserting a fact\<close>

lemma spo_key_new:
  assumes ok: "db_ok X st" and held: "set_mset (fsyms f) \<subseteq> set_mset (fact_claims st + entry_claims (entries st) + X)"
    and new: "\<forall>a \<in> stored st. fact_key (db_heap st a) \<noteq> fact_key f" and neg: "f_negated f = P_FIRST"
  shows "spo_key f \<notin> (spo_key \<circ> db_heap st) ` stored st"
proof
  assume "spo_key f \<in> (spo_key \<circ> db_heap st) ` stored st"
  then obtain a where a: "a \<in> stored st" "spo_key f = spo_key (db_heap st a)" by auto
  let ?g = "db_heap st a"
  note tok = db_ok_table [OF ok]
  have hf: "0 < held (db_symbols st) y" if "y \<in># fsyms f" for y
    using held that symbols_okD(4) [OF tok] by blast
  have hg: "0 < held (db_symbols st) y" if "y \<in># fsyms ?g" for y
    using stored_held(1) [OF ok a(1) that] .
  have ids: "get_symbol_id (f_s f) = get_symbol_id (f_s ?g)" "get_symbol_id (f_p f) = get_symbol_id (f_p ?g)"
    "get_symbol_id (f_o f) = get_symbol_id (f_o ?g)" using a(2) by (simp_all add: spo_key_def triple_key_eq)
  note eq = held_ids [OF symbols_okD(1) [OF tok] hf hg]
  have "f_s f = f_s ?g" "f_p f = f_p ?g" "f_o f = f_o ?g"
    by (rule eq [OF _ _ ids(1)] eq [OF _ _ ids(2)] eq [OF _ _ ids(3)]; simp add: fsyms_def)+
  moreover have "f_negated ?g = P_FIRST"
    using ok a(1) by (simp add: db_ok_def store_ok_def fact_wf_def)
  ultimately have "fact_key ?g = fact_key f" using neg by (simp add: fact_key_def)
  with new a(1) show False by blast
qed

lemma insert_copy_simps [simp]:
  "f_s (insert_copy_of f) = f_s f" "f_p (insert_copy_of f) = f_p f" "f_o (insert_copy_of f) = f_o f"
  "f_negated (insert_copy_of f) = f_negated f" "fsyms (insert_copy_of f) = fsyms f"
  "fact_key (insert_copy_of f) = fact_key f" "asserted_count (insert_copy_of f) = asserted_count f"
  "derived_count (insert_copy_of f) = derived_count f" "spo_key (insert_copy_of f) = spo_key f"
  by (simp_all add: insert_copy_of_def fact_init_def fsyms_def fact_key_def spo_key_def)

text \<open>The state once the new fact is in all indexes: what \<^verbatim>\<open>set_add\<close> leaves.\<close>

lemma insert_indexed:
  assumes ok: "db_ok X st" and A: "arena_ok A" "a \<notin> stored st" "a \<in> arena_live A" "stored st \<subseteq> arena_live A"
    and wf: "fact_wf nf" and new: "\<forall>b \<in> stored st. fact_key (db_heap st b) \<noteq> fact_key nf"
    and st1: "db_index st1 = db_index st" "db_heap st1 = (db_heap st)(a := nf)" "db_arena st1 = A"
      "entries st1 = entries st" "db_log st1 = db_log st" "rest_of st1 = rest_of st"
    and hexa: "hexa_ok (db_heap st1) (insert a (stored st)) (db_hexastore st1)"
    and syms: "symbols_ok (fsyms nf + (fact_claims st + entry_claims (entries st) + X)) (db_symbols st1)"
  obtains (refused) h' where "index_add a st1 = Some (None, st1\<lparr>db_mem := h'\<rparr>)"
      "db_mem st1 = [] \<Longrightarrow> \<not> card (stored st) < 2 ^ 55"
  | (indexed) i st2 where "index_add a st1 = Some (Some i, st2)" "db_ok X st2" "stored st2 = insert a (stored st)"
      "db_heap st2 = db_heap st1" "index_get (fact_key nf) st2 = Some (Some (i, a))"
      "entries st2 = entries st" "db_log st2 = db_log st" "rest_of st2 = rest_of st" "db_arena st2 = A"
      "db_mem st1 = [] \<Longrightarrow> card (stored st) < 2 ^ 55 \<Longrightarrow> db_mem st2 = []"
proof -
  have sok: "store_ok st" using ok by (simp add: db_ok_def)
  note d = store_okD [OF sok]
  let ?rd = "index_rd (db_heap st1)"
  have rd: "?rd b KEY_LEN = index_rd (db_heap st) b KEY_LEN" if "b \<in> stored st" for b
    using that A(2) st1(2) by (auto simp: index_rd_def)
  have inv: "ptr_inv ?rd (set_hash (db_index st)) KEY_LEN (db_index st)"
    by (rule ptr_inv_cong [OF d(1)]) (rule rd, simp only: stored_def)
  have key: "?rd a KEY_LEN = fact_key nf" by (simp add: index_rd_def st1(2))
  have "?rd a KEY_LEN \<notin> (\<lambda>b. ?rd b KEY_LEN) ` ptr_elems (db_index st)"
  proof
    assume "?rd a KEY_LEN \<in> (\<lambda>b. ?rd b KEY_LEN) ` ptr_elems (db_index st)"
    then obtain b where b: "b \<in> stored st" "fact_key nf = ?rd b KEY_LEN" by (auto simp: stored_def key)
    with rd [OF b(1)] bspec [OF new b(1)] show False by (simp add: index_rd_def)
  qed
  note add = ptr_add_slot [OF inv this, of "db_mem st1"]
  have room: "r \<noteq> None \<and> h' = []" if "db_mem st1 = []" "card (stored st) < 2 ^ 55"
    "set_add ?rd (db_index st) a KEY_LEN (db_mem st1) = Some (r, S', h')" for r S' h'
    using ptr_add_succeeds [OF inv _ that(3) [unfolded that(1)]] that(2) by (simp add: stored_def)
  show ?thesis
  proof (cases rule: add)
    case (1 h')
    have "index_add a st1 = Some (None, st1\<lparr>db_mem := h'\<rparr>)" using 1 st1(1) by (simp add: index_add_def)
    then show ?thesis using room [OF _ _ 1] by (intro refused [of h']) auto
  next
    case (2 i S' h')
    let ?st2 = "st1\<lparr>db_index := S', db_mem := h'\<rparr>"
    have run: "index_add a st1 = Some (Some i, ?st2)" using 2 st1(1) by (simp add: index_add_def)
    have sto: "stored ?st2 = insert a (stored st)" using 2(3) by (simp add: stored_def)
    have hash: "set_hash S' = set_hash (db_index st)" using 2(2) by (simp add: ptr_inv_def)
    have fin: "finite (stored st)" by (simp add: stored_def finite_ptr_elems)
    have "(\<Sum>b \<in> stored st. fsyms (db_heap st1 b)) = fact_claims st"
      unfolding fact_claims_def by (intro sum.cong) (use A(2) st1(2) in auto)
    then have claims: "fact_claims ?st2 = fsyms nf + fact_claims st"
      unfolding fact_claims_def [of ?st2] sto using fin A(2) st1(2) by simp
    have "fact_wf (db_heap st1 b)" if "b \<in> insert a (stored st)" for b
      using that wf d(5) A(2) st1(2) by auto
    then have "store_ok ?st2"
      unfolding store_ok_def sto using 2(2) hash hexa A st1(3) by simp
    then have "db_ok X ?st2"
      using ok syms claims st1(4) unfolding db_ok_def by (simp add: ac_simps)
    moreover have "index_get (fact_key nf) ?st2 = Some (Some (i, a))"
    proof -
      from index_get_stored [OF \<open>store_ok ?st2\<close>, of a] sto obtain j where
        j: "index_get (fact_key (db_heap ?st2 a)) ?st2 = Some (Some (j, a))" by blast
      have "set_get ?rd S' (fact_key nf) KEY_LEN = Some (Some j)"
        using j st1(2) by (simp add: index_get_def split: option.splits)
      with 2(4) have "i = j" by (simp add: key)
      with j st1(2) show ?thesis by simp
    qed
    moreover have "rest_of ?st2 = rest_of st"
      using st1(1,6) hash by (simp add: rest_of_def)
    moreover have "db_mem st1 = [] \<Longrightarrow> card (stored st) < 2 ^ 55 \<Longrightarrow> db_mem ?st2 = []"
      using room [OF _ _ 2(1)] by simp
    ultimately show ?thesis using run sto st1 by (intro indexed [of i ?st2]) simp_all
  qed
qed

lemma delete_fact_ok:
  assumes ok: "store_ok st" and a: "a \<notin> stored st" "a \<in> arena_live (db_arena st)"
  shows "store_ok (delete_fact a st)" "same_facts st (delete_fact a st)" "db_symbols (delete_fact a st) = db_symbols st"
    "db_mem (delete_fact a st) = db_mem st"
proof -
  note d = store_okD [OF ok]
  have "arena_ok (arena_free_fact (db_arena st) (Some a))"
    "arena_live (arena_free_fact (db_arena st) (Some a)) = arena_live (db_arena st) - {a}"
    using ar.release_live [OF d(3) a(2)] by auto
  then show "store_ok (delete_fact a st)"
    by (intro store_ok_change [OF ok]) (use d(4) a(1) in \<open>auto simp: delete_fact_def\<close>)
qed (simp_all add: delete_fact_def same_facts_def stored_def rest_of_def arena_free_fact_def)

lemma arena_alloc_ref_count: "arena_alloc_fact A h = (r, A', h') \<Longrightarrow> ref_count A' = ref_count A"
  by (auto simp: arena_alloc_fact_def split: prod.splits)

lemma new_fact_cases:
  assumes ok: "store_ok st"
  obtains (null) st' where "new_fact s p ob st = (None, st')" "store_ok st'" "same_facts st st'" "db_symbols st' = db_symbols st"
      "db_mem st \<noteq> []"
  | (fresh) a st' where "new_fact s p ob st = (Some a, st')" "store_ok st'" "same_facts st st'" "db_symbols st' = db_symbols st"
      "a \<notin> stored st" "a \<in> arena_live (db_arena st')" "db_index st' = db_index st" "db_hexastore st' = db_hexastore st"
      "db_heap st' = (db_heap st)(a := fact_init s p ob)" "db_mem st = [] \<Longrightarrow> db_mem st' = []"
proof -
  note d = store_okD [OF ok]
  show ?thesis
  proof (cases rule: arena_alloc_fact_cases [OF d(3), of "db_mem st"])
    case (1 A' h')
    let ?st' = "st\<lparr>db_arena := A', db_mem := h'\<rparr>"
    have "store_ok ?st'" by (rule store_ok_change [OF ok]) (use 1 d(4) in auto)
    moreover have "same_facts st ?st'"
      using arena_alloc_ref_count [OF 1(1)] by (simp add: same_facts_def stored_def rest_of_def)
    ultimately show ?thesis using 1 by (intro null [of ?st']) (simp_all add: new_fact_def)
  next
    case (2 a A' h')
    let ?st' = "st\<lparr>db_arena := A', db_mem := h', db_heap := (db_heap st)(a := fact_init s p ob)\<rparr>"
    have a: "a \<notin> stored st" using 2(3) d(4) by auto
    have "store_ok ?st'" by (rule store_ok_change [OF ok]) (use 2 d(4) a in auto)
    moreover have "same_facts st ?st'"
      using arena_alloc_ref_count [OF 2(1)] a by (auto simp: same_facts_def stored_def rest_of_def)
    ultimately show ?thesis using 2 a by (intro fresh [of a ?st']) (simp_all add: new_fact_def)
  qed
qed

lemma hexastore_insert_room:
  assumes ok: "hexa_ok hp A x" and new: "spo_key (hp a) \<notin> (spo_key \<circ> hp) ` A"
    and r: "hexastore_insert x a (hp a) [] = (r, x', h')"
  shows "r = 0 \<and> h' = []"
proof -
  note t = hexa_okD [OF ok] and new3 = keys_image [OF new]
  have "raxFind (trie_spo x) (spo_key (hp a)) = None" "raxFind (trie_pos x) (pos_key (hp a)) = None"
    "raxFind (trie_osp x) (osp_key (hp a)) = None"
    using new new3 trie_of_absent [OF t(1)] trie_of_absent [OF t(2)] trie_of_absent [OF t(3)] by simp_all
  with r show ?thesis by (simp add: hexastore_insert_def raxInsert_def)
qed

lemma facts_remove_found_unfold:
  assumes "facts_remove_found i a st = Some ((), st')"
  obtains st1 st2 where "index_remove i st = Some ((), st1)" "db_heap st1 = db_heap st"
    "unintern_fact (db_heap st a) (hexa_remove (db_heap st a) st1) = Some ((), st2)" "st' = delete_fact a st2"
proof -
  from assms obtain st1 where 1: "index_remove i st = Some ((), st1)"
    by (cases "index_remove i st") (auto simp: facts_remove_found_def)
  then have h: "db_heap st1 = db_heap st" by (cases "set_remove (db_index st) (Some (int i))") (auto simp: index_remove_def)
  from assms 1 h obtain st2 where "unintern_fact (db_heap st a) (hexa_remove (db_heap st a) st1) = Some ((), st2)"
    "st' = delete_fact a st2"
    by (cases "unintern_fact (db_heap st a) (hexa_remove (db_heap st a) st1)") (auto simp: facts_remove_found_def)
  with 1 h show ?thesis by (rule that)
qed

lemma insert_copy_owned:
  assumes ok: "db_ok X st" and own: "can_write st" and wf: "fact_wf (insert_copy_of f)"
    and held: "set_mset (fsyms f) \<subseteq> set_mset (fact_claims st + entry_claims (entries st) + X)"
    and new: "\<forall>b \<in> stored st. fact_key (db_heap st b) \<noteq> fact_key f"
  obtains (refused) st' where "facts_insert_fact_copy f rr st = Some (None, st')" "db_ok X st'" "same_facts st st'"
      "db_mem st = [] \<Longrightarrow> \<not> rr \<Longrightarrow> card (stored st) < 2 ^ 55 \<Longrightarrow>
        \<exists>y \<in># fact_claims st + entry_claims (entries st) + X. count (fact_claims st + entry_claims (entries st) + X) y \<ge> 2 ^ 64 - 4"
  | (inserted) a st' where "facts_insert_fact_copy f rr st = Some (Some a, st')" "db_ok X st'" "a \<notin> stored st"
      "stored st' = insert a (stored st)" "db_heap st' = (db_heap st)(a := insert_copy_of f)"
      "entries st' = entries st @ (if rr then pushed st ROLLBACK_REMOVE (insert_copy_of f) else [])"
      "db_log st' = db_log st" "rest_of st' = rest_of st"
      "db_mem st = [] \<Longrightarrow> \<not> rr \<Longrightarrow> card (stored st) < 2 ^ 55 \<Longrightarrow> db_mem st' = []"
proof -
  let ?nf = "insert_copy_of f"
  let ?C = "fact_claims st + entry_claims (entries st) + X"
  have sok: "store_ok st" using ok by (simp add: db_ok_def)
  have neg: "f_negated f = P_FIRST" using wf by (simp add: fact_wf_def)
  show ?thesis
  proof (cases rule: new_fact_cases [OF sok, of "f_s f" "f_p f" "f_o f", case_names null fresh])
    case (null st')
    have "db_ok X st'"
      by (rule db_ok_same_facts [OF ok null(3,2)]) (use db_ok_table [OF ok] null(4) in simp)
    with null show ?thesis by (intro refused [of st']) (simp_all add: facts_insert_fact_copy_def)
  next
    case (fresh a st1)
    let ?st1 = "st1\<lparr>db_heap := (db_heap st1)(a := ?nf)\<rparr>"
    have heap1: "db_heap ?st1 = (db_heap st)(a := ?nf)" by (simp add: fresh(9))
    have sf1: "same_facts st ?st1"
      using fresh(3,5) by (auto simp: same_facts_def stored_def rest_of_def)
    have sok1: "store_ok ?st1"
      by (rule store_ok_change [OF fresh(2)])
        (use fresh(3,5) store_okD(3,4) [OF fresh(2)] in \<open>auto simp: same_facts_def\<close>)
    have sto1: "stored ?st1 = stored st" using sf1 by (simp add: same_facts_def)
    have own1: "can_write ?st1" using same_facts_can_write [OF sf1] own by simp
    have syms1: "symbols_ok ?C (db_symbols ?st1)" using db_ok_table [OF ok] fresh(4) by simp
    have held1: "set_mset (fsyms ?nf) \<subseteq> set_mset ?C" using held by simp
    have cleanup: "db_ok X (delete_fact a st') \<and> same_facts st (delete_fact a st')"
      if "same_store ?st1 st'" "entries st' = entries ?st1" "symbols_ok ?C (db_symbols st')" for st'
    proof -
      have sf: "same_facts st st'" using same_facts_trans [OF sf1 same_store_same_facts [OF that(1,2)]] .
      have so: "store_ok st'" "stored st' = stored st"
        using same_store_facts [OF that(1)] sok1 sto1 by simp_all
      have live: "a \<in> arena_live (db_arena st')" using that(1) fresh(6) by (simp add: same_store_def)
      note df = delete_fact_ok [OF so(1), of a]
      have "db_ok X (delete_fact a st')"
        by (rule db_ok_same_facts [OF ok same_facts_trans [OF sf df(2)] df(1)]) (use so live fresh(5) df(3) that(3) in auto)
      with sf df(2) so live fresh(5) show ?thesis using same_facts_trans by auto
    qed
    show ?thesis
    proof (cases rule: intern_three_owned [OF syms1 own1 held1, case_names no_syms syms])
      case (no_syms trio st2 st')
      have run: "facts_insert_fact_copy f rr st = Some (None, delete_fact a st')"
        using fresh(1) no_syms(1-3) by (simp add: facts_insert_fact_copy_def Let_def)
      show ?thesis
        by (rule refused [OF run])
          (use cleanup [OF symbols_only_same_store [OF no_syms(4)] symbols_only_same(3) [OF no_syms(4)] no_syms(5)]
             no_syms(6) in blast)+
    next
      case (syms st2)
      note so = symbols_only_same [OF syms(3)]
      have mem2: "db_mem st = [] \<Longrightarrow> db_mem st2 = []" using fresh(10) syms(5) by simp
      have own2: "can_write st2" using own1 so(5) by (simp add: can_write_def)
      have hexa: "hexa_ok (db_heap st2) (stored st) (db_hexastore st2)"
        using store_okD(2) [OF sok1] so(2,10) sto1 by simp
      have "spo_key ?nf \<notin> (spo_key \<circ> db_heap st2) ` stored st"
        using spo_key_new [OF ok held new neg] heap1 so(2) fresh(5) by (auto simp: image_iff)
      moreover have nf2: "db_heap st2 a = ?nf" using so(2) heap1 by simp
      ultimately have nospo: "spo_key (db_heap st2 a) \<notin> (spo_key \<circ> db_heap st2) ` stored st" by simp
      show ?thesis
      proof (cases rule: hexastore_insert_new [OF hexa nospo, of "db_mem st2", case_names hin hfail])
        case (hfail h')
        let ?st3 = "st2\<lparr>db_mem := h'\<rparr>"
        have "symbols_ok (fsyms ?nf + ?C) (db_symbols ?st3)" using syms(4) by simp
        from unintern_fact_owned [OF this] own2 obtain st4 where 4: "unintern_fact ?nf ?st3 = Some ((), st4)"
          "symbols_only ?st3 st4" "symbols_ok ?C (db_symbols st4)" by auto
        have upd: "st2\<lparr>db_hexastore := db_hexastore st2, db_mem := h'\<rparr> = ?st3" by (cases st2) simp
        have run: "facts_insert_fact_copy f rr st = Some (None, delete_fact a st4)"
          using fresh(1) syms(1,2) hfail nf2 4(1) upd
          by (simp add: facts_insert_fact_copy_def Let_def)
        have "same_store ?st1 ?st3" using symbols_only_same_store [OF syms(3)] by (simp add: same_store_def rest_of_def)
        then have "same_store ?st1 st4" using symbols_only_same_store [OF 4(2)] same_store_trans by blast
        moreover have "entries st4 = entries ?st1" using symbols_only_same(3) [OF 4(2)] so(3) by simp
        moreover have "db_mem st \<noteq> []"
        proof
          assume "db_mem st = []"
          then have "db_mem st2 = []" by (rule mem2)
          with hfail have "hexastore_insert (db_hexastore st2) a (db_heap st2 a) [] = (- 1, db_hexastore st2, h')" by simp
          from hexastore_insert_room [OF hexa nospo this] show False by simp
        qed
        ultimately show ?thesis using cleanup [OF _ _ 4(3)] by (intro refused [OF run]) blast+
      next
        case (hin x' h')
        let ?st3 = "st2\<lparr>db_hexastore := x', db_mem := h'\<rparr>"
        have mem3: "db_mem st = [] \<Longrightarrow> db_mem ?st3 = []"
          using mem2 hexastore_insert_room [OF hexa nospo, of 0 x' h'] hin(1) by auto
        have same3: "db_index ?st3 = db_index st" "db_heap ?st3 = (db_heap st)(a := ?nf)"
          "db_arena ?st3 = db_arena st1" "entries ?st3 = entries st" "db_log ?st3 = db_log st" "rest_of ?st3 = rest_of st"
          using so(2,3,7,8,9,11) heap1 fresh(7) sf1 by (simp_all add: same_facts_def rest_of_def)
        have hexa3: "hexa_ok (db_heap ?st3) (insert a (stored st)) (db_hexastore ?st3)" using hin(2) by simp
        have syms3: "symbols_ok (fsyms ?nf + ?C) (db_symbols ?st3)" using syms(4) by simp
        have new': "\<forall>b \<in> stored st. fact_key (db_heap st b) \<noteq> fact_key ?nf" using new by simp
        have arena: "arena_ok (db_arena st1)" "stored st \<subseteq> arena_live (db_arena st1)"
          using store_okD(3,4) [OF sok1] sto1 by simp_all
        show ?thesis
        proof (cases rule: insert_indexed [OF ok arena(1) fresh(5,6) arena(2) wf new' same3 hexa3 syms3,
              case_names refused_index indexed])
          case (refused_index h4)
          let ?st4 = "?st3\<lparr>db_mem := h4\<rparr>"
          have unhexa: "hexastore_remove x' ?nf = db_hexastore st2"
            using hexa_insert_remove [OF hexa hin(2) fresh(5)] nf2 by simp
          let ?st5 = "st2\<lparr>db_mem := h4\<rparr>"
          have rem: "hexa_remove ?nf ?st4 = ?st5" using unhexa by (cases st2) (simp add: hexa_remove_def)
          have "symbols_ok (fsyms ?nf + ?C) (db_symbols ?st5)" using syms(4) by simp
          from unintern_fact_owned [OF this] own2 obtain st6 where 6: "unintern_fact ?nf ?st5 = Some ((), st6)"
            "symbols_only ?st5 st6" "symbols_ok ?C (db_symbols st6)" by auto
          have run: "facts_insert_fact_copy f rr st = Some (None, delete_fact a st6)"
            using fresh(1) syms(1,2) hin(1) nf2 6(1) rem refused_index(1)
            by (simp add: facts_insert_fact_copy_def Let_def)
          have "same_store ?st1 ?st5" using symbols_only_same_store [OF syms(3)] by (simp add: same_store_def rest_of_def)
          then have "same_store ?st1 st6" using symbols_only_same_store [OF 6(2)] same_store_trans by blast
          moreover have "entries st6 = entries ?st1" using symbols_only_same(3) [OF 6(2)] so(3) by simp
          ultimately show ?thesis
            using cleanup [OF _ _ 6(3)] refused_index(2) mem3 by (intro refused [OF run]) blast+
        next
          case (indexed i st4)
          have run4: "facts_insert_fact_copy f rr st = (if rr then do {
                (ok, st) \<leftarrow> transaction_rollback_push ROLLBACK_REMOVE ?nf st4;
                if ok then Some (Some a, st)
                else do { (_, st) \<leftarrow> index_remove i st;
                          (_, st) \<leftarrow> unintern_fact ?nf (hexa_remove ?nf st);
                          Some (None, delete_fact a st) } } else Some (Some a, st4))"
            using fresh(1) syms(1,2) hin(1) nf2 indexed(1)
            by (simp add: facts_insert_fact_copy_def Let_def)
          have heap4: "db_heap st4 = (db_heap st)(a := ?nf)" using indexed(4) same3(2) by simp
          have tx4: "can_write st4" "tx_level (db_tx st4) = tx_level (db_tx st)"
            using rest_of_can_write [OF indexed(8)] rest_of_tx(2) [OF indexed(8)] own by simp_all
          show ?thesis
          proof (cases rr)
            case False
            then show ?thesis
              using run4 indexed(2,3,6,7,8,10) fresh(5) heap4 mem3 by (intro inserted [of a st4]) simp_all
          next
            case True
            have "y \<in># fact_claims st4" if "y \<in># fsyms ?nf" for y
              using stored_held(2) [OF indexed(2), of a y] that indexed(3) heap4 by simp
            then have held4: "set_mset (fsyms ?nf) \<subseteq> set_mset (fact_claims st4 + entry_claims (entries st4) + X)" by auto
            show ?thesis
            proof (cases rule: rollback_push_owned [OF indexed(2) tx4(1) wf held4, of ROLLBACK_REMOVE, case_names rrefused rdone])
              case (rdone st5)
              have same: "stored st5 = stored st4" "db_heap st5 = db_heap st4" "db_log st5 = db_log st4" "rest_of st5 = rest_of st4"
                using same_store_facts(1) [OF rdone(3)] rdone(3) by (simp_all add: same_store_def)
              have "entries st5 = entries st @ pushed st ROLLBACK_REMOVE ?nf"
                using rdone(4) indexed(6) tx4(2) by (simp add: pushed_def)
              then show ?thesis
                using run4 True rdone(1,2) fresh(5) indexed(3,7,8) heap4 same by (intro inserted [of a st5]) simp_all
            next
              case (rrefused st5)
              have same: "stored st5 = insert a (stored st)" "db_heap st5 = (db_heap st)(a := ?nf)" "db_index st5 = db_index st4"
                "db_log st5 = db_log st" "rest_of st5 = rest_of st" "entries st5 = entries st"
                using same_store_facts(1) [OF rrefused(3)] rrefused(3,4) indexed heap4 by (simp_all add: same_store_def)
              have own5: "can_write st5" using rest_of_can_write [OF same(5)] own by simp
              have "a \<in> stored st5" using same(1) by simp
              from remove_found_owned [OF rrefused(2) own5 this] obtain i' st6 where 6:
                "index_get (fact_key (db_heap st5 a)) st5 = Some (Some (i', a))" "facts_remove_found i' a st5 = Some ((), st6)"
                "db_ok X st6" "stored st6 = stored st5 - {a}" "db_heap st6 = db_heap st5" "entries st6 = entries st5"
                "db_log st6 = db_log st5" "rest_of st6 = rest_of st5" by blast
              have "index_get (fact_key ?nf) st5 = index_get (fact_key ?nf) st4"
                unfolding index_get_def same(2,3) heap4 ..
              with 6(1) indexed(5) same(2) have "i' = i" by simp
              with 6(2) same(2) have "facts_remove_found i a st5 = Some ((), st6)" by simp
              from facts_remove_found_unfold [OF this] same(2)
              have "facts_insert_fact_copy f rr st = Some (None, st6)"
                unfolding run4 using True rrefused(1) by fastforce
              moreover have "same_facts st st6"
                using 6(4-8) same fresh(5) by (simp add: same_facts_def)
              ultimately show ?thesis using 6(3) True by (intro refused [of st6]) simp_all
            qed
          qed
        qed
      qed
    qed
  qed
qed

end
