(* ===== verification/Facts_Spec.thy ===== *)
theory Facts_Spec
  imports Facts_Ops
begin

text \<open>
  The abstract contents of a database, a map from triples of strings to the two kinds of
  support, and what the operations of \<^verbatim>\<open>lib/facts.c\<close> do to it.
\<close>

section \<open>Contents\<close>

type_synonym triple = "cstr \<times> cstr \<times> cstr"
type_synonym contents = "triple \<rightharpoonup> nat \<times> nat"

definition triple_of :: "fact \<Rightarrow> triple" where
  "triple_of f = (sym_data (f_s f), sym_data (f_p f), sym_data (f_o f))"

definition supp_of :: "fact \<Rightarrow> nat \<times> nat" where
  "supp_of f = (asserted_count f, derived_count f)"

text \<open>The facts in the slots of the index, in slot order; no lookup is used to say what is stored.\<close>

definition stored_facts :: "facts \<Rightarrow> fact list" where
  "stored_facts st =
     map (\<lambda>it. db_heap st (the (it_data it))) (filter (\<lambda>it. occ it \<and> it_data it \<noteq> None) (set_items (db_index st)))"

definition contents :: "facts \<Rightarrow> contents" where
  "contents st = map_of (map (\<lambda>f. (triple_of f, supp_of f)) (stored_facts st))"

lemma set_stored_facts: "set (stored_facts st) = db_heap st ` stored st"
proof -
  have "stored st = (\<lambda>it. the (it_data it)) ` {it \<in> set (set_items (db_index st)). occ it \<and> it_data it \<noteq> None}"
    by (auto simp: stored_def ptr_elems_def set_content_def occ_items_def image_iff) (metis option.sel)
  then show ?thesis by (simp add: stored_facts_def image_image)
qed

lemma contents_frame:
  assumes "db_index st' = db_index st" "db_heap st' = db_heap st"
  shows "contents st' = contents st"
  using assms by (simp add: contents_def stored_facts_def)

lemma stored_symbol:
  assumes ok: "db_ok X st" and a: "a \<in> stored st" and y: "y \<in># fsyms (db_heap st a)"
  shows "intern_find_symbol_str (db_symbols st) (sym_data y) = y" "y \<noteq> P_FIRST"
    "symbol_to_str y = Some (sym_data y)"
proof -
  note t = symbols_okD [OF db_ok_table [OF ok]]
  have h: "0 < held (db_symbols st) y" using stored_held(1) [OF ok a y] .
  show "intern_find_symbol_str (db_symbols st) (sym_data y) = y" by (rule find_symbol_held(1) [OF t(1) h])
  show "y \<noteq> P_FIRST" using h by auto
  show "symbol_to_str y = Some (sym_data y)" by (rule held_data [OF t(1) h])
qed

lemma db_ok_store: "db_ok X st \<Longrightarrow> store_ok st"
  by (simp add: db_ok_def)

lemma db_ok_wf: "db_ok X st \<Longrightarrow> a \<in> stored st \<Longrightarrow> fact_wf (db_heap st a)"
  using store_okD(5) [OF db_ok_store] .

lemma lookup_cases:
  assumes ok: "db_ok X st"
  obtains (absent) "facts_lookup_spo_locked s p ob st = Some (None, st)" "\<forall>a \<in> stored st. triple_of (db_heap st a) \<noteq> (s, p, ob)"
  | (found) a where "facts_lookup_spo_locked s p ob st = Some (Some a, st)" "a \<in> stored st"
      "triple_of (db_heap st a) = (s, p, ob)"
proof -
  note t = symbols_okD [OF db_ok_table [OF ok]]
  let ?find = "intern_find_symbol_str (db_symbols st)"
  have own: "?find (sym_data (f_s f)) = f_s f \<and> ?find (sym_data (f_p f)) = f_p f \<and> ?find (sym_data (f_o f)) = f_o f
      \<and> f_s f \<noteq> P_FIRST \<and> f_p f \<noteq> P_FIRST \<and> f_o f \<noteq> P_FIRST"
    if "a \<in> stored st" "f = db_heap st a" for a f
    using stored_symbol(1,2) [OF ok that(1)] that(2) by (simp add: fsyms_def)
  show ?thesis
  proof (cases "some_null (?find s, ?find p, ?find ob)")
    case True
    then have "facts_lookup_spo_locked s p ob st = Some (None, st)"
      by (simp add: facts_lookup_spo_locked_def)
    moreover have "triple_of (db_heap st a) \<noteq> (s, p, ob)" if "a \<in> stored st" for a
      using own [OF that refl] True by (auto simp: triple_of_def some_null_def)
    ultimately show ?thesis using absent by blast
  next
    case False
    let ?k = "(?find s, ?find p, ?find ob, P_FIRST)"
    have look: "facts_lookup_spo_locked s p ob st = map_option (\<lambda>si. (map_option snd si, st)) (index_get ?k st)"
      using False by (cases "index_get ?k st") (simp_all add: facts_lookup_spo_locked_def)
    have data: "sym_data (?find x) = x" if "?find x \<noteq> P_FIRST" for x
      using find_symbol_held(2) [OF t(1) that] by simp
    have key: "fact_key (db_heap st a) = ?k \<longleftrightarrow> triple_of (db_heap st a) = (s, p, ob)" if a: "a \<in> stored st" for a
    proof
      assume "fact_key (db_heap st a) = ?k"
      then show "triple_of (db_heap st a) = (s, p, ob)"
        using data [of s] data [of p] data [of ob] False by (simp add: fact_key_def triple_of_def some_null_def)
    next
      assume "triple_of (db_heap st a) = (s, p, ob)"
      then show "fact_key (db_heap st a) = ?k"
        using own [OF a refl] db_ok_wf [OF ok a] by (auto simp: fact_key_def triple_of_def fact_wf_def)
    qed
    show ?thesis
    proof (cases rule: index_get_cases [OF db_ok_store [OF ok], of ?k, case_names none some])
      case none
      then have "facts_lookup_spo_locked s p ob st = Some (None, st)" by (simp add: look)
      moreover have "\<forall>a \<in> stored st. triple_of (db_heap st a) \<noteq> (s, p, ob)" using none(2) key by blast
      ultimately show ?thesis by (rule absent)
    next
      case (some i a)
      have "facts_lookup_spo_locked s p ob st = Some (Some a, st)" by (simp add: look some(1))
      moreover have "triple_of (db_heap st a) = (s, p, ob)" using key [OF some(2)] some(3) by blast
      ultimately show ?thesis using some(2) by (intro found [of a])
    qed
  qed
qed

lemma triple_inj:
  assumes ok: "db_ok X st" and ab: "a \<in> stored st" "b \<in> stored st" "triple_of (db_heap st a) = triple_of (db_heap st b)"
  shows "a = b"
proof -
  have "f_s (db_heap st a) = f_s (db_heap st b)" "f_p (db_heap st a) = f_p (db_heap st b)" "f_o (db_heap st a) = f_o (db_heap st b)"
    using ab(3) stored_symbol(1) [OF ok ab(1)] stored_symbol(1) [OF ok ab(2)]
    by (simp_all add: triple_of_def fsyms_def, metis+)
  then have "fact_key (db_heap st a) = fact_key (db_heap st b)"
    using db_ok_wf [OF ok ab(1)] db_ok_wf [OF ok ab(2)] by (simp add: fact_key_def fact_wf_def)
  then show ?thesis by (rule fact_key_inj [OF db_ok_store [OF ok] ab(1,2)])
qed

lemma contents_iff:
  assumes ok: "db_ok X st"
  shows "contents st t = Some v \<longleftrightarrow> (\<exists>a \<in> stored st. triple_of (db_heap st a) = t \<and> supp_of (db_heap st a) = v)"
proof
  assume "contents st t = Some v"
  then have "(t, v) \<in> set (map (\<lambda>f. (triple_of f, supp_of f)) (stored_facts st))"
    unfolding contents_def by (rule map_of_SomeD)
  then show "\<exists>a \<in> stored st. triple_of (db_heap st a) = t \<and> supp_of (db_heap st a) = v"
    by (auto simp: set_stored_facts)
next
  assume "\<exists>a \<in> stored st. triple_of (db_heap st a) = t \<and> supp_of (db_heap st a) = v"
  then obtain a where a: "a \<in> stored st" "triple_of (db_heap st a) = t" "supp_of (db_heap st a) = v" by blast
  then have "(t, v) \<in> set (map (\<lambda>f. (triple_of f, supp_of f)) (stored_facts st))"
    by (auto simp: set_stored_facts)
  then obtain w where w: "contents st t = Some w" unfolding contents_def by (meson weak_map_of_SomeI)
  then have "(t, w) \<in> set (map (\<lambda>f. (triple_of f, supp_of f)) (stored_facts st))"
    unfolding contents_def by (rule map_of_SomeD)
  then obtain b where "b \<in> stored st" "triple_of (db_heap st b) = t" "supp_of (db_heap st b) = w"
    by (auto simp: set_stored_facts)
  with triple_inj [OF ok a(1), of b] a w show "contents st t = Some v" by simp
qed

lemma contents_stored:
  assumes "db_ok X st" "a \<in> stored st"
  shows "contents st (triple_of (db_heap st a)) = Some (supp_of (db_heap st a))"
  using contents_iff [OF assms(1)] assms(2) by blast

lemma contents_absent:
  assumes "db_ok X st"
  shows "contents st t = None \<longleftrightarrow> (\<forall>a \<in> stored st. triple_of (db_heap st a) \<noteq> t)"
  using contents_iff [OF assms, of t] contents_stored [OF assms] by (metis not_None_eq)

text \<open>What the lookup of the code finds, in terms of the contents.\<close>

lemma lookup_contents:
  assumes ok: "db_ok X st"
  obtains (absent) "facts_lookup_spo_locked s p ob st = Some (None, st)" "contents st (s, p, ob) = None"
  | (found) a where "facts_lookup_spo_locked s p ob st = Some (Some a, st)" "a \<in> stored st"
      "triple_of (db_heap st a) = (s, p, ob)" "contents st (s, p, ob) = Some (supp_of (db_heap st a))"
proof (cases rule: lookup_cases [OF ok, of s p ob, case_names no yes])
  case no
  then show thesis using absent contents_absent [OF ok] by simp
next
  case (yes a)
  then show thesis using found contents_stored [OF ok yes(2)] by simp
qed

text \<open>How the contents follow the facts in memory.\<close>

lemma contents_same:
  assumes "db_ok X st" "db_ok Y st'" "same_facts st st'"
  shows "contents st' = contents st"
  by (rule ext, rule option_eqI)
    (use assms(3) in \<open>auto simp: contents_iff [OF assms(1)] contents_iff [OF assms(2)] same_facts_def\<close>)

lemma contents_cong:
  assumes "db_ok X st" "db_ok Y st'" "stored st' = stored st" "db_heap st' = db_heap st"
  shows "contents st' = contents st"
  by (rule ext, rule option_eqI)
    (use assms(3,4) in \<open>auto simp: contents_iff [OF assms(1)] contents_iff [OF assms(2)]\<close>)

lemma contents_insert:
  assumes ok: "db_ok X st" "db_ok Y st'" and a: "a \<notin> stored st" "stored st' = insert a (stored st)"
    and heap: "db_heap st' = (db_heap st)(a := f)"
  shows "contents st' = (contents st)(triple_of f \<mapsto> supp_of f)" "contents st (triple_of f) = None"
proof -
  have old: "db_heap st' b = db_heap st b" if "b \<in> stored st" for b using that a(1) heap by auto
  have new: "db_heap st' a = f" using heap by simp
  have ne: "triple_of (db_heap st b) \<noteq> triple_of f" if "b \<in> stored st" for b
    using triple_inj [OF ok(2), of b a] that a old [OF that] new by auto
  then show "contents st (triple_of f) = None" unfolding contents_absent [OF ok(1)] by blast
  show "contents st' = (contents st)(triple_of f \<mapsto> supp_of f)"
    by (rule ext, rule option_eqI)
      (use a ne old new in \<open>auto simp: contents_iff [OF ok(1)] contents_iff [OF ok(2)]\<close>)
qed

lemma contents_delete:
  assumes ok: "db_ok X st" "db_ok Y st'" and a: "a \<in> stored st" "stored st' = stored st - {a}"
    and heap: "db_heap st' = db_heap st"
  shows "contents st' = (contents st)(triple_of (db_heap st a) := None)"
proof (rule ext, rule option_eqI)
  fix t v
  have "b = a" if "b \<in> stored st" "triple_of (db_heap st b) = triple_of (db_heap st a)" for b
    using triple_inj [OF ok(1) that(1) a(1) that(2)] .
  then show "contents st' t = Some v \<longleftrightarrow> ((contents st)(triple_of (db_heap st a) := None)) t = Some v"
    using a heap by (auto simp: contents_iff [OF ok(1)] contents_iff [OF ok(2)])
qed

lemma contents_update:
  assumes ok: "db_ok X st" "db_ok Y st'" and a: "a \<in> stored st" "stored st' = stored st"
    and heap: "db_heap st' = (db_heap st)(a := f)" and f: "triple_of f = triple_of (db_heap st a)"
  shows "contents st' = (contents st)(triple_of f \<mapsto> supp_of f)"
proof (rule ext, rule option_eqI)
  fix t v
  have "b = a" if "b \<in> stored st" "triple_of (db_heap st b) = triple_of f" for b
    using triple_inj [OF ok(1) that(1) a(1)] that(2) f by simp
  then show "contents st' t = Some v \<longleftrightarrow> ((contents st)(triple_of f \<mapsto> supp_of f)) t = Some v"
    using a heap f by (cases "t = triple_of f") (auto simp: contents_iff [OF ok(1)] contents_iff [OF ok(2)] intro!: bexI)
qed

section \<open>The abstract operations\<close>

fun get_sup :: "e_fact_origin \<Rightarrow> nat \<times> nat \<Rightarrow> nat" where
  "get_sup FACT_ORIGIN_ASSERTED (a, d) = a"
| "get_sup FACT_ORIGIN_DERIVED (a, d) = d"

fun set_sup :: "e_fact_origin \<Rightarrow> nat \<Rightarrow> nat \<times> nat \<Rightarrow> nat \<times> nat" where
  "set_sup FACT_ORIGIN_ASSERTED n (a, d) = (n, d)"
| "set_sup FACT_ORIGIN_DERIVED n (a, d) = (a, n)"

definition sp_add :: "e_fact_origin \<Rightarrow> triple \<Rightarrow> contents \<Rightarrow> contents" where
  "sp_add og t m = m(t \<mapsto> set_sup og 1 (case m t of None \<Rightarrow> (0, 0) | Some v \<Rightarrow> v))"

definition sp_remove :: "e_fact_origin \<Rightarrow> triple \<Rightarrow> contents \<Rightarrow> contents" where
  "sp_remove og t m =
     (case m t of
        None \<Rightarrow> m
      | Some v \<Rightarrow> if get_sup og v = 0 then m
                  else if fst v + snd v > 1 then m(t \<mapsto> set_sup og 0 v) else m(t := None))"

text \<open>What a rollback entry undoes, and when the code does it.\<close>

definition undo :: "rollback_entry \<Rightarrow> contents \<Rightarrow> contents" where
  "undo e m =
     (let t = triple_of (re_fact e) in
      case re_action e of ROLLBACK_REMOVE \<Rightarrow> m(t := None) | _ \<Rightarrow> m(t \<mapsto> supp_of (re_fact e)))"

definition applies :: "rollback_entry \<Rightarrow> contents \<Rightarrow> bool" where
  "applies e m \<longleftrightarrow> (m (triple_of (re_fact e)) = None \<longleftrightarrow> re_action e = ROLLBACK_ADD)"

text \<open>A step of a transaction: no change, or a change with the entry that undoes it.\<close>

definition logged :: "facts \<Rightarrow> facts \<Rightarrow> bool" where
  "logged st st' \<longleftrightarrow>
     (contents st' = contents st \<and> entries st' = entries st) \<or>
     (\<exists>act f. entries st' = entries st @ pushed st act f \<and> applies \<lparr>re_action = act, re_fact = f\<rparr> (contents st') \<and>
        undo \<lparr>re_action = act, re_fact = f\<rparr> (contents st') = contents st)"

section \<open>Small steps\<close>

lemma owning_ok [simp]:
  "db_ok X (owning st) = db_ok X st" "stored (owning st) = stored st" "contents (owning st) = contents st"
  "fact_claims (owning st) = fact_claims st" "pushed (owning st) act f = pushed st act f"
proof -
  show "db_ok X (owning st) = db_ok X st" "stored (owning st) = stored st" "fact_claims (owning st) = fact_claims st"
    "pushed (owning st) act f = pushed st act f"
    by (simp_all add: db_ok_def store_ok_def stored_def fact_claims_def pushed_def)
  show "contents (owning st) = contents st" by (rule contents_frame) simp_all
qed

lemma give_back_ok [simp]:
  "db_ok X (give_back st st') = db_ok X st'" "stored (give_back st st') = stored st'" "contents (give_back st st') = contents st'"
  "db_heap (give_back st st') = db_heap st'" "entries (give_back st st') = entries st'" "db_log (give_back st st') = db_log st'"
  "db_mem (give_back st st') = db_mem st'" "db_symbols (give_back st st') = db_symbols st'"
proof -
  show "db_ok X (give_back st st') = db_ok X st'" "stored (give_back st st') = stored st'"
    "db_heap (give_back st st') = db_heap st'" "entries (give_back st st') = entries st'" "db_log (give_back st st') = db_log st'"
    "db_mem (give_back st st') = db_mem st'" "db_symbols (give_back st st') = db_symbols st'"
    by (simp_all add: give_back_def db_ok_def store_ok_def stored_def fact_claims_def)
  show "contents (give_back st st') = contents st'" by (rule contents_frame) (simp_all add: give_back_def)
qed

lemma give_back_rest:
  assumes "can_write st" "rest_of st' = rest_of (owning st)"
  shows "rest_of (give_back st st') = rest_of st"
  using assms by (auto simp: give_back_def owning_def rest_of_def tx_rest_def can_write_def)

lemma give_back_same: "can_write st \<Longrightarrow> same_facts (owning st) st' \<Longrightarrow> same_facts st (give_back st st')"
  using give_back_rest [of st st'] by (simp add: same_facts_def)

text \<open>Writing to the log changes nothing else.\<close>

lemma db_ok_log [simp]: "db_ok X (st\<lparr>db_log := l\<rparr>) = db_ok X st"
  by (simp add: db_ok_def store_ok_def stored_def fact_claims_def)

lemma log_fact_ok:
  assumes "\<And>y. y \<in># fsyms f \<Longrightarrow> symbol_to_str y = Some (sym_data y)"
  obtains l where "log_fact oper f st = Some ((), st\<lparr>db_log := l\<rparr>)"
proof -
  obtain x where "write_fact_log oper f = Some x"
    using assms by (simp add: write_fact_log_def write_fact_def fsyms_def)
  moreover have "st\<lparr>db_log := None\<rparr> = st" if "db_log st = None" using that by (cases st) simp
  ultimately show ?thesis
    using that [of None] that [of "Some (the (db_log st) @ x)"] by (cases "db_log st") (simp_all add: log_fact_def)
qed

lemma log_asserted_ok:
  assumes "\<And>y. y \<in># fsyms f \<Longrightarrow> symbol_to_str y = Some (sym_data y)"
  obtains l where "log_asserted og oper f st = Some ((), st\<lparr>db_log := l\<rparr>)"
proof (cases "og = FACT_ORIGIN_ASSERTED")
  case True
  obtain l where "log_fact oper f st = Some ((), st\<lparr>db_log := l\<rparr>)" by (rule log_fact_ok [OF assms])
  with that True show ?thesis by (auto simp: log_asserted_def)
next
  case False
  have "st\<lparr>db_log := db_log st\<rparr> = st" by (cases st) simp
  with False show ?thesis by (intro that [of "db_log st"]) (simp add: log_asserted_def)
qed

text \<open>Changing the support of a stored fact.\<close>

lemma update_fact_ok:
  assumes ok: "db_ok X st" and a: "a \<in> stored st" and wf: "fact_wf (u (db_heap st a))"
    and same: "f_s (u (db_heap st a)) = f_s (db_heap st a)" "f_p (u (db_heap st a)) = f_p (db_heap st a)"
      "f_o (u (db_heap st a)) = f_o (db_heap st a)"
  shows "db_ok X (update_fact a u st)" "stored (update_fact a u st) = stored st"
    "db_heap (update_fact a u st) = (db_heap st)(a := u (db_heap st a))" "entries (update_fact a u st) = entries st"
    "db_log (update_fact a u st) = db_log st" "rest_of (update_fact a u st) = rest_of st"
    "db_mem (update_fact a u st) = db_mem st"
    "contents (update_fact a u st) = (contents st)(triple_of (db_heap st a) \<mapsto> supp_of (u (db_heap st a)))"
proof -
  let ?st' = "update_fact a u st"
  let ?f = "db_heap st a"
  note d = store_okD [OF db_ok_store [OF ok]]
  show sto: "stored ?st' = stored st" and heap: "db_heap ?st' = (db_heap st)(a := u ?f)"
    and "entries ?st' = entries st" "db_log ?st' = db_log st" "rest_of ?st' = rest_of st" "db_mem ?st' = db_mem st"
    by (simp_all add: update_fact_def stored_def rest_of_def)
  have key: "fact_key (u ?f) = fact_key ?f"
    using same wf db_ok_wf [OF ok a] by (simp add: fact_key_def fact_wf_def)
  have "ptr_inv (index_rd (db_heap ?st')) (set_hash (db_index st)) KEY_LEN (db_index st)"
    by (rule ptr_inv_cong [OF d(1)]) (simp add: heap index_rd_def key)
  moreover have "hexa_ok (db_heap ?st') (stored st) (db_hexastore st)"
  proof -
    have "k \<circ> db_heap ?st' = k \<circ> db_heap st" if "k (u ?f) = k ?f" for k :: "fact \<Rightarrow> byte list"
      using that heap by (simp add: fun_eq_iff)
    then show ?thesis using d(2) same unfolding hexa_ok_def
      by (simp add: spo_key_def pos_key_def osp_key_def)
  qed
  ultimately have "store_ok ?st'"
    using d(3-5) wf sto heap by (simp add: store_ok_def update_fact_def)
  moreover have "fact_claims ?st' = fact_claims st"
    unfolding fact_claims_def sto using heap same by (intro sum.cong) (simp_all add: fsyms_def)
  ultimately show ok': "db_ok X ?st'" using ok by (simp add: db_ok_def update_fact_def)
  have "triple_of (u ?f) = triple_of ?f" using same by (simp add: triple_of_def)
  with contents_update [OF ok ok' a sto heap]
  show "contents ?st' = (contents st)(triple_of ?f \<mapsto> supp_of (u ?f))" by simp
qed

lemma set_support_simps [simp]:
  "f_s (set_support og n f) = f_s f" "f_p (set_support og n f) = f_p f" "f_o (set_support og n f) = f_o f"
  "supp_of (set_support og n f) = set_sup og n (supp_of f)" "support_of og f = get_sup og (supp_of f)"
  by (cases og; simp add: set_support_def Let_def supp_of_def support_of_def)+

lemma set_support_wf:
  "fact_wf f \<Longrightarrow> n \<le> 1 \<Longrightarrow> 0 < fst (set_sup og n (supp_of f)) + snd (set_sup og n (supp_of f)) \<Longrightarrow> fact_wf (set_support og n f)"
  by (cases og) (auto simp: fact_wf_def set_support_def Let_def supp_of_def)

section \<open>Adding a fact\<close>

lemma set_sup_same: "v = (a, d) \<Longrightarrow> get_sup og v = n \<Longrightarrow> set_sup og n v = v"
  by (cases og) auto

lemma get_sup_le:
  assumes "fact_wf f"
  shows "get_sup og (supp_of f) \<le> 1"
  using assms by (cases og) (auto simp: fact_wf_def supp_of_def)

lemma fact_set_origin_simps [simp]:
  "f_s (fact_set_origin og f) = f_s f" "f_p (fact_set_origin og f) = f_p f" "f_o (fact_set_origin og f) = f_o f"
  "f_negated (fact_set_origin og f) = f_negated f" "fact_key (fact_set_origin og f) = fact_key f"
  "fsyms (fact_set_origin og f) = fsyms f" "triple_of (fact_set_origin og f) = triple_of f"
  "supp_of (fact_set_origin og f) = set_sup og 1 (0, 0)"
  by (cases og; simp add: fact_set_origin_def Let_def fact_key_def fsyms_def triple_of_def supp_of_def)+

lemma insert_copy_supp [simp]: "supp_of (insert_copy_of f) = supp_of f" "triple_of (insert_copy_of f) = triple_of f"
  by (simp_all add: supp_of_def triple_of_def)

lemma insert_copy_wf:
  "f_negated f = P_FIRST \<Longrightarrow> asserted_count f \<le> 1 \<Longrightarrow> derived_count f \<le> 1 \<Longrightarrow> 0 < asserted_count f + derived_count f \<Longrightarrow>
   fact_wf (insert_copy_of f)"
  by (simp add: fact_wf_def) (simp add: insert_copy_of_def)

lemma fact_set_origin_wf: "f_negated f = P_FIRST \<Longrightarrow> fact_wf (insert_copy_of (fact_set_origin og f))"
  by (rule insert_copy_wf) (cases og; simp add: fact_set_origin_def Let_def)+

lemma triple_of_key: "fact_key f = fact_key g \<Longrightarrow> triple_of f = triple_of g"
  by (simp add: fact_key_def triple_of_def)

lemma logged_refl: "contents st' = contents st \<Longrightarrow> entries st' = entries st \<Longrightarrow> logged st st'"
  by (simp add: logged_def)

lemma stored_fsyms:
  assumes "db_ok X st" "a \<in> stored st"
  shows "set_mset (fsyms (db_heap st a)) \<subseteq> set_mset (fact_claims st + entry_claims (entries st) + X)"
  using stored_held(2) [OF assms] by auto

text \<open>Both adding and removing support of a stored fact push its old state, log and change it.\<close>

lemma change_support:
  assumes ok: "db_ok X st" and w: "can_write st" and a: "a \<in> stored st" and n: "n \<le> 1"
    and pos: "0 < fst (set_sup og n (supp_of (db_heap st a))) + snd (set_sup og n (supp_of (db_heap st a)))"
  obtains (refused) st' where "transaction_rollback_push ROLLBACK_STATE (db_heap st a) st = Some (False, st')" "db_ok X st'"
      "same_facts st st'"
  | (changed) st1 l st' where "transaction_rollback_push ROLLBACK_STATE (db_heap st a) st = Some (True, st1)"
      "db_heap st1 = db_heap st" "log_asserted og oper (db_heap st a) st1 = Some ((), st1\<lparr>db_log := l\<rparr>)"
      "update_fact a (set_support og n) (st1\<lparr>db_log := l\<rparr>) = st'" "db_ok X st'" "stored st' = stored st"
      "triple_of (db_heap st' a) = triple_of (db_heap st a)"
      "contents st' = (contents st)(triple_of (db_heap st a) \<mapsto> set_sup og n (supp_of (db_heap st a)))"
      "rest_of st' = rest_of st" "logged st st'"
proof -
  let ?g = "db_heap st a"
  have wf: "fact_wf ?g" by (rule db_ok_wf [OF ok a])
  show ?thesis
  proof (cases rule: rollback_push_owned [OF ok w wf stored_fsyms [OF ok a], of ROLLBACK_STATE, case_names no yes])
    case (no st')
    then show ?thesis using same_store_same_facts by (intro refused [of st']) blast+
  next
    case (yes st1)
    have sf: "stored st1 = stored st" "db_heap st1 = db_heap st" "rest_of st1 = rest_of st"
      using same_store_facts(1) [OF yes(3)] yes(3) by (simp_all add: same_store_def)
    have str: "symbol_to_str y = Some (sym_data y)" if "y \<in># fsyms ?g" for y
      by (rule stored_symbol(3) [OF ok a that])
    obtain l where l: "log_asserted og oper ?g st1 = Some ((), st1\<lparr>db_log := l\<rparr>)"
      by (rule log_asserted_ok [OF str])
    let ?st2 = "st1\<lparr>db_log := l\<rparr>"
    have ok2: "db_ok X ?st2" using yes(2) by simp
    have a2: "a \<in> stored ?st2" "db_heap ?st2 a = ?g" using a sf by (simp_all add: stored_def)
    have "fact_wf (set_support og n (db_heap ?st2 a))" using set_support_wf [OF wf n pos] sf(2) by simp
    note up = update_fact_ok [where u = "set_support og n", OF ok2 a2(1) this, simplified a2(2) set_support_simps, OF refl refl refl]
    have same: "contents ?st2 = contents st"
      using sf by (intro contents_cong [OF ok ok2]) (simp_all add: stored_def)
    let ?st' = "update_fact a (set_support og n) ?st2"
    have con: "contents ?st' = (contents st)(triple_of ?g \<mapsto> set_sup og n (supp_of ?g))" using up(8) same by simp
    have tri: "triple_of (db_heap ?st' a) = triple_of ?g" by (simp add: up(3) triple_of_def sf(2))
    have "logged st ?st'"
    proof -
      have "contents st (triple_of ?g) = Some (supp_of ?g)" by (rule contents_stored [OF ok a])
      then have "undo \<lparr>re_action = ROLLBACK_STATE, re_fact = ?g\<rparr> (contents ?st') = contents st"
        by (auto simp: undo_def con)
      moreover have "applies \<lparr>re_action = ROLLBACK_STATE, re_fact = ?g\<rparr> (contents ?st')"
        by (simp add: applies_def con)
      moreover have "entries ?st' = entries st @ pushed st ROLLBACK_STATE ?g" using up(4) yes(4) by simp
      ultimately show ?thesis unfolding logged_def by blast
    qed
    moreover have "stored ?st' = stored st" using up(2) sf(1) by (simp add: stored_def)
    moreover have "rest_of ?st' = rest_of st" using up(6) sf(3) by (simp add: rest_of_def)
    ultimately show ?thesis
      using yes(1) sf(2) l up(1) con tri by (intro changed [of st1 l ?st']) simp_all
  qed
qed

text \<open>The effect of \<^verbatim>\<open>give_back\<close> and \<^verbatim>\<open>owning\<close> on the steps of an operation inside its lock.\<close>

lemma logged_lock: "logged (owning st) st' \<Longrightarrow> logged st (give_back st st')"
  by (simp add: logged_def)

lemma add_fact_origin_ok:
  assumes ok: "db_ok X st" and w: "can_write st" and neg: "f_negated f = P_FIRST"
    and held: "set_mset (fsyms f) \<subseteq> set_mset (fact_claims st + entry_claims (entries st) + X)"
  obtains (refused) st' where "facts_add_fact_origin f og st = Some (None, st')" "db_ok X st'" "same_facts st st'"
  | (added) a st' where "facts_add_fact_origin f og st = Some (Some a, st')" "db_ok X st'" "a \<in> stored st'"
      "triple_of (db_heap st' a) = triple_of f" "contents st' = sp_add og (triple_of f) (contents st)"
      "rest_of st' = rest_of st" "logged st st'" "stored st' = insert a (stored st)"
proof -
  let ?s = "owning st"
  have ok0: "db_ok X ?s" and w0: "can_write ?s" using ok by simp_all
  have held0: "set_mset (fsyms f) \<subseteq> set_mset (fact_claims ?s + entry_claims (entries ?s) + X)" using held by simp
  have refuse: thesis if "facts_add_fact_origin f og st = Some (None, give_back st s)" "db_ok X s" "same_facts ?s s" for s
    by (rule refused [OF that(1)]) (use that give_back_same [OF w] in simp_all)
  have accept: thesis if "facts_add_fact_origin f og st = Some (Some a, give_back st s)" "db_ok X s" "a \<in> stored s"
      "triple_of (db_heap s a) = triple_of f" "contents s = sp_add og (triple_of f) (contents st)"
      "rest_of s = rest_of ?s" "logged ?s s" "stored s = insert a (stored st)" for a s
    by (rule added [OF that(1)]) (use that give_back_rest [OF w that(6)] logged_lock in simp_all)
  show thesis
  proof (cases rule: index_get_cases [OF db_ok_store [OF ok0], of "fact_key f", case_names absent found])
    case (found i a)
    let ?g = "db_heap ?s a"
    have a: "a \<in> stored st" using found(2) by simp
    have tri: "triple_of ?g = triple_of f" by (rule triple_of_key [OF found(3)])
    have con: "contents st (triple_of f) = Some (supp_of ?g)" using contents_stored [OF ok a] tri by simp
    show thesis
    proof (cases "get_sup og (supp_of ?g) = 0")
      case False
      then have "facts_add_fact_origin f og st = Some (Some a, give_back st ?s)"
        using found(1) by (simp add: facts_add_fact_origin_def with_writer_run [OF w])
      moreover have "contents ?s = sp_add og (triple_of f) (contents st)"
      proof -
        have "get_sup og (supp_of ?g) = 1" using False get_sup_le [OF db_ok_wf [OF ok0 found(2)], of og] by linarith
        then have "set_sup og 1 (supp_of ?g) = supp_of ?g" by (cases "supp_of ?g") (rule set_sup_same)
        then show ?thesis using con by (simp add: sp_add_def fun_upd_idem)
      qed
      ultimately show thesis using accept [OF _ ok0 found(2) tri] a by (simp add: logged_refl insert_absorb)
    next
      case True
      have pos: "0 < fst (set_sup og 1 (supp_of ?g)) + snd (set_sup og 1 (supp_of ?g))"
        by (cases og; cases "supp_of ?g") simp_all
      show thesis
      proof (cases rule: change_support [OF ok0 w0 found(2) le_refl pos, where oper = "''add''", case_names no yes])
        case (no s)
        have "facts_add_fact_origin f og st = Some (None, give_back st s)"
          using found(1) True no(1) by (simp add: facts_add_fact_origin_def with_writer_run [OF w])
        then show thesis by (rule refuse [OF _ no(2,3)])
      next
        case (yes s1 l s)
        have "facts_add_fact_origin f og st = Some (Some a, give_back st s)"
          using found(1) True yes(1-4) by (simp add: facts_add_fact_origin_def with_writer_run [OF w])
        then show thesis
          using accept [OF _ yes(5)] yes(6-10) found(2) tri con a by (simp add: sp_add_def insert_absorb)
      qed
    qed
  next
    case absent
    let ?f = "fact_set_origin og f"
    have wf: "fact_wf (insert_copy_of ?f)" by (rule fact_set_origin_wf [OF neg])
    have held1: "set_mset (fsyms ?f) \<subseteq> set_mset (fact_claims ?s + entry_claims (entries ?s) + X)" using held0 by simp
    have new: "\<forall>b \<in> stored ?s. fact_key (db_heap ?s b) \<noteq> fact_key ?f" using absent(2) by simp
    show thesis
    proof (cases rule: insert_copy_owned [OF ok0 w0 wf held1 new, where rr = True, case_names no yes])
      case (no s)
      have "facts_add_fact_origin f og st = Some (None, give_back st s)"
        using absent(1) no(1) by (simp add: facts_add_fact_origin_def with_writer_run [OF w])
      then show thesis by (rule refuse [OF _ no(2,3)])
    next
      case (yes a s)
      have a: "a \<in> stored s" "db_heap s a = insert_copy_of ?f" using yes(4,5) by simp_all
      have str: "symbol_to_str y = Some (sym_data y)" if "y \<in># fsyms (db_heap s a)" for y
        by (rule stored_symbol(3) [OF yes(2) a(1) that])
      obtain l where l: "log_asserted og ''add'' (db_heap s a) s = Some ((), s\<lparr>db_log := l\<rparr>)"
        by (rule log_asserted_ok [OF str])
      let ?s' = "s\<lparr>db_log := l\<rparr>"
      have run: "facts_add_fact_origin f og st = Some (Some a, give_back st ?s')"
        using absent(1) yes(1) l by (simp add: facts_add_fact_origin_def with_writer_run [OF w])
      have ok': "db_ok X ?s'" using yes(2) by simp
      have sto: "stored ?s' = insert a (stored st)" using yes(4) by (simp add: stored_def owning_def)
      have heap: "db_heap ?s' = (db_heap st)(a := insert_copy_of ?f)" using yes(5) by simp
      have fresh: "a \<notin> stored st" using yes(3) by simp
      note con = contents_insert [OF ok ok' fresh sto heap]
      have con': "contents ?s' = (contents st)(triple_of f \<mapsto> set_sup og 1 (0, 0))" "contents st (triple_of f) = None"
        using con by simp_all
      have "undo \<lparr>re_action = ROLLBACK_REMOVE, re_fact = insert_copy_of ?f\<rparr> (contents ?s') = contents ?s"
        using con'(2) by (auto simp: undo_def con'(1) fun_upd_idem)
      moreover have "applies \<lparr>re_action = ROLLBACK_REMOVE, re_fact = insert_copy_of ?f\<rparr> (contents ?s')"
        by (simp add: applies_def con'(1))
      moreover have "entries ?s' = entries ?s @ pushed ?s ROLLBACK_REMOVE (insert_copy_of ?f)" using yes(6) by simp
      ultimately have "logged ?s ?s'" unfolding logged_def by blast
      moreover have "rest_of ?s' = rest_of ?s" using yes(8) by (simp add: rest_of_def)
      moreover have "a \<in> stored ?s'" "triple_of (db_heap ?s' a) = triple_of f" using sto heap by simp_all
      ultimately show thesis using accept [OF run ok'] con' sto by (simp add: sp_add_def)
    qed
  qed
qed

section \<open>Removing a fact\<close>

lemma removable_action:
  "fact_wf g \<Longrightarrow> asserted_count g + derived_count g > 1 \<longleftrightarrow> fst (supp_of g) + snd (supp_of g) > 1"
  by (simp add: supp_of_def)

lemma remove_fact_origin_ok:
  assumes ok: "db_ok X st" and w: "can_write st" and neg: "f_negated f = P_FIRST"
    and held: "\<And>b. b \<in> stored st \<Longrightarrow> triple_of (db_heap st b) = triple_of f \<Longrightarrow> fact_key (db_heap st b) = fact_key f"
  obtains (refused) st' where "facts_remove_fact_origin f og st = Some (- 1, st')" "db_ok X st'" "same_facts st st'"
  | (removed) r st' where "facts_remove_fact_origin f og st = Some (r, st')" "db_ok X st'"
      "contents st' = sp_remove og (triple_of f) (contents st)"
      "r = (case contents st (triple_of f) of None \<Rightarrow> 0 | Some v \<Rightarrow> if get_sup og v = 0 then 0 else 1)"
      "rest_of st' = rest_of st" "logged st st'" "stored st' \<subseteq> stored st"
proof -
  let ?s = "owning st"
  have ok0: "db_ok X ?s" and w0: "can_write ?s" using ok by simp_all
  have refuse: thesis if "facts_remove_fact_origin f og st = Some (- 1, give_back st s)" "db_ok X s" "same_facts ?s s" for s
    by (rule refused [OF that(1)]) (use that give_back_same [OF w] in simp_all)
  have accept: thesis if "facts_remove_fact_origin f og st = Some (r, give_back st s)" "db_ok X s"
      "contents s = sp_remove og (triple_of f) (contents st)"
      "r = (case contents st (triple_of f) of None \<Rightarrow> 0 | Some v \<Rightarrow> if get_sup og v = 0 then 0 else 1)"
      "rest_of s = rest_of ?s" "logged ?s s" "stored s \<subseteq> stored st" for r s
    by (rule removed [OF that(1)]) (use that give_back_rest [OF w that(5)] logged_lock in simp_all)
  show thesis
  proof (cases rule: index_get_cases [OF db_ok_store [OF ok0], of "fact_key f", case_names absent found])
    case absent
    have "contents st (triple_of f) = None"
      using absent(2) held by (auto simp: contents_absent [OF ok])
    moreover have "facts_remove_fact_origin f og st = Some (0, give_back st ?s)"
      using absent(1) by (simp add: facts_remove_fact_origin_def with_writer_run [OF w])
    ultimately show thesis using accept [OF _ ok0] by (simp add: sp_remove_def logged_refl)
  next
    case (found i a)
    let ?g = "db_heap ?s a"
    have a: "a \<in> stored st" using found(2) by simp
    have tri: "triple_of ?g = triple_of f" by (rule triple_of_key [OF found(3)])
    have con: "contents st (triple_of f) = Some (supp_of ?g)" using contents_stored [OF ok a] tri by simp
    have wf: "fact_wf ?g" by (rule db_ok_wf [OF ok0 found(2)])
    consider (none) "get_sup og (supp_of ?g) = 0"
      | (other) "get_sup og (supp_of ?g) \<noteq> 0" "fst (supp_of ?g) + snd (supp_of ?g) > 1"
      | (last) "get_sup og (supp_of ?g) \<noteq> 0" "\<not> fst (supp_of ?g) + snd (supp_of ?g) > 1" by blast
    then show thesis
    proof cases
      case none
      then have "facts_remove_fact_origin f og st = Some (0, give_back st ?s)"
        using found(1) by (simp add: facts_remove_fact_origin_def with_writer_run [OF w] Let_def)
      then show thesis using accept [OF _ ok0] con none by (simp add: sp_remove_def logged_refl)
    next
      case other
      have pos: "0 < fst (set_sup og 0 (supp_of ?g)) + snd (set_sup og 0 (supp_of ?g))"
        using other(2) get_sup_le [OF wf] wf by (cases og) (auto simp: supp_of_def fact_wf_def)
      have act: "asserted_count ?g + derived_count ?g > 1" using other(2) by (simp add: supp_of_def)
      show thesis
      proof (cases rule: change_support [OF ok0 w0 found(2) zero_le_one pos, where oper = "''remove''", case_names no yes])
        case (no s)
        have "facts_remove_fact_origin f og st = Some (- 1, give_back st s)"
          using found(1) other no(1) act by (simp add: facts_remove_fact_origin_def with_writer_run [OF w] Let_def)
        then show thesis by (rule refuse [OF _ no(2,3)])
      next
        case (yes s1 l s)
        have "facts_remove_fact_origin f og st = Some (1, give_back st s)"
          using found(1) other yes(1-4) act by (simp add: facts_remove_fact_origin_def with_writer_run [OF w] Let_def)
        then show thesis
          using accept [OF _ yes(5)] yes(6-10) tri con other by (simp add: sp_remove_def)
      qed
    next
      case last
      have act: "\<not> asserted_count ?g + derived_count ?g > 1" using last(2) by (simp add: supp_of_def)
      show thesis
      proof (cases rule: rollback_push_owned [OF ok0 w0 wf stored_fsyms [OF ok0 found(2)], of ROLLBACK_ADD, case_names no yes])
        case (no s)
        have "facts_remove_fact_origin f og st = Some (- 1, give_back st s)"
          using found(1) last no(1) act by (simp add: facts_remove_fact_origin_def with_writer_run [OF w] Let_def)
        then show thesis by (rule refuse [OF _ no(2) same_store_same_facts [OF no(3,4)]])
      next
        case (yes s1)
        have s1: "stored s1 = stored st" "db_heap s1 = db_heap st" "rest_of s1 = rest_of ?s" "db_index s1 = db_index st"
          using same_store_facts(1) [OF yes(3)] yes(3) by (simp_all add: same_store_def)
        have str: "symbol_to_str y = Some (sym_data y)" if "y \<in># fsyms ?g" for y
          by (rule stored_symbol(3) [OF ok0 found(2) that])
        obtain l where l: "log_asserted og ''remove'' ?g s1 = Some ((), s1\<lparr>db_log := l\<rparr>)"
          by (rule log_asserted_ok [OF str])
        let ?s2 = "s1\<lparr>db_log := l\<rparr>"
        have ok2: "db_ok X ?s2" and w2: "can_write ?s2" and a2: "a \<in> stored ?s2"
          using yes(2) rest_of_can_write [OF s1(3)] a s1(1) by (simp_all add: stored_def)
        from remove_found_owned [OF ok2 w2 a2] obtain i' s where 3:
          "index_get (fact_key (db_heap ?s2 a)) ?s2 = Some (Some (i', a))" "facts_remove_found i' a ?s2 = Some ((), s)"
          "db_ok X s" "stored s = stored ?s2 - {a}" "db_heap s = db_heap ?s2" "entries s = entries ?s2"
          "rest_of s = rest_of ?s2" by blast
        have "index_get (fact_key f) ?s2 = index_get (fact_key f) ?s"
          by (rule index_get_cong) (simp_all add: s1(2,4))
        with 3(1) found(1,3) s1(2) have i: "i' = i" by simp
        have run: "facts_remove_fact_origin f og st = Some (1, give_back st s)"
          using found(1) last yes(1) act l 3(2) i s1(2)
          by (simp add: facts_remove_fact_origin_def with_writer_run [OF w] Let_def)
        have sto: "stored s = stored st - {a}" using 3(4) s1(1) by (simp add: stored_def)
        have heap: "db_heap s = db_heap st" using 3(5) s1(2) by simp
        have con': "contents s = (contents st)(triple_of f := None)"
          using contents_delete [OF ok 3(3) a sto heap] tri by simp
        have "undo \<lparr>re_action = ROLLBACK_ADD, re_fact = ?g\<rparr> (contents s) = contents ?s"
          using con tri by (auto simp: undo_def con' fun_eq_iff)
        moreover have "applies \<lparr>re_action = ROLLBACK_ADD, re_fact = ?g\<rparr> (contents s)"
          using tri by (simp add: applies_def con')
        moreover have "entries s = entries ?s @ pushed ?s ROLLBACK_ADD ?g" using 3(6) yes(4) by simp
        ultimately have "logged ?s s" unfolding logged_def by blast
        moreover have "rest_of s = rest_of ?s" using 3(7) s1(3) by (simp add: rest_of_def)
        moreover have "stored s \<subseteq> stored st" unfolding sto by auto
        ultimately show thesis using accept [OF run 3(3)] con con' last by (simp add: sp_remove_def)
      qed
    qed
  qed
qed

section \<open>Strings\<close>

lemma symbols_only_same_facts: "symbols_only st st' \<Longrightarrow> same_facts st st'"
  using symbols_only_same_store symbols_only_same(3) same_store_same_facts by blast

lemma same_factsD:
  assumes "same_facts st st'"
  shows "stored st' = stored st" "a \<in> stored st \<Longrightarrow> db_heap st' a = db_heap st a" "entries st' = entries st"
    "db_log st' = db_log st" "rest_of st' = rest_of st"
  using assms by (auto simp: same_facts_def)

lemma same_facts_pushed: "same_facts st st' \<Longrightarrow> pushed st' act f = pushed st act f"
  using rest_of_tx(2) [OF same_factsD(5)] by (simp add: pushed_def)

text \<open>A step between two states that only differ in their symbols from the ones that count.\<close>

lemma logged_between:
  assumes "db_ok X st" "db_ok X1 st1" "same_facts st st1" "logged st1 st2" "db_ok X2 st2" "db_ok X3 st3" "same_facts st2 st3"
  shows "logged st st3"
proof -
  have "contents st1 = contents st" by (rule contents_same [OF assms(1,2,3)])
  moreover have "contents st3 = contents st2" by (rule contents_same [OF assms(5,6,7)])
  ultimately show ?thesis
    using assms(4) same_factsD(3) [OF assms(3)] same_factsD(3) [OF assms(7)] same_facts_pushed [OF assms(3)]
    unfolding logged_def by simp
qed

lemma intern_maybe:
  assumes ok: "db_ok X st" and w: "can_write st" and len: "length s \<le> MAX_STRING"
  obtains y st' where "facts_intern s st = Some (y, st')" "symbols_only st st'" "db_ok (nn y + X) st'"
    "y \<noteq> P_FIRST \<Longrightarrow> sym_data y = s"
proof (cases rule: intern_owned [OF db_ok_table [OF ok] w len, case_names null symbol])
  case (null st')
  with db_ok_symbols [OF ok null(2)] show ?thesis by (intro that [of P_FIRST st']) simp_all
next
  case (symbol y st')
  have "symbols_ok (fact_claims st + entry_claims (entries st) + (nn y + X)) (db_symbols st')"
    using symbol(2,4) by (simp add: ac_simps)
  with symbol db_ok_symbols [OF ok symbol(3)] show ?thesis by (intro that [of y st']) simp_all
qed

lemma unintern_three_ok:
  assumes ok: "db_ok (nn3 trio + X) st" and w: "can_write st"
  obtains st' where "unintern_three trio st = Some ((), st')" "symbols_only st st'" "db_ok X st'"
proof -
  have "symbols_ok (nn3 trio + (fact_claims st + entry_claims (entries st) + X)) (db_symbols st)"
    using db_ok_table [OF ok] by (simp add: ac_simps)
  from unintern_three_owned [OF this w] obtain st' where "unintern_three trio st = Some ((), st')" "symbols_only st st'"
    "symbols_ok (fact_claims st + entry_claims (entries st) + X) (db_symbols st')" .
  with db_ok_symbols [OF ok] that show ?thesis by blast
qed

lemma unintern_fact_ok:
  assumes ok: "db_ok (fsyms f + X) st" and w: "can_write st"
  obtains st' where "unintern_fact f st = Some ((), st')" "symbols_only st st'" "db_ok X st'" "db_mem st' = db_mem st"
proof -
  have "symbols_ok (fsyms f + (fact_claims st + entry_claims (entries st) + X)) (db_symbols st)"
    using db_ok_table [OF ok] by (simp add: ac_simps)
  from unintern_fact_owned [OF this w] obtain st' where "unintern_fact f st = Some ((), st')" "symbols_only st st'"
    "symbols_ok (fact_claims st + entry_claims (entries st) + X) (db_symbols st')" "db_mem st' = db_mem st" .
  with db_ok_symbols [OF ok] that show ?thesis by blast
qed

lemma intern_strings:
  assumes ok: "db_ok X st" and w: "can_write st"
    and len: "length s \<le> MAX_STRING" "length p \<le> MAX_STRING" "length ob \<le> MAX_STRING"
  obtains a b c st1 st2 st3 where "facts_intern s st = Some (a, st1)" "facts_intern p st1 = Some (b, st2)"
    "facts_intern ob st2 = Some (c, st3)" "same_facts st st3" "can_write st3" "db_ok (nn3 (a, b, c) + X) st3"
    "\<not> some_null (a, b, c) \<Longrightarrow> (sym_data a, sym_data b, sym_data c) = (s, p, ob)"
proof -
  from intern_maybe [OF ok w len(1)] obtain a st1 where 1: "facts_intern s st = Some (a, st1)" "symbols_only st st1"
    "db_ok (nn a + X) st1" "a \<noteq> P_FIRST \<Longrightarrow> sym_data a = s" by blast
  have w1: "can_write st1" using w symbols_only_can_write [OF 1(2)] by simp
  from intern_maybe [OF 1(3) w1 len(2)] obtain b st2 where 2: "facts_intern p st1 = Some (b, st2)" "symbols_only st1 st2"
    "db_ok (nn b + (nn a + X)) st2" "b \<noteq> P_FIRST \<Longrightarrow> sym_data b = p" by blast
  have w2: "can_write st2" using w1 symbols_only_can_write [OF 2(2)] by simp
  from intern_maybe [OF 2(3) w2 len(3)] obtain c st3 where 3: "facts_intern ob st2 = Some (c, st3)" "symbols_only st2 st3"
    "db_ok (nn c + (nn b + (nn a + X))) st3" "c \<noteq> P_FIRST \<Longrightarrow> sym_data c = ob" by blast
  have w3: "can_write st3" using w2 symbols_only_can_write [OF 3(2)] by simp
  have only: "symbols_only st st3" using 1(2) 2(2) 3(2) symbols_only_trans by blast
  show ?thesis
    by (rule that [OF 1(1) 2(1) 3(1) symbols_only_same_facts [OF only] w3])
      (use 3(3) 1(4) 2(4) 3(4) in \<open>auto simp: nn3_def some_null_def ac_simps\<close>)
qed

lemma add_spo_origin_ok:
  assumes ok: "db_ok X st" and w: "can_write st"
    and len: "length s \<le> MAX_STRING" "length p \<le> MAX_STRING" "length ob \<le> MAX_STRING"
  obtains (refused) st' where "facts_add_spo_origin s p ob og st = Some (None, st')" "db_ok X st'" "same_facts st st'"
  | (added) a st' where "facts_add_spo_origin s p ob og st = Some (Some a, st')" "db_ok X st'" "a \<in> stored st'"
      "triple_of (db_heap st' a) = (s, p, ob)" "contents st' = sp_add og (s, p, ob) (contents st)"
      "rest_of st' = rest_of st" "logged st st'" "stored st' = insert a (stored st)"
proof -
  obtain a b c st1 st2 st3 where i: "facts_intern s st = Some (a, st1)"
    "facts_intern p st1 = Some (b, st2)" "facts_intern ob st2 = Some (c, st3)" "same_facts st st3" "can_write st3"
    "db_ok (nn3 (a, b, c) + X) st3" "\<not> some_null (a, b, c) \<Longrightarrow> (sym_data a, sym_data b, sym_data c) = (s, p, ob)"
    by (rule intern_strings [OF ok w len]) blast
  show thesis
  proof (cases "some_null (a, b, c)")
    case True
    from unintern_three_ok [OF i(6,5)] obtain st4 where 4: "unintern_three (a, b, c) st3 = Some ((), st4)"
      "symbols_only st3 st4" "db_ok X st4" .
    have "facts_add_spo_origin s p ob og st = Some (None, st4)"
      using i(1-3) True 4(1) by (simp add: facts_add_spo_origin_def)
    moreover have "same_facts st st4" using i(4) symbols_only_same_facts [OF 4(2)] same_facts_trans by blast
    ultimately show thesis using refused 4(3) by blast
  next
    case False
    let ?f = "fact_set_origin og (fact_init a b c)"
    let ?g = "fact_init a b c"
    have g: "fsyms ?g = nn3 (a, b, c)" "triple_of ?g = (s, p, ob)" "f_negated ?g = P_FIRST" "triple_of ?f = (s, p, ob)"
      using False i(7) by (auto simp: fsyms_def nn3_def some_null_def triple_of_def fact_init_def)
    have ok3: "db_ok (fsyms ?g + X) st3" using i(6) g(1) by simp
    have "set_mset (fsyms ?f) \<subseteq> set_mset (fact_claims st3 + entry_claims (entries st3) + (fsyms ?g + X))" by auto
    then show thesis
    proof (cases rule: add_fact_origin_ok [OF ok3 i(5) _ \<open>set_mset (fsyms ?f) \<subseteq> _\<close>, of og, case_names neg no yes])
      case neg
      show ?case using g(3) by simp
    next
      case (no st4)
      have w4: "can_write st4" using same_facts_can_write [OF no(3)] i(5) by simp
      from unintern_fact_ok [OF no(2) w4] obtain st5 where 5: "unintern_fact ?g st4 = Some ((), st5)" "symbols_only st4 st5" "db_ok X st5" .
      have "facts_add_spo_origin s p ob og st = Some (None, st5)"
        using i(1-3) False no(1) 5(1) by (simp add: facts_add_spo_origin_def)
      moreover have "same_facts st st5"
        using i(4) no(3) symbols_only_same_facts [OF 5(2)] same_facts_trans by blast
      ultimately show thesis using refused 5(3) by blast
    next
      case (yes x st4)
      have w4: "can_write st4" using rest_of_can_write [OF yes(6)] i(5) by simp
      from unintern_fact_ok [OF yes(2) w4] obtain st5 where 5: "unintern_fact ?g st4 = Some ((), st5)" "symbols_only st4 st5" "db_ok X st5" .
      have run: "facts_add_spo_origin s p ob og st = Some (Some x, st5)"
        using i(1-3) False yes(1) 5(1) by (simp add: facts_add_spo_origin_def)
      note s5 = same_factsD [OF symbols_only_same_facts [OF 5(2)]] and s3 = same_factsD [OF i(4)]
      have "contents st5 = sp_add og (s, p, ob) (contents st)"
        using contents_same [OF yes(2) 5(3) symbols_only_same_facts [OF 5(2)]] yes(5) contents_same [OF ok ok3 i(4)] g(4) by simp
      moreover have "logged st st5"
        by (rule logged_between [OF ok ok3 i(4) yes(7,2) 5(3) symbols_only_same_facts [OF 5(2)]])
      ultimately show thesis
        using added [OF run 5(3)] yes(3,4,6,8) s5(1,2,5) s3(1,5) g(4) by simp
    qed
  qed
qed

lemma remove_spo_origin_ok:
  assumes ok: "db_ok X st" and w: "can_write st"
  obtains (refused) st' where "facts_remove_spo_origin s p ob og st = Some (- 1, st')" "db_ok X st'" "same_facts st st'"
  | (removed) r st' where "facts_remove_spo_origin s p ob og st = Some (r, st')" "db_ok X st'"
      "contents st' = sp_remove og (s, p, ob) (contents st)"
      "r = (case contents st (s, p, ob) of None \<Rightarrow> 0 | Some v \<Rightarrow> if get_sup og v = 0 then 0 else 1)"
      "rest_of st' = rest_of st" "logged st st'" "stored st' \<subseteq> stored st"
proof -
  let ?s = "owning st"
  have ok0: "db_ok X ?s" and w0: "can_write ?s" using ok by simp_all
  show thesis
  proof (cases rule: lookup_cases [OF ok0, of s p ob, case_names absent found])
    case absent
    have "contents st (s, p, ob) = None" using absent(2) by (simp add: contents_absent [OF ok])
    moreover have "facts_remove_spo_origin s p ob og st = Some (0, give_back st ?s)"
      using absent(1) by (simp add: facts_remove_spo_origin_def with_writer_run [OF w])
    ultimately show thesis
      using ok give_back_rest [OF w refl] by (intro removed [of 0 "give_back st ?s"]) (simp_all add: sp_remove_def logged_refl)
  next
    case (found a)
    let ?f = "db_heap ?s a"
    have neg: "f_negated ?f = P_FIRST" using db_ok_wf [OF ok0 found(2)] by (simp add: fact_wf_def)
    have key: "fact_key (db_heap ?s b) = fact_key ?f" if "b \<in> stored ?s" "triple_of (db_heap ?s b) = triple_of ?f" for b
      using triple_inj [OF ok0 that(1) found(2) that(2)] by simp
    have run: "facts_remove_spo_origin s p ob og st =
        map_option (\<lambda>(r, st'). (r, give_back st st')) (facts_remove_fact_origin ?f og ?s)"
      using found(1) by (simp add: facts_remove_spo_origin_def with_writer_run [OF w])
    show thesis
    proof (rule remove_fact_origin_ok [OF ok0 w0 neg key, of og])
      fix s' assume "facts_remove_fact_origin ?f og ?s = Some (- 1, s')" "db_ok X s'" "same_facts ?s s'"
      then show thesis
        using run give_back_same [OF w] by (intro refused [of "give_back st s'"]) simp_all
    next
      fix r s' assume "facts_remove_fact_origin ?f og ?s = Some (r, s')" "db_ok X s'"
        "contents s' = sp_remove og (triple_of ?f) (contents ?s)"
        "r = (case contents ?s (triple_of ?f) of None \<Rightarrow> 0 | Some v \<Rightarrow> if get_sup og v = 0 then 0 else 1)"
        "rest_of s' = rest_of ?s" "logged ?s s'" "stored s' \<subseteq> stored ?s"
      then show thesis
        using run found(3) give_back_rest [OF w] logged_lock by (intro removed [of r "give_back st s'"]) simp_all
    qed
  qed
qed

end
