(* ===== verification/Rollback.thy ===== *)
theory Rollback
  imports Facts_Spec
begin

text \<open>
  Rolling a transaction back: the entries pushed by any sequence of operations of a client,
  replayed from the last to the first, restore the contents the database had when the
  transaction began.
\<close>

section \<open>Undoing one entry\<close>

definition total :: "symbol multiset \<Rightarrow> facts \<Rightarrow> symbol multiset" where
  "total X st = fact_claims st + entry_claims (entries st) + X"

lemma entry_claims_snoc [simp]: "entry_claims (es @ [e]) = entry_claims es + fsyms (re_fact e)"
  by (simp add: entry_claims_def)

lemma set_entries_simps [simp]:
  "entries (set_entries es st) = es" "stored (set_entries es st) = stored st" "db_heap (set_entries es st) = db_heap st"
  "db_symbols (set_entries es st) = db_symbols st" "fact_claims (set_entries es st) = fact_claims st"
  "store_ok (set_entries es st) = store_ok st" "rest_of (set_entries es st) = rest_of st"
  "db_mem (set_entries es st) = db_mem st" "can_write (set_entries es st) = can_write st"
  by (simp_all add: set_entries_def stored_def fact_claims_def store_ok_def rest_of_def tx_rest_def can_write_def)

lemma pop_entry_ok:
  assumes ok: "db_ok X st" and e: "entries st = es @ [e]"
  shows "db_ok (fsyms (re_fact e) + X) (set_entries es st)" "contents (set_entries es st) = contents st"
    "total (fsyms (re_fact e) + X) (set_entries es st) = total X st"
proof -
  show ok': "db_ok (fsyms (re_fact e) + X) (set_entries es st)"
    using ok e by (simp add: db_ok_def ac_simps)
  show "contents (set_entries es st) = contents st" by (rule contents_cong [OF ok ok']) simp_all
  show "total (fsyms (re_fact e) + X) (set_entries es st) = total X st"
    using e by (simp add: total_def ac_simps)
qed

text \<open>A fact whose symbols are held has the key of the stored fact with the same triple.\<close>

lemma triple_key:
  assumes ok: "db_ok X st" and a: "a \<in> stored st" and eq: "triple_of (db_heap st a) = triple_of f"
    and held: "set_mset (fsyms f) \<subseteq> set_mset (total X st)" and neg: "f_negated f = P_FIRST"
  shows "fact_key (db_heap st a) = fact_key f"
proof -
  note t = symbols_okD [OF db_ok_table [OF ok]]
  have own: "intern_find_symbol_str (db_symbols st) (sym_data y) = y" if "y \<in># fsyms f" for y
    by (rule find_symbol_held(1) [OF t(1)]) (use held that t(4) in \<open>auto simp: total_def\<close>)
  have "f_s (db_heap st a) = f_s f" "f_p (db_heap st a) = f_p f" "f_o (db_heap st a) = f_o f"
    using eq own stored_symbol(1) [OF ok a] by (simp_all add: triple_of_def fsyms_def, metis+)
  then show ?thesis using neg db_ok_wf [OF ok a] by (simp add: fact_key_def fact_wf_def)
qed

lemma key_lookup:
  assumes ok: "db_ok X st" and held: "set_mset (fsyms f) \<subseteq> set_mset (total X st)" and neg: "f_negated f = P_FIRST"
  obtains (absent) "index_get (fact_key f) st = Some None" "contents st (triple_of f) = None"
      "\<forall>b \<in> stored st. fact_key (db_heap st b) \<noteq> fact_key f"
  | (found) i a where "index_get (fact_key f) st = Some (Some (i, a))" "a \<in> stored st"
      "triple_of (db_heap st a) = triple_of f" "contents st (triple_of f) = Some (supp_of (db_heap st a))"
      "f_s (db_heap st a) = f_s f" "f_p (db_heap st a) = f_p f" "f_o (db_heap st a) = f_o f" "fact_key (db_heap st a) = fact_key f"
proof (cases rule: index_get_cases [OF db_ok_store [OF ok], of "fact_key f", case_names none some])
  case none
  have "contents st (triple_of f) = None"
    using none(2) triple_key [OF ok _ _ held neg] unfolding contents_absent [OF ok] by blast
  then show ?thesis using none by (intro absent) auto
next
  case (some i a)
  have tri: "triple_of (db_heap st a) = triple_of f" by (rule triple_of_key [OF some(3)])
  then show ?thesis
    using some contents_stored [OF ok some(2)] by (intro found [of i a]) (simp_all add: fact_key_def)
qed

lemma apply_entry_ok:
  assumes ok: "db_ok X st" and w: "tx_owned (db_tx st)" and wf: "fact_wf (re_fact e)"
    and held: "set_mset (fsyms (re_fact e)) \<subseteq> set_mset (total X st)"
    and app: "applies e (contents st)"
    and room: "db_mem st = []" "card (stored st) < 2 ^ 55" "\<forall>y. count (total X st) y < 2 ^ 64 - 4"
  obtains st' where "facts_apply_rollback_entry e st = Some ((), st')" "db_ok X st'" "contents st' = undo e (contents st)"
    "entries st' = entries st" "rest_of st' = rest_of st" "db_mem st' = []" "card (stored st') \<le> Suc (card (stored st))"
    "fact_claims st' \<subseteq># fsyms (re_fact e) + fact_claims st"
proof -
  let ?f = "re_fact e"
  let ?t = "triple_of ?f"
  have cw: "can_write st" using w by (simp add: can_write_def)
  have neg: "f_negated ?f = P_FIRST" using wf by (simp add: fact_wf_def)
  have str: "symbol_to_str y = Some (sym_data y)" if "y \<in># fsyms ?f" for y
    by (rule held_data [OF symbols_okD(1) [OF db_ok_table [OF ok]]])
      (use held that symbols_okD(4) [OF db_ok_table [OF ok]] in \<open>auto simp: total_def\<close>)
  have none_log: "st\<lparr>db_log := db_log st\<rparr> = st" by (cases st) simp
  have loga: "\<exists>l. (if c then log_fact oper g st else Some ((), st)) = Some ((), st\<lparr>db_log := l\<rparr>)"
    if g: "fsyms g = fsyms ?f" for c oper g
  proof (cases c)
    case True
    have str': "symbol_to_str y = Some (sym_data y)" if "y \<in># fsyms g" for y using str that g by simp
    obtain l where "log_fact oper g st = Some ((), st\<lparr>db_log := l\<rparr>)" by (rule log_fact_ok [OF str'])
    with True show ?thesis by auto
  next
    case False
    then show ?thesis using none_log by (intro exI [of _ "db_log st"]) simp
  qed
  have fin: "finite (stored st)" by (simp add: stored_def finite_ptr_elems)
  show thesis
  proof (cases rule: key_lookup [OF ok held neg, case_names absent found])
    case absent
    have add: "re_action e = ROLLBACK_ADD" using app absent(2) by (simp add: applies_def)
    obtain l where l: "(if asserted_count ?f \<noteq> 0 then log_fact ''add'' ?f st else Some ((), st)) = Some ((), st\<lparr>db_log := l\<rparr>)"
      using loga [of ?f] by blast
    let ?s = "st\<lparr>db_log := l\<rparr>"
    have s: "db_ok X ?s" "can_write ?s" "fact_claims ?s = fact_claims st" "stored ?s = stored st" "entries ?s = entries st"
      using ok cw by (simp_all add: fact_claims_def stored_def)
    have wf': "fact_wf (insert_copy_of ?f)"
      by (rule insert_copy_wf [OF neg]) (use wf in \<open>simp_all add: fact_wf_def\<close>)
    have held': "set_mset (fsyms ?f) \<subseteq> set_mset (fact_claims ?s + entry_claims (entries ?s) + X)"
      using held s by (simp add: total_def)
    have new: "\<forall>b \<in> stored ?s. fact_key (db_heap ?s b) \<noteq> fact_key ?f" using absent(3) s(4) by simp
    show thesis
    proof (cases rule: insert_copy_owned [OF s(1,2) wf' held' new, where rr = False, case_names no yes])
      case (no s')
      from no(4) room s(3-5) have "\<exists>y. count (total X st) y \<ge> 2 ^ 64 - 4" by (auto simp: total_def)
      with room(3) show thesis by (metis leD)
    next
      case (yes a s')
      have run: "facts_apply_rollback_entry e st = Some ((), s')"
        using absent(1) add l yes(1) w by (simp add: facts_apply_rollback_entry_def with_writer_owned Let_def)
      have sto: "stored s' = insert a (stored st)" "a \<notin> stored st" "db_heap s' = (db_heap st)(a := insert_copy_of ?f)"
        using yes(3,4,5) s(4) by simp_all
      have con: "contents s' = undo e (contents st)"
        using contents_insert(1) [OF ok yes(2) sto(2,1,3)] add by (simp add: undo_def)
      have "fact_claims s' = fsyms ?f + fact_claims st"
      proof -
        have "(\<Sum>b \<in> stored st. fsyms (db_heap s' b)) = fact_claims st"
          unfolding fact_claims_def by (intro sum.cong) (use sto in auto)
        then show ?thesis unfolding fact_claims_def [of s'] sto(1) using fin sto by simp
      qed
      moreover have "rest_of s' = rest_of st" using yes(8) by (simp add: rest_of_def)
      moreover have "db_mem s' = []" using yes(9) room s(4) by simp
      moreover have "card (stored s') \<le> Suc (card (stored st))" using sto fin by simp
      ultimately show thesis using that [OF run yes(2) con] yes(6) s(5) by simp
    qed
  next
    case (found i a)
    let ?g = "db_heap st a"
    have gsyms: "fsyms ?g = fsyms ?f" using found(5-7) by (simp add: fsyms_def)
    have nadd: "re_action e \<noteq> ROLLBACK_ADD" using app found(4) by (simp add: applies_def)
    show thesis
    proof (cases "re_action e = ROLLBACK_REMOVE")
      case True
      obtain l where l: "(if asserted_count ?f \<noteq> 0 then log_fact ''remove'' ?g st else Some ((), st)) = Some ((), st\<lparr>db_log := l\<rparr>)"
        using loga [OF gsyms] by blast
      let ?s = "st\<lparr>db_log := l\<rparr>"
      have s: "db_ok X ?s" "can_write ?s" "a \<in> stored ?s" using ok cw found(2) by (simp_all add: stored_def)
      from remove_found_owned [OF s] obtain i' s' where 1: "index_get (fact_key (db_heap ?s a)) ?s = Some (Some (i', a))"
        "facts_remove_found i' a ?s = Some ((), s')" "db_ok X s'" "stored s' = stored ?s - {a}" "db_heap s' = db_heap ?s"
        "entries s' = entries ?s" "rest_of s' = rest_of ?s" "db_mem s' = db_mem ?s" by blast
      have "index_get (fact_key ?f) ?s = index_get (fact_key ?f) st" by (rule index_get_cong) simp_all
      with 1(1) found(1,8) have "i' = i" by simp
      then have run: "facts_apply_rollback_entry e st = Some ((), s')"
        using found(1) True l 1(2) w by (simp add: facts_apply_rollback_entry_def with_writer_owned Let_def)
      have sto: "stored s' = stored st - {a}" "db_heap s' = db_heap st" using 1(4,5) by (simp_all add: stored_def)
      have con: "contents s' = undo e (contents st)"
        using contents_delete [OF ok 1(3) found(2) sto] True found(3) by (simp add: undo_def)
      have "fact_claims st = fsyms ?g + fact_claims s'"
        using fin found(2) sto unfolding fact_claims_def by (simp add: sum.remove)
      moreover have "card (stored s') \<le> Suc (card (stored st))"
        unfolding sto(1) using fin by (intro le_SucI card_mono) auto
      moreover have "rest_of s' = rest_of st" using 1(7) by (simp add: rest_of_def)
      ultimately show thesis using that [OF run 1(3) con] 1(6,8) room(1) by simp
    next
      case False
      then have state: "re_action e = ROLLBACK_STATE" using nadd by (cases "re_action e") simp_all
      obtain l where l: "(if asserted_count ?g \<noteq> asserted_count ?f
          then log_fact (if asserted_count ?f \<noteq> 0 then ''add'' else ''remove'') ?g st else Some ((), st)) = Some ((), st\<lparr>db_log := l\<rparr>)"
        using loga [OF gsyms] by blast
      let ?s = "st\<lparr>db_log := l\<rparr>"
      let ?u = "\<lambda>f. f\<lparr>asserted_count := asserted_count ?f, derived_count := derived_count ?f,
                    proof_count := asserted_count ?f + derived_count ?f\<rparr>"
      have s: "db_ok X ?s" "a \<in> stored ?s" "db_heap ?s a = ?g" using ok found(2) by (simp_all add: stored_def)
      have wfu: "fact_wf (?u (db_heap ?s a))" using wf db_ok_wf [OF ok found(2)] by (simp add: fact_wf_def)
      note up = update_fact_ok [where u = ?u, OF s(1,2) wfu, simplified]
      have run: "facts_apply_rollback_entry e st = Some ((), update_fact a ?u ?s)"
        using found(1) state l w by (simp add: facts_apply_rollback_entry_def with_writer_owned Let_def)
      have "contents ?s = contents st" by (rule contents_cong [OF ok s(1)]) (simp_all add: stored_def)
      then have con: "contents (update_fact a ?u ?s) = undo e (contents st)"
        using up(8) state found(3) by (simp add: undo_def supp_of_def)
      have "fact_claims (update_fact a ?u ?s) = fact_claims st"
        unfolding fact_claims_def using up(2,3) by (intro sum.cong) (simp_all add: stored_def fsyms_def)
      then show thesis
        using that [OF run up(1) con] up(2,4,6,7) room(1) by (simp add: stored_def rest_of_def)
    qed
  qed
qed


section \<open>The loop\<close>

text \<open>Popping an entry, applying it and giving its references back.\<close>

lemma rollback_step_ok:
  assumes ok: "db_ok X st" and w: "tx_owned (db_tx st)" and e: "entries st = es @ [e]" and app: "applies e (contents st)"
    and room: "db_mem st = []" "card (stored st) < 2 ^ 55" "\<forall>y. count (total X st) y < 2 ^ 64 - 4"
  obtains st1 st2 where "facts_apply_rollback_entry e (set_entries es st) = Some ((), st1)"
    "unintern_fact (re_fact e) st1 = Some ((), st2)" "db_ok X st2" "contents st2 = undo e (contents st)"
    "entries st2 = es" "rest_of st2 = rest_of st" "db_mem st2 = []" "card (stored st2) \<le> Suc (card (stored st))"
    "total X st2 \<subseteq># total X st"
proof -
  let ?F = "fsyms (re_fact e)"
  let ?s = "set_entries es st"
  note pop = pop_entry_ok [OF ok e]
  have "fact_wf (re_fact e)" using ok e by (simp add: db_ok_def)
  moreover have "tx_owned (db_tx ?s)" using w by (simp add: set_entries_def)
  moreover have "set_mset ?F \<subseteq> set_mset (total (?F + X) ?s)" by (auto simp: total_def)
  moreover have "applies e (contents ?s)" using app pop(2) by simp
  moreover have "db_mem ?s = []" "card (stored ?s) < 2 ^ 55" "\<forall>y. count (total (?F + X) ?s) y < 2 ^ 64 - 4"
    using room by (simp_all add: pop(3))
  ultimately obtain st1 where 1: "facts_apply_rollback_entry e ?s = Some ((), st1)" "db_ok (?F + X) st1"
    "contents st1 = undo e (contents ?s)" "entries st1 = entries ?s" "rest_of st1 = rest_of ?s" "db_mem st1 = []"
    "card (stored st1) \<le> Suc (card (stored ?s))" "fact_claims st1 \<subseteq># ?F + fact_claims ?s"
    using apply_entry_ok [OF pop(1)] by blast
  have "can_write st" using w by (simp add: can_write_def)
  then have "can_write st1" using rest_of_can_write [OF 1(5)] by simp
  from unintern_fact_ok [OF 1(2) this] obtain st2 where 2: "unintern_fact (re_fact e) st1 = Some ((), st2)"
    "symbols_only st1 st2" "db_ok X st2" "db_mem st2 = db_mem st1" .
  note o = symbols_only_same [OF 2(2)]
  have "contents st2 = contents st1" by (rule contents_cong [OF 1(2) 2(3)]) (simp_all add: o)
  moreover have "total X st2 \<subseteq># total X st"
    unfolding total_def using 1(4,8) o(3,6) e by (simp add: ac_simps)
  ultimately show thesis
    using that [OF 1(1) 2(1,3)] 1 2(4) o pop(2) by simp
qed

text \<open>Every entry does something when the entries are replayed from the last on contents \<open>m\<close>.\<close>

fun replayable :: "('e \<Rightarrow> 'm \<Rightarrow> bool) \<Rightarrow> ('e \<Rightarrow> 'm \<Rightarrow> 'm) \<Rightarrow> 'e list \<Rightarrow> 'm \<Rightarrow> bool" where
  "replayable app rev_step [] m = True"
| "replayable app rev_step (e # es) m = (app e m \<and> replayable app rev_step es (rev_step e m))"

definition chain :: "rollback_entry list \<Rightarrow> contents \<Rightarrow> bool" where
  "chain es m = replayable applies undo (rev es) m"

lemma chain_simps [simp]: "chain [] m" "chain (es @ [e]) m = (applies e m \<and> chain es (undo e m))"
  by (simp_all add: chain_def)

lemma rollback_loop_ok:
  assumes "db_ok X st" "tx_owned (db_tx st)" "entries st = es" "chain es (contents st)"
    and "db_mem st = []" "card (stored st) + length es \<le> 2 ^ 55" "\<forall>y. count (total X st) y < 2 ^ 64 - 4"
  obtains st' where "rollback_loop (length es) st = Some ((), st')" "db_ok X st'" "contents st' = foldr undo es (contents st)"
    "entries st' = []" "rest_of st' = rest_of st"
  using assms
proof (induction es arbitrary: st thesis rule: rev_induct)
  case Nil
  show ?case by (rule Nil.prems(1) [of st]) (use Nil.prems in \<open>simp_all add: rollback_loop.simps\<close>)
next
  case (snoc e es)
  have "card (stored st) < 2 ^ 55" "applies e (contents st)" using snoc.prems(5,7) by simp_all
  with snoc.prems obtain st1 st2 where 1: "facts_apply_rollback_entry e (set_entries es st) = Some ((), st1)"
    "unintern_fact (re_fact e) st1 = Some ((), st2)" "db_ok X st2" "contents st2 = undo e (contents st)"
    "entries st2 = es" "rest_of st2 = rest_of st" "db_mem st2 = []" "card (stored st2) \<le> Suc (card (stored st))"
    "total X st2 \<subseteq># total X st"
    using rollback_step_ok [OF snoc.prems(2,3,4)] by blast
  have own: "tx_owned (db_tx st2)" using rest_of_tx(1) [OF 1(6)] snoc.prems(3) by simp
  have "count (total X st2) y < 2 ^ 64 - 4" for y
    using mset_subset_eq_count [OF 1(9), of y] snoc.prems(8) by (meson le_less_trans)
  moreover have "card (stored st2) + length es \<le> 2 ^ 55" using 1(8) snoc.prems(7) by simp
  moreover have "chain es (contents st2)" using snoc.prems(5) 1(4) by simp
  ultimately obtain st' where 2: "rollback_loop (length es) st2 = Some ((), st')" "db_ok X st'"
    "contents st' = foldr undo es (contents st2)" "entries st' = []" "rest_of st' = rest_of st2"
    using snoc.IH [OF _ 1(3) own 1(5) _ 1(7)] by blast
  have "rollback_loop (length (es @ [e])) st = Some ((), st')"
    using 1(1,2) 2(1) snoc.prems(4) by (subst rollback_loop.simps) (simp add: Let_def)
  then show ?case using snoc.prems(1) 2 1(4,6) by simp
qed

end
