(* ===== verification/Facts_Init.thy ===== *)
theory Facts_Init
  imports Lifecycle Facts_Spec "HOL-Library.Code_Target_Nat"
begin

text \<open>
  A database fresh from \<^verbatim>\<open>facts_init_checked\<close> satisfies the invariant and is empty.
\<close>

text \<open>Nobody holds the writer lock, no transaction is open and no read lock is held.\<close>

definition idle :: "facts \<Rightarrow> bool" where
  "idle st \<longleftrightarrow> tx_level (db_tx st) = 0 \<and> \<not> tx_owned (db_tx st) \<and> tx_readers (db_tx st) = 0 \<and> entries st = []"

lemma new_intern_ok:
  assumes "new_intern h = (Some t, h')"
  shows "symbols_ok {#} t"
proof -
  have t: "t = \<lparr>symbols = raxNew, symbols_delete = True, next_id = 1, pages = []\<rparr>"
    using assms by (auto simp: new_intern_def intern_init_checked_def split: prod.splits bool.splits)
  then have "intern_ok t" "refs t s = None" for s
    by (simp_all add: intern_ok_def rx.ok_empty rx.find_empty pages_ok_def refs_def)
  then show ?thesis by (auto simp: symbols_ok_def held_def split: option.split)
qed

lemma set_init_ok:
  assumes r: "set_init_checked wyhash mx S0 h = (0, S, h')" and mx: "2 \<le> mx"
  shows "ptr_inv reader wyhash KEY_LEN S" "ptr_elems S = {}"
proof -
  have S: "mx \<le> SIZE_MAX div 64" "S = \<lparr>set_max = mx, set_items = replicate mx zero_item, set_count = 0,
                     set_collisions = 0, set_hash = wyhash\<rparr>"
    using r mx by (auto simp: set_init_checked_def split: if_splits prod.splits bool.splits)
  have "set_inv reader S \<and> set_content S = {#}"
    using set_inv_empty(1) [of mx S reader] set_inv_empty(2) [of mx S] mx S by simp
  then show "ptr_inv reader wyhash KEY_LEN S" "ptr_elems S = {}"
    using S(2) by (simp_all add: ptr_inv_def ptr_elems_def)
qed

lemma new_hexastore_ok: "new_hexastore h = (Some x, h') \<Longrightarrow> hexa_ok hp {} x"
  by (auto simp: new_hexastore_def hexa_ok_def trie_of_new Let_def split: prod.splits bool.splits if_splits)

lemma transaction_init_ok: "transaction_init_checked h = (Some tx, h') \<Longrightarrow> tx = transaction_zero"
  by (auto simp: transaction_init_checked_def split: prod.splits bool.splits)

lemma facts_init_ok:
  assumes r: "facts_init_checked wyhash symbols0 mx g = (Some st, g')" and mx: "2 \<le> mx"
    and A: "arena_ok (g_arena g)" and X: "case symbols0 of None \<Rightarrow> X = {#} | Some t \<Rightarrow> symbols_ok X t"
  shows "db_ok X st" "idle st" "stored st = {}" "contents st = Map.empty" "db_staging st = None"
proof -
  let ?table = "case symbols0 of Some t \<Rightarrow> (Some t, g_mem g) | None \<Rightarrow> new_intern (g_mem g)"
  from r obtain t h S h1 x h2 j h3 tx h4 where
    t: "?table = (Some t, h)" and S: "set_init_checked wyhash mx (set_zero wyhash) h = (0, S, h1)" and
    x: "new_hexastore h1 = (Some x, h2)" and tx: "transaction_init_checked h3 = (Some tx, h4)" and
    st: "st = \<lparr>db_symbols = t, db_symbols_delete = (symbols0 = None), db_index = S, db_hexastore = x,
                db_log = None, db_tx = tx, db_prog = None, db_owns_prog = False,
                db_disable_listener = False, db_justifications = j, db_staging = None,
                db_heap = g_heap g, db_arena = arena_init (g_arena g), db_mem = h4, db_rng = g_rng g\<rparr>"
    by (auto simp: facts_init_checked_def init_error_def Let_def split: prod.splits option.splits if_splits)
  note tx0 = transaction_init_ok [OF tx] and S0 = set_init_ok [OF S mx]
  show sto: "stored st = {}" using S0(2) by (simp add: stored_def st)
  have tab: "symbols_ok X t" using t X new_intern_ok by (cases symbols0) auto
  have arena: "arena_ok (arena_init (g_arena g))" using A by (simp add: arena_ok_def arena_init_def)
  have "store_ok st"
    using S0(1) [of "index_rd (db_heap st)"] sto new_hexastore_ok [OF x] arena
    by (simp add: store_ok_def) (simp add: st S0(1) ptr_inv_def)
  then show ok: "db_ok X st"
    using tab sto by (simp add: db_ok_def fact_claims_def) (simp add: st tx0 transaction_zero_def entry_claims_def)
  show "idle st" "db_staging st = None" by (simp_all add: idle_def st tx0 transaction_zero_def)
  show "contents st = Map.empty" by (rule ext) (simp add: contents_absent [OF ok] sto)
qed

section \<open>An example\<close>

text \<open>
  The arena is shared with another database, that has taken all facts of the first page but three.
\<close>

definition ex_globals :: globals where
  "ex_globals =
     \<lparr>g_arena = \<lparr>arena_pool = \<lparr>item_size = 48, items_per_page = 1024, pool_pages = 1, free_list = [3, 4, 5]\<rparr>, ref_count = 1\<rparr>,
      g_heap = \<lambda>_. fact_init P_FIRST P_FIRST P_FIRST, g_mem = [], g_rng = xoshiro256_init\<rparr>"

definition ex_db :: facts where
  "ex_db = the (facts_init (\<lambda>_ _. 0) None 8 ex_globals)"

lemma ex_db_init: "facts_init_checked (\<lambda>_ _. 0) None 8 ex_globals = (Some ex_db, ex_globals\<lparr>g_arena := arena_init (g_arena ex_globals)\<rparr>)"
proof -
  have "\<exists>st. facts_init_checked (\<lambda>_ _. 0) None 8 ex_globals = (Some st, ex_globals\<lparr>g_arena := arena_init (g_arena ex_globals)\<rparr>)"
    by (simp add: facts_init_checked_def ex_globals_def new_intern_def intern_init_checked_def set_init_checked_def
        new_hexastore_def new_justification_graph_def transaction_init_checked_def)
  then show ?thesis by (auto simp: ex_db_def facts_init_def)
qed

lemma ex_globals_arena: "arena_ok (g_arena ex_globals)"
  by (auto simp: ex_globals_def arena_ok_def pool_ok_def)

lemmas ex_db_ok = facts_init_ok [OF ex_db_init _ ex_globals_arena, of "{#}", simplified]

lemma ex_db_tx: "db_tx ex_db = transaction_zero"
proof -
  have "\<exists>st. facts_init_checked (\<lambda>_ _. 0) None 8 ex_globals = (Some st, ex_globals\<lparr>g_arena := arena_init (g_arena ex_globals)\<rparr>) \<and>
      db_tx st = transaction_zero"
    by (simp add: facts_init_checked_def ex_globals_def new_intern_def intern_init_checked_def set_init_checked_def
        new_hexastore_def new_justification_graph_def transaction_init_checked_def)
  then show ?thesis using ex_db_init by auto
qed

lemma ex_db_step:
  "facts_transaction_begin ex_db = Some (0, ex_db\<lparr>db_tx := (db_tx ex_db)\<lparr>tx_owned := True, tx_level := 1\<rparr>\<rparr>)"
  using ex_db_ok(2) by (simp add: facts_transaction_begin_def transaction_begin_def idle_def Let_def)

definition ex_begun :: facts where
  "ex_begun = ex_db\<lparr>db_tx := (db_tx ex_db)\<lparr>tx_owned := True, tx_level := 1\<rparr>\<rparr>"

text \<open>What a transaction that adds one fact returns, with the answers of the allocator it used up.\<close>

lemma ex_add_run:
  "case facts_transaction_begin ex_db of None \<Rightarrow> False | Some (n, st) \<Rightarrow>
     (case facts_add_spo_origin ''a'' ''b'' ''c'' FACT_ORIGIN_ASSERTED st of
        Some (Some a, st') \<Rightarrow> a = 3 \<and> db_mem st' = [] \<and> list_ex (\<lambda>_. True) (entries st')
      | _ \<Rightarrow> False)"
  by code_simp

lemma ex_add:
  obtains st where "facts_add_spo_origin ''a'' ''b'' ''c'' FACT_ORIGIN_ASSERTED ex_begun = Some (Some 3, st)"
    "db_mem st = []" "entries st \<noteq> []"
proof -
  have run: "case facts_add_spo_origin ''a'' ''b'' ''c'' FACT_ORIGIN_ASSERTED ex_begun of
        Some (Some a, st) \<Rightarrow> a = 3 \<and> db_mem st = [] \<and> list_ex (\<lambda>_. True) (entries st)
      | _ \<Rightarrow> False"
    using ex_add_run unfolding ex_db_step [folded ex_begun_def] option.case prod.case .
  obtain r st where r: "facts_add_spo_origin ''a'' ''b'' ''c'' FACT_ORIGIN_ASSERTED ex_begun = Some (r, st)"
    using run by (cases "facts_add_spo_origin ''a'' ''b'' ''c'' FACT_ORIGIN_ASSERTED ex_begun") auto
  show ?thesis using run that [of st] unfolding r by (cases r; cases "entries st") auto
qed

end
