(* ===== verification/Client.thy ===== *)
theory Client
  imports Rollback Facts_Init
begin

text \<open>
  A client inside an outer transaction: any sequence of operations on facts, symbols and nested
  transactions, and the rollback that restores what was there before.
\<close>

section \<open>Journals\<close>

text \<open>
  A system whose steps append to a log what reverts them; replaying the log backwards gives the
  value it had at the start.
\<close>

locale journal =
  fixes inv :: "'s \<Rightarrow> bool" and step :: "'s \<Rightarrow> 's \<Rightarrow> bool" and log :: "'s \<Rightarrow> 'e list" and val :: "'s \<Rightarrow> 'm"
    and app :: "'e \<Rightarrow> 'm \<Rightarrow> bool" and revert :: "'e \<Rightarrow> 'm \<Rightarrow> 'm"
  assumes inv_step: "inv s \<Longrightarrow> step s s' \<Longrightarrow> inv s'"
    and step_log: "inv s \<Longrightarrow> step s s' \<Longrightarrow>
      (log s' = log s \<and> val s' = val s) \<or>
      (\<exists>e. log s' = log s @ [e] \<and> app e (val s') \<and> revert e (val s') = val s)"
begin

lemma steps_inv: "step\<^sup>*\<^sup>* s s' \<Longrightarrow> inv s \<Longrightarrow> inv s'"
  by (induction rule: rtranclp_induct) (auto intro: inv_step)

lemma steps_replay:
  assumes "step\<^sup>*\<^sup>* s s'" "inv s" "replayable app revert (rev (log s)) (val s)"
  shows "replayable app revert (rev (log s')) (val s')" "foldr revert (log s') (val s') = foldr revert (log s) (val s)"
proof -
  have "replayable app revert (rev (log s')) (val s') \<and> foldr revert (log s') (val s') = foldr revert (log s) (val s)"
    using assms
  proof (induction rule: rtranclp_induct)
    case (step t u)
    have "inv t" by (rule steps_inv [OF step.hyps(1) step.prems(1)])
    from step_log [OF this step.hyps(2)] step show ?case by auto
  qed simp
  then show "replayable app revert (rev (log s')) (val s')" "foldr revert (log s') (val s') = foldr revert (log s) (val s)"
    by simp_all
qed

end

section \<open>The client\<close>

type_synonym client = "symbol multiset \<times> facts"

text \<open>The client's references to symbols, and the database.\<close>

inductive client_step :: "client \<Rightarrow> client \<Rightarrow> bool" where
  add: "length s \<le> MAX_STRING \<Longrightarrow> length p \<le> MAX_STRING \<Longrightarrow> length ob \<le> MAX_STRING \<Longrightarrow>
    facts_add_spo_origin s p ob og st = Some (r, st') \<Longrightarrow> client_step (X, st) (X, st')"
| remove: "facts_remove_spo_origin s p ob og st = Some (n, st') \<Longrightarrow> client_step (X, st) (X, st')"
| intern: "length s \<le> MAX_STRING \<Longrightarrow> facts_intern s st = Some (y, st') \<Longrightarrow> client_step (X, st) (nn y + X, st')"
| unintern: "y \<in># X \<Longrightarrow> facts_unintern y st = Some (u, st') \<Longrightarrow> client_step (X, st) (X - {#y#}, st')"
| support: "facts_get_support_spo s p ob st = Some (v, st') \<Longrightarrow> client_step (X, st) (X, st')"
| nested: "facts_transaction_begin st = Some (n, st') \<Longrightarrow> client_step (X, st) (X, st')"
| inner: "tx_level (db_tx st) > 1 \<Longrightarrow> facts_transaction_commit cb st = Some (n, st') \<Longrightarrow> client_step (X, st) (X, st')"
| listener: "client_step (X, st) (X, facts_register_tx_listener l st)"
| internal_listener: "client_step (X, st) (X, facts_register_internal_tx_listener l st)"

inductive_cases client_step_cases: "client_step (X, st) (X', st')"

definition in_transaction :: "client \<Rightarrow> bool" where
  "in_transaction = (\<lambda>(X, st). db_ok X st \<and> tx_owned (db_tx st) \<and> tx_level (db_tx st) \<ge> 1 \<and> tx_readers (db_tx st) = 0)"

text \<open>Changing the level, the lock or the staged graph changes nothing the invariant speaks of.\<close>

lemma db_ok_tx:
  assumes "rb_entries (tx_rollback tx) = entries st"
  shows "db_ok X (st\<lparr>db_tx := tx\<rparr>) = db_ok X st"
  using assms by (simp add: db_ok_def store_ok_def stored_def fact_claims_def)

lemma support_same:
  assumes ok: "db_ok X st" and own: "tx_owned (db_tx st)"
  shows "facts_get_support_spo s p ob st =
    Some (case contents st (s, p, ob) of
        None \<Rightarrow> (False, \<lparr>sup_asserted = 0, sup_derived = 0\<rparr>)
      | Some (a, d) \<Rightarrow> (True, \<lparr>sup_asserted = a, sup_derived = d\<rparr>), st)"
proof (cases rule: lookup_contents [OF ok, of s p ob, case_names absent found])
  case absent
  then show ?thesis
    by (simp add: facts_get_support_spo_def with_reader_owned [OF own])
next
  case (found a)
  then show ?thesis
    by (simp add: facts_get_support_spo_def with_reader_owned [OF own] supp_of_def)
qed

lemma in_transactionD:
  assumes "in_transaction (X, st)"
  shows "db_ok X st" "tx_owned (db_tx st)" "1 \<le> tx_level (db_tx st)" "tx_readers (db_tx st) = 0" "can_write st"
  using assms by (simp_all add: in_transaction_def can_write_def)

lemma in_transaction_rest:
  assumes "in_transaction (X, st)" "db_ok Y st'" "rest_of st' = rest_of st"
  shows "in_transaction (Y, st')"
  using assms(1,2) rest_of_tx(1-3) [OF assms(3)] by (simp add: in_transaction_def)

definition good_step :: "client \<Rightarrow> client \<Rightarrow> bool" where
  "good_step c c' \<longleftrightarrow> in_transaction c' \<and> logged (snd c) (snd c')"

lemma good_step_same:
  assumes "in_transaction (X, st)" "db_ok Y st'" "same_facts st st'"
  shows "good_step (X, st) (Y, st')"
  using assms in_transaction_rest [OF assms(1,2)] contents_same [OF in_transactionD(1) [OF assms(1)] assms(2,3)]
  by (simp add: good_step_def same_facts_def logged_refl)

lemma good_step_tx:
  assumes "in_transaction (X, st)" "st' = st\<lparr>db_tx := tx\<rparr>" "1 \<le> tx_level tx" "tx_owned tx" "tx_readers tx = 0"
    "rb_entries (tx_rollback tx) = entries st"
  shows "good_step (X, st) (X, st')"
proof -
  have "contents st' = contents st" by (rule contents_frame) (simp_all add: assms(2))
  then show ?thesis
    using assms by (simp add: good_step_def in_transaction_def db_ok_tx logged_refl)
qed

lemma client_step_good:
  assumes inv: "in_transaction c" and step: "client_step c c'"
  shows "good_step c c'"
  using step inv
proof (cases rule: client_step.cases)
  case (add s p ob og st r st' X)
  note i = in_transactionD [OF inv [unfolded add(1)]]
  show ?thesis
  proof (cases rule: add_spo_origin_ok [OF i(1,5) add(3-5), of og, case_names no yes])
    case (no s')
    then show ?thesis using good_step_same [OF inv [unfolded add(1)] no(2,3)] add by simp
  next
    case (yes a s')
    then show ?thesis
      using in_transaction_rest [OF inv [unfolded add(1)] yes(2,6)] add by (simp add: good_step_def)
  qed
next
  case (remove s p ob og st n st' X)
  note i = in_transactionD [OF inv [unfolded remove(1)]]
  show ?thesis
  proof (cases rule: remove_spo_origin_ok [OF i(1,5), of s p ob og, case_names no yes])
    case (no s')
    then show ?thesis using good_step_same [OF inv [unfolded remove(1)] no(2,3)] remove by simp
  next
    case (yes n s')
    then show ?thesis
      using in_transaction_rest [OF inv [unfolded remove(1)] yes(2,5)] remove by (simp add: good_step_def)
  qed
next
  case (intern s st y st' X)
  note i = in_transactionD [OF inv [unfolded intern(1)]]
  from intern_maybe [OF i(1,5) intern(3)] obtain y' s' where 1: "facts_intern s st = Some (y', s')" "symbols_only st s'"
    "db_ok (nn y' + X) s'" by blast
  then show ?thesis
    using good_step_same [OF inv [unfolded intern(1)] 1(3) symbols_only_same_facts [OF 1(2)]] intern by simp
next
  case (unintern y X st u st')
  note i = in_transactionD [OF inv [unfolded unintern(1)]]
  have "symbols_ok (add_mset y (fact_claims st + entry_claims (entries st) + (X - {#y#}))) (db_symbols st)"
    using db_ok_table [OF i(1)] unintern(3) by (simp add: subset_mset.add_diff_assoc)
  from unintern_owned [OF this i(5)] obtain s' where 1: "facts_unintern y st = Some ((), s')" "symbols_only st s'"
    "symbols_ok (fact_claims st + entry_claims (entries st) + (X - {#y#})) (db_symbols s')" .
  note ok' = db_ok_symbols [OF i(1) 1(2,3)]
  show ?thesis
    using good_step_same [OF inv [unfolded unintern(1)] ok' symbols_only_same_facts [OF 1(2)]] 1 unintern by simp
next
  case (support s p ob st v st' X)
  note i = in_transactionD [OF inv [unfolded support(1)]]
  have "st' = st" using support(3) support_same [OF i(1,2)] by simp
  then show ?thesis using good_step_same [OF inv [unfolded support(1)] i(1)] support by simp
next
  case (nested st n st' X)
  note i = in_transactionD [OF inv [unfolded nested(1)]]
  from nested(3) i(2) have "st' = st\<lparr>db_tx := (db_tx st)\<lparr>tx_level := tx_level (db_tx st) + 1\<rparr>\<rparr>"
    by (simp add: facts_transaction_begin_def transaction_begin_def Let_def split: if_splits)
  then show ?thesis using good_step_tx [OF inv [unfolded nested(1)]] i(2-4) nested by simp
next
  case (inner st cb n st' X)
  note i = in_transactionD [OF inv [unfolded inner(1)]]
  from inner(3,4) i(2) have "st' = st\<lparr>db_tx := (db_tx st)\<lparr>tx_level := tx_level (db_tx st) - 1\<rparr>\<rparr>"
    by (simp add: facts_transaction_commit_def transaction_commit_def transaction_commit_impl_def may_finish_def Let_def)
  then show ?thesis using good_step_tx [OF inv [unfolded inner(1)]] i(2-4) inner by simp
next
  case (listener X st l)
  note i = in_transactionD [OF inv [unfolded listener(1)]]
  show ?thesis
    using good_step_tx [OF inv [unfolded listener(1)] facts_register_tx_listener_def] i(2-4) listener by simp
next
  case (internal_listener X st l)
  note i = in_transactionD [OF inv [unfolded internal_listener(1)]]
  show ?thesis
    using good_step_tx [OF inv [unfolded internal_listener(1)] facts_register_internal_tx_listener_def] i(2-4)
      internal_listener by simp
qed

interpretation cl: journal in_transaction client_step "\<lambda>c. entries (snd c)" "\<lambda>c. contents (snd c)" applies undo
proof
  fix c c' assume c: "in_transaction c" "client_step c c'"
  note g = client_step_good [OF c, unfolded good_step_def]
  then show "in_transaction c'" by simp
  have "tx_level (db_tx (snd c)) > 0" using c(1) by (auto simp: in_transaction_def)
  then show "entries (snd c') = entries (snd c) \<and> contents (snd c') = contents (snd c) \<or>
      (\<exists>e. entries (snd c') = entries (snd c) @ [e] \<and> applies e (contents (snd c')) \<and>
        undo e (contents (snd c')) = contents (snd c))"
    using g unfolding logged_def pushed_def by auto
qed


section \<open>The rollback of a client's transaction\<close>

lemma size_entry_claims: "size (entry_claims es) = 3 * length es"
  by (induction es) (simp_all add: entry_claims_def fsyms_def)

lemma size_fact_claims: "size (fact_claims st) = 3 * card (stored st)"
proof -
  have "finite (stored st)" by (simp add: stored_def finite_ptr_elems)
  then show ?thesis
    unfolding fact_claims_def by (induction rule: finite_induct) (simp_all add: fsyms_def)
qed

lemma count_total:
  assumes "card (stored st) + length (entries st) \<le> 2 ^ 55" "size X < 2 ^ 62"
  shows "count (total X st) y < 2 ^ 64 - 4"
proof -
  have "count (total X st) y \<le> size (total X st)" by (rule count_le_size)
  also have "\<dots> = 3 * (card (stored st) + length (entries st)) + size X"
    by (simp add: total_def size_entry_claims size_fact_claims)
  finally show ?thesis using assms by simp
qed

lemma discard_simps [simp]:
  "entries (facts_justifications_discard st) = entries st" "db_ok X (facts_justifications_discard st) = db_ok X st"
  "db_tx (facts_justifications_discard st) = db_tx st" "stored (facts_justifications_discard st) = stored st"
  "db_mem (facts_justifications_discard st) = db_mem st" "contents (facts_justifications_discard st) = contents st"
  "total X (facts_justifications_discard st) = total X st"
proof -
  show "contents (facts_justifications_discard st) = contents st"
    by (rule contents_frame) (simp_all add: facts_justifications_discard_def)
qed (simp_all add: facts_justifications_discard_def db_ok_def store_ok_def stored_def fact_claims_def total_def)

lemma finish_simps [simp]:
  "db_ok X (finish st) = db_ok X st" "contents (finish st) = contents st" "entries (finish st) = entries st"
proof -
  show "contents (finish st) = contents st" by (rule contents_frame) (simp_all add: finish_def)
qed (simp_all add: finish_def db_ok_tx)

lemma client_rollback:
  assumes ok: "db_ok X0 st0" and idle: "idle st0" and start: "facts_transaction_begin st0 = Some (n, st1)"
    and steps: "client_step\<^sup>*\<^sup>* (X0, st1) (X, st)"
    and room: "db_mem st = []" "card (stored st) + length (entries st) \<le> 2 ^ 55" "size X < 2 ^ 62"
  shows "\<exists>st'. facts_transaction_rollback st = Some (0, st') \<and> db_ok X st' \<and> idle st' \<and> contents st' = contents st0"
proof -
  from start idle have st1: "st1 = st0\<lparr>db_tx := (db_tx st0)\<lparr>tx_owned := True, tx_level := 1\<rparr>\<rparr>"
    by (simp add: facts_transaction_begin_def transaction_begin_def idle_def Let_def)
  have inv1: "in_transaction (X0, st1)"
    using ok idle by (simp add: st1 in_transaction_def db_ok_tx idle_def)
  note inv = in_transactionD [OF cl.steps_inv [OF steps inv1]]
  have "contents st1 = contents st0" by (rule contents_frame) (simp_all add: st1)
  moreover have "entries st1 = []" using idle by (simp add: st1 idle_def)
  ultimately have replay: "chain (entries st) (contents st)" "foldr undo (entries st) (contents st) = contents st0"
    using cl.steps_replay [OF steps inv1] by (simp_all add: chain_def)
  let ?s = "facts_justifications_discard st"
  have "db_ok X ?s" "tx_owned (db_tx ?s)" "entries ?s = entries st" "chain (entries st) (contents ?s)" "db_mem ?s = []"
    "card (stored ?s) + length (entries st) \<le> 2 ^ 55" "\<forall>y. count (total X ?s) y < 2 ^ 64 - 4"
    using inv(1,2) replay(1) room(1,2) count_total [OF room(2,3)] by simp_all
  from rollback_loop_ok [OF this] obtain st' where 1: "rollback_loop (length (entries st)) ?s = Some ((), st')" "db_ok X st'"
    "contents st' = foldr undo (entries st) (contents ?s)" "entries st' = []" "rest_of st' = rest_of ?s" .
  have "facts_transaction_rollback st = Some (0, finish st')"
    using inv(2,3) 1(1) by (simp add: facts_transaction_rollback_def transaction_rollback_def may_finish_def)
  moreover have "idle (finish st')"
    using 1(4) rest_of_tx(3) [OF 1(5)] inv(4) by (simp add: idle_def finish_def)
  ultimately show ?thesis using 1(2,3) replay(2) by auto
qed

text \<open>
  C2: A transaction that is rolled back leaves no trace. From a consistent database with no open
  transaction, \<^verbatim>\<open>facts_transaction_begin\<close>, any sequence of operations of the client (adding and
  removing support of facts, also refused ones, interning and releasing symbols, reading, nested
  transactions) and \<^verbatim>\<open>facts_transaction_rollback\<close>: if the allocator has memory for the replay and
  the sizes are below the stated bounds, the rollback returns 0, the facts and their supports are
  those at the beginning, the lock is free, and every symbol is held as often as the database
  and the client use it.
\<close>

theorem rollback_restores:
  assumes ok: "db_ok X0 st0" and idle: "idle st0" and start: "facts_transaction_begin st0 = Some (n, st1)"
    and steps: "client_step\<^sup>*\<^sup>* (X0, st1) (X, st)"
    and room: "db_mem st = []" "card (stored st) + length (entries st) \<le> 2 ^ 55" "size X < 2 ^ 62"
  shows "\<exists>st'. facts_transaction_rollback st = Some (0, st') \<and> db_ok X st' \<and> idle st' \<and> contents st' = contents st0"
  by (rule client_rollback [OF assms])

lemma ex_client:
  obtains st where "client_step\<^sup>*\<^sup>* ({#}, ex_begun) ({#}, st)" "db_mem st = []" "entries st \<noteq> []"
    "card (stored st) + length (entries st) \<le> 2 ^ 55" "tx_level (db_tx st) = 1" "contents st (''a'', ''b'', ''c'') = Some (1, 0)"
    "tx_listener (db_tx st) = None" "tx_internal_listener (db_tx st) = None"
proof (rule ex_add)
  fix st assume a: "facts_add_spo_origin ''a'' ''b'' ''c'' FACT_ORIGIN_ASSERTED ex_begun = Some (Some 3, st)"
    "db_mem st = []" "entries st \<noteq> []"
  have ok: "db_ok {#} ex_begun" using ex_db_ok(1) by (simp add: ex_begun_def db_ok_tx)
  have sto: "stored ex_begun = {}" using ex_db_ok(3) by (simp add: ex_begun_def stored_def)
  have w: "can_write ex_begun" by (simp add: ex_begun_def can_write_def)
  have e: "entries ex_begun = []" using ex_db_ok(2) by (simp add: ex_begun_def idle_def)
  have "contents ex_begun = contents ex_db" by (rule contents_frame) (simp_all add: ex_begun_def)
  then have c: "contents ex_begun = Map.empty" using ex_db_ok(4) by simp
  have t: "tx_level (db_tx ex_begun) = 1" "tx_listener (db_tx ex_begun) = None" "tx_internal_listener (db_tx ex_begun) = None"
    by (simp_all add: ex_begun_def ex_db_tx transaction_zero_def)
  have "card (stored st) \<le> 1 \<and> length (entries st) \<le> 1 \<and> rest_of st = rest_of ex_begun \<and>
      contents st = sp_add FACT_ORIGIN_ASSERTED (''a'', ''b'', ''c'') (contents ex_begun)"
    by (rule add_spo_origin_ok [OF ok w, of "''a''" "''b''" "''c''" FACT_ORIGIN_ASSERTED])
      (use a(1) sto e in \<open>auto simp: logged_def pushed_def\<close>)
  moreover have "client_step\<^sup>*\<^sup>* ({#}, ex_begun) ({#}, st)"
    by (rule r_into_rtranclp, rule client_step.add [OF _ _ _ a(1)]) simp_all
  ultimately show thesis
    using that [of st] a(2,3) t by (auto simp: c sp_add_def rest_of_def tx_rest_def)
qed

theorem rollback_restores_witness:
  "\<exists>st st'. client_step\<^sup>*\<^sup>* ({#}, ex_begun) ({#}, st) \<and> contents st (''a'', ''b'', ''c'') = Some (1, 0) \<and>
     facts_transaction_rollback st = Some (0, st') \<and> idle st' \<and> contents st' = Map.empty"
proof (rule ex_client)
  fix st assume a: "client_step\<^sup>*\<^sup>* ({#}, ex_begun) ({#}, st)" "db_mem st = []"
    "card (stored st) + length (entries st) \<le> 2 ^ 55" "contents st (''a'', ''b'', ''c'') = Some (1, 0)"
  show ?thesis
    using rollback_restores [OF ex_db_ok(1,2) ex_db_step [folded ex_begun_def] a(1,2,3)] a(1,4) ex_db_ok(4) by auto
qed

end
