(* ===== verification/Commit.thy ===== *)
theory Commit
  imports Client
begin

text \<open>
  Committing a client's transaction: the entries' references are given back and the facts stay;
  a listener that refuses the commit, or memory that cannot be had for it, rolls everything back.
\<close>

section \<open>Giving the references of the entries back\<close>

lemma unintern_entries_owned:
  assumes "symbols_ok (entry_claims es + Y) (db_symbols st)" "can_write st"
  obtains st' where "unintern_entries es st = Some ((), st')" "symbols_only st st'" "symbols_ok Y (db_symbols st')"
  using assms
proof (induction es arbitrary: st thesis)
  case Nil
  show ?case by (rule Nil.prems(1) [of st]) (use Nil.prems in \<open>simp_all add: entry_claims_def\<close>)
next
  case (Cons e es)
  have "symbols_ok (fsyms (re_fact e) + (entry_claims es + Y)) (db_symbols st)"
    using Cons.prems(2) by (simp add: entry_claims_def ac_simps)
  from unintern_fact_owned [OF this Cons.prems(3)] obtain st1 where 1: "unintern_fact (re_fact e) st = Some ((), st1)"
    "symbols_only st st1" "symbols_ok (entry_claims es + Y) (db_symbols st1)" .
  have "can_write st1" using symbols_only_can_write [OF 1(2)] Cons.prems(3) by simp
  from Cons.IH [OF _ 1(3) this] obtain st' where 2: "unintern_entries es st1 = Some ((), st')" "symbols_only st1 st'"
    "symbols_ok Y (db_symbols st')" by blast
  show ?case
    by (rule Cons.prems(1) [of st']) (use 1(1) 2 symbols_only_trans [OF 1(2) 2(2)] in simp_all)
qed

lemma commit_entries:
  assumes ok: "db_ok X st" and w: "can_write st"
  obtains st1 where "unintern_entries (entries st) st = Some ((), st1)" "db_ok X (finish (set_entries [] st1))"
    "contents (finish (set_entries [] st1)) = contents st" "symbols_only st st1"
proof -
  have "symbols_ok (entry_claims (entries st) + (fact_claims st + X)) (db_symbols st)"
    using db_ok_table [OF ok] by (simp add: ac_simps)
  from unintern_entries_owned [OF this w] obtain st1 where 1: "unintern_entries (entries st) st = Some ((), st1)"
    "symbols_only st st1" "symbols_ok (fact_claims st + X) (db_symbols st1)" .
  note o = symbols_only_same [OF 1(2)]
  have ok1: "db_ok X (set_entries [] st1)"
    using 1(3) o(4,6) db_ok_store [OF ok] by (simp add: db_ok_def entry_claims_def)
  moreover have "contents (set_entries [] st1) = contents st"
    by (rule contents_cong [OF ok ok1]) (simp_all add: o)
  ultimately show ?thesis using that [OF 1(1) _ _ 1(2)] by simp
qed

lemma justifications_commit_simps [simp]:
  "entries (facts_justifications_commit st) = entries st" "db_ok X (facts_justifications_commit st) = db_ok X st"
  "db_tx (facts_justifications_commit st) = db_tx st" "contents (facts_justifications_commit st) = contents st"
proof -
  show "contents (facts_justifications_commit st) = contents st"
    by (rule contents_frame) (simp_all add: facts_justifications_commit_def split: option.split)
qed (simp_all add: facts_justifications_commit_def db_ok_def store_ok_def stored_def fact_claims_def split: option.split)

text \<open>The callbacks that see the commit: none, or ones that leave the database as it is.\<close>

definition quiet :: "callbacks \<Rightarrow> bool" where
  "quiet cb \<longleftrightarrow> (\<forall>i es st. \<exists>r. cb_listener cb i es st = Some (r, st)) \<and>
     (\<forall>i st. cb_observer cb i st = Some ((), st)) \<and> (\<forall>i sm st. cb_summary cb i sm st = Some ((), st))"

definition vetoed :: "callbacks \<Rightarrow> facts \<Rightarrow> bool" where
  "vetoed cb st \<longleftrightarrow> entries st \<noteq> [] \<and>
     (\<exists>i r. (tx_internal_listener (db_tx st) = Some i \<or> tx_listener (db_tx st) = Some i) \<and>
        cb_listener cb i (entries st) st = Some (r, st) \<and> r \<noteq> 0)"

lemma call_quiet:
  assumes "quiet cb"
  shows "call_observer cb ob st = Some ((), st)" "call_summary cb ob sm st = Some ((), st)"
    "\<exists>r. call_listener cb l es st = Some (r, st)"
  using assms by (auto simp: quiet_def call_observer_def call_summary_def call_listener_def split: option.split)

lemma run_listeners_quiet:
  assumes q: "quiet cb" and mem: "db_mem st = []"
  shows "run_listeners cb False st =
    (if vetoed cb st then map_option (\<lambda>(_, st). (False, st)) (transaction_rollback st) else Some (True, st))"
proof -
  have mem': "st\<lparr>db_mem := []\<rparr> = st" using mem by (cases st) simp
  obtain r1 where r1: "call_listener cb (tx_internal_listener (db_tx st)) (entries st) st = Some (r1, st)"
    using call_quiet(3) [OF q] by blast
  obtain r2 where r2: "call_listener cb (tx_listener (db_tx st)) (entries st) st = Some (r2, st)"
    using call_quiet(3) [OF q] by blast
  have veto: "vetoed cb st \<longleftrightarrow> entries st \<noteq> [] \<and> (r1 \<noteq> 0 \<or> r2 \<noteq> 0)"
  proof -
    have *: "(\<exists>i r. l = Some i \<and> cb_listener cb i (entries st) st = Some (r, st) \<and> r \<noteq> 0) \<longleftrightarrow> r' \<noteq> 0"
      if "call_listener cb l (entries st) st = Some (r', st)" for l r'
      using that by (auto simp: call_listener_def split: option.splits)
    show ?thesis unfolding vetoed_def using * [OF r1] * [OF r2] by blast
  qed
  have none: "r1 = 0 \<and> r2 = 0" if "tx_internal_listener (db_tx st) = None" "tx_listener (db_tx st) = None"
    using r1 r2 that by (simp add: call_listener_def)
  show ?thesis
  proof (cases "(tx_internal_listener (db_tx st) \<noteq> None \<or> tx_listener (db_tx st) \<noteq> None) \<and> entries st \<noteq> []")
    case True
    have "(if r1 = 0 then call_listener cb (tx_listener (db_tx st)) (entries st) st else Some (r1, st)) =
        Some (if r1 = 0 then r2 else r1, st)" using r2 by simp
    with True r1 veto show ?thesis
      unfolding run_listeners_def Let_def mem malloc.simps prod.case bool.case mem'
      by (cases "transaction_rollback st") auto
  next
    case False
    then show ?thesis using veto none by (auto simp: run_listeners_def Let_def)
  qed
qed

lemma client_commit:
  assumes ok: "db_ok X0 st0" and idle: "idle st0" and start: "facts_transaction_begin st0 = Some (n, st1)"
    and steps: "client_step\<^sup>*\<^sup>* (X0, st1) (X, st)" and outer: "tx_level (db_tx st) = 1" and q: "quiet cb"
    and room: "db_mem st = []" "card (stored st) + length (entries st) \<le> 2 ^ 55" "size X < 2 ^ 62"
  shows "\<exists>r st'. facts_transaction_commit cb st = Some (r, st') \<and> db_ok X st' \<and> idle st' \<and>
    (if vetoed cb st then r = - 1 \<and> contents st' = contents st0 else r = 0 \<and> contents st' = contents st)"
proof -
  from start idle have st1: "st1 = st0\<lparr>db_tx := (db_tx st0)\<lparr>tx_owned := True, tx_level := 1\<rparr>\<rparr>"
    by (simp add: facts_transaction_begin_def transaction_begin_def idle_def Let_def)
  have "in_transaction (X0, st1)" using ok idle by (simp add: st1 in_transaction_def db_ok_tx idle_def)
  note inv = in_transactionD [OF cl.steps_inv [OF steps this]]
  note listen = run_listeners_quiet [OF q room(1)]
  have fin: "may_finish (db_tx st)" using inv(2,3) by (simp add: may_finish_def)
  show ?thesis
  proof (cases "vetoed cb st")
    case True
    from client_rollback [OF ok idle start steps room] obtain st' where
      1: "transaction_rollback st = Some (0, st')" "db_ok X st'" "idle st'" "contents st' = contents st0"
      unfolding facts_transaction_rollback_def by blast
    have "facts_transaction_commit cb st = Some (- 1, st')"
      using fin outer listen True 1(1)
      by (simp add: facts_transaction_commit_def transaction_commit_def transaction_commit_impl_def Let_def)
    with 1 True show ?thesis by auto
  next
    case False
    let ?s = "facts_justifications_commit st"
    have s: "db_ok X ?s" "can_write ?s" using inv(1,5) by (simp_all add: can_write_def)
    from commit_entries [OF s] obtain st1 where 1: "unintern_entries (entries ?s) ?s = Some ((), st1)"
      "db_ok X (finish (set_entries [] st1))" "contents (finish (set_entries [] st1)) = contents ?s" "symbols_only ?s st1" .
    let ?st' = "finish (set_entries [] st1)"
    have "facts_transaction_commit cb st = Some (0, ?st')"
      using fin outer listen False 1(1) call_quiet(1,2) [OF q]
      by (simp add: facts_transaction_commit_def transaction_commit_def transaction_commit_impl_def Let_def
          split: prod.split)
    moreover have "idle ?st'"
      using symbols_only_same(5) [OF 1(4)] inv(4) by (simp add: idle_def finish_def set_entries_def)
    ultimately show ?thesis using 1(2,3) False by auto
  qed
qed

text \<open>
  C11: Committing the outer transaction of a client, with listeners and observers that do not
  change the database. When no listener refuses, the commit returns 0, the contents are those the
  client left, no transaction is open, and the references the rollback entries held are given
  back. When a listener refuses, the commit returns -1 and the contents are those before the
  transaction; the staged justifications are dropped.
\<close>

theorem commit_or_veto:
  assumes ok: "db_ok X0 st0" and idle: "idle st0" and start: "facts_transaction_begin st0 = Some (n, st1)"
    and steps: "client_step\<^sup>*\<^sup>* (X0, st1) (X, st)" and outer: "tx_level (db_tx st) = 1" and q: "quiet cb"
    and room: "db_mem st = []" "card (stored st) + length (entries st) \<le> 2 ^ 55" "size X < 2 ^ 62"
  shows "\<exists>r st'. facts_transaction_commit cb st = Some (r, st') \<and> db_ok X st' \<and> idle st' \<and>
    (if vetoed cb st then r = - 1 \<and> contents st' = contents st0 else r = 0 \<and> contents st' = contents st)"
  by (rule client_commit [OF assms])

definition ex_callbacks :: callbacks where
  "ex_callbacks = \<lparr>cb_listener = \<lambda>i es st. Some (if i = 7 then - 1 else 0, st), cb_observer = \<lambda>_ st. Some ((), st),
     cb_summary = \<lambda>_ _ st. Some ((), st)\<rparr>"

lemma ex_callbacks_quiet: "quiet ex_callbacks"
  by (simp add: quiet_def ex_callbacks_def)

theorem commit_or_veto_witness:
  "\<exists>st st' st''. client_step\<^sup>*\<^sup>* ({#}, ex_begun) ({#}, st) \<and> contents st (''a'', ''b'', ''c'') = Some (1, 0) \<and>
     facts_transaction_commit ex_callbacks st = Some (0, st') \<and> contents st' = contents st \<and>
     facts_transaction_commit ex_callbacks (facts_register_tx_listener (Some 7) st) = Some (- 1, st'') \<and>
     contents st'' = Map.empty"
proof (rule ex_client)
  fix st assume a: "client_step\<^sup>*\<^sup>* ({#}, ex_begun) ({#}, st)" "db_mem st = []" "entries st \<noteq> []"
    "card (stored st) + length (entries st) \<le> 2 ^ 55" "tx_level (db_tx st) = 1" "contents st (''a'', ''b'', ''c'') = Some (1, 0)"
    "tx_listener (db_tx st) = None" "tx_internal_listener (db_tx st) = None"
  note main = commit_or_veto [OF ex_db_ok(1,2) ex_db_step [folded ex_begun_def] _ _ ex_callbacks_quiet]
  have 1: "\<not> vetoed ex_callbacks st" using a(7,8) by (simp add: vetoed_def)
  let ?s = "facts_register_tx_listener (Some 7) st"
  have step: "client_step\<^sup>*\<^sup>* ({#}, ex_begun) ({#}, ?s)"
    using a(1) client_step.listener by (rule rtranclp.rtrancl_into_rtrancl)
  have 2: "vetoed ex_callbacks ?s" using a(3) by (simp add: vetoed_def ex_callbacks_def facts_register_tx_listener_def)
  have "stored ?s = stored st" by (simp add: facts_register_tx_listener_def stored_def)
  with main [OF a(1,5,2,4)] main [OF step] 1 2 a show ?thesis
    using ex_db_ok(4) by (auto simp: facts_register_tx_listener_def)
qed

end
