(* ===== verification/Memory.thy ===== *)
theory Memory
  imports Client
begin

text \<open>
  Where no allocation is going to fail, none is after the operations that insert facts either: the
  list of outcomes is empty before and after.
\<close>

section \<open>The components\<close>

lemma raxInsert_spares: "raxInsert t k v [] = (r, t', h) \<Longrightarrow> h = []"
  by (auto simp: raxInsert_def)

lemma hexastore_insert_spares: "hexastore_insert x a f [] = (r, x', h) \<Longrightarrow> h = []"
  unfolding hexastore_insert_def by (auto split: prod.splits if_splits dest!: raxInsert_spares)

lemma intern_alloc_spares: "intern_alloc ps n [] = (r, ps', h) \<Longrightarrow> h = []"
  by (auto simp: intern_alloc_def new_page_def Let_def split: if_splits prod.splits)

lemma intern_add_spares: "intern_add t k [] = (r, t', h) \<Longrightarrow> h = []"
  by (auto simp: intern_add_def Let_def split: if_splits prod.splits option.splits
      dest!: intern_alloc_spares raxInsert_spares)

lemma intern_string_spares: "intern_string t s [] = (y, t', h) \<Longrightarrow> h = []"
  by (auto simp: intern_string_def intern_string_view_def Let_def split: if_splits prod.splits option.splits
      dest!: intern_add_spares)

lemma slab_pool_alloc_spares: "slab_pool_alloc p n [] = (r, p', h) \<Longrightarrow> h = []"
  by (auto simp: slab_pool_alloc_def Let_def split: if_splits list.splits)

lemma arena_alloc_fact_spares: "arena_alloc_fact A [] = (r, A', h) \<Longrightarrow> h = []"
  by (auto simp: arena_alloc_fact_def split: prod.splits dest!: slab_pool_alloc_spares)

lemma reinsert_spares:
  assumes "\<And>it S r S' h. add it S [] = Some (r, S', h) \<Longrightarrow> h = []"
  shows "reinsert add its S [] = Some (b, S', h) \<Longrightarrow> h = []"
proof (induction its arbitrary: S)
  case (Cons it its)
  then show ?case
    by (auto split: if_splits option.splits prod.splits dest!: assms)
qed simp

lemma set_fuel_spares:
  "set_add_fuel n key d len hash S [] = Some (r, S', h) \<Longrightarrow> h = []"
  "set_resize_fuel n key mx S [] = Some (c, S', h) \<Longrightarrow> h = []"
proof (induction n arbitrary: d len hash mx S r c S' h)
  case 0
  { case 1 then show ?case by (cases d) simp_all }
  { case 2 then show ?case by simp }
next
  case (Suc n)
  { case 1
    then show ?case by (cases d) (auto split: if_splits option.splits prod.splits dest!: Suc.IH(2)) }
  { case 2
    then show ?case
      by (auto split: if_splits option.splits prod.splits bool.splits dest!: reinsert_spares [rotated] dest: Suc.IH(1)) }
qed

lemma set_add_spares: "set_add key S d len [] = Some (r, S', h) \<Longrightarrow> h = []"
  unfolding set_add_def set_add_h_def by (rule set_fuel_spares)

lemma unat_next: "unat (x + 1 :: u64) \<le> Suc (unat x)"
  using mod_less_eq_dividend [of "unat x + 1" "2 ^ 64"] by (simp add: unat_word_ariths)

lemma intern_add_next: "intern_add t k h = (r, t', h') \<Longrightarrow> unat (next_id t') \<le> Suc (unat (next_id t))"
  by (auto simp: intern_add_def Let_def unat_next split: if_splits prod.splits option.splits bool.splits)

lemma intern_string_next: "intern_string t s h = (y, t', h') \<Longrightarrow> unat (next_id t') \<le> Suc (unat (next_id t))"
  by (auto simp: intern_string_def intern_string_view_def set_usage_def Let_def split: if_splits prod.splits option.splits
      dest!: intern_add_next)

lemma intern_unstring_next: "intern_unstring t y = Some t' \<Longrightarrow> next_id t' = next_id t"
  by (auto simp: intern_unstring_def set_usage_def Let_def split: option.splits if_splits)

section \<open>The actions\<close>

text \<open>
  What an action that inserts may do to the allocator, to the next number of a symbol (which grows by
  at most \<open>k\<close>) and to the rollback stack (which is not cut, and whose room is not doubled in vain).
\<close>

abbreviation room_of :: "facts \<Rightarrow> nat" where
  "room_of st \<equiv> rb_capacity (tx_rollback (db_tx st))"

definition calm :: "nat \<Rightarrow> facts \<Rightarrow> facts \<Rightarrow> bool" where
  "calm k st st' \<longleftrightarrow> (db_mem st = [] \<longrightarrow> db_mem st' = []) \<and>
     unat (next_id (db_symbols st')) \<le> unat (next_id (db_symbols st)) + k \<and>
     length (entries st) \<le> length (entries st') \<and> room_of st' \<le> max (room_of st) (2 * length (entries st') + 16)"

lemma calm_refl: "calm k st st"
  by (simp add: calm_def)

lemma calm_trans: "calm j st st1 \<Longrightarrow> calm k st1 st2 \<Longrightarrow> calm (j + k) st st2"
  by (auto simp: calm_def)

lemma calm_mono: "calm j st st' \<Longrightarrow> j \<le> k \<Longrightarrow> calm k st st'"
  by (auto simp: calm_def)

definition within :: "nat \<Rightarrow> facts \<Rightarrow> ('a \<times> facts) option \<Rightarrow> bool" where
  "within k st m \<longleftrightarrow> (\<forall>r st'. m = Some (r, st') \<longrightarrow> calm k st st')"

lemma within_simps [simp]: "within k st None" "within k st (Some (r, st')) \<longleftrightarrow> calm k st st'"
  by (simp_all add: within_def)

lemma within_bind:
  assumes "within j st m" "\<And>r st'. calm j st st' \<Longrightarrow> within k st' (f (r, st'))"
  shows "within (j + k) st (Option.bind m f)"
proof (cases m)
  case (Some rs)
  obtain r st' where rs: "rs = (r, st')" by (cases rs)
  have c: "calm j st st'" using assms(1) Some rs by simp
  with assms(2) [OF c, of r] show ?thesis unfolding Some rs by (auto simp: within_def intro: calm_trans)
qed simp

lemma within_from: "calm 0 st st' \<Longrightarrow> within k st' m \<Longrightarrow> within k st m"
  using calm_trans [of 0 st st' k] by (simp add: within_def)

lemma within_mono: "within j st m \<Longrightarrow> j \<le> k \<Longrightarrow> within k st m"
  unfolding within_def using calm_mono by blast

text \<open>What changes neither the symbols, the allocator nor the rollback stack.\<close>

lemma calm_same:
  assumes "db_mem st' = db_mem st" "db_symbols st' = db_symbols st" "tx_rollback (db_tx st') = tx_rollback (db_tx st)"
  shows "calm k st st'"
  using assms by (simp add: calm_def)

lemma within_with_writer:
  assumes "\<And>st. within k st (act st)"
  shows "within k st (with_writer act st)"
proof (cases "transaction_acquire_writer (db_tx st)")
  case (Some a)
  obtain has_lock tx where a: "a = (has_lock, tx)" by (cases a)
  have tx: "tx_rollback tx = tx_rollback (db_tx st)"
    using Some a by (auto simp: transaction_acquire_writer_def split: if_splits)
  show ?thesis
  proof (cases "act (st\<lparr>db_tx := tx\<rparr>)")
    case (Some r)
    obtain x st' where r: "r = (x, st')" by (cases r)
    have "calm k (st\<lparr>db_tx := tx\<rparr>) st'" using assms [of "st\<lparr>db_tx := tx\<rparr>"] Some r by simp
    then have "calm k st (st'\<lparr>db_tx := transaction_release_writer (db_tx st') has_lock\<rparr>)"
      by (simp add: calm_def tx transaction_release_writer_def)
    then show ?thesis using Some \<open>transaction_acquire_writer (db_tx st) = _\<close> a r by (simp add: with_writer_def)
  qed (simp add: with_writer_def \<open>transaction_acquire_writer (db_tx st) = _\<close> a)
qed (simp add: with_writer_def)

lemma within_intern: "within 1 st (facts_intern s st)"
  unfolding facts_intern_def
proof (rule within_with_writer)
  fix st :: facts
  obtain y t h where i: "intern_string (db_symbols st) s (db_mem st) = (y, t, h)" by (rule prod_cases3)
  show "within 1 st (case intern_string (db_symbols st) s (db_mem st) of
      (y, t, h) \<Rightarrow> Some (y, st\<lparr>db_symbols := t, db_mem := h\<rparr>))"
    using i intern_string_next [OF i] intern_string_spares [of "db_symbols st" s y t h] by (auto simp: calm_def)
qed

lemma within_intern_symbol: "within 1 st (facts_intern_symbol y st)"
  unfolding facts_intern_symbol_def using within_intern by (cases "symbol_to_str y") simp_all

lemma within_unintern: "within 0 st (facts_unintern y st)"
  unfolding facts_unintern_def
proof (rule within_with_writer)
  fix st :: facts
  show "within 0 st (do { t \<leftarrow> intern_unstring (db_symbols st) y; Some ((), st\<lparr>db_symbols := t\<rparr>) })"
    by (cases "intern_unstring (db_symbols st) y") (auto simp: calm_def intern_unstring_next)
qed

lemma within_unintern_nonnull: "within 0 st (unintern_nonnull y st)"
  by (simp add: unintern_nonnull_def within_unintern calm_refl)

text \<open>Doing one thing after another, where the second changes no number of a symbol.\<close>

lemma within_then:
  assumes "within k st m" "\<And>r st'. within 0 st' (f (r, st'))"
  shows "within k st (Option.bind m f)"
  using within_bind [OF assms(1), of 0 f] assms(2) by simp

lemma within_after:
  assumes "within 0 st m" "\<And>r st'. within k st' (f (r, st'))"
  shows "within k st (Option.bind m f)"
  using within_bind [OF assms(1), of k f] assms(2) by simp

lemma within_one:
  assumes "within 1 st m" "\<And>r st'. within k st' (f (r, st'))"
  shows "within (Suc k) st (Option.bind m f)"
  using within_bind [OF assms(1), of k f] assms(2) by simp

lemma within_three:
  "within 3 st (intern_three f st)" "within 0 st (unintern_three trio st)" "within 0 st (unintern_fact f st)"
proof -
  have "within (Suc (Suc (Suc 0))) st (intern_three f st)"
    unfolding intern_three_def by (auto intro!: within_one within_intern_symbol simp: calm_refl)
  then show "within 3 st (intern_three f st)" by (simp add: numeral_3_eq_3)
  show "within 0 st (unintern_three trio st)" "within 0 st (unintern_fact f st)"
    unfolding unintern_three_def unintern_fact_def
    by (auto intro!: within_then within_unintern within_unintern_nonnull split: prod.split)
qed

lemma room_doubled:
  assumes "rb_capacity rb \<le> length es"
  shows "(if rb_capacity rb \<noteq> 0 then rb_capacity rb * 2 mod 2 ^ 64 else 16) \<le> max (rb_capacity rb) (2 * length es + 16)"
  using assms mod_less_eq_dividend [of "rb_capacity rb * 2" "2 ^ 64"] by (auto intro: order_trans)

lemma within_room: "within 0 st (rollback_room st)"
  by (auto simp: rollback_room_def calm_def Let_def room_doubled calm_refl split: prod.split bool.split)

lemma within_push: "within 3 st (transaction_rollback_push act f st)"
proof -
  have "within 3 st' (do { (trio, st) \<leftarrow> intern_three f st';
      if some_null trio then do { (_, st) \<leftarrow> unintern_three trio st; Some (False, st) }
      else Some (True, push_entry act f st) })" for st'
    by (rule within_then [OF within_three(1)])
      (auto simp: calm_refl push_entry_def Let_def calm_def intro!: within_then within_three)
  then show ?thesis
    unfolding transaction_rollback_push_def by (auto simp: calm_refl intro!: within_after [OF within_room])
qed

lemma within_log: "within 0 st (log_asserted og oper f st)"
  by (auto simp: log_asserted_def log_fact_def within_def calm_def split: option.splits bind_splits)

lemma within_index: "within 0 st (index_add a st)" "within 0 st (index_remove i st)"
proof -
  have "h = []" if "set_add key S a KEY_LEN (db_mem st) = Some (r, S', h)" "db_mem st = []" for key S r S' h
    using that set_add_spares by auto
  then show "within 0 st (index_add a st)" by (auto simp: index_add_def within_def calm_def split: bind_splits)
  show "within 0 st (index_remove i st)" by (auto simp: index_remove_def within_def calm_def split: bind_splits)
qed

lemma calm_delete: "calm 0 st (delete_fact a st)" "calm 0 st (hexa_remove f st)" "calm 0 st (update_fact a u st)"
  by (simp_all add: calm_def delete_fact_def hexa_remove_def update_fact_def)

lemma within_result: "within k st m \<Longrightarrow> (\<And>r st'. calm 0 st' (g st')) \<Longrightarrow>
    within k st (Option.bind m (\<lambda>(_, st'). Some (r, g st')))"
  by (rule within_then) auto

lemma within_insert: "within 6 st (facts_insert_fact_copy f b st)"
proof -
  obtain r A h where n: "arena_alloc_fact (db_arena st) (db_mem st) = (r, A, h)" by (rule prod_cases3)
  have h: "db_mem st = [] \<longrightarrow> h = []" using n arena_alloc_fact_spares by auto
  show ?thesis
  proof (cases r)
    case None
    then show ?thesis using n h by (simp add: facts_insert_fact_copy_def new_fact_def calm_def)
  next
    case (Some a)
    let ?nf = "insert_copy_of f"
    let ?st = "st\<lparr>db_arena := A, db_mem := h, db_heap := (db_heap st)(a := ?nf)\<rparr>"
    have undo: "within 0 st' (do { (_, st) \<leftarrow> unintern_fact ?nf (hexa_remove ?nf st'); Some (None :: addr option, delete_fact a st) })" for st'
    proof -
      have "within 0 (hexa_remove ?nf st')
          (do { (_, st) \<leftarrow> unintern_fact ?nf (hexa_remove ?nf st'); Some (None :: addr option, delete_fact a st) })"
        by (rule within_result [OF within_three(3)]) (rule calm_delete)
      then show ?thesis by (auto simp: within_def calm_def hexa_remove_def)
    qed
    have rec: "within 3 st' (do {
          (ok, st) \<leftarrow> transaction_rollback_push ROLLBACK_REMOVE ?nf st';
          if ok then Some (Some a, st)
          else do { (_, st) \<leftarrow> index_remove i st; (_, st) \<leftarrow> unintern_fact ?nf (hexa_remove ?nf st);
                    Some (None, delete_fact a st) } })" for st' i
      by (auto simp: calm_refl intro!: within_then [OF within_push] within_after [OF within_index(2)] undo)
    have tries: "within 3 st' (case hexastore_insert (db_hexastore st') a ?nf (db_mem st') of (r, x, h) \<Rightarrow>
        (let st = st'\<lparr>db_hexastore := x, db_mem := h\<rparr> in
         if r \<noteq> 0 then do { (_, st) \<leftarrow> unintern_fact ?nf st; Some (None, delete_fact a st) }
         else do {
           (index_item, st) \<leftarrow> index_add a st;
           case index_item of
             None \<Rightarrow> do { (_, st) \<leftarrow> unintern_fact ?nf (hexa_remove ?nf st); Some (None, delete_fact a st) }
           | Some i \<Rightarrow> if b then do {
               (ok, st) \<leftarrow> transaction_rollback_push ROLLBACK_REMOVE ?nf st;
               if ok then Some (Some a, st)
               else do { (_, st) \<leftarrow> index_remove i st; (_, st) \<leftarrow> unintern_fact ?nf (hexa_remove ?nf st);
                         Some (None, delete_fact a st) } }
             else Some (Some a, st) }))" for st'
    proof -
      obtain r x h where x: "hexastore_insert (db_hexastore st') a ?nf (db_mem st') = (r, x, h)" by (rule prod_cases3)
      have h: "db_mem st' = [] \<longrightarrow> h = []" using x hexastore_insert_spares by auto
      let ?s = "st'\<lparr>db_hexastore := x, db_mem := h\<rparr>"
      have c: "calm 0 st' ?s" using h by (simp add: calm_def)
      have "within 3 ?s (if r \<noteq> 0 then do { (_, st) \<leftarrow> unintern_fact ?nf ?s; Some (None, delete_fact a st) }
         else do {
           (index_item, st) \<leftarrow> index_add a ?s;
           case index_item of
             None \<Rightarrow> do { (_, st) \<leftarrow> unintern_fact ?nf (hexa_remove ?nf st); Some (None, delete_fact a st) }
           | Some i \<Rightarrow> if b then do {
               (ok, st) \<leftarrow> transaction_rollback_push ROLLBACK_REMOVE ?nf st;
               if ok then Some (Some a, st)
               else do { (_, st) \<leftarrow> index_remove i st; (_, st) \<leftarrow> unintern_fact ?nf (hexa_remove ?nf st);
                         Some (None, delete_fact a st) } }
             else Some (Some a, st) })" (is "within 3 ?s ?m")
        by (auto simp: calm_refl intro!: within_after [OF within_index(1)] rec within_mono [OF undo]
            within_mono [OF within_result [OF within_three(3) calm_delete(1)]] split: option.split)
      from within_from [OF c this] show ?thesis by (simp add: x Let_def)
    qed
    have all: "within (3 + 3) ?st (do {
        (trio, st) \<leftarrow> intern_three ?nf ?st;
        if some_null trio then do { (_, st) \<leftarrow> unintern_three trio st; Some (None, delete_fact a st) }
        else (case hexastore_insert (db_hexastore st) a ?nf (db_mem st) of (r, x, h) \<Rightarrow>
        (let st = st\<lparr>db_hexastore := x, db_mem := h\<rparr> in
         if r \<noteq> 0 then do { (_, st) \<leftarrow> unintern_fact ?nf st; Some (None, delete_fact a st) }
         else do {
           (index_item, st) \<leftarrow> index_add a st;
           case index_item of
             None \<Rightarrow> do { (_, st) \<leftarrow> unintern_fact ?nf (hexa_remove ?nf st); Some (None, delete_fact a st) }
           | Some i \<Rightarrow> if b then do {
               (ok, st) \<leftarrow> transaction_rollback_push ROLLBACK_REMOVE ?nf st;
               if ok then Some (Some a, st)
               else do { (_, st) \<leftarrow> index_remove i st; (_, st) \<leftarrow> unintern_fact ?nf (hexa_remove ?nf st);
                         Some (None, delete_fact a st) } }
             else Some (Some a, st) })) })"
      by (rule within_bind [OF within_three(1)])
        (use tries in \<open>auto intro!: within_mono [OF within_result [OF within_three(2) calm_delete(1)]]\<close>)
    have "calm 0 st ?st" using h by (simp add: calm_def)
    from within_from [OF this all] show ?thesis
      by (simp add: facts_insert_fact_copy_def new_fact_def n Some Let_def)
  qed
qed

lemma within_add_fact: "within 6 st (facts_add_fact_origin f og st)"
  unfolding facts_add_fact_origin_def
  apply (rule within_with_writer)
  subgoal for st
    by (cases "index_get (fact_key f) st")
      (auto simp: calm_refl calm_delete intro!: within_then [OF within_insert] within_mono [OF within_then [OF within_push], where k = 6]
        within_result within_log split: option.split)
  done

lemma within_add_spo: "within 9 st (facts_add_spo_origin s p ob og st)"
proof -
  have "within (Suc (Suc (Suc 6))) st (facts_add_spo_origin s p ob og st)"
    unfolding facts_add_spo_origin_def
    by ((rule within_one [OF within_intern], simp only: prod.case)+)
      (auto simp: calm_refl intro!: within_then [OF within_add_fact]
        within_mono [OF within_then [OF within_three(2)], where k = 6] within_then [OF within_three(3)])
  then show ?thesis by (simp add: eval_nat_numeral)
qed

end
