(* ===== verification/Insert_Room.thy ===== *)
theory Insert_Room
  imports Memory
begin

text \<open>
  Adding a fact, and removing support of one, succeed when no allocation fails and no counter is
  near its end.
\<close>

section \<open>Interning\<close>

lemma intern_add_room:
  assumes "length s \<le> MAX_STRING" "next_id t \<noteq> UINT64_MAX" "raxFind (symbols t) s = None"
  shows "\<exists>t' i. intern_add t s [] = (Some i, t', []) \<and> it_usage i = 0 \<and> item_symbol i = Sym (next_id t) s"
proof -
  let ?n = "8 + length s + 1"
  have "\<exists>p ps. intern_alloc (pages t) ?n [] = (Some p, ps, [])"
    using assms(1) by (auto simp: intern_alloc_def new_page_def Let_def align_up8_def split: prod.splits)
  then obtain p ps where a: "intern_alloc (pages t) ?n [] = (Some p, ps, [])" by blast
  have "\<not> length s > SIZE_MAX - 8 - 1" using assms(1) by simp
  then show ?thesis
    using assms(2,3) a by (simp add: intern_add_def Let_def raxInsert_def new_symbol_item_def item_symbol_def)
qed

lemma intern_succeeds:
  assumes ok: "symbols_ok X (db_symbols st)" and w: "can_write st" and len: "length s \<le> MAX_STRING"
    and mem: "db_mem st = []" and ids: "next_id (db_symbols st) \<noteq> UINT64_MAX" and counts: "\<forall>y. count X y < 2 ^ 64 - 1"
  obtains y st' where "facts_intern s st = Some (y, st')" "y \<noteq> P_FIRST" "symbols_only st st'"
    "symbols_ok (add_mset y X) (db_symbols st')" "sym_data y = s"
proof -
  note d = symbols_okD [OF ok]
  let ?t = "db_symbols st"
  have "\<exists>y t h. intern_string ?t s [] = (y, t, h) \<and> y \<noteq> P_FIRST"
  proof (cases "raxFind (symbols ?t) s")
    case (Some it)
    then obtain y n where r: "refs ?t s = Some (y, n)" by (auto simp: refs_def)
    note h = held_refs [OF d(1) r]
    have y: "0 < held ?t y" "sym_data y = s" using h by auto
    have "held ?t y < 2 ^ 64 - 1" using counts ok by (simp add: symbols_ok_def)
    from intern_held_room [OF d(1) y(1) this, of "[]"] obtain t' where "intern_string ?t s [] = (y, t', [])"
      unfolding y(2) .
    moreover have "y \<noteq> P_FIRST" using y(1) by (metis held_sentinels(1) less_irrefl)
    ultimately show ?thesis by blast
  next
    case None
    from intern_add_room [OF len ids None] obtain t' i where
      "intern_add ?t s [] = (Some i, t', [])" "it_usage i = 0" "item_symbol i = Sym (next_id ?t) s" by blast
    with None show ?thesis by (simp add: intern_string_def intern_string_view_def)
  qed
  then obtain y t h where r: "intern_string ?t s (db_mem st) = (y, t, h)" "y \<noteq> P_FIRST" using mem by auto
  then have "facts_intern s st = Some (y, st\<lparr>db_symbols := t, db_mem := h\<rparr>)"
    using w by (auto simp: facts_intern_def with_writer_run owning_def give_back_def)
  moreover from intern_owned [OF ok w len] obtain y' st' where "facts_intern s st = Some (y', st')"
    "y' = P_FIRST \<or> symbols_only st st' \<and> symbols_ok (add_mset y' X) (db_symbols st') \<and> sym_data y' = s" by metis
  ultimately show ?thesis using r(2) that by auto
qed

section \<open>The rollback entry\<close>

lemma room_succeeds:
  assumes "db_mem st = []" "room_of st \<le> 2 ^ 57"
  obtains st' where "rollback_room st = Some (True, st')" "same_store st st'" "db_symbols st' = db_symbols st"
proof -
  have "room_of st * 2 mod 2 ^ 64 = room_of st * 2" using assms(2) by simp
  then have "\<exists>st'. rollback_room st = Some (True, st')"
    using assms by (simp add: rollback_room_def Let_def)
  then obtain st' where r: "rollback_room st = Some (True, st')" by blast
  with that show ?thesis by (cases rule: rollback_room_cases [of st]) auto
qed

lemma push_succeeds:
  assumes ok: "symbols_ok X (db_symbols st)" and w: "can_write st" and held: "set_mset (fsyms f) \<subseteq> set_mset X"
    and mem: "db_mem st = []" and room: "room_of st \<le> 2 ^ 57" and counts: "\<forall>y. count X y < 2 ^ 64 - 4"
  obtains st' where "transaction_rollback_push act f st = Some (True, st')"
proof (cases "tx_level (db_tx st) > 0")
  case True
  obtain st1 where 1: "rollback_room st = Some (True, st1)" "same_store st st1" "db_symbols st1 = db_symbols st"
    by (rule room_succeeds [OF mem room])
  have w1: "can_write st1" using w same_store_can_write [OF 1(2)] by simp
  have ok1: "symbols_ok X (db_symbols st1)" using ok 1(3) by simp
  show ?thesis
  proof (cases rule: intern_three_owned [OF ok1 w1 held])
    case (1 trio st2 st')
    then show ?thesis using counts by (metis leD)
  next
    case (2 st2)
    with True 1(1) that show ?thesis by (simp add: transaction_rollback_push_def)
  qed
qed (use that in \<open>simp add: transaction_rollback_push_def\<close>)

text \<open>What is enough to write an entry of the rollback log.\<close>

definition log_room :: "symbol multiset \<Rightarrow> facts \<Rightarrow> bool" where
  "log_room X st \<longleftrightarrow> db_mem st = [] \<and> room_of st \<le> 2 ^ 57 \<and> card (stored st) + length (entries st) \<le> 2 ^ 55 \<and> size X < 2 ^ 62"

lemma total_count:
  assumes "card (stored st) + length (entries st) \<le> 2 ^ 55" "size X < 2 ^ 62"
  shows "count (total X st) y < 2 ^ 63"
proof -
  have "count (total X st) y \<le> size (total X st)" by (rule count_le_size)
  also have "\<dots> = 3 * (card (stored st) + length (entries st)) + size X"
    by (simp add: total_def size_entry_claims size_fact_claims)
  finally show ?thesis using assms by simp
qed

lemma push_refused:
  assumes ok: "db_ok X st" and w: "can_write st" and a: "a \<in> stored st"
    and push: "transaction_rollback_push act (db_heap st a) st = Some (False, st')"
  shows "0 < tx_level (db_tx st) \<and> \<not> log_room X st"
proof (rule conjI)
  show "0 < tx_level (db_tx st)" using push by (auto simp: transaction_rollback_push_def split: if_splits)
  have "set_mset (fsyms (db_heap st a)) \<subseteq> set_mset (total X st)"
    using stored_fsyms [OF ok a] by (simp add: total_def)
  moreover have "symbols_ok (total X st) (db_symbols st)" using ok by (simp add: db_ok_def total_def)
  ultimately show "\<not> log_room X st"
    using push_succeeds [of "total X st" st "db_heap st a" act thesis for thesis] w push
      less_trans [OF total_count, of st X "2 ^ 64 - 4"]
    by (auto simp: log_room_def)
qed

lemma log_room_owning [simp]: "log_room X (owning st) = log_room X st" "tx_level (db_tx (owning st)) = tx_level (db_tx st)"
  by (simp_all add: log_room_def owning_def stored_def)

text \<open>Support is not removed only where the entry that undoes it cannot be written.\<close>

lemma remove_fact_refused:
  assumes ok: "db_ok X st" and w: "can_write st" and a: "a \<in> stored st"
    and run: "facts_remove_fact_origin (db_heap st a) og st = Some (- 1, st')"
  shows "get_sup og (supp_of (db_heap st a)) \<noteq> 0 \<and> 0 < tx_level (db_tx st) \<and> \<not> log_room X st"
proof -
  let ?s = "owning st"
  have ok0: "db_ok X ?s" and w0: "can_write ?s" and a0: "a \<in> stored ?s" using ok a by simp_all
  obtain i where i: "index_get (fact_key (db_heap ?s a)) ?s = Some (Some (i, a))"
    using index_get_stored [OF db_ok_store [OF ok0] a0] by blast
  have sup: "get_sup og (supp_of (db_heap st a)) \<noteq> 0"
  proof
    assume "get_sup og (supp_of (db_heap st a)) = 0"
    with i have "facts_remove_fact_origin (db_heap st a) og st = Some (0, give_back st ?s)"
      by (simp add: facts_remove_fact_origin_def with_writer_run [OF w] Let_def)
    with run show False by simp
  qed
  let ?act = "if asserted_count (db_heap ?s a) + derived_count (db_heap ?s a) > 1 then ROLLBACK_STATE else ROLLBACK_ADD"
  have "\<exists>s. transaction_rollback_push ?act (db_heap ?s a) ?s = Some (False, s)"
    using run i sup
    by (auto simp: facts_remove_fact_origin_def with_writer_run [OF w] Let_def split: bind_splits if_splits)
  with push_refused [OF ok0 w0 a0] sup show ?thesis by auto
qed

lemma remove_spo_refused:
  assumes ok: "db_ok X st" and w: "can_write st"
    and run: "facts_remove_spo_origin s p ob og st = Some (- 1, st')"
  shows "\<exists>v. contents st (s, p, ob) = Some v \<and> get_sup og v \<noteq> 0 \<and> 0 < tx_level (db_tx st) \<and> \<not> log_room X st"
proof -
  let ?s = "owning st"
  have ok0: "db_ok X ?s" and w0: "can_write ?s" using ok by simp_all
  show ?thesis
  proof (cases rule: lookup_contents [OF ok0, of s p ob, case_names absent found])
    case absent
    with run show ?thesis by (simp add: facts_remove_spo_origin_def with_writer_run [OF w])
  next
    case (found a)
    then obtain s' where "facts_remove_fact_origin (db_heap ?s a) og ?s = Some (- 1, s')"
      using run by (auto simp: facts_remove_spo_origin_def with_writer_run [OF w])
    from remove_fact_refused [OF ok0 w0 found(2) this] found(4)
    show ?thesis by simp
  qed
qed

section \<open>Inserting\<close>

lemma insert_pushed:
  assumes "facts_insert_fact_copy f False st = Some (Some a, st1)"
    and "transaction_rollback_push ROLLBACK_REMOVE (insert_copy_of f) st1 = Some (True, st2)"
  shows "facts_insert_fact_copy f True st = Some (Some a, st2)"
proof -
  let ?nf = "insert_copy_of f"
  obtain r s1 where n: "new_fact (f_s f) (f_p f) (f_o f) st = (r, s1)" by (cases "new_fact (f_s f) (f_p f) (f_o f) st")
  with assms(1) obtain b where r: "r = Some b" by (cases r) (simp_all add: facts_insert_fact_copy_def)
  let ?s = "s1\<lparr>db_heap := (db_heap s1)(b := ?nf)\<rparr>"
  obtain trio s2 where t: "intern_three ?nf ?s = Some (trio, s2)"
    using assms(1) n r by (cases "intern_three ?nf ?s") (auto simp: facts_insert_fact_copy_def Let_def)
  have some: "\<not> some_null trio"
    using assms(1) n r t by (auto simp: facts_insert_fact_copy_def Let_def split: bind_splits)
  obtain c x h where hx: "hexastore_insert (db_hexastore s2) b ?nf (db_mem s2) = (c, x, h)" by (rule prod_cases3)
  let ?s3 = "s2\<lparr>db_hexastore := x, db_mem := h\<rparr>"
  have c: "c = 0"
    using assms(1) n r t some hx by (auto simp: facts_insert_fact_copy_def Let_def split: bind_splits if_splits)
  obtain item s4 where ix: "index_add b ?s3 = Some (item, s4)"
    using assms(1) n r t some hx c by (cases "index_add b ?s3") (auto simp: facts_insert_fact_copy_def Let_def)
  obtain i where i: "item = Some i"
    using assms(1) n r t some hx c ix
    by (cases item) (auto simp: facts_insert_fact_copy_def Let_def split: bind_splits)
  show ?thesis
    using assms n r t some hx c ix i by (simp add: facts_insert_fact_copy_def Let_def)
qed

lemma count_fsyms: "count (fsyms f) y \<le> 3"
  by (simp add: fsyms_def)

lemma insert_succeeds:
  assumes ok: "db_ok X st" and w: "can_write st" and wf: "fact_wf (insert_copy_of f)"
    and held: "set_mset (fsyms f) \<subseteq> set_mset (total X st)"
    and new: "\<forall>b \<in> stored st. fact_key (db_heap st b) \<noteq> fact_key f"
    and mem: "db_mem st = []" and size: "card (stored st) < 2 ^ 55" "length (entries st) < 2 ^ 55" "room_of st \<le> 2 ^ 57"
    and counts: "\<forall>y. count (total X st) y < 2 ^ 64 - 8"
  shows "\<exists>a st'. facts_insert_fact_copy f True st = Some (Some a, st')"
proof -
  note held' = held [unfolded total_def]
  have small: "\<not> (\<exists>y \<in># total X st. count (total X st) y \<ge> 2 ^ 64 - 4)"
  proof
    assume "\<exists>y \<in># total X st. count (total X st) y \<ge> 2 ^ 64 - 4"
    then obtain y where "count (total X st) y \<ge> 2 ^ 64 - 4" by blast
    with counts [rule_format, of y] show False by simp
  qed
  show ?thesis
  proof (cases rule: insert_copy_owned [OF ok w wf held' new, of False, case_names no yes])
    case (no st')
    from no(4) [OF mem _ size(1)] small show ?thesis by (simp add: total_def)
  next
    case (yes a st1)
    have c: "calm 6 st st1" using within_insert [of st f False] yes(1) by simp
    have ent: "entries st1 = entries st" using yes(6) by simp
    have mem1: "db_mem st1 = []" by (rule yes(9) [OF mem _ size(1)]) simp
    have w1: "can_write st1" using rest_of_can_write [OF yes(8)] w by simp
    have room1: "room_of st1 \<le> 2 ^ 57" using c size(2,3) by (auto simp: calm_def ent max_def split: if_splits)
    have ok1: "symbols_ok (total X st1) (db_symbols st1)" using yes(2) by (simp add: db_ok_def total_def)
    have tot: "total X st1 = fsyms (insert_copy_of f) + total X st"
    proof -
      have fin: "finite (stored st)" by (simp add: stored_def finite_ptr_elems)
      have "fact_claims st1 = fsyms (insert_copy_of f) + (\<Sum>b \<in> stored st. fsyms (db_heap st1 b))"
        unfolding fact_claims_def yes(4) using fin yes(3,5) by simp
      also have "(\<Sum>b \<in> stored st. fsyms (db_heap st1 b)) = fact_claims st"
        unfolding fact_claims_def using yes(3,5) by (intro sum.cong) auto
      finally show ?thesis by (simp add: total_def ent ac_simps)
    qed
    have cnt: "count (total X st1) y < 2 ^ 64 - 4" for y
      using counts [rule_format, of y] count_fsyms [of "insert_copy_of f" y] by (simp add: tot)
    have held1: "set_mset (fsyms (insert_copy_of f)) \<subseteq> set_mset (total X st1)" by (simp add: tot)
    from push_succeeds [OF ok1 w1 held1 mem1 room1, of ROLLBACK_REMOVE] cnt obtain st2 where
      "transaction_rollback_push ROLLBACK_REMOVE (insert_copy_of f) st1 = Some (True, st2)" by blast
    from insert_pushed [OF yes(1) this] show ?thesis by blast
  qed
qed

lemma add_fact_succeeds:
  assumes ok: "db_ok X st" and own: "tx_owned (db_tx st)" "can_write st" and neg: "f_negated f = P_FIRST"
    and held: "set_mset (fsyms f) \<subseteq> set_mset (total X st)"
    and mem: "db_mem st = []" and size: "card (stored st) < 2 ^ 55" "length (entries st) < 2 ^ 55" "room_of st \<le> 2 ^ 57"
    and counts: "\<forall>y. count (total X st) y < 2 ^ 64 - 8"
  shows "\<exists>a st'. facts_add_fact_origin f og st = Some (Some a, st')"
proof -
  have "facts_add_fact_origin f og st \<noteq> Some (None, st')" for st'
  proof (cases rule: index_get_cases [OF db_ok_store [OF ok], of "fact_key f", case_names absent found])
    case absent
    have new: "\<forall>b \<in> stored st. fact_key (db_heap st b) \<noteq> fact_key (fact_set_origin og f)" using absent(2) by simp
    have held': "set_mset (fsyms (fact_set_origin og f)) \<subseteq> set_mset (total X st)" using held by simp
    from insert_succeeds [OF ok own(2) fact_set_origin_wf [OF neg] held' new mem size counts] obtain a st1 where
      "facts_insert_fact_copy (fact_set_origin og f) True st = Some (Some a, st1)" by blast
    then show ?thesis
      using absent(1) by (auto simp: facts_add_fact_origin_def with_writer_owned [OF own(1)] split: bind_splits)
  next
    case (found i a)
    have ok': "symbols_ok (total X st) (db_symbols st)" using ok by (simp add: db_ok_def total_def)
    have held': "set_mset (fsyms (db_heap st a)) \<subseteq> set_mset (total X st)"
      using stored_fsyms [OF ok found(2)] by (simp add: total_def)
    have cnt: "\<forall>y. count (total X st) y < 2 ^ 64 - 4"
    proof
      show "count (total X st) y < 2 ^ 64 - 4" for y using counts [rule_format, of y] by simp
    qed
    from push_succeeds [OF ok' own(2) held' mem size(3) cnt, of ROLLBACK_STATE] obtain st1 where
      "transaction_rollback_push ROLLBACK_STATE (db_heap st a) st = Some (True, st1)" by blast
    then show ?thesis
      using found(1) by (auto simp: facts_add_fact_origin_def with_writer_owned [OF own(1)] split: bind_splits)
  qed
  with add_fact_origin_ok [OF ok own(2) neg held [unfolded total_def], of og] show ?thesis by metis
qed

lemma add_spo_succeeds:
  assumes ok: "db_ok X st" and own: "tx_owned (db_tx st)" "can_write st"
    and len: "length s \<le> MAX_STRING" "length p \<le> MAX_STRING" "length ob \<le> MAX_STRING"
    and mem: "db_mem st = []" and size: "card (stored st) < 2 ^ 55" "length (entries st) < 2 ^ 55" "room_of st \<le> 2 ^ 57"
    and ids: "unat (next_id (db_symbols st)) + 9 < 2 ^ 64" and counts: "\<forall>y. count (total X st) y < 2 ^ 64 - 16"
  shows "\<exists>a st'. facts_add_spo_origin s p ob og st = Some (Some a, st')"
proof -
  have not_max: "next_id t \<noteq> UINT64_MAX" if "unat (next_id t) < 2 ^ 64 - 1" for t :: intern_table
    using that by (auto simp: unsigned_minus_1_eq_mask mask_eq_exp_minus_1)
  have step: "y \<noteq> P_FIRST \<and> can_write st2 \<and> symbols_ok (add_mset y Y) (db_symbols st2) \<and> calm 1 st1 st2"
    if "symbols_ok Y (db_symbols st1)" "can_write st1" "length x \<le> MAX_STRING" "db_mem st1 = []"
      "unat (next_id (db_symbols st1)) < 2 ^ 64 - 1" "\<forall>y. count Y y < 2 ^ 64 - 1" "facts_intern x st1 = Some (y, st2)" for x st1 Y y st2
  proof -
    from intern_succeeds [OF that(1-4) not_max [OF that(5)] that(6)] obtain y' st' where
      r: "facts_intern x st1 = Some (y', st')" "y' \<noteq> P_FIRST" "symbols_only st1 st'"
      "symbols_ok (add_mset y' Y) (db_symbols st')" .
    have "calm 1 st1 st'" using within_intern [of st1 x] r(1) by simp
    moreover have "can_write st'" using symbols_only_can_write [OF r(3)] that(2) by simp
    ultimately show ?thesis using r that(7) by simp
  qed
  let ?T = "total X st"
  have ok0: "symbols_ok ?T (db_symbols st)" using ok by (simp add: db_ok_def total_def)
  obtain a b c st1 st2 st3 where i: "facts_intern s st = Some (a, st1)" "facts_intern p st1 = Some (b, st2)"
    "facts_intern ob st2 = Some (c, st3)" "same_facts st st3" "can_write st3" "db_ok (nn3 (a, b, c) + X) st3"
    by (rule intern_strings [OF ok own(2) len]) blast
  have c0: "count ?T y < 2 ^ 64 - 16" for y using counts by blast
  have 1: "a \<noteq> P_FIRST \<and> can_write st1 \<and> symbols_ok (add_mset a ?T) (db_symbols st1) \<and> calm 1 st st1"
    by (rule step [OF ok0 own(2) len(1) mem _ _ i(1)]) (use ids c0 less_trans [OF c0] in auto)
  have c1: "count (add_mset a ?T) y < 2 ^ 64 - 15" for y using c0 [of y] by simp
  have 2: "b \<noteq> P_FIRST \<and> can_write st2 \<and> symbols_ok (add_mset b (add_mset a ?T)) (db_symbols st2) \<and> calm 1 st1 st2"
    by (rule step [OF _ _ len(2) _ _ _ i(2)]) (use 1 ids mem less_trans [OF c1] in \<open>auto simp: calm_def\<close>)
  have c2: "count (add_mset b (add_mset a ?T)) y < 2 ^ 64 - 14" for y using c1 [of y] by simp
  have 3: "c \<noteq> P_FIRST \<and> can_write st3 \<and> symbols_ok (add_mset c (add_mset b (add_mset a ?T))) (db_symbols st3) \<and> calm 1 st2 st3"
    by (rule step [OF _ _ len(3) _ _ _ i(3)]) (use 1 2 ids mem less_trans [OF c2] in \<open>auto simp: calm_def\<close>)
  have calm: "calm 3 st st3" using calm_trans [OF calm_trans [of 1 st st1 1 st2], of 1 st3] 1 2 3
    by (simp add: eval_nat_numeral)
  have tri: "\<not> some_null (a, b, c)" "nn3 (a, b, c) = {#a, b, c#}" using 1 2 3 by (auto simp: some_null_def nn3_def)
  let ?g = "fact_init a b c" and ?X = "nn3 (a, b, c) + X"
  have f: "fsyms ?g = {#a, b, c#}" "f_negated (fact_set_origin og ?g) = P_FIRST"
    by (simp_all add: fsyms_def fact_init_def)
  note same = same_factsD [OF i(4)]
  have "count (total ?X st3) y = count ({#a, b, c#} + ?T) y" for y
  proof -
    have "count (total ?X st3) y = held (db_symbols st3) y"
      using i(6) unfolding db_ok_def symbols_ok_def total_def by metis
    also have "\<dots> = count (add_mset c (add_mset b (add_mset a ?T))) y"
      using 3 unfolding symbols_ok_def by metis
    finally show ?thesis by simp
  qed
  then have cnt: "\<forall>y. count (total ?X st3) y < 2 ^ 64 - 8"
  proof (intro allI)
    fix y assume eq: "\<And>y. count (total ?X st3) y = count ({#a, b, c#} + ?T) y"
    have "count ({#a, b, c#} + ?T) y \<le> 3 + count ?T y" by simp
    with eq [of y] c0 [of y] show "count (total ?X st3) y < 2 ^ 64 - 8" by linarith
  qed
  have "\<exists>x st'. facts_add_fact_origin (fact_set_origin og ?g) og st3 = Some (Some x, st')"
  proof (rule add_fact_succeeds [OF i(6) _ i(5) f(2) _ _ _ _ _ cnt])
    show "tx_owned (db_tx st3)" using rest_of_tx(1) [OF same(5)] own(1) by simp
    show "set_mset (fsyms (fact_set_origin og ?g)) \<subseteq> set_mset (total ?X st3)" by (simp add: f total_def tri)
    show "db_mem st3 = []" using calm mem by (simp add: calm_def)
    show "card (stored st3) < 2 ^ 55" "length (entries st3) < 2 ^ 55" using size same(1,3) by simp_all
    show "room_of st3 \<le> 2 ^ 57" using calm size(2,3) same(3) by (auto simp: calm_def max_def split: if_splits)
  qed
  then obtain x st4 where "facts_add_fact_origin (fact_set_origin og ?g) og st3 = Some (Some x, st4)" by blast
  then have "facts_add_spo_origin s p ob og st \<noteq> Some (None, st')" for st'
    using i(1-3) tri(1) by (auto simp: facts_add_spo_origin_def split: bind_splits)
  with add_spo_origin_ok [OF ok own(2) len, of og] show ?thesis by metis
qed

section \<open>A number of insertions\<close>

text \<open>There is room for \<open>n\<close> more facts: no allocation fails, and no counter gets to its end.\<close>

definition fits :: "symbol multiset \<Rightarrow> facts \<Rightarrow> nat \<Rightarrow> bool" where
  "fits X st n \<longleftrightarrow> db_mem st = [] \<and> card (stored st) + length (entries st) + 2 * n < 2 ^ 55 \<and> room_of st \<le> 2 ^ 57 \<and>
     unat (next_id (db_symbols st)) + 9 * n < 2 ^ 64 \<and> size X < 2 ^ 62"

lemma fits_step:
  assumes i: "in_transaction (X, st)" and fit: "fits X st (Suc n)"
    and len: "length s \<le> MAX_STRING" "length p \<le> MAX_STRING" "length ob \<le> MAX_STRING"
  obtains a st' where "facts_add_spo_origin s p ob og st = Some (Some a, st')" "in_transaction (X, st')" "fits X st' n"
    "client_step (X, st) (X, st')" "contents st' = sp_add og (s, p, ob) (contents st)" "rest_of st' = rest_of st"
    "card (stored st') \<le> Suc (card (stored st))" "length (entries st') \<le> Suc (length (entries st))"
proof -
  note d = in_transactionD [OF i]
  have "count (total X st) y < 2 ^ 64 - 16" for y
  proof -
    have "count (total X st) y \<le> size (total X st)" by (rule count_le_size)
    also have "\<dots> = 3 * (card (stored st) + length (entries st)) + size X"
      by (simp add: total_def size_entry_claims size_fact_claims)
    finally show ?thesis using fit by (simp add: fits_def)
  qed
  then have "\<exists>a st'. facts_add_spo_origin s p ob og st = Some (Some a, st')"
    using fit by (intro add_spo_succeeds [OF d(1,2,5) len]) (simp_all add: fits_def)
  then obtain a st' where a: "facts_add_spo_origin s p ob og st = Some (Some a, st')" by blast
  have step: "client_step (X, st) (X, st')" by (rule client_step.add [OF len a])
  have c: "calm 9 st st'" using within_add_spo [of st s p ob og] a by simp
  have "contents st' = sp_add og (s, p, ob) (contents st) \<and> rest_of st' = rest_of st \<and>
      card (stored st') \<le> Suc (card (stored st)) \<and> length (entries st') \<le> Suc (length (entries st))"
  proof (cases rule: add_spo_origin_ok [OF d(1,5) len, of og, case_names refused added])
    case (added b st1)
    then have eq: "st1 = st'" using a by simp
    have "finite (stored st)" by (simp add: stored_def finite_ptr_elems)
    then have "card (insert b (stored st)) \<le> Suc (card (stored st))" by (simp add: card_insert_if)
    moreover have "length (entries st1) \<le> Suc (length (entries st))"
      using added(7) by (auto simp: logged_def pushed_def)
    ultimately show ?thesis using added(5,6,8) by (simp add: eq)
  qed (use a in simp)
  then have e: "contents st' = sp_add og (s, p, ob) (contents st)" "rest_of st' = rest_of st"
    "card (stored st') \<le> Suc (card (stored st))" "length (entries st') \<le> Suc (length (entries st))" by simp_all
  moreover have "fits X st' n" using fit c e(3,4) by (auto simp: fits_def calm_def max_def split: if_splits)
  ultimately show ?thesis using that [OF a cl.inv_step [OF i step]] step by blast
qed

end
