(* ===== verification/Facts_Props.thy ===== *)
theory Facts_Props
  imports Insert_Room
begin

text \<open>
  The operations of the database refine operations on its contents, a map from triples of strings
  to their two supports; a new database is consistent and empty.
\<close>

section \<open>Reading\<close>

lemma with_reader_read:
  assumes "\<And>tx. act (st\<lparr>db_tx := tx\<rparr>) = Some (r, st\<lparr>db_tx := tx\<rparr>)"
  shows "with_reader act st = Some (r, st)"
  using assms
  by (simp add: with_reader_def transaction_acquire_reader_def transaction_writer_owned_def transaction_release_reader_def)

lemma lookup_frame:
  "facts_lookup_spo_locked s p ob (st\<lparr>db_tx := tx\<rparr>) =
   map_option (\<lambda>(r, _). (r, st\<lparr>db_tx := tx\<rparr>)) (facts_lookup_spo_locked s p ob st)"
  by (auto simp: facts_lookup_spo_locked_def index_get_def Let_def split: option.splits bind_splits)

lemma read_spo:
  assumes ok: "db_ok X st"
  shows "facts_get_support_spo s p ob st =
      Some (case contents st (s, p, ob) of
          None \<Rightarrow> (False, \<lparr>sup_asserted = 0, sup_derived = 0\<rparr>)
        | Some (a, d) \<Rightarrow> (True, \<lparr>sup_asserted = a, sup_derived = d\<rparr>), st)"
    and "facts_contains_spo s p ob st = Some (contents st (s, p, ob) \<noteq> None, st)"
proof -
  have "facts_get_support_spo s p ob st =
      Some (case contents st (s, p, ob) of
          None \<Rightarrow> (False, \<lparr>sup_asserted = 0, sup_derived = 0\<rparr>)
        | Some (a, d) \<Rightarrow> (True, \<lparr>sup_asserted = a, sup_derived = d\<rparr>), st) \<and>
     facts_contains_spo s p ob st = Some (contents st (s, p, ob) \<noteq> None, st)"
  proof (cases rule: lookup_contents [OF ok, of s p ob, case_names absent found])
    case absent
    then show ?thesis
      unfolding facts_get_support_spo_def facts_contains_spo_def
      by (intro conjI with_reader_read) (simp_all add: lookup_frame)
  next
    case (found a)
    then show ?thesis
      unfolding facts_get_support_spo_def facts_contains_spo_def
      by (intro conjI with_reader_read) (simp_all add: lookup_frame supp_of_def)
  qed
  then show "facts_get_support_spo s p ob st =
      Some (case contents st (s, p, ob) of
          None \<Rightarrow> (False, \<lparr>sup_asserted = 0, sup_derived = 0\<rparr>)
        | Some (a, d) \<Rightarrow> (True, \<lparr>sup_asserted = a, sup_derived = d\<rparr>), st)"
    "facts_contains_spo s p ob st = Some (contents st (s, p, ob) \<noteq> None, st)" by simp_all
qed

section \<open>Properties\<close>

text \<open>
  C3: \<^verbatim>\<open>facts_add_spo_origin\<close> on a consistent database never fails to return, keeps it consistent
  (the index, the three tries, the arena and the reference counts agree) and leaves the lock as it
  was. It either adds the support of that origin to the triple and returns its fact, or, when a
  counter or the allocator is at its end, returns NULL and leaves the contents as they were.
\<close>

theorem facts_add_spo_origin_refines:
  assumes "db_ok X st" "can_write st"
    and "length s \<le> MAX_STRING" "length p \<le> MAX_STRING" "length ob \<le> MAX_STRING"
  shows "\<exists>r st'. facts_add_spo_origin s p ob og st = Some (r, st') \<and> db_ok X st' \<and> rest_of st' = rest_of st \<and>
    (case r of
       None \<Rightarrow> contents st' = contents st
     | Some a \<Rightarrow> contents st' = sp_add og (s, p, ob) (contents st) \<and>
         a \<in> stored st' \<and> triple_of (db_heap st' a) = (s, p, ob))"
proof (cases rule: add_spo_origin_ok [OF assms, of og, case_names refused added])
  case (refused st')
  then show ?thesis using contents_same [OF assms(1) refused(2,3)] by (auto simp: same_facts_def)
qed auto

lemma ex_begun_ok: "db_ok {#} ex_begun" "can_write ex_begun" "contents ex_begun = Map.empty"
proof -
  have "contents ex_begun = contents ex_db" by (rule contents_frame) (simp_all add: ex_begun_def)
  then show "contents ex_begun = Map.empty" using ex_db_ok(4) by simp
qed (use ex_db_ok(1) in \<open>simp_all add: ex_begun_def can_write_def db_ok_tx\<close>)

theorem facts_add_spo_origin_refines_witness:
  "\<exists>st'. facts_add_spo_origin ''a'' ''b'' ''c'' FACT_ORIGIN_ASSERTED ex_begun = Some (Some 3, st') \<and>
     contents st' = [(''a'', ''b'', ''c'') \<mapsto> (1, 0)]"
proof (rule ex_add)
  fix st assume "facts_add_spo_origin ''a'' ''b'' ''c'' FACT_ORIGIN_ASSERTED ex_begun = Some (Some 3, st)"
  with facts_add_spo_origin_refines [OF ex_begun_ok(1,2), of "''a''" "''b''" "''c''" FACT_ORIGIN_ASSERTED]
  show ?thesis by (auto simp: sp_add_def ex_begun_ok)
qed

text \<open>
  C4: \<^verbatim>\<open>facts_remove_spo_origin\<close> on a consistent database never fails to return, keeps it
  consistent and leaves the lock as it was. It takes the support of that origin from the triple,
  which disappears with its last support, and returns whether there was such support. Only
  where there is such support, inside a transaction, and the entry that undoes the removal cannot be
  written (an allocation fails or a counter is near its end), it returns -1 and leaves the contents.
\<close>

theorem facts_remove_spo_origin_refines:
  assumes "db_ok X st" "can_write st"
  shows "\<exists>r st'. facts_remove_spo_origin s p ob og st = Some (r, st') \<and> db_ok X st' \<and> rest_of st' = rest_of st \<and>
    (if r = - 1
     then contents st' = contents st \<and> (\<exists>v. contents st (s, p, ob) = Some v \<and> get_sup og v \<noteq> 0) \<and>
       0 < tx_level (db_tx st) \<and> \<not> log_room X st
     else contents st' = sp_remove og (s, p, ob) (contents st) \<and>
       r = (case contents st (s, p, ob) of None \<Rightarrow> 0 | Some v \<Rightarrow> if get_sup og v = 0 then 0 else 1))"
proof (cases rule: remove_spo_origin_ok [OF assms, of s p ob og, case_names refused removed])
  case (refused st')
  then show ?thesis
    using contents_same [OF assms(1) refused(2,3)] remove_spo_refused [OF assms refused(1)] by (auto simp: same_facts_def)
next
  case (removed r st')
  then show ?thesis by (auto split: option.splits)
qed

text \<open>A transaction in which one triple was asserted, with room in the rollback log.\<close>

lemma ex_asserted:
  obtains st where "db_ok {#} st" "can_write st" "contents st = [(''a'', ''b'', ''c'') \<mapsto> (1, 0)]"
    "0 < tx_level (db_tx st)" "log_room {#} st"
proof (rule ex_add)
  fix st assume a: "facts_add_spo_origin ''a'' ''b'' ''c'' FACT_ORIGIN_ASSERTED ex_begun = Some (Some 3, st)" "db_mem st = []"
  have e: "stored ex_begun = {}" "entries ex_begun = []" "room_of ex_begun = 0" "0 < tx_level (db_tx ex_begun)"
    using ex_db_ok(2,3) by (simp_all add: ex_begun_def stored_def idle_def ex_db_tx transaction_zero_def)
  have b: "db_ok {#} st \<and> rest_of st = rest_of ex_begun \<and> contents st = [(''a'', ''b'', ''c'') \<mapsto> (1, 0)] \<and>
      card (stored st) \<le> 1 \<and> length (entries st) \<le> 1"
    by (rule add_spo_origin_ok [OF ex_begun_ok(1,2), of "''a''" "''b''" "''c''" FACT_ORIGIN_ASSERTED])
      (use a(1) ex_begun_ok e in \<open>auto simp: sp_add_def logged_def pushed_def\<close>)
  have "calm 9 ex_begun st" using within_add_spo [of ex_begun "''a''" "''b''" "''c''" FACT_ORIGIN_ASSERTED] a(1) by simp
  then have "room_of st \<le> 2 ^ 57" using b e by (auto simp: calm_def max_def split: if_splits)
  then have "log_room {#} st" using a(2) b by (simp add: log_room_def)
  then show thesis
    using that [of st] b ex_begun_ok(2) rest_of_can_write [of st ex_begun] rest_of_tx(2) [of st ex_begun] e(4) by simp
qed

theorem facts_remove_spo_origin_refines_witness:
  "\<exists>st st'. contents st = [(''a'', ''b'', ''c'') \<mapsto> (1, 0)] \<and> 0 < tx_level (db_tx st) \<and>
     facts_remove_spo_origin ''a'' ''b'' ''c'' FACT_ORIGIN_ASSERTED st = Some (1, st') \<and> contents st' = Map.empty"
proof (rule ex_asserted)
  fix st assume a: "db_ok {#} st" "can_write st" "contents st = [(''a'', ''b'', ''c'') \<mapsto> (1, 0)]"
    "0 < tx_level (db_tx st)" "log_room {#} st"
  then have "sp_remove FACT_ORIGIN_ASSERTED (''a'', ''b'', ''c'') (contents st) = Map.empty" by (simp add: sp_remove_def)
  with a facts_remove_spo_origin_refines [OF a(1,2), of "''a''" "''b''" "''c''" FACT_ORIGIN_ASSERTED]
  show ?thesis by (auto split: if_splits)
qed

text \<open>
  C12: What \<^verbatim>\<open>facts_get_support_spo\<close> and \<^verbatim>\<open>facts_contains_spo\<close> return is what the contents say
  of the triple, whether or not the caller holds the writer lock, and they change nothing.
\<close>

theorem reads_agree:
  assumes "db_ok X st"
  shows "facts_get_support_spo s p ob st =
      Some (case contents st (s, p, ob) of
          None \<Rightarrow> (False, \<lparr>sup_asserted = 0, sup_derived = 0\<rparr>)
        | Some (a, d) \<Rightarrow> (True, \<lparr>sup_asserted = a, sup_derived = d\<rparr>), st) \<and>
    facts_contains_spo s p ob st = Some (contents st (s, p, ob) \<noteq> None, st)"
  using read_spo [OF assms] by simp

theorem reads_agree_witness:
  "\<exists>st. facts_get_support_spo ''a'' ''b'' ''c'' st = Some ((True, \<lparr>sup_asserted = 1, sup_derived = 0\<rparr>), st) \<and>
     facts_contains_spo ''a'' ''b'' ''c'' st = Some (True, st) \<and> facts_contains_spo ''c'' ''b'' ''a'' st = Some (False, st)"
proof (rule ex_asserted)
  fix st assume a: "db_ok {#} st" "contents st = [(''a'', ''b'', ''c'') \<mapsto> (1, 0)]"
  show ?thesis
    using reads_agree [OF a(1), of "''a''" "''b''" "''c''"] reads_agree [OF a(1), of "''c''" "''b''" "''a''"]
    by (auto simp: a(2))
qed

text \<open>
  A database made by \<^verbatim>\<open>facts_init_checked\<close> with at least two slots, with its own symbol table
  or a shared one whose symbols are held by \<open>X\<close>, is consistent, idle and empty.
\<close>

theorem facts_init_consistent:
  assumes "facts_init_checked wyhash symbols0 mx g = (Some st, g')" "2 \<le> mx" "arena_ok (g_arena g)"
    and "case symbols0 of None \<Rightarrow> X = {#} | Some t \<Rightarrow> symbols_ok X t"
  shows "db_ok X st \<and> idle st \<and> contents st = Map.empty"
  using facts_init_ok [OF assms] by simp

theorem facts_init_consistent_witness: "db_ok {#} ex_db \<and> idle ex_db \<and> contents ex_db = Map.empty"
  by (rule facts_init_consistent [OF ex_db_init _ ex_globals_arena]) simp_all

end
