(* ===== verification/Magic.thy ===== *)
theory Magic
  imports Rules
begin

text \<open>
  The magic-set transformation of \<^verbatim>\<open>lib/magic.c\<close>: a program and a query goal become a program
  that derives only facts the query asks for. The queue holds the adorned predicates to be
  rewritten; each rule of the predicate gives one rewritten rule and one rule for every
  adorned subgoal that says what is asked of it. After a failed allocation everything built is
  freed and the result is NULL.
\<close>

section \<open>Allocations in sequence\<close>

definition and_then :: "'a option \<times> mem \<Rightarrow> ('a \<Rightarrow> mem \<Rightarrow> 'b option \<times> mem) \<Rightarrow> 'b option \<times> mem" where
  "and_then r f = (case r of (None, h) \<Rightarrow> (None, h) | (Some x, h) \<Rightarrow> f x h)"

definition request :: "'a \<Rightarrow> mem \<Rightarrow> 'a option \<times> mem" where
  "request x h = (case malloc h of (ok, h') \<Rightarrow> (if ok then Some x else None, h'))"

section \<open>Adorned predicates\<close>

text \<open>Whether the subject and whether the object is bound: the letters b and f.\<close>

type_synonym adornment = "bool \<times> bool"

definition letter :: "bool \<Rightarrow> char" where
  "letter b = (if b then CHR ''b'' else CHR ''f'')"

definition ad_string :: "adornment \<Rightarrow> cstr" where
  "ad_string ad = [letter (fst ad), letter (snd ad)]"

record adorned_pred =
  ap_name :: cstr
  ap_adornment :: adornment

record adorned_queue =
  aq_items :: "adorned_pred list"
  aq_capacity :: nat

definition is_idb_predicate :: "datalog_program \<Rightarrow> cstr option \<Rightarrow> bool" where
  "is_idb_predicate prog pred =
     (case pred of None \<Rightarrow> False
      | Some p \<Rightarrow> \<exists>r \<in> set (rules prog). case sf_p (head r) of None \<Rightarrow> False | Some q \<Rightarrow> strcmp q p = 0)"

text \<open>\<^verbatim>\<open>sizeof(s_adorned_pred)\<close> is 16.\<close>

definition enqueue_adorned :: "adorned_queue \<Rightarrow> cstr \<Rightarrow> adornment \<Rightarrow> mem \<Rightarrow> adorned_queue option \<times> mem" where
  "enqueue_adorned q name ad h =
     (if \<exists>a \<in> set (aq_items q). strcmp (ap_name a) name = 0 \<and> strcmp (ad_string (ap_adornment a)) (ad_string ad) = 0
      then (Some q, h)
      else
        and_then
          (if length (aq_items q) \<ge> aq_capacity q then
             (let new_capacity = (if aq_capacity q = 0 then 16 else aq_capacity q * 2 mod 2 ^ 64) in
              if new_capacity < aq_capacity q \<or> new_capacity > SIZE_MAX div 16 then (None, h)
              else request (q\<lparr>aq_capacity := new_capacity\<rparr>) h)
           else (Some q, h))
          (\<lambda>q h. request (q\<lparr>aq_items := aq_items q @ [\<lparr>ap_name = name, ap_adornment = ad\<rparr>]\<rparr>) h))"

section \<open>Strings\<close>

definition copy_string :: "cstr option \<Rightarrow> mem \<Rightarrow> cstr option option \<times> mem" where
  "copy_string source h = (case source of None \<Rightarrow> (Some None, h) | Some s \<Rightarrow> request (Some s) h)"

definition format_name :: "cstr \<Rightarrow> cstr option \<Rightarrow> adornment \<Rightarrow> mem \<Rightarrow> cstr option \<times> mem" where
  "format_name pre name ad h =
     (case name of None \<Rightarrow> (None, h) | Some n \<Rightarrow> request (pre @ n @ ''_'' @ ad_string ad) h)"

definition is_term_bound :: "cstr option \<Rightarrow> cstr list \<Rightarrow> bool" where
  "is_term_bound t bound =
     (case t of None \<Rightarrow> False | Some s \<Rightarrow> \<not> is_var s \<or> (\<exists>v \<in> set bound. strcmp v s = 0))"

definition add_var_to_bound :: "cstr list \<Rightarrow> cstr option \<Rightarrow> mem \<Rightarrow> cstr list option \<times> mem" where
  "add_var_to_bound list var h =
     (case var of None \<Rightarrow> (Some list, h)
      | Some v \<Rightarrow>
          if \<not> is_var v \<or> (\<exists>w \<in> set list. strcmp w v = 0) then (Some list, h)
          else if length list = SIZE_MAX div 8 then (None, h)
          else request (list @ [v]) h)"

section \<open>The facts of the new rules\<close>

definition make_magic_fact ::
  "cstr option \<Rightarrow> adornment \<Rightarrow> cstr option \<Rightarrow> cstr option \<Rightarrow> mem \<Rightarrow> spec_fact option \<times> mem" where
  "make_magic_fact pred ad s_val o_val h =
     and_then (format_name ''magic_'' pred ad h) (\<lambda>p h.
       if \<not> fst ad \<and> \<not> snd ad then (None, h)
       else
         and_then (copy_string (if fst ad then s_val else o_val) h) (\<lambda>s h.
         and_then (copy_string (if fst ad \<and> snd ad then o_val else Some ''true'') h) (\<lambda>ob h.
           (if s = None \<or> ob = None then None
            else Some \<lparr>sf_s = s, sf_p = Some p, sf_o = ob, sf_negated = None\<rparr>, h))))"

definition make_adorned_subgoal :: "spec_fact \<Rightarrow> bool \<Rightarrow> adornment \<Rightarrow> mem \<Rightarrow> spec_fact option \<times> mem" where
  "make_adorned_subgoal src is_idb ad h =
     and_then (copy_string (sf_s src) h) (\<lambda>s h.
     and_then (if is_idb then and_then (format_name [] (sf_p src) ad h) (\<lambda>p h. (Some (Some p), h))
               else copy_string (sf_p src) h) (\<lambda>p h.
     and_then (copy_string (sf_o src) h) (\<lambda>ob h.
     and_then (copy_string (sf_negated src) h) (\<lambda>n h.
       (Some \<lparr>sf_s = s, sf_p = p, sf_o = ob, sf_negated = n\<rparr>, h)))))"

definition copy_magic_support :: "spec_fact \<Rightarrow> mem \<Rightarrow> spec_fact option \<times> mem" where
  "copy_magic_support source h =
     and_then (copy_string (sf_s source) h) (\<lambda>s h.
     and_then (copy_string (sf_p source) h) (\<lambda>p h.
     and_then (copy_string (sf_o source) h) (\<lambda>ob h.
       (Some \<lparr>sf_s = s, sf_p = p, sf_o = ob, sf_negated = None\<rparr>, h))))"

section \<open>One rule\<close>

definition head_bound :: "adornment \<Rightarrow> spec_fact \<Rightarrow> mem \<Rightarrow> cstr list option \<times> mem" where
  "head_bound ad hd0 h =
     and_then (if fst ad then add_var_to_bound [] (sf_s hd0) h else (Some [], h)) (\<lambda>bound h.
       if snd ad then add_var_to_bound bound (sf_o hd0) h else (Some bound, h))"

text \<open>The adornments of the subgoals, from the left; those with rules are queued.\<close>

record subgoal_info =
  si_fact :: spec_fact
  si_ad :: adornment
  si_idb :: bool

fun adorn_body ::
  "datalog_program \<Rightarrow> spec_fact list \<Rightarrow> cstr list \<Rightarrow> adorned_queue \<Rightarrow> mem \<Rightarrow>
   (subgoal_info list \<times> adorned_queue) option \<times> mem" where
  "adorn_body prog [] bound q h = (Some ([], q), h)"
| "adorn_body prog (b # bs) bound q h =
     (let ad = (is_term_bound (sf_s b) bound, is_term_bound (sf_o b) bound);
          idb = is_idb_predicate prog (sf_p b)
      in and_then (case (idb, sf_p b) of (True, Some p) \<Rightarrow> enqueue_adorned q p ad h | _ \<Rightarrow> (Some q, h)) (\<lambda>q h.
         and_then (add_var_to_bound bound (sf_s b) h) (\<lambda>bound h.
         and_then (add_var_to_bound bound (sf_o b) h) (\<lambda>bound h.
         and_then (adorn_body prog bs bound q h) (\<lambda>(infos, q) h.
           (Some (\<lparr>si_fact = b, si_ad = ad, si_idb = idb\<rparr> # infos, q), h))))))"

fun adorned_subgoals :: "subgoal_info list \<Rightarrow> mem \<Rightarrow> spec_fact list option \<times> mem" where
  "adorned_subgoals [] h = (Some [], h)"
| "adorned_subgoals (i # is) h =
     and_then (make_adorned_subgoal (si_fact i) (si_idb i) (si_ad i) h) (\<lambda>f h.
     and_then (adorned_subgoals is h) (\<lambda>fs h. (Some (f # fs), h)))"

text \<open>The magic fact of the head, if there is one, in front of the adorned subgoals.\<close>

definition support_and_subgoals :: "spec_fact option \<Rightarrow> subgoal_info list \<Rightarrow> mem \<Rightarrow> spec_fact list option \<times> mem" where
  "support_and_subgoals magic infos h =
     (case magic of
        None \<Rightarrow> adorned_subgoals infos h
      | Some m \<Rightarrow> and_then (copy_magic_support m h) (\<lambda>f h.
                   and_then (adorned_subgoals infos h) (\<lambda>fs h. (Some (f # fs), h))))"

definition add_rule_to :: "datalog_program \<Rightarrow> spec_fact \<Rightarrow> spec_fact list \<Rightarrow> mem \<Rightarrow> datalog_program option \<times> mem" where
  "add_rule_to prog hd0 bd h =
     (case datalog_program_add_rule prog hd0 bd h of
        (r, prog', h') \<Rightarrow> (if r = None then None else Some prog', h'))"

definition request_array :: "bool \<Rightarrow> mem \<Rightarrow> unit option \<times> mem" where
  "request_array needed h = (if needed then request () h else (Some (), h))"

text \<open>
  The rules that say what is asked of the subgoals; \<open>seen\<close> are the subgoals before the current
  one. The list of bound variables is built a second time and not used.
\<close>

fun magic_rules ::
  "spec_fact option \<Rightarrow> subgoal_info list \<Rightarrow> subgoal_info list \<Rightarrow> cstr list \<Rightarrow> datalog_program \<Rightarrow> mem \<Rightarrow>
   datalog_program option \<times> mem" where
  "magic_rules magic seen [] bound mp h = (Some mp, h)"
| "magic_rules magic seen (i # is) bound mp h =
     and_then
       (if si_idb i \<and> si_ad i \<noteq> (False, False) then
          and_then (request_array (magic \<noteq> None \<or> seen \<noteq> []) h) (\<lambda>_ h.
          and_then (make_magic_fact (sf_p (si_fact i)) (si_ad i) (sf_s (si_fact i)) (sf_o (si_fact i)) h) (\<lambda>m h.
          and_then (support_and_subgoals magic seen h) (\<lambda>bd h.
            add_rule_to mp m bd h)))
        else (Some mp, h)) (\<lambda>mp h.
     and_then (add_var_to_bound bound (sf_s (si_fact i)) h) (\<lambda>bound h.
     and_then (add_var_to_bound bound (sf_o (si_fact i)) h) (\<lambda>bound h.
       magic_rules magic (seen @ [i]) is bound mp h)))"

text \<open>The two arrays for the subgoals; both are requested. \<^verbatim>\<open>sizeof(int)\<close> is 4.\<close>

definition body_arrays :: "datalog_rule \<Rightarrow> mem \<Rightarrow> unit option \<times> mem" where
  "body_arrays rule h =
     (if (if body rule = [] then 1 else length (body rule)) > SIZE_MAX div 4 then (None, h)
      else case malloc h of (a1, h1) \<Rightarrow> case malloc h1 of (a2, h2) \<Rightarrow> (if a1 \<and> a2 then Some () else None, h2))"

definition head_magic_fact :: "adorned_pred \<Rightarrow> spec_fact \<Rightarrow> mem \<Rightarrow> spec_fact option option \<times> mem" where
  "head_magic_fact cur hd0 h =
     (if ap_adornment cur \<noteq> (False, False)
      then and_then (make_magic_fact (Some (ap_name cur)) (ap_adornment cur) (sf_s hd0) (sf_o hd0) h) (\<lambda>m h. (Some (Some m), h))
      else (Some None, h))"

definition rewritten_head :: "adorned_pred \<Rightarrow> spec_fact \<Rightarrow> mem \<Rightarrow> spec_fact option \<times> mem" where
  "rewritten_head cur hd0 h =
     and_then (copy_string (sf_s hd0) h) (\<lambda>s h.
     and_then (format_name [] (Some (ap_name cur)) (ap_adornment cur) h) (\<lambda>p h.
     and_then (copy_string (sf_o hd0) h) (\<lambda>ob h.
     and_then (copy_string (sf_negated hd0) h) (\<lambda>n h.
       (Some \<lparr>sf_s = s, sf_p = Some p, sf_o = ob, sf_negated = n\<rparr>, h)))))"

definition transform_rule ::
  "datalog_program \<Rightarrow> datalog_program \<Rightarrow> datalog_rule \<Rightarrow> adorned_pred \<Rightarrow> adorned_queue \<Rightarrow> mem \<Rightarrow>
   (datalog_program \<times> adorned_queue) option \<times> mem" where
  "transform_rule mp prog rule cur q h =
     and_then (head_bound (ap_adornment cur) (head rule) h) (\<lambda>bound h.
     and_then (body_arrays rule h) (\<lambda>_ h.
     and_then (adorn_body prog (body rule) bound q h) (\<lambda>(infos, q) h.
     and_then (head_magic_fact cur (head rule) h) (\<lambda>magic h.
     and_then (head_bound (ap_adornment cur) (head rule) h) (\<lambda>bound h.
     and_then (magic_rules magic [] infos bound mp h) (\<lambda>mp h.
     and_then (rewritten_head cur (head rule) h) (\<lambda>hd1 h.
     and_then (request_array (magic \<noteq> None \<or> body rule \<noteq> []) h) (\<lambda>_ h.
     and_then (support_and_subgoals magic infos h) (\<lambda>bd h.
     and_then (add_rule_to mp hd1 bd h) (\<lambda>mp h.
       (Some (mp, q), h)))))))))))"

section \<open>The program\<close>

fun transform_rules ::
  "datalog_program \<Rightarrow> adorned_pred \<Rightarrow> datalog_rule list \<Rightarrow> datalog_program \<Rightarrow> adorned_queue \<Rightarrow> mem \<Rightarrow>
   (datalog_program \<times> adorned_queue) option \<times> mem" where
  "transform_rules prog cur [] mp q h = (Some (mp, q), h)"
| "transform_rules prog cur (r # rs) mp q h =
     (if (case sf_p (head r) of None \<Rightarrow> False | Some p \<Rightarrow> strcmp p (ap_name cur) = 0)
      then and_then (transform_rule mp prog r cur q h) (\<lambda>(mp, q) h. transform_rules prog cur rs mp q h)
      else transform_rules prog cur rs mp q h)"

text \<open>The loop over the queue, which grows while it runs; \<open>None\<close> is a loop that never ends.\<close>

type_synonym magic_state = "nat \<times> datalog_program \<times> adorned_queue \<times> mem"

definition magic_body :: "datalog_program \<Rightarrow> magic_state \<Rightarrow> (magic_state + (datalog_program option \<times> mem)) option" where
  "magic_body prog x =
     (case x of (i, mp, q, h) \<Rightarrow>
        Some (if i < length (aq_items q) then
                (case transform_rules prog (aq_items q ! i) (rules prog) mp q h of
                   (None, h) \<Rightarrow> Inr (None, h)
                 | (Some (mp, q), h) \<Rightarrow> Inl (Suc i, mp, q, h))
              else Inr (Some mp, h)))"

definition datalog_program_magic_transform ::
  "datalog_program \<Rightarrow> spec_fact \<Rightarrow> mem \<Rightarrow> (datalog_program option \<times> mem) option" where
  "datalog_program_magic_transform prog goal h =
     (case (sf_s goal, sf_p goal, sf_o goal) of
        (Some s, Some p, Some ob) \<Rightarrow>
          if is_var p then Some (None, h)
          else (case enqueue_adorned \<lparr>aq_items = [], aq_capacity = 0\<rparr> p (\<not> is_var s, \<not> is_var ob) h of
                  (None, h) \<Rightarrow> Some (None, h)
                | (Some q, h) \<Rightarrow>
                    (case new_datalog_program h of
                       (None, h) \<Rightarrow> Some (None, h)
                     | (Some mp, h) \<Rightarrow> run_loop (magic_body prog) (0, mp, q, h)))
      | _ \<Rightarrow> Some (None, h))"

end
