(* ===== verification/Datalog_Sem.thy ===== *)
theory Datalog_Sem
  imports Rules
begin

text \<open>
  What a program without negation means: the facts derivable from given facts, by any
  substitution of its variables. The reference for the transformation and the evaluation.
\<close>

type_synonym atom = "cstr \<times> cstr \<times> cstr"
type_synonym subst = "cstr \<Rightarrow> cstr"

definition val :: "subst \<Rightarrow> cstr option \<Rightarrow> cstr" where
  "val \<sigma> t = (case t of None \<Rightarrow> [] | Some x \<Rightarrow> if is_var x then \<sigma> x else x)"

definition inst :: "subst \<Rightarrow> spec_fact \<Rightarrow> atom" where
  "inst \<sigma> f = (val \<sigma> (sf_s f), val \<sigma> (sf_p f), val \<sigma> (sf_o f))"

inductive_set derivable :: "datalog_rule set \<Rightarrow> atom set \<Rightarrow> atom set" for R D where
  given: "a \<in> D \<Longrightarrow> a \<in> derivable R D"
| derived: "r \<in> R \<Longrightarrow> (\<And>b. b \<in> set (body r) \<Longrightarrow> inst \<sigma> b \<in> derivable R D) \<Longrightarrow> inst \<sigma> (head r) \<in> derivable R D"

lemma val_simps [simp]: "\<not> is_var x \<Longrightarrow> val \<sigma> (Some x) = x" "is_var x \<Longrightarrow> val \<sigma> (Some x) = \<sigma> x"
  by (simp_all add: val_def)

text \<open>A rule without null fields and negation, whose predicates are constants.\<close>

definition plain_fact :: "spec_fact \<Rightarrow> bool" where
  "plain_fact f \<longleftrightarrow> sf_s f \<noteq> None \<and> sf_o f \<noteq> None \<and> sf_negated f = None \<and>
     (case sf_p f of None \<Rightarrow> False | Some p \<Rightarrow> \<not> is_var p)"

definition plain_rule :: "datalog_rule \<Rightarrow> bool" where
  "plain_rule r \<longleftrightarrow> plain_fact (head r) \<and> list_all plain_fact (body r)"

definition pred :: "spec_fact \<Rightarrow> cstr" where
  "pred f = the (sf_p f)"

lemma plain_factD:
  assumes "plain_fact f"
  shows "sf_p f = Some (pred f)" "\<not> is_var (pred f)" "sf_negated f = None" "\<exists>s. sf_s f = Some s" "\<exists>ob. sf_o f = Some ob"
    "inst \<sigma> f = (val \<sigma> (sf_s f), pred f, val \<sigma> (sf_o f))"
  using assms by (auto simp: plain_fact_def pred_def inst_def split: option.splits)

definition idb :: "datalog_program \<Rightarrow> cstr set" where
  "idb prog = pred ` head ` set (rules prog)"

lemma derivable_edb:
  assumes "a \<in> derivable (set (rules prog)) D" "fst (snd a) \<notin> idb prog" "list_all plain_rule (rules prog)"
  shows "a \<in> D"
  using assms(1)
proof (cases rule: derivable.cases)
  case (derived r \<sigma>)
  have "plain_fact (head r)" using assms(3) derived(2) by (auto simp: list_all_iff plain_rule_def)
  then have "fst (snd a) = pred (head r)" using plain_factD(6) derived(1) by simp
  with assms(2) derived(2) show ?thesis by (auto simp: idb_def)
qed

end
