(* ===== verification/Magic_Correct.thy ===== *)
theory Magic_Correct
  imports Magic Datalog_Sem
begin

text \<open>
  The transformed program always exists or the memory ran out, and it answers the query as the
  original program does.
\<close>

section \<open>What the steps of the transformation return\<close>

lemma and_then_Some: "and_then r f = (Some y, h') \<longleftrightarrow> (\<exists>x h. r = (Some x, h) \<and> f x h = (Some y, h'))"
  by (auto simp: and_then_def split: prod.splits option.splits)

lemma request_Some: "request x h = (Some y, h') \<Longrightarrow> y = x"
  by (auto simp: request_def split: prod.splits if_splits)

lemma copy_string_Some: "copy_string s h = (Some t, h') \<Longrightarrow> t = s"
  by (auto simp: copy_string_def split: option.splits dest: request_Some)

definition adorned_name :: "cstr \<Rightarrow> adornment \<Rightarrow> cstr" where
  "adorned_name p ad = p @ ''_'' @ ad_string ad"

definition magic_name :: "cstr \<Rightarrow> adornment \<Rightarrow> cstr" where
  "magic_name p ad = ''magic_'' @ adorned_name p ad"

lemma format_name_Some:
  "format_name [] nm ad h = (Some n, h') \<Longrightarrow> n = adorned_name (the nm) ad"
  "format_name ''magic_'' nm ad h = (Some n, h') \<Longrightarrow> n = magic_name (the nm) ad"
  by (auto simp: format_name_def adorned_name_def magic_name_def split: option.splits dest!: request_Some)

lemma adorned_name_inject [simp]: "adorned_name p ad = adorned_name q ad' \<longleftrightarrow> p = q \<and> ad = ad'"
  by (auto simp: adorned_name_def ad_string_def letter_def prod_eq_iff split: if_splits)

text \<open>The magic fact of a predicate with given arguments, and its instance.\<close>

definition magic_of :: "cstr \<Rightarrow> adornment \<Rightarrow> cstr option \<Rightarrow> cstr option \<Rightarrow> spec_fact" where
  "magic_of p ad s ob =
     \<lparr>sf_s = (if fst ad then s else ob), sf_p = Some (magic_name p ad),
      sf_o = (if fst ad \<and> snd ad then ob else Some ''true''), sf_negated = None\<rparr>"

lemma make_magic_fact_Some:
  "make_magic_fact (Some p) ad s ob h = (Some m, h') \<Longrightarrow> m = magic_of p ad s ob"
  by (auto simp: make_magic_fact_def and_then_Some magic_of_def split: if_splits
      dest!: format_name_Some copy_string_Some)

definition adorned_sub :: "subgoal_info \<Rightarrow> spec_fact" where
  "adorned_sub i =
     (if si_idb i then (si_fact i)\<lparr>sf_p := Some (adorned_name (pred (si_fact i)) (si_ad i))\<rparr> else si_fact i)"

lemma make_adorned_subgoal_Some:
  assumes "make_adorned_subgoal (si_fact i) (si_idb i) (si_ad i) h = (Some f, h')" "plain_fact (si_fact i)"
  shows "f = adorned_sub i"
proof -
  from assms(1) show ?thesis
    unfolding make_adorned_subgoal_def and_then_Some
    by (cases "si_fact i")
      (auto simp: adorned_sub_def pred_def and_then_Some split: if_splits dest!: copy_string_Some format_name_Some)
qed

lemma adorned_subgoals_Some:
  "adorned_subgoals is h = (Some fs, h') \<Longrightarrow> \<forall>i \<in> set is. plain_fact (si_fact i) \<Longrightarrow> fs = map adorned_sub is"
  by (induction "is" arbitrary: h fs) (auto simp: and_then_Some dest!: make_adorned_subgoal_Some)

definition magic_list :: "spec_fact option \<Rightarrow> spec_fact list" where
  "magic_list magic = (case magic of None \<Rightarrow> [] | Some m \<Rightarrow> [m])"

lemma support_and_subgoals_Some:
  assumes "support_and_subgoals magic is h = (Some fs, h')" "\<forall>i \<in> set is. plain_fact (si_fact i)"
    and "\<And>m. magic = Some m \<Longrightarrow> sf_negated m = None"
  shows "fs = magic_list magic @ map adorned_sub is"
proof (cases magic)
  case (Some m)
  then show ?thesis using assms(3) [OF Some] assms(1,2)
    by (cases m) (auto simp: support_and_subgoals_def and_then_Some magic_list_def copy_magic_support_def
        dest!: adorned_subgoals_Some copy_string_Some)
qed (use assms in \<open>auto simp: support_and_subgoals_def magic_list_def dest!: adorned_subgoals_Some\<close>)

lemma add_rule_to_Some:
  "add_rule_to prog hd0 bd h = (Some prog', h') \<Longrightarrow> rules prog' = rules prog @ [\<lparr>head = hd0, body = bd\<rparr>]"
  by (rule datalog_program_add_rule_cases [of prog hd0 bd h]) (auto simp: add_rule_to_def)

section \<open>The queue\<close>

definition queued :: "adorned_queue \<Rightarrow> (cstr \<times> adornment) list" where
  "queued q = map (\<lambda>a. (ap_name a, ap_adornment a)) (aq_items q)"

lemma ad_string_inject [simp]: "ad_string a = ad_string b \<longleftrightarrow> a = b"
  by (auto simp: ad_string_def letter_def prod_eq_iff split: if_splits)

text \<open>What is added to a queue: new entries, all from \<open>S\<close>.\<close>

definition extends :: "(cstr \<times> adornment) set \<Rightarrow> adorned_queue \<Rightarrow> adorned_queue \<Rightarrow> bool" where
  "extends S q q' \<longleftrightarrow> (\<exists>new. queued q' = queued q @ new \<and> set new \<subseteq> S) \<and> (distinct (queued q) \<longrightarrow> distinct (queued q'))"

lemma extends_refl [simp]: "extends S q q"
  by (simp add: extends_def)

lemma extends_trans: "extends S a b \<Longrightarrow> extends S b c \<Longrightarrow> extends S a c"
  unfolding extends_def by fastforce

lemma extends_mono: "extends S a b \<Longrightarrow> S \<subseteq> T \<Longrightarrow> extends T a b"
  unfolding extends_def by blast

lemma extends_queued: "extends S a b \<Longrightarrow> set (queued a) \<subseteq> set (queued b)"
  unfolding extends_def by auto

lemma enqueue_adorned_Some:
  assumes "enqueue_adorned q p ad h = (Some q', h')"
  shows "extends {(p, ad)} q q' \<and> (p, ad) \<in> set (queued q')"
proof -
  have mem: "(\<exists>a \<in> set (aq_items q). ap_name a = p \<and> ap_adornment a = ad) \<longleftrightarrow> (p, ad) \<in> set (queued q)"
    by (auto simp: queued_def)
  show ?thesis
  proof (cases "(p, ad) \<in> set (queued q)")
    case True
    with mem assms have "q' = q" by (auto simp: enqueue_adorned_def)
    with True show ?thesis by simp
  next
    case False
    with mem have no: "\<not> (\<exists>a \<in> set (aq_items q). ap_name a = p \<and> ap_adornment a = ad)" by blast
    have "queued q' = queued q @ [(p, ad)]"
      using assms no by (auto simp: enqueue_adorned_def and_then_Some Let_def queued_def split: if_splits dest!: request_Some)
    with False show ?thesis by (simp add: extends_def)
  qed
qed

definition infos_ok :: "datalog_program \<Rightarrow> subgoal_info list \<Rightarrow> (cstr \<times> adornment) set \<Rightarrow> bool" where
  "infos_ok prog infos Q \<longleftrightarrow>
     (\<forall>i \<in> set infos. plain_fact (si_fact i) \<and> (si_idb i \<longleftrightarrow> pred (si_fact i) \<in> idb prog) \<and>
        (si_idb i \<longrightarrow> (pred (si_fact i), si_ad i) \<in> Q))"

lemma is_idb_iff:
  assumes "list_all plain_rule (rules prog)"
  shows "is_idb_predicate prog (Some p) \<longleftrightarrow> p \<in> idb prog"
proof -
  have "sf_p (head r) = Some (pred (head r))" if "r \<in> set (rules prog)" for r
    using that assms by (intro plain_factD(1)) (auto simp: list_all_iff plain_rule_def)
  then show ?thesis by (auto simp: is_idb_predicate_def idb_def split: option.splits)
qed

lemma adorn_body_Some:
  assumes "adorn_body prog bs bound q h = (Some (infos, q'), h')" "list_all plain_rule (rules prog)" "list_all plain_fact bs"
  shows "map si_fact infos = bs \<and> infos_ok prog infos (set (queued q')) \<and> extends (idb prog \<times> UNIV) q q'"
  using assms(1,3)
proof (induction bs arbitrary: bound q h infos h')
  case Nil
  then show ?case by (simp add: infos_ok_def)
next
  case (Cons b bs)
  have b: "plain_fact b" "list_all plain_fact bs" using Cons.prems(2) by simp_all
  note p = plain_factD(1) [OF b(1)]
  let ?ad = "(is_term_bound (sf_s b) bound, is_term_bound (sf_o b) bound)"
  let ?idb = "is_idb_predicate prog (sf_p b)"
  obtain q1 h1 bound1 h2 bound2 h3 rest h4 where
    1: "(case (?idb, sf_p b) of (True, Some p) \<Rightarrow> enqueue_adorned q p ?ad h | _ \<Rightarrow> (Some q, h)) = (Some q1, h1)" and
    2: "adorn_body prog bs bound2 q1 h3 = (Some (rest, q'), h4)" and
    i: "infos = \<lparr>si_fact = b, si_ad = ?ad, si_idb = ?idb\<rparr> # rest"
    using Cons.prems(1) unfolding adorn_body.simps Let_def and_then_Some by auto
  note IH = Cons.IH [OF 2 b(2)]
  have idb: "?idb \<longleftrightarrow> pred b \<in> idb prog" using is_idb_iff [OF assms(2)] p by simp
  have e: "extends (idb prog \<times> UNIV) q q1 \<and> (pred b \<in> idb prog \<longrightarrow> (pred b, ?ad) \<in> set (queued q1))"
  proof (cases ?idb)
    case True
    with 1 p have "enqueue_adorned q (pred b) ?ad h = (Some q1, h1)" by simp
    from enqueue_adorned_Some [OF this] True idb show ?thesis by (auto intro: extends_mono)
  next
    case False
    with 1 idb show ?thesis by (auto split: option.splits)
  qed
  moreover have "extends (idb prog \<times> UNIV) q q'" using e IH extends_trans by blast
  moreover have "set (queued q1) \<subseteq> set (queued q')" using IH extends_queued by blast
  ultimately show ?case using IH i idb b(1) by (auto simp: infos_ok_def)
qed

section \<open>The rules made from one rule\<close>

definition head_magic :: "cstr \<Rightarrow> adornment \<Rightarrow> spec_fact \<Rightarrow> spec_fact option" where
  "head_magic p ad hd0 = (if ad \<noteq> (False, False) then Some (magic_of p ad (sf_s hd0) (sf_o hd0)) else None)"

definition rewritten_rule :: "cstr \<Rightarrow> adornment \<Rightarrow> datalog_rule \<Rightarrow> subgoal_info list \<Rightarrow> datalog_rule" where
  "rewritten_rule p ad r infos =
     \<lparr>head = (head r)\<lparr>sf_p := Some (adorned_name p ad)\<rparr>,
      body = magic_list (head_magic p ad (head r)) @ map adorned_sub infos\<rparr>"

definition asking_rule :: "spec_fact option \<Rightarrow> subgoal_info list \<Rightarrow> subgoal_info \<Rightarrow> datalog_rule" where
  "asking_rule magic seen i =
     \<lparr>head = magic_of (pred (si_fact i)) (si_ad i) (sf_s (si_fact i)) (sf_o (si_fact i)),
      body = magic_list magic @ map adorned_sub seen\<rparr>"

definition asks :: "subgoal_info \<Rightarrow> bool" where
  "asks i \<longleftrightarrow> si_idb i \<and> si_ad i \<noteq> (False, False)"

fun asking_rules :: "spec_fact option \<Rightarrow> subgoal_info list \<Rightarrow> subgoal_info list \<Rightarrow> datalog_rule list" where
  "asking_rules magic seen [] = []"
| "asking_rules magic seen (i # is) =
     (if asks i then [asking_rule magic seen i] else []) @ asking_rules magic (seen @ [i]) is"

lemma magic_rules_Some:
  assumes "magic_rules magic seen is bound mp h = (Some mp', h')" "\<forall>i \<in> set (seen @ is). plain_fact (si_fact i)"
    and "\<And>m. magic = Some m \<Longrightarrow> sf_negated m = None"
  shows "rules mp' = rules mp @ asking_rules magic seen is"
  using assms(1,2)
proof (induction "is" arbitrary: seen bound mp h)
  case (Cons i "is")
  have p: "sf_p (si_fact i) = Some (pred (si_fact i))" using Cons.prems(2) plain_factD(1) by simp
  have seen: "\<forall>i \<in> set seen. plain_fact (si_fact i)" "\<forall>j \<in> set ((seen @ [i]) @ is). plain_fact (si_fact j)"
    using Cons.prems(2) by auto
  from Cons.prems(1) obtain mp1 h1 bound1 h2 where
    1: "(if si_idb i \<and> si_ad i \<noteq> (False, False) then
          and_then (request_array (magic \<noteq> None \<or> seen \<noteq> []) h) (\<lambda>_ h.
          and_then (make_magic_fact (sf_p (si_fact i)) (si_ad i) (sf_s (si_fact i)) (sf_o (si_fact i)) h) (\<lambda>m h.
          and_then (support_and_subgoals magic seen h) (\<lambda>bd h.
            add_rule_to mp m bd h)))
        else (Some mp, h)) = (Some mp1, h1)" and
    2: "magic_rules magic (seen @ [i]) is bound1 mp1 h2 = (Some mp', h')"
    unfolding magic_rules.simps and_then_Some by auto
  have "rules mp1 = rules mp @ (if asks i then [asking_rule magic seen i] else [])"
  proof (cases "asks i")
    case True
    with 1 show ?thesis
      by (auto simp: asks_def and_then_Some p asking_rule_def dest!: make_magic_fact_Some add_rule_to_Some
          support_and_subgoals_Some [OF _ seen(1) assms(3)])
  next
    case False
    with 1 show ?thesis by (auto simp: asks_def split: if_splits)
  qed
  with Cons.IH [OF 2 seen(2)] show ?case by simp
qed simp

text \<open>What one rule contributes: its rewritten form, and the rules asking its subgoals.\<close>

definition made_from :: "cstr \<times> adornment \<Rightarrow> datalog_rule \<Rightarrow> subgoal_info list \<Rightarrow> datalog_rule list" where
  "made_from pa r infos =
     asking_rules (head_magic (fst pa) (snd pa) (head r)) [] infos @ [rewritten_rule (fst pa) (snd pa) r infos]"

definition transformed ::
  "datalog_program \<Rightarrow> (cstr \<times> adornment) set \<Rightarrow> cstr \<times> adornment \<Rightarrow> datalog_rule \<Rightarrow> datalog_rule set \<Rightarrow> bool" where
  "transformed prog Q pa r new \<longleftrightarrow>
     (\<exists>infos. map si_fact infos = body r \<and> infos_ok prog infos Q \<and> new = set (made_from pa r infos))"

lemma transformed_mono: "transformed prog Q pa r new \<Longrightarrow> Q \<subseteq> Q' \<Longrightarrow> transformed prog Q' pa r new"
  unfolding transformed_def infos_ok_def by blast

lemma transform_rule_Some:
  assumes run: "transform_rule mp prog r cur q h = (Some (mp', q'), h')"
    and plain: "list_all plain_rule (rules prog)" "r \<in> set (rules prog)"
  obtains new where "set (rules mp') = set (rules mp) \<union> new"
    "transformed prog (set (queued q')) (ap_name cur, ap_adornment cur) r new" "extends (idb prog \<times> UNIV) q q'"
proof -
  let ?p = "ap_name cur" and ?ad = "ap_adornment cur"
  have r: "plain_fact (head r)" "list_all plain_fact (body r)"
    using plain by (auto simp: list_all_iff plain_rule_def)
  from run obtain bound h1 infos h2 magic h3 bound2 h4 mp1 h5 hd1 h6 bd h7 h8 h9 where
    1: "adorn_body prog (body r) bound q h1 = (Some (infos, q'), h2)" and
    2: "head_magic_fact cur (head r) h2 = (Some magic, h3)" and
    3: "magic_rules magic [] infos bound2 mp h4 = (Some mp1, h5)" and
    4: "rewritten_head cur (head r) h5 = (Some hd1, h6)" and
    5: "support_and_subgoals magic infos h7 = (Some bd, h8)" "add_rule_to mp1 hd1 bd h8 = (Some mp', h9)"
    unfolding transform_rule_def by (auto simp: and_then_Some)
  note A = adorn_body_Some [OF 1 plain(1) r(2)]
  have plain_i: "\<forall>i \<in> set infos. plain_fact (si_fact i)" using A by (auto simp: infos_ok_def)
  have m: "magic = head_magic ?p ?ad (head r)"
    using 2 by (auto simp: head_magic_def head_magic_fact_def and_then_Some split: if_splits dest!: make_magic_fact_Some)
  have neg: "\<And>m. magic = Some m \<Longrightarrow> sf_negated m = None"
    by (auto simp: m head_magic_def magic_of_def split: if_splits)
  have "rules mp1 = rules mp @ asking_rules magic [] infos"
    by (rule magic_rules_Some [OF 3 _ neg]) (use plain_i in auto)
  moreover have "bd = magic_list magic @ map adorned_sub infos"
    by (rule support_and_subgoals_Some [OF 5(1) plain_i neg])
  moreover have "hd1 = (head r)\<lparr>sf_p := Some (adorned_name ?p ?ad)\<rparr>"
    using 4 by (cases "head r") (auto simp: rewritten_head_def and_then_Some dest!: copy_string_Some format_name_Some)
  ultimately have "rules mp' = rules mp @ made_from (?p, ?ad) r infos"
    using add_rule_to_Some [OF 5(2)] by (simp add: made_from_def rewritten_rule_def m)
  with A that [of "set (made_from (?p, ?ad) r infos)"] show thesis by (auto simp: transformed_def)
qed


section \<open>The loop\<close>

text \<open>
  \<open>covers Q done R\<close>: the rules \<open>R\<close> are those made for the entries \<open>done\<close> of the queue, whose
  adorned subgoals are all in \<open>Q\<close>.
\<close>

definition covers ::
  "datalog_program \<Rightarrow> (cstr \<times> adornment) set \<Rightarrow> ((cstr \<times> adornment) \<times> datalog_rule) set \<Rightarrow> datalog_rule set \<Rightarrow> bool" where
  "covers prog Q work R \<longleftrightarrow>
     (\<forall>(pa, r) \<in> work. \<exists>new. transformed prog Q pa r new \<and> new \<subseteq> R) \<and>
     (\<forall>x \<in> R. \<exists>(pa, r) \<in> work. \<exists>new. transformed prog Q pa r new \<and> x \<in> new)"

lemma covers_insert:
  assumes "covers prog Q work R" "Q \<subseteq> Q'" "transformed prog Q' pa r new"
  shows "covers prog Q' (insert (pa, r) work) (R \<union> new)"
proof -
  have "\<exists>new'. transformed prog Q' pa' r' new' \<and> new' \<subseteq> R \<union> new" if "(pa', r') \<in> insert (pa, r) work" for pa' r'
    using that assms transformed_mono unfolding covers_def by blast
  moreover have "\<exists>(pa', r') \<in> insert (pa, r) work. \<exists>new'. transformed prog Q' pa' r' new' \<and> x \<in> new'"
    if "x \<in> R \<union> new" for x
    using that assms transformed_mono unfolding covers_def by blast
  ultimately show ?thesis unfolding covers_def by blast
qed

definition work_of :: "datalog_rule set \<Rightarrow> cstr \<times> adornment \<Rightarrow> ((cstr \<times> adornment) \<times> datalog_rule) set" where
  "work_of rs pa = {(pa, r) | r. r \<in> rs \<and> pred (head r) = fst pa}"

lemma transform_rules_Some:
  assumes "transform_rules prog cur rs mp q h = (Some (mp', q'), h')" "set rs \<subseteq> set (rules prog)"
    and plain: "list_all plain_rule (rules prog)" and "covers prog (set (queued q)) work (set (rules mp))"
  shows "covers prog (set (queued q')) (work \<union> work_of (set rs) (ap_name cur, ap_adornment cur)) (set (rules mp')) \<and>
    extends (idb prog \<times> UNIV) q q'"
  using assms(1,2,4)
proof (induction rs arbitrary: mp q h work)
  case Nil
  then show ?case by (simp add: work_of_def)
next
  case (Cons r rs)
  have r: "r \<in> set (rules prog)" "set rs \<subseteq> set (rules prog)" using Cons.prems(2) by simp_all
  have "plain_fact (head r)" using r(1) plain by (auto simp: list_all_iff plain_rule_def)
  note p = plain_factD(1) [OF this]
  let ?pa = "(ap_name cur, ap_adornment cur)"
  show ?case
  proof (cases "pred (head r) = ap_name cur")
    case True
    with Cons.prems(1) p obtain mp1 q1 h1 where
      1: "transform_rule mp prog r cur q h = (Some (mp1, q1), h1)" and
      2: "transform_rules prog cur rs mp1 q1 h1 = (Some (mp', q'), h')"
      by (auto simp: and_then_Some)
    from transform_rule_Some [OF 1 plain r(1)] obtain new where new: "set (rules mp1) = set (rules mp) \<union> new"
      "transformed prog (set (queued q1)) ?pa r new" "extends (idb prog \<times> UNIV) q q1" .
    from covers_insert [OF Cons.prems(3) extends_queued [OF new(3)] new(2)]
    have "covers prog (set (queued q1)) (insert (?pa, r) work) (set (rules mp1))" by (simp add: new(1))
    from Cons.IH [OF 2 r(2) this] extends_trans [OF new(3)]
    have "covers prog (set (queued q')) (insert (?pa, r) work \<union> work_of (set rs) ?pa) (set (rules mp')) \<and>
        extends (idb prog \<times> UNIV) q q'" by blast
    moreover have "insert (?pa, r) work \<union> work_of (set rs) ?pa = work \<union> work_of (set (r # rs)) ?pa"
      using True by (auto simp: work_of_def)
    ultimately show ?thesis by simp
  next
    case False
    with Cons.prems(1) p have 2: "transform_rules prog cur rs mp q h = (Some (mp', q'), h')" by auto
    have "work_of (set (r # rs)) ?pa = work_of (set rs) ?pa" using False by (auto simp: work_of_def)
    with Cons.IH [OF 2 r(2) Cons.prems(3)] show ?thesis by simp
  qed
qed

text \<open>The invariant of the loop, and that it ends: every entry of the queue is processed once.\<close>

definition magic_inv :: "datalog_program \<Rightarrow> cstr \<times> adornment \<Rightarrow> magic_state \<Rightarrow> bool" where
  "magic_inv prog pa0 = (\<lambda>(i, mp, q, h).
     i \<le> length (aq_items q) \<and> distinct (queued q) \<and> pa0 \<in> set (queued q) \<and>
     set (queued q) \<subseteq> insert pa0 (idb prog \<times> UNIV) \<and>
     covers prog (set (queued q)) (\<Union>pa \<in> set (take i (queued q)). work_of (set (rules prog)) pa) (set (rules mp)))"

definition magic_result :: "datalog_program \<Rightarrow> cstr \<times> adornment \<Rightarrow> datalog_program option \<times> mem \<Rightarrow> bool" where
  "magic_result prog pa0 res \<longleftrightarrow>
     (\<forall>mp. fst res = Some mp \<longrightarrow> (\<exists>Q. pa0 \<in> Q \<and> Q \<subseteq> insert pa0 (idb prog \<times> UNIV) \<and>
        covers prog Q (\<Union>pa \<in> Q. work_of (set (rules prog)) pa) (set (rules mp))))"

lemma queue_bound:
  assumes "distinct (queued q)" "set (queued q) \<subseteq> insert pa0 (idb prog \<times> UNIV)"
  shows "length (aq_items q) \<le> card (insert pa0 (idb prog \<times> (UNIV :: adornment set)))"
proof -
  have "finite (insert pa0 (idb prog \<times> (UNIV :: adornment set)))" by (simp add: idb_def)
  from card_mono [OF this assms(2)] distinct_card [OF assms(1)] show ?thesis by (simp add: queued_def)
qed

lemma magic_step:
  assumes inv: "magic_inv prog pa0 (i, mp, q, h)" and plain: "list_all plain_rule (rules prog)" and i: "i < length (aq_items q)"
    and run: "transform_rules prog (aq_items q ! i) (rules prog) mp q h = (Some (mp', q'), h')"
  shows "magic_inv prog pa0 (Suc i, mp', q', h')"
proof -
  let ?pa = "(ap_name (aq_items q ! i), ap_adornment (aq_items q ! i))"
  have c: "covers prog (set (queued q)) (\<Union>pa \<in> set (take i (queued q)). work_of (set (rules prog)) pa) (set (rules mp))"
    using inv by (simp add: magic_inv_def)
  from transform_rules_Some [OF run subset_refl plain c]
  have 1: "covers prog (set (queued q')) ((\<Union>pa \<in> set (take i (queued q)). work_of (set (rules prog)) pa) \<union>
      work_of (set (rules prog)) ?pa) (set (rules mp'))" and 2: "extends (idb prog \<times> UNIV) q q'" by auto
  from 2 obtain new where new: "queued q' = queued q @ new" "set new \<subseteq> idb prog \<times> UNIV" by (auto simp: extends_def)
  have len: "length (queued q) = length (aq_items q)" by (simp add: queued_def)
  have "take (Suc i) (queued q') = take i (queued q) @ [?pa]"
    using i new(1) len by (simp add: take_Suc_conv_app_nth queued_def)
  moreover have "length (aq_items q') = length (queued q')" by (simp add: queued_def)
  ultimately show ?thesis
    using inv 1 2 new i len by (auto simp: magic_inv_def extends_def Un_commute)
qed

lemma magic_loop_ends:
  assumes "magic_inv prog pa0 x" "list_all plain_rule (rules prog)"
  obtains res where "run_loop (magic_body prog) x = Some res" "magic_result prog pa0 res"
proof (rule run_loop_ends [where I = "magic_inv prog pa0" and
      m = "\<lambda>(i, mp, q, h). card (insert pa0 (idb prog \<times> (UNIV :: adornment set))) - i" and body = "magic_body prog",
      OF assms(1)])
  fix y assume inv: "magic_inv prog pa0 y"
  obtain i mp q h where y: "y = (i, mp, q, h)" by (cases y)
  note v = inv [unfolded y magic_inv_def prod.case]
  show "(\<exists>s'. magic_body prog y = Some (Inl s') \<and> magic_inv prog pa0 s' \<and>
      (case s' of (i, mp, q, h) \<Rightarrow> card (insert pa0 (idb prog \<times> UNIV)) - i) <
      (case y of (i, mp, q, h) \<Rightarrow> card (insert pa0 (idb prog \<times> (UNIV :: adornment set))) - i)) \<or>
     (\<exists>r. magic_body prog y = Some (Inr r) \<and> magic_result prog pa0 r)"
  proof (cases "i < length (aq_items q)")
    case True
    show ?thesis
    proof (cases "transform_rules prog (aq_items q ! i) (rules prog) mp q h")
      case (Pair r h')
      show ?thesis
      proof (cases r)
        case None
        then show ?thesis using True Pair by (simp add: magic_body_def y magic_result_def)
      next
        case (Some mq)
        obtain mp' q' where mq: "mq = (mp', q')" by (cases mq)
        have "magic_inv prog pa0 (Suc i, mp', q', h')"
          by (rule magic_step [OF inv [unfolded y] assms(2) True]) (use Pair Some mq in simp)
        moreover have "magic_body prog y = Some (Inl (Suc i, mp', q', h'))"
          using True Pair Some mq by (simp add: magic_body_def y)
        moreover have "i < card (insert pa0 (idb prog \<times> (UNIV :: adornment set)))"
          using True queue_bound [of q pa0 prog] v by linarith
        ultimately show ?thesis by (auto simp: y)
      qed
    qed
  next
    case False
    then have "take i (queued q) = queued q" by (simp add: queued_def)
    then have "magic_result prog pa0 (Some mp, h)" using v by (auto simp: magic_result_def)
    then show ?thesis using False by (simp add: magic_body_def y)
  qed
qed (rule that)

end
