(* ===== verification/Magic_Props.thy ===== *)
theory Magic_Props
  imports Magic_Correct "HOL-Library.Code_Target_Nat"
begin

text \<open>
  The transformation of \<^verbatim>\<open>lib/magic.c\<close> ends, and the transformed program answers the query as
  the original program does.
\<close>

section \<open>Names\<close>

lemma magic_name_adorned: "magic_name p ad = adorned_name (''magic_'' @ p) ad"
  by (simp add: magic_name_def adorned_name_def)

text \<open>
  The predicates that are not defined by rules, in the program and in the facts, are not among
  the names the transformation makes up, and no defined predicate is another one behind
  \<^verbatim>\<open>magic_\<close>.
\<close>

definition edb_preds :: "datalog_program \<Rightarrow> atom set \<Rightarrow> cstr set" where
  "edb_preds prog D = ((\<Union>r \<in> set (rules prog). pred ` set (body r)) - idb prog) \<union> (fst \<circ> snd) ` D"

definition names_ok :: "datalog_program \<Rightarrow> atom set \<Rightarrow> bool" where
  "names_ok prog D \<longleftrightarrow>
     (\<forall>p \<in> idb prog. \<forall>q \<in> idb prog. p \<noteq> ''magic_'' @ q) \<and>
     (\<forall>e \<in> edb_preds prog D. \<forall>p \<in> idb prog. \<forall>ad. e \<noteq> adorned_name p ad \<and> e \<noteq> magic_name p ad)"

section \<open>Instances of the new rules\<close>

definition magic_atom :: "cstr \<Rightarrow> adornment \<Rightarrow> cstr \<Rightarrow> cstr \<Rightarrow> atom" where
  "magic_atom p ad s ob =
     (if fst ad then s else ob, magic_name p ad, if fst ad \<and> snd ad then ob else ''true'')"

lemma magic_name_not_var: "\<not> is_var (magic_name p ad)"
  by (simp add: magic_name_def)

lemma inst_magic_of: "inst \<sigma> (magic_of p ad s ob) = magic_atom p ad (val \<sigma> s) (val \<sigma> ob)"
  using magic_name_not_var [of p ad] by (auto simp: inst_def magic_of_def magic_atom_def)

lemma adorned_name_not_var: "\<not> is_var p \<Longrightarrow> \<not> is_var (adorned_name p ad)"
  by (cases p) (auto simp: adorned_name_def)

lemma inst_adorned_sub:
  assumes "plain_fact (si_fact i)"
  shows "inst \<sigma> (adorned_sub i) =
    (val \<sigma> (sf_s (si_fact i)),
     if si_idb i then adorned_name (pred (si_fact i)) (si_ad i) else pred (si_fact i),
     val \<sigma> (sf_o (si_fact i)))"
  using plain_factD(2,6) [OF assms] adorned_name_not_var [of "pred (si_fact i)" "si_ad i"]
  by (simp add: adorned_sub_def) (simp add: inst_def)

lemma inst_rewritten_head:
  assumes "plain_fact (head r)" "pred (head r) = p"
  shows "inst \<sigma> (head (rewritten_rule p ad r infos)) = (val \<sigma> (sf_s (head r)), adorned_name p ad, val \<sigma> (sf_o (head r)))"
  using adorned_name_not_var [of p ad] plain_factD(2) [OF assms(1)] assms(2) by (simp add: rewritten_rule_def inst_def)

lemma set_asking_rules:
  "set (asking_rules magic seen is) =
   {asking_rule magic (seen @ as) i | as i bs. is = as @ i # bs \<and> asks i}"
proof (induction "is" arbitrary: seen)
  case (Cons i "is")
  have "x \<in> set (asking_rules magic seen (i # is)) \<longleftrightarrow>
      (\<exists>as j bs. x = asking_rule magic (seen @ as) j \<and> i # is = as @ j # bs \<and> asks j)" for x
  proof
    assume "x \<in> set (asking_rules magic seen (i # is))"
    then consider "asks i" "x = asking_rule magic seen i" | "x \<in> set (asking_rules magic (seen @ [i]) is)"
      by (auto split: if_splits)
    then show "\<exists>as j bs. x = asking_rule magic (seen @ as) j \<and> i # is = as @ j # bs \<and> asks j"
    proof cases
      case 1
      then show ?thesis by (intro exI [of _ "[]"] exI [of _ i] exI [of _ "is"]) simp
    next
      case 2
      then obtain as j bs where "x = asking_rule magic ((seen @ [i]) @ as) j" "is = as @ j # bs" "asks j"
        unfolding Cons.IH by blast
      then show ?thesis by (intro exI [of _ "i # as"] exI [of _ j] exI [of _ bs]) simp
    qed
  next
    assume "\<exists>as j bs. x = asking_rule magic (seen @ as) j \<and> i # is = as @ j # bs \<and> asks j"
    then obtain as j bs where x: "x = asking_rule magic (seen @ as) j" "i # is = as @ j # bs" "asks j" by blast
    show "x \<in> set (asking_rules magic seen (i # is))"
    proof (cases as)
      case Nil
      with x show ?thesis by simp
    next
      case (Cons k ks)
      with x have "x = asking_rule magic ((seen @ [i]) @ ks) j" "is = ks @ j # bs" by simp_all
      with x(3) Cons.IH [of "seen @ [i]"] have "x \<in> set (asking_rules magic (seen @ [i]) is)" by blast
      then show ?thesis by simp
    qed
  qed
  then show ?case by blast
qed simp

section \<open>Soundness\<close>

definition magic_setup ::
  "datalog_program \<Rightarrow> atom set \<Rightarrow> (cstr \<times> adornment) set \<Rightarrow> datalog_rule set \<Rightarrow> bool" where
  "magic_setup prog D Q R \<longleftrightarrow>
     list_all plain_rule (rules prog) \<and> Q \<subseteq> idb prog \<times> UNIV \<and>
     covers prog Q (\<Union>pa \<in> Q. work_of (set (rules prog)) pa) R \<and>
     names_ok prog D \<and> (\<forall>a \<in> D. fst (snd a) \<notin> idb prog)"

lemma magic_setupD:
  assumes "magic_setup prog D Q R"
  shows "list_all plain_rule (rules prog)" "Q \<subseteq> idb prog \<times> UNIV"
    "covers prog Q (\<Union>pa \<in> Q. work_of (set (rules prog)) pa) R" "names_ok prog D"
    "a \<in> D \<Longrightarrow> fst (snd a) \<notin> idb prog"
  using assms by (simp_all add: magic_setup_def)

lemma plain_rules:
  assumes "magic_setup prog D Q R" "r \<in> set (rules prog)"
  shows "plain_fact (head r)" "b \<in> set (body r) \<Longrightarrow> plain_fact b"
  using magic_setupD(1) [OF assms(1)] assms(2) by (auto simp: list_all_iff plain_rule_def)

lemma rule_cases:
  assumes ms: "magic_setup prog D Q R" and "x \<in> R"
  obtains (rewritten) p ad r infos where "(p, ad) \<in> Q" "r \<in> set (rules prog)" "pred (head r) = p" "map si_fact infos = body r"
      "infos_ok prog infos Q" "x = rewritten_rule p ad r infos"
  | (asking) q ad' s ob bd where "q \<in> idb prog" "x = \<lparr>head = magic_of q ad' s ob, body = bd\<rparr>"
proof -
  from assms(2) magic_setupD(3) [OF ms] obtain p ad r infos where 1: "(p, ad) \<in> Q" "r \<in> set (rules prog)" "pred (head r) = p" "map si_fact infos = body r"
    "infos_ok prog infos Q" "x \<in> set (made_from (p, ad) r infos)"
    unfolding covers_def work_of_def transformed_def by force
  then consider "x = rewritten_rule p ad r infos" | "x \<in> set (asking_rules (head_magic p ad (head r)) [] infos)"
    by (auto simp: made_from_def)
  then show thesis
  proof cases
    case 2
    then obtain as i bs where i: "x = asking_rule (head_magic p ad (head r)) as i" "infos = as @ i # bs" "asks i"
      unfolding set_asking_rules by auto
    then have "pred (si_fact i) \<in> idb prog" using 1(5) by (auto simp: infos_ok_def asks_def)
    with i show thesis by (auto intro: asking simp: asking_rule_def)
  qed (use 1 in \<open>auto intro: rewritten\<close>)
qed

lemma edb_sub:
  assumes "r \<in> set (rules prog)" "b \<in> set (body r)" "pred b \<notin> idb prog"
  shows "pred b \<in> edb_preds prog D"
  using assms by (auto simp: edb_preds_def)

definition sound :: "datalog_program \<Rightarrow> atom set \<Rightarrow> atom \<Rightarrow> bool" where
  "sound prog D a \<longleftrightarrow>
     (a \<in> D \<or> (\<exists>q \<in> idb prog. \<exists>ad. fst (snd a) = magic_name q ad) \<or>
      (\<exists>p \<in> idb prog. \<exists>ad s ob. a = (s, adorned_name p ad, ob) \<and> (s, p, ob) \<in> derivable (set (rules prog)) D))"

lemma sound_adorned:
  assumes names: "names_ok prog D" and "sound prog D (s, adorned_name p ad, ob)" and p: "p \<in> idb prog"
  shows "(s, p, ob) \<in> derivable (set (rules prog)) D"
  using assms(2) unfolding sound_def
proof (elim disjE bexE exE conjE)
  assume "(s, adorned_name p ad, ob) \<in> D"
  then have "adorned_name p ad \<in> edb_preds prog D" by (force simp: edb_preds_def)
  with names p show ?thesis unfolding names_ok_def by blast
next
  fix q ad' assume "q \<in> idb prog" "fst (snd (s, adorned_name p ad, ob)) = magic_name q ad'"
  with names p show ?thesis by (auto simp: names_ok_def magic_name_adorned)
qed simp

lemma sound_given:
  assumes "names_ok prog D" "sound prog D (s, e, ob)" "e \<in> edb_preds prog D"
  shows "(s, e, ob) \<in> D"
  using assms unfolding sound_def names_ok_def by auto

lemma derivable_sound:
  assumes ms: "magic_setup prog D Q R" and "a \<in> derivable R (D \<union> S)" and S: "\<forall>x \<in> S. \<exists>q \<in> idb prog. \<exists>ad. fst (snd x) = magic_name q ad"
  shows "sound prog D a"
  using assms(2)
proof (induction rule: derivable.induct)
  case (given a)
  with S show ?case by (auto simp: sound_def)
next
  case (derived x \<sigma>)
  note names = magic_setupD(4) [OF ms]
  show ?case
  proof (cases rule: rule_cases [OF ms derived.hyps(1), case_names rewritten asking])
    case (rewritten p ad r infos)
    note pr = plain_rules [OF ms rewritten(2)]
    have p: "p \<in> idb prog" using rewritten(2,3) by (auto simp: idb_def)
    have "inst \<sigma> b \<in> derivable (set (rules prog)) D" if b: "b \<in> set (body r)" for b
    proof -
      from b rewritten(4) obtain i where i: "i \<in> set infos" "si_fact i = b" by (metis (no_types) imageE list.set_map)
      have pb: "plain_fact b" by (rule pr(2) [OF b])
      have s: "sound prog D (inst \<sigma> (adorned_sub i))"
        using derived.IH [of "adorned_sub i"] i(1) rewritten(6) by (simp add: rewritten_rule_def)
      have idb: "si_idb i \<longleftrightarrow> pred b \<in> idb prog" using rewritten(5) i by (auto simp: infos_ok_def)
      show ?thesis
      proof (cases "si_idb i")
        case True
        with s inst_adorned_sub [of i \<sigma>] i(2) pb idb sound_adorned [OF names] show ?thesis by (simp add: plain_factD(6) [OF pb])
      next
        case False
        with s inst_adorned_sub [of i \<sigma>] i(2) pb idb sound_given [OF names] edb_sub [OF rewritten(2) b]
        show ?thesis by (auto simp: plain_factD(6) [OF pb] intro: derivable.given)
      qed
    qed
    then have "inst \<sigma> (head r) \<in> derivable (set (rules prog)) D" by (rule derivable.derived [OF rewritten(2)])
    then show ?thesis
      using inst_rewritten_head [of r p \<sigma> ad infos] pr(1) rewritten(3,6) p
      by (auto simp: sound_def plain_factD(6))
  next
    case (asking q ad' s ob bd)
    then have "fst (snd (inst \<sigma> (head x))) = magic_name q ad'" by (simp add: inst_magic_of magic_atom_def)
    with asking(1) show ?thesis unfolding sound_def by blast
  qed
qed

section \<open>Completeness\<close>

lemma derivable_complete:
  assumes ms: "magic_setup prog D Q R" and "a \<in> derivable (set (rules prog)) D" "a = (s, p, ob)" "(p, ad) \<in> Q"
    and "ad \<noteq> (False, False) \<Longrightarrow> magic_atom p ad s ob \<in> derivable R S" and DS: "D \<subseteq> S"
  shows "(s, adorned_name p ad, ob) \<in> derivable R S"
  using assms(2-5)
proof (induction arbitrary: s p ob ad rule: derivable.induct)
  case (given a)
  then show ?case using magic_setupD(2) [OF ms] magic_setupD(5) [OF ms given.hyps] by auto
next
  case (derived r \<sigma>)
  note pr = plain_rules [OF ms derived.hyps(1)]
  have hd0: "s = val \<sigma> (sf_s (head r))" "p = pred (head r)" "ob = val \<sigma> (sf_o (head r))"
    using derived.prems(1) plain_factD(6) [OF pr(1), of \<sigma>] by simp_all
  have "((p, ad), r) \<in> (\<Union>pa \<in> Q. work_of (set (rules prog)) pa)"
    using derived.prems(2) derived.hyps(1) hd0 by (auto simp: work_of_def)
  with magic_setupD(3) [OF ms] obtain infos where i: "map si_fact infos = body r" "infos_ok prog infos Q" "set (made_from (p, ad) r infos) \<subseteq> R"
    unfolding covers_def transformed_def by blast
  let ?magic = "head_magic p ad (head r)"
  have m: "inst \<sigma> m \<in> derivable R S" if "m \<in> set (magic_list ?magic)" for m
    using that derived.prems(3) hd0 by (auto simp: magic_list_def head_magic_def inst_magic_of split: if_splits)
  have subs: "inst \<sigma> (adorned_sub i) \<in> derivable R S" if "infos = as @ i # bs" for as i bs
    using that
  proof (induction "length as" arbitrary: as i bs rule: less_induct)
    case less
    have ii: "i \<in> set infos" "si_fact i \<in> set (body r)" using less.prems \<open>map si_fact infos = body r\<close> [symmetric] by auto
    have pb: "plain_fact (si_fact i)" by (rule pr(2) [OF ii(2)])
    have idb: "si_idb i \<longleftrightarrow> pred (si_fact i) \<in> idb prog" "si_idb i \<Longrightarrow> (pred (si_fact i), si_ad i) \<in> Q"
      using i(2) ii(1) by (auto simp: infos_ok_def)
    show ?case
    proof (cases "si_idb i")
      case True
      have "magic_atom (pred (si_fact i)) (si_ad i) (val \<sigma> (sf_s (si_fact i))) (val \<sigma> (sf_o (si_fact i))) \<in> derivable R S"
        if "si_ad i \<noteq> (False, False)"
      proof -
        have "asking_rule ?magic as i \<in> set (asking_rules ?magic [] infos)"
          unfolding set_asking_rules using less.prems True that by (force simp: asks_def)
        then have "asking_rule ?magic as i \<in> R" using i(3) by (auto simp: made_from_def)
        moreover have "inst \<sigma> b \<in> derivable R S" if "b \<in> set (body (asking_rule ?magic as i))" for b
        proof (cases "b \<in> set (magic_list ?magic)")
          case False
          with that obtain j where j: "j \<in> set as" "b = adorned_sub j" by (auto simp: asking_rule_def)
          then obtain as1 as2 where as: "as = as1 @ j # as2" by (meson split_list)
          with less.prems have "infos = as1 @ j # (as2 @ i # bs)" by simp
          with less.hyps [of as1 j] as j(2) show ?thesis by simp
        qed (rule m)
        ultimately have "inst \<sigma> (head (asking_rule ?magic as i)) \<in> derivable R S" by (rule derivable.derived)
        then show ?thesis by (simp add: asking_rule_def inst_magic_of)
      qed
      with derived.IH [OF ii(2) plain_factD(6) [OF pb] idb(2) [OF True]]
      show ?thesis using inst_adorned_sub [OF pb, of \<sigma>] True by simp
    next
      case False
      with derivable_edb [OF derived.hyps(2) [OF ii(2)] _ magic_setupD(1) [OF ms]] idb(1) plain_factD(6) [OF pb, of \<sigma>]
      have "inst \<sigma> (si_fact i) \<in> D" by simp
      with DS show ?thesis
        using False by (auto simp: adorned_sub_def intro: derivable.given)
    qed
  qed
  have "inst \<sigma> b \<in> derivable R S" if "b \<in> set (body (rewritten_rule p ad r infos))" for b
  proof (cases "b \<in> set (magic_list ?magic)")
    case False
    with that obtain i where "i \<in> set infos" "b = adorned_sub i" by (auto simp: rewritten_rule_def)
    with subs show ?thesis by (meson split_list)
  qed (rule m)
  moreover have "rewritten_rule p ad r infos \<in> R" using i(3) by (auto simp: made_from_def)
  ultimately have "inst \<sigma> (head (rewritten_rule p ad r infos)) \<in> derivable R S" using derivable.derived by blast
  then show ?case using inst_rewritten_head [of r p] pr(1) hd0 by simp
qed

section \<open>The transformation\<close>

lemma magic_transform_result:
  assumes plain: "list_all plain_rule (rules prog)"
    and goal: "sf_s goal = Some gs" "sf_p goal = Some gp" "sf_o goal = Some go" "\<not> is_var gp"
  obtains res where "datalog_program_magic_transform prog goal h = Some res"
    "magic_result prog (gp, (\<not> is_var gs, \<not> is_var go)) res"
proof -
  let ?ad = "(\<not> is_var gs, \<not> is_var go)"
  have none: "magic_result prog (gp, ?ad) (None, h')" for h' by (simp add: magic_result_def)
  show thesis
  proof (cases "enqueue_adorned \<lparr>aq_items = [], aq_capacity = 0\<rparr> gp ?ad h")
    case (Pair q h1)
    show thesis
    proof (cases q)
      case None
      with Pair goal have "datalog_program_magic_transform prog goal h = Some (None, h1)"
        by (simp add: datalog_program_magic_transform_def)
      with that none show thesis by blast
    next
      case (Some q1)
      note q = enqueue_adorned_Some [OF Pair [unfolded Some]]
      show thesis
      proof (cases "new_datalog_program h1")
        case mp: (Pair mp h2)
        show thesis
        proof (cases mp)
          case None
          with Pair Some mp goal have "datalog_program_magic_transform prog goal h = Some (None, h2)"
            by (simp add: datalog_program_magic_transform_def)
          with that none show thesis by blast
        next
          case mp1: (Some mp1)
          then have "rules mp1 = []" using mp by (auto simp: new_datalog_program_def split: if_splits prod.splits)
          then have "magic_inv prog (gp, ?ad) (0, mp1, q1, h2)"
            using q by (auto simp: magic_inv_def covers_def extends_def queued_def)
          from magic_loop_ends [OF this plain] obtain res where
            r: "run_loop (magic_body prog) (0, mp1, q1, h2) = Some res" "magic_result prog (gp, ?ad) res" .
          have "datalog_program_magic_transform prog goal h = Some res"
            using r(1) Pair Some mp mp1 goal by (simp add: datalog_program_magic_transform_def)
          with r(2) that show thesis by blast
        qed
      qed
    qed
  qed
qed

text \<open>The facts that ask the query: none when nothing is bound.\<close>

definition seed :: "cstr \<Rightarrow> cstr \<Rightarrow> cstr \<Rightarrow> atom set" where
  "seed gs gp go =
     (let ad = (\<not> is_var gs, \<not> is_var go) in if ad = (False, False) then {} else {magic_atom gp ad gs go})"

definition matches_goal :: "cstr \<Rightarrow> cstr \<Rightarrow> bool" where
  "matches_goal g x \<longleftrightarrow> is_var g \<or> x = g"

text \<open>
  C9: For a program of rules without negation, null fields and variable predicates, and a query on
  a predicate that has rules, \<^verbatim>\<open>datalog_program_magic_transform\<close> always returns. When it does not
  run out of memory, then for given facts \<open>D\<close> that are not about predicates with rules, the
  transformed program derives from \<open>D\<close> and the fact that asks the query exactly those answers
  that the original program derives from \<open>D\<close>, under the adorned name, provided the made-up
  names clash with no predicate in use.
\<close>

theorem magic_transform_correct:
  assumes "list_all plain_rule (rules prog)" "\<forall>a \<in> D. fst (snd a) \<notin> idb prog" "names_ok prog D"
    and "sf_s goal = Some gs" "sf_p goal = Some gp" "sf_o goal = Some go" "\<not> is_var gp" "gp \<in> idb prog"
  shows "\<exists>r h'. datalog_program_magic_transform prog goal h = Some (r, h') \<and>
    (\<forall>mp s ob. r = Some mp \<and> matches_goal gs s \<and> matches_goal go ob \<longrightarrow>
       ((s, adorned_name gp (\<not> is_var gs, \<not> is_var go), ob) \<in> derivable (set (rules mp)) (D \<union> seed gs gp go) \<longleftrightarrow>
        (s, gp, ob) \<in> derivable (set (rules prog)) D))"
proof -
  let ?ad = "(\<not> is_var gs, \<not> is_var go)"
  from magic_transform_result [OF assms(1,4-7)] obtain res where
    res0: "datalog_program_magic_transform prog goal h = Some res" "magic_result prog (gp, ?ad) res" .
  obtain r h' where "res = (r, h')" by (cases res)
  with res0 have res: "datalog_program_magic_transform prog goal h = Some (r, h')" "magic_result prog (gp, ?ad) (r, h')"
    by simp_all
  have "(s, adorned_name gp ?ad, ob) \<in> derivable (set (rules mp)) (D \<union> seed gs gp go) \<longleftrightarrow>
      (s, gp, ob) \<in> derivable (set (rules prog)) D"
    if r: "r = Some mp" and m: "matches_goal gs s" "matches_goal go ob" for mp s ob
  proof -
    from res(2) r obtain Q where Q: "(gp, ?ad) \<in> Q" "Q \<subseteq> insert (gp, ?ad) (idb prog \<times> UNIV)"
      "covers prog Q (\<Union>pa \<in> Q. work_of (set (rules prog)) pa) (set (rules mp))" by (auto simp: magic_result_def)
    then have ms: "magic_setup prog D Q (set (rules mp))" using assms(1,2,3,8) by (auto simp: magic_setup_def)
    have "\<forall>x \<in> seed gs gp go. \<exists>q \<in> idb prog. \<exists>ad. fst (snd x) = magic_name q ad"
      using assms(8) by (auto simp: seed_def magic_atom_def Let_def)
    from derivable_sound [OF ms _ this] sound_adorned [OF assms(3) _ assms(8)]
    have "(s, gp, ob) \<in> derivable (set (rules prog)) D"
      if "(s, adorned_name gp ?ad, ob) \<in> derivable (set (rules mp)) (D \<union> seed gs gp go)" using that by blast
    moreover have "(s, adorned_name gp ?ad, ob) \<in> derivable (set (rules mp)) (D \<union> seed gs gp go)"
      if "(s, gp, ob) \<in> derivable (set (rules prog)) D"
    proof (rule derivable_complete [OF ms that refl Q(1)])
      assume "?ad \<noteq> (False, False)"
      then have "magic_atom gp ?ad s ob \<in> seed gs gp go"
        using m by (auto simp: seed_def magic_atom_def matches_goal_def Let_def)
      then show "magic_atom gp ?ad s ob \<in> derivable (set (rules mp)) (D \<union> seed gs gp go)"
        by (intro derivable.given) simp
    qed simp
    ultimately show ?thesis by blast
  qed
  with res(1) show ?thesis by blast
qed

section \<open>An example\<close>

definition sfact :: "cstr \<Rightarrow> cstr \<Rightarrow> cstr \<Rightarrow> spec_fact" where
  "sfact s p ob = \<lparr>sf_s = Some s, sf_p = Some p, sf_o = Some ob, sf_negated = None\<rparr>"

definition ex_paths :: datalog_program where
  "ex_paths = \<lparr>rules =
     [\<lparr>head = sfact ''?x'' ''path'' ''?y'', body = [sfact ''?x'' ''edge'' ''?y'']\<rparr>,
      \<lparr>head = sfact ''?x'' ''path'' ''?z'', body = [sfact ''?x'' ''path'' ''?y'', sfact ''?y'' ''edge'' ''?z'']\<rparr>]\<rparr>"

definition ex_edges :: "atom set" where
  "ex_edges = {(''a'', ''edge'', ''b''), (''b'', ''edge'', ''c'')}"

lemma ex_paths_ok:
  "list_all plain_rule (rules ex_paths)" "idb ex_paths = {''path''}" "names_ok ex_paths ex_edges"
  "\<forall>a \<in> ex_edges. fst (snd a) \<notin> idb ex_paths"
proof -
  show "list_all plain_rule (rules ex_paths)"
    by (simp add: ex_paths_def plain_rule_def plain_fact_def sfact_def)
  show i: "idb ex_paths = {''path''}" by (simp add: ex_paths_def idb_def pred_def sfact_def)
  then show "\<forall>a \<in> ex_edges. fst (snd a) \<notin> idb ex_paths" by (simp add: ex_edges_def)
  have "edb_preds ex_paths ex_edges = {''edge''}"
    by (auto simp: edb_preds_def i) (auto simp: ex_paths_def ex_edges_def pred_def sfact_def)
  then show "names_ok ex_paths ex_edges"
    by (auto simp: names_ok_def i adorned_name_def magic_name_def ad_string_def)
qed

lemma ex_path: "(''a'', ''path'', ''c'') \<in> derivable (set (rules ex_paths)) ex_edges"
proof -
  let ?D = "derivable (set (rules ex_paths)) ex_edges"
  have e: "(''a'', ''edge'', ''b'') \<in> ?D" "(''b'', ''edge'', ''c'') \<in> ?D"
    by (auto intro: derivable.given simp: ex_edges_def)
  have r: "\<lparr>head = sfact ''?x'' ''path'' ''?y'', body = [sfact ''?x'' ''edge'' ''?y'']\<rparr> \<in> set (rules ex_paths)"
    "\<lparr>head = sfact ''?x'' ''path'' ''?z'', body = [sfact ''?x'' ''path'' ''?y'', sfact ''?y'' ''edge'' ''?z'']\<rparr> \<in> set (rules ex_paths)"
    by (simp_all add: ex_paths_def)
  let ?\<sigma> = "\<lambda>v. if v = ''?x'' then ''a'' else ''b''"
  have "inst ?\<sigma> (sfact ''?x'' ''edge'' ''?y'') \<in> ?D" using e(1) by (simp add: inst_def sfact_def)
  then have "inst ?\<sigma> (sfact ''?x'' ''path'' ''?y'') \<in> ?D"
    using derivable.derived [OF r(1), of ?\<sigma> ex_edges] by simp
  then have ab: "(''a'', ''path'', ''b'') \<in> ?D" by (simp add: inst_def sfact_def)
  let ?\<tau> = "\<lambda>v. if v = ''?x'' then ''a'' else if v = ''?y'' then ''b'' else ''c''"
  have "inst ?\<tau> (sfact ''?x'' ''path'' ''?y'') \<in> ?D" "inst ?\<tau> (sfact ''?y'' ''edge'' ''?z'') \<in> ?D"
    using ab e(2) by (simp_all add: inst_def sfact_def)
  then have "inst ?\<tau> (sfact ''?x'' ''path'' ''?z'') \<in> ?D"
    using derivable.derived [OF r(2), of ?\<tau> ex_edges] by auto
  then show ?thesis by (simp add: inst_def sfact_def)
qed

lemma ex_transform_runs:
  "\<exists>mp h'. datalog_program_magic_transform ex_paths (sfact ''a'' ''path'' ''?y'') [] = Some (Some mp, h')"
proof -
  have "case datalog_program_magic_transform ex_paths (sfact ''a'' ''path'' ''?y'') [] of
      Some (Some mp, h') \<Rightarrow> True | _ \<Rightarrow> False" by code_simp
  then show ?thesis by (auto split: option.splits)
qed

theorem magic_transform_correct_witness:
  "\<exists>mp h'. datalog_program_magic_transform ex_paths (sfact ''a'' ''path'' ''?y'') [] = Some (Some mp, h') \<and>
     (''a'', ''path_bf'', ''c'') \<in> derivable (set (rules mp)) (ex_edges \<union> {(''a'', ''magic_path_bf'', ''true'')})"
proof -
  from ex_transform_runs obtain mp h' where
    m: "datalog_program_magic_transform ex_paths (sfact ''a'' ''path'' ''?y'') [] = Some (Some mp, h')" by blast
  have "seed ''a'' ''path'' ''?y'' = {(''a'', ''magic_path_bf'', ''true'')}"
    by (simp add: seed_def magic_atom_def magic_name_def adorned_name_def ad_string_def letter_def)
  moreover have "adorned_name ''path'' (True, False) = ''path_bf''"
    by (simp add: adorned_name_def ad_string_def letter_def)
  ultimately show ?thesis
    using magic_transform_correct [OF ex_paths_ok(1,4,3), of "sfact ''a'' ''path'' ''?y''" "''a''" "''path''" "''?y''" "[]"]
      m ex_path ex_paths_ok(2)
    by (auto simp: sfact_def matches_goal_def)
qed

end
