(* ===== verification/Workspace.thy ===== *)
theory Workspace
  imports Query_Ops
begin

text \<open>
  The databases an evaluation works with (\<^verbatim>\<open>lib/eval.c\<close>): the main one and scratch databases,
  which use its symbol table. The memory of facts, the arena, the allocator and the random
  generator belong to all of them.
\<close>

section \<open>Databases by handle\<close>

datatype handle = Main | Scratch nat

text \<open>The scratch databases in the order they were made; \<open>None\<close> for a deleted one.\<close>

record workspace =
  w_main :: facts
  w_dbs :: "facts option list"

type_synonym 'a waction = "workspace \<Rightarrow> ('a \<times> workspace) option"

text \<open>What the databases have in common, as the database \<open>src\<close> left it.\<close>

definition share :: "facts \<Rightarrow> facts \<Rightarrow> facts" where
  "share src st =
     st\<lparr>db_symbols := db_symbols src, db_heap := db_heap src, db_arena := db_arena src,
        db_mem := db_mem src, db_rng := db_rng src\<rparr>"

definition get_db :: "handle \<Rightarrow> workspace \<Rightarrow> facts option" where
  "get_db i w =
     (case i of Main \<Rightarrow> Some (w_main w)
      | Scratch n \<Rightarrow> if n < length (w_dbs w) then map_option (share (w_main w)) (w_dbs w ! n) else None)"

definition put_db :: "handle \<Rightarrow> facts \<Rightarrow> workspace \<Rightarrow> workspace" where
  "put_db i st w =
     (case i of Main \<Rightarrow> w\<lparr>w_main := st\<rparr>
      | Scratch n \<Rightarrow> w\<lparr>w_main := share st (w_main w), w_dbs := (w_dbs w)[n := Some st]\<rparr>)"

text \<open>An operation of \<^verbatim>\<open>facts.c\<close> on one of the databases; a deleted one is not used.\<close>

definition at_db :: "handle \<Rightarrow> 'a action \<Rightarrow> 'a waction" where
  "at_db i act w = do { st \<leftarrow> get_db i w; (r, st') \<leftarrow> act st; Some (r, put_db i st' w) }"

definition w_malloc :: "bool waction" where
  "w_malloc w = (case malloc (db_mem (w_main w)) of (ok, h) \<Rightarrow> Some (ok, w\<lparr>w_main := (w_main w)\<lparr>db_mem := h\<rparr>\<rparr>))"

section \<open>Scratch databases\<close>

definition globals_of :: "facts \<Rightarrow> globals" where
  "globals_of st = \<lparr>g_arena = db_arena st, g_heap = db_heap st, g_mem = db_mem st, g_rng = db_rng st\<rparr>"

definition set_globals :: "globals \<Rightarrow> facts \<Rightarrow> facts" where
  "set_globals g st = st\<lparr>db_arena := g_arena g, db_heap := g_heap g, db_mem := g_mem g, db_rng := g_rng g\<rparr>"

text \<open>A database that is already owned fails the assertion.\<close>

definition new_eval_scratch :: "(fact_key \<Rightarrow> nat \<Rightarrow> u64) \<Rightarrow> nat \<Rightarrow> handle option waction" where
  "new_eval_scratch wyhash mx w =
     (case new_facts wyhash (Some (db_symbols (w_main w))) mx (globals_of (w_main w)) of
        (None, g) \<Rightarrow> Some (None, w\<lparr>w_main := set_globals g (w_main w)\<rparr>)
      | (Some st, g) \<Rightarrow> do {
          (already_owned, tx) \<leftarrow> transaction_acquire_writer (db_tx st);
          if already_owned then None
          else Some (Some (Scratch (length (w_dbs w))),
                     w\<lparr>w_main := share st (w_main w), w_dbs := w_dbs w @ [Some (st\<lparr>db_tx := tx\<rparr>)]\<rparr>) })"

text \<open>The database's own lock is released, and what it held of the symbols is given back.\<close>

definition delete_eval_scratch :: "handle option \<Rightarrow> unit waction" where
  "delete_eval_scratch i w =
     (case i of None \<Rightarrow> Some ((), w)
      | Some Main \<Rightarrow> None
      | Some (Scratch n) \<Rightarrow> do {
          st \<leftarrow> get_db (Scratch n) w;
          if \<not> transaction_writer_owned (db_tx st) \<or> tx_level (db_tx st) \<noteq> 0 \<or> entries st \<noteq> [] then None
          else do {
            (t, A) \<leftarrow> facts_destroy (st\<lparr>db_tx := transaction_release_writer (db_tx st) False\<rparr>);
            Some ((), w\<lparr>w_main := (w_main w)\<lparr>db_symbols := (case t of Some t' \<Rightarrow> t' | None \<Rightarrow> db_symbols (w_main w)),
                                            db_arena := A\<rparr>,
                       w_dbs := (w_dbs w)[n := None]\<rparr>) } })"

text \<open>The databases of a stratum are made together and deleted together.\<close>

fun new_scratches :: "(fact_key \<Rightarrow> nat \<Rightarrow> u64) \<Rightarrow> nat \<Rightarrow> handle option list waction" where
  "new_scratches wyhash 0 w = Some ([], w)"
| "new_scratches wyhash (Suc n) w =
     do { (i, w) \<leftarrow> new_eval_scratch wyhash 256 w;
          (is, w) \<leftarrow> new_scratches wyhash n w;
          Some (i # is, w) }"

fun delete_scratches :: "handle option list \<Rightarrow> unit waction" where
  "delete_scratches [] w = Some ((), w)"
| "delete_scratches (i # is) w = do { (_, w) \<leftarrow> delete_eval_scratch i w; delete_scratches is w }"

section \<open>Cursors over one of the databases\<close>

text \<open>The variables of a cursor are local to its loop: they have slots of their own.\<close>

definition cursor_step :: "facts_cursor \<times> slots \<Rightarrow> (addr option \<times> facts_cursor \<times> slots) action" where
  "cursor_step c st =
     do { (a, c', m', st') \<leftarrow> facts_cursor_next (fst c) (snd c) st; Some ((a, c', m'), st') }"

definition cursor_stop :: "facts_cursor \<Rightarrow> unit action" where
  "cursor_stop c st = do { (_, st') \<leftarrow> facts_cursor_stop c st; Some ((), st') }"

text \<open>The three strings of a fact; a sentinel has none.\<close>

definition fact_strings :: "addr \<Rightarrow> workspace \<Rightarrow> cstr option \<times> cstr option \<times> cstr option" where
  "fact_strings a w =
     (let f = db_heap (w_main w) a in (symbol_to_str (f_s f), symbol_to_str (f_p f), symbol_to_str (f_o f)))"

section \<open>Copying one database into another\<close>

text \<open>
  The loops of \<^verbatim>\<open>facts_merge_count\<close> and \<^verbatim>\<open>facts_merge_derived_count\<close> differ in what they do with a
  fact: \<open>step\<close> gives whether it was added, and what it counts.
\<close>

definition merge_body ::
  "(cstr \<Rightarrow> cstr \<Rightarrow> cstr \<Rightarrow> (bool \<times> nat) waction) \<Rightarrow> handle \<Rightarrow> nat \<times> (facts_cursor \<times> slots) \<times> workspace \<Rightarrow>
   ((nat \<times> (facts_cursor \<times> slots) \<times> workspace) + ((int \<times> nat) \<times> workspace)) option" where
  "merge_body step src x =
     (case x of (n, c, w) \<Rightarrow>
        do { ((f, c, m), w) \<leftarrow> at_db src (cursor_step c) w;
             case f of
               None \<Rightarrow> do { (_, w) \<leftarrow> at_db src (cursor_stop c) w; Some (Inr ((0, n), w)) }
             | Some a \<Rightarrow>
                 (case fact_strings a w of
                    (Some s, Some p, Some ob) \<Rightarrow> do {
                      ((ok, k), w) \<leftarrow> step s p ob w;
                      if ok then Some (Inl (n + k, (c, m), w))
                      else do { (_, w) \<leftarrow> at_db src (cursor_stop c) w; Some (Inr ((- 1, n), w)) } }
                  | _ \<Rightarrow> None) })"

definition each_fact ::
  "facts_cursor action \<Rightarrow> (cstr \<Rightarrow> cstr \<Rightarrow> cstr \<Rightarrow> (bool \<times> nat) waction) \<Rightarrow> handle \<Rightarrow> (int \<times> nat) waction" where
  "each_fact first step src w =
     do { (c, w) \<leftarrow> at_db src first w;
          run_loop (merge_body step src) (0, (c, \<lambda>_. None), w) }"

definition merge_fact :: "handle \<Rightarrow> cstr \<Rightarrow> cstr \<Rightarrow> cstr \<Rightarrow> (bool \<times> nat) waction" where
  "merge_fact dest s p ob w =
     do { (a, w) \<leftarrow> at_db dest (facts_add_spo s p ob) w; Some ((a \<noteq> None, 1), w) }"

text \<open>The result and the count.\<close>

definition facts_merge_count :: "handle \<Rightarrow> handle \<Rightarrow> (int \<times> nat) waction" where
  "facts_merge_count dest src = each_fact (facts_with_0 None None None) (merge_fact dest) src"

definition merge_derived_fact :: "handle \<Rightarrow> cstr \<Rightarrow> cstr \<Rightarrow> cstr \<Rightarrow> (bool \<times> nat) waction" where
  "merge_derived_fact dest s p ob w =
     do { ((existed, prior), w) \<leftarrow> at_db dest (facts_get_support_spo s p ob) w;
          (a, w) \<leftarrow> at_db dest (facts_add_spo_origin s p ob FACT_ORIGIN_DERIVED) w;
          Some ((a \<noteq> None, if \<not> existed \<or> sup_derived prior = 0 then 1 else 0), w) }"

definition facts_merge_derived_count :: "handle \<Rightarrow> handle \<Rightarrow> (int \<times> nat) waction" where
  "facts_merge_derived_count dest src = each_fact (facts_with_0 None None None) (merge_derived_fact dest) src"

end
