(* ===== verification/Solve.thy ===== *)
theory Solve
  imports Workspace
begin

text \<open>
  The nested-loop solver of \<^verbatim>\<open>lib/lftj.c\<close> over several databases: every subgoal is matched against
  the database given for it, in the order of the subgoals, and the callback is called for every
  solution. The bindings are the slots the variables point to.
\<close>

text \<open>The callback changes its own data and the databases.\<close>

type_synonym 'u solver_state = "'u \<times> workspace"
type_synonym 'u callback = "slots \<Rightarrow> 'u solver_state \<Rightarrow> 'u solver_state option"

section \<open>One subgoal\<close>

text \<open>A variable that has a value stands for it.\<close>

definition term_value :: "binding list \<Rightarrow> slots \<Rightarrow> cstr option \<Rightarrow> cstr option" where
  "term_value bs m t =
     (case t of None \<Rightarrow> None
      | Some x \<Rightarrow>
          if is_var x then (case bindings_get bs x of None \<Rightarrow> Some x
                            | Some i \<Rightarrow> (case m i of None \<Rightarrow> Some x | Some v \<Rightarrow> Some v))
          else Some x)"

definition cursor_var :: "slot \<Rightarrow> cstr \<Rightarrow> slot option" where
  "cursor_var i x = (if is_var x then Some i else None)"

text \<open>A null term is passed on to the lookup of a symbol, which dereferences it.\<close>

definition open_cursor :: "cstr option \<Rightarrow> cstr option \<Rightarrow> cstr option \<Rightarrow> facts_cursor action" where
  "open_cursor s_val p_val o_val st =
     (case (s_val, p_val, o_val) of
        (Some s, Some p, Some ob) \<Rightarrow>
          (let var_s = cursor_var 0 s; var_p = cursor_var 1 p; var_o = cursor_var 2 ob in
           if var_s \<noteq> None \<or> var_p \<noteq> None \<or> var_o \<noteq> None
           then facts_with_1_2 s p ob var_s var_p var_o st
           else facts_with_3 s p ob st)
      | _ \<Rightarrow> None)"

text \<open>
  The variables of a subgoal take the values of a fact: whether they can, and the slots changed,
  with their old values. A sentinel has no string to compare with.
\<close>

fun bind_terms ::
  "binding list \<Rightarrow> (cstr option \<times> cstr option) list \<Rightarrow> slots \<Rightarrow> (slot \<times> cstr option) list \<Rightarrow>
   (bool \<times> slots \<times> (slot \<times> cstr option) list) option" where
  "bind_terms bs [] m changed = Some (True, m, changed)"
| "bind_terms bs ((t, v) # tvs) m changed =
     (if (case t of None \<Rightarrow> True | Some x \<Rightarrow> \<not> is_var x) then bind_terms bs tvs m changed
      else case bindings_get bs (the t) of
             None \<Rightarrow> Some (False, m, changed)
           | Some slot \<Rightarrow>
               (case m slot of
                  Some old \<Rightarrow> do { new \<leftarrow> v;
                                if strcmp old new \<noteq> 0 then Some (False, m, changed)
                                else bind_terms bs tvs m changed }
                | None \<Rightarrow>
                    bind_terms bs tvs (m(slot := v))
                      (if slot \<in> fst ` set changed then changed else changed @ [(slot, m slot)])))"

fun restore_changed :: "(slot \<times> cstr option) list \<Rightarrow> slots \<Rightarrow> slots" where
  "restore_changed [] m = m"
| "restore_changed ((slot, old) # cs) m = restore_changed cs (m(slot := old))"

text \<open>\<open>rest\<close> solves the subgoals after this one and gives the number of their solutions.\<close>

type_synonym 'u solver = "slots \<Rightarrow> 'u solver_state \<Rightarrow> (int \<times> slots \<times> 'u solver_state) option"

definition match_body ::
  "binding list \<Rightarrow> spec_fact \<Rightarrow> handle \<Rightarrow> 'u solver \<Rightarrow>
   int \<times> (facts_cursor \<times> slots) \<times> slots \<times> 'u solver_state \<Rightarrow>
   ((int \<times> (facts_cursor \<times> slots) \<times> slots \<times> 'u solver_state) + (int \<times> slots \<times> 'u solver_state)) option" where
  "match_body bs sub db rest x =
     (case x of (n, c, m, (u, w)) \<Rightarrow>
        do { ((f, c, lm), w) \<leftarrow> at_db db (cursor_step c) w;
             case f of
               None \<Rightarrow> do { (_, w) \<leftarrow> at_db db (cursor_stop c) w; Some (Inr (n, m, (u, w))) }
             | Some a \<Rightarrow>
                 (case fact_strings a w of (fs, fp, fo) \<Rightarrow>
                    do { (compatible, m, changed) \<leftarrow> bind_terms bs [(sf_s sub, fs), (sf_p sub, fp), (sf_o sub, fo)] m [];
                         (k, m, uw) \<leftarrow> (if compatible then rest m (u, w) else Some (0, m, (u, w)));
                         n \<leftarrow> int_add n k;
                         Some (Inl (n, (c, lm), restore_changed changed m, uw)) }) })"

definition solve_subgoal :: "binding list \<Rightarrow> spec_fact \<Rightarrow> handle \<Rightarrow> 'u solver \<Rightarrow> 'u solver" where
  "solve_subgoal bs sub db rest m uw =
     (case uw of (u, w) \<Rightarrow>
        do { (c, w) \<leftarrow> at_db db (open_cursor (term_value bs m (sf_s sub)) (term_value bs m (sf_p sub)) (term_value bs m (sf_o sub))) w;
             run_loop (match_body bs sub db rest) (0, (c, \<lambda>_. None), m, (u, w)) })"

section \<open>All subgoals\<close>

text \<open>A database that is the null pointer is the main one; reading past the array fails.\<close>

primrec naive_solve_rec ::
  "binding list \<Rightarrow> 'u callback option \<Rightarrow> spec_fact list \<Rightarrow> handle option list \<Rightarrow> 'u solver" where
  "naive_solve_rec bs cb [] = (\<lambda>dbs m uw.
     case cb of None \<Rightarrow> Some (1, m, uw) | Some call \<Rightarrow> do { uw \<leftarrow> call m uw; Some (1, m, uw) })"
| "naive_solve_rec bs cb (sub # subs) = (\<lambda>dbs m uw.
     case dbs of [] \<Rightarrow> None
     | d # ds \<Rightarrow> solve_subgoal bs sub (case d of None \<Rightarrow> Main | Some i \<Rightarrow> i) (naive_solve_rec bs cb subs ds) m uw)"

text \<open>The array of cells read as an array of \<open>n\<close> facts.\<close>

fun spec_array :: "spec \<Rightarrow> nat \<Rightarrow> nat \<Rightarrow> spec_fact list option" where
  "spec_array spec i 0 = Some []"
| "spec_array spec i (Suc n) = do { f \<leftarrow> get4 spec i; fs \<leftarrow> spec_array spec (Suc i) n; Some (f # fs) }"

definition facts_lftj_solve_multi ::
  "handle option list \<Rightarrow> spec \<Rightarrow> binding list \<Rightarrow> 'u callback option \<Rightarrow> 'u solver" where
  "facts_lftj_solve_multi dbs spec bs cb m uw =
     do { subgoal_count \<leftarrow> spec_count_facts spec;
          if subgoal_count = 0 then Some (0, m, uw)
          else do { subs \<leftarrow> spec_array spec 0 subgoal_count; naive_solve_rec bs cb subs dbs m uw } }"

end
