(* ===== verification/Eval.thy ===== *)
theory Eval
  imports Solve
begin

text \<open>
  The full evaluation of a program by \<^verbatim>\<open>lib/eval.c\<close>: stratum after stratum, first every rule once,
  then semi-naively until nothing new is found, with the old facts, the ones of the last round
  and the new ones in scratch databases. A result \<open>None\<close> stands for what has no result.
\<close>

section \<open>What is done with a solution\<close>

text \<open>The part of \<^verbatim>\<open>s_eval_cb_data\<close> that stays the same; \<^verbatim>\<open>main_facts\<close> is always the main database.\<close>

record eval_cb_data =
  target_db :: handle
  cb_rule :: datalog_rule
  old_db :: handle
  is_deletion :: bool
  skip_negated_check_idx :: int
  cb_rule_index :: nat

record eval_progress =
  derived_count :: nat
  evaluation_error :: bool

definition resolve_term :: "binding list \<Rightarrow> slots \<Rightarrow> cstr option \<Rightarrow> cstr option" where
  "resolve_term bs m t =
     (case t of None \<Rightarrow> None
      | Some x \<Rightarrow> if is_var x then (case bindings_get bs x of None \<Rightarrow> None | Some i \<Rightarrow> m i) else Some x)"

definition resolve_fact :: "binding list \<Rightarrow> slots \<Rightarrow> spec_fact \<Rightarrow> (cstr \<times> cstr \<times> cstr) option" where
  "resolve_fact bs m f =
     (case (resolve_term bs m (sf_s f), resolve_term bs m (sf_p f), resolve_term bs m (sf_o f)) of
        (Some s, Some p, Some ob) \<Rightarrow> Some (s, p, ob)
      | _ \<Rightarrow> None)"

text \<open>Whether all negated subgoals but one hold, from number \<open>i\<close> on.\<close>

fun check_negated :: "binding list \<Rightarrow> slots \<Rightarrow> int \<Rightarrow> nat \<Rightarrow> spec_fact list \<Rightarrow> bool waction" where
  "check_negated bs m skip i [] w = Some (True, w)"
| "check_negated bs m skip i (b # bd) w =
     (if sf_negated b \<noteq> None \<and> int i \<noteq> skip then
        (case resolve_fact bs m b of
           None \<Rightarrow> Some (False, w)
         | Some (s, p, ob) \<Rightarrow> do {
             (found, w) \<leftarrow> at_db Main (facts_contains_spo s p ob) w;
             if found then Some (False, w) else check_negated bs m skip (Suc i) bd w })
      else check_negated bs m skip (Suc i) bd w)"

fun support_array :: "binding list \<Rightarrow> slots \<Rightarrow> spec_fact list \<Rightarrow> support list option" where
  "support_array bs m [] = Some []"
| "support_array bs m (b # bd) =
     do { (s, p, ob) \<leftarrow> resolve_fact bs m b;
          rest \<leftarrow> support_array bs m bd;
          Some (\<lparr>js_s = s, js_p = p, js_o = ob, js_negated = (if sf_negated b \<noteq> None then 1 else 0)\<rparr> # rest) }"

text \<open>The justification goes into the staged graph, if there is one; the result is an error.\<close>

definition stage_justification ::
  "eval_cb_data \<Rightarrow> binding list \<Rightarrow> slots \<Rightarrow> cstr \<Rightarrow> cstr \<Rightarrow> cstr \<Rightarrow> bool waction" where
  "stage_justification d bs m s p ob w =
     (let st = w_main w; use = (\<lambda>h st. w\<lparr>w_main := st\<lparr>db_mem := h\<rparr>\<rparr>); bd = body (cb_rule d) in
      if is_deletion d then Some (False, w)
      else case db_staging st of
        None \<Rightarrow> Some (False, w)
      | Some g \<Rightarrow>
          (case (if bd \<noteq> [] then malloc (db_mem st) else (True, db_mem st)) of
             (False, h) \<Rightarrow> Some (True, use h st)
           | (True, h) \<Rightarrow>
               (case support_array bs m bd of
                  None \<Rightarrow> Some (True, use h st)
                | Some sups \<Rightarrow>
                    (case justification_graph_add g s p ob (cb_rule_index d) sups h of
                       (r, g, h) \<Rightarrow> Some (r < 0, use h (st\<lparr>db_staging := Some g\<rparr>))))))"

text \<open>Whether the fact is one that is not inserted.\<close>

definition known_fact :: "eval_cb_data \<Rightarrow> cstr \<Rightarrow> cstr \<Rightarrow> cstr \<Rightarrow> bool waction" where
  "known_fact d s p ob w =
     (if is_deletion d then at_db (target_db d) (facts_contains_spo s p ob) w
      else do {
        ((in_main, support), w) \<leftarrow> at_db Main (facts_get_support_spo s p ob) w;
        if in_main \<and> sup_derived support \<noteq> 0 then Some (True, w)
        else do {
          (found, w) \<leftarrow> at_db (old_db d) (facts_contains_spo s p ob) w;
          if found then Some (True, w) else at_db (target_db d) (facts_contains_spo s p ob) w } })"

definition eval_solution_cb :: "eval_cb_data \<Rightarrow> binding list \<Rightarrow> eval_progress callback" where
  "eval_solution_cb d bs m uw =
     (case uw of (u, w) \<Rightarrow>
        if evaluation_error u then Some (u, w)
        else do {
          (go, w) \<leftarrow> check_negated bs m (skip_negated_check_idx d) 0 (body (cb_rule d)) w;
          case (go, resolve_fact bs m (head (cb_rule d))) of
            (True, Some (s, p, ob)) \<Rightarrow> do {
              (bad, w) \<leftarrow> stage_justification d bs m s p ob w;
              if bad then Some (u\<lparr>evaluation_error := True\<rparr>, w)
              else do {
                (known, w) \<leftarrow> known_fact d s p ob w;
                if known then Some (u, w)
                else do {
                  (added, w) \<leftarrow> at_db (target_db d) (facts_add_spo s p ob) w;
                  Some (if added \<noteq> None then u\<lparr>derived_count := derived_count u + 1\<rparr>
                        else u\<lparr>evaluation_error := True\<rparr>, w) } } }
          | _ \<Rightarrow> Some (u, w) })"

section \<open>The query of a rule\<close>

text \<open>A null predicate is skipped; the result false is an allocation failure.\<close>

definition add_pred_to_list_eval :: "cstr list \<Rightarrow> cstr option \<Rightarrow> mem \<Rightarrow> bool \<times> cstr list \<times> mem" where
  "add_pred_to_list_eval list pred h =
     (case pred of None \<Rightarrow> (True, list, h)
      | Some p \<Rightarrow>
          if \<exists>x \<in> set list. strcmp x p = 0 then (True, list, h)
          else if length list = SIZE_MAX div 8 then (False, list, h)
          else (let (ok, h') = malloc h in (ok, if ok then list @ [p] else list, h')))"

text \<open>The subgoals of the query, with their numbers: the positive ones, and the trigger.\<close>

definition queried :: "datalog_rule \<Rightarrow> int \<Rightarrow> (nat \<times> spec_fact) list" where
  "queried rule trigger_idx =
     filter (\<lambda>(i, b). sf_negated b = None \<or> int i = trigger_idx) (enumerate 0 (body rule))"

definition query_cells :: "spec_fact \<Rightarrow> spec" where
  "query_cells b = [sf_s b, sf_p b, sf_o b, None]"

definition compile_rule_body_with_trigger :: "datalog_rule \<Rightarrow> int \<Rightarrow> mem \<Rightarrow> spec option \<times> mem" where
  "compile_rule_body_with_trigger rule trigger_idx h =
     (let subs = map snd (queried rule trigger_idx); pos_count = length subs in
      if pos_count = 0 then (None, h)
      else if pos_count > (SIZE_MAX - 2) div 4 \<or> pos_count * 4 + 2 > SIZE_MAX div 8 then (None, h)
      else (case malloc h of
              (False, h) \<Rightarrow> (None, h)
            | (True, h) \<Rightarrow> (Some (concat (map query_cells subs) @ [None, None]), h)))"

text \<open>The array of databases has the null pointer behind those that were chosen.\<close>

definition query_dbs :: "datalog_rule \<Rightarrow> int \<Rightarrow> (nat \<Rightarrow> handle) \<Rightarrow> handle option list" where
  "query_dbs rule trigger_idx pick =
     (let chosen = map (\<lambda>(i, b). Some (pick i)) (queried rule trigger_idx)
      in chosen @ replicate ((if body rule = [] then 1 else length (body rule)) - length chosen) None)"

definition prepare_rule_query :: "datalog_rule \<Rightarrow> int \<Rightarrow> mem \<Rightarrow> ((spec \<times> binding list) option \<times> mem) option" where
  "prepare_rule_query rule trigger_idx h =
     (case compile_rule_body_with_trigger rule trigger_idx h of
        (None, h) \<Rightarrow> Some (None, h)
      | (Some spec, h) \<Rightarrow> do {
          (bs, h) \<leftarrow> spec_bindings spec h;
          case bs of
            None \<Rightarrow> Some (None, h)
          | Some bs \<Rightarrow> (case malloc h of (ok, h) \<Rightarrow> Some (if ok then Some (spec, bs) else None, h)) })"

text \<open>
  One query of a rule, with the databases its subgoals read: whether it could be prepared, how
  many facts it derived, and the error flag.
\<close>

definition run_rule :: "eval_cb_data \<Rightarrow> int \<Rightarrow> (nat \<Rightarrow> handle) \<Rightarrow> bool \<Rightarrow> (bool \<times> nat \<times> bool) waction" where
  "run_rule d trigger_idx pick err w =
     do { (query, h) \<leftarrow> prepare_rule_query (cb_rule d) trigger_idx (db_mem (w_main w));
          let w = w\<lparr>w_main := (w_main w)\<lparr>db_mem := h\<rparr>\<rparr>;
          case query of
            None \<Rightarrow> Some ((False, 0, True), w)
          | Some (spec, bs) \<Rightarrow> do {
              (_, _, (u, w)) \<leftarrow> facts_lftj_solve_multi (query_dbs (cb_rule d) trigger_idx pick) spec bs
                (Some (eval_solution_cb d bs)) (\<lambda>_. None) (\<lparr>derived_count = 0, evaluation_error = err\<rparr>, w);
              Some ((True, derived_count u, evaluation_error u), w) } }"

section \<open>One stratum\<close>

definition stratum_rules :: "datalog_program \<Rightarrow> int list \<Rightarrow> int \<Rightarrow> (nat \<times> datalog_rule) list" where
  "stratum_rules prog rule_strata s = filter (\<lambda>(r, rule). rule_strata ! r = s) (enumerate 0 (rules prog))"

text \<open>The predicates defined in the stratum; after a failed allocation the loop goes on.\<close>

fun stratum_preds :: "(nat \<times> datalog_rule) list \<Rightarrow> cstr list \<Rightarrow> bool \<Rightarrow> mem \<Rightarrow> bool \<times> cstr list \<times> mem" where
  "stratum_preds [] preds err h = (err, preds, h)"
| "stratum_preds ((r, rule) # rs) preds err h =
     (if (case sf_p (head rule) of None \<Rightarrow> True | Some p \<Rightarrow> is_var p) then stratum_preds rs preds err h
      else case add_pred_to_list_eval preds (sf_p (head rule)) h of
             (ok, preds, h) \<Rightarrow> stratum_preds rs preds (err \<or> \<not> ok) h)"

definition in_preds :: "cstr list \<Rightarrow> cstr option \<Rightarrow> bool" where
  "in_preds preds p = (case p of None \<Rightarrow> False | Some q \<Rightarrow> \<exists>x \<in> set preds. strcmp x q = 0)"

record stratum_dbs =
  sd_old :: handle
  sd_delta :: handle
  sd_new :: handle
  sd_both :: handle

text \<open>Iteration 0: the subgoals of the stratum itself read the old facts, which are none.\<close>

fun seed_rules :: "cstr list \<Rightarrow> stratum_dbs \<Rightarrow> (nat \<times> datalog_rule) list \<Rightarrow> bool \<Rightarrow> bool waction" where
  "seed_rules preds dbs [] err w = Some (err, w)"
| "seed_rules preds dbs ((r, rule) # rs) err w =
     do { ((prepared, _, err), w) \<leftarrow>
            run_rule \<lparr>target_db = sd_delta dbs, cb_rule = rule, old_db = sd_old dbs, is_deletion = False,
                      skip_negated_check_idx = - 1, cb_rule_index = r\<rparr> (- 1)
              (\<lambda>j. if in_preds preds (sf_p (body rule ! j)) then sd_old dbs else Main) err w;
          if prepared then seed_rules preds dbs rs err w else Some (True, w) }"

definition recursive_subgoals :: "cstr list \<Rightarrow> datalog_rule \<Rightarrow> nat list" where
  "recursive_subgoals preds rule =
     filter (\<lambda>j. case sf_p (body rule ! j) of None \<Rightarrow> False | Some p \<Rightarrow> \<not> is_var p \<and> in_preds preds (Some p))
       [0..<length (body rule)]"

fun index_in :: "nat list \<Rightarrow> nat \<Rightarrow> nat option" where
  "index_in [] j = None"
| "index_in (x # xs) j = (if x = j then Some 0 else map_option Suc (index_in xs j))"

text \<open>Version \<open>v\<close> of a rule reads the last round's facts in its \<open>v\<close>-th recursive subgoal.\<close>

definition version_db :: "stratum_dbs \<Rightarrow> nat list \<Rightarrow> nat \<Rightarrow> nat \<Rightarrow> handle" where
  "version_db dbs recs v j =
     (case index_in recs j of
        None \<Rightarrow> Main
      | Some i \<Rightarrow> if i = v then sd_delta dbs else if i < v then sd_old dbs else sd_both dbs)"

text \<open>The versions of a rule, then the rules: what they derived, and the error flag.\<close>

fun run_versions ::
  "(nat \<Rightarrow> nat \<Rightarrow> handle) \<Rightarrow> eval_cb_data \<Rightarrow> nat list \<Rightarrow> nat \<Rightarrow> bool \<Rightarrow> (nat \<times> bool) waction" where
  "run_versions pick d [] n err w = Some ((n, err), w)"
| "run_versions pick d (v # vs) n err w =
     do { ((prepared, k, err), w) \<leftarrow> run_rule d (- 1) (pick v) err w;
          if prepared then run_versions pick d vs (n + k) err w else Some ((n, True), w) }"

text \<open>
  The subgoals that have a version of the rule each, the database that subgoal \<open>j\<close> of version
  \<open>v\<close> reads, and the data of the callback are what the loops over the rules differ in.
\<close>

fun version_rules ::
  "(datalog_rule \<Rightarrow> nat list) \<Rightarrow> (nat list \<Rightarrow> nat \<Rightarrow> nat \<Rightarrow> handle) \<Rightarrow> (nat \<Rightarrow> datalog_rule \<Rightarrow> eval_cb_data) \<Rightarrow>
   (nat \<times> datalog_rule) list \<Rightarrow> nat \<Rightarrow> bool \<Rightarrow> (nat \<times> bool) waction" where
  "version_rules sel pick mk [] n err w = Some ((n, err), w)"
| "version_rules sel pick mk ((r, rule) # rs) n err w =
     do { (ok, w) \<leftarrow> w_malloc w;
          if \<not> ok then Some ((n, True), w)
          else do {
            let js = sel rule;
            ((n, err), w) \<leftarrow> run_versions (pick js) (mk r rule) [0..<length js] n err w;
            version_rules sel pick mk rs n err w } }"

definition semi_naive_rules ::
  "cstr list \<Rightarrow> stratum_dbs \<Rightarrow> (nat \<times> datalog_rule) list \<Rightarrow> bool \<Rightarrow> (nat \<times> bool) waction" where
  "semi_naive_rules preds dbs rs err =
     version_rules (recursive_subgoals preds) (version_db dbs)
       (\<lambda>r rule. \<lparr>target_db = sd_new dbs, cb_rule = rule, old_db = sd_old dbs, is_deletion = False,
                  skip_negated_check_idx = - 1, cb_rule_index = r\<rparr>) rs 0 err"

text \<open>\<^verbatim>\<open>a != 0 || b != 0\<close>, where the second is not done after the first failed.\<close>

definition either_fails :: "(int \<times> 'a) waction \<Rightarrow> (int \<times> 'b) waction \<Rightarrow> bool waction" where
  "either_fails a b w =
     do { ((r, _), w) \<leftarrow> a w;
          if r \<noteq> 0 then Some (True, w) else do { ((r, _), w) \<leftarrow> b w; Some (r \<noteq> 0, w) } }"

definition reset_db :: "handle \<Rightarrow> (int \<times> unit) waction" where
  "reset_db i w = do { (r, w) \<leftarrow> at_db i facts_reset_local_db w; Some ((r, ()), w) }"

text \<open>A round; the state is the error flag, the number of facts derived and the databases.\<close>

definition round_body ::
  "cstr list \<Rightarrow> stratum_dbs \<Rightarrow> (nat \<times> datalog_rule) list \<Rightarrow> bool \<times> nat \<times> workspace \<Rightarrow>
   ((bool \<times> nat \<times> workspace) + ((bool \<times> nat) \<times> workspace)) option" where
  "round_body preds dbs rs x =
     (case x of (err, found_n, w) \<Rightarrow>
        do { (bad, w) \<leftarrow> either_fails (reset_db (sd_new dbs)) (reset_db (sd_both dbs)) w;
             if bad then Some (Inr ((True, found_n), w))
             else do {
             (bad, w) \<leftarrow> either_fails (facts_merge_count (sd_both dbs) (sd_old dbs))
                           (facts_merge_count (sd_both dbs) (sd_delta dbs)) w;
             if bad then Some (Inr ((True, found_n), w))
             else do {
             ((iter_derived, err), w) \<leftarrow> semi_naive_rules preds dbs rs err w;
             if err \<or> iter_derived = 0 then Some (Inr ((err, found_n), w))
             else do {
             (bad, w) \<leftarrow> either_fails (facts_merge_count (sd_old dbs) (sd_delta dbs)) (reset_db (sd_delta dbs)) w;
             if bad then Some (Inr ((True, found_n), w))
             else do {
             ((r, _), w) \<leftarrow> facts_merge_count (sd_delta dbs) (sd_new dbs) w;
             if r \<noteq> 0 then Some (Inr ((True, found_n), w))
             else do {
             ((r, merged), w) \<leftarrow> facts_merge_derived_count Main (sd_new dbs) w;
             Some (if r \<noteq> 0 then Inr ((True, found_n), w) else Inl (err, found_n + merged, w)) } } } } } })"

text \<open>
  What follows iteration 0: its facts become old facts and derived facts of the main database,
  and the rounds begin, also after a failure here, which ends the first of them.
\<close>

definition rounds ::
  "cstr list \<Rightarrow> stratum_dbs \<Rightarrow> (nat \<times> datalog_rule) list \<Rightarrow> nat \<Rightarrow> (bool \<times> nat) waction" where
  "rounds preds dbs rs found_n w =
     do { ((r, _), w) \<leftarrow> facts_merge_count (sd_old dbs) (sd_delta dbs) w;
          ((r, merged), w) \<leftarrow> (if r \<noteq> 0 then Some ((r, 0), w) else facts_merge_derived_count Main (sd_delta dbs) w);
          run_loop (round_body preds dbs rs) (r \<noteq> 0, found_n + merged, w) }"

definition eval_stratum ::
  "(fact_key \<Rightarrow> nat \<Rightarrow> u64) \<Rightarrow> (nat \<times> datalog_rule) list \<Rightarrow> nat \<Rightarrow> (bool \<times> nat) waction" where
  "eval_stratum wyhash rs found_n w =
     (case stratum_preds rs [] False (db_mem (w_main w)) of (err, preds, h) \<Rightarrow>
        let w = w\<lparr>w_main := (w_main w)\<lparr>db_mem := h\<rparr>\<rparr> in
        if err then Some ((True, found_n), w)
        else if preds = [] then Some ((False, found_n), w)
        else do {
          (is, w) \<leftarrow> new_scratches wyhash 4 w;
          case is of
            [Some old, Some delta, Some new, Some both] \<Rightarrow> do {
              let dbs = \<lparr>sd_old = old, sd_delta = delta, sd_new = new, sd_both = both\<rparr>;
              (err, w) \<leftarrow> seed_rules preds dbs rs False w;
              if err then do { (_, w) \<leftarrow> delete_scratches is w; Some ((True, found_n), w) }
              else do {
                (delta_size, w) \<leftarrow> at_db delta facts_count w;
                ((err, found_n), w) \<leftarrow> (if delta_size = 0 then Some ((False, found_n), w) else rounds preds dbs rs found_n w);
                (_, w) \<leftarrow> delete_scratches is w;
                Some ((err, found_n), w) } }
          | _ \<Rightarrow> do { (_, w) \<leftarrow> delete_scratches is w; Some ((True, found_n), w) } })"

section \<open>The program\<close>

fun eval_strata ::
  "(fact_key \<Rightarrow> nat \<Rightarrow> u64) \<Rightarrow> datalog_program \<Rightarrow> int list \<Rightarrow> int list \<Rightarrow> nat \<Rightarrow> (bool \<times> nat) waction" where
  "eval_strata wyhash prog rule_strata [] found_n w = Some ((False, found_n), w)"
| "eval_strata wyhash prog rule_strata (s # ss) found_n w =
     do { ((err, found_n), w) \<leftarrow> eval_stratum wyhash (stratum_rules prog rule_strata s) found_n w;
          if err then Some ((True, found_n), w) else eval_strata wyhash prog rule_strata ss found_n w }"

text \<open>The count is converted to an \<^verbatim>\<open>int\<close>.\<close>

definition eval_result :: "bool \<Rightarrow> nat \<Rightarrow> int" where
  "eval_result err found_n = (if err then - 1 else sint (word_of_nat found_n :: 32 word))"

definition facts_datalog_eval_locked ::
  "(fact_key \<Rightarrow> nat \<Rightarrow> u64) \<Rightarrow> datalog_program \<Rightarrow> int waction" where
  "facts_datalog_eval_locked wyhash prog w =
     (if rules prog = [] then Some (0, w)
      else case datalog_program_stratify prog (db_mem (w_main w)) of ((rule_strata, num_strata), h) \<Rightarrow>
        let w = w\<lparr>w_main := (w_main w)\<lparr>db_mem := h\<rparr>\<rparr> in
        case rule_strata of
          None \<Rightarrow> Some (- 1, w)
        | Some strata \<Rightarrow> do {
            ((err, found_n), w) \<leftarrow> eval_strata wyhash prog strata (map int [0..<nat num_strata]) 0 w;
            Some (eval_result err found_n, w) })"

definition in_workspace :: "'a waction \<Rightarrow> 'a action" where
  "in_workspace act st = do { (r, w) \<leftarrow> act \<lparr>w_main = st, w_dbs = []\<rparr>; Some (r, w_main w) }"

text \<open>The evaluation runs in the transaction of the caller, or in one of its own.\<close>

definition facts_datalog_eval ::
  "(fact_key \<Rightarrow> nat \<Rightarrow> u64) \<Rightarrow> callbacks \<Rightarrow> datalog_program option \<Rightarrow> int action" where
  "facts_datalog_eval wyhash cb prog st =
     (case prog of None \<Rightarrow> Some (- 1, st)
      | Some prog \<Rightarrow>
          (let started_transaction = (\<not> transaction_writer_owned (db_tx st)) in
           do { (b, st) \<leftarrow> (if started_transaction then facts_transaction_begin st else Some (0, st));
                if b \<noteq> 0 then Some (- 1, st)
                else do {
                  let old_disable = db_disable_listener st;
                  (result, st) \<leftarrow> in_workspace (facts_datalog_eval_locked wyhash prog) (st\<lparr>db_disable_listener := True\<rparr>);
                  let st = st\<lparr>db_disable_listener := old_disable\<rparr>;
                  if \<not> started_transaction then Some (result, st)
                  else if result < 0 then do {
                    (r, st) \<leftarrow> facts_transaction_rollback st;
                    Some (if r \<noteq> 0 then - 1 else result, st) }
                  else do {
                    (r, st) \<leftarrow> transaction_commit_silent cb st;
                    Some (if r \<noteq> 0 then - 1 else result, st) } } }))"

end
