(* ===== verification/Eval_Inc.thy ===== *)
theory Eval_Inc
  imports Eval
begin

text \<open>
  The incremental evaluation of \<^verbatim>\<open>lib/eval.c\<close> from the entries of a transaction, the invalidation
  of justifications, and the listener that keeps the derived facts of an attached program.
\<close>

section \<open>The changes of a transaction\<close>

text \<open>The added facts and the removed ones; the result is an error.\<close>

fun delta_entries :: "handle \<Rightarrow> handle \<Rightarrow> rollback_entry list \<Rightarrow> bool waction" where
  "delta_entries added_db removed_db [] w = Some (False, w)"
| "delta_entries added_db removed_db (e # es) w =
     (if re_action e = ROLLBACK_STATE then delta_entries added_db removed_db es w
      else do {
        s \<leftarrow> symbol_to_str (f_s (re_fact e)); p \<leftarrow> symbol_to_str (f_p (re_fact e)); ob \<leftarrow> symbol_to_str (f_o (re_fact e));
        (a, w) \<leftarrow> at_db (if re_action e = ROLLBACK_REMOVE then added_db else removed_db) (facts_add_spo s p ob) w;
        if a = None then Some (True, w) else delta_entries added_db removed_db es w })"

section \<open>What both phases do\<close>

text \<open>
  A query for every negated subgoal, which reads the changed facts in \<open>changed\<close>. After a query
  that could not be prepared the other subgoals of the rule are left out.
\<close>

fun trigger_subgoals ::
  "handle \<Rightarrow> (int \<Rightarrow> eval_cb_data) \<Rightarrow> nat list \<Rightarrow> bool \<Rightarrow> bool waction" where
  "trigger_subgoals changed mk [] err w = Some (err, w)"
| "trigger_subgoals changed mk (j # js) err w =
     do { ((prepared, _, err), w) \<leftarrow> run_rule (mk (int j)) (int j) (\<lambda>k. if k = j then changed else Main) err w;
          if prepared then trigger_subgoals changed mk js err w else Some (True, w) }"

definition negated_subgoals :: "datalog_rule \<Rightarrow> nat list" where
  "negated_subgoals rule = filter (\<lambda>j. sf_negated (body rule ! j) \<noteq> None) [0..<length (body rule)]"

definition positive_subgoals :: "datalog_rule \<Rightarrow> nat list" where
  "positive_subgoals rule = filter (\<lambda>j. sf_negated (body rule ! j) = None) [0..<length (body rule)]"

fun trigger_rules ::
  "handle \<Rightarrow> (int \<Rightarrow> nat \<Rightarrow> datalog_rule \<Rightarrow> eval_cb_data) \<Rightarrow> (nat \<times> datalog_rule) list \<Rightarrow> bool \<Rightarrow> bool waction" where
  "trigger_rules changed mk [] err w = Some (err, w)"
| "trigger_rules changed mk ((r, rule) # rs) err w =
     do { (err, w) \<leftarrow> trigger_subgoals changed (\<lambda>skip. mk skip r rule) (negated_subgoals rule) err w;
          trigger_rules changed mk rs err w }"

text \<open>Every positive subgoal has a version, in which it reads the facts of the last round.\<close>

definition delta_version :: "handle \<Rightarrow> nat list \<Rightarrow> nat \<Rightarrow> nat \<Rightarrow> handle" where
  "delta_version delta js v j = (if index_in js j = Some v then delta else Main)"

definition whole_db :: "facts_cursor action" where
  "whole_db st = Some (facts_cursor_init 0 None None st)"

section \<open>Phase 1: deletions\<close>

definition drop_derived :: "cstr \<Rightarrow> cstr \<Rightarrow> cstr \<Rightarrow> (bool \<times> nat) waction" where
  "drop_derived s p ob w =
     do { (_, w) \<leftarrow> at_db Main (facts_remove_spo_origin s p ob FACT_ORIGIN_DERIVED) w; Some ((True, 0), w) }"

definition deletion_data :: "handle \<Rightarrow> int \<Rightarrow> nat \<Rightarrow> datalog_rule \<Rightarrow> eval_cb_data" where
  "deletion_data new skip r rule =
     \<lparr>target_db = new, cb_rule = rule, old_db = new, is_deletion = True, skip_negated_check_idx = skip, cb_rule_index = r\<rparr>"

text \<open>What the triggers found is removed, and joins the facts of the first round.\<close>

definition deletion_triggers ::
  "handle \<Rightarrow> handle \<Rightarrow> handle \<Rightarrow> (nat \<times> datalog_rule) list \<Rightarrow> bool waction" where
  "deletion_triggers added_db delta new rs w =
     do { (err, w) \<leftarrow> trigger_rules added_db (deletion_data new) rs False w;
          (n, w) \<leftarrow> at_db new facts_count w;
          if n > 0 then do {
            (_, w) \<leftarrow> each_fact whole_db drop_derived new w;
            ((r1, _), w) \<leftarrow> facts_merge_count delta new w;
            ((r2, _), w) \<leftarrow> reset_db new w;
            Some (err \<or> r1 \<noteq> 0 \<or> r2 \<noteq> 0, w) }
          else Some (err, w) }"

definition deletion_body ::
  "handle \<Rightarrow> handle \<Rightarrow> handle \<Rightarrow> (nat \<times> datalog_rule) list \<Rightarrow> bool \<times> workspace \<Rightarrow>
   ((bool \<times> workspace) + (bool \<times> workspace)) option" where
  "deletion_body removed_db delta new rs x =
     (case x of (err, w) \<Rightarrow>
        do { ((r, _), w) \<leftarrow> reset_db new w;
             if r \<noteq> 0 then Some (Inr (True, w))
             else do {
               ((iter_derived, err), w) \<leftarrow> version_rules positive_subgoals (delta_version delta) (deletion_data new (- 1)) rs 0 err w;
               if err \<or> iter_derived = 0 then Some (Inr (err, w))
               else do {
                 (_, w) \<leftarrow> each_fact whole_db drop_derived new w;
                 ((r, _), w) \<leftarrow> reset_db delta w;
                 if r \<noteq> 0 then Some (Inr (True, w))
                 else do {
                   (bad, w) \<leftarrow> either_fails (facts_merge_count delta new) (facts_merge_count removed_db new) w;
                   Some (if bad then Inr (True, w) else Inl (err, w)) } } } })"

definition deletion_stratum ::
  "(fact_key \<Rightarrow> nat \<Rightarrow> u64) \<Rightarrow> handle \<Rightarrow> handle \<Rightarrow> (nat \<times> datalog_rule) list \<Rightarrow> bool waction" where
  "deletion_stratum wyhash added_db removed_db rs w =
     do { (is, w) \<leftarrow> new_scratches wyhash 2 w;
          (err, w) \<leftarrow> (case is of
            [Some delta, Some new] \<Rightarrow> do {
              ((r, _), w) \<leftarrow> facts_merge_count delta removed_db w;
              if r \<noteq> 0 then Some (True, w)
              else do {
                (err, w) \<leftarrow> deletion_triggers added_db delta new rs w;
                if err then Some (True, w)
                else do {
                  (n, w) \<leftarrow> at_db delta facts_count w;
                  if n = 0 then Some (False, w) else run_loop (deletion_body removed_db delta new rs) (False, w) } } }
          | _ \<Rightarrow> Some (True, w));
          (_, w) \<leftarrow> delete_scratches is w;
          Some (err, w) }"

fun deletion_strata ::
  "(fact_key \<Rightarrow> nat \<Rightarrow> u64) \<Rightarrow> handle \<Rightarrow> handle \<Rightarrow> (nat \<times> datalog_rule) list list \<Rightarrow> bool waction" where
  "deletion_strata wyhash added_db removed_db [] w = Some (False, w)"
| "deletion_strata wyhash added_db removed_db (rs # rss) w =
     do { (err, w) \<leftarrow> deletion_stratum wyhash added_db removed_db rs w;
          if err then Some (True, w) else deletion_strata wyhash added_db removed_db rss w }"

section \<open>Phase 2: insertions\<close>

definition insertion_data :: "handle \<Rightarrow> handle \<Rightarrow> int \<Rightarrow> nat \<Rightarrow> datalog_rule \<Rightarrow> eval_cb_data" where
  "insertion_data new old skip r rule =
     \<lparr>target_db = new, cb_rule = rule, old_db = old, is_deletion = False, skip_negated_check_idx = skip, cb_rule_index = r\<rparr>"

definition add_derived :: "cstr \<Rightarrow> cstr \<Rightarrow> cstr \<Rightarrow> (bool \<times> nat) waction" where
  "add_derived s p ob w =
     do { (a, w) \<leftarrow> at_db Main (facts_add_spo_origin s p ob FACT_ORIGIN_DERIVED) w; Some ((a \<noteq> None, 0), w) }"

definition insertion_triggers ::
  "handle \<Rightarrow> handle \<Rightarrow> stratum_dbs \<Rightarrow> (nat \<times> datalog_rule) list \<Rightarrow> bool waction" where
  "insertion_triggers added_db removed_db dbs rs w =
     do { (err, w) \<leftarrow> trigger_rules removed_db (insertion_data (sd_new dbs) (sd_new dbs)) rs False w;
          (n, w) \<leftarrow> at_db (sd_new dbs) facts_count w;
          if n > 0 then do {
            ((r1, _), w) \<leftarrow> each_fact whole_db add_derived (sd_new dbs) w;
            (bad, w) \<leftarrow> either_fails (facts_merge_count (sd_delta dbs) (sd_new dbs)) (facts_merge_count added_db (sd_new dbs)) w;
            ((r2, _), w) \<leftarrow> reset_db (sd_new dbs) w;
            Some (err \<or> r1 \<noteq> 0 \<or> bad \<or> r2 \<noteq> 0, w) }
          else Some (err, w) }"

definition insertion_body ::
  "handle \<Rightarrow> stratum_dbs \<Rightarrow> (nat \<times> datalog_rule) list \<Rightarrow> bool \<times> nat \<times> workspace \<Rightarrow>
   ((bool \<times> nat \<times> workspace) + ((bool \<times> nat) \<times> workspace)) option" where
  "insertion_body added_db dbs rs x =
     (case x of (err, found_n, w) \<Rightarrow>
        do { (bad, w) \<leftarrow> either_fails (reset_db (sd_new dbs)) (reset_db (sd_both dbs)) w;
             if bad then Some (Inr ((True, found_n), w))
             else do {
             (bad, w) \<leftarrow> either_fails (facts_merge_count (sd_both dbs) (sd_old dbs))
                           (facts_merge_count (sd_both dbs) (sd_delta dbs)) w;
             if bad then Some (Inr ((True, found_n), w))
             else do {
             ((iter_derived, err), w) \<leftarrow> version_rules positive_subgoals (delta_version (sd_delta dbs))
                                       (insertion_data (sd_new dbs) (sd_old dbs) (- 1)) rs 0 err w;
             if err \<or> iter_derived = 0 then Some (Inr ((err, found_n), w))
             else do {
             (bad, w) \<leftarrow> either_fails (facts_merge_count (sd_old dbs) (sd_delta dbs)) (reset_db (sd_delta dbs)) w;
             if bad then Some (Inr ((True, found_n), w))
             else do {
             (bad, w) \<leftarrow> either_fails (facts_merge_count (sd_delta dbs) (sd_new dbs)) (facts_merge_count added_db (sd_new dbs)) w;
             if bad then Some (Inr ((True, found_n), w))
             else do {
             ((r, merged), w) \<leftarrow> facts_merge_derived_count Main (sd_new dbs) w;
             Some (if r \<noteq> 0 then Inr ((True, found_n), w) else Inl (err, found_n + merged, w)) } } } } } })"

definition insertion_rounds ::
  "handle \<Rightarrow> handle \<Rightarrow> stratum_dbs \<Rightarrow> (nat \<times> datalog_rule) list \<Rightarrow> nat \<Rightarrow> (bool \<times> nat) waction" where
  "insertion_rounds added_db removed_db dbs rs found_n w =
     do { ((r, _), w) \<leftarrow> facts_merge_count (sd_delta dbs) added_db w;
          if r \<noteq> 0 then Some ((True, found_n), w)
          else do {
            (err, w) \<leftarrow> insertion_triggers added_db removed_db dbs rs w;
            if err then Some ((True, found_n), w)
            else do {
              (n, w) \<leftarrow> at_db (sd_delta dbs) facts_count w;
              if n = 0 then Some ((False, found_n), w)
              else do {
                ((r, _), w) \<leftarrow> facts_merge_count (sd_old dbs) (sd_delta dbs) w;
                if r \<noteq> 0 then Some ((True, found_n), w)
                else run_loop (insertion_body added_db dbs rs) (False, found_n, w) } } } }"

definition insertion_stratum ::
  "(fact_key \<Rightarrow> nat \<Rightarrow> u64) \<Rightarrow> handle \<Rightarrow> handle \<Rightarrow> (nat \<times> datalog_rule) list \<Rightarrow> nat \<Rightarrow> (bool \<times> nat) waction" where
  "insertion_stratum wyhash added_db removed_db rs found_n w =
     (case stratum_preds rs [] False (db_mem (w_main w)) of (err, preds, h) \<Rightarrow>
        let w = w\<lparr>w_main := (w_main w)\<lparr>db_mem := h\<rparr>\<rparr> in
        if err then Some ((True, found_n), w)
        else do {
          (is, w) \<leftarrow> new_scratches wyhash 4 w;
          (r, w) \<leftarrow> (case is of
            [Some old, Some delta, Some new, Some both] \<Rightarrow>
              insertion_rounds added_db removed_db \<lparr>sd_old = old, sd_delta = delta, sd_new = new, sd_both = both\<rparr> rs found_n w
          | _ \<Rightarrow> Some ((True, found_n), w));
          (_, w) \<leftarrow> delete_scratches is w;
          Some (r, w) })"

fun insertion_strata ::
  "(fact_key \<Rightarrow> nat \<Rightarrow> u64) \<Rightarrow> handle \<Rightarrow> handle \<Rightarrow> (nat \<times> datalog_rule) list list \<Rightarrow> nat \<Rightarrow> (bool \<times> nat) waction" where
  "insertion_strata wyhash added_db removed_db [] found_n w = Some ((False, found_n), w)"
| "insertion_strata wyhash added_db removed_db (rs # rss) found_n w =
     do { ((err, found_n), w) \<leftarrow> insertion_stratum wyhash added_db removed_db rs found_n w;
          if err then Some ((True, found_n), w) else insertion_strata wyhash added_db removed_db rss found_n w }"

section \<open>The incremental evaluation\<close>

definition incremental_strata ::
  "(fact_key \<Rightarrow> nat \<Rightarrow> u64) \<Rightarrow> handle \<Rightarrow> handle \<Rightarrow> (nat \<times> datalog_rule) list list \<Rightarrow> rollback_entry list \<Rightarrow> (bool \<times> nat) waction" where
  "incremental_strata wyhash added_db removed_db rss delta w =
     do { (err, w) \<leftarrow> delta_entries added_db removed_db delta w;
          (err, w) \<leftarrow> (if err then Some (True, w) else deletion_strata wyhash added_db removed_db rss w);
          if err then Some ((True, 0), w) else insertion_strata wyhash added_db removed_db rss 0 w }"

definition eval_incremental ::
  "(fact_key \<Rightarrow> nat \<Rightarrow> u64) \<Rightarrow> datalog_program \<Rightarrow> rollback_entry list \<Rightarrow> int waction" where
  "eval_incremental wyhash prog delta w =
     (case datalog_program_stratify prog (db_mem (w_main w)) of ((rule_strata, num_strata), h) \<Rightarrow>
        let w = w\<lparr>w_main := (w_main w)\<lparr>db_mem := h\<rparr>\<rparr> in
        case rule_strata of
          None \<Rightarrow> Some (- 1, w)
        | Some strata \<Rightarrow> do {
            (is, w) \<leftarrow> new_scratches wyhash 2 w;
            ((err, found_n), w) \<leftarrow> (case is of
              [Some added_db, Some removed_db] \<Rightarrow>
                incremental_strata wyhash added_db removed_db (map (\<lambda>s. stratum_rules prog strata (int s)) [0..<nat num_strata]) delta w
            | _ \<Rightarrow> Some ((True, 0), w));
            (_, w) \<leftarrow> delete_scratches is w;
            Some (eval_result err found_n, w) })"

definition facts_datalog_eval_incremental ::
  "(fact_key \<Rightarrow> nat \<Rightarrow> u64) \<Rightarrow> datalog_program option \<Rightarrow> rollback_entry list \<Rightarrow> int action" where
  "facts_datalog_eval_incremental wyhash prog delta st =
     (case prog of None \<Rightarrow> Some (0, st)
      | Some prog \<Rightarrow>
          if delta = [] \<or> rules prog = [] then Some (0, st)
          else in_workspace (eval_incremental wyhash prog delta) st)"

section \<open>Invalidating justifications\<close>

record invalidation_event =
  ie_s :: cstr
  ie_p :: cstr
  ie_o :: cstr
  ie_negated :: int

text \<open>The result false is the result \<^verbatim>\<open>-1\<close>. \<^verbatim>\<open>sizeof(s_invalidation_event)\<close> is 32.\<close>

definition invalidation_event_append ::
  "invalidation_event list \<Rightarrow> cstr \<Rightarrow> cstr \<Rightarrow> cstr \<Rightarrow> int \<Rightarrow> mem \<Rightarrow> bool \<times> invalidation_event list \<times> mem" where
  "invalidation_event_append events s p ob negated h =
     (if \<exists>e \<in> set events. ie_negated e = negated \<and> strcmp (ie_s e) s = 0 \<and> strcmp (ie_p e) p = 0 \<and> strcmp (ie_o e) ob = 0
      then (True, events, h)
      else if length events = SIZE_MAX div 32 then (False, events, h)
      else (case malloc h of
              (False, h) \<Rightarrow> (False, events, h)
            | (True, h) \<Rightarrow>
                (case strdups 3 h of
                   (ok, h) \<Rightarrow>
                     (ok, if ok then events @ [\<lparr>ie_s = s, ie_p = p, ie_o = ob, ie_negated = negated\<rparr>] else events, h))))"

text \<open>The events of the entries, and whether one of them removed a fact.\<close>

fun entry_events :: "rollback_entry list \<Rightarrow> invalidation_event list \<Rightarrow> bool \<Rightarrow> (bool \<times> invalidation_event list \<times> bool) action" where
  "entry_events [] events scan st = Some ((True, events, scan), st)"
| "entry_events (e # es) events scan st =
     (if re_action e = ROLLBACK_STATE then entry_events es events scan st
      else do {
        s \<leftarrow> symbol_to_str (f_s (re_fact e)); p \<leftarrow> symbol_to_str (f_p (re_fact e)); ob \<leftarrow> symbol_to_str (f_o (re_fact e));
        let scan = (scan \<or> re_action e = ROLLBACK_ADD);
        let (ok, events, h) = invalidation_event_append events s p ob (if re_action e = ROLLBACK_ADD then 0 else 1) (db_mem st);
        let st = st\<lparr>db_mem := h\<rparr>;
        if ok then entry_events es events scan st else Some ((False, events, scan), st) })"

text \<open>
  The conclusions that lost a proof: one without a proof left loses its derived support, and if
  it disappears it is an event itself.
\<close>

fun retract_conclusions :: "support list \<Rightarrow> invalidation_event list \<Rightarrow> (bool \<times> invalidation_event list) action" where
  "retract_conclusions [] events st = Some ((True, events), st)"
| "retract_conclusions (c # cs) events st =
     (if justification_graph_count (db_staging st) (js_s c) (js_p c) (js_o c) \<noteq> 0 then retract_conclusions cs events st
      else do {
        ((found, support), st) \<leftarrow> facts_get_support_spo (js_s c) (js_p c) (js_o c) st;
        if found \<and> sup_derived support \<noteq> 0 then do {
          (r, st) \<leftarrow> facts_remove_spo_origin (js_s c) (js_p c) (js_o c) FACT_ORIGIN_DERIVED st;
          if r < 0 then Some ((False, events), st)
          else if sup_asserted support = 0 then
            (case invalidation_event_append events (js_s c) (js_p c) (js_o c) 0 (db_mem st) of
               (ok, events, h) \<Rightarrow>
                 if ok then retract_conclusions cs events (st\<lparr>db_mem := h\<rparr>)
                 else Some ((False, events), st\<lparr>db_mem := h\<rparr>))
          else retract_conclusions cs events st }
        else retract_conclusions cs events st })"

text \<open>The loop over the events, which grow while it runs.\<close>

definition events_body ::
  "nat \<times> invalidation_event list \<times> bool \<times> facts \<Rightarrow>
   ((nat \<times> invalidation_event list \<times> bool \<times> facts) + ((int \<times> bool) \<times> facts)) option" where
  "events_body x =
     (case x of (cursor, events, scan, st) \<Rightarrow>
        if cursor < length events then
          (let e = events ! cursor in
           case db_staging st of
             None \<Rightarrow> Some (Inr ((- 1, scan), st))
           | Some g \<Rightarrow>
               (case justification_graph_remove_support g (ie_s e) (ie_p e) (ie_o e) (ie_negated e) (db_mem st) of
                  (removed, conclusions, g, h) \<Rightarrow>
                    (let st = st\<lparr>db_staging := Some g, db_mem := h\<rparr> in
                     if removed < 0 then Some (Inr ((- 1, scan), st))
                     else do {
                       let scan = (scan \<or> (ie_negated e \<noteq> 0 \<and> removed > 0));
                       ((ok, events), st) \<leftarrow> retract_conclusions conclusions events st;
                       Some (if ok then Inl (Suc cursor, events, scan, st) else Inr ((- 1, scan), st)) })))
        else Some (Inr ((0, scan), st)))"

text \<open>The result, and \<^verbatim>\<open>*requires_closure_scan\<close>.\<close>

definition facts_invalidate_justifications :: "rollback_entry list \<Rightarrow> (int \<times> bool) action" where
  "facts_invalidate_justifications es st =
     do { ((ok, events, scan), st) \<leftarrow> entry_events es [] False st;
          if ok then run_loop events_body (0, events, scan, st) else Some ((- 1, scan), st) }"

section \<open>The listener\<close>

definition reactive_tx_listener :: "(fact_key \<Rightarrow> nat \<Rightarrow> u64) \<Rightarrow> callbacks \<Rightarrow> rollback_entry list \<Rightarrow> int action" where
  "reactive_tx_listener wyhash cb es st =
     (if db_disable_listener st \<or> db_prog st = None then Some (0, st)
      else do {
        (staged, st) \<leftarrow> facts_justifications_stage True (st\<lparr>db_disable_listener := True\<rparr>);
        if staged \<noteq> 0 then Some (- 1, st\<lparr>db_disable_listener := False\<rparr>)
        else do {
          ((result, scan), st) \<leftarrow> facts_invalidate_justifications es st;
          (result, st) \<leftarrow> (if result \<noteq> 0 then Some (result, st)
                          else if scan then facts_datalog_eval wyhash cb (db_prog st) st
                          else facts_datalog_eval_incremental wyhash (db_prog st) es st);
          let st = st\<lparr>db_disable_listener := False\<rparr>;
          Some (if result < 0 then (- 1, facts_justifications_discard st) else (0, st)) } })"

definition rete_tx_listener :: "(fact_key \<Rightarrow> nat \<Rightarrow> u64) \<Rightarrow> callbacks \<Rightarrow> rollback_entry list \<Rightarrow> int action" where
  "rete_tx_listener wyhash cb es = reactive_tx_listener wyhash cb es"

end
