(* ===== verification/Lftj.thy ===== *)
theory Lftj
  imports Solve
begin

text \<open>
  The leapfrog triejoin of \<^verbatim>\<open>lib/lftj.c\<close>: iterators over the three levels of a trie, the search
  for a common key, and the solver that binds one variable after the other.

  A null \<^verbatim>\<open>Symbol\<close> is \<open>P_FIRST\<close>. What the iterator of the radix tree is positioned on is the first
  entry of a list; the empty list is \<^verbatim>\<open>raxEOF\<close>.
\<close>

section \<open>Iterators\<close>

record lftj_iterator =
  li_symbols :: trie
  li_it :: "(byte list \<times> addr) list"
  li_depth :: nat
  li_col1 :: nat
  li_col2 :: nat
  li_col3 :: nat
  li_val1 :: symbol
  li_val2 :: symbol
  li_val3 :: symbol

type_synonym fact_heap = "addr \<Rightarrow> fact"

definition fact_get_col :: "fact \<Rightarrow> nat \<Rightarrow> symbol" where
  "fact_get_col f col = (if col = 0 then f_s f else if col = 1 then f_p f else f_o f)"

text \<open>The values are left as they are in memory.\<close>

definition init_lftj_iterator :: "trie \<Rightarrow> nat \<times> nat \<times> nat \<Rightarrow> lftj_iterator \<Rightarrow> lftj_iterator" where
  "init_lftj_iterator tr cols it =
     (case cols of (col1, col2, col3) \<Rightarrow>
        it\<lparr>li_symbols := tr, li_it := [], li_depth := 0, li_col1 := col1, li_col2 := col2, li_col3 := col3\<rparr>)"

definition new_lftj_iterator ::
  "lftj_iterator \<Rightarrow> trie \<Rightarrow> nat \<times> nat \<times> nat \<Rightarrow> mem \<Rightarrow> lftj_iterator option \<times> mem" where
  "new_lftj_iterator mem0 tr cols h =
     (let (ok, h') = malloc h in (if ok then Some (init_lftj_iterator tr cols mem0) else None, h'))"

definition iterator_key :: "lftj_iterator \<Rightarrow> symbol" where
  "iterator_key it =
     (if li_it it = [] then P_FIRST
      else if li_depth it = 1 then li_val1 it
      else if li_depth it = 2 then li_val2 it
      else if li_depth it = 3 then li_val3 it
      else P_FIRST)"

text \<open>The zero bytes of a key whose last columns are not given, and the fact at the iterator.\<close>

definition query_key :: "symbol list \<Rightarrow> byte list" where
  "query_key ys = concat (map (\<lambda>y. encode_uint64_be (get_symbol_id y)) ys) @ replicate (24 - 8 * length ys) 0"

definition seek_ge :: "symbol list \<Rightarrow> lftj_iterator \<Rightarrow> lftj_iterator" where
  "seek_ge ys it = it\<lparr>li_it := raxSeekGe (li_symbols it) (query_key ys)\<rparr>"

definition fact_at :: "fact_heap \<Rightarrow> lftj_iterator \<Rightarrow> fact option" where
  "fact_at hp it = (case li_it it of [] \<Rightarrow> None | (k, a) # _ \<Rightarrow> Some (hp a))"

definition in_level1 :: "fact \<Rightarrow> lftj_iterator \<Rightarrow> bool" where
  "in_level1 f it \<longleftrightarrow> fact_get_col f (li_col1 it) = li_val1 it"

definition in_level2 :: "fact \<Rightarrow> lftj_iterator \<Rightarrow> bool" where
  "in_level2 f it \<longleftrightarrow> in_level1 f it \<and> fact_get_col f (li_col2 it) = li_val2 it"

definition iterator_open :: "fact_heap \<Rightarrow> lftj_iterator \<Rightarrow> int \<times> lftj_iterator" where
  "iterator_open hp it =
     (if li_depth it = 0 then
        (let it = it\<lparr>li_it := raxSeekFirst (li_symbols it)\<rparr> in
         case fact_at hp it of None \<Rightarrow> (- 1, it)
         | Some f \<Rightarrow> (0, it\<lparr>li_val1 := fact_get_col f (li_col1 it), li_depth := 1\<rparr>))
      else if li_depth it = 1 then
        (let it = seek_ge [li_val1 it] it in
         case fact_at hp it of None \<Rightarrow> (- 1, it)
         | Some f \<Rightarrow> if \<not> in_level1 f it then (- 1, it) else (0, it\<lparr>li_val2 := fact_get_col f (li_col2 it), li_depth := 2\<rparr>))
      else if li_depth it = 2 then
        (let it = seek_ge [li_val1 it, li_val2 it] it in
         case fact_at hp it of None \<Rightarrow> (- 1, it)
         | Some f \<Rightarrow> if \<not> in_level2 f it then (- 1, it) else (0, it\<lparr>li_val3 := fact_get_col f (li_col3 it), li_depth := 3\<rparr>))
      else (- 1, it))"

definition iterator_up :: "lftj_iterator \<Rightarrow> int \<times> lftj_iterator" where
  "iterator_up it = (if li_depth it > 0 then (0, it\<lparr>li_depth := li_depth it - 1\<rparr>) else (- 1, it))"

definition iterator_seek :: "fact_heap \<Rightarrow> lftj_iterator \<Rightarrow> symbol \<Rightarrow> int \<times> lftj_iterator" where
  "iterator_seek hp it key =
     (if li_depth it = 1 then
        (let it = seek_ge [key] it in
         case fact_at hp it of None \<Rightarrow> (- 1, it)
         | Some f \<Rightarrow> (0, it\<lparr>li_val1 := fact_get_col f (li_col1 it)\<rparr>))
      else if li_depth it = 2 then
        (let it = seek_ge [li_val1 it, key] it in
         case fact_at hp it of None \<Rightarrow> (- 1, it)
         | Some f \<Rightarrow> if \<not> in_level1 f it then (- 1, it) else (0, it\<lparr>li_val2 := fact_get_col f (li_col2 it)\<rparr>))
      else if li_depth it = 3 then
        (let it = seek_ge [li_val1 it, li_val2 it, key] it in
         case fact_at hp it of None \<Rightarrow> (- 1, it)
         | Some f \<Rightarrow> if \<not> in_level2 f it then (- 1, it) else (0, it\<lparr>li_val3 := fact_get_col f (li_col3 it)\<rparr>))
      else (- 1, it))"

text \<open>The loops of \<^verbatim>\<open>iterator_next\<close>, over the entries that are left.\<close>

fun next_level1 :: "fact_heap \<Rightarrow> lftj_iterator \<Rightarrow> (byte list \<times> addr) list \<Rightarrow> int \<times> lftj_iterator" where
  "next_level1 hp it [] = (- 1, it\<lparr>li_it := []\<rparr>)"
| "next_level1 hp it ((k, a) # es) =
     (if \<not> in_level1 (hp a) it then (0, it\<lparr>li_it := (k, a) # es, li_val1 := fact_get_col (hp a) (li_col1 it)\<rparr>)
      else next_level1 hp it es)"

fun next_level2 :: "fact_heap \<Rightarrow> lftj_iterator \<Rightarrow> (byte list \<times> addr) list \<Rightarrow> int \<times> lftj_iterator" where
  "next_level2 hp it [] = (- 1, it\<lparr>li_it := []\<rparr>)"
| "next_level2 hp it ((k, a) # es) =
     (if \<not> in_level1 (hp a) it then (- 1, it\<lparr>li_it := (k, a) # es\<rparr>)
      else if fact_get_col (hp a) (li_col2 it) \<noteq> li_val2 it
      then (0, it\<lparr>li_it := (k, a) # es, li_val2 := fact_get_col (hp a) (li_col2 it)\<rparr>)
      else next_level2 hp it es)"

definition iterator_next :: "fact_heap \<Rightarrow> lftj_iterator \<Rightarrow> int \<times> lftj_iterator" where
  "iterator_next hp it =
     (if li_depth it = 1 then next_level1 hp it (li_it it)
      else if li_depth it = 2 then next_level2 hp it (li_it it)
      else if li_depth it = 3 then
        (let it = it\<lparr>li_it := tl (li_it it)\<rparr> in
         case fact_at hp it of None \<Rightarrow> (- 1, it)
         | Some f \<Rightarrow> if \<not> in_level2 f it then (- 1, it) else (0, it\<lparr>li_val3 := fact_get_col f (li_col3 it)\<rparr>))
      else (- 1, it))"

section \<open>The search for a common key\<close>

text \<open>
  The array of pointers to the active iterators holds their numbers. A null key goes behind all
  others.
\<close>

definition sort_step_its :: "lftj_iterator list \<Rightarrow> nat \<Rightarrow> nat list \<Rightarrow> nat list" where
  "sort_step_its its j arr =
     (let key_a = iterator_key (its ! (arr ! j)); key_b = iterator_key (its ! (arr ! (j + 1))) in
      if key_a = P_FIRST \<or> (key_b \<noteq> P_FIRST \<and> compare_symbol key_a key_b > 0)
      then arr[j := arr ! (j + 1), j + 1 := arr ! j] else arr)"

definition sort_iterators :: "lftj_iterator list \<Rightarrow> nat list \<Rightarrow> nat list" where
  "sort_iterators its arr =
     (let count = length arr in
      fold (\<lambda>i. fold (sort_step_its its) [0..<count - i - 1]) [0..<count - 1] arr)"

text \<open>One round; the state is the position and the iterators, the result a key or null.\<close>

definition leapfrog_body ::
  "fact_heap \<Rightarrow> nat list \<Rightarrow> nat \<times> lftj_iterator list \<Rightarrow>
   (nat \<times> lftj_iterator list + symbol \<times> lftj_iterator list) option" where
  "leapfrog_body hp arr x =
     (case x of (p, its) \<Rightarrow>
        let count = length arr;
            max_key = iterator_key (its ! (arr ! ((p + count - 1) mod count)));
            cur_key = iterator_key (its ! (arr ! p))
        in Some (if max_key = P_FIRST \<or> cur_key = P_FIRST then Inr (P_FIRST, its)
                 else if compare_symbol cur_key max_key = 0 then Inr (cur_key, its)
                 else case iterator_seek hp (its ! (arr ! p)) max_key of
                        (r, it) \<Rightarrow>
                          let its = its[arr ! p := it] in
                          if r < 0 then Inr (P_FIRST, its) else Inl ((p + 1) mod count, its)))"

definition leapfrog_search ::
  "fact_heap \<Rightarrow> nat list \<Rightarrow> lftj_iterator list \<Rightarrow> (symbol \<times> nat list \<times> lftj_iterator list) option" where
  "leapfrog_search hp arr its =
     (if arr = [] then Some (P_FIRST, arr, its)
      else if length arr = 1 then Some (iterator_key (its ! hd arr), arr, its)
      else (let arr = sort_iterators its arr in
            do { (y, its) \<leftarrow> run_loop (leapfrog_body hp arr) (0, its); Some (y, arr, its) }))"

section \<open>The solver\<close>

record lftj_subgoal =
  lg_s_sym :: symbol
  lg_p_sym :: symbol
  lg_o_sym :: symbol
  lg_s_var :: "cstr option"
  lg_p_var :: "cstr option"
  lg_o_var :: "cstr option"

definition sub_sym :: "lftj_subgoal \<Rightarrow> nat \<Rightarrow> symbol" where
  "sub_sym sub col = (if col = 0 then lg_s_sym sub else if col = 1 then lg_p_sym sub else lg_o_sym sub)"

definition sub_var :: "lftj_subgoal \<Rightarrow> nat \<Rightarrow> cstr option" where
  "sub_var sub col = (if col = 0 then lg_s_var sub else if col = 1 then lg_p_var sub else lg_o_var sub)"

text \<open>What the solver changes: the slots, the iterators, the data of the callback, the database.\<close>

record 'u lftj =
  lf_m :: slots
  lf_its :: "lftj_iterator list"
  lf_data :: 'u
  lf_db :: facts

definition get_bound_var_sym :: "binding list \<Rightarrow> cstr option \<Rightarrow> 'u lftj \<Rightarrow> (symbol \<times> 'u lftj) option" where
  "get_bound_var_sym bs var_name lf =
     (case var_name of None \<Rightarrow> Some (P_FIRST, lf)
      | Some v \<Rightarrow>
          if \<not> is_var v then Some (P_FIRST, lf)
          else (case bindings_get bs v of None \<Rightarrow> Some (P_FIRST, lf)
                | Some i \<Rightarrow>
                    (case lf_m lf i of None \<Rightarrow> Some (P_FIRST, lf)
                     | Some x \<Rightarrow> do { (y, st) \<leftarrow> facts_find_symbol_str x (lf_db lf); Some (y, lf\<lparr>lf_db := st\<rparr>) })))"

definition set_it :: "nat \<Rightarrow> lftj_iterator \<Rightarrow> 'u lftj \<Rightarrow> 'u lftj" where
  "set_it i it lf = lf\<lparr>lf_its := (lf_its lf)[i := it]\<rparr>"

text \<open>A level with a fixed key: whether it could be opened at that key.\<close>

definition descend :: "fact_heap \<Rightarrow> lftj_iterator \<Rightarrow> symbol \<Rightarrow> bool \<times> lftj_iterator" where
  "descend hp it key =
     (case iterator_open hp it of
        (r1, it) \<Rightarrow>
          if r1 \<noteq> 0 then (False, it)
          else (case iterator_seek hp it key of (r2, it) \<Rightarrow> (r2 = 0 \<and> iterator_key it = key, it)))"

text \<open>
  The loop \<^verbatim>\<open>while (it->depth < 3)\<close> for subgoal \<open>i\<close>, the number of levels left first: whether it was
  not stuck, whether the iterator is active, how many levels were opened.
\<close>

fun open_levels ::
  "binding list \<Rightarrow> cstr \<Rightarrow> lftj_subgoal \<Rightarrow> nat list \<Rightarrow> nat \<Rightarrow> nat \<Rightarrow> nat \<Rightarrow> 'u lftj \<Rightarrow>
   ((bool \<times> bool \<times> nat) \<times> 'u lftj) option" where
  "open_levels bs var_name sub cols i 0 opened lf = Some ((True, False, opened), lf)"
| "open_levels bs var_name sub cols i (Suc n) opened lf =
     (let col = cols ! li_depth (lf_its lf ! i); val_var = sub_var sub col in
      do { (bound_sym, lf) \<leftarrow> get_bound_var_sym bs val_var lf;
           let it = lf_its lf ! i;
           let hp = db_heap (lf_db lf);
           if val_var = None \<or> bound_sym \<noteq> P_FIRST then
             (case descend hp it (if val_var = None then sub_sym sub col else bound_sym) of
                (ok, it) \<Rightarrow> if ok then open_levels bs var_name sub cols i n (opened + 1) (set_it i it lf)
                           else Some ((False, False, opened), set_it i it lf))
           else if strcmp (the val_var) var_name = 0 then
             (case iterator_open hp it of
                (r, it) \<Rightarrow> if r \<noteq> 0 then Some ((False, False, opened), set_it i it lf)
                          else Some ((True, True, opened + 1), set_it i it lf))
           else Some ((True, False, opened), lf) })"

text \<open>All subgoals: the active iterators, unless one was stuck, and the levels opened.\<close>

fun open_all ::
  "binding list \<Rightarrow> cstr \<Rightarrow> (lftj_subgoal \<times> nat list) list \<Rightarrow> nat \<Rightarrow> nat list \<Rightarrow> nat list \<Rightarrow> 'u lftj \<Rightarrow>
   ((nat list option \<times> nat list) \<times> 'u lftj) option" where
  "open_all bs var_name [] i active opened lf = Some ((Some active, opened), lf)"
| "open_all bs var_name ((sub, cols) # subs) i active opened lf =
     do { ((ok, act, n), lf) \<leftarrow> open_levels bs var_name sub cols i (3 - li_depth (lf_its lf ! i)) 0 lf;
          if ok then open_all bs var_name subs (Suc i) (if act then active @ [i] else active) (opened @ [n]) lf
          else Some ((None, opened @ [n]), lf) }"

fun close_levels :: "nat list \<Rightarrow> lftj_iterator list \<Rightarrow> lftj_iterator list" where
  "close_levels (n # ns) (it # its) = ((snd \<circ> iterator_up) ^^ n) it # close_levels ns its"
| "close_levels ns its = its"

definition close_all :: "nat list \<Rightarrow> 'u lftj \<Rightarrow> 'u lftj" where
  "close_all opened lf = lf\<lparr>lf_its := close_levels opened (lf_its lf)\<rparr>"

definition lf_search :: "nat list \<Rightarrow> 'u lftj \<Rightarrow> (symbol \<times> nat list \<times> 'u lftj) option" where
  "lf_search active lf =
     do { (y, active, its) \<leftarrow> leapfrog_search (db_heap (lf_db lf)) active (lf_its lf);
          Some (y, active, lf\<lparr>lf_its := its\<rparr>) }"

text \<open>The loop over the values of a variable; \<open>rest\<close> solves for the variables after it.\<close>

definition values_body ::
  "slot option \<Rightarrow> ('u lftj \<Rightarrow> (int \<times> 'u lftj) option) \<Rightarrow> int \<times> symbol \<times> nat list \<times> 'u lftj \<Rightarrow>
   ((int \<times> symbol \<times> nat list \<times> 'u lftj) + (int \<times> 'u lftj)) option" where
  "values_body bound_slot rest x =
     (case x of (found_solutions, match_val, active, lf) \<Rightarrow>
        if match_val = P_FIRST then Some (Inr (found_solutions, lf))
        else do {
          slot \<leftarrow> bound_slot;
          (k, lf) \<leftarrow> rest (lf\<lparr>lf_m := (lf_m lf)(slot := symbol_to_str match_val)\<rparr>);
          found_solutions \<leftarrow> int_add found_solutions k;
          case iterator_next (db_heap (lf_db lf)) (lf_its lf ! hd active) of
            (r, it) \<Rightarrow>
              if r < 0 then Some (Inr (found_solutions, set_it (hd active) it lf))
              else do { (y, active, lf) \<leftarrow> lf_search active (set_it (hd active) it lf);
                        Some (Inl (found_solutions, y, active, lf)) } })"

primrec lftj_solve_rec ::
  "binding list \<Rightarrow> (slots \<Rightarrow> 'u \<Rightarrow> 'u option) option \<Rightarrow> (lftj_subgoal \<times> nat list) list \<Rightarrow> cstr list \<Rightarrow> 'u lftj \<Rightarrow>
   (int \<times> 'u lftj) option" where
  "lftj_solve_rec bs cb subs [] lf =
     (case cb of None \<Rightarrow> Some (1, lf)
      | Some call \<Rightarrow> do { u \<leftarrow> call (lf_m lf) (lf_data lf); Some (1, lf\<lparr>lf_data := u\<rparr>) })"
| "lftj_solve_rec bs cb subs (var_name # vars) lf =
     (let bound_slot = bindings_get bs var_name;
          (a, h) = malloc (db_mem (lf_db lf)); (b, h) = malloc h;
          lf = lf\<lparr>lf_db := (lf_db lf)\<lparr>db_mem := h\<rparr>\<rparr>
      in if \<not> a \<or> \<not> b then Some (0, lf)
         else do {
           ((active, opened), lf) \<leftarrow> open_all bs var_name subs 0 [] [] lf;
           case active of
             None \<Rightarrow> Some (0, close_all opened lf)
           | Some active \<Rightarrow> do {
               (n, lf) \<leftarrow> (if active \<noteq> [] then do {
                              (y, active, lf) \<leftarrow> lf_search active lf;
                              run_loop (values_body bound_slot (lftj_solve_rec bs cb subs vars)) (0, y, active, lf) }
                            else lftj_solve_rec bs cb subs vars lf);
               slot \<leftarrow> bound_slot;
               let lf = close_all opened lf;
               Some (n, lf\<lparr>lf_m := (lf_m lf)(slot := None)\<rparr>) } })"

section \<open>The query\<close>

text \<open>A null term that is not a variable is looked up, which dereferences it.\<close>

definition lftj_term :: "cstr option \<Rightarrow> (symbol \<times> cstr option) action" where
  "lftj_term t st =
     do { x \<leftarrow> t;
          if is_var x then Some ((P_FIRST, Some x), st)
          else do { (y, st) \<leftarrow> facts_find_symbol_str x st; Some ((y, None), st) } }"

text \<open>The subgoals; \<open>None\<close> when a constant is no symbol of the database.\<close>

fun lftj_subgoals :: "spec_fact list \<Rightarrow> lftj_subgoal list option action" where
  "lftj_subgoals [] st = Some (Some [], st)"
| "lftj_subgoals (f # fs) st =
     do { ((s, vs), st) \<leftarrow> lftj_term (sf_s f) st;
          ((p, vp), st) \<leftarrow> lftj_term (sf_p f) st;
          ((ob, vo), st) \<leftarrow> lftj_term (sf_o f) st;
          if (vs = None \<and> s = P_FIRST) \<or> (vp = None \<and> p = P_FIRST) \<or> (vo = None \<and> ob = P_FIRST)
          then Some (None, st)
          else do {
            (subs, st) \<leftarrow> lftj_subgoals fs st;
            Some (map_option (Cons \<lparr>lg_s_sym = s, lg_p_sym = p, lg_o_sym = ob,
                                    lg_s_var = vs, lg_p_var = vp, lg_o_var = vo\<rparr>) subs, st) } }"

definition add_var :: "cstr option \<Rightarrow> cstr list \<Rightarrow> cstr list" where
  "add_var v vars =
     (case v of None \<Rightarrow> vars | Some x \<Rightarrow> if \<exists>y \<in> set vars. strcmp y x = 0 then vars else vars @ [x])"

definition lftj_vars :: "lftj_subgoal list \<Rightarrow> cstr list" where
  "lftj_vars subs = fold (\<lambda>sub. add_var (lg_o_var sub) \<circ> add_var (lg_p_var sub) \<circ> add_var (lg_s_var sub)) subs []"

definition trie_candidate_cols :: "nat list list" where
  "trie_candidate_cols = [[0, 1, 2], [1, 2, 0], [2, 0, 1]]"

fun var_priority :: "cstr list \<Rightarrow> int \<Rightarrow> cstr \<Rightarrow> int" where
  "var_priority [] v x = - 1"
| "var_priority (y # ys) v x = (if strcmp y x = 0 then v else var_priority ys (v + 1) x)"

text \<open>The constants before the first variable, if the variables come in their order.\<close>

fun scan_candidate :: "cstr list \<Rightarrow> lftj_subgoal \<Rightarrow> nat list \<Rightarrow> int \<Rightarrow> bool \<Rightarrow> int \<Rightarrow> int option" where
  "scan_candidate vars sub [] last_prio seen_var constants = Some constants"
| "scan_candidate vars sub (col # cols) last_prio seen_var constants =
     (case sub_var sub col of
        Some v \<Rightarrow>
          (let priority = var_priority vars 0 v in
           if priority < last_prio then None else scan_candidate vars sub cols priority True constants)
      | None \<Rightarrow> scan_candidate vars sub cols last_prio seen_var (if seen_var then constants else constants + 1))"

definition best_candidate :: "cstr list \<Rightarrow> lftj_subgoal \<Rightarrow> nat" where
  "best_candidate vars sub =
     (case fold (\<lambda>cand (best, max_consts).
               case scan_candidate vars sub (trie_candidate_cols ! cand) (- 1) False 0 of
                 None \<Rightarrow> (best, max_consts)
               | Some constants \<Rightarrow> if constants > max_consts then (Some cand, constants) else (best, max_consts))
             [0..<3] (None, - 1)
      of (best, _) \<Rightarrow> (case best of None \<Rightarrow> 0 | Some cand \<Rightarrow> cand))"

text \<open>The block of an iterator comes from \<^verbatim>\<open>calloc\<close>.\<close>

definition zero_iterator :: lftj_iterator where
  "zero_iterator =
     \<lparr>li_symbols = [], li_it = [], li_depth = 0, li_col1 = 0, li_col2 = 0, li_col3 = 0,
      li_val1 = P_FIRST, li_val2 = P_FIRST, li_val3 = P_FIRST\<rparr>"

definition subgoal_iterator :: "hexastore \<Rightarrow> nat \<Rightarrow> lftj_iterator" where
  "subgoal_iterator x cand =
     (let cols = trie_candidate_cols ! cand
      in init_lftj_iterator (tree_of x cand) (cols ! 0, cols ! 1, cols ! 2) zero_iterator)"

text \<open>The result and the slots. All five arrays are asked for before the results are tested.\<close>

definition lftj_run :: "spec_fact list \<Rightarrow> binding list \<Rightarrow> slots \<Rightarrow> (int \<times> slots) action" where
  "lftj_run fs bs m st =
     (let (a, h) = malloc (db_mem st); (b, h) = malloc h; (c, h) = malloc h; (d, h) = malloc h; (e, h) = malloc h;
          st = st\<lparr>db_mem := h\<rparr>
      in if \<not> (a \<and> b \<and> c \<and> d \<and> e) then Some ((- 1, m), st)
         else do {
           (subs, st) \<leftarrow> lftj_subgoals fs st;
           case subs of
             None \<Rightarrow> Some ((0, m), st)
           | Some subs \<Rightarrow> do {
               let vars = lftj_vars subs;
               let cands = map (best_candidate vars) subs;
               (n, lf) \<leftarrow> lftj_solve_rec bs None (zip subs (map ((!) trie_candidate_cols) cands)) vars
                 \<lparr>lf_m = m, lf_its = map (subgoal_iterator (db_hexastore st)) cands, lf_data = (), lf_db = st\<rparr>;
               Some ((n, lf_m lf), lf_db lf) } })"

definition facts_lftj_solve :: "spec \<Rightarrow> binding list \<Rightarrow> slots \<Rightarrow> (int \<times> slots) action" where
  "facts_lftj_solve spec bs m st =
     do { subgoal_count \<leftarrow> spec_count_facts spec;
          if subgoal_count = 0 then Some ((0, m), st)
          else if subgoal_count > 2 ^ 31 - 1 \<or> subgoal_count > SIZE_MAX div 24 then Some ((- 1, m), st)
          else do { fs \<leftarrow> spec_array spec 0 subgoal_count; with_reader (lftj_run fs bs m) st } }"

end
