(* ===== verification/Linda.thy ===== *)
theory Linda
  imports Query_Ops
begin

text \<open>
  The tuple space of \<^verbatim>\<open>lib/linda.c\<close>: a bag of tuples over a fact database. A tuple that occurs
  once is an asserted fact; further occurrences are counted in entries beside the database. The
  operations are those of one thread; what the others do while it waits is given.

  The pointers to the space, the pattern and the buffers are not null here, except where a buffer
  is an option.
\<close>

abbreviation (input) LINDA_OK :: int where "LINDA_OK \<equiv> 0"
abbreviation (input) LINDA_TIMEOUT :: int where "LINDA_TIMEOUT \<equiv> 1"
abbreviation (input) LINDA_CLOSED :: int where "LINDA_CLOSED \<equiv> 2"
abbreviation (input) LINDA_ERROR :: int where "LINDA_ERROR \<equiv> - 1"
abbreviation (input) LINDA_COND_PARTITIONS :: nat where "LINDA_COND_PARTITIONS \<equiv> 64"
abbreviation (input) LINDA_ENTRY_KEY_SIZE :: nat where "LINDA_ENTRY_KEY_SIZE \<equiv> 24"

section \<open>The space\<close>

record linda_entry =
  le_s :: symbol
  le_p :: symbol
  le_o :: symbol
  le_count :: nat

type_synonym linda_key = "symbol \<times> symbol \<times> symbol"

text \<open>
  The entries are in memory, the set holds their addresses; \<open>sp_fresh\<close> is the next address.
  \<open>sp_signals\<close> lists the conditions that were broadcast. The symbol table of the space is the one
  its database uses.
\<close>

record linda_space =
  sp_db :: facts
  sp_multiplicity :: "(addr, linda_key) set_tbl"
  sp_entries :: "addr \<Rightarrow> linda_entry"
  sp_fresh :: addr
  sp_active_workers :: nat
  sp_active_operations :: nat
  sp_shutting_down :: bool
  sp_signals :: "nat list"

type_synonym 'a saction = "linda_space \<Rightarrow> ('a \<times> linda_space) option"

definition on_db :: "'a action \<Rightarrow> 'a saction" where
  "on_db act sp = do { (r, st) \<leftarrow> act (sp_db sp); Some (r, sp\<lparr>sp_db := st\<rparr>) }"

definition broadcast :: "nat list \<Rightarrow> linda_space \<Rightarrow> linda_space" where
  "broadcast parts sp = sp\<lparr>sp_signals := sp_signals sp @ parts\<rparr>"

definition linda_operation_begin :: "linda_space \<Rightarrow> int \<times> linda_space" where
  "linda_operation_begin sp =
     (if sp_shutting_down sp then (LINDA_CLOSED, sp)
      else (LINDA_OK, sp\<lparr>sp_active_operations := sp_active_operations sp + 1\<rparr>))"

text \<open>The condition of the workers is not one of the partitions.\<close>

definition linda_operation_end :: "linda_space \<Rightarrow> linda_space" where
  "linda_operation_end sp = sp\<lparr>sp_active_operations := sp_active_operations sp - 1\<rparr>"

definition linda_closed :: "linda_space \<Rightarrow> bool" where
  "linda_closed sp = sp_shutting_down sp"

text \<open>The bracket of the operations that return an \<^verbatim>\<open>int\<close>.\<close>

definition linda_operation :: "int saction \<Rightarrow> int saction" where
  "linda_operation act sp =
     (case linda_operation_begin sp of (result, sp) \<Rightarrow>
        if result \<noteq> LINDA_OK then Some (result, sp)
        else do { (r, sp) \<leftarrow> act sp; Some (r, linda_operation_end sp) })"

definition get_linda_cond_idx :: "cstr \<Rightarrow> nat" where
  "get_linda_cond_idx s = facts_commit_subject_partition (Some s)"

section \<open>The multiplicity of a tuple\<close>

definition entry_rd :: "(addr \<Rightarrow> linda_entry) \<Rightarrow> addr \<Rightarrow> nat \<Rightarrow> linda_key" where
  "entry_rd es a len = (le_s (es a), le_p (es a), le_o (es a))"

definition linda_entry_item :: "fact \<Rightarrow> linda_space \<Rightarrow> nat option option" where
  "linda_entry_item f sp =
     set_get (entry_rd (sp_entries sp)) (sp_multiplicity sp) (f_s f, f_p f, f_o f) LINDA_ENTRY_KEY_SIZE"

definition item_entry :: "nat \<Rightarrow> linda_space \<Rightarrow> addr option" where
  "item_entry i sp = it_data (set_items (sp_multiplicity sp) ! i)"

definition linda_entry_get :: "fact \<Rightarrow> linda_space \<Rightarrow> addr option option" where
  "linda_entry_get f sp =
     (case linda_entry_item f sp of None \<Rightarrow> None | Some None \<Rightarrow> Some None
      | Some (Some i) \<Rightarrow> Some (item_entry i sp))"

definition set_count_of :: "addr \<Rightarrow> nat \<Rightarrow> linda_space \<Rightarrow> linda_space" where
  "set_count_of a n sp = sp\<lparr>sp_entries := (sp_entries sp)(a := (sp_entries sp a)\<lparr>le_count := n\<rparr>)\<rparr>"

text \<open>The address of the new entry.\<close>

definition linda_entry_add :: "fact \<Rightarrow> nat \<Rightarrow> addr option saction" where
  "linda_entry_add f n sp =
     (case malloc (db_mem (sp_db sp)) of
        (False, h) \<Rightarrow> Some (None, sp\<lparr>sp_db := (sp_db sp)\<lparr>db_mem := h\<rparr>\<rparr>)
      | (True, h) \<Rightarrow> do {
          let sp = sp\<lparr>sp_db := (sp_db sp)\<lparr>db_mem := h\<rparr>\<rparr>;
          (s, sp) \<leftarrow> on_db (facts_intern_symbol (f_s f)) sp;
          (p, sp) \<leftarrow> on_db (facts_intern_symbol (f_p f)) sp;
          (ob, sp) \<leftarrow> on_db (facts_intern_symbol (f_o f)) sp;
          if some_null (s, p, ob)
          then do { (_, sp) \<leftarrow> on_db (unintern_three (s, p, ob)) sp; Some (None, sp) }
          else do {
            let a = sp_fresh sp;
            let sp = sp\<lparr>sp_fresh := a + 1,
                        sp_entries := (sp_entries sp)(a := \<lparr>le_s = s, le_p = p, le_o = ob, le_count = n\<rparr>)\<rparr>;
            (item, S, h) \<leftarrow> set_add (entry_rd (sp_entries sp)) (sp_multiplicity sp) a LINDA_ENTRY_KEY_SIZE (db_mem (sp_db sp));
            let sp = sp\<lparr>sp_multiplicity := S, sp_db := (sp_db sp)\<lparr>db_mem := h\<rparr>\<rparr>;
            case item of
              None \<Rightarrow> do { (_, sp) \<leftarrow> on_db (unintern_three (s, p, ob)) sp; Some (None, sp) }
            | Some i \<Rightarrow> Some (Some a, sp) } })"

definition linda_entry_remove :: "fact \<Rightarrow> unit saction" where
  "linda_entry_remove f sp =
     do { item \<leftarrow> linda_entry_item f sp;
          case item of
            None \<Rightarrow> Some ((), sp)
          | Some i \<Rightarrow> do {
              a \<leftarrow> item_entry i sp;
              (_, S) \<leftarrow> set_remove (sp_multiplicity sp) (Some (int i));
              let sp = sp\<lparr>sp_multiplicity := S\<rparr>;
              let e = sp_entries sp a;
              (_, sp) \<leftarrow> on_db (facts_unintern (le_s e)) sp;
              (_, sp) \<leftarrow> on_db (facts_unintern (le_p e)) sp;
              on_db (facts_unintern (le_o e)) sp } }"

section \<open>Signals\<close>

definition linda_signal_subject :: "cstr \<Rightarrow> linda_space \<Rightarrow> linda_space" where
  "linda_signal_subject subject sp =
     (let part = get_linda_cond_idx subject in broadcast (if part = 0 then [0] else [0, part]) sp)"

definition linda_commit_observer :: "facts_commit_summary \<Rightarrow> linda_space \<Rightarrow> linda_space" where
  "linda_commit_observer summary sp =
     broadcast (filter (\<lambda>i. and (subject_partitions summary) (push_bit i 1) \<noteq> 0) [0..<LINDA_COND_PARTITIONS]) sp"

text \<open>
  A commit of the database. The summary it hands to its observers is the one of the entries
  there are when the listeners have been called; the observer of the space changes nothing of the
  database, so what it broadcasts is added when the commit is done.
\<close>

definition told_summary :: "callbacks \<Rightarrow> facts \<Rightarrow> facts_commit_summary option" where
  "told_summary cb st =
     (if \<not> may_finish (db_tx st) \<or> tx_level (db_tx st) > 1 then None
      else case run_listeners cb False st of
        Some (True, st') \<Rightarrow> (case commit_summary (entries st') of (changed, sm) \<Rightarrow> if changed then Some sm else None)
      | _ \<Rightarrow> None)"

definition space_commit :: "callbacks \<Rightarrow> int saction" where
  "space_commit cb sp =
     (let sm = told_summary cb (sp_db sp); observer = tx_internal_summary_observer (db_tx (sp_db sp)) in
      do { (r, sp) \<leftarrow> on_db (facts_transaction_commit cb) sp;
           Some (r, case sm of Some s \<Rightarrow> if observer \<noteq> None then linda_commit_observer s sp else sp | None \<Rightarrow> sp) })"

text \<open>A failed operation: the transaction is rolled back.\<close>

definition give_up :: "int saction" where
  "give_up sp = do { (_, sp) \<leftarrow> on_db facts_transaction_rollback sp; Some (LINDA_ERROR, sp) }"

section \<open>Patterns\<close>

record linda_pattern =
  lp_terms :: "cstr list"
  lp_variables :: "cstr list"
  lp_variable_index :: "int list"
  lp_cond_index :: nat

fun position :: "cstr list \<Rightarrow> cstr \<Rightarrow> nat" where
  "position [] x = 0"
| "position (y # ys) x = (if strcmp y x = 0 then 0 else Suc (position ys x))"

text \<open>The variables so far and the numbers of the terms.\<close>

fun pattern_variables :: "cstr list \<Rightarrow> cstr list \<Rightarrow> cstr list \<times> int list" where
  "pattern_variables vars [] = (vars, [])"
| "pattern_variables vars (t # ts) =
     (if is_var t then
        (let v = position vars t; vars' = (if v = length vars then vars @ [t] else vars)
         in case pattern_variables vars' ts of (vs, is) \<Rightarrow> (vs, int v # is))
      else case pattern_variables vars ts of (vs, is) \<Rightarrow> (vs, - 1 # is))"

fun strdup_all :: "nat \<Rightarrow> mem \<Rightarrow> bool \<times> mem" where
  "strdup_all 0 h = (True, h)"
| "strdup_all (Suc n) h = (case malloc h of (ok, h) \<Rightarrow> if ok then strdup_all n h else (False, h))"

definition linda_pattern_init ::
  "cstr option \<Rightarrow> cstr option \<Rightarrow> cstr option \<Rightarrow> bool \<Rightarrow> mem \<Rightarrow> linda_pattern option \<times> mem" where
  "linda_pattern_init s p ob copy_terms h =
     (case (s, p, ob) of
        (Some s, Some p, Some ob) \<Rightarrow>
          (case (if copy_terms then strdup_all 3 h else (True, h)) of
             (False, h) \<Rightarrow> (None, h)
           | (True, h) \<Rightarrow>
               (case pattern_variables [] [s, p, ob] of
                  (vars, is) \<Rightarrow>
                    (Some \<lparr>lp_terms = [s, p, ob], lp_variables = vars, lp_variable_index = is,
                           lp_cond_index = get_linda_cond_idx s\<rparr>, h)))
      | _ \<Rightarrow> (None, h))"

definition new_linda_pattern :: "cstr option \<Rightarrow> cstr option \<Rightarrow> cstr option \<Rightarrow> mem \<Rightarrow> linda_pattern option \<times> mem" where
  "new_linda_pattern s p ob h =
     (case malloc h of (False, h) \<Rightarrow> (None, h) | (True, h) \<Rightarrow> linda_pattern_init s p ob True h)"

section \<open>Out\<close>

definition linda_out_body :: "callbacks \<Rightarrow> cstr \<Rightarrow> cstr \<Rightarrow> cstr \<Rightarrow> int saction" where
  "linda_out_body cb s p ob sp =
     do { (b, sp) \<leftarrow> on_db facts_transaction_begin sp;
          if b \<noteq> 0 then Some (LINDA_ERROR, sp)
          else do {
            ((existed, support), sp) \<leftarrow> on_db (facts_get_support_spo s p ob) sp;
            (added, sp) \<leftarrow> on_db (facts_add_spo s p ob) sp;
            case added of
              None \<Rightarrow> give_up sp
            | Some a \<Rightarrow> do {
                let f = db_heap (sp_db sp) a;
                entry \<leftarrow> linda_entry_get f sp;
                (ok, sp) \<leftarrow>
                  (if existed \<and> sup_asserted support \<noteq> 0 then
                     (case entry of
                        Some e \<Rightarrow>
                          if le_count (sp_entries sp e) = SIZE_MAX then Some (False, sp)
                          else Some (True, set_count_of e (le_count (sp_entries sp e) + 1) sp)
                      | None \<Rightarrow> do { (new, sp) \<leftarrow> linda_entry_add f 2 sp; Some (new \<noteq> None, sp) })
                   else if entry \<noteq> None then do { (_, sp) \<leftarrow> linda_entry_remove f sp; Some (True, sp) }
                   else Some (True, sp));
                if \<not> ok then give_up sp
                else do {
                  (r, sp) \<leftarrow> space_commit cb sp;
                  if r \<noteq> 0 then give_up sp
                  else Some (LINDA_OK, linda_signal_subject s sp) } } } }"

definition linda_out :: "callbacks \<Rightarrow> cstr option \<Rightarrow> cstr option \<Rightarrow> cstr option \<Rightarrow> int saction" where
  "linda_out cb s p ob sp =
     (case (s, p, ob) of
        (Some s, Some p, Some ob) \<Rightarrow> linda_operation (linda_out_body cb s p ob) sp
      | _ \<Rightarrow> Some (LINDA_ERROR, sp))"

section \<open>Matching\<close>

text \<open>A buffer: its string, if it is no null pointer, and its size.\<close>

type_synonym out_buffer = "cstr option \<times> nat"

definition copy_output :: "out_buffer \<Rightarrow> cstr \<Rightarrow> out_buffer" where
  "copy_output buf value =
     (case buf of (None, mx) \<Rightarrow> (None, mx)
      | (Some old, mx) \<Rightarrow> (Some (if mx > 0 then take (mx - 1) value else old), mx))"

text \<open>Terms with the same variable have the same value.\<close>

definition repeats_agree :: "int list \<Rightarrow> cstr list \<Rightarrow> bool" where
  "repeats_agree is vals =
     (\<forall>i \<in> set [0..<3]. \<forall>j \<in> set [Suc i..<3]. is ! i \<ge> 0 \<and> is ! i = is ! j \<longrightarrow> strcmp (vals ! i) (vals ! j) = 0)"

text \<open>The loop over the results: the strings of the first fact that matches.\<close>

definition fact_texts :: "fact \<Rightarrow> cstr list option" where
  "fact_texts f = do { s \<leftarrow> symbol_to_str (f_s f); p \<leftarrow> symbol_to_str (f_p f); ob \<leftarrow> symbol_to_str (f_o f); Some [s, p, ob] }"

definition extract_body ::
  "linda_space \<Rightarrow> linda_pattern \<Rightarrow> query \<Rightarrow> (query + cstr list option \<times> query) option" where
  "extract_body sp pattern q =
     do { (ok, q) \<leftarrow> facts_with_cursor_next q;
          if \<not> ok then Some (Inr (None, q))
          else do {
            l \<leftarrow> level_of q 0;
            a \<leftarrow> lv_fact l;
            let f = db_heap (q_db q) a;
            if asserted_count f = 0 then Some (Inl q)
            else do {
              entry \<leftarrow> linda_entry_get f sp;
              if (case entry of None \<Rightarrow> False | Some e \<Rightarrow> le_count (sp_entries sp e) = 0) then Some (Inl q)
              else do {
                vals \<leftarrow> fact_texts f;
                Some (if repeats_agree (lp_variable_index pattern) vals then Inr (Some vals, q) else Inl q) } } } }"

definition pattern_bindings :: "linda_pattern \<Rightarrow> binding list" where
  "pattern_bindings pattern = zip (lp_variables pattern) [0..<length (lp_variables pattern)]"

definition pattern_spec :: "linda_pattern \<Rightarrow> spec" where
  "pattern_spec pattern = map Some (lp_terms pattern) @ [None, None]"

text \<open>
  The result, the match and the buffers. The doubles and the size of a level are the parameters of
  \<open>facts_with_checked\<close>.
\<close>

definition match_and_extract ::
  "'d double_ops \<Rightarrow> nat \<Rightarrow> linda_pattern \<Rightarrow> out_buffer list \<Rightarrow> (int \<times> cstr list \<times> out_buffer list) saction" where
  "match_and_extract D lsz pattern outs sp =
     do { (r, q) \<leftarrow> facts_with_checked D lsz (pattern_bindings pattern) (pattern_spec pattern) (\<lambda>_. None) (sp_db sp);
          if r \<noteq> 0 then Some ((- 1, [], outs), sp\<lparr>sp_db := q_db q\<rparr>)
          else do {
            (found, q) \<leftarrow> run_loop (extract_body sp pattern) q;
            (c, st) \<leftarrow> facts_with_cursor_destroy (q_c q) (q_db q);
            let (vals, outs) = (case found of None \<Rightarrow> ([], outs) | Some vals \<Rightarrow> (vals, map2 copy_output outs vals));
            Some ((if facts_with_cursor_error c \<noteq> 0 then - 1 else if found \<noteq> None then 1 else 0, vals, outs),
                  sp\<lparr>sp_db := st\<rparr>) } }"

definition linda_consume_one :: "cstr list \<Rightarrow> int saction" where
  "linda_consume_one vals sp =
     do { (found, sp) \<leftarrow> on_db (facts_get_spo (vals ! 0) (vals ! 1) (vals ! 2)) sp;
          case found of
            None \<Rightarrow> Some (0, sp)
          | Some a \<Rightarrow>
              (let f = db_heap (sp_db sp) a in
               if asserted_count f = 0 then Some (0, sp)
               else do {
                 entry \<leftarrow> linda_entry_get f sp;
                 case entry of
                   Some e \<Rightarrow>
                     (let n = le_count (sp_entries sp e) in
                      if n > 2 then Some (1, set_count_of e (n - 1) sp)
                      else do { (_, sp) \<leftarrow> linda_entry_remove f sp; Some (1, sp) })
                 | None \<Rightarrow> on_db (facts_remove_spo (vals ! 0) (vals ! 1) (vals ! 2)) sp }) }"

section \<open>Reading and taking without waiting\<close>

type_synonym linda_result = "int \<times> out_buffer list"

definition linda_operation_out ::
  "out_buffer list \<Rightarrow> linda_result saction \<Rightarrow> linda_result saction" where
  "linda_operation_out outs act sp =
     (case linda_operation_begin sp of (result, sp) \<Rightarrow>
        if result \<noteq> LINDA_OK then Some ((result, outs), sp)
        else do { (r, sp) \<leftarrow> act sp; Some (r, linda_operation_end sp) })"

definition linda_rdp_pattern ::
  "'d double_ops \<Rightarrow> nat \<Rightarrow> linda_pattern \<Rightarrow> out_buffer list \<Rightarrow> linda_result saction" where
  "linda_rdp_pattern D lsz pattern outs =
     linda_operation_out outs (\<lambda>sp.
       do { ((r, _, outs), sp) \<leftarrow> match_and_extract D lsz pattern outs sp; Some ((r, outs), sp) })"

definition give_up_out :: "out_buffer list \<Rightarrow> linda_result saction" where
  "give_up_out outs sp = do { (r, sp) \<leftarrow> give_up sp; Some ((r, outs), sp) }"

definition linda_inp_pattern ::
  "'d double_ops \<Rightarrow> nat \<Rightarrow> callbacks \<Rightarrow> linda_pattern \<Rightarrow> out_buffer list \<Rightarrow> linda_result saction" where
  "linda_inp_pattern D lsz cb pattern outs =
     linda_operation_out outs (\<lambda>sp.
       do { (b, sp) \<leftarrow> on_db facts_transaction_begin sp;
            if b \<noteq> 0 then Some ((LINDA_ERROR, outs), sp)
            else do {
              ((found, vals, outs), sp) \<leftarrow> match_and_extract D lsz pattern outs sp;
              if found < 0 then give_up_out outs sp
              else do {
                (taken, sp) \<leftarrow> (if found \<noteq> 0 then linda_consume_one vals sp else Some (1, sp));
                if taken \<le> 0 then give_up_out outs sp
                else do {
                  (r, sp) \<leftarrow> space_commit cb sp;
                  if r \<noteq> 0 then give_up_out outs sp else Some ((found, outs), sp) } } } })"

section \<open>Waiting\<close>

text \<open>\<^verbatim>\<open>CLOCK_MONOTONIC\<close>, seconds and nanoseconds, or a failure.\<close>

definition make_deadline :: "int \<Rightarrow> (int \<times> int) option \<Rightarrow> (int \<times> int) option" where
  "make_deadline timeout_ms clock =
     (if timeout_ms < 0 then None
      else case clock of None \<Rightarrow> None
      | Some (sec, nsec) \<Rightarrow>
          (let sec = sec + timeout_ms div 1000; nsec = nsec + (timeout_ms mod 1000) * 1000000
           in Some (if nsec \<ge> 1000000000 then (sec + 1, nsec - 1000000000) else (sec, nsec))))"

text \<open>
  What the waits on a condition return, with what the other threads did to the space meanwhile, for
  a deadline or none. A wait that never returns is one that is not in the list.
\<close>

abbreviation (input) ETIMEDOUT :: int where "ETIMEDOUT \<equiv> 110"

type_synonym waits = "(int \<times> int) option \<Rightarrow> (int \<times> (linda_space \<Rightarrow> linda_space)) list"

fun rd_loop ::
  "'d double_ops \<Rightarrow> nat \<Rightarrow> linda_pattern \<Rightarrow> (int \<times> (linda_space \<Rightarrow> linda_space)) list \<Rightarrow> out_buffer list \<Rightarrow>
   linda_result saction" where
  "rd_loop D lsz pattern ws outs sp =
     (if linda_closed sp then Some ((LINDA_CLOSED, outs), sp)
      else do {
        ((found, _, outs), sp) \<leftarrow> match_and_extract D lsz pattern outs sp;
        if found < 0 then Some ((LINDA_ERROR, outs), sp)
        else if found \<noteq> 0 then Some ((LINDA_OK, outs), sp)
        else case ws of
          [] \<Rightarrow> None
        | (rc, meanwhile) # ws \<Rightarrow>
            (let sp = meanwhile sp in
             if rc = ETIMEDOUT then Some ((LINDA_TIMEOUT, outs), sp)
             else if rc \<noteq> 0 then Some ((LINDA_ERROR, outs), sp)
             else rd_loop D lsz pattern ws outs sp) })"

definition linda_rd_wait ::
  "'d double_ops \<Rightarrow> nat \<Rightarrow> waits \<Rightarrow> linda_pattern \<Rightarrow> out_buffer list \<Rightarrow> (int \<times> int) option \<Rightarrow> linda_result saction" where
  "linda_rd_wait D lsz waits pattern outs deadline =
     linda_operation_out outs (rd_loop D lsz pattern (waits deadline) outs)"

text \<open>The last two steps of a match: the tuple is taken, and the transaction committed.\<close>

definition take_match :: "callbacks \<Rightarrow> cstr list \<Rightarrow> int saction" where
  "take_match cb vals sp =
     do { (removed, sp) \<leftarrow> linda_consume_one vals sp;
          (failed, sp) \<leftarrow> (if removed = 0 then Some (True, sp)
                          else do { (r, sp) \<leftarrow> space_commit cb sp; Some (r \<noteq> 0, sp) });
          if failed then give_up sp else Some (LINDA_OK, sp) }"

fun in_loop ::
  "'d double_ops \<Rightarrow> nat \<Rightarrow> callbacks \<Rightarrow> linda_pattern \<Rightarrow> (int \<times> (linda_space \<Rightarrow> linda_space)) list \<Rightarrow>
   out_buffer list \<Rightarrow> linda_result saction" where
  "in_loop D lsz cb pattern ws outs sp =
     (if linda_closed sp then Some ((LINDA_CLOSED, outs), sp)
      else do {
        (b, sp) \<leftarrow> on_db facts_transaction_begin sp;
        if b \<noteq> 0 then Some ((LINDA_ERROR, outs), sp)
        else do {
          ((found, vals, outs), sp) \<leftarrow> match_and_extract D lsz pattern outs sp;
          if found < 0 then give_up_out outs sp
          else if found \<noteq> 0 then do { (r, sp) \<leftarrow> take_match cb vals sp; Some ((r, outs), sp) }
          else do {
            (r, sp) \<leftarrow> space_commit cb sp;
            if r \<noteq> 0 then Some ((LINDA_ERROR, outs), sp)
            else case ws of
              [] \<Rightarrow> None
            | (rc, meanwhile) # ws \<Rightarrow>
                (let sp = meanwhile sp in
                 if rc = ETIMEDOUT then Some ((LINDA_TIMEOUT, outs), sp)
                 else if rc \<noteq> 0 then Some ((LINDA_ERROR, outs), sp)
                 else in_loop D lsz cb pattern ws outs sp) } } })"

declare rd_loop.simps [simp del] in_loop.simps [simp del]

definition linda_in_wait ::
  "'d double_ops \<Rightarrow> nat \<Rightarrow> callbacks \<Rightarrow> waits \<Rightarrow> linda_pattern \<Rightarrow> out_buffer list \<Rightarrow> (int \<times> int) option \<Rightarrow>
   linda_result saction" where
  "linda_in_wait D lsz cb waits pattern outs deadline =
     linda_operation_out outs (in_loop D lsz cb pattern (waits deadline) outs)"

definition linda_rd_pattern ::
  "'d double_ops \<Rightarrow> nat \<Rightarrow> waits \<Rightarrow> linda_pattern \<Rightarrow> out_buffer list \<Rightarrow> linda_result saction" where
  "linda_rd_pattern D lsz waits pattern outs = linda_rd_wait D lsz waits pattern outs None"

definition linda_in_pattern ::
  "'d double_ops \<Rightarrow> nat \<Rightarrow> callbacks \<Rightarrow> waits \<Rightarrow> linda_pattern \<Rightarrow> out_buffer list \<Rightarrow> linda_result saction" where
  "linda_in_pattern D lsz cb waits pattern outs = linda_in_wait D lsz cb waits pattern outs None"

definition linda_rd_pattern_timed ::
  "'d double_ops \<Rightarrow> nat \<Rightarrow> (int \<times> int) option \<Rightarrow> waits \<Rightarrow> linda_pattern \<Rightarrow> int \<Rightarrow> out_buffer list \<Rightarrow> linda_result saction" where
  "linda_rd_pattern_timed D lsz clock waits pattern timeout_ms outs sp =
     (case make_deadline timeout_ms clock of None \<Rightarrow> Some ((LINDA_ERROR, outs), sp)
      | Some deadline \<Rightarrow> linda_rd_wait D lsz waits pattern outs (Some deadline) sp)"

definition linda_in_pattern_timed ::
  "'d double_ops \<Rightarrow> nat \<Rightarrow> callbacks \<Rightarrow> (int \<times> int) option \<Rightarrow> waits \<Rightarrow> linda_pattern \<Rightarrow> int \<Rightarrow> out_buffer list \<Rightarrow>
   linda_result saction" where
  "linda_in_pattern_timed D lsz cb clock waits pattern timeout_ms outs sp =
     (case make_deadline timeout_ms clock of None \<Rightarrow> Some ((LINDA_ERROR, outs), sp)
      | Some deadline \<Rightarrow> linda_in_wait D lsz cb waits pattern outs (Some deadline) sp)"

section \<open>The operations on strings\<close>

text \<open>The pattern points to the strings of the caller.\<close>

definition with_pattern ::
  "cstr option \<Rightarrow> cstr option \<Rightarrow> cstr option \<Rightarrow> (linda_pattern \<Rightarrow> out_buffer list \<Rightarrow> linda_result saction) \<Rightarrow>
   out_buffer list \<Rightarrow> linda_result saction" where
  "with_pattern s p ob call outs sp =
     (case linda_pattern_init s p ob False (db_mem (sp_db sp)) of
        (None, _) \<Rightarrow> Some ((LINDA_ERROR, outs), sp)
      | (Some pattern, _) \<Rightarrow> call pattern outs sp)"

definition linda_rd where
  "linda_rd D lsz waits s p ob = with_pattern s p ob (linda_rd_pattern D lsz waits)"

definition linda_in where
  "linda_in D lsz cb waits s p ob = with_pattern s p ob (linda_in_pattern D lsz cb waits)"

definition linda_rd_timed where
  "linda_rd_timed D lsz clock waits s p ob timeout_ms =
     with_pattern s p ob (\<lambda>pattern. linda_rd_pattern_timed D lsz clock waits pattern timeout_ms)"

definition linda_in_timed where
  "linda_in_timed D lsz cb clock waits s p ob timeout_ms =
     with_pattern s p ob (\<lambda>pattern. linda_in_pattern_timed D lsz cb clock waits pattern timeout_ms)"

definition linda_rdp where
  "linda_rdp D lsz s p ob = with_pattern s p ob (linda_rdp_pattern D lsz)"

definition linda_inp where
  "linda_inp D lsz cb s p ob = with_pattern s p ob (linda_inp_pattern D lsz cb)"

end
