(* ===== verification/Linda_Space.thy ===== *)
theory Linda_Space
  imports Linda
begin

text \<open>
  The life of a tuple space of \<^verbatim>\<open>lib/linda.c\<close>: creation with all that may fail, closing, deletion,
  the access to its database, the attached program, and the worker threads.
\<close>

section \<open>Creation\<close>

text \<open>
  The mutexes, the conditions and their attributes may fail to be created; each takes an answer of
  the allocator. The number of answers taken in a loop over the partitions is up to twice theirs.
\<close>

fun inits :: "nat \<Rightarrow> mem \<Rightarrow> bool \<times> mem" where
  "inits 0 h = (True, h)"
| "inits (Suc n) h = (case malloc h of (ok, h) \<Rightarrow> if ok then inits n h else (False, h))"

text \<open>\<^verbatim>\<open>delete_facts(space->db); delete_intern(space->sym); free(space)\<close>, with the answers left.\<close>

definition drop_space :: "facts \<Rightarrow> globals \<Rightarrow> mem \<Rightarrow> (linda_space option \<times> globals) option" where
  "drop_space st g h = do { (_, A) \<leftarrow> facts_destroy st; Some (None, g\<lparr>g_arena := A, g_mem := h\<rparr>) }"

definition multiplicity_zero :: "(linda_key \<Rightarrow> nat \<Rightarrow> u64) \<Rightarrow> (addr, linda_key) set_tbl" where
  "multiplicity_zero wyhash = \<lparr>set_max = 0, set_items = [], set_count = 0, set_collisions = 0, set_hash = wyhash\<rparr>"

text \<open>
  The attributes with their clock, the mutex and the condition of the workers, then a mutex and a
  condition for each partition, then the set. \<open>observer\<close> identifies \<^verbatim>\<open>linda_commit_observer\<close>.
\<close>

definition new_linda_space ::
  "(fact_key \<Rightarrow> nat \<Rightarrow> u64) \<Rightarrow> (linda_key \<Rightarrow> nat \<Rightarrow> u64) \<Rightarrow> nat \<Rightarrow> nat \<Rightarrow> (addr \<Rightarrow> linda_entry) \<Rightarrow> globals \<Rightarrow>
   (linda_space option \<times> globals) option" where
  "new_linda_space wyhash wyhash3 observer max_symbols entries0 g =
     (case malloc (g_mem g) of
        (False, h) \<Rightarrow> Some (None, g\<lparr>g_mem := h\<rparr>)
      | (True, h) \<Rightarrow>
     (case new_intern h of
        (None, h) \<Rightarrow> Some (None, g\<lparr>g_mem := h\<rparr>)
      | (Some t, h) \<Rightarrow>
     (case new_facts wyhash (Some t) max_symbols (g\<lparr>g_mem := h\<rparr>) of
        (None, g) \<Rightarrow> Some (None, g)
      | (Some st, g) \<Rightarrow>
     (case inits (4 + 2 * LINDA_COND_PARTITIONS) (g_mem g) of
        (False, h) \<Rightarrow> drop_space st g h
      | (True, h) \<Rightarrow>
     (case set_init_checked wyhash3 max_symbols (multiplicity_zero wyhash3) h of (r, S, h) \<Rightarrow>
        if r \<noteq> 0 then drop_space st g h
        else Some (Some \<lparr>sp_db = facts_register_internal_commit_summary_observer (Some observer) (st\<lparr>db_mem := h\<rparr>),
                         sp_multiplicity = S, sp_entries = entries0, sp_fresh = 0, sp_active_workers = 0,
                         sp_active_operations = 0, sp_shutting_down = False, sp_signals = []\<rparr>,
                   g\<lparr>g_mem := h\<rparr>))))))"

section \<open>Closing and deletion\<close>

definition linda_space_close :: "linda_space \<Rightarrow> int \<times> linda_space" where
  "linda_space_close sp =
     (LINDA_OK, (if sp_shutting_down sp then sp else broadcast [0..<LINDA_COND_PARTITIONS] sp)\<lparr>sp_shutting_down := True\<rparr>)"

definition linda_space_is_closed :: "linda_space \<Rightarrow> int" where
  "linda_space_is_closed sp = (if linda_closed sp then 1 else 0)"

text \<open>The references of the entries are given back; the items are visited by a cursor.\<close>

definition unstring_entry :: "linda_entry \<Rightarrow> intern_table \<Rightarrow> intern_table option" where
  "unstring_entry e t =
     do { t \<leftarrow> intern_unstring t (le_s e); t \<leftarrow> intern_unstring t (le_p e); intern_unstring t (le_o e) }"

fun unstring_entries :: "(addr \<Rightarrow> linda_entry) \<Rightarrow> addr option list \<Rightarrow> intern_table \<Rightarrow> intern_table option" where
  "unstring_entries es [] t = Some t"
| "unstring_entries es (None # as) t = None"
| "unstring_entries es (Some a # as) t = do { t' \<leftarrow> unstring_entry (es a) t; unstring_entries es as t' }"

text \<open>
  A space with operations or workers in flight is waited for: the result then is \<open>None\<close>. What is
  left is the symbol table, which is freed, and the arena.
\<close>

definition delete_linda_space :: "linda_space \<Rightarrow> (intern_table option \<times> arena) option" where
  "delete_linda_space sp0 =
     (case linda_space_close sp0 of (_, sp) \<Rightarrow>
        if sp_active_workers sp > 0 \<or> sp_active_operations sp > 0 then None
        else (let st = facts_register_internal_commit_summary_observer None (sp_db sp) in
              do { t \<leftarrow> unstring_entries (sp_entries sp) (cursor_items (sp_multiplicity sp) set_cursor_init) (db_symbols st);
                   facts_destroy (st\<lparr>db_symbols := t\<rparr>) }))"

section \<open>The database of a space\<close>

definition linda_space_facts :: "linda_space \<Rightarrow> facts option" where
  "linda_space_facts sp = (if linda_closed sp then None else Some (sp_db sp))"

text \<open>The guard: whether it is active, and the guard of the database.\<close>

type_synonym linda_facts_guard = "bool \<times> (bool \<times> bool)"

definition linda_space_facts_read_begin :: "linda_space \<Rightarrow> (int \<times> linda_facts_guard) \<times> linda_space" where
  "linda_space_facts_read_begin sp =
     (case linda_operation_begin sp of (result, sp) \<Rightarrow>
        if result \<noteq> LINDA_OK then ((result, (False, (False, False))), sp)
        else (case facts_read_begin (sp_db sp) of ((r, guard), st) \<Rightarrow>
          let sp = sp\<lparr>sp_db := st\<rparr> in
          if r \<noteq> 0 then ((LINDA_ERROR, (False, guard)), linda_operation_end sp)
          else ((LINDA_OK, (True, guard)), sp)))"

definition linda_space_facts_read_end :: "linda_facts_guard \<Rightarrow> linda_facts_guard saction" where
  "linda_space_facts_read_end guard sp =
     (if \<not> fst guard then Some (guard, sp)
      else do { (g, sp) \<leftarrow> on_db (facts_read_end (snd guard)) sp;
                Some ((False, g), linda_operation_end sp) })"

text \<open>The evaluation and the identification of its listener are those of \<open>facts_attach_program\<close>.\<close>

definition ok_or_error :: "int action \<Rightarrow> int saction" where
  "ok_or_error act sp = do { (r, sp) \<leftarrow> on_db act sp; Some (if r = 0 then LINDA_OK else LINDA_ERROR, sp) }"

definition linda_space_attach_program ::
  "callbacks \<Rightarrow> (datalog_program \<Rightarrow> int action) \<Rightarrow> nat \<Rightarrow> datalog_program option \<Rightarrow> int saction" where
  "linda_space_attach_program cb eval reactive prog sp =
     (case prog of None \<Rightarrow> Some (LINDA_ERROR, sp)
      | Some p \<Rightarrow> linda_operation (ok_or_error (facts_attach_program cb eval reactive (Some p))) sp)"

definition linda_space_detach_program ::
  "callbacks \<Rightarrow> (datalog_program \<Rightarrow> int action) \<Rightarrow> nat \<Rightarrow> int saction" where
  "linda_space_detach_program cb eval reactive = linda_operation (ok_or_error (facts_detach_program cb eval reactive))"

section \<open>Workers\<close>

text \<open>
  What \<open>linda_eval\<close> does before the thread runs, with the answer of \<^verbatim>\<open>pthread_create\<close>, and what the
  thread does: the function it was given, and the cleanup, which runs also when it is cancelled.
\<close>

definition linda_eval :: "bool \<Rightarrow> int saction" where
  "linda_eval created sp =
     (case malloc (db_mem (sp_db sp)) of (ok, h) \<Rightarrow>
        let sp = sp\<lparr>sp_db := (sp_db sp)\<lparr>db_mem := h\<rparr>\<rparr> in
        if \<not> ok then Some (LINDA_ERROR, sp)
        else if sp_shutting_down sp then Some (LINDA_CLOSED, sp)
        else if created then Some (LINDA_OK, sp\<lparr>sp_active_workers := sp_active_workers sp + 1\<rparr>)
        else Some (LINDA_ERROR, sp))"

definition linda_eval_cleanup :: "linda_space \<Rightarrow> linda_space" where
  "linda_eval_cleanup sp = sp\<lparr>sp_active_workers := sp_active_workers sp - 1\<rparr>"

definition linda_eval_thread_wrapper :: "(linda_space \<Rightarrow> linda_space) \<Rightarrow> linda_space \<Rightarrow> linda_space" where
  "linda_eval_thread_wrapper func sp = linda_eval_cleanup (func sp)"

end
