(* ===== verification/Sparql.thy ===== *)
theory Sparql
  imports Query_Ops Facts_IO
begin

text \<open>
  The SPARQL front end of \<^verbatim>\<open>lib/sparql.c\<close>: the tokens, the parser of queries and of \<^verbatim>\<open>INSERT DATA\<close>, the
  translation of a query into a specification, and the operations on a database.

  The rest of the token array from the position on is a list; reading past its end is \<open>None\<close>, as
  is every other use of memory that is not there.
\<close>

section \<open>Tokens\<close>

datatype e_token_type =
    TOKEN_SELECT | TOKEN_ASK | TOKEN_WHERE | TOKEN_LBRACE | TOKEN_RBRACE | TOKEN_LPAREN | TOKEN_RPAREN | TOKEN_DOT
  | TOKEN_VAR | TOKEN_CONST | TOKEN_NOT | TOKEN_PREFIX | TOKEN_LIMIT | TOKEN_OFFSET | TOKEN_ORDER | TOKEN_BY
  | TOKEN_ASC | TOKEN_DESC | TOKEN_EOF | TOKEN_ERROR

record s_token =
  tk_type :: e_token_type
  tk_value :: "cstr option"

definition token :: "e_token_type \<Rightarrow> cstr option \<Rightarrow> s_token" where
  "token ty v = \<lparr>tk_type = ty, tk_value = v\<rparr>"

definition blank :: "char \<Rightarrow> bool" where
  "blank c \<longleftrightarrow> c = CHR '' '' \<or> c = CHR 0x09 \<or> c = CHR 0x0D \<or> c = CHR 0x0A"

definition between :: "char \<Rightarrow> char \<Rightarrow> char \<Rightarrow> bool" where
  "between a b c \<longleftrightarrow> a \<le> c \<and> c \<le> b"

definition name_char :: "char \<Rightarrow> bool" where
  "name_char c \<longleftrightarrow> between (CHR ''a'') (CHR ''z'') c \<or> between (CHR ''A'') (CHR ''Z'') c \<or>
     between (CHR ''0'') (CHR ''9'') c \<or> c = CHR ''_''"

definition word_char :: "char \<Rightarrow> bool" where
  "word_char c \<longleftrightarrow> name_char c \<or> c = CHR '':'' \<or> c = CHR ''-''"

text \<open>The one-character tokens keep their type when the copy of the character fails.\<close>

definition single_tokens :: "(char \<times> e_token_type) list" where
  "single_tokens =
     [(CHR ''{'', TOKEN_LBRACE), (CHR ''}'', TOKEN_RBRACE), (CHR ''('', TOKEN_LPAREN), (CHR '')'', TOKEN_RPAREN),
      (CHR ''.'', TOKEN_DOT)]"

definition keywords_list :: "(cstr \<times> e_token_type) list" where
  "keywords_list =
     [(''SELECT'', TOKEN_SELECT), (''ASK'', TOKEN_ASK), (''WHERE'', TOKEN_WHERE), (''NOT'', TOKEN_NOT),
      (''PREFIX'', TOKEN_PREFIX), (''LIMIT'', TOKEN_LIMIT), (''OFFSET'', TOKEN_OFFSET), (''ORDER'', TOKEN_ORDER),
      (''BY'', TOKEN_BY), (''ASC'', TOKEN_ASC), (''DESC'', TOKEN_DESC)]"

definition word_type :: "cstr \<Rightarrow> e_token_type" where
  "word_type w = (case find (\<lambda>k. strcaseeq w (fst k)) keywords_list of None \<Rightarrow> TOKEN_CONST | Some k \<Rightarrow> snd k)"

definition copied :: "e_token_type \<Rightarrow> cstr \<Rightarrow> cstr \<Rightarrow> mem \<Rightarrow> s_token \<times> cstr \<times> mem" where
  "copied ty v rest h = (case malloc h of (ok, h) \<Rightarrow> (if ok then token ty (Some v) else token TOKEN_ERROR None, rest, h))"

definition delimited :: "char \<Rightarrow> cstr \<Rightarrow> mem \<Rightarrow> s_token \<times> cstr \<times> mem" where
  "delimited stop r h =
     (case dropWhile (\<lambda>c. c \<noteq> stop) r of
        [] \<Rightarrow> (token TOKEN_ERROR None, [], h)
      | _ # rest \<Rightarrow> copied TOKEN_CONST (takeWhile (\<lambda>c. c \<noteq> stop) r) rest h)"

text \<open>The token, the rest of the string, the memory.\<close>

definition next_token :: "cstr \<Rightarrow> mem \<Rightarrow> s_token \<times> cstr \<times> mem" where
  "next_token p0 h =
     (case dropWhile blank p0 of
        [] \<Rightarrow> (token TOKEN_EOF None, [], h)
      | c # r \<Rightarrow>
          (case map_of single_tokens c of
             Some ty \<Rightarrow> (case malloc h of (ok, h) \<Rightarrow> (token ty (if ok then Some [c] else None), r, h))
           | None \<Rightarrow>
               if c = CHR ''?'' then copied TOKEN_VAR (c # takeWhile name_char r) (dropWhile name_char r) h
               else if c = CHR ''<'' then delimited (CHR ''>'') r h
               else if c = CHR 0x22 then delimited (CHR 0x22) r h
               else (let w = takeWhile word_char (c # r) in
                     if w = [] then (token TOKEN_ERROR None, c # r, h)
                     else copied (word_type w) w (dropWhile word_char (c # r)) h)))"

definition last_token :: "s_token \<Rightarrow> bool" where
  "last_token t \<longleftrightarrow> tk_type t = TOKEN_EOF \<or> tk_type t = TOKEN_ERROR"

lemma copied_rest: "copied ty v rest h = (t, p, h') \<Longrightarrow> p = rest"
  by (auto simp: copied_def split: prod.splits)

lemma next_token_progress:
  assumes r: "next_token p h = (t, p', h')" and t: "\<not> last_token t"
  shows "length p' < length p"
proof (cases "dropWhile blank p")
  case Nil
  with r t show ?thesis by (auto simp: next_token_def last_token_def token_def)
next
  case (Cons c r0)
  then have len: "length r0 < length p" using length_dropWhile_le [of blank p] by simp
  have short: "length (dropWhile P r0) < length p" for P using length_dropWhile_le [of P r0] len by linarith
  have delim: "length p' < length p" if "delimited stop r0 h = (t, p', h')" for stop
  proof (cases "dropWhile (\<lambda>c. c \<noteq> stop) r0")
    case Nil
    with that have "t = token TOKEN_ERROR None" by (simp add: delimited_def del: dropWhile_eq_Nil_conv)
    with t show ?thesis by (simp add: last_token_def token_def)
  next
    case (Cons a rest)
    with that have "p' = rest" by (auto simp: delimited_def dest: copied_rest)
    then show ?thesis using short [of "\<lambda>c. c \<noteq> stop"] Cons by simp
  qed
  show ?thesis
  proof (cases "map_of single_tokens c")
    case (Some ty)
    with r Cons len show ?thesis by (auto simp: next_token_def split: prod.splits)
  next
    case None
    consider "c = CHR ''?''" | "c = CHR ''<''" | "c = CHR 0x22" | "c \<noteq> CHR ''?''" "c \<noteq> CHR ''<''" "c \<noteq> CHR 0x22" by blast
    then show ?thesis
    proof cases
      case 1
      with r Cons None short show ?thesis by (auto simp: next_token_def dest: copied_rest)
    next
      case 2
      with r Cons None show ?thesis by (intro delim) (simp add: next_token_def)
    next
      case 3
      with r Cons None show ?thesis by (intro delim) (simp add: next_token_def)
    next
      case 4
      show ?thesis
      proof (cases "word_char c")
        case True
        with 4 r Cons None have "p' = dropWhile word_char r0"
          by (auto simp: next_token_def Let_def dest: copied_rest)
        then show ?thesis using short by simp
      next
        case False
        with 4 r Cons None t show ?thesis by (auto simp: next_token_def Let_def last_token_def token_def)
      qed
    qed
  qed
qed

text \<open>The stream; no token when the array cannot grow.\<close>

function tokenize_from :: "cstr \<Rightarrow> s_token list \<Rightarrow> mem \<Rightarrow> s_token list \<times> mem" where
  "tokenize_from p ts h =
     (case next_token p h of (t, p', h') \<Rightarrow>
        case malloc h' of
          (False, h') \<Rightarrow> ([], h')
        | (True, h') \<Rightarrow> if last_token t then (ts @ [t], h') else tokenize_from p' (ts @ [t]) h')"
  by pat_completeness auto
termination
proof (relation "measure (\<lambda>(p, ts, h). length p)", simp, goal_cases)
  case prems: (1 p ts h t)
  then show ?case using next_token_progress [of p h t] by (metis in_measure case_prod_conv)
qed

declare tokenize_from.simps [simp del]

definition tokenize :: "cstr \<Rightarrow> mem \<Rightarrow> s_token list \<times> mem" where
  "tokenize query h = tokenize_from query [] h"

section \<open>Parsing\<close>

text \<open>
  A step of the parser: \<open>None\<close> for undefined behaviour, otherwise a result and the tokens left, or
  an error, and the database.
\<close>

type_synonym 'a parsed = "(('a \<times> s_token list) option \<times> facts) option"

definition syntax_error :: "facts \<Rightarrow> 'a parsed" where
  "syntax_error st = Some (None, st)"

text \<open>The next token, which has to be of one of the types.\<close>

definition expect :: "e_token_type list \<Rightarrow> s_token list \<Rightarrow> facts \<Rightarrow> (cstr option \<Rightarrow> s_token list \<Rightarrow> 'a parsed) \<Rightarrow> 'a parsed" where
  "expect tys ts st use =
     (case ts of [] \<Rightarrow> None
      | t # ts \<Rightarrow> if tk_type t \<in> set tys then use (tk_value t) ts else syntax_error st)"

text \<open>An allocation whose failure is an error, and one that is not checked.\<close>

definition or_error :: "facts \<Rightarrow> (facts \<Rightarrow> 'a parsed) \<Rightarrow> 'a parsed" where
  "or_error st use =
     (case malloc (db_mem st) of (ok, h) \<Rightarrow>
        if ok then use (st\<lparr>db_mem := h\<rparr>) else syntax_error (st\<lparr>db_mem := h\<rparr>))"

definition or_undefined :: "facts \<Rightarrow> (facts \<Rightarrow> 'a parsed) \<Rightarrow> 'a parsed" where
  "or_undefined st use =
     (case malloc (db_mem st) of (ok, h) \<Rightarrow> if ok then use (st\<lparr>db_mem := h\<rparr>) else None)"

definition may_copy :: "cstr option \<Rightarrow> facts \<Rightarrow> (cstr option \<Rightarrow> facts \<Rightarrow> 'a parsed) \<Rightarrow> 'a parsed" where
  "may_copy v st use =
     do { x \<leftarrow> v;
          case malloc (db_mem st) of (ok, h) \<Rightarrow> use (if ok then Some x else None) (st\<lparr>db_mem := h\<rparr>) }"

type_synonym s_sparql_prefix = "cstr \<times> cstr"

text \<open>The text up to the colon is looked up among the prefixes, the first that was given first.\<close>

definition resolve_prefix_list :: "s_sparql_prefix list \<Rightarrow> cstr option \<Rightarrow> mem \<Rightarrow> cstr option \<times> mem" where
  "resolve_prefix_list prefixes val h =
     (case val of None \<Rightarrow> (None, h)
      | Some v \<Rightarrow>
          (let copy = (\<lambda>x h. case malloc h of (ok, h) \<Rightarrow> (if ok then Some x else None, h)) in
           if is_var v \<or> CHR '':'' \<notin> set v then copy v h
           else (case malloc h of
                   (False, h) \<Rightarrow> (None, h)
                 | (True, h) \<Rightarrow>
                     (case find (\<lambda>x. strcmp (fst x) (takeWhile (\<lambda>c. c \<noteq> CHR '':'') v) = 0) prefixes of
                        Some (_, uri) \<Rightarrow> copy (uri @ tl (dropWhile (\<lambda>c. c \<noteq> CHR '':'') v)) h
                      | None \<Rightarrow> copy v h))))"

text \<open>The prefixes; a name has to end in a colon.\<close>

fun parse_prefixes :: "s_sparql_prefix list \<Rightarrow> s_token list \<Rightarrow> facts \<Rightarrow> s_sparql_prefix list parsed" where
  "parse_prefixes ps [] st = None"
| "parse_prefixes ps (t # ts) st =
     (if tk_type t \<noteq> TOKEN_PREFIX then Some (Some (ps, t # ts), st)
      else case ts of
        [] \<Rightarrow> None
      | n # ts \<Rightarrow>
          if tk_type n \<noteq> TOKEN_CONST then syntax_error st
          else do {
            name \<leftarrow> tk_value n;
            if name = [] \<or> last name \<noteq> CHR '':'' then syntax_error st
            else or_error st (\<lambda>st.
              case ts of
                [] \<Rightarrow> None
              | u # ts \<Rightarrow>
                  if tk_type u \<noteq> TOKEN_CONST then syntax_error st
                  else do {
                    uri \<leftarrow> tk_value u;
                    or_error st (\<lambda>st. or_error st (\<lambda>st. parse_prefixes (ps @ [(butlast name, uri)]) ts st)) }) })"

fun parse_projection :: "cstr option list \<Rightarrow> s_token list \<Rightarrow> facts \<Rightarrow> cstr option list parsed" where
  "parse_projection vs [] st = None"
| "parse_projection vs (t # ts) st =
     (if tk_type t \<noteq> TOKEN_VAR then Some (Some (vs, t # ts), st)
      else or_undefined st (\<lambda>st. may_copy (tk_value t) st (\<lambda>v st. parse_projection (vs @ [v]) ts st)))"

record s_sparql_triple =
  st_s :: "cstr option"
  st_p :: "cstr option"
  st_o :: "cstr option"
  st_is_negated :: bool

text \<open>A term is interned; its string is null when that fails.\<close>

definition parse_term :: "s_sparql_prefix list \<Rightarrow> s_token list \<Rightarrow> facts \<Rightarrow> (cstr option \<Rightarrow> s_token list \<Rightarrow> facts \<Rightarrow> 'a parsed) \<Rightarrow> 'a parsed" where
  "parse_term ps ts st use =
     expect [TOKEN_VAR, TOKEN_CONST] ts st (\<lambda>v ts.
       case resolve_prefix_list ps v (db_mem st) of (x, h) \<Rightarrow>
         let st = st\<lparr>db_mem := h\<rparr> in
         case x of None \<Rightarrow> syntax_error st
         | Some x \<Rightarrow> do { (y, st) \<leftarrow> facts_intern x st; use (symbol_to_str y) ts st })"

definition skip_token :: "e_token_type \<Rightarrow> s_token list \<Rightarrow> (bool \<times> s_token list) option" where
  "skip_token ty ts = (case ts of [] \<Rightarrow> None | t # r \<Rightarrow> Some (if tk_type t = ty then (True, r) else (False, ts)))"

definition parse_triple :: "s_sparql_prefix list \<Rightarrow> s_token list \<Rightarrow> facts \<Rightarrow> s_sparql_triple parsed" where
  "parse_triple ps ts st =
     do { (negated, ts) \<leftarrow> skip_token TOKEN_NOT ts;
          parse_term ps ts st (\<lambda>s ts st. parse_term ps ts st (\<lambda>p ts st. parse_term ps ts st (\<lambda>ob ts st.
            or_undefined st (\<lambda>st. do {
              (_, ts) \<leftarrow> skip_token TOKEN_DOT ts;
              Some (Some (\<lparr>st_s = s, st_p = p, st_o = ob, st_is_negated = negated\<rparr>, ts), st) })))) }"

text \<open>
  The loop over the triples; every round takes tokens, so as many rounds as there are tokens are
  enough.
\<close>

fun parse_triples :: "nat \<Rightarrow> s_sparql_prefix list \<Rightarrow> s_sparql_triple list \<Rightarrow> s_token list \<Rightarrow> facts \<Rightarrow> s_sparql_triple list parsed" where
  "parse_triples 0 ps acc ts st = None"
| "parse_triples (Suc n) ps acc ts st =
     (case ts of
        [] \<Rightarrow> None
      | t # _ \<Rightarrow>
          if tk_type t = TOKEN_RBRACE then Some (Some (acc, ts), st)
          else if last_token t then syntax_error st
          else do {
            (r, st) \<leftarrow> parse_triple ps ts st;
            case r of None \<Rightarrow> Some (None, st) | Some (x, ts) \<Rightarrow> parse_triples n ps (acc @ [x]) ts st })"

record s_sparql_query =
  sq_projection_vars :: "cstr option list"
  sq_triples :: "s_sparql_triple list"
  sq_limit :: int
  sq_offset :: int
  sq_is_ask :: bool
  sq_sort_var :: "cstr option"
  sq_sort_desc :: bool

text \<open>\<^verbatim>\<open>atol\<close>: white space, a sign and the digits in front.\<close>

definition is_digit :: "char \<Rightarrow> bool" where
  "is_digit c = between (CHR ''0'') (CHR ''9'') c"

definition atol :: "cstr \<Rightarrow> int" where
  "atol s =
     (let s = dropWhile (\<lambda>c. c = CHR '' '' \<or> between (CHR 0x09) (CHR 0x0D) c) s;
          digits = (\<lambda>x. foldl (\<lambda>n c. 10 * n + (int (of_char c) - 48)) 0 (takeWhile is_digit x))
      in case s of [] \<Rightarrow> 0
         | c # r \<Rightarrow> if c = CHR ''-'' then - digits r else if c = CHR ''+'' then digits r else digits s)"

text \<open>The clauses after the group, in any order; the last of a kind counts.\<close>

definition parse_number :: "s_token list \<Rightarrow> facts \<Rightarrow> (int \<Rightarrow> s_token list \<Rightarrow> 'a parsed) \<Rightarrow> 'a parsed" where
  "parse_number ts st use = expect [TOKEN_CONST] ts st (\<lambda>v ts. do { x \<leftarrow> v; use (atol x) ts })"

definition parse_order :: "s_sparql_query \<Rightarrow> s_token list \<Rightarrow> facts \<Rightarrow> s_sparql_query parsed" where
  "parse_order q ts st =
     expect [TOKEN_BY] ts st (\<lambda>_ ts.
       case ts of
         [] \<Rightarrow> None
       | t # ts \<Rightarrow>
           if tk_type t = TOKEN_VAR then
             may_copy (tk_value t) st (\<lambda>v st. Some (Some (q\<lparr>sq_sort_var := v, sq_sort_desc := False\<rparr>, ts), st))
           else if tk_type t = TOKEN_ASC \<or> tk_type t = TOKEN_DESC then
             expect [TOKEN_LPAREN] ts st (\<lambda>_ ts. expect [TOKEN_VAR] ts st (\<lambda>v ts.
               may_copy v st (\<lambda>v st. expect [TOKEN_RPAREN] ts st (\<lambda>_ ts.
                 Some (Some (q\<lparr>sq_sort_var := v, sq_sort_desc := (tk_type t = TOKEN_DESC)\<rparr>, ts), st)))))
           else syntax_error st)"

fun parse_clauses :: "nat \<Rightarrow> s_sparql_query \<Rightarrow> s_token list \<Rightarrow> facts \<Rightarrow> s_sparql_query parsed" where
  "parse_clauses 0 q ts st = None"
| "parse_clauses (Suc n) q ts st =
     (case ts of
        [] \<Rightarrow> None
      | t # r \<Rightarrow>
          if tk_type t = TOKEN_LIMIT then parse_number r st (\<lambda>k ts. parse_clauses n (q\<lparr>sq_limit := k\<rparr>) ts st)
          else if tk_type t = TOKEN_OFFSET then parse_number r st (\<lambda>k ts. parse_clauses n (q\<lparr>sq_offset := k\<rparr>) ts st)
          else if tk_type t = TOKEN_ORDER then do {
            (x, st) \<leftarrow> parse_order q r st;
            case x of None \<Rightarrow> Some (None, st) | Some (q, ts) \<Rightarrow> parse_clauses n q ts st }
          else Some (Some (q, ts), st))"

text \<open>\<^verbatim>\<open>SELECT\<close> with its variables, or \<^verbatim>\<open>ASK\<close>.\<close>

definition parse_head :: "s_token list \<Rightarrow> facts \<Rightarrow> (bool \<times> cstr option list) parsed" where
  "parse_head ts st =
     (case ts of
        [] \<Rightarrow> None
      | t # r \<Rightarrow>
          if tk_type t = TOKEN_ASK then Some (Some ((True, []), r), st)
          else if tk_type t = TOKEN_SELECT then do {
            (x, st) \<leftarrow> parse_projection [] r st;
            case x of None \<Rightarrow> Some (None, st)
            | Some (vs, ts) \<Rightarrow> if vs = [] then syntax_error st else Some (Some ((False, vs), ts), st) }
          else syntax_error st)"

definition parse_query :: "s_token list \<Rightarrow> facts \<Rightarrow> (s_sparql_query option \<times> facts) option" where
  "parse_query ts st =
     do { (r, st) \<leftarrow> or_error st (\<lambda>st. do {
            (x, st) \<leftarrow> parse_prefixes [] ts st;
            case x of None \<Rightarrow> Some (None, st) | Some (ps, ts) \<Rightarrow> do {
            (x, st) \<leftarrow> parse_head ts st;
            case x of None \<Rightarrow> Some (None, st) | Some ((is_ask, vs), ts) \<Rightarrow>
            expect [TOKEN_WHERE] ts st (\<lambda>_ ts. expect [TOKEN_LBRACE] ts st (\<lambda>_ ts. do {
            (x, st) \<leftarrow> parse_triples (Suc (length ts)) ps [] ts st;
            case x of None \<Rightarrow> Some (None, st) | Some (triples, ts) \<Rightarrow>
            expect [TOKEN_RBRACE] ts st (\<lambda>_ ts. do {
            (x, st) \<leftarrow> parse_clauses (Suc (length ts))
              \<lparr>sq_projection_vars = vs, sq_triples = triples, sq_limit = - 1, sq_offset = 0, sq_is_ask = is_ask,
               sq_sort_var = None, sq_sort_desc = False\<rparr> ts st;
            case x of None \<Rightarrow> Some (None, st) | Some (q, ts) \<Rightarrow>
            expect [TOKEN_EOF] ts st (\<lambda>_ ts. Some (Some (q, ts), st)) }) })) } });
          Some (map_option fst r, st) }"

section \<open>Translation\<close>

text \<open>
  The triples that are visited leave the list: a negated one by itself, the others with all that
  have the same subject. A null subject is passed to \<^verbatim>\<open>strcmp\<close>.
\<close>

fun same_subject :: "cstr \<Rightarrow> s_sparql_triple list \<Rightarrow> (cstr option list \<times> s_sparql_triple list) option" where
  "same_subject x [] = Some ([], [])"
| "same_subject x (t # ts) =
     (if st_is_negated t then do { (cells, left) \<leftarrow> same_subject x ts; Some (cells, t # left) }
      else do {
        y \<leftarrow> st_s t;
        (cells, left) \<leftarrow> same_subject x ts;
        Some (if strcmp y x = 0 then (st_p t # st_o t # cells, left) else (cells, t # left)) })"

lemma same_subject_left: "same_subject x ts = Some (cells, left) \<Longrightarrow> length left \<le> length ts"
  by (induction ts arbitrary: cells left) (auto split: if_splits bind_splits intro: le_SucI)

function spec_of_triples :: "s_sparql_triple list \<Rightarrow> spec option" where
  "spec_of_triples [] = Some [None]"
| "spec_of_triples (t # ts) =
     (if st_is_negated t then
        map_option (\<lambda>r. Some '':not'' # st_s t # st_p t # st_o t # None # r) (spec_of_triples ts)
      else (case st_s t of None \<Rightarrow> None
            | Some x \<Rightarrow>
                (case same_subject x (t # ts) of None \<Rightarrow> None
                 | Some (cells, left) \<Rightarrow> map_option (\<lambda>r. Some x # cells @ None # r) (spec_of_triples left))))"
  by pat_completeness auto
termination
proof (relation "measure length", simp, simp, goal_cases)
  case (1 t ts x p cells left)
  then have "same_subject x (t # ts) = Some (cells, left)" by simp
  with 1 show ?case by (auto split: bind_splits dest!: same_subject_left)
qed

definition compile_sparql_to_spec :: "s_sparql_query \<Rightarrow> mem \<Rightarrow> (spec option \<times> mem) option" where
  "compile_sparql_to_spec q h =
     (let (a, h) = malloc h; (b, h) = malloc h in
      if \<not> a \<or> (sq_triples q \<noteq> [] \<and> \<not> b) then Some (None, h)
      else do { sp \<leftarrow> spec_of_triples (sq_triples q); Some (Some sp, h) })"

section \<open>Queries\<close>

text \<open>What the four operations on a query begin with: the parsed query, or an error.\<close>

definition read_query :: "cstr \<Rightarrow> facts \<Rightarrow> (s_sparql_query option \<times> facts) option" where
  "read_query query st =
     (case tokenize query (db_mem st) of (ts, h) \<Rightarrow>
        let st = st\<lparr>db_mem := h\<rparr> in
        case ts of [] \<Rightarrow> Some (None, st)
        | t # _ \<Rightarrow> if tk_type t = TOKEN_ERROR then Some (None, st) else parse_query ts st)"

definition read_spec :: "cstr \<Rightarrow> facts \<Rightarrow> ((s_sparql_query \<times> spec) option \<times> facts) option" where
  "read_spec query st =
     do { (q, st) \<leftarrow> read_query query st;
          case q of None \<Rightarrow> Some (None, st)
          | Some q \<Rightarrow> do {
              (sp, h) \<leftarrow> compile_sparql_to_spec q (db_mem st);
              Some (map_option (Pair q) sp, st\<lparr>db_mem := h\<rparr>) } }"

text \<open>The cursor of the query is opened; whether that failed is not looked at.\<close>

definition open_query ::
  "'d double_ops \<Rightarrow> nat \<Rightarrow> s_sparql_query \<Rightarrow> binding list \<Rightarrow> spec \<Rightarrow> slots \<Rightarrow> facts \<Rightarrow> query option" where
  "open_query D lsz sq bs sp m st =
     do { (_, q) \<leftarrow> facts_with_checked D lsz bs sp m st;
          let q = upd_c (\<lambda>c. if sq_is_ask sq then c\<lparr>wc_limit := 1, wc_offset := 0\<rparr>
                             else c\<lparr>wc_limit := sq_limit sq, wc_offset := sq_offset sq\<rparr>) q;
          case sq_sort_var sq of
            None \<Rightarrow> Some q
          | Some v \<Rightarrow>
              (case malloc (db_mem (q_db q)) of (ok, h) \<Rightarrow>
                 Some (upd_c (\<lambda>c. c\<lparr>wc_is_sorted := True, wc_sort_var := (if ok then Some v else None),
                                    wc_sort_desc := sq_sort_desc sq\<rparr>) (use_mem h q))) }"

text \<open>\<open>c\<close> is the cursor of the caller, which an error leaves as it is.\<close>

definition facts_sparql ::
  "'d double_ops \<Rightarrow> nat \<Rightarrow> binding list \<Rightarrow> with_cursor \<Rightarrow> slots \<Rightarrow> cstr \<Rightarrow> facts \<Rightarrow> (int \<times> query) option" where
  "facts_sparql D lsz bs c m query st =
     do { (r, st) \<leftarrow> read_spec query st;
          case r of
            None \<Rightarrow> Some (- 1, \<lparr>q_c = c, q_m = m, q_db = st\<rparr>)
          | Some (sq, sp) \<Rightarrow> do { q \<leftarrow> open_query D lsz sq bs sp m st; Some (0, q) } }"

text \<open>The bindings are made from the specification.\<close>

definition facts_sparql_eval ::
  "'d double_ops \<Rightarrow> nat \<Rightarrow> cstr \<Rightarrow> with_cursor \<Rightarrow> facts \<Rightarrow> ((int \<times> binding list option) \<times> query) option" where
  "facts_sparql_eval D lsz query c st =
     (let failed = (\<lambda>st. Some ((- 1, None), \<lparr>q_c = c, q_m = (\<lambda>_. None), q_db = st\<rparr>)) in
      do { (r, st) \<leftarrow> read_spec query st;
           case r of
             None \<Rightarrow> failed st
           | Some (sq, sp) \<Rightarrow> do {
               (bs, h) \<leftarrow> spec_bindings sp (db_mem st);
               let st = st\<lparr>db_mem := h\<rparr>;
               case bs of
                 None \<Rightarrow> failed st
               | Some bs \<Rightarrow> do {
                   q \<leftarrow> open_query D lsz sq bs sp (\<lambda>_. None) st;
                   Some ((0, Some bs), q) } } })"

text \<open>The array of an \<^verbatim>\<open>ASK\<close> query has one null pointer, and the count is 0.\<close>

definition sparql_projection_vars :: "cstr \<Rightarrow> (cstr option list \<times> nat) option action" where
  "sparql_projection_vars query st =
     do { (q, st) \<leftarrow> read_query query st;
          case q of None \<Rightarrow> Some (None, st)
          | Some q \<Rightarrow>
              if sq_is_ask q \<and> sq_projection_vars q = [] then
                (case malloc (db_mem st) of (ok, h) \<Rightarrow> Some (if ok then Some ([None], 0) else None, st\<lparr>db_mem := h\<rparr>))
              else Some (Some (sq_projection_vars q, length (sq_projection_vars q)), st) }"

definition sparql_query_is_ask :: "cstr \<Rightarrow> int action" where
  "sparql_query_is_ask query st =
     do { (q, st) \<leftarrow> read_query query st;
          Some (case q of None \<Rightarrow> - 1 | Some q \<Rightarrow> if sq_is_ask q then 1 else 0, st) }"

section \<open>Insertion\<close>

text \<open>The three terms of a triple are constants; a failed copy is noticed after the third.\<close>

definition insert_term ::
  "s_sparql_prefix list \<Rightarrow> s_token list \<Rightarrow> facts \<Rightarrow> (cstr option \<Rightarrow> s_token list \<Rightarrow> facts \<Rightarrow> 'a parsed) \<Rightarrow> 'a parsed" where
  "insert_term ps ts st use =
     expect [TOKEN_CONST] ts st (\<lambda>v ts.
       case resolve_prefix_list ps v (db_mem st) of (x, h) \<Rightarrow> use x ts (st\<lparr>db_mem := h\<rparr>))"

text \<open>The array grows from 8 to twice its size when it is full; \<open>n\<close> is its length, \<open>capacity\<close> its room.\<close>

fun insert_triples ::
  "nat \<Rightarrow> s_sparql_prefix list \<Rightarrow> nat \<Rightarrow> (cstr \<times> cstr \<times> cstr) list \<Rightarrow> s_token list \<Rightarrow> facts \<Rightarrow> (cstr \<times> cstr \<times> cstr) list parsed" where
  "insert_triples 0 ps capacity acc ts st = None"
| "insert_triples (Suc n) ps capacity acc ts st =
     (case ts of
        [] \<Rightarrow> None
      | t # _ \<Rightarrow>
          if tk_type t = TOKEN_RBRACE then Some (Some (acc, ts), st)
          else if last_token t then syntax_error st
          else insert_term ps ts st (\<lambda>s ts st. insert_term ps ts st (\<lambda>p ts st. insert_term ps ts st (\<lambda>ob ts st.
            case (s, p, ob) of
              (Some s, Some p, Some ob) \<Rightarrow>
                (let full = (length acc = capacity);
                     grow = (\<lambda>use. if full then or_error st use else use st)
                 in grow (\<lambda>st. do {
                      (_, ts) \<leftarrow> skip_token TOKEN_DOT ts;
                      insert_triples n ps (if full then if capacity = 0 then 8 else capacity * 2 else capacity)
                        (acc @ [(s, p, ob)]) ts st }))
            | _ \<Rightarrow> syntax_error st))))"

definition expect_word :: "cstr \<Rightarrow> s_token list \<Rightarrow> facts \<Rightarrow> (s_token list \<Rightarrow> 'a parsed) \<Rightarrow> 'a parsed" where
  "expect_word w ts st use =
     expect [TOKEN_CONST] ts st (\<lambda>v ts. do { x \<leftarrow> v; if strcaseeq x w then use ts else syntax_error st })"

definition parse_insert :: "s_token list \<Rightarrow> facts \<Rightarrow> (cstr \<times> cstr \<times> cstr) list parsed" where
  "parse_insert ts st =
     do { (x, st) \<leftarrow> parse_prefixes [] ts st;
          case x of None \<Rightarrow> Some (None, st) | Some (ps, ts) \<Rightarrow>
          expect_word ''INSERT'' ts st (\<lambda>ts. expect_word ''DATA'' ts st (\<lambda>ts. expect [TOKEN_LBRACE] ts st (\<lambda>_ ts. do {
          (x, st) \<leftarrow> insert_triples (Suc (length ts)) ps 0 [] ts st;
          case x of None \<Rightarrow> Some (None, st) | Some (triples, ts) \<Rightarrow>
          expect [TOKEN_RBRACE] ts st (\<lambda>_ ts. expect [TOKEN_EOF] ts st (\<lambda>_ ts. Some (Some (triples, ts), st))) }))) }"

text \<open>
  The triples that are not there are added; the result is whether all could be, and their number.
  The counter is an \<^verbatim>\<open>int\<close>; going beyond its maximum is undefined.
\<close>

fun add_triples :: "(cstr \<times> cstr \<times> cstr) list \<Rightarrow> int \<Rightarrow> (bool \<times> int) action" where
  "add_triples [] added_count st = Some ((True, added_count), st)"
| "add_triples ((s, p, ob) # ts) added_count st =
     do { (there, st) \<leftarrow> facts_contains_spo s p ob st;
          if there then add_triples ts added_count st
          else do {
            (a, st) \<leftarrow> facts_add_spo s p ob st;
            if a = None then Some ((False, added_count), st)
            else if added_count = INT_MAX then None
            else add_triples ts (added_count + 1) st } }"

definition insert_all :: "callbacks \<Rightarrow> (cstr \<times> cstr \<times> cstr) list \<Rightarrow> int action" where
  "insert_all cb triples st =
     do { (b, st) \<leftarrow> facts_transaction_begin st;
          if b \<noteq> 0 then Some (- 1, st)
          else do {
            ((ok, added_count), st) \<leftarrow> add_triples triples 0 st;
            if \<not> ok then do { (_, st) \<leftarrow> facts_transaction_rollback st; Some (- 1, st) }
            else do {
              (r, st) \<leftarrow> facts_transaction_commit cb st;
              if r \<noteq> 0 then do { (_, st) \<leftarrow> facts_transaction_rollback st; Some (- 1, st) }
              else Some (added_count, st) } } }"

definition facts_sparql_insert :: "callbacks \<Rightarrow> cstr \<Rightarrow> int action" where
  "facts_sparql_insert cb query st =
     (case tokenize query (db_mem st) of (ts, h) \<Rightarrow>
        let st = st\<lparr>db_mem := h\<rparr> in
        case ts of [] \<Rightarrow> Some (- 1, st)
        | t # _ \<Rightarrow>
            if tk_type t = TOKEN_ERROR then Some (- 1, st)
            else do {
              (x, st) \<leftarrow> parse_insert ts st;
              case x of None \<Rightarrow> Some (- 1, st) | Some (triples, _) \<Rightarrow> insert_all cb triples st })"

end
