(* ===== verification/Facts_Frame.thy ===== *)
theory Facts_Frame
  imports Facts_Spec
begin

text \<open>
  What the operations of one database leave alone in the memory that all databases share: the
  facts of the others stay allocated and unchanged.
\<close>

section \<open>Operations on symbols and indexes\<close>

definition same_memory :: "facts \<Rightarrow> facts \<Rightarrow> bool" where
  "same_memory st st' \<longleftrightarrow> db_heap st' = db_heap st \<and> db_arena st' = db_arena st"

lemma same_memory_refl [simp]: "same_memory st st"
  by (simp add: same_memory_def)

lemma same_memory_trans [trans]: "same_memory a b \<Longrightarrow> same_memory b c \<Longrightarrow> same_memory a c"
  by (simp add: same_memory_def)

lemma same_memory_upd [simp]:
  "same_memory st (st'\<lparr>db_tx := tx\<rparr>) = same_memory st st'" "same_memory st (st'\<lparr>db_symbols := t\<rparr>) = same_memory st st'"
  "same_memory st (st'\<lparr>db_mem := h\<rparr>) = same_memory st st'" "same_memory st (st'\<lparr>db_index := S\<rparr>) = same_memory st st'"
  "same_memory st (st'\<lparr>db_hexastore := x\<rparr>) = same_memory st st'" "same_memory st (st'\<lparr>db_log := l\<rparr>) = same_memory st st'"
  "same_memory (st\<lparr>db_tx := tx\<rparr>) st' = same_memory st st'" "same_memory (st\<lparr>db_mem := h\<rparr>) st' = same_memory st st'"
  "same_memory (st\<lparr>db_hexastore := x\<rparr>) st' = same_memory st st'" "same_memory (st\<lparr>db_symbols := t\<rparr>) st' = same_memory st st'"
  by (simp_all add: same_memory_def)

text \<open>An action that changes neither the memory of facts nor the arena.\<close>

definition quiet :: "'a action \<Rightarrow> bool" where
  "quiet act \<longleftrightarrow> (\<forall>st r st'. act st = Some (r, st') \<longrightarrow> same_memory st st')"

lemma quietD: "quiet act \<Longrightarrow> act st = Some (r, st') \<Longrightarrow> same_memory st st'"
  by (simp add: quiet_def)

lemma quiet_writer [intro]: "quiet act \<Longrightarrow> quiet (with_writer act)"
  by (fastforce simp: quiet_def with_writer_def split: bind_splits prod.splits)

lemma quiet_bind:
  assumes "quiet a" "\<And>r. quiet (b r)"
  shows "quiet (\<lambda>st. do { (r, st) \<leftarrow> a st; b r st })"
  unfolding quiet_def
proof (intro allI impI)
  fix st r st' assume "do { (r, st) \<leftarrow> a st; b r st } = Some (r, st')"
  then obtain x st1 where "a st = Some (x, st1)" "b x st1 = Some (r, st')" by (auto split: bind_splits)
  with assms same_memory_trans show "same_memory st st'" by (blast dest: quietD)
qed

lemma quiet_if: "(c \<Longrightarrow> quiet a) \<Longrightarrow> (\<not> c \<Longrightarrow> quiet b) \<Longrightarrow> quiet (\<lambda>st. if c then a st else b st)"
  by (cases c) simp_all

lemma quiet_intern [intro]: "quiet (facts_intern s)"
  unfolding facts_intern_def by (rule quiet_writer) (auto simp: quiet_def split: prod.splits)

lemma quiet_unintern [intro]: "quiet (facts_unintern y)"
  unfolding facts_unintern_def by (rule quiet_writer) (auto simp: quiet_def split: bind_splits)

lemma quiet_intern_symbol [intro]: "quiet (facts_intern_symbol y)"
  using quietD [OF quiet_intern] by (auto simp: quiet_def facts_intern_symbol_def split: bind_splits)

lemma quiet_unintern_nonnull [intro]: "quiet (unintern_nonnull y)"
  using quietD [OF quiet_unintern] by (auto simp: quiet_def unintern_nonnull_def split: if_splits)

lemma quiet_return [intro]: "quiet (\<lambda>st. Some (r, st))"
  by (simp add: quiet_def)

lemma quiet_three [intro]: "quiet (intern_three f)" "quiet (unintern_three trio)" "quiet (unintern_fact g)"
proof -
  show "quiet (intern_three f)"
    unfolding intern_three_def by (intro quiet_bind) auto
  show "quiet (unintern_three trio)"
    unfolding unintern_three_def by (cases trio) (simp, intro quiet_bind; auto)
  show "quiet (unintern_fact g)"
    unfolding unintern_fact_def by (intro quiet_bind) auto
qed

lemma quiet_log [intro]: "quiet (log_fact op f)" "quiet (log_asserted og op f)"
  by (auto simp: quiet_def log_fact_def log_asserted_def split: option.splits bind_splits if_splits)

lemma quiet_index [intro]: "quiet (index_add a)" "quiet (index_remove i)"
  by (auto simp: quiet_def index_add_def index_remove_def split: bind_splits)

lemma quiet_push [intro]: "quiet (transaction_rollback_push act f)"
proof -
  have room: "quiet rollback_room"
    by (auto simp: quiet_def rollback_room_def Let_def split: if_splits prod.splits bool.splits)
  have "same_memory st (push_entry act f st)" for st by (simp add: push_entry_def Let_def)
  then have push: "quiet (\<lambda>st. Some (True, push_entry act f st))" by (simp add: quiet_def)
  have "quiet (\<lambda>st. do { (ok, st) \<leftarrow> rollback_room st;
             if \<not> ok then Some (False, st)
             else do {
               (trio, st) \<leftarrow> intern_three f st;
               if some_null trio then do { (_, st) \<leftarrow> unintern_three trio st; Some (False, st) }
               else Some (True, push_entry act f st) } })" (is "quiet ?act")
  proof (intro quiet_bind room)
    fix ok
    have "quiet (\<lambda>st. if some_null trio then do { (_, st) \<leftarrow> unintern_three trio st; Some (False, st) }
               else Some (True, push_entry act f st))" for trio
      by (intro quiet_if quiet_bind quiet_return quiet_three push)
    then have "quiet (\<lambda>st. do { (trio, st) \<leftarrow> intern_three f st;
               if some_null trio then do { (_, st) \<leftarrow> unintern_three trio st; Some (False, st) }
               else Some (True, push_entry act f st) })"
      by (intro quiet_bind quiet_three)
    then show "quiet (\<lambda>st. if \<not> ok then Some (False, st)
             else do {
               (trio, st) \<leftarrow> intern_three f st;
               if some_null trio then do { (_, st) \<leftarrow> unintern_three trio st; Some (False, st) }
               else Some (True, push_entry act f st) })"
      by (intro quiet_if quiet_return)
  qed
  then show ?thesis unfolding quiet_def transaction_rollback_push_def by simp
qed

section \<open>The facts of others\<close>

text \<open>The facts in \<open>B\<close> are live and unchanged; the arena is consistent.\<close>

definition kept :: "addr set \<Rightarrow> facts \<Rightarrow> facts \<Rightarrow> bool" where
  "kept B st st' \<longleftrightarrow>
     (arena_ok (db_arena st) \<and> B \<subseteq> arena_live (db_arena st) \<longrightarrow>
      arena_ok (db_arena st') \<and> B \<subseteq> arena_live (db_arena st') \<and> (\<forall>a \<in> B. db_heap st' a = db_heap st a))"

lemma kept_trans: "kept B a b \<Longrightarrow> kept B b c \<Longrightarrow> kept B a c"
  unfolding kept_def by metis

lemma same_memory_kept: "same_memory st st' \<Longrightarrow> kept B st st'"
  by (simp add: kept_def same_memory_def)

lemma kept_upd [simp]:
  "kept B st (st'\<lparr>db_tx := tx\<rparr>) = kept B st st'" "kept B st (st'\<lparr>db_symbols := t\<rparr>) = kept B st st'"
  "kept B st (st'\<lparr>db_mem := h\<rparr>) = kept B st st'" "kept B st (st'\<lparr>db_index := S\<rparr>) = kept B st st'"
  "kept B st (st'\<lparr>db_hexastore := x\<rparr>) = kept B st st'" "kept B st (st'\<lparr>db_log := l\<rparr>) = kept B st st'"
  "kept B (st\<lparr>db_tx := tx\<rparr>) st' = kept B st st'"
  by (simp_all add: kept_def)

lemma update_fact_kept: "a \<notin> B \<Longrightarrow> kept B st (update_fact a u st)"
  by (auto simp: kept_def update_fact_def)

lemma delete_fact_kept:
  assumes "a \<in> arena_live (db_arena st)" "a \<notin> B"
  shows "kept B st (delete_fact a st)"
  using ar.release_live [of "db_arena st" a] assms unfolding kept_def delete_fact_def by auto

lemma new_fact_kept:
  assumes "new_fact s p ob st = (r, st')" "arena_ok (db_arena st)"
  shows "arena_ok (db_arena st')"
    "r = None \<Longrightarrow> arena_live (db_arena st') = arena_live (db_arena st) \<and> db_heap st' = db_heap st"
    "r = Some a \<Longrightarrow> a \<notin> arena_live (db_arena st) \<and> arena_live (db_arena st') = insert a (arena_live (db_arena st)) \<and>
       (\<forall>b. b \<noteq> a \<longrightarrow> db_heap st' b = db_heap st b)"
proof -
  have "arena_ok (db_arena st') \<and>
    (case r of None \<Rightarrow> arena_live (db_arena st') = arena_live (db_arena st) \<and> db_heap st' = db_heap st
     | Some a \<Rightarrow> a \<notin> arena_live (db_arena st) \<and> arena_live (db_arena st') = insert a (arena_live (db_arena st)) \<and>
         (\<forall>b. b \<noteq> a \<longrightarrow> db_heap st' b = db_heap st b))"
  proof (cases rule: arena_alloc_fact_cases [OF assms(2), of "db_mem st", case_names null item])
    case (null A' h')
    have "r = None \<and> st' = st\<lparr>db_arena := A', db_mem := h'\<rparr>" using assms(1) null(1) by (auto simp: new_fact_def)
    with null(3,4) show ?thesis by (elim conjE) simp
  next
    case (item a A' h')
    have "r = Some a \<and> st' = st\<lparr>db_arena := A', db_mem := h', db_heap := (db_heap st)(a := fact_init s p ob)\<rparr>"
      using assms(1) item(1) by (auto simp: new_fact_def)
    with item(2-4) show ?thesis by (elim conjE) simp
  qed
  then show "arena_ok (db_arena st')"
    "r = None \<Longrightarrow> arena_live (db_arena st') = arena_live (db_arena st) \<and> db_heap st' = db_heap st"
    "r = Some a \<Longrightarrow> a \<notin> arena_live (db_arena st) \<and> arena_live (db_arena st') = insert a (arena_live (db_arena st)) \<and>
       (\<forall>b. b \<noteq> a \<longrightarrow> db_heap st' b = db_heap st b)" by simp_all
qed

text \<open>
  An action that is quiet, except that it may give back the fact \<open>a\<close> at its end, and that returns
  nothing else.
\<close>

definition or_delete :: "addr \<Rightarrow> addr option action \<Rightarrow> bool" where
  "or_delete a act \<longleftrightarrow>
     (\<forall>st r st'. act st = Some (r, st') \<longrightarrow>
        (\<exists>st1. same_memory st st1 \<and> (st' = st1 \<or> st' = delete_fact a st1)) \<and> (r = None \<or> r = Some a))"

lemma or_delete_bind:
  assumes "quiet x" "\<And>r. or_delete a (y r)"
  shows "or_delete a (\<lambda>st. do { (r, st) \<leftarrow> x st; y r st })"
  unfolding or_delete_def
proof (intro allI impI)
  fix st r st' assume "do { (r, st) \<leftarrow> x st; y r st } = Some (r, st')"
  then obtain q st1 where "x st = Some (q, st1)" "y q st1 = Some (r, st')" by (auto split: bind_splits)
  with assms obtain st2 where "same_memory st st1" "same_memory st1 st2" "st' = st2 \<or> st' = delete_fact a st2"
    "r = None \<or> r = Some a"
    unfolding or_delete_def by (blast dest: quietD)
  then show "(\<exists>st1. same_memory st st1 \<and> (st' = st1 \<or> st' = delete_fact a st1)) \<and> (r = None \<or> r = Some a)"
    using same_memory_trans by blast
qed

lemma or_delete_return:
  "or_delete a (\<lambda>st. Some (None, st))" "or_delete a (\<lambda>st. Some (Some a, st))" "or_delete a (\<lambda>st. Some (None, delete_fact a st))"
  by (auto simp: or_delete_def intro: same_memory_refl)

lemma or_delete_change:
  assumes "or_delete a act" "\<And>st. same_memory st (u st)"
  shows "or_delete a (\<lambda>st. act (u st))"
  using assms same_memory_trans unfolding or_delete_def by metis

lemma or_delete_result: "or_delete a act \<Longrightarrow> act st = Some (r, st') \<Longrightarrow> r = None \<or> r = Some a"
  by (simp add: or_delete_def)

lemma or_delete_kept:
  assumes "or_delete a act" "act st = Some (r, st')" "a \<in> arena_live (db_arena st)" "a \<notin> B"
  shows "kept B st st'"
proof -
  from assms(1,2) obtain st1 where 1: "same_memory st st1" "st' = st1 \<or> st' = delete_fact a st1"
    unfolding or_delete_def by blast
  then have "a \<in> arena_live (db_arena st1)" using assms(3) by (simp add: same_memory_def)
  with 1 assms(4) show ?thesis
    using kept_trans [OF same_memory_kept [OF 1(1)] delete_fact_kept] same_memory_kept by blast
qed

lemma or_delete_if: "(c \<Longrightarrow> or_delete a x) \<Longrightarrow> (\<not> c \<Longrightarrow> or_delete a y) \<Longrightarrow> or_delete a (\<lambda>st. if c then x st else y st)"
  by (cases c) simp_all

lemmas or_delete_intros = or_delete_bind or_delete_return

text \<open>What follows the allocation in \<open>facts_insert_fact_copy\<close>.\<close>

lemma insert_rest:
  "or_delete a (\<lambda>st. do { (_, st) \<leftarrow> unintern_fact nf (hexa_remove nf st); Some (None, delete_fact a st) })"
  "or_delete a (\<lambda>st. do { (_, st) \<leftarrow> index_remove i st; (_, st) \<leftarrow> unintern_fact nf (hexa_remove nf st);
                         Some (None, delete_fact a st) })"
proof -
  have u: "or_delete a (\<lambda>st. do { (_, st) \<leftarrow> unintern_fact nf st; Some (None, delete_fact a st) })"
    by (intro or_delete_intros quiet_three)
  have h: "same_memory st (hexa_remove nf st)" for st by (simp add: hexa_remove_def)
  show 1: "or_delete a (\<lambda>st. do { (_, st) \<leftarrow> unintern_fact nf (hexa_remove nf st); Some (None, delete_fact a st) })"
    by (rule or_delete_change [OF u h])
  show "or_delete a (\<lambda>st. do { (_, st) \<leftarrow> index_remove i st; (_, st) \<leftarrow> unintern_fact nf (hexa_remove nf st);
                         Some (None, delete_fact a st) })"
    by (intro or_delete_bind quiet_index 1)
qed

lemma insert_indexed_rest:
  "or_delete a (\<lambda>st. do {
     (index_item, st) \<leftarrow> index_add a st;
     case index_item of
       None \<Rightarrow> do { (_, st) \<leftarrow> unintern_fact nf (hexa_remove nf st); Some (None, delete_fact a st) }
     | Some i \<Rightarrow>
         if rr then do {
           (ok, st) \<leftarrow> transaction_rollback_push ROLLBACK_REMOVE nf st;
           if ok then Some (Some a, st)
           else do {
             (_, st) \<leftarrow> index_remove i st;
             (_, st) \<leftarrow> unintern_fact nf (hexa_remove nf st);
             Some (None, delete_fact a st) } }
         else Some (Some a, st) })" (is "or_delete a (\<lambda>st. do { (item, st) \<leftarrow> index_add a st; ?rest item st })")
proof (intro or_delete_bind quiet_index)
  fix item
  have "or_delete a (\<lambda>st. if ok then Some (Some a, st)
           else do {
             (_, st) \<leftarrow> index_remove i st;
             (_, st) \<leftarrow> unintern_fact nf (hexa_remove nf st);
             Some (None, delete_fact a st) })" for ok i
    by (intro or_delete_if insert_rest or_delete_return)
  then have "or_delete a (\<lambda>st. do {
           (ok, st) \<leftarrow> transaction_rollback_push ROLLBACK_REMOVE nf st;
           if ok then Some (Some a, st)
           else do {
             (_, st) \<leftarrow> index_remove i st;
             (_, st) \<leftarrow> unintern_fact nf (hexa_remove nf st);
             Some (None, delete_fact a st) } })" for i
    by (intro or_delete_bind quiet_push)
  then show "or_delete a (?rest item)"
    by (cases item; cases rr) (simp_all add: insert_rest or_delete_return)
qed

lemma insert_tail:
  assumes "or_delete a rest"
  shows "or_delete a (\<lambda>st. do {
     (trio, st) \<leftarrow> intern_three nf st;
     if some_null trio then do { (_, st) \<leftarrow> unintern_three trio st; Some (None, delete_fact a st) }
     else (case hexastore_insert (db_hexastore st) a nf (db_mem st) of
       (r, x, h) \<Rightarrow>
         (let st = st\<lparr>db_hexastore := x, db_mem := h\<rparr> in
          if r \<noteq> 0 then do { (_, st) \<leftarrow> unintern_fact nf st; Some (None, delete_fact a st) }
          else rest st)) })"
proof (intro or_delete_bind quiet_three)
  fix trio
  have n: "or_delete a (\<lambda>st. do { (_, st) \<leftarrow> unintern_three trio st; Some (None, delete_fact a st) })"
    "or_delete a (\<lambda>st. do { (_, st) \<leftarrow> unintern_fact nf st; Some (None, delete_fact a st) })"
    by (intro or_delete_intros quiet_three)+
  have "or_delete a (\<lambda>st. case hexastore_insert (db_hexastore st) a nf (db_mem st) of
       (r, x, h) \<Rightarrow>
         (let st = st\<lparr>db_hexastore := x, db_mem := h\<rparr> in
          if r \<noteq> 0 then do { (_, st) \<leftarrow> unintern_fact nf st; Some (None, delete_fact a st) }
          else rest st))"
    unfolding or_delete_def
  proof (intro allI impI)
    fix st :: facts and q st'
    obtain r x h where hx: "hexastore_insert (db_hexastore st) a nf (db_mem st) = (r, x, h)" by (metis prod_cases3)
    assume "(case hexastore_insert (db_hexastore st) a nf (db_mem st) of
       (r, x, h) \<Rightarrow>
         (let st = st\<lparr>db_hexastore := x, db_mem := h\<rparr> in
          if r \<noteq> 0 then do { (_, st) \<leftarrow> unintern_fact nf st; Some (None, delete_fact a st) }
          else rest st)) = Some (q, st')"
    moreover have "or_delete a (\<lambda>st. if r \<noteq> 0 then do { (_, st) \<leftarrow> unintern_fact nf st; Some (None, delete_fact a st) } else rest st)"
      by (intro or_delete_if n(2) assms)
    ultimately obtain st1 where "same_memory (st\<lparr>db_hexastore := x, db_mem := h\<rparr>) st1" "st' = st1 \<or> st' = delete_fact a st1"
      "q = None \<or> q = Some a"
      unfolding hx prod.case Let_def or_delete_def by blast
    then show "(\<exists>st1. same_memory st st1 \<and> (st' = st1 \<or> st' = delete_fact a st1)) \<and> (q = None \<or> q = Some a)" by auto
  qed
  with n(1) show "or_delete a (\<lambda>st. if some_null trio then do { (_, st) \<leftarrow> unintern_three trio st; Some (None, delete_fact a st) }
     else (case hexastore_insert (db_hexastore st) a nf (db_mem st) of
       (r, x, h) \<Rightarrow>
         (let st = st\<lparr>db_hexastore := x, db_mem := h\<rparr> in
          if r \<noteq> 0 then do { (_, st) \<leftarrow> unintern_fact nf st; Some (None, delete_fact a st) }
          else rest st)))"
    by (intro or_delete_if)
qed

lemmas insert_all = insert_tail [OF insert_indexed_rest]

lemma insert_copy_kept:
  assumes run: "facts_insert_fact_copy f rr st = Some (r, st')"
  shows "kept B st st'"
proof (cases "arena_ok (db_arena st) \<and> B \<subseteq> arena_live (db_arena st)")
  case True
  obtain n st1 where n: "new_fact (f_s f) (f_p f) (f_o f) st = (n, st1)" by (cases "new_fact (f_s f) (f_p f) (f_o f) st")
  note nk = new_fact_kept [OF n conjunct1 [OF True]]
  show ?thesis
  proof (cases n)
    case None
    with run n nk(1,2) show ?thesis by (auto simp: facts_insert_fact_copy_def kept_def)
  next
    case (Some a)
    note a = nk(3) [OF this]
    have aB: "a \<notin> B" using a True by auto
    let ?st2 = "st1\<lparr>db_heap := (db_heap st1)(a := insert_copy_of f)\<rparr>"
    have "kept B st ?st2" using a aB nk(1) True by (auto simp: kept_def)
    moreover have "kept B ?st2 st'"
      by (rule or_delete_kept [OF insert_all [where a = a and nf = "insert_copy_of f" and rr = rr], where st = ?st2 and r = r])
        (use run n Some a aB in \<open>simp_all add: facts_insert_fact_copy_def Let_def\<close>)
    ultimately show ?thesis by (rule kept_trans)
  qed
qed (auto simp: kept_def)

text \<open>The fact that was inserted was free before.\<close>

lemma insert_copy_fresh:
  assumes run: "facts_insert_fact_copy f rr st = Some (Some a, st')" and ok: "arena_ok (db_arena st)"
  shows "a \<notin> arena_live (db_arena st)"
proof -
  obtain n st1 where n: "new_fact (f_s f) (f_p f) (f_o f) st = (n, st1)" by (cases "new_fact (f_s f) (f_p f) (f_o f) st")
  with run obtain b where b: "n = Some b" by (cases n) (simp_all add: facts_insert_fact_copy_def)
  have "a = b"
    using or_delete_result [OF insert_all [where a = b and nf = "insert_copy_of f" and rr = rr],
        where st = "st1\<lparr>db_heap := (db_heap st1)(b := insert_copy_of f)\<rparr>" and r = "Some a" and st' = st'] run n b
    by (simp add: facts_insert_fact_copy_def Let_def)
  then show ?thesis using new_fact_kept(3) [OF n ok, of b] b by simp
qed

section \<open>Adding and removing support\<close>

lemma writer_run:
  assumes "with_writer act st = Some (r, st')"
  obtains tx st1 tx' where "act (st\<lparr>db_tx := tx\<rparr>) = Some (r, st1)" "st' = st1\<lparr>db_tx := tx'\<rparr>"
  using assms by (auto simp: with_writer_def split: bind_splits prod.splits)

lemma store_ok_tx [simp]: "store_ok (st\<lparr>db_tx := tx\<rparr>) = store_ok st" "stored (st\<lparr>db_tx := tx\<rparr>) = stored st"
  by (simp_all add: store_ok_def stored_def)

lemma intern_store:
  assumes "facts_intern s st = Some (y, st')"
  shows "same_memory st st'" "store_ok st' = store_ok st" "stored st' = stored st"
proof -
  show "same_memory st st'" by (rule quietD [OF quiet_intern assms])
  from assms have "db_index st' = db_index st \<and> db_hexastore st' = db_hexastore st"
    by (auto simp: facts_intern_def elim!: writer_run split: prod.splits)
  with \<open>same_memory st st'\<close> show "store_ok st' = store_ok st" "stored st' = stored st"
    by (simp_all add: store_ok_def stored_def same_memory_def)
qed

definition add_fact_act :: "fact \<Rightarrow> e_fact_origin \<Rightarrow> addr option action" where
  "add_fact_act f og st =
     do { si \<leftarrow> index_get (fact_key f) st;
          case si of
            Some (i, found) \<Rightarrow>
              if support_of og (db_heap st found) = 0 then do {
                (ok, st) \<leftarrow> transaction_rollback_push ROLLBACK_STATE (db_heap st found) st;
                if \<not> ok then Some (None, st)
                else do {
                  (_, st) \<leftarrow> log_asserted og ''add'' (db_heap st found) st;
                  Some (Some found, update_fact found (set_support og 1) st)
                }
              }
              else Some (Some found, st)
          | None \<Rightarrow> do {
              (new, st) \<leftarrow> facts_insert_fact_copy (fact_set_origin og f) True st;
              case new of
                None \<Rightarrow> Some (None, st)
              | Some a \<Rightarrow> do { (_, st) \<leftarrow> log_asserted og ''add'' (db_heap st a) st; Some (Some a, st) }
            } }"

lemma add_fact_origin_writer: "facts_add_fact_origin f og = with_writer (add_fact_act f og)"
  unfolding facts_add_fact_origin_def add_fact_act_def [abs_def] ..

lemma add_fact_origin_kept:
  assumes run: "facts_add_fact_origin f og st = Some (r, st')" and ok: "store_ok st" and B: "B \<inter> stored st = {}"
  shows "kept B st st'"
proof -
  have inner: "kept B st0 st1" if ok0: "store_ok st0" and st0: "stored st0 = stored st" and act: "add_fact_act f og st0 = Some (r, st1)" for st0 st1
  proof (cases rule: index_get_cases [OF ok0, of "fact_key f", case_names absent found])
    case absent
    with act obtain new st2 where new: "facts_insert_fact_copy (fact_set_origin og f) True st0 = Some (new, st2)"
      "(case new of None \<Rightarrow> Some (None, st2)
        | Some a \<Rightarrow> do { (_, st) \<leftarrow> log_asserted og ''add'' (db_heap st2 a) st2; Some (Some a, st) }) = Some (r, st1)"
      by (auto simp: add_fact_act_def split: bind_splits)
    have "same_memory st2 st1"
      using new(2) by (auto split: option.splits bind_splits dest: quietD [OF quiet_log(2)])
    then show ?thesis using kept_trans [OF insert_copy_kept [OF new(1)]] same_memory_kept by blast
  next
    case (found i a)
    have a: "a \<notin> B" using found(2) st0 B by auto
    show ?thesis
    proof (cases "support_of og (db_heap st0 a) = 0")
      case False
      with act found(1) show ?thesis by (simp add: add_fact_act_def same_memory_kept)
    next
      case True
      with act found(1) obtain b st2 where b: "transaction_rollback_push ROLLBACK_STATE (db_heap st0 a) st0 = Some (b, st2)"
        "(if \<not> b then Some (None, st2)
          else do { (_, st) \<leftarrow> log_asserted og ''add'' (db_heap st2 a) st2;
                    Some (Some a, update_fact a (set_support og 1) st) }) = Some (r, st1)"
        by (auto simp: add_fact_act_def split: bind_splits)
      note m2 = quietD [OF quiet_push b(1)]
      show ?thesis
      proof (cases b)
        case False
        with b(2) m2 show ?thesis by (simp add: same_memory_kept)
      next
        case True
        with b(2) obtain st3 where 3: "log_asserted og ''add'' (db_heap st2 a) st2 = Some ((), st3)"
          "st1 = update_fact a (set_support og 1) st3" by (auto split: bind_splits)
        have "same_memory st0 st3" by (rule same_memory_trans [OF m2 quietD [OF quiet_log(2) 3(1)]])
        then show ?thesis unfolding 3(2) using kept_trans [OF same_memory_kept update_fact_kept [OF a]] by blast
      qed
    qed
  qed
  from run obtain tx st1 tx' where "add_fact_act f og (st\<lparr>db_tx := tx\<rparr>) = Some (r, st1)" "st' = st1\<lparr>db_tx := tx'\<rparr>"
    unfolding add_fact_origin_writer by (rule writer_run)
  with inner [of "st\<lparr>db_tx := tx\<rparr>" st1] ok show ?thesis by simp
qed

lemma add_fact_origin_fresh:
  assumes run: "facts_add_fact_origin f og st = Some (Some a, st')" and ok: "store_ok st"
  shows "a \<in> stored st \<or> a \<notin> arena_live (db_arena st)"
proof -
  from run obtain tx st1 where act: "add_fact_act f og (st\<lparr>db_tx := tx\<rparr>) = Some (Some a, st1)"
    unfolding add_fact_origin_writer by (rule writer_run)
  have ok0: "store_ok (st\<lparr>db_tx := tx\<rparr>)" using ok by simp
  show ?thesis
  proof (cases rule: index_get_cases [OF ok0, of "fact_key f", case_names absent found])
    case absent
    with act obtain st2 where "facts_insert_fact_copy (fact_set_origin og f) True (st\<lparr>db_tx := tx\<rparr>) = Some (Some a, st2)"
      unfolding add_fact_act_def by (auto split: bind_splits option.splits)
    from insert_copy_fresh [OF this] store_okD(3) [OF ok] show ?thesis by simp
  next
    case (found i b)
    with act have "a = b" unfolding add_fact_act_def by (auto split: bind_splits if_splits)
    with found(2) show ?thesis by simp
  qed
qed

lemma add_spo_origin_kept:
  assumes run: "facts_add_spo_origin s p ob og st = Some (r, st')" and ok: "store_ok st" and B: "B \<inter> stored st = {}"
  shows "kept B st st'" "r = Some a \<Longrightarrow> a \<in> stored st \<or> a \<notin> arena_live (db_arena st)"
proof -
  from run obtain y1 st1 y2 st2 y3 st3 where
    i: "facts_intern s st = Some (y1, st1)" "facts_intern p st1 = Some (y2, st2)" "facts_intern ob st2 = Some (y3, st3)" and
    rest: "(if some_null (y1, y2, y3)
          then do { (_, st) \<leftarrow> unintern_three (y1, y2, y3) st3; Some (None, st) }
          else do {
            (ret, st) \<leftarrow> facts_add_fact_origin (fact_set_origin og (fact_init y1 y2 y3)) og st3;
            (_, st) \<leftarrow> unintern_fact (fact_init y1 y2 y3) st;
            Some (ret, st) }) = Some (r, st')"
    by (auto simp: facts_add_spo_origin_def split: bind_splits)
  have m: "same_memory st st3" "store_ok st3" "stored st3 = stored st"
    using intern_store [OF i(1)] intern_store [OF i(2)] intern_store [OF i(3)] ok same_memory_trans by (blast, simp_all)
  have "kept B st3 st'"
  proof (cases "some_null (y1, y2, y3)")
    case True
    with rest show ?thesis by (auto split: bind_splits dest: quietD [OF quiet_three(2)] intro: same_memory_kept)
  next
    case False
    with rest obtain st4 where 4: "facts_add_fact_origin (fact_set_origin og (fact_init y1 y2 y3)) og st3 = Some (r, st4)"
      "unintern_fact (fact_init y1 y2 y3) st4 = Some ((), st')" by (auto split: bind_splits)
    show ?thesis
      by (rule kept_trans [OF add_fact_origin_kept [OF 4(1) m(2)] same_memory_kept [OF quietD [OF quiet_three(3) 4(2)]]])
        (use m(3) B in simp)
  qed
  then show "kept B st st'" by (rule kept_trans [OF same_memory_kept [OF m(1)]])
  assume "r = Some a"
  with rest obtain st4 where "facts_add_fact_origin (fact_set_origin og (fact_init y1 y2 y3)) og st3 = Some (Some a, st4)"
    by (auto split: bind_splits if_splits)
  from add_fact_origin_fresh [OF this m(2)] m(1,3) show "a \<in> stored st \<or> a \<notin> arena_live (db_arena st)"
    by (simp add: same_memory_def)
qed

lemma remove_found_kept:
  assumes run: "facts_remove_found i a st = Some (r, st')" and a: "a \<in> arena_live (db_arena st)" "a \<notin> B"
  shows "kept B st st'"
proof -
  from run obtain st1 st2 where 1: "index_remove i st = Some ((), st1)"
    "unintern_fact (db_heap st a) (hexa_remove (db_heap st a) st1) = Some ((), st2)" "st' = delete_fact a st2"
    using facts_remove_found_unfold [of i a st st'] by (metis (full_types) unit_eq)
  have "same_memory st1 st2" using quietD [OF quiet_three(3) 1(2)] by (simp add: hexa_remove_def)
  with quietD [OF quiet_index(2) 1(1)] have m: "same_memory st st2" by (rule same_memory_trans)
  then have "a \<in> arena_live (db_arena st2)" using a(1) by (simp add: same_memory_def)
  then show ?thesis unfolding 1(3) using kept_trans [OF same_memory_kept [OF m] delete_fact_kept] a(2) by blast
qed

lemma remove_fact_origin_kept:
  assumes run: "facts_remove_fact_origin f og st = Some (r, st')" and ok: "store_ok st" and B: "B \<inter> stored st = {}"
  shows "kept B st st'"
proof -
  let ?act = "\<lambda>st. do { si \<leftarrow> index_get (fact_key f) st;
          case si of
            None \<Rightarrow> Some (0, st)
          | Some (i, found) \<Rightarrow>
              (let ff = db_heap st found in
               if support_of og ff = 0 then Some (0, st)
               else
                 (let act = (if asserted_count ff + derived_count ff > 1 then ROLLBACK_STATE else ROLLBACK_ADD)
                  in do {
                    (ok, st) \<leftarrow> transaction_rollback_push act ff st;
                    if \<not> ok then Some (- 1, st)
                    else do {
                      (_, st) \<leftarrow> log_asserted og ''remove'' ff st;
                      if act = ROLLBACK_STATE then Some (1, update_fact found (set_support og 0) st)
                      else do { (_, st) \<leftarrow> facts_remove_found i found st; Some (1, st) }
                    }
                  })) }"
  have inner: "kept B st0 st1" if ok0: "store_ok st0" and st0: "stored st0 = stored st" and act: "?act st0 = Some (r, st1)" for st0 st1
  proof (cases rule: index_get_cases [OF ok0, of "fact_key f", case_names absent found])
    case absent
    with act show ?thesis by (simp add: same_memory_kept)
  next
    case (found i a)
    have a: "a \<notin> B" "a \<in> arena_live (db_arena st0)" using found(2) st0 B store_okD(4) [OF ok0] by auto
    let ?ff = "db_heap st0 a"
    define b where "b = (if asserted_count ?ff + derived_count ?ff > 1 then ROLLBACK_STATE else ROLLBACK_ADD)"
    show ?thesis
    proof (cases "support_of og ?ff = 0")
      case True
      with act found(1) show ?thesis by (simp add: same_memory_kept)
    next
      case False
      have "do { (ok2, st2) \<leftarrow> transaction_rollback_push b ?ff st0;
          if \<not> ok2 then Some (- 1, st2)
          else do { (_, st) \<leftarrow> log_asserted og ''remove'' ?ff st2;
                    if b = ROLLBACK_STATE then Some (1, update_fact a (set_support og 0) st)
                    else do { (_, st) \<leftarrow> facts_remove_found i a st; Some (1, st) } } } = Some (r, st1)"
        using act found(1) False unfolding b_def Let_def by simp
      then obtain ok2 st2 where 2: "transaction_rollback_push b ?ff st0 = Some (ok2, st2)"
        "(if \<not> ok2 then Some (- 1, st2)
          else do { (_, st) \<leftarrow> log_asserted og ''remove'' ?ff st2;
                    if b = ROLLBACK_STATE then Some (1, update_fact a (set_support og 0) st)
                    else do { (_, st) \<leftarrow> facts_remove_found i a st; Some (1, st) } }) = Some (r, st1)"
        by (cases "transaction_rollback_push b ?ff st0") auto
      note m2 = quietD [OF quiet_push 2(1)]
      show ?thesis
      proof (cases ok2)
        case False
        with 2(2) m2 show ?thesis by (simp add: same_memory_kept)
      next
        case True
        with 2(2) obtain st3 where 3: "log_asserted og ''remove'' ?ff st2 = Some ((), st3)"
          "(if b = ROLLBACK_STATE then Some (1, update_fact a (set_support og 0) st3)
            else do { (_, st) \<leftarrow> facts_remove_found i a st3; Some (1, st) }) = Some (r, st1)"
          by (auto split: bind_splits)
        have m3: "same_memory st0 st3" by (rule same_memory_trans [OF m2 quietD [OF quiet_log(2) 3(1)]])
        then have "a \<in> arena_live (db_arena st3)" using a(2) by (simp add: same_memory_def)
        with 3(2) have "kept B st3 st1"
          using update_fact_kept [OF a(1)] remove_found_kept [OF _ _ a(1)]
          by (auto split: if_splits bind_splits)
        then show ?thesis by (rule kept_trans [OF same_memory_kept [OF m3]])
      qed
    qed
  qed
  from run obtain tx st1 tx' where "?act (st\<lparr>db_tx := tx\<rparr>) = Some (r, st1)" "st' = st1\<lparr>db_tx := tx'\<rparr>"
    unfolding facts_remove_fact_origin_def by (rule writer_run)
  with inner [of "st\<lparr>db_tx := tx\<rparr>" st1] ok show ?thesis by simp
qed

end
