(* ===== verification/Facts_Reset.thy ===== *)
theory Facts_Reset
  imports Facts_Init Facts_Frame
begin

text \<open>
  Resetting a scratch database and destroying it: every fact is visited once, its references are
  given back, and what is left is an empty database, or nothing.
\<close>

section \<open>Visiting all facts\<close>

lemma cursor_items_eq:
  assumes "cur_count c + length (occ_slots S (cur_i c)) = set_count S"
  shows "cursor_items S c = map (\<lambda>i. it_data (set_items S ! i)) (occ_slots S (cur_i c))"
  using assms
proof (induction S c rule: cursor_items.induct)
  case (1 S c)
  show ?case
  proof (cases "occ_slots S (cur_i c)")
    case Nil
    with 1(2) show ?thesis by (subst cursor_items.simps) (simp add: set_cursor_next_def)
  next
    case (Cons j js)
    have js: "js = occ_slots S (Suc j)" by (rule occ_slots_step [OF Cons])
    let ?c = "c\<lparr>cur_i := j + 1, cur_count := cur_count c + 1\<rparr>"
    have n: "set_cursor_next S c = (Some j, ?c)"
      using 1(2) Cons by (simp add: set_cursor_next_def cursor_scan_eq)
    have "cursor_items S ?c = map (\<lambda>i. it_data (set_items S ! i)) js"
      using 1(1) [OF n [symmetric] refl] 1(2) Cons js by simp
    then show ?thesis using n Cons by (subst cursor_items.simps) simp
  qed
qed

lemma cursor_items_ptr:
  assumes inv: "ptr_inv reader hf len S"
  obtains as where "cursor_items S set_cursor_init = map Some as" "distinct as" "set as = ptr_elems S"
proof -
  have sinv: "set_inv reader S" using inv by (simp add: ptr_inv_def)
  note simps = set_inv_simps [OF sinv]
  have len: "length (occ_slots S 0) = set_count S" using length_occ_slots [of S] simps(1,4) by simp
  define as where "as = map (\<lambda>i. the (it_data (set_items S ! i))) (occ_slots S 0)"
  have data: "\<exists>d. it_data (set_items S ! i) = Some d \<and> d \<in> ptr_elems S" if "i \<in> set (occ_slots S 0)" for i
  proof -
    have it: "set_items S ! i \<in># set_content S" using that simps(1) by (auto simp: occ_slots_def set_content_def mem_occ_items)
    from ptr_item [OF inv this] it show ?thesis by (metis (mono_tags, lifting) mem_Collect_eq ptr_elems_def)
  qed
  have items: "cursor_items S set_cursor_init = map Some as"
    using cursor_items_eq [of set_cursor_init S] len data by (force simp: set_cursor_init_def as_def)
  have "ptr_elems S \<subseteq> set as"
  proof
    fix d assume "d \<in> ptr_elems S"
    then obtain it where "it \<in># set_content S" "it_data it = Some d" by (auto simp: ptr_elems_def)
    then obtain i where "i < length (set_items S)" "occ (set_items S ! i)" "it_data (set_items S ! i) = Some d"
      unfolding set_content_def mem_occ_items by blast
    then show "d \<in> set as" using simps(1) by (force simp: as_def occ_slots_def)
  qed
  moreover have "set as \<subseteq> ptr_elems S" using data by (force simp: as_def)
  ultimately have set: "set as = ptr_elems S" by blast
  have "length as = card (set as)" using set card_ptr_elems [OF inv] len by (simp add: as_def)
  then have "distinct as" by (simp add: card_distinct)
  with items set show thesis by (intro that)
qed

section \<open>Giving the references back\<close>

lemma unstring_step:
  assumes "symbols_ok (add_mset y X) t"
  obtains t' where "intern_unstring t y = Some t'" "symbols_ok X t'"
proof -
  have d: "intern_ok t" "\<And>z. held t z = count (add_mset y X) z" "\<And>z. z \<in># X \<Longrightarrow> length (sym_data z) \<le> MAX_STRING"
    using symbols_okD [OF assms] by auto
  have "0 < held t y" using d(2) by simp
  from intern_unstring_held [OF d(1) this] obtain t' where "intern_unstring t y = Some t'" "intern_ok t'"
    "held t' = (held t)(y := held t y - 1)" .
  with d that show thesis by (auto simp: symbols_ok_def)
qed

lemma unstring_fact_ok:
  assumes "symbols_ok (fsyms f + X) t"
  obtains t' where "unstring_fact f t = Some t'" "symbols_ok X t'"
proof -
  from assms have "symbols_ok (add_mset (f_s f) (add_mset (f_p f) (add_mset (f_o f) X))) t"
    by (simp add: fsyms_def add_mset_commute)
  then obtain t1 where 1: "intern_unstring t (f_s f) = Some t1" "symbols_ok (add_mset (f_p f) (add_mset (f_o f) X)) t1"
    by (rule unstring_step)
  from unstring_step [OF 1(2)] obtain t2 where 2: "intern_unstring t1 (f_p f) = Some t2" "symbols_ok (add_mset (f_o f) X) t2" .
  from unstring_step [OF 2(2)] obtain t3 where "intern_unstring t2 (f_o f) = Some t3" "symbols_ok X t3" .
  with 1 2 show thesis by (intro that [of t3]) (simp_all add: unstring_fact_def)
qed

abbreviation list_claims :: "(addr \<Rightarrow> fact) \<Rightarrow> addr list \<Rightarrow> symbol multiset" where
  "list_claims hp as \<equiv> sum_list (map (\<lambda>a. fsyms (hp a)) as)"

lemma unstring_facts_ok:
  assumes "symbols_ok (list_claims hp as + X) t"
  obtains t' where "unstring_facts hp (map Some as) t = Some t'" "symbols_ok X t'"
proof -
  have "\<exists>t'. unstring_facts hp (map Some as) t = Some t' \<and> symbols_ok X t'"
    using assms
  proof (induction as arbitrary: t)
    case (Cons a as)
    then have "symbols_ok (fsyms (hp a) + (list_claims hp as + X)) t" by (simp add: ac_simps)
    then obtain t1 where "unstring_fact (hp a) t = Some t1" "symbols_ok (list_claims hp as + X) t1" by (rule unstring_fact_ok)
    with Cons.IH [of t1] show ?case by simp
  qed simp
  with that show thesis by blast
qed

lemma release_facts_ok:
  assumes "symbols_ok (list_claims hp as + X) t" "arena_ok A" "set as \<subseteq> arena_live A" "distinct as"
  obtains t' A' where "release_facts hp (map Some as) t A = Some (t', A')" "symbols_ok X t'" "arena_ok A'"
    "arena_live A' = arena_live A - set as" "ref_count A' = ref_count A"
proof -
  have "\<exists>t' A'. release_facts hp (map Some as) t A = Some (t', A') \<and> symbols_ok X t' \<and> arena_ok A' \<and>
    arena_live A' = arena_live A - set as \<and> ref_count A' = ref_count A"
    using assms
  proof (induction as arbitrary: t A)
    case (Cons a as)
    from Cons.prems(1) have "symbols_ok (fsyms (hp a) + (list_claims hp as + X)) t" by (simp add: ac_simps)
    then obtain t1 where 1: "unstring_fact (hp a) t = Some t1" "symbols_ok (list_claims hp as + X) t1" by (rule unstring_fact_ok)
    have r: "arena_ok (arena_free_fact A (Some a))" "arena_live (arena_free_fact A (Some a)) = arena_live A - {a}"
      "ref_count (arena_free_fact A (Some a)) = ref_count A"
      using ar.release_live [of A a] Cons.prems(2,3) by (simp_all add: arena_free_fact_def)
    have "set as \<subseteq> arena_live (arena_free_fact A (Some a))" using Cons.prems(3,4) r(2) by auto
    from Cons.IH [OF 1(2) r(1) this] Cons.prems(4) obtain t' A' where
      "release_facts hp (map Some as) t1 (arena_free_fact A (Some a)) = Some (t', A')" "symbols_ok X t'" "arena_ok A'"
      "arena_live A' = arena_live (arena_free_fact A (Some a)) - set as" "ref_count A' = ref_count (arena_free_fact A (Some a))"
      by auto
    with 1 r show ?case by auto
  qed simp
  with that show thesis by blast
qed

lemma claims_list: "distinct as \<Longrightarrow> set as = stored st \<Longrightarrow> list_claims (db_heap st) as = fact_claims st"
  by (simp add: fact_claims_def sum_list_distinct_conv_sum_set flip: sum.distinct_set_conv_list)

section \<open>Reset\<close>

lemma reset_local_ok:
  assumes ok: "db_ok X st" and tx: "tx_owned (db_tx st)" "tx_level (db_tx st) = 0" "entries st = []"
    and shared: "\<not> db_symbols_delete st" and mx: "2 \<le> set_max (db_index st)"
  obtains (failed) h where "facts_reset_local_db st = Some (- 1, st\<lparr>db_mem := h\<rparr>)"
  | (reset) st' where "facts_reset_local_db st = Some (0, st')" "db_ok X st'" "stored st' = {}" "db_heap st' = db_heap st"
      "arena_ok (db_arena st')" "arena_live (db_arena st') = arena_live (db_arena st) - stored st"
      "ref_count (db_arena st') = ref_count (db_arena st)" "db_tx st' = db_tx st" "\<not> db_symbols_delete st'"
      "set_max (db_index st') = set_max (db_index st)" "db_log st' = db_log st" "db_rng st' = db_rng st"
      "set_hash (db_index st') = set_hash (db_index st)" "db_staging st' = None"
proof -
  have go: "facts_reset_local_db st = reset_body st"
    using tx by (simp add: facts_reset_local_db_def transaction_writer_owned_def)
  have sok: "store_ok st" using ok by (simp add: db_ok_def)
  note d = store_okD [OF sok]
  obtain R h where r: "replacements st = (R, h)" by (cases "replacements st")
  show thesis
  proof (cases R)
    case None
    with r go show ?thesis by (intro failed [of h]) (simp add: reset_body_def)
  next
    case (Some q)
    obtain S x j sy where q: "q = (S, x, j, sy)" by (metis prod_cases4)
    from r Some q shared obtain h1 h2 where S: "set_init_checked (set_hash (db_index st)) (set_max (db_index st))
             (set_zero (set_hash (db_index st))) (db_mem st) = (0, S, h1)" and x: "new_hexastore h1 = (Some x, h2)" and sy: "sy = None"
      by (auto simp: replacements_def split: prod.splits option.splits if_splits)
    from cursor_items_ptr [OF d(1)] obtain as where as: "cursor_items (db_index st) set_cursor_init = map Some as"
      "distinct as" "set as = stored st" unfolding stored_def .
    have "symbols_ok (list_claims (db_heap st) as + X) (db_symbols st)"
      using db_ok_table [OF ok] claims_list [OF as(2,3)] tx(3) by (simp add: entry_claims_def)
    then obtain t A where t: "release_facts (db_heap st) (map Some as) (db_symbols st) (db_arena st) = Some (t, A)"
      "symbols_ok X t" "arena_ok A" "arena_live A = arena_live (db_arena st) - set as" "ref_count A = ref_count (db_arena st)"
      using release_facts_ok d(3,4) as(2,3) by metis
    let ?st = "st\<lparr>db_mem := h, db_justifications := j, db_staging := None, db_arena := A, db_hexastore := x,
        db_index := S, db_symbols := t\<rparr>"
    have run: "facts_reset_local_db st = Some (0, ?st)"
      by (simp add: go reset_body_def r Some q sy as(1) t(1))
    note S0 = set_init_ok [OF S mx]
    have SS: "set_max S = set_max (db_index st)" "set_hash S = set_hash (db_index st)"
      using S by (auto simp: set_init_checked_def split: if_splits prod.splits bool.splits)
    have sto: "stored ?st = {}" using S0(2) by (simp add: stored_def)
    have "store_ok ?st" using S0(1) SS sto new_hexastore_ok [OF x] t(3) by (simp add: store_ok_def)
    then have "db_ok X ?st" using t(2) sto tx(3) by (simp add: db_ok_def fact_claims_def entry_claims_def)
    with run sto SS t as(3) shared show ?thesis by (intro reset [of ?st]) simp_all
  qed
qed

section \<open>Destruction\<close>

lemma destroy_ok:
  assumes ok: "db_ok X st" and tx: "\<not> tx_owned (db_tx st)" "tx_level (db_tx st) = 0" "entries st = []"
    and shared: "\<not> db_symbols_delete st" and rc: "ref_count (db_arena st) > 1"
  obtains t A where "facts_destroy st = Some (Some t, A)" "symbols_ok X t" "arena_ok A" "arena_live A = arena_live (db_arena st)"
    "ref_count A = ref_count (db_arena st) - 1"
proof -
  have sok: "store_ok st" using ok by (simp add: db_ok_def)
  note d = store_okD [OF sok]
  from cursor_items_ptr [OF d(1)] obtain as where as: "cursor_items (db_index st) set_cursor_init = map Some as"
    "distinct as" "set as = stored st" unfolding stored_def .
  have "symbols_ok (list_claims (db_heap st) as + X) (db_symbols st)"
    using db_ok_table [OF ok] claims_list [OF as(2,3)] tx(3) by (simp add: entry_claims_def)
  then obtain t where t: "unstring_facts (db_heap st) (map Some as) (db_symbols st) = Some t" "symbols_ok X t"
    by (rule unstring_facts_ok)
  let ?A = "arena_destroy (db_arena st)"
  have "facts_destroy st = Some (Some t, ?A)"
    using tx shared by (simp add: facts_destroy_def as(1) t(1) transaction_destroy_def)
  moreover have "arena_ok ?A" "arena_live ?A = arena_live (db_arena st)" "ref_count ?A = ref_count (db_arena st) - 1"
    using rc d(3) by (simp_all add: arena_destroy_def Let_def arena_ok_def arena_live_def)
  ultimately show thesis using t(2) by (intro that)
qed

end
