(* ===== verification/Workspace_Inv.thy ===== *)
theory Workspace_Inv
  imports Workspace Facts_Reset
begin

text \<open>
  The invariant of the databases of an evaluation: each is consistent when the others hold the
  references they hold, their facts are different, and what is done with one of them leaves the
  contents of the others alone.
\<close>

section \<open>The databases in use\<close>

definition handles :: "workspace \<Rightarrow> handle set" where
  "handles w = insert Main (Scratch ` {n. n < length (w_dbs w) \<and> w_dbs w ! n \<noteq> None})"

definition the_db :: "handle \<Rightarrow> workspace \<Rightarrow> facts" where
  "the_db i w = the (get_db i w)"

lemma Main_handle [simp]: "Main \<in> handles w"
  by (simp add: handles_def)

lemma Scratch_handle [simp]: "Scratch n \<in> handles w \<longleftrightarrow> n < length (w_dbs w) \<and> w_dbs w ! n \<noteq> None"
  by (auto simp: handles_def)

lemma the_db_Main [simp]: "the_db Main w = w_main w"
  by (simp add: the_db_def get_db_def)

lemma get_db_handle: "i \<in> handles w \<Longrightarrow> get_db i w = Some (the_db i w)"
  by (auto simp: handles_def the_db_def get_db_def)

lemma finite_handles [simp]: "finite (handles w)"
proof -
  have "{n. n < length (w_dbs w) \<and> w_dbs w ! n \<noteq> None} \<subseteq> {..<length (w_dbs w)}" by auto
  then show ?thesis unfolding handles_def using finite_subset by blast
qed

lemma share_simps [simp]:
  "db_symbols (share a b) = db_symbols a" "db_heap (share a b) = db_heap a" "db_arena (share a b) = db_arena a"
  "db_mem (share a b) = db_mem a" "db_rng (share a b) = db_rng a" "db_index (share a b) = db_index b"
  "db_hexastore (share a b) = db_hexastore b" "db_tx (share a b) = db_tx b" "db_log (share a b) = db_log b"
  "db_symbols_delete (share a b) = db_symbols_delete b" "db_prog (share a b) = db_prog b"
  "db_staging (share a b) = db_staging b" "db_justifications (share a b) = db_justifications b"
  "stored (share a b) = stored b" "share a (share c b) = share a b" "share (share a c) b = share a b" "share b b = b"
  by (simp_all add: share_def stored_def)

text \<open>What all databases in use have in common.\<close>

lemma the_db_shared [simp]:
  assumes "i \<in> handles w"
  shows "db_symbols (the_db i w) = db_symbols (w_main w)" "db_heap (the_db i w) = db_heap (w_main w)"
    "db_arena (the_db i w) = db_arena (w_main w)" "db_mem (the_db i w) = db_mem (w_main w)"
    "share (w_main w) (the_db i w) = the_db i w"
  using assms by (auto simp: handles_def the_db_def get_db_def)

lemma handles_put [simp]: "i \<in> handles w \<Longrightarrow> handles (put_db i st w) = handles w"
proof (rule set_eqI)
  fix j assume "i \<in> handles w"
  then show "j \<in> handles (put_db i st w) \<longleftrightarrow> j \<in> handles w"
    by (cases i; cases j) (auto simp: put_db_def nth_list_update)
qed

lemma the_db_put:
  assumes "i \<in> handles w"
  shows "the_db i (put_db i st w) = st" "w_main (put_db i st w) = (if i = Main then st else share st (w_main w))"
    "j \<in> handles w \<Longrightarrow> j \<noteq> i \<Longrightarrow> the_db j (put_db i st w) = share st (the_db j w)"
  using assms by (auto simp: handles_def the_db_def get_db_def put_db_def nth_list_update split: handle.splits)

section \<open>The invariant\<close>

definition claims :: "facts \<Rightarrow> symbol multiset" where
  "claims st = fact_claims st + entry_claims (entries st)"

definition others :: "symbol multiset \<Rightarrow> handle \<Rightarrow> workspace \<Rightarrow> symbol multiset" where
  "others X i w = X + (\<Sum>j \<in> handles w - {i}. claims (the_db j w))"

definition foreign :: "handle \<Rightarrow> workspace \<Rightarrow> addr set" where
  "foreign i w = (\<Union>j \<in> handles w - {i}. stored (the_db j w))"

text \<open>A scratch database is owned for its whole life, outside transactions.\<close>

definition scratch_ok :: "facts \<Rightarrow> bool" where
  "scratch_ok st \<longleftrightarrow> tx_level (db_tx st) = 0 \<and> entries st = [] \<and> \<not> db_symbols_delete st"

definition ws_ok :: "symbol multiset \<Rightarrow> workspace \<Rightarrow> bool" where
  "ws_ok X w \<longleftrightarrow>
     (\<forall>i \<in> handles w. db_ok (others X i w) (the_db i w) \<and> tx_owned (db_tx (the_db i w)) \<and>
        stored (the_db i w) \<inter> foreign i w = {} \<and> (i \<noteq> Main \<longrightarrow> scratch_ok (the_db i w))) \<and>
     int (card (handles w)) \<le> ref_count (db_arena (w_main w))"

lemma ws_okD:
  assumes "ws_ok X w" "i \<in> handles w"
  shows "db_ok (others X i w) (the_db i w)" "tx_owned (db_tx (the_db i w))" "stored (the_db i w) \<inter> foreign i w = {}"
    "i \<noteq> Main \<Longrightarrow> scratch_ok (the_db i w)" "int (card (handles w)) \<le> ref_count (db_arena (w_main w))"
    "can_write (the_db i w)" "store_ok (the_db i w)"
  using assms by (auto simp: ws_ok_def can_write_def dest: db_ok_store)

lemma foreign_live:
  assumes "ws_ok X w" "i \<in> handles w"
  shows "foreign i w \<subseteq> arena_live (db_arena (the_db i w))" "arena_ok (db_arena (the_db i w))"
proof -
  show "foreign i w \<subseteq> arena_live (db_arena (the_db i w))"
    using store_okD(4) [OF ws_okD(7) [OF assms(1)]] assms(2) by (fastforce simp: foreign_def)
  show "arena_ok (db_arena (the_db i w))" by (rule store_okD(3) [OF ws_okD(7) [OF assms]])
qed

lemma claims_total: "i \<in> handles w \<Longrightarrow> claims (the_db i w) + others X i w = X + (\<Sum>j \<in> handles w. claims (the_db j w))"
  by (simp add: others_def sum.remove ac_simps)

section \<open>A step of one database\<close>

text \<open>What a step leaves of the other databases.\<close>

definition same_others :: "handle \<Rightarrow> workspace \<Rightarrow> workspace \<Rightarrow> bool" where
  "same_others i w w' \<longleftrightarrow>
     handles w' = handles w \<and>
     (\<forall>j \<in> handles w - {i}. \<exists>src. the_db j w' = share src (the_db j w) \<and>
        (\<forall>a \<in> stored (the_db j w). db_heap src a = db_heap (w_main w) a))"

lemma ws_step:
  assumes ws: "ws_ok X w" and i: "i \<in> handles w" and ok: "db_ok (others X i w) st'"
    and kept: "kept (foreign i w) (the_db i w) st'" and new: "stored st' \<inter> foreign i w = {}"
    and own: "tx_owned (db_tx st')" "i \<noteq> Main \<Longrightarrow> scratch_ok st'"
    and rc: "ref_count (db_arena st') = ref_count (db_arena (w_main w))"
  shows "ws_ok X (put_db i st' w)" "same_others i w (put_db i st' w)" "the_db i (put_db i st' w) = st'"
proof -
  let ?w = "put_db i st' w"
  have h: "handles ?w = handles w" using i by simp
  show this_db: "the_db i ?w = st'" using the_db_put(1) [OF i] .
  have other: "the_db j ?w = share st' (the_db j w)" if "j \<in> handles w" "j \<noteq> i" for j
    using the_db_put(3) [OF i that] .
  have keeps: "db_heap st' a = db_heap (w_main w) a \<and> a \<in> arena_live (db_arena st')" if "a \<in> foreign i w" for a
    using kept foreign_live [OF ws i] that i unfolding kept_def by auto
  have in_foreign: "a \<in> foreign i w" if "j \<in> handles w" "j \<noteq> i" "a \<in> stored (the_db j w)" for j a
    using that by (auto simp: foreign_def)
  show "same_others i w ?w"
    using h other keeps in_foreign unfolding same_others_def by (metis DiffE insertCI)
  have claims: "claims (the_db j ?w) = claims (the_db j w)" if "j \<in> handles w" "j \<noteq> i" for j
  proof -
    have "fact_claims (share st' (the_db j w)) = fact_claims (the_db j w)"
      unfolding fact_claims_def using keeps in_foreign [OF that] that(1) by (intro sum.cong) auto
    with other [OF that] show ?thesis by (simp add: claims_def)
  qed
  have sum: "X + (\<Sum>j \<in> handles w. claims (the_db j ?w)) = claims st' + others X i w"
  proof -
    have "(\<Sum>j \<in> handles w - {i}. claims (the_db j ?w)) = (\<Sum>j \<in> handles w - {i}. claims (the_db j w))"
      using claims by (intro sum.cong) auto
    then show ?thesis using i this_db by (simp add: others_def sum.remove ac_simps)
  qed
  have syms: "symbols_ok (claims (the_db j ?w) + others X j ?w) (db_symbols st')" if "j \<in> handles w" for j
    using db_ok_table [OF ok] claims_total [of j ?w X] that h sum by (simp add: claims_def ac_simps)
  have arena: "arena_ok (db_arena st')" using kept foreign_live [OF ws i] by (simp add: kept_def)
  have sto: "stored (the_db j ?w) = (if j = i then stored st' else stored (the_db j w))" if "j \<in> handles w" for j
    using this_db other [OF that] by simp
  have frn: "foreign j ?w \<subseteq> (if j = i then foreign i w else foreign j w \<union> stored st')" for j
    using sto h by (auto simp: foreign_def split: if_splits)
  have "db_ok (others X j ?w) (the_db j ?w) \<and> tx_owned (db_tx (the_db j ?w)) \<and>
      stored (the_db j ?w) \<inter> foreign j ?w = {} \<and> (j \<noteq> Main \<longrightarrow> scratch_ok (the_db j ?w))" if j: "j \<in> handles w" for j
  proof (cases "j = i")
    case True
    have "others X i ?w = others X i w" unfolding others_def h using claims by (intro arg_cong2 [where f = "(+)"] sum.cong) auto
    with True ok own new this_db frn [of i] show ?thesis by auto
  next
    case False
    note d = ws_okD [OF ws j] and o = other [OF j False]
    have "store_ok (the_db j ?w)" unfolding o
    proof (rule store_ok_change [OF d(7)])
      fix a assume "a \<in> stored (the_db j w)"
      then show "db_heap (share st' (the_db j w)) a = db_heap (the_db j w) a"
        using keeps in_foreign [OF j False] j by simp
    next
      show "stored (the_db j w) \<subseteq> arena_live (db_arena (share st' (the_db j w)))"
        using keeps in_foreign [OF j False] by auto
    qed (simp_all add: arena)
    moreover have "entries (the_db j ?w) = entries (the_db j w)" by (simp add: o)
    moreover have "\<forall>e \<in> set (entries (the_db j w)). fact_wf (re_fact e)" using d(1) by (simp add: db_ok_def)
    ultimately have "db_ok (others X j ?w) (the_db j ?w)"
      using syms [OF j] by (simp add: db_ok_def claims_def o)
    moreover have "stored (the_db j ?w) \<inter> foreign j ?w = {}"
    proof -
      have "foreign j ?w \<subseteq> foreign j w \<union> stored st'" using frn [of j] False by simp
      moreover have "stored (the_db j w) \<inter> stored st' = {}" using new in_foreign [OF j False] by blast
      ultimately show ?thesis using d(3) sto [OF j] False by auto
    qed
    moreover have "scratch_ok (the_db j ?w)" if "j \<noteq> Main" using d(4) [OF that] by (simp add: o scratch_ok_def)
    moreover have "tx_owned (db_tx (the_db j ?w))" using d(2) by (simp add: o)
    ultimately show ?thesis by blast
  qed
  moreover have "ref_count (db_arena (w_main ?w)) = ref_count (db_arena (w_main w))"
    using rc by (simp add: the_db_put(2) [OF i])
  ultimately show "ws_ok X ?w" using ws unfolding ws_ok_def h by simp
qed

end
