(* ===== verification/Locks.thy ===== *)
theory Locks
  imports Facts_State Transactions
begin

text \<open>
  The locks of \<^verbatim>\<open>lib/transaction.c\<close> with all threads: the reader-writer lock, the owner that makes the
  writer reentrant, and the depth of the read sections of each thread. A step is what one thread
  does between two accesses to what they share; the rest of the development sees the locks from one
  thread, by \<open>view\<close>.
\<close>

section \<open>The state and its steps\<close>

type_synonym tid = nat

text \<open>
  Where a thread is: outside these functions, waiting in \<^verbatim>\<open>pthread_rwlock_wrlock\<close> or behind it and
  before it is the owner (each with the level it will set, if any), or no longer the owner and
  before \<^verbatim>\<open>pthread_rwlock_unlock\<close>.
\<close>

datatype where_is = Outside | Waits_write "int option" | Has_rwlock "int option" | Unlocks

record locks =
  lk_writer :: "tid option"
  lk_readers :: "tid set"
  lk_owner :: "tid option"
  lk_level :: int
  lk_slot :: "tid \<Rightarrow> nat"
  lk_at :: "tid \<Rightarrow> where_is"

definition no_locks :: locks where
  "no_locks = \<lparr>lk_writer = None, lk_readers = {}, lk_owner = None, lk_level = 0, lk_slot = (\<lambda>_. 0), lk_at = (\<lambda>_. Outside)\<rparr>"

definition go :: "tid \<Rightarrow> where_is \<Rightarrow> locks \<Rightarrow> locks" where
  "go t x s = s\<lparr>lk_at := (lk_at s)(t := x)\<rparr>"

text \<open>
  The depth of the slot is an \<^verbatim>\<open>unsigned int\<close>: no step takes it beyond the maximum, so a run has less
  than \<open>2 ^ 32\<close> read sections of one thread inside each other.
\<close>

abbreviation (input) UINT_MAX :: nat where
  "UINT_MAX \<equiv> 2 ^ 32 - 1"

definition set_slot :: "tid \<Rightarrow> nat \<Rightarrow> locks \<Rightarrow> locks" where
  "set_slot t n s = s\<lparr>lk_slot := (lk_slot s)(t := n)\<rparr>"

text \<open>The steps that a function of \<^verbatim>\<open>transaction.c\<close> consists of.\<close>

datatype lock_op = Acquire_writer | Begin_transaction | Release_writer | Finish | Commit_nested | Acquire_reader | Release_reader
  | Internal

inductive lock_step :: "locks \<Rightarrow> tid \<Rightarrow> lock_op \<Rightarrow> locks \<Rightarrow> bool" where
  acquire_writer_owned:
    "lk_at s t = Outside \<Longrightarrow> lk_owner s = Some t \<Longrightarrow> lock_step s t Acquire_writer s"
| acquire_writer_wait:
    "lk_at s t = Outside \<Longrightarrow> lk_owner s \<noteq> Some t \<Longrightarrow> lock_step s t Internal (go t (Waits_write None) s)"
| begin_owned:
    "lk_at s t = Outside \<Longrightarrow> lk_owner s = Some t \<Longrightarrow> lk_level s < 2 ^ 31 - 1 \<Longrightarrow>
     lock_step s t Begin_transaction (s\<lparr>lk_level := lk_level s + 1\<rparr>)"
| begin_wait:
    "lk_at s t = Outside \<Longrightarrow> lk_owner s \<noteq> Some t \<Longrightarrow> lock_step s t Internal (go t (Waits_write (Some 1)) s)"
| wrlock:
    "lk_at s t = Waits_write l \<Longrightarrow> lk_writer s = None \<Longrightarrow> lk_readers s = {} \<Longrightarrow>
     lock_step s t Internal (go t (Has_rwlock l) (s\<lparr>lk_writer := Some t\<rparr>))"
| owner_acquire:
    "lk_at s t = Has_rwlock None \<Longrightarrow> lock_step s t Acquire_writer (go t Outside (s\<lparr>lk_owner := Some t\<rparr>))"
| owner_begin:
    "lk_at s t = Has_rwlock (Some l) \<Longrightarrow>
     lock_step s t Begin_transaction (go t Outside (s\<lparr>lk_owner := Some t, lk_level := l\<rparr>))"
| release_writer:
    "lk_at s t = Outside \<Longrightarrow> lk_owner s = Some t \<Longrightarrow> lk_level s = 0 \<Longrightarrow>
     lock_step s t Release_writer (go t Unlocks (s\<lparr>lk_owner := None\<rparr>))"
| commit_nested:
    "lk_at s t = Outside \<Longrightarrow> lk_owner s = Some t \<Longrightarrow> lk_level s > 1 \<Longrightarrow>
     lock_step s t Commit_nested (s\<lparr>lk_level := lk_level s - 1\<rparr>)"
| finish:
    "lk_at s t = Outside \<Longrightarrow> lk_owner s = Some t \<Longrightarrow> lk_level s > 0 \<Longrightarrow>
     lock_step s t Finish (go t Unlocks (s\<lparr>lk_owner := None, lk_level := 0\<rparr>))"
| unlock:
    "lk_at s t = Unlocks \<Longrightarrow> lock_step s t Internal (go t Outside (s\<lparr>lk_writer := None\<rparr>))"
| reader_owned:
    "lk_at s t = Outside \<Longrightarrow> lk_owner s = Some t \<Longrightarrow> lock_step s t Acquire_reader s"
| reader_nested:
    "lk_at s t = Outside \<Longrightarrow> lk_owner s \<noteq> Some t \<Longrightarrow> lk_slot s t > 0 \<Longrightarrow> lk_slot s t < UINT_MAX \<Longrightarrow>
     lock_step s t Acquire_reader (set_slot t (lk_slot s t + 1) s)"
| rdlock:
    "lk_at s t = Outside \<Longrightarrow> lk_owner s \<noteq> Some t \<Longrightarrow> lk_slot s t = 0 \<Longrightarrow> lk_writer s = None \<Longrightarrow>
     lock_step s t Acquire_reader (set_slot t 1 (s\<lparr>lk_readers := insert t (lk_readers s)\<rparr>))"
| reader_leaves:
    "lk_at s t = Outside \<Longrightarrow> lk_slot s t > 1 \<Longrightarrow> lock_step s t Release_reader (set_slot t (lk_slot s t - 1) s)"
| rdunlock:
    "lk_at s t = Outside \<Longrightarrow> lk_slot s t = 1 \<Longrightarrow>
     lock_step s t Release_reader (set_slot t 0 (s\<lparr>lk_readers := lk_readers s - {t}\<rparr>))"

inductive lock_reach :: "locks \<Rightarrow> locks \<Rightarrow> bool" for s where
  here: "lock_reach s s"
| on: "lock_reach s s' \<Longrightarrow> lock_step s' t act s'' \<Longrightarrow> lock_reach s s''"

section \<open>The invariant\<close>

text \<open>A thread that holds the lock and is not, or no longer, its owner.\<close>

fun in_transit :: "where_is \<Rightarrow> bool" where
  "in_transit (Has_rwlock l) = True"
| "in_transit Unlocks = True"
| "in_transit x = False"

fun level_ok :: "where_is \<Rightarrow> bool" where
  "level_ok (Waits_write (Some l)) = (l = 1)"
| "level_ok (Has_rwlock (Some l)) = (l = 1)"
| "level_ok x = True"

definition lock_inv :: "locks \<Rightarrow> bool" where
  "lock_inv s \<longleftrightarrow>
     (\<forall>t. lk_writer s = Some t \<longleftrightarrow> lk_owner s = Some t \<or> in_transit (lk_at s t)) \<and>
     (\<forall>t. lk_owner s = Some t \<longrightarrow> lk_at s t = Outside) \<and>
     (lk_writer s \<noteq> None \<longrightarrow> lk_readers s = {}) \<and>
     lk_readers s = {t. lk_slot s t > 0} \<and>
     (lk_owner s = None \<longrightarrow> lk_level s = 0) \<and> lk_level s \<ge> 0 \<and>
     (\<forall>t. level_ok (lk_at s t))"

lemma lock_inv_init: "lock_inv no_locks"
  by (simp add: lock_inv_def no_locks_def)

lemma transit_owner: "lock_inv s \<Longrightarrow> in_transit (lk_at s t) \<Longrightarrow> lk_owner s = None"
  unfolding lock_inv_def by (cases "lk_owner s") (metis in_transit.simps option.inject)+

lemma lock_invD:
  assumes "lock_inv s"
  shows "lk_writer s = Some t \<longleftrightarrow> lk_owner s = Some t \<or> in_transit (lk_at s t)" "lk_owner s = Some t \<Longrightarrow> lk_at s t = Outside"
    "lk_writer s \<noteq> None \<Longrightarrow> lk_readers s = {}" "t \<in> lk_readers s \<longleftrightarrow> lk_slot s t > 0"
    "lk_owner s = None \<Longrightarrow> lk_level s = 0" "lk_level s \<ge> 0" "level_ok (lk_at s t)"
  using assms by (auto simp: lock_inv_def)

lemma lock_invI:
  assumes "\<And>t. lk_writer s = Some t \<longleftrightarrow> lk_owner s = Some t \<or> in_transit (lk_at s t)"
    "\<And>t. lk_owner s = Some t \<Longrightarrow> lk_at s t = Outside" "lk_writer s \<noteq> None \<Longrightarrow> lk_readers s = {}"
    "\<And>t. t \<in> lk_readers s \<longleftrightarrow> lk_slot s t > 0" "lk_owner s = None \<Longrightarrow> lk_level s = 0" "lk_level s \<ge> 0"
    "\<And>t. level_ok (lk_at s t)"
  shows "lock_inv s"
  using assms by (auto simp: lock_inv_def)

lemma level_ok_Has: "level_ok (Waits_write l) \<Longrightarrow> level_ok (Has_rwlock l)"
  by (cases l) auto

lemma lock_inv_step: "lock_step s t act s' \<Longrightarrow> lock_inv s \<Longrightarrow> lock_inv s'"
proof (induction rule: lock_step.induct)
  case (wrlock s t l)
  note d = lock_invD [OF wrlock(4)]
  have "lk_owner s = None" "\<not> in_transit (lk_at s u)" for u using wrlock(2) d(1) by (cases "lk_owner s"; auto)+
  moreover have "level_ok (Has_rwlock l)" using level_ok_Has d(7) [of t] wrlock(1) by simp
  ultimately show ?case using wrlock d by (intro lock_invI) (auto simp: go_def)
next
  case (unlock s t)
  note d = lock_invD [OF unlock(2)]
  have w: "lk_writer s = Some t" "lk_owner s = None" using unlock(1) d(1) [of t] transit_owner [OF unlock(2), of t] by simp_all
  then have "\<not> in_transit (lk_at s u)" if "u \<noteq> t" for u using d(1) [of u] that by auto
  with w show ?case using unlock d by (intro lock_invI) (auto simp: go_def)
next
  case (owner_acquire s t)
  note d = lock_invD [OF owner_acquire(2)]
  have w: "lk_writer s = Some t" "lk_owner s = None" using owner_acquire(1) d(1) [of t] transit_owner [OF owner_acquire(2), of t] by simp_all
  then have "\<not> in_transit (lk_at s u)" if "u \<noteq> t" for u using d(1) [of u] that by auto
  with w show ?case using d by (intro lock_invI) (auto simp: go_def)
next
  case (owner_begin s t l)
  note d = lock_invD [OF owner_begin(2)]
  have w: "lk_writer s = Some t" "lk_owner s = None" using owner_begin(1) d(1) [of t] transit_owner [OF owner_begin(2), of t] by simp_all
  moreover have "l = 1" using d(7) [of t] owner_begin(1) by simp
  moreover have "\<not> in_transit (lk_at s u)" if "u \<noteq> t" for u using d(1) [of u] that w by auto
  ultimately show ?case using d by (intro lock_invI) (auto simp: go_def)
next
  case (rdlock s t)
  note d = lock_invD [OF rdlock(5)]
  show ?case using rdlock d by (intro lock_invI) (auto simp: set_slot_def)
next
  case (rdunlock s t)
  note d = lock_invD [OF rdunlock(3)]
  show ?case using rdunlock d by (intro lock_invI) (auto simp: set_slot_def)
next
  case (reader_leaves s t)
  note d = lock_invD [OF reader_leaves(3)]
  show ?case using reader_leaves d by (intro lock_invI) (auto simp: set_slot_def)
next
  case (reader_nested s t)
  note d = lock_invD [OF reader_nested(5)]
  show ?case using reader_nested d by (intro lock_invI) (auto simp: set_slot_def)
next
  case (release_writer s t)
  note d = lock_invD [OF release_writer(4)]
  show ?case using release_writer d by (intro lock_invI) (auto simp: go_def)
next
  case (finish s t)
  note d = lock_invD [OF finish(4)]
  show ?case using finish d by (intro lock_invI) (auto simp: go_def)
next
  case (acquire_writer_wait s t)
  note d = lock_invD [OF acquire_writer_wait(3)]
  show ?case using acquire_writer_wait d by (intro lock_invI) (auto simp: go_def)
next
  case (begin_wait s t)
  note d = lock_invD [OF begin_wait(3)]
  show ?case using begin_wait d by (intro lock_invI) (auto simp: go_def)
next
  case (begin_owned s t)
  note d = lock_invD [OF begin_owned(4)]
  show ?case using begin_owned d by (intro lock_invI) auto
next
  case (commit_nested s t)
  note d = lock_invD [OF commit_nested(4)]
  show ?case using commit_nested d by (intro lock_invI) auto
qed

lemma lock_inv_reach: "lock_reach s s' \<Longrightarrow> lock_inv s \<Longrightarrow> lock_inv s'"
  by (induction rule: lock_reach.induct) (auto dest: lock_inv_step)

section \<open>One thread's view\<close>

text \<open>What a thread sees of the locks, in the fields of the transaction.\<close>

definition view :: "tid \<Rightarrow> locks \<Rightarrow> transaction \<Rightarrow> transaction" where
  "view t s tx =
     tx\<lparr>tx_owned := (lk_owner s = Some t), tx_readers := lk_slot s t,
        tx_level := (if lk_owner s = Some t then lk_level s else 0)\<rparr>"

text \<open>What the operations of one thread do to it. Waiting changes nothing.\<close>

fun sequential :: "lock_op \<Rightarrow> unit action" where
  "sequential Acquire_writer st = map_option (\<lambda>(_, tx). ((), st\<lparr>db_tx := tx\<rparr>)) (transaction_acquire_writer (db_tx st))"
| "sequential Begin_transaction st = map_option (\<lambda>(_, st'). ((), st')) (transaction_begin st)"
| "sequential Release_writer st = Some ((), st\<lparr>db_tx := transaction_release_writer (db_tx st) False\<rparr>)"
| "sequential Finish st = Some ((), finish st)"
| "sequential Commit_nested st =
     map_option (\<lambda>(_, st'). ((), st')) (transaction_commit_silent \<lparr>cb_listener = \<lambda>_ _ _. None, cb_observer = \<lambda>_ _. None, cb_summary = \<lambda>_ _ _. None\<rparr> st)"
| "sequential Acquire_reader st = Some ((), st\<lparr>db_tx := snd (transaction_acquire_reader (db_tx st))\<rparr>)"
| "sequential Release_reader st = map_option (\<lambda>tx. ((), st\<lparr>db_tx := tx\<rparr>)) (transaction_release_reader (db_tx st) True)"
| "sequential Internal st = Some ((), st)"

lemma step_others: "lock_step s t act s' \<Longrightarrow> lock_inv s \<Longrightarrow> u \<noteq> t \<Longrightarrow> view u s' tx = view u s tx"
proof (induction rule: lock_step.induct)
  case (owner_acquire s t)
  then show ?case using transit_owner [of s t] by (simp add: view_def go_def)
next
  case (owner_begin s t l)
  then show ?case using transit_owner [of s t] by (simp add: view_def go_def)
qed (auto simp: view_def go_def set_slot_def)

lemma transit_slot: "lock_inv s \<Longrightarrow> in_transit (lk_at s t) \<Longrightarrow> lk_slot s u = 0"
  by (metis bot_nat_0.not_eq_extremum empty_iff lock_invD(1,3,4) option.discI)

lemma owner_slot: "lock_inv s \<Longrightarrow> lk_owner s = Some t \<Longrightarrow> lk_slot s u = 0"
  by (metis bot_nat_0.not_eq_extremum empty_iff lock_invD(1,3,4) option.discI)

lemma step_own:
  assumes "lock_step s t act s'" "lock_inv s"
  shows "sequential act (st\<lparr>db_tx := view t s tx\<rparr>) = Some ((), st\<lparr>db_tx := view t s' tx\<rparr>)"
  using assms
proof (induction rule: lock_step.induct)
  case (owner_acquire s t)
  then show ?case using transit_owner [of s t] transit_slot [of s t] lock_invD(5) [of s]
    by (simp add: transaction_acquire_writer_def view_def go_def)
next
  case (owner_begin s t l)
  moreover have "l = 1" using owner_begin lock_invD(7) [of s t] by simp
  ultimately show ?case using transit_owner [of s t] transit_slot [of s t]
    by (simp add: transaction_begin_def view_def go_def)
next
  case (commit_nested s t)
  then show ?case by (simp add: transaction_commit_silent_def transaction_commit_impl_def may_finish_def view_def Let_def)
qed (auto simp: transaction_acquire_writer_def transaction_begin_def transaction_release_writer_def finish_def
      transaction_acquire_reader_def transaction_release_reader_def transaction_writer_owned_def view_def go_def set_slot_def Let_def)

text \<open>
  C6: Every step of a thread is the operation of the one-thread model on what this thread sees of the
  locks, and changes nothing of what the others see.
\<close>

theorem locks_refine_view:
  assumes "lock_reach no_locks s" "lock_step s t act s'"
  shows "sequential act (st\<lparr>db_tx := view t s tx\<rparr>) = Some ((), st\<lparr>db_tx := view t s' tx\<rparr>) \<and>
    (\<forall>u. u \<noteq> t \<longrightarrow> view u s' tx = view u s tx)"
  using step_own [OF assms(2)] step_others [OF assms(2)] lock_inv_reach [OF assms(1) lock_inv_init] by simp

text \<open>
  C8: A thread that owns a database excludes all readers and all other owners.
\<close>

theorem locks_exclude:
  assumes "lock_reach no_locks s" "tx_owned (view t s tx)"
  shows "tx_readers (view u s tx) = 0 \<and> (tx_owned (view u s tx) \<longrightarrow> u = t)"
  using assms owner_slot [OF lock_inv_reach [OF assms(1) lock_inv_init]] by (auto simp: view_def)

lemma waits_step: "lock_step s u act s' \<Longrightarrow> lk_at s t = Waits_write l \<and> t \<in> lk_readers s \<and> lk_slot s t = n \<Longrightarrow>
    lk_at s' t = Waits_write l \<and> t \<in> lk_readers s' \<and> lk_slot s' t = n"
  by (induction rule: lock_step.induct) (auto simp: go_def set_slot_def)

lemma waits_reach: "lock_reach s s' \<Longrightarrow> lk_at s t = Waits_write l \<and> t \<in> lk_readers s \<and> lk_slot s t = n \<Longrightarrow>
    lk_at s' t = Waits_write l \<and> t \<in> lk_readers s' \<and> lk_slot s' t = n"
  by (induction rule: lock_reach.induct) (auto dest: waits_step)

text \<open>
  C40: A thread that asks for the write lock while it holds a read lock, a cursor that is not stopped
  for instance, waits forever, whatever the others do.
\<close>

theorem upgrade_waits_forever:
  assumes "lock_reach no_locks s" "lk_at s t = Waits_write l" "tx_readers (view t s tx) > 0" "lock_reach s s'"
  shows "lk_at s' t = Waits_write l \<and> tx_readers (view t s' tx) = tx_readers (view t s tx)"
proof -
  have "t \<in> lk_readers s"
    using assms(3) lock_invD(4) [OF lock_inv_reach [OF assms(1) lock_inv_init]] by (simp add: view_def)
  with waits_reach [OF assms(4)] assms(2) show ?thesis by (simp add: view_def)
qed

section \<open>Examples\<close>

definition one_owner :: locks where
  "one_owner = no_locks\<lparr>lk_writer := Some 1, lk_owner := Some 1\<rparr>"

definition one_upgrade :: locks where
  "one_upgrade = no_locks\<lparr>lk_readers := {0}, lk_slot := (\<lambda>_. 0)(0 := 1), lk_at := (\<lambda>_. Outside)(0 := Waits_write None)\<rparr>"

lemma first_read: "lock_step no_locks 0 Acquire_reader (set_slot 0 1 (no_locks\<lparr>lk_readers := {0}\<rparr>))"
  using rdlock [of no_locks 0] by (simp add: no_locks_def)

lemma reach_one_owner: "lock_reach no_locks one_owner"
proof -
  let ?w = "go 1 (Waits_write None) no_locks"
  let ?h = "go 1 (Has_rwlock None) (?w\<lparr>lk_writer := Some 1\<rparr>)"
  have "lock_step no_locks 1 Internal ?w" by (rule acquire_writer_wait) (simp_all add: no_locks_def)
  moreover have "lock_step ?w 1 Internal ?h" by (rule wrlock) (simp_all add: no_locks_def go_def)
  moreover have "lock_step ?h 1 Acquire_writer (go 1 Outside (?h\<lparr>lk_owner := Some 1\<rparr>))"
    by (rule owner_acquire) (simp add: go_def)
  ultimately have "lock_reach no_locks (go 1 Outside (?h\<lparr>lk_owner := Some 1\<rparr>))"
    by (meson lock_reach.intros)
  also have "go 1 Outside (?h\<lparr>lk_owner := Some 1\<rparr>) = one_owner" by (simp add: go_def one_owner_def no_locks_def fun_upd_idem)
  finally show ?thesis .
qed

lemma reach_one_upgrade: "lock_reach no_locks one_upgrade"
proof -
  let ?r = "set_slot 0 1 (no_locks\<lparr>lk_readers := {0}\<rparr>)"
  have "lock_step ?r 0 Internal (go 0 (Waits_write None) ?r)"
    by (rule acquire_writer_wait) (simp_all add: no_locks_def set_slot_def)
  with first_read have "lock_reach no_locks (go 0 (Waits_write None) ?r)" by (meson lock_reach.intros)
  also have "go 0 (Waits_write None) ?r = one_upgrade" by (simp add: go_def set_slot_def one_upgrade_def no_locks_def)
  finally show ?thesis .
qed

theorem locks_refine_view_witness:
  "\<forall>st. sequential Acquire_reader (st\<lparr>db_tx := view 0 no_locks transaction_zero\<rparr>) =
     Some ((), st\<lparr>db_tx := view 0 (set_slot 0 1 (no_locks\<lparr>lk_readers := {0}\<rparr>)) transaction_zero\<rparr>)"
  using locks_refine_view [OF lock_reach.here first_read] by blast

theorem locks_exclude_witness: "tx_readers (view 0 one_owner transaction_zero) = 0"
  using locks_exclude [OF reach_one_owner, of 1 transaction_zero 0] by (simp add: view_def one_owner_def)

theorem upgrade_waits_forever_witness: "lk_at one_upgrade 0 = Waits_write None"
  using upgrade_waits_forever [OF reach_one_upgrade _ _ lock_reach.here, of 0 None transaction_zero]
  by (simp add: view_def one_upgrade_def)

end
