(* ===== verification/Urcu.thy ===== *)
theory Urcu
  imports Prelude
begin

text \<open>
  The epoch-based reclamation of \<^verbatim>\<open>include/urcu.h\<close>: its operations, and a step relation of any number
  of readers and one writer, whose steps are the accesses to what they share. The two stores of
  \<^verbatim>\<open>urcu_read_lock\<close> and the one of \<^verbatim>\<open>urcu_read_unlock\<close> have release order only, so a reader may go on while
  its stores are on their way to memory: they wait in a buffer, in order, and take effect later.
\<close>

section \<open>The state and the operations\<close>

type_synonym thread = nat

abbreviation (input) URCU_MAX_THREADS :: nat where "URCU_MAX_THREADS \<equiv> 64"

record urcu_reader =
  ur_epoch :: u64
  ur_active :: bool

text \<open>The function that frees an object is identified by a number; none is \<^verbatim>\<open>free\<close>.\<close>

record urcu_retired =
  rt_ptr :: nat
  rt_free_fn :: "nat option"
  rt_epoch :: u64

text \<open>The registrations are the values of the thread-specific key: the slot and the depth.\<close>

record urcu =
  ru_global_epoch :: u64
  ru_readers :: "urcu_reader list"
  ru_regs :: "thread \<Rightarrow> (nat \<times> nat) option"
  ru_retired :: "urcu_retired list"
  ru_capacity :: int

definition set_reader :: "nat \<Rightarrow> (urcu_reader \<Rightarrow> urcu_reader) \<Rightarrow> urcu \<Rightarrow> urcu" where
  "set_reader i f u = u\<lparr>ru_readers := (ru_readers u)[i := f (ru_readers u ! i)]\<rparr>"

definition set_reg :: "thread \<Rightarrow> (nat \<times> nat) option \<Rightarrow> urcu \<Rightarrow> urcu" where
  "set_reg t r u = u\<lparr>ru_regs := (ru_regs u)(t := r)\<rparr>"

text \<open>The mutex, the key and the queue may fail to be created.\<close>

definition urcu_init_checked :: "int \<Rightarrow> mem \<Rightarrow> urcu option \<times> mem" where
  "urcu_init_checked initial_capacity h =
     (if initial_capacity < 0 \<or> nat initial_capacity > SIZE_MAX div 24 then (None, h)
      else (case malloc h of (False, h) \<Rightarrow> (None, h) | (True, h) \<Rightarrow>
           (case malloc h of (False, h) \<Rightarrow> (None, h) | (True, h) \<Rightarrow>
           (case (if initial_capacity > 0 then malloc h else (True, h)) of (False, h) \<Rightarrow> (None, h) | (True, h) \<Rightarrow>
             (Some \<lparr>ru_global_epoch = 1, ru_readers = replicate URCU_MAX_THREADS \<lparr>ur_epoch = 0, ur_active = False\<rparr>,
                    ru_regs = (\<lambda>_. None), ru_retired = [], ru_capacity = initial_capacity\<rparr>, h)))))"

text \<open>The first slot that is free.\<close>

definition free_slot :: "urcu \<Rightarrow> nat option" where
  "free_slot u = find (\<lambda>i. \<not> ur_active (ru_readers u ! i) \<and> ur_epoch (ru_readers u ! i) = 0) [0..<URCU_MAX_THREADS]"

text \<open>The allocator answers for the block and for \<^verbatim>\<open>pthread_setspecific\<close>, which is called when there is a slot.\<close>

definition urcu_register_thread :: "thread \<Rightarrow> urcu \<Rightarrow> mem \<Rightarrow> int \<times> urcu \<times> mem" where
  "urcu_register_thread t u h =
     (case ru_regs u t of
        Some (i, _) \<Rightarrow> (int i, u, h)
      | None \<Rightarrow>
          (case malloc h of (False, h) \<Rightarrow> (- 1, u, h) | (True, h) \<Rightarrow>
             (case free_slot u of
                None \<Rightarrow> (- 1, u, h)
              | Some i \<Rightarrow>
                  (case malloc h of
                     (False, h) \<Rightarrow> (- 1, set_reader i (\<lambda>r. r\<lparr>ur_epoch := 0, ur_active := False\<rparr>) u, h)
                   | (True, h) \<Rightarrow>
                       (int i, set_reg t (Some (i, 0)) (set_reader i (\<lambda>r. r\<lparr>ur_epoch := 1, ur_active := False\<rparr>) u), h)))))"

text \<open>Also what the destructor of the key does when a thread ends.\<close>

definition urcu_unregister_thread :: "thread \<Rightarrow> urcu \<Rightarrow> urcu" where
  "urcu_unregister_thread t u =
     (case ru_regs u t of None \<Rightarrow> u
      | Some (i, _) \<Rightarrow> set_reg t None (set_reader i (\<lambda>r. r\<lparr>ur_epoch := 0, ur_active := False\<rparr>) u))"

text \<open>The two stores of a read lock that is not nested.\<close>

definition store_epoch :: "nat \<Rightarrow> u64 \<Rightarrow> urcu \<Rightarrow> urcu" where
  "store_epoch i g_epoch = set_reader i (\<lambda>r. r\<lparr>ur_epoch := g_epoch\<rparr>)"

definition store_active :: "nat \<Rightarrow> bool \<Rightarrow> urcu \<Rightarrow> urcu" where
  "store_active i b = set_reader i (\<lambda>r. r\<lparr>ur_active := b\<rparr>)"

definition urcu_read_lock_checked :: "thread \<Rightarrow> urcu \<Rightarrow> mem \<Rightarrow> int \<times> urcu \<times> mem" where
  "urcu_read_lock_checked t u h =
     (case urcu_register_thread t u h of (r, u, h) \<Rightarrow>
        if r < 0 then (- 1, u, h)
        else (case ru_regs u t of
                None \<Rightarrow> (0, u, h)
              | Some (i, depth) \<Rightarrow>
                  (let u = set_reg t (Some (i, depth + 1)) u in
                   (0, if depth = 0 then store_active i True (store_epoch i (ru_global_epoch u) u) else u, h))))"

definition urcu_read_unlock :: "thread \<Rightarrow> urcu \<Rightarrow> urcu" where
  "urcu_read_unlock t u =
     (case ru_regs u t of
        Some (i, Suc depth) \<Rightarrow>
          (let u = set_reg t (Some (i, depth)) u in if depth = 0 then store_active i False u else u)
      | _ \<Rightarrow> u)"

text \<open>\<^verbatim>\<open>sizeof(urcu_retired_t)\<close> is 24. A null pointer is not retired.\<close>

definition urcu_retire_checked :: "nat option \<Rightarrow> nat option \<Rightarrow> urcu \<Rightarrow> mem \<Rightarrow> int \<times> urcu \<times> mem" where
  "urcu_retire_checked p free_fn u h =
     (case p of None \<Rightarrow> (0, u, h)
      | Some x \<Rightarrow>
          (let full = (int (length (ru_retired u)) \<ge> ru_capacity u);
               new_cap = (if ru_capacity u = 0 then 64 else ru_capacity u * 2)
           in if full \<and> (ru_capacity u > INT_MAX div 2 \<or> nat new_cap > SIZE_MAX div 24) then (- 1, u, h)
              else (case (if full then malloc h else (True, h)) of
                      (False, h) \<Rightarrow> (- 1, u, h)
                    | (True, h) \<Rightarrow>
                        (0, u\<lparr>ru_capacity := (if full then new_cap else ru_capacity u),
                              ru_retired := ru_retired u @ [\<lparr>rt_ptr = x, rt_free_fn = free_fn, rt_epoch = ru_global_epoch u\<rparr>],
                              ru_global_epoch := ru_global_epoch u + 1\<rparr>, h))))"

text \<open>The oldest epoch of the active readers, at most the one given.\<close>

definition look_at :: "urcu_reader \<Rightarrow> u64 \<Rightarrow> u64" where
  "look_at r oldest = (if ur_epoch r \<noteq> 0 \<and> ur_active r \<and> ur_epoch r < oldest then ur_epoch r else oldest)"

text \<open>The objects freed by one collection, and the queue it leaves.\<close>

definition reclaim :: "u64 \<Rightarrow> urcu \<Rightarrow> urcu_retired list \<times> urcu" where
  "reclaim oldest u =
     (filter (\<lambda>r. rt_epoch r < oldest) (ru_retired u),
      u\<lparr>ru_retired := filter (\<lambda>r. \<not> rt_epoch r < oldest) (ru_retired u)\<rparr>)"

definition urcu_gc :: "urcu \<Rightarrow> urcu_retired list \<times> urcu" where
  "urcu_gc u = reclaim (fold look_at (ru_readers u) (ru_global_epoch u)) u"

text \<open>
  The loop of \<^verbatim>\<open>urcu_synchronize\<close>, with what the others do in each of its pauses; a list that is too
  short stands for readers that never leave.
\<close>

definition pending_readers :: "u64 \<Rightarrow> urcu \<Rightarrow> bool" where
  "pending_readers target u \<longleftrightarrow> (\<exists>r \<in> set (ru_readers u). ur_epoch r \<noteq> 0 \<and> ur_active r \<and> ur_epoch r < target)"

fun wait_readers :: "u64 \<Rightarrow> (urcu \<Rightarrow> urcu) list \<Rightarrow> urcu \<Rightarrow> urcu option" where
  "wait_readers target pauses u =
     (if \<not> pending_readers target u then Some u
      else case pauses of [] \<Rightarrow> None | f # fs \<Rightarrow> wait_readers target fs (f u))"

definition urcu_synchronize :: "(urcu \<Rightarrow> urcu) list \<Rightarrow> urcu \<Rightarrow> urcu option" where
  "urcu_synchronize pauses u =
     (let u = u\<lparr>ru_global_epoch := ru_global_epoch u + 1\<rparr> in wait_readers (ru_global_epoch u) pauses u)"

text \<open>What is freed at once, and the state.\<close>

definition urcu_retire ::
  "(urcu \<Rightarrow> urcu) list \<Rightarrow> nat option \<Rightarrow> nat option \<Rightarrow> urcu \<Rightarrow> mem \<Rightarrow> (nat list \<times> urcu \<times> mem) option" where
  "urcu_retire pauses p free_fn u h =
     (case urcu_retire_checked p free_fn u h of (r, u, h) \<Rightarrow>
        case p of
          None \<Rightarrow> Some ([], u, h)
        | Some x \<Rightarrow> if r = 0 then Some ([], u, h)
                  else do { u \<leftarrow> urcu_synchronize pauses u; Some ([x], u, h) })"

definition urcu_destroy :: "thread \<Rightarrow> urcu \<Rightarrow> nat list \<times> urcu" where
  "urcu_destroy t u = (map rt_ptr (ru_retired u), urcu_unregister_thread t (u\<lparr>ru_retired := []\<rparr>))"

section \<open>Readers and a writer together\<close>

text \<open>
  Where the code of a reader is: not in a section, behind the load of the global epoch in
  \<^verbatim>\<open>urcu_read_lock_checked\<close>, behind its first store, in the section. The stores that have not reached
  memory are in the buffer of the thread, the oldest first.
\<close>

datatype reader_at = Idle | Loaded u64 | Stored | Reading
datatype store = Epoch u64 | Active bool

fun apply_store :: "nat \<Rightarrow> store \<Rightarrow> urcu \<Rightarrow> urcu" where
  "apply_store i (Epoch e) = store_epoch i e"
| "apply_store i (Active b) = store_active i b"

text \<open>
  The writer scans the slots in \<^verbatim>\<open>urcu_gc\<close>, with the oldest epoch so far, and in \<^verbatim>\<open>urcu_synchronize\<close>,
  with the object that \<^verbatim>\<open>urcu_retire\<close> frees afterwards and the target epoch. It is before the slot
  with a number, behind its check that the slot is in use, or behind the load of the flag.
\<close>

datatype job = Collect u64 | Wait nat u64
datatype writer_at = No_scan | Scan job nat | Used job nat | Saw job nat

text \<open>
  The objects a reader can find, those the writer took out, those freed, and those each reader
  got hold of in its section.
\<close>

record world =
  rw_u :: urcu
  rw_at :: "thread \<Rightarrow> reader_at"
  rw_buf :: "thread \<Rightarrow> store list"
  rw_gc :: writer_at
  rw_linked :: "nat set"
  rw_unlinked :: "nat set"
  rw_freed :: "nat set"
  rw_holds :: "thread \<Rightarrow> nat set"

definition retired_ptrs :: "urcu \<Rightarrow> nat set" where
  "retired_ptrs u = rt_ptr ` set (ru_retired u)"

definition reader_goes :: "thread \<Rightarrow> reader_at \<Rightarrow> store list \<Rightarrow> urcu \<Rightarrow> world \<Rightarrow> world" where
  "reader_goes t x b u w = w\<lparr>rw_u := u, rw_at := (rw_at w)(t := x), rw_buf := (rw_buf w)(t := b)\<rparr>"

definition hold :: "thread \<Rightarrow> nat set \<Rightarrow> world \<Rightarrow> world" where
  "hold t X w = w\<lparr>rw_holds := (rw_holds w)(t := X)\<rparr>"

text \<open>
  Registration and its end take the mutex, which is a barrier. The writer's changes of the epoch are
  read-modify-writes, so what it unlinked before is out of reach when a later store of it is seen.
  A retirement is a step of its own when it succeeds; when it fails, \<^verbatim>\<open>urcu_retire\<close> begins to wait
  and frees the object at the end of a scan that has seen no old reader.
\<close>

inductive rcu_step :: "world \<Rightarrow> world \<Rightarrow> bool" where
  register:
    "rw_at w t = Idle \<Longrightarrow> urcu_register_thread t (rw_u w) h = (r, u, h') \<Longrightarrow> rcu_step w (w\<lparr>rw_u := u\<rparr>)"
| unregister:
    "rw_at w t = Idle \<Longrightarrow> rw_buf w t = [] \<Longrightarrow> rcu_step w (w\<lparr>rw_u := urcu_unregister_thread t (rw_u w)\<rparr>)"
| load_epoch:
    "rw_at w t = Idle \<Longrightarrow> ru_regs (rw_u w) t = Some (i, 0) \<Longrightarrow>
     rcu_step w (reader_goes t (Loaded (ru_global_epoch (rw_u w))) (rw_buf w t) (set_reg t (Some (i, 1)) (rw_u w)) w)"
| store_epoch:
    "rw_at w t = Loaded e \<Longrightarrow> rcu_step w (reader_goes t Stored (rw_buf w t @ [Epoch e]) (rw_u w) w)"
| store_active:
    "rw_at w t = Stored \<Longrightarrow> rcu_step w (reader_goes t Reading (rw_buf w t @ [Active True]) (rw_u w) w)"
| reaches_memory:
    "rw_buf w t = s # b \<Longrightarrow> ru_regs (rw_u w) t = Some (i, d) \<Longrightarrow>
     rcu_step w (reader_goes t (rw_at w t) b (apply_store i s (rw_u w)) w)"
| lock_nested:
    "rw_at w t = Reading \<Longrightarrow> ru_regs (rw_u w) t = Some (i, d) \<Longrightarrow> d > 0 \<Longrightarrow>
     rcu_step w (w\<lparr>rw_u := set_reg t (Some (i, d + 1)) (rw_u w)\<rparr>)"
| find_object:
    "rw_at w t = Reading \<Longrightarrow> x \<in> rw_linked w \<Longrightarrow> rcu_step w (hold t (insert x (rw_holds w t)) w)"
| unlock_nested:
    "rw_at w t = Reading \<Longrightarrow> ru_regs (rw_u w) t = Some (i, d) \<Longrightarrow> d > 1 \<Longrightarrow>
     rcu_step w (w\<lparr>rw_u := urcu_read_unlock t (rw_u w)\<rparr>)"
| unlock:
    "rw_at w t = Reading \<Longrightarrow> ru_regs (rw_u w) t = Some (i, 1) \<Longrightarrow>
     rcu_step w (hold t {} (reader_goes t Idle (rw_buf w t @ [Active False]) (set_reg t (Some (i, 0)) (rw_u w)) w))"
| link_object:
    "rw_gc w = No_scan \<Longrightarrow> x \<notin> rw_linked w \<union> rw_unlinked w \<union> retired_ptrs (rw_u w) \<Longrightarrow>
     rcu_step w (w\<lparr>rw_linked := insert x (rw_linked w), rw_freed := rw_freed w - {x}\<rparr>)"
| unlink_object:
    "rw_gc w = No_scan \<Longrightarrow> x \<in> rw_linked w \<Longrightarrow>
     rcu_step w (w\<lparr>rw_linked := rw_linked w - {x}, rw_unlinked := insert x (rw_unlinked w)\<rparr>)"
| retire:
    "rw_gc w = No_scan \<Longrightarrow> x \<in> rw_unlinked w \<Longrightarrow> ru_global_epoch (rw_u w) \<noteq> - 1 \<Longrightarrow>
     urcu_retire_checked (Some x) f (rw_u w) h = (0, u, h') \<Longrightarrow>
     rcu_step w (w\<lparr>rw_u := u, rw_unlinked := rw_unlinked w - {x}\<rparr>)"
| wait_starts:
    "rw_gc w = No_scan \<Longrightarrow> x \<in> rw_unlinked w \<Longrightarrow> ru_global_epoch (rw_u w) \<noteq> - 1 \<Longrightarrow>
     urcu_retire_checked (Some x) f (rw_u w) h = (- 1, u, h') \<Longrightarrow>
     rcu_step w (w\<lparr>rw_u := u\<lparr>ru_global_epoch := ru_global_epoch u + 1\<rparr>, rw_gc := Scan (Wait x (ru_global_epoch u + 1)) 0\<rparr>)"
| gc_starts:
    "rw_gc w = No_scan \<Longrightarrow> rcu_step w (w\<lparr>rw_gc := Scan (Collect (ru_global_epoch (rw_u w))) 0\<rparr>)"
| slot_unused:
    "rw_gc w = Scan j n \<Longrightarrow> n < URCU_MAX_THREADS \<Longrightarrow> ur_epoch (ru_readers (rw_u w) ! n) = 0 \<Longrightarrow>
     rcu_step w (w\<lparr>rw_gc := Scan j (Suc n)\<rparr>)"
| slot_used:
    "rw_gc w = Scan j n \<Longrightarrow> n < URCU_MAX_THREADS \<Longrightarrow> ur_epoch (ru_readers (rw_u w) ! n) \<noteq> 0 \<Longrightarrow>
     rcu_step w (w\<lparr>rw_gc := Used j n\<rparr>)"
| slot_inactive:
    "rw_gc w = Used j n \<Longrightarrow> \<not> ur_active (ru_readers (rw_u w) ! n) \<Longrightarrow> rcu_step w (w\<lparr>rw_gc := Scan j (Suc n)\<rparr>)"
| slot_active:
    "rw_gc w = Used j n \<Longrightarrow> ur_active (ru_readers (rw_u w) ! n) \<Longrightarrow> rcu_step w (w\<lparr>rw_gc := Saw j n\<rparr>)"
| gc_epoch:
    "rw_gc w = Saw (Collect oldest) n \<Longrightarrow>
     rcu_step w (w\<lparr>rw_gc := Scan (Collect (min oldest (ur_epoch (ru_readers (rw_u w) ! n)))) (Suc n)\<rparr>)"
| wait_epoch:
    "rw_gc w = Saw (Wait x target) n \<Longrightarrow>
     rcu_step w (w\<lparr>rw_gc := Scan (Wait x target) (if ur_epoch (ru_readers (rw_u w) ! n) < target then 0 else Suc n)\<rparr>)"
| gc_frees:
    "rw_gc w = Scan (Collect oldest) URCU_MAX_THREADS \<Longrightarrow> reclaim oldest (rw_u w) = (gone, u) \<Longrightarrow>
     rcu_step w (w\<lparr>rw_u := u, rw_gc := No_scan, rw_freed := rw_freed w \<union> rt_ptr ` set gone\<rparr>)"
| wait_frees:
    "rw_gc w = Scan (Wait x target) URCU_MAX_THREADS \<Longrightarrow>
     rcu_step w (w\<lparr>rw_gc := No_scan, rw_unlinked := rw_unlinked w - {x}, rw_freed := insert x (rw_freed w)\<rparr>)"

text \<open>
  A step is hasty when a reader gets hold of an object before its own stores have reached memory. With a
  full barrier behind the two stores of \<^verbatim>\<open>urcu_read_lock\<close> no step would be; the code has none.
\<close>

definition hasty :: "world \<Rightarrow> world \<Rightarrow> bool" where
  "hasty w w' \<longleftrightarrow> (\<exists>t. rw_buf w t \<noteq> [] \<and> \<not> rw_holds w' t \<subseteq> rw_holds w t)"

inductive rcu_reach :: "bool \<Rightarrow> world \<Rightarrow> world \<Rightarrow> bool" for barrier w where
  here: "rcu_reach barrier w w"
| on: "rcu_reach barrier w w' \<Longrightarrow> rcu_step w' w'' \<Longrightarrow> (barrier \<longrightarrow> \<not> hasty w' w'') \<Longrightarrow> rcu_reach barrier w w''"

definition new_world :: "urcu \<Rightarrow> nat set \<Rightarrow> world" where
  "new_world u X =
     \<lparr>rw_u = u, rw_at = (\<lambda>_. Idle), rw_buf = (\<lambda>_. []), rw_gc = No_scan, rw_linked = X, rw_unlinked = {}, rw_freed = {},
      rw_holds = (\<lambda>_. {})\<rparr>"

section \<open>The invariant\<close>

text \<open>The slots of the threads, and the epochs on their way to memory.\<close>

definition slots_ok :: "urcu \<Rightarrow> bool" where
  "slots_ok u \<longleftrightarrow>
     length (ru_readers u) = URCU_MAX_THREADS \<and> ru_global_epoch u \<noteq> 0 \<and>
     (\<forall>t i d. ru_regs u t = Some (i, d) \<longrightarrow>
        i < URCU_MAX_THREADS \<and> ur_epoch (ru_readers u ! i) \<noteq> 0 \<and> ur_epoch (ru_readers u ! i) \<le> ru_global_epoch u) \<and>
     (\<forall>t t' i d d'. ru_regs u t = Some (i, d) \<longrightarrow> ru_regs u t' = Some (i, d') \<longrightarrow> t = t')"

definition epoch_ok :: "urcu \<Rightarrow> u64 \<Rightarrow> bool" where
  "epoch_ok u e \<longleftrightarrow> e \<noteq> 0 \<and> e \<le> ru_global_epoch u"

definition buffer_ok :: "urcu \<Rightarrow> store list \<Rightarrow> bool" where
  "buffer_ok u b \<longleftrightarrow> (\<forall>e. Epoch e \<in> set b \<longrightarrow> epoch_ok u e)"

lemma buffer_ok_simps [simp]:
  "buffer_ok u []" "buffer_ok u (Epoch e # b) \<longleftrightarrow> epoch_ok u e \<and> buffer_ok u b" "buffer_ok u (Active c # b) \<longleftrightarrow> buffer_ok u b"
  "buffer_ok u (b @ b') \<longleftrightarrow> buffer_ok u b \<and> buffer_ok u b'"
  by (auto simp: buffer_ok_def)

text \<open>The flag of a slot when a buffer has reached memory.\<close>

fun flag_after :: "bool \<Rightarrow> store list \<Rightarrow> bool" where
  "flag_after a [] = a"
| "flag_after a (Epoch e # b) = flag_after a b"
| "flag_after a (Active c # b) = flag_after c b"

lemma flag_after_append [simp]: "flag_after a (b @ b') = flag_after (flag_after a b) b'"
  by (induction a b rule: flag_after.induct) auto

text \<open>A thread is where its registration, its slot and its buffer say.\<close>

fun at_ok :: "urcu \<Rightarrow> (nat \<times> nat) option \<Rightarrow> reader_at \<Rightarrow> store list \<Rightarrow> nat set \<Rightarrow> bool" where
  "at_ok u None x b X = (x = Idle \<and> b = [] \<and> X = {})"
| "at_ok u (Some (i, d)) Idle b X = (X = {} \<and> d = 0 \<and> \<not> flag_after (ur_active (ru_readers u ! i)) b \<and> buffer_ok u b)"
| "at_ok u (Some (i, d)) (Loaded e) b X =
     (X = {} \<and> d = 1 \<and> \<not> flag_after (ur_active (ru_readers u ! i)) b \<and> buffer_ok u b \<and> epoch_ok u e)"
| "at_ok u (Some (i, d)) Stored b X = (X = {} \<and> d = 1 \<and> \<not> flag_after (ur_active (ru_readers u ! i)) b \<and> buffer_ok u b)"
| "at_ok u (Some (i, d)) Reading b X =
     (d > 0 \<and> flag_after (ur_active (ru_readers u ! i)) b \<and> buffer_ok u b \<and> (X \<noteq> {} \<longrightarrow> b = []) \<and>
      (\<forall>r \<in> set (ru_retired u). rt_ptr r \<in> X \<longrightarrow> ur_epoch (ru_readers u ! i) \<le> rt_epoch r))"

text \<open>What the scan has looked at.\<close>

fun job_at :: "writer_at \<Rightarrow> (job \<times> nat) option" where
  "job_at No_scan = None"
| "job_at (Scan j n) = Some (j, n)"
| "job_at (Used j n) = Some (j, n)"
| "job_at (Saw j n) = Some (j, n)"

fun seen :: "urcu \<Rightarrow> nat \<Rightarrow> nat set \<Rightarrow> job \<times> nat \<Rightarrow> bool" where
  "seen u i X (Collect oldest, n) \<longleftrightarrow>
     (i < n \<longrightarrow> (\<forall>r \<in> set (ru_retired u). rt_ptr r \<in> X \<longrightarrow> oldest \<le> rt_epoch r))"
| "seen u i X (Wait x target, n) \<longleftrightarrow> (x \<in> X \<longrightarrow> ur_epoch (ru_readers u ! i) < target \<and> n \<le> i)"

definition scanned :: "writer_at \<Rightarrow> urcu \<Rightarrow> (nat \<times> nat) option \<Rightarrow> nat set \<Rightarrow> bool" where
  "scanned g u reg X =
     (\<forall>i d k. reg = Some (i, d) \<longrightarrow> job_at g = Some k \<longrightarrow> seen u i X k)"

definition waiting_ok :: "world \<Rightarrow> bool" where
  "waiting_ok w \<longleftrightarrow> (\<forall>x target n. job_at (rw_gc w) = Some (Wait x target, n) \<longrightarrow> x \<in> rw_unlinked w)"

definition objects_ok :: "world \<Rightarrow> bool" where
  "objects_ok w \<longleftrightarrow>
     (let R = retired_ptrs (rw_u w) in
      rw_linked w \<inter> rw_unlinked w = {} \<and> rw_linked w \<inter> R = {} \<and> rw_unlinked w \<inter> R = {} \<and>
      rw_freed w \<inter> (rw_linked w \<union> rw_unlinked w \<union> R) = {} \<and> distinct (map rt_ptr (ru_retired (rw_u w))) \<and> waiting_ok w)"

definition rcu_inv :: "world \<Rightarrow> bool" where
  "rcu_inv w \<longleftrightarrow>
     slots_ok (rw_u w) \<and> objects_ok w \<and>
     (\<forall>t. at_ok (rw_u w) (ru_regs (rw_u w) t) (rw_at w t) (rw_buf w t) (rw_holds w t) \<and>
          scanned (rw_gc w) (rw_u w) (ru_regs (rw_u w) t) (rw_holds w t) \<and>
          rw_holds w t \<subseteq> rw_linked w \<union> rw_unlinked w \<union> retired_ptrs (rw_u w))"

text \<open>Who holds an object has an active slot.\<close>

lemma holder:
  assumes "at_ok u reg x b X" "y \<in> X"
  obtains i d where "reg = Some (i, d)" "x = Reading" "b = []" "d > 0" "ur_active (ru_readers u ! i)"
proof (cases reg)
  case (Some p)
  obtain i d where "p = (i, d)" by (cases p)
  with Some assms show ?thesis by (cases x) (auto intro: that)
qed (use assms in auto)

section \<open>Steps keep it\<close>

lemma set_reader_simps [simp]:
  "ru_regs (set_reader i f u) = ru_regs u" "ru_global_epoch (set_reader i f u) = ru_global_epoch u"
  "ru_retired (set_reader i f u) = ru_retired u" "length (ru_readers (set_reader i f u)) = length (ru_readers u)"
  "j \<noteq> i \<Longrightarrow> ru_readers (set_reader i f u) ! j = ru_readers u ! j"
  "i < length (ru_readers u) \<Longrightarrow> ru_readers (set_reader i f u) ! i = f (ru_readers u ! i)"
  "retired_ptrs (set_reader i f u) = retired_ptrs u"
  by (simp_all add: set_reader_def retired_ptrs_def)

lemma set_reg_simps [simp]:
  "ru_regs (set_reg t r u) = (ru_regs u)(t := r)" "ru_global_epoch (set_reg t r u) = ru_global_epoch u"
  "ru_retired (set_reg t r u) = ru_retired u" "ru_readers (set_reg t r u) = ru_readers u"
  "retired_ptrs (set_reg t r u) = retired_ptrs u"
  by (simp_all add: set_reg_def retired_ptrs_def)

lemma at_ok_cong:
  assumes "ru_retired u' = ru_retired u" "ru_global_epoch u' = ru_global_epoch u"
    "\<And>i d. reg = Some (i, d) \<Longrightarrow> ru_readers u' ! i = ru_readers u ! i"
  shows "at_ok u' reg x b X \<longleftrightarrow> at_ok u reg x b X"
proof (cases reg)
  case (Some p)
  obtain i d where "p = (i, d)" by (cases p)
  with Some assms show ?thesis by (cases x) (simp_all add: buffer_ok_def epoch_ok_def)
qed simp

lemma scanned_cong:
  assumes "ru_retired u' = ru_retired u" "\<And>i d. reg = Some (i, d) \<Longrightarrow> ru_readers u' ! i = ru_readers u ! i"
  shows "scanned g u' reg X \<longleftrightarrow> scanned g u reg X"
proof -
  have "seen u' i X k \<longleftrightarrow> seen u i X k" if "reg = Some (i, d)" for i d k
    using assms that by (cases k; cases "fst k") auto
  then show ?thesis by (auto simp: scanned_def)
qed

lemma scanned_empty [simp]: "scanned g u reg {}"
proof -
  have "seen u i {} k" for i k by (cases k; cases "fst k") auto
  then show ?thesis by (simp add: scanned_def)
qed

lemma scanned_none [simp]: "scanned No_scan u reg X" "scanned g u None X"
  by (simp_all add: scanned_def)

lemma scanned_some: "scanned g u (Some (i, d)) X \<longleftrightarrow> (case job_at g of None \<Rightarrow> True | Some k \<Rightarrow> seen u i X k)"
  by (auto simp: scanned_def split: option.splits)

lemma slots_okD:
  assumes "slots_ok u"
  shows "length (ru_readers u) = URCU_MAX_THREADS" "ru_global_epoch u \<noteq> 0"
    "ru_regs u t = Some (i, d) \<Longrightarrow> i < URCU_MAX_THREADS" "ru_regs u t = Some (i, d) \<Longrightarrow> ur_epoch (ru_readers u ! i) \<noteq> 0"
    "ru_regs u t = Some (i, d) \<Longrightarrow> ur_epoch (ru_readers u ! i) \<le> ru_global_epoch u"
    "ru_regs u t = Some (i, d) \<Longrightarrow> ru_regs u t' = Some (i, d') \<Longrightarrow> t = t'"
  using assms by (auto simp: slots_ok_def)

lemma slots_okI:
  assumes "length (ru_readers u) = URCU_MAX_THREADS" "ru_global_epoch u \<noteq> 0"
    "\<And>t i d. ru_regs u t = Some (i, d) \<Longrightarrow> i < URCU_MAX_THREADS"
    "\<And>t i d. ru_regs u t = Some (i, d) \<Longrightarrow> ur_epoch (ru_readers u ! i) \<noteq> 0"
    "\<And>t i d. ru_regs u t = Some (i, d) \<Longrightarrow> ur_epoch (ru_readers u ! i) \<le> ru_global_epoch u"
    "\<And>t t' i d d'. ru_regs u t = Some (i, d) \<Longrightarrow> ru_regs u t' = Some (i, d') \<Longrightarrow> t = t'"
  shows "slots_ok u"
  using assms unfolding slots_ok_def by blast

lemma rcu_invD:
  assumes "rcu_inv w"
  shows "slots_ok (rw_u w)" "objects_ok w" "at_ok (rw_u w) (ru_regs (rw_u w) t) (rw_at w t) (rw_buf w t) (rw_holds w t)"
    "scanned (rw_gc w) (rw_u w) (ru_regs (rw_u w) t) (rw_holds w t)"
    "rw_holds w t \<subseteq> rw_linked w \<union> rw_unlinked w \<union> retired_ptrs (rw_u w)"
  using assms by (auto simp: rcu_inv_def)

text \<open>A step of one reader: its own part, and the slots.\<close>

lemma reader_inv:
  assumes inv: "rcu_inv w" and u: "ru_retired u = ru_retired (rw_u w)" "ru_global_epoch u = ru_global_epoch (rw_u w)"
    and slots: "slots_ok u"
    and other: "\<And>t' i d. t' \<noteq> t \<Longrightarrow> ru_regs u t' = ru_regs (rw_u w) t' \<and>
        (ru_regs (rw_u w) t' = Some (i, d) \<longrightarrow> ru_readers u ! i = ru_readers (rw_u w) ! i)"
    and own: "at_ok u (ru_regs u t) x b X" "scanned (rw_gc w) u (ru_regs u t) X"
    and X: "X \<subseteq> rw_linked w \<union> rw_unlinked w \<union> retired_ptrs (rw_u w)"
  shows "rcu_inv (hold t X (reader_goes t x b u w))"
proof -
  have ptrs: "retired_ptrs u = retired_ptrs (rw_u w)" by (simp add: retired_ptrs_def u)
  have "at_ok u (ru_regs u t') (rw_at w t') (rw_buf w t') (rw_holds w t') \<and> scanned (rw_gc w) u (ru_regs u t') (rw_holds w t')"
    if "t' \<noteq> t" for t'
    using rcu_invD(3,4) [OF inv, of t'] other [OF that] at_ok_cong [OF u, of "ru_regs u t'"]
      scanned_cong [OF u(1), of "ru_regs u t'"] by simp
  moreover have "objects_ok (hold t X (reader_goes t x b u w))"
    using rcu_invD(2) [OF inv] by (simp add: objects_ok_def hold_def reader_goes_def ptrs u(1) waiting_ok_def)
  ultimately show ?thesis using slots own X rcu_invD(5) [OF inv]
    by (auto simp: rcu_inv_def hold_def reader_goes_def ptrs)
qed

lemma reader_inv':
  assumes "rcu_inv w" "ru_retired u = ru_retired (rw_u w)" "ru_global_epoch u = ru_global_epoch (rw_u w)" "slots_ok u"
    "\<And>t' i d. t' \<noteq> t \<Longrightarrow> ru_regs u t' = ru_regs (rw_u w) t' \<and>
        (ru_regs (rw_u w) t' = Some (i, d) \<longrightarrow> ru_readers u ! i = ru_readers (rw_u w) ! i)"
    "at_ok u (ru_regs u t) x b (rw_holds w t)" "scanned (rw_gc w) u (ru_regs u t) (rw_holds w t)"
  shows "rcu_inv (reader_goes t x b u w)"
proof -
  have "rcu_inv (hold t (rw_holds w t) (reader_goes t x b u w))"
    by (rule reader_inv [OF assms(1-7) rcu_invD(5) [OF assms(1)]])
  then show ?thesis by (simp add: hold_def reader_goes_def)
qed

text \<open>A step that changes nothing but the place and the buffer of a reader, or its depth.\<close>

lemma reader_only:
  assumes "rcu_inv w" "at_ok (rw_u w) (ru_regs (rw_u w) t) x b (rw_holds w t)"
  shows "rcu_inv (reader_goes t x b (rw_u w) w)"
  using assms rcu_invD(1,4) [OF assms(1)] by (intro reader_inv') simp_all

lemma slots_set_reg:
  assumes "slots_ok u" "ru_regs u t = Some (i, d)"
  shows "slots_ok (set_reg t (Some (i, d')) u)"
  using assms by (auto simp: slots_ok_def split: if_splits)

lemma slots_set_reader:
  assumes "slots_ok u" "ru_regs u t = Some (i, d)"
    "ur_epoch (f (ru_readers u ! i)) \<noteq> 0" "ur_epoch (f (ru_readers u ! i)) \<le> ru_global_epoch u"
  shows "slots_ok (set_reader i f u)"
proof -
  have "ur_epoch (ru_readers (set_reader i f u) ! j) = (if j = i then ur_epoch (f (ru_readers u ! i)) else ur_epoch (ru_readers u ! j))"
    if "j < URCU_MAX_THREADS" for j
    using that slots_okD(1) [OF assms(1)] by simp
  then show ?thesis using assms by (auto simp: slots_ok_def)
qed

lemma other_slot: "slots_ok u \<Longrightarrow> ru_regs u t = Some (i, d) \<Longrightarrow> t' \<noteq> t \<Longrightarrow> ru_regs u t' = Some (i', d') \<Longrightarrow> i' \<noteq> i"
  using slots_okD(6) by blast

lemma scanned_reg: "scanned g u (Some (i, d)) X \<Longrightarrow> scanned g (set_reg t r u) (Some (i, d')) X"
  using scanned_cong [of "set_reg t r u" u "Some (i, d')" g X] by (simp add: scanned_some)

lemma find_free: "free_slot u = Some i \<Longrightarrow> i < URCU_MAX_THREADS \<and> \<not> ur_active (ru_readers u ! i) \<and> ur_epoch (ru_readers u ! i) = 0"
  by (auto simp: free_slot_def find_Some_iff)

lemma step_register:
  assumes inv: "rcu_inv w" and idle: "rw_at w t = Idle" and r: "urcu_register_thread t (rw_u w) h = (r, u, h')"
  shows "rcu_inv (w\<lparr>rw_u := u\<rparr>)"
proof -
  note so = rcu_invD(1) [OF inv]
  have same: "rcu_inv (w\<lparr>rw_u := rw_u w\<rparr>)" using inv by simp
  show ?thesis
  proof (cases "u = rw_u w")
    case False
    then obtain i where none: "ru_regs (rw_u w) t = None" and i: "free_slot (rw_u w) = Some i" and
      u: "u = set_reader i (\<lambda>r. r\<lparr>ur_epoch := 0, ur_active := False\<rparr>) (rw_u w) \<or>
          u = set_reg t (Some (i, 0)) (set_reader i (\<lambda>r. r\<lparr>ur_epoch := 1, ur_active := False\<rparr>) (rw_u w))"
      using r by (auto simp: urcu_register_thread_def split: option.splits prod.splits bool.splits)
    note f = find_free [OF i]
    have h: "rw_holds w t = {}" "rw_buf w t = []" using rcu_invD(3) [OF inv, of t] none by simp_all
    have free: "i' \<noteq> i" if "ru_regs (rw_u w) t' = Some (i', d)" for t' i' d
      using f slots_okD(4) [OF so that] by auto
    have one: "(1::u64) \<le> ru_global_epoch (rw_u w)" using slots_okD(2) [OF so] by (simp add: word_le_nat_alt Suc_le_eq unat_gt_0)
    from u have "rcu_inv (reader_goes t Idle [] u w)"
    proof
      assume u: "u = set_reader i (\<lambda>r. r\<lparr>ur_epoch := 0, ur_active := False\<rparr>) (rw_u w)"
      have "slots_ok u" using so free slots_okD [OF so] unfolding u by (intro slots_okI) auto
      then show ?thesis using free h none by (intro reader_inv' [OF inv]) (auto simp: u)
    next
      assume u: "u = set_reg t (Some (i, 0)) (set_reader i (\<lambda>r. r\<lparr>ur_epoch := 1, ur_active := False\<rparr>) (rw_u w))"
      have "slots_ok u" using so free f one slots_okD [OF so] unfolding u by (intro slots_okI) (auto split: if_splits)
      then show ?thesis using free h none f slots_okD(1) [OF so] by (intro reader_inv' [OF inv]) (auto simp: u)
    qed
    moreover have "reader_goes t Idle [] u w = w\<lparr>rw_u := u\<rparr>" using idle h(2) by (simp add: reader_goes_def fun_upd_idem)
    ultimately show ?thesis by simp
  qed (use inv in simp)
qed

lemma step_unregister:
  assumes inv: "rcu_inv w" and idle: "rw_at w t = Idle" and buf: "rw_buf w t = []"
  shows "rcu_inv (w\<lparr>rw_u := urcu_unregister_thread t (rw_u w)\<rparr>)"
proof (cases "ru_regs (rw_u w) t")
  case None
  then show ?thesis using inv by (simp add: urcu_unregister_thread_def)
next
  case (Some p)
  then obtain i d where reg: "ru_regs (rw_u w) t = Some (i, d)" by (cases p) simp
  note so = rcu_invD(1) [OF inv]
  let ?u = "urcu_unregister_thread t (rw_u w)"
  have u: "?u = set_reg t None (set_reader i (\<lambda>r. r\<lparr>ur_epoch := 0, ur_active := False\<rparr>) (rw_u w))"
    using reg by (simp add: urcu_unregister_thread_def)
  note other = other_slot [OF so reg]
  have h: "rw_holds w t = {}" using rcu_invD(3) [OF inv, of t] reg idle by simp
  have "slots_ok ?u"
    using other slots_okD [OF so] unfolding u by (intro slots_okI) (auto split: if_splits)
  then have "rcu_inv (reader_goes t Idle [] ?u w)"
    using other h by (intro reader_inv' [OF inv]) (auto simp: u)
  moreover have "reader_goes t Idle [] ?u w = w\<lparr>rw_u := ?u\<rparr>" using idle buf by (simp add: reader_goes_def fun_upd_idem)
  ultimately show ?thesis by simp
qed

text \<open>A store that reaches memory.\<close>

lemma apply_store_simps [simp]:
  "ru_regs (apply_store i s u) = ru_regs u" "ru_global_epoch (apply_store i s u) = ru_global_epoch u"
  "ru_retired (apply_store i s u) = ru_retired u" "j \<noteq> i \<Longrightarrow> ru_readers (apply_store i s u) ! j = ru_readers u ! j"
  by (cases s; simp add: store_epoch_def store_active_def)+

lemma step_reaches_memory:
  assumes inv: "rcu_inv w" and buf: "rw_buf w t = s # b" and reg: "ru_regs (rw_u w) t = Some (i, d)"
  shows "rcu_inv (reader_goes t (rw_at w t) b (apply_store i s (rw_u w)) w)"
proof -
  note so = slots_okD [OF rcu_invD(1) [OF inv]] and at = rcu_invD(3) [OF inv, of t]
  have i: "i < length (ru_readers (rw_u w))" using so(1,3) reg by simp
  have hold: "rw_holds w t = {}"
  proof (rule ccontr)
    assume "rw_holds w t \<noteq> {}"
    then obtain y where "y \<in> rw_holds w t" by blast
    from holder [OF at this] buf show False by simp
  qed
  have ep: "ur_epoch (ru_readers (apply_store i s (rw_u w)) ! i) \<noteq> 0 \<and>
      ur_epoch (ru_readers (apply_store i s (rw_u w)) ! i) \<le> ru_global_epoch (rw_u w)"
    using at reg buf so(4,5) [OF reg] i
    by (cases s; cases "rw_at w t") (auto simp: store_epoch_def store_active_def epoch_ok_def)
  have slots: "slots_ok (apply_store i s (rw_u w))"
    using ep i slots_set_reader [OF rcu_invD(1) [OF inv] reg]
    by (cases s) (auto simp: store_epoch_def store_active_def)
  have buffer: "buffer_ok (apply_store i s (rw_u w)) b" if "buffer_ok (rw_u w) b" for b
    using that by (simp add: buffer_ok_def epoch_ok_def)
  have flag: "flag_after (ur_active (ru_readers (apply_store i s (rw_u w)) ! i)) b = flag_after (ur_active (ru_readers (rw_u w) ! i)) (s # b)"
    using i by (cases s) (simp_all add: store_epoch_def store_active_def)
  have rest: "buffer_ok (rw_u w) b" using at reg buf by (cases "rw_at w t"; cases s) auto
  have "at_ok (apply_store i s (rw_u w)) (Some (i, d)) (rw_at w t) b {}"
    using at reg buf hold flag buffer [OF rest] by (cases "rw_at w t") (simp_all add: epoch_ok_def)
  then show ?thesis
    using hold reg slots other_slot [OF rcu_invD(1) [OF inv] reg] by (intro reader_inv' [OF inv]) auto
qed

text \<open>A step of the writer that leaves the slots alone.\<close>

lemma writer_inv:
  assumes "rcu_inv w" "slots_ok (rw_u w')" "objects_ok w'" "rw_at w' = rw_at w" "rw_buf w' = rw_buf w" "rw_holds w' = rw_holds w"
    "ru_regs (rw_u w') = ru_regs (rw_u w)"
    "\<And>t. at_ok (rw_u w') (ru_regs (rw_u w) t) (rw_at w t) (rw_buf w t) (rw_holds w t)"
    "\<And>t. scanned (rw_gc w') (rw_u w') (ru_regs (rw_u w) t) (rw_holds w t)"
    "\<And>t. rw_holds w t \<subseteq> rw_linked w' \<union> rw_unlinked w' \<union> retired_ptrs (rw_u w')"
  shows "rcu_inv w'"
  using assms by (simp add: rcu_inv_def)

lemma retire_queue:
  "urcu_retire_checked (Some x) f u h = (0, u', h') \<Longrightarrow>
   ru_retired u' = ru_retired u @ [\<lparr>rt_ptr = x, rt_free_fn = f, rt_epoch = ru_global_epoch u\<rparr>]"
  by (auto simp: urcu_retire_checked_def Let_def split: if_splits prod.splits bool.splits)

lemma step_retire:
  assumes inv: "rcu_inv w" and gc: "rw_gc w = No_scan" and x: "x \<in> rw_unlinked w" and g: "ru_global_epoch (rw_u w) \<noteq> - 1"
    and r: "urcu_retire_checked (Some x) f (rw_u w) h = (0, u, h')"
  shows "rcu_inv (w\<lparr>rw_u := u, rw_unlinked := rw_unlinked w - {x}\<rparr>)"
proof -
  let ?g = "ru_global_epoch (rw_u w)"
  have u: "ru_readers u = ru_readers (rw_u w)" "ru_regs u = ru_regs (rw_u w)" "ru_global_epoch u = ?g + 1"
      "ru_retired u = ru_retired (rw_u w) @ [\<lparr>rt_ptr = x, rt_free_fn = f, rt_epoch = ?g\<rparr>]"
    using r by (auto simp: urcu_retire_checked_def Let_def split: if_splits prod.splits bool.splits)
  have up: "?g \<le> ?g + 1" "?g + 1 \<noteq> 0" using g by (simp_all add: word_le_nat_alt unat_Suc_word) (metis add.inverse_unique add.commute)
  note so = slots_okD [OF rcu_invD(1) [OF inv]] and at = rcu_invD(3) [OF inv]
  have epoch: "ur_epoch (ru_readers (rw_u w) ! i) \<le> ?g + 1" "ur_epoch (ru_readers (rw_u w) ! i) \<le> ?g"
    if "ru_regs (rw_u w) t = Some (i, d)" for t i d
    using so(5) [OF that] up(1) by (auto intro: order_trans)
  have ptrs: "retired_ptrs u = insert x (retired_ptrs (rw_u w))" by (simp add: u retired_ptrs_def)
  have x': "x \<notin> retired_ptrs (rw_u w)" "x \<notin> rw_linked w" "x \<notin> rw_freed w"
    using x rcu_invD(2) [OF inv] by (auto simp: objects_ok_def Let_def)
  show ?thesis
  proof (rule writer_inv [OF inv]; simp?)
    show "slots_ok u" using so epoch up(2) by (intro slots_okI) (auto simp: u)
    show "objects_ok (w\<lparr>rw_u := u, rw_unlinked := rw_unlinked w - {x}\<rparr>)"
      using rcu_invD(2) [OF inv] x x' gc by (auto simp: objects_ok_def Let_def ptrs waiting_ok_def) (auto simp: u retired_ptrs_def)
    show "ru_regs u = ru_regs (rw_u w)" by (simp add: u)
    show "at_ok u (ru_regs (rw_u w) t) (rw_at w t) (rw_buf w t) (rw_holds w t)" for t
    proof (cases "ru_regs (rw_u w) t")
      case (Some p)
      obtain i d where p: "p = (i, d)" by (cases p)
      show ?thesis using at [of t] epoch [of t i d] Some p up(1)
        by (cases "rw_at w t") (auto simp: u epoch_ok_def buffer_ok_def intro: order_trans)
    qed (use at [of t] in simp)
    show "scanned (rw_gc w) u (ru_regs (rw_u w) t) (rw_holds w t)" for t by (simp add: gc)
    show "rw_holds w t \<subseteq> rw_linked w \<union> (rw_unlinked w - {x}) \<union> retired_ptrs u" for t
      using rcu_invD(5) [OF inv, of t] ptrs by auto
  qed
qed

text \<open>A retirement that fails changes nothing, and the wait begins.\<close>

lemma retire_refused: "urcu_retire_checked (Some x) f u h = (- 1, u', h') \<Longrightarrow> u' = u"
  by (auto simp: urcu_retire_checked_def Let_def split: if_splits prod.splits bool.splits)

lemma step_wait:
  assumes inv: "rcu_inv w" and gc: "rw_gc w = No_scan" and x: "x \<in> rw_unlinked w" and g: "ru_global_epoch (rw_u w) \<noteq> - 1"
  defines "u \<equiv> (rw_u w)\<lparr>ru_global_epoch := ru_global_epoch (rw_u w) + 1\<rparr>"
  shows "rcu_inv (w\<lparr>rw_u := u, rw_gc := Scan (Wait x (ru_global_epoch (rw_u w) + 1)) 0\<rparr>)"
proof -
  let ?g = "ru_global_epoch (rw_u w)"
  have up: "?g < ?g + 1" "?g \<le> ?g + 1" "?g + 1 \<noteq> 0" 
    using g by (simp_all add: word_le_nat_alt word_less_nat_alt unat_Suc_word) (metis add.inverse_unique add.commute)
  note so = slots_okD [OF rcu_invD(1) [OF inv]] and at = rcu_invD(3) [OF inv]
  have u: "ru_readers u = ru_readers (rw_u w)" "ru_regs u = ru_regs (rw_u w)" "ru_global_epoch u = ?g + 1"
    "ru_retired u = ru_retired (rw_u w)" "retired_ptrs u = retired_ptrs (rw_u w)" by (simp_all add: u_def retired_ptrs_def)
  have epoch: "ur_epoch (ru_readers (rw_u w) ! i) < ?g + 1" "ur_epoch (ru_readers (rw_u w) ! i) \<le> ?g + 1"
    if "ru_regs (rw_u w) t = Some (i, d)" for t i d
    using so(5) [OF that] up(1,2) by (auto intro: order_trans order_le_less_trans)
  show ?thesis
  proof (rule writer_inv [OF inv]; simp?)
    show "slots_ok u" using so epoch up(3) by (intro slots_okI) (auto simp: u)
    show "objects_ok (w\<lparr>rw_u := u, rw_gc := Scan (Wait x (?g + 1)) 0\<rparr>)"
      using rcu_invD(2) [OF inv] x by (simp add: objects_ok_def Let_def u waiting_ok_def)
    show "ru_regs u = ru_regs (rw_u w)" by (simp add: u)
    show "at_ok u (ru_regs (rw_u w) t) (rw_at w t) (rw_buf w t) (rw_holds w t)" for t
    proof (cases "ru_regs (rw_u w) t")
      case (Some p)
      obtain i d where p: "p = (i, d)" by (cases p)
      show ?thesis using at [of t] Some p up(2)
        by (cases "rw_at w t") (auto simp: u epoch_ok_def buffer_ok_def intro: order_trans)
    qed (use at [of t] in simp)
    show "scanned (Scan (Wait x (?g + 1)) 0) u (ru_regs (rw_u w) t) (rw_holds w t)" for t
      using epoch by (auto simp: scanned_def u)
    show "rw_holds w t \<subseteq> rw_linked w \<union> rw_unlinked w \<union> retired_ptrs u" for t
      using rcu_invD(5) [OF inv, of t] by (simp add: u)
  qed
qed

lemma step_frees:
  assumes inv: "rcu_inv w" and gc: "rw_gc w = Scan (Collect oldest) URCU_MAX_THREADS" and r: "reclaim oldest (rw_u w) = (gone, u)"
  shows "rcu_inv (w\<lparr>rw_u := u, rw_gc := No_scan, rw_freed := rw_freed w \<union> rt_ptr ` set gone\<rparr>)"
proof -
  let ?u = "rw_u w"
  have gone: "gone = filter (\<lambda>r. rt_epoch r < oldest) (ru_retired ?u)" and
    u: "u = ?u\<lparr>ru_retired := filter (\<lambda>r. \<not> rt_epoch r < oldest) (ru_retired ?u)\<rparr>"
    using r by (simp_all add: reclaim_def)
  note so = slots_okD [OF rcu_invD(1) [OF inv]] and at = rcu_invD(3) [OF inv]
  have free: "rt_ptr r \<notin> rw_holds w t" if "r \<in> set gone" for r t
  proof (cases "ru_regs ?u t")
    case (Some p)
    obtain i d where p: "p = (i, d)" by (cases p)
    have "i < URCU_MAX_THREADS" using so(3) Some p by simp
    then show ?thesis using rcu_invD(4) [OF inv, of t] gc Some p that by (auto simp: scanned_some gone)
  qed (use at [of t] in simp)
  have dist: "distinct (map rt_ptr (ru_retired ?u))" using rcu_invD(2) [OF inv] by (simp add: objects_ok_def Let_def)
  have split: "retired_ptrs ?u = rt_ptr ` set gone \<union> retired_ptrs u" by (auto simp: gone u retired_ptrs_def)
  have disj: "rt_ptr ` set gone \<inter> retired_ptrs u = {}"
    using dist unfolding gone u retired_ptrs_def distinct_map by (auto dest: inj_onD)
  show ?thesis
  proof (rule writer_inv [OF inv]; simp?)
    show "slots_ok u" using so unfolding u by (intro slots_okI) auto
    have "distinct (map rt_ptr (ru_retired u))" using dist by (simp add: u distinct_map_filter)
    then show "objects_ok (w\<lparr>rw_u := u, rw_gc := No_scan, rw_freed := rw_freed w \<union> rt_ptr ` set gone\<rparr>)"
      using rcu_invD(2) [OF inv] split disj by (auto simp: objects_ok_def Let_def waiting_ok_def)
    show "ru_regs u = ru_regs ?u" by (simp add: u)
    show "at_ok u (ru_regs ?u t) (rw_at w t) (rw_buf w t) (rw_holds w t)" for t
      using at [of t] by (cases "ru_regs ?u t"; cases "rw_at w t") (auto simp: u buffer_ok_def epoch_ok_def)
    show "rw_holds w t \<subseteq> rw_linked w \<union> rw_unlinked w \<union> retired_ptrs u" for t
    proof
      fix y assume y: "y \<in> rw_holds w t"
      then have "y \<notin> rt_ptr ` set gone" using free by auto
      then show "y \<in> rw_linked w \<union> rw_unlinked w \<union> retired_ptrs u" using rcu_invD(5) [OF inv, of t] split y by auto
    qed
  qed
qed

lemma step_wait_frees:
  assumes inv: "rcu_inv w" and gc: "rw_gc w = Scan (Wait x target) URCU_MAX_THREADS"
  shows "rcu_inv (w\<lparr>rw_gc := No_scan, rw_unlinked := rw_unlinked w - {x}, rw_freed := insert x (rw_freed w)\<rparr>)"
proof -
  note at = rcu_invD(3) [OF inv] and ob = rcu_invD(2) [OF inv]
  have x: "x \<in> rw_unlinked w" using ob gc by (simp add: objects_ok_def Let_def waiting_ok_def)
  have free: "x \<notin> rw_holds w t" for t
  proof
    assume h: "x \<in> rw_holds w t"
    obtain i d where "ru_regs (rw_u w) t = Some (i, d)" by (rule holder [OF at h])
    then show False using slots_okD(3) [OF rcu_invD(1) [OF inv]] rcu_invD(4) [OF inv, of t] gc h by (force simp: scanned_some)
  qed
  show ?thesis
    by (rule writer_inv [OF inv]; (simp add: rcu_invD [OF inv])?)
      (use ob x free rcu_invD(5) [OF inv] in \<open>auto simp: objects_ok_def Let_def waiting_ok_def\<close>)
qed

text \<open>A step of the scan.\<close>

lemma gc_inv:
  assumes inv: "rcu_inv w" and sc: "\<And>t. scanned g (rw_u w) (ru_regs (rw_u w) t) (rw_holds w t)"
    and wait: "\<And>x target n. job_at g = Some (Wait x target, n) \<Longrightarrow> \<exists>target n. job_at (rw_gc w) = Some (Wait x target, n)"
  shows "rcu_inv (w\<lparr>rw_gc := g\<rparr>)"
proof -
  have "waiting_ok (w\<lparr>rw_gc := g\<rparr>)"
    using rcu_invD(2) [OF inv] wait unfolding objects_ok_def Let_def waiting_ok_def by fastforce
  then show ?thesis using inv sc by (simp add: rcu_inv_def objects_ok_def Let_def)
qed

text \<open>The scan goes on to the next slot when nobody there holds what the job is about.\<close>

lemma scan_on:
  assumes inv: "rcu_inv w" and g: "job_at (rw_gc w) = Some (j, n)"
    and clear: "\<And>t d y. ru_regs (rw_u w) t = Some (n, d) \<Longrightarrow> y \<in> rw_holds w t \<Longrightarrow> False"
  shows "rcu_inv (w\<lparr>rw_gc := Scan j (Suc n)\<rparr>)"
proof (rule gc_inv [OF inv])
  fix t
  show "scanned (Scan j (Suc n)) (rw_u w) (ru_regs (rw_u w) t) (rw_holds w t)"
  proof (cases "\<exists>d. ru_regs (rw_u w) t = Some (n, d)")
    case True
    then have "rw_holds w t = {}" using clear by blast
    then show ?thesis by simp
  next
    case False
    then show ?thesis using rcu_invD(4) [OF inv, of t] g
      by (cases j) (auto simp: scanned_def less_Suc_eq Suc_le_eq nat_less_le)
  qed
qed (use g in auto)

lemma inactive_clear:
  assumes "rcu_inv w" "\<not> ur_active (ru_readers (rw_u w) ! n)" "ru_regs (rw_u w) t = Some (n, d)" "y \<in> rw_holds w t"
  shows False
  using holder [OF rcu_invD(3) [OF assms(1)] assms(4)] assms(2,3) by (metis Pair_inject option.inject)

lemma rcu_inv_step: "rcu_step w w' \<Longrightarrow> \<not> hasty w w' \<Longrightarrow> rcu_inv w \<Longrightarrow> rcu_inv w'"
proof (induction rule: rcu_step.induct)
  case (register w t h r u h')
  then show ?case by (blast intro: step_register)
next
  case (unregister w t)
  then show ?case by (blast intro: step_unregister)
next
  case (load_epoch w t i)
  note inv = load_epoch(4) and so = rcu_invD(1) [OF load_epoch(4)]
  have "at_ok (rw_u w) (Some (i, 0)) Idle (rw_buf w t) (rw_holds w t)" using rcu_invD(3) [OF inv, of t] load_epoch(1,2) by simp
  then show ?case using slots_set_reg [OF so load_epoch(2)] slots_okD(2) [OF so]
    by (intro reader_inv' [OF inv]) (auto simp: epoch_ok_def buffer_ok_def)
next
  case (store_epoch w t e)
  then show ?case using rcu_invD(3) [OF store_epoch(3), of t]
    by (intro reader_only) (cases "ru_regs (rw_u w) t"; auto)+
next
  case (store_active w t)
  then show ?case using rcu_invD(3) [OF store_active(3), of t]
    by (intro reader_only) (cases "ru_regs (rw_u w) t"; auto)+
next
  case (reaches_memory w t s b i d)
  then show ?case by (blast intro: step_reaches_memory)
next
  case (lock_nested w t i d)
  note inv = lock_nested(5)
  have "rcu_inv (reader_goes t Reading (rw_buf w t) (set_reg t (Some (i, d + 1)) (rw_u w)) w)"
    using slots_set_reg [OF rcu_invD(1) [OF inv] lock_nested(2)] rcu_invD(3,4) [OF inv, of t] lock_nested(1,2) scanned_reg
    by (intro reader_inv' [OF inv]) (auto simp: epoch_ok_def buffer_ok_def)
  then show ?case using lock_nested(1) by (simp add: reader_goes_def fun_upd_idem)
next
  case (find_object w t x)
  note inv = find_object(4)
  obtain i d where reg: "ru_regs (rw_u w) t = Some (i, d)"
    using rcu_invD(3) [OF inv, of t] find_object(1) by (cases "ru_regs (rw_u w) t") auto
  have new: "x \<notin> retired_ptrs (rw_u w)" "x \<notin> rw_unlinked w"
    using rcu_invD(2) [OF inv] find_object(2) by (auto simp: objects_ok_def Let_def)
  have patient: "rw_buf w t = [] \<or> x \<in> rw_holds w t" using find_object(3) by (auto simp: hasty_def hold_def split: if_splits)
  have at: "at_ok (rw_u w) (Some (i, d)) Reading (rw_buf w t) (insert x (rw_holds w t))"
    using rcu_invD(3) [OF inv, of t] find_object(1) reg new(1) patient by (auto simp: retired_ptrs_def)
  have sc: "scanned (rw_gc w) (rw_u w) (Some (i, d)) (insert x (rw_holds w t))"
  proof -
    have "seen (rw_u w) i (insert x (rw_holds w t)) k" if k: "job_at (rw_gc w) = Some k" for k
    proof -
      obtain j n where jn: "k = (j, n)" by (cases k)
      have "seen (rw_u w) i (rw_holds w t) k" using rcu_invD(4) [OF inv, of t] reg k by (simp add: scanned_some)
      moreover have "j \<noteq> Wait x e" for e using rcu_invD(2) [OF inv] new(2) k jn by (auto simp: objects_ok_def Let_def waiting_ok_def)
      ultimately show ?thesis using new(1) jn by (cases j) (auto simp: retired_ptrs_def)
    qed
    then show ?thesis by (auto simp: scanned_def)
  qed
  have "rcu_inv (hold t (insert x (rw_holds w t)) (reader_goes t Reading (rw_buf w t) (rw_u w) w))"
    using rcu_invD(1) [OF inv] rcu_invD(5) [OF inv, of t] find_object(2) reg at sc by (intro reader_inv [OF inv]) auto
  then show ?case using find_object(1) by (simp add: reader_goes_def fun_upd_idem)
next
  case (unlock_nested w t i d)
  note inv = unlock_nested(5)
  have u: "urcu_read_unlock t (rw_u w) = set_reg t (Some (i, d - 1)) (rw_u w)"
    using unlock_nested(2,3) by (cases d) (auto simp: urcu_read_unlock_def Let_def)
  have "rcu_inv (reader_goes t Reading (rw_buf w t) (set_reg t (Some (i, d - 1)) (rw_u w)) w)"
    using slots_set_reg [OF rcu_invD(1) [OF inv] unlock_nested(2)] rcu_invD(3,4) [OF inv, of t] unlock_nested(1-3) scanned_reg
    by (intro reader_inv' [OF inv]) (auto simp: epoch_ok_def buffer_ok_def)
  then show ?case using unlock_nested(1) by (simp add: reader_goes_def fun_upd_idem u)
next
  case (unlock w t i)
  note inv = unlock(4)
  have "at_ok (set_reg t (Some (i, 0)) (rw_u w)) (Some (i, 0)) Idle (rw_buf w t @ [Active False]) {}"
    using rcu_invD(3) [OF inv, of t] unlock(1,2) by (auto simp: epoch_ok_def buffer_ok_def)
  then show ?case using slots_set_reg [OF rcu_invD(1) [OF inv] unlock(2)] by (intro reader_inv [OF inv]) auto
next
  case (link_object w x)
  note inv = link_object(4)
  show ?case
    by (rule writer_inv [OF inv]; (simp add: rcu_invD [OF inv])?)
      (use rcu_invD(2,5) [OF inv] link_object(1,2) in \<open>auto simp: objects_ok_def Let_def waiting_ok_def\<close>)
next
  case (unlink_object w x)
  note inv = unlink_object(4)
  show ?case
    by (rule writer_inv [OF inv]; (simp add: rcu_invD [OF inv])?)
      (use rcu_invD(2,5) [OF inv] unlink_object(1,2) in \<open>auto simp: objects_ok_def Let_def waiting_ok_def\<close>)
next
  case (retire w x f h u h')
  then show ?case by (blast intro: step_retire)
next
  case (wait_starts w x f h u h')
  then show ?case using step_wait [of w x] retire_refused [OF wait_starts(4)] by simp
next
  case (gc_starts w)
  then show ?case by (intro gc_inv) (auto simp: scanned_def)
next
  case (slot_unused w j n)
  then show ?case using slots_okD(4) [OF rcu_invD(1) [OF slot_unused(5)]] by (intro scan_on) auto
next
  case (slot_used w j n)
  then show ?case using rcu_invD(4) [OF slot_used(5)] by (intro gc_inv) (auto simp: scanned_def)
next
  case (slot_inactive w j n)
  then show ?case using inactive_clear [OF slot_inactive(4,2)] by (intro scan_on) auto
next
  case (slot_active w j n)
  then show ?case using rcu_invD(4) [OF slot_active(4)] by (intro gc_inv) (auto simp: scanned_def)
next
  case (gc_epoch w oldest n)
  note inv = gc_epoch(3)
  show ?case
  proof (rule gc_inv [OF inv])
    fix t
    show "scanned (Scan (Collect (min oldest (ur_epoch (ru_readers (rw_u w) ! n)))) (Suc n)) (rw_u w) (ru_regs (rw_u w) t) (rw_holds w t)"
    proof (cases "\<exists>d. ru_regs (rw_u w) t = Some (n, d)")
      case True
      then obtain d where reg: "ru_regs (rw_u w) t = Some (n, d)" by blast
      show ?thesis using rcu_invD(3) [OF inv, of t] reg
        by (cases "rw_at w t") (auto simp: scanned_def min_le_iff_disj)
    next
      case False
      then show ?thesis using rcu_invD(4) [OF inv, of t] gc_epoch(1)
        by (auto simp: scanned_def less_Suc_eq min_le_iff_disj)
    qed
  qed simp
next
  case (wait_epoch w x target n)
  note inv = wait_epoch(3)
  let ?n = "if ur_epoch (ru_readers (rw_u w) ! n) < target then 0 else Suc n"
  show ?case
  proof (rule gc_inv [OF inv])
    fix t
    show "scanned (Scan (Wait x target) ?n) (rw_u w) (ru_regs (rw_u w) t) (rw_holds w t)"
      using rcu_invD(4) [OF inv, of t] wait_epoch(1) by (auto simp: scanned_def Suc_le_eq nat_less_le)
  qed (use wait_epoch(1) in auto)
next
  case (gc_frees w oldest gone u)
  then show ?case by (blast intro: step_frees)
next
  case (wait_frees w x target)
  then show ?case by (blast intro: step_wait_frees)
qed

lemma rcu_inv_reach: "rcu_reach True w w' \<Longrightarrow> rcu_inv w \<Longrightarrow> rcu_inv w'"
  by (induction rule: rcu_reach.induct) (auto dest: rcu_inv_step)

lemma init_urcu:
  assumes "urcu_init_checked cap h = (Some u, h')"
  shows "u = \<lparr>ru_global_epoch = 1, ru_readers = replicate URCU_MAX_THREADS \<lparr>ur_epoch = 0, ur_active = False\<rparr>,
               ru_regs = (\<lambda>_. None), ru_retired = [], ru_capacity = cap\<rparr>" "0 \<le> cap"
  using assms by (auto simp: urcu_init_checked_def split: if_splits prod.splits bool.splits)

lemma rcu_inv_new:
  assumes "urcu_init_checked cap h = (Some u, h')"
  shows "rcu_inv (new_world u X)"
  by (auto simp: rcu_inv_def new_world_def init_urcu(1) [OF assms] slots_ok_def objects_ok_def retired_ptrs_def waiting_ok_def)

section \<open>Runs\<close>

lemma reach_on: "rcu_reach b w w' \<Longrightarrow> rcu_step w' w'' \<Longrightarrow> \<not> hasty w' w'' \<or> \<not> b \<Longrightarrow> rcu_reach b w w''"
  by (rule rcu_reach.on) auto

text \<open>A scan passes the slots that are not in use.\<close>

lemma scan_unused:
  assumes w: "rw_gc w = Scan j n" "rcu_reach False w0 w" and n: "n \<le> URCU_MAX_THREADS"
    and free: "\<And>i. n \<le> i \<Longrightarrow> i < URCU_MAX_THREADS \<Longrightarrow> ur_epoch (ru_readers (rw_u w) ! i) = 0"
  shows "rcu_reach False w0 (w\<lparr>rw_gc := Scan j URCU_MAX_THREADS\<rparr>)"
proof -
  have "n + k \<le> URCU_MAX_THREADS \<Longrightarrow> rcu_reach False w0 (w\<lparr>rw_gc := Scan j (n + k)\<rparr>)" for k
  proof (induction k)
    case 0
    have "w\<lparr>rw_gc := Scan j n\<rparr> = w" using w(1) by (cases w) simp
    then show ?case using w(2) by simp
  next
    case (Suc k)
    have "rcu_step (w\<lparr>rw_gc := Scan j (n + k)\<rparr>) (w\<lparr>rw_gc := Scan j (n + Suc k)\<rparr>)"
      using rcu_step.slot_unused [of "w\<lparr>rw_gc := Scan j (n + k)\<rparr>" j "n + k"] free Suc.prems by simp
    with Suc show ?case by (auto intro: reach_on)
  qed
  from this [of "URCU_MAX_THREADS - n"] n show ?thesis by simp
qed

text \<open>
  A thread registers and goes through the code of \<^verbatim>\<open>urcu_read_lock\<close>; its two stores are in its buffer.
\<close>

definition registered :: "urcu \<Rightarrow> urcu" where
  "registered u = set_reg 0 (Some (0, 0)) (set_reader 0 (\<lambda>r. r\<lparr>ur_epoch := 1, ur_active := False\<rparr>) u)"

definition locked_world :: "urcu \<Rightarrow> nat set \<Rightarrow> world" where
  "locked_world u X = reader_goes 0 Reading [Epoch 1, Active True] (set_reg 0 (Some (0, 1)) (registered u)) (new_world u X)"

lemma locked_world_reach:
  assumes "urcu_init_checked cap h = (Some u, h')"
  shows "rcu_reach b (new_world u X) (locked_world u X)"
proof -
  note u = init_urcu(1) [OF assms]
  let ?w0 = "new_world u X" and ?u = "set_reg 0 (Some (0, 1)) (registered u)"
  let ?w1 = "?w0\<lparr>rw_u := registered u\<rparr>"
  let ?w2 = "reader_goes 0 (Loaded 1) [] ?u ?w1"
  let ?w3 = "reader_goes 0 Stored [Epoch 1] ?u ?w2"
  note defs = new_world_def reader_goes_def registered_def
  have "urcu_register_thread 0 u [] = (0, registered u, [])"
    by (simp add: urcu_register_thread_def free_slot_def registered_def u upt_conv_Cons [of 0 64])
  then have s1: "rcu_step ?w0 ?w1" using rcu_step.register [of ?w0 0 "[]"] by (simp add: new_world_def)
  have s2: "rcu_step ?w1 ?w2" using rcu_step.load_epoch [of ?w1 0 0] by (simp add: defs u)
  have s3: "rcu_step ?w2 ?w3" using rcu_step.store_epoch [of ?w2 0 1] by (simp add: defs)
  have s4: "rcu_step ?w3 (locked_world u X)" using rcu_step.store_active [of ?w3 0] by (simp add: defs locked_world_def)
  have calm: "\<not> hasty ?w0 ?w1" "\<not> hasty ?w1 ?w2" "\<not> hasty ?w2 ?w3" "\<not> hasty ?w3 (locked_world u X)"
    by (simp_all add: hasty_def locked_world_def defs)
  show ?thesis
    by (rule reach_on [OF reach_on [OF reach_on [OF reach_on [OF rcu_reach.here s1] s2] s3] s4]) (use calm in simp_all)
qed

text \<open>An object in the hands of the reader is unlinked and retired; \<open>w\<close> is the world in which it was found.\<close>

definition retired_world :: "nat \<Rightarrow> world \<Rightarrow> world" where
  "retired_world x w = w\<lparr>rw_u := fst (snd (urcu_retire_checked (Some x) None (rw_u w) [])), rw_linked := rw_linked w - {x}, rw_unlinked := {}\<rparr>"

lemma retired_world_reach:
  assumes "rcu_reach b w0 w" "rw_gc w = No_scan" "x \<in> rw_linked w" "rw_unlinked w = {}" "ru_global_epoch (rw_u w) = 1"
    "ru_retired (rw_u w) = []" "ru_capacity (rw_u w) \<ge> 0"
  shows "rcu_reach b w0 (retired_world x w)"
    and "ru_retired (rw_u (retired_world x w)) = [\<lparr>rt_ptr = x, rt_free_fn = None, rt_epoch = 1\<rparr>]"
    and "ru_global_epoch (rw_u (retired_world x w)) = 2" "ru_readers (rw_u (retired_world x w)) = ru_readers (rw_u w)"
proof -
  obtain u where r: "urcu_retire_checked (Some x) None (rw_u w) [] = (0, u, [])"
    and u: "ru_retired u = [\<lparr>rt_ptr = x, rt_free_fn = None, rt_epoch = 1\<rparr>]" "ru_global_epoch u = 2" "ru_readers u = ru_readers (rw_u w)"
  proof (cases "ru_capacity (rw_u w) = 0")
    case True
    then show thesis using assms(5,6) that by (simp add: urcu_retire_checked_def Let_def)
  next
    case False
    then show thesis using assms(5-7) that by (simp add: urcu_retire_checked_def Let_def)
  qed
  let ?w1 = "w\<lparr>rw_linked := rw_linked w - {x}, rw_unlinked := {x}\<rparr>"
  have s1: "rcu_step w ?w1" using rcu_step.unlink_object [of w x] assms(2-4) by simp
  have w2: "?w1\<lparr>rw_u := u, rw_unlinked := rw_unlinked ?w1 - {x}\<rparr> = retired_world x w"
    using r by (cases w) (simp add: retired_world_def)
  have s2: "rcu_step ?w1 (retired_world x w)"
    using rcu_step.retire [of ?w1 x None "[]" u "[]"] assms(2,5) r unfolding w2 by simp
  have "\<not> hasty w ?w1" "\<not> hasty ?w1 (retired_world x w)" by (simp_all add: hasty_def retired_world_def)
  then show "rcu_reach b w0 (retired_world x w)" using reach_on [OF reach_on [OF assms(1) s1] s2] by simp
  show "ru_retired (rw_u (retired_world x w)) = [\<lparr>rt_ptr = x, rt_free_fn = None, rt_epoch = 1\<rparr>]"
    "ru_global_epoch (rw_u (retired_world x w)) = 2" "ru_readers (rw_u (retired_world x w)) = ru_readers (rw_u w)"
    using u by (simp_all add: retired_world_def r)
qed

text \<open>The collection sees an inactive reader and frees what that reader holds.\<close>

lemma race:
  assumes init: "urcu_init_checked cap h = (Some u, h')" and x: "x \<in> X"
  shows "\<exists>w. rcu_reach False (new_world u X) w \<and> x \<in> rw_holds w 0 \<inter> rw_freed w"
proof -
  note u = init_urcu [OF init]
  let ?hw = "hold 0 {x} (locked_world u X)" and ?start = "new_world u X"
  note defs = locked_world_def new_world_def reader_goes_def registered_def hold_def
  have "rcu_step (locked_world u X) ?hw" using rcu_step.find_object [of "locked_world u X" 0 x] x by (simp add: defs)
  then have r: "rcu_reach False ?start ?hw" using reach_on [OF locked_world_reach [OF init]] by blast
  have start: "rw_gc ?hw = No_scan" "x \<in> rw_linked ?hw" "rw_unlinked ?hw = {}" "ru_global_epoch (rw_u ?hw) = 1"
    "ru_retired (rw_u ?hw) = []" "ru_capacity (rw_u ?hw) \<ge> 0"
    using x u(2) by (simp_all add: defs u(1) set_reg_def set_reader_def)
  define v where "v = retired_world x ?hw"
  have v: "rcu_reach False ?start v" "ru_retired (rw_u v) = [\<lparr>rt_ptr = x, rt_free_fn = None, rt_epoch = 1\<rparr>]"
    "ru_global_epoch (rw_u v) = 2" "ru_readers (rw_u v) = ru_readers (rw_u ?hw)" "rw_gc v = No_scan" "rw_holds v 0 = {x}"
    using retired_world_reach [OF r start] by (simp_all add: v_def) (simp_all add: retired_world_def defs)
  have readers: "ru_readers (rw_u v) = (replicate URCU_MAX_THREADS \<lparr>ur_epoch = 0, ur_active = False\<rparr>)[0 := \<lparr>ur_epoch = 1, ur_active = False\<rparr>]"
    using v(4) by (simp add: defs u set_reg_def set_reader_def)
  let ?j = "Collect 2"
  have "rcu_step v (v\<lparr>rw_gc := Scan ?j 0\<rparr>)" using rcu_step.gc_starts [of v] v(3,5) by simp
  moreover have "rcu_step (v\<lparr>rw_gc := Scan ?j 0\<rparr>) (v\<lparr>rw_gc := Used ?j 0\<rparr>)"
    using rcu_step.slot_used [of "v\<lparr>rw_gc := Scan ?j 0\<rparr>" ?j 0] by (simp add: readers)
  moreover have "rcu_step (v\<lparr>rw_gc := Used ?j 0\<rparr>) (v\<lparr>rw_gc := Scan ?j 1\<rparr>)"
    using rcu_step.slot_inactive [of "v\<lparr>rw_gc := Used ?j 0\<rparr>" ?j 0] by (simp add: readers)
  ultimately have "rcu_reach False ?start (v\<lparr>rw_gc := Scan ?j 1\<rparr>)" using v(1) by (blast intro: reach_on)
  then have all: "rcu_reach False ?start (v\<lparr>rw_gc := Scan ?j URCU_MAX_THREADS\<rparr>)"
    using scan_unused [of "v\<lparr>rw_gc := Scan ?j 1\<rparr>" ?j 1 ?start] by (simp add: readers)
  have "rcu_step (v\<lparr>rw_gc := Scan ?j URCU_MAX_THREADS\<rparr>)
      (v\<lparr>rw_u := (rw_u v)\<lparr>ru_retired := []\<rparr>, rw_gc := No_scan, rw_freed := insert x (rw_freed v)\<rparr>)"
    using rcu_step.gc_frees [of "v\<lparr>rw_gc := Scan ?j URCU_MAX_THREADS\<rparr>" 2] v(2) by (simp add: reclaim_def)
  from reach_on [OF all this] v(6) show ?thesis by force
qed

section \<open>Properties\<close>

text \<open>
  C7: When every reader's stores in \<^verbatim>\<open>urcu_read_lock\<close> have reached memory before it gets hold of an
  object, no collection and no waiting retirement frees an object that a reader holds, however the
  readers and the writer interleave. The code has no barrier that makes them wait, and without one
  there is, for any object, a run in which the collection frees it in the hands of a reader.
\<close>

theorem urcu_safe_with_barrier_only:
  assumes "urcu_init_checked cap h = (Some u, h')"
  shows "(\<forall>w t. rcu_reach True (new_world u X) w \<longrightarrow> rw_holds w t \<inter> rw_freed w = {}) \<and>
    (\<forall>x \<in> X. \<exists>w t. rcu_reach False (new_world u X) w \<and> x \<in> rw_holds w t \<inter> rw_freed w)"
proof (intro conjI allI impI)
  fix w t assume r: "rcu_reach True (new_world u X) w"
  show "rw_holds w t \<inter> rw_freed w = {}"
    using rcu_invD(2) [OF rcu_inv_reach [OF r rcu_inv_new [OF assms]]] rcu_invD(5) [OF rcu_inv_reach [OF r rcu_inv_new [OF assms]], of t]
    by (auto simp: objects_ok_def Let_def)
qed (use race [OF assms] in blast)

text \<open>A reader whose stores have reached memory holds an object that the writer takes out and retires.\<close>

definition fresh_urcu :: urcu where
  "fresh_urcu = \<lparr>ru_global_epoch = 1, ru_readers = replicate URCU_MAX_THREADS \<lparr>ur_epoch = 0, ur_active = False\<rparr>,
                 ru_regs = (\<lambda>_. None), ru_retired = [], ru_capacity = 0\<rparr>"

lemma fresh_init: "urcu_init_checked 0 [] = (Some fresh_urcu, [])"
  by (simp add: urcu_init_checked_def fresh_urcu_def)

lemma patient_run:
  obtains w where "rcu_reach True (new_world fresh_urcu {5}) w" "rw_holds w 0 = {5}" "5 \<in> retired_ptrs (rw_u w)"
proof -
  let ?w0 = "locked_world fresh_urcu {5}" and ?u = "set_reg 0 (Some (0, 1)) (registered fresh_urcu)"
  let ?w1 = "reader_goes 0 Reading [Active True] (apply_store 0 (Epoch 1) ?u) ?w0"
  let ?w2 = "reader_goes 0 Reading [] (apply_store 0 (Active True) (rw_u ?w1)) ?w1"
  let ?w3 = "hold 0 {5} ?w2"
  note defs = locked_world_def new_world_def reader_goes_def registered_def hold_def fresh_urcu_def
  have s1: "rcu_step ?w0 ?w1" using rcu_step.reaches_memory [of ?w0 0 "Epoch 1" "[Active True]" 0 1] by (simp add: defs)
  have s2: "rcu_step ?w1 ?w2"
    using rcu_step.reaches_memory [of ?w1 0 "Active True" "[]" 0 1] by (simp add: defs store_epoch_def)
  have s3: "rcu_step ?w2 ?w3" using rcu_step.find_object [of ?w2 0 5] by (simp add: defs)
  have "\<not> hasty ?w0 ?w1" "\<not> hasty ?w1 ?w2" "\<not> hasty ?w2 ?w3" by (simp_all add: hasty_def defs)
  then have r: "rcu_reach True (new_world fresh_urcu {5}) ?w3"
    using reach_on [OF reach_on [OF reach_on [OF locked_world_reach [OF fresh_init] s1] s2] s3] by simp
  have "rw_gc ?w3 = No_scan" "rw_linked ?w3 = {5}" "rw_unlinked ?w3 = {}" "ru_global_epoch (rw_u ?w3) = 1"
    "ru_retired (rw_u ?w3) = []" "ru_capacity (rw_u ?w3) = 0"
    by (simp_all add: defs store_epoch_def store_active_def set_reg_def set_reader_def)
  with retired_world_reach [OF r, of 5] that [of "retired_world 5 ?w3"] show ?thesis
    by (simp add: retired_ptrs_def retired_world_def hold_def)
qed

theorem urcu_safe_with_barrier_only_witness:
  "(\<exists>w. rcu_reach True (new_world fresh_urcu {5}) w \<and> rw_holds w 0 = {5} \<and> 5 \<in> retired_ptrs (rw_u w) \<and>
      rw_holds w 0 \<inter> rw_freed w = {}) \<and>
   (\<exists>w t. rcu_reach False (new_world fresh_urcu {5}) w \<and> 5 \<in> rw_holds w t \<inter> rw_freed w)"
proof -
  obtain w where w: "rcu_reach True (new_world fresh_urcu {5}) w" "rw_holds w 0 = {5}" "5 \<in> retired_ptrs (rw_u w)"
    by (rule patient_run)
  from urcu_safe_with_barrier_only [OF fresh_init, of "{5}"] w show ?thesis by blast
qed

end
