(* ===== verification/Query_Scan.thy ===== *)
theory Query_Scan
  imports Query_Ops Facts_Spec
begin

text \<open>
  What one cursor of \<^verbatim>\<open>lib/facts.c\<close> enumerates: the range of keys that \<^verbatim>\<open>facts_with_3\<close>,
  \<^verbatim>\<open>facts_with_0\<close> and \<^verbatim>\<open>facts_with_1_2\<close> choose holds exactly the stored facts that the pattern
  fits, whichever of the three tries is used, and the cursor gives each of them once.
\<close>

section \<open>Ranges of keys\<close>

lemma lex_not_less:
  fixes x x' :: "'a::linorder" and y y' :: "'b::linorder" and z z' :: "'c::linorder"
  shows "\<not> (x' < x \<or> (x' = x \<and> (y' < y \<or> (y' = y \<and> z' < z)))) \<longleftrightarrow>
    x < x' \<or> (x = x' \<and> (y < y' \<or> (y = y' \<and> z \<le> z')))"
  by (cases x x' rule: linorder_cases; cases y y' rule: linorder_cases) (auto simp: not_less)

lemma triple_key_le:
  "encode_triple_key a b c \<le> encode_triple_key a' b' c' \<longleftrightarrow>
     get_symbol_id a < get_symbol_id a' \<or> (get_symbol_id a = get_symbol_id a' \<and>
       (get_symbol_id b < get_symbol_id b' \<or> (get_symbol_id b = get_symbol_id b' \<and> get_symbol_id c \<le> get_symbol_id c')))"
proof -
  have "encode_triple_key a b c \<le> encode_triple_key a' b' c' \<longleftrightarrow> \<not> encode_triple_key a' b' c' < encode_triple_key a b c"
    by (simp add: not_less)
  then show ?thesis unfolding triple_key_less lex_not_less .
qed

lemma word_ends [simp]:
  "0 < (i::u64) \<longleftrightarrow> i \<noteq> 0" "(i::u64) < UINT64_MAX \<longleftrightarrow> i \<noteq> UINT64_MAX" "(i::u64) \<le> UINT64_MAX"
  using word_order.not_eq_extremum [of i] by (auto simp: word_gt_0)

text \<open>The bounds of a position that is free or has a given symbol.\<close>

definition lower :: "symbol option \<Rightarrow> symbol" where
  "lower x = (case x of None \<Rightarrow> P_FIRST | Some y \<Rightarrow> y)"

definition upper :: "symbol option \<Rightarrow> symbol" where
  "upper x = (case x of None \<Rightarrow> P_LAST | Some y \<Rightarrow> y)"

definition same_id :: "symbol option \<Rightarrow> symbol \<Rightarrow> bool" where
  "same_id x y = (case x of None \<Rightarrow> True | Some z \<Rightarrow> get_symbol_id z = get_symbol_id y)"

lemma bound_simps [simp]:
  "lower None = P_FIRST" "upper None = P_LAST" "lower (Some y) = y" "upper (Some y) = y" "same_id None z"
  "same_id (Some y) z = (get_symbol_id y = get_symbol_id z)"
  by (simp_all add: lower_def upper_def same_id_def)

lemma key_range:
  assumes "x1 = None \<longrightarrow> x2 = None" "x2 = None \<longrightarrow> x3 = None"
  shows "encode_triple_key (lower x1) (lower x2) (lower x3) \<le> encode_triple_key a b c \<and>
      encode_triple_key a b c \<le> encode_triple_key (upper x1) (upper x2) (upper x3) \<longleftrightarrow>
    same_id x1 a \<and> same_id x2 b \<and> same_id x3 c"
  using assms
  by (cases x1; cases x2; cases x3) (simp_all add: triple_key_le, auto)

text \<open>The positions in the order of a trie.\<close>

definition rotate :: "nat \<Rightarrow> 'a \<times> 'a \<times> 'a \<Rightarrow> 'a \<times> 'a \<times> 'a" where
  "rotate tree x = (case x of (s, p, ob) \<Rightarrow> if tree = 0 then (s, p, ob) else if tree = 1 then (p, ob, s) else (ob, s, p))"

lemma cursor_key_eq:
  "encode_cursor_key f tree = (case rotate tree f of (a, b, c) \<Rightarrow> encode_triple_key a b c)"
  by (cases f) (simp add: encode_cursor_key_def rotate_def encode_triple_key_def)

definition fact_cursor_key :: "nat \<Rightarrow> fact \<Rightarrow> byte list" where
  "fact_cursor_key tree f = encode_cursor_key (f_s f, f_p f, f_o f) tree"

lemma tree_of_ok:
  assumes "hexa_ok hp A x"
  shows "trie_of (fact_cursor_key tree \<circ> hp) A (tree_of x tree)"
proof -
  have "fact_cursor_key 0 = spo_key" "fact_cursor_key (Suc 0) = pos_key"
    "tree \<noteq> 0 \<Longrightarrow> tree \<noteq> Suc 0 \<Longrightarrow> fact_cursor_key tree = osp_key"
    by (rule ext; simp add: fact_cursor_key_def cursor_key_eq rotate_def spo_key_def pos_key_def osp_key_def)+
  then show ?thesis using hexa_okD [OF assms] by (simp add: tree_of_def)
qed

lemma set_takeWhile_le:
  fixes E :: "'k::linorder"
  assumes "sorted_wrt (<) (map fst l)"
  shows "set (takeWhile (\<lambda>e. fst e \<le> E) l) = {e \<in> set l. fst e \<le> E}"
  using assms
proof (induction l)
  case (Cons e l)
  have "\<not> fst e' \<le> E" if "\<not> fst e \<le> E" "e' \<in> set l" for e'
  proof -
    have "fst e < fst e'" using Cons.prems that(2) by simp
    then show ?thesis using that(1) by (meson less_imp_le order_trans)
  qed
  with Cons show ?case by auto
qed simp

text \<open>The facts of a trie between two keys.\<close>

definition key_scan :: "trie \<Rightarrow> byte list \<Rightarrow> byte list \<Rightarrow> addr list" where
  "key_scan t start stop = map snd (takeWhile (\<lambda>e. fst e \<le> stop) (raxSeekGe t start))"

lemma key_scan_trie:
  assumes "trie_of key A t"
  shows "set (key_scan t start stop) = {a \<in> A. start \<le> key a \<and> key a \<le> stop}" "distinct (key_scan t start stop)"
proof -
  note ok = trie_ofD(1) [OF assms]
  have seek: "rax_ok (raxSeekGe t start)" by (rule sorted_raxSeekGe [OF ok])
  then have "set (takeWhile (\<lambda>e. fst e \<le> stop) (raxSeekGe t start)) = {e \<in> set t. start \<le> fst e \<and> fst e \<le> stop}"
    by (subst set_takeWhile_le) (auto simp: rax_ok_def set_raxSeekGe [OF ok])
  moreover have mem: "(k, a) \<in> set t \<longleftrightarrow> a \<in> A \<and> key a = k" for k a
    using trie_ofD(2) [OF assms] rx.entries_find [OF ok] by metis
  ultimately have "a \<in> set (key_scan t start stop) \<longleftrightarrow> (\<exists>k. (k, a) \<in> set t \<and> start \<le> k \<and> k \<le> stop)" for a
    unfolding key_scan_def by (auto simp: image_iff)
  then show "set (key_scan t start stop) = {a \<in> A. start \<le> key a \<and> key a \<le> stop}"
    by (auto simp: mem)
  have "distinct (map snd t)" by (rule trie_of_values(2) [OF assms])
  then have "distinct (map snd (raxSeekGe t start))"
    unfolding raxSeekGe_def by (metis distinct_append map_append takeWhile_dropWhile_id)
  then show "distinct (key_scan t start stop)"
    unfolding key_scan_def by (metis distinct_append map_append takeWhile_dropWhile_id)
qed

section \<open>Symbols and strings\<close>

lemma stored_symbols_in: "f_s f \<in># fsyms f" "f_p f \<in># fsyms f" "f_o f \<in># fsyms f"
  by (simp_all add: fsyms_def)

text \<open>A symbol that is looked up has the identifier of a symbol of a stored fact only if it is that symbol.\<close>

lemma find_same_id:
  assumes ok: "db_ok X st" and a: "a \<in> stored st" and y: "y \<in># fsyms (db_heap st a)"
    and s: "intern_find_symbol_str (db_symbols st) s \<noteq> P_FIRST"
  shows "get_symbol_id (intern_find_symbol_str (db_symbols st) s) = get_symbol_id y \<longleftrightarrow> sym_data y = s"
proof -
  note t = symbols_okD [OF db_ok_table [OF ok]]
  have h: "0 < held (db_symbols st) y" by (rule stored_held(1) [OF ok a y])
  note f = find_symbol_held [OF t(1)]
  show ?thesis using held_ids [OF t(1) conjunct1 [OF f(2) [OF s]] h] f(2) [OF s] f(1) [OF h] by auto
qed

lemma find_absent:
  assumes "db_ok X st" "a \<in> stored st" "y \<in># fsyms (db_heap st a)" "intern_find_symbol_str (db_symbols st) s = P_FIRST"
  shows "sym_data y \<noteq> s"
  using stored_symbol(1,2) [OF assms(1-3)] assms(4) by auto

section \<open>Cursors\<close>

text \<open>What a cursor has still to give, and the slots it writes.\<close>

definition cursor_left :: "facts_cursor \<Rightarrow> addr list" where
  "cursor_left c =
     (if cu_started c = 2 then []
      else map snd (takeWhile (\<lambda>e. fst e \<le> cu_end_key c) (if cu_started c = 0 then cu_it c else tl (cu_it c))))"

definition cursor_slots :: "facts_cursor \<Rightarrow> slot set" where
  "cursor_slots c = set_option (cu_var_s c) \<union> set_option (cu_var_p c) \<union> set_option (cu_var_o c)"

definition vars_of :: "facts_cursor \<Rightarrow> slot option \<times> slot option \<times> slot option" where
  "vars_of c = (cu_var_s c, cu_var_p c, cu_var_o c)"

definition put_fact :: "facts_cursor \<Rightarrow> fact \<Rightarrow> slots \<Rightarrow> slots" where
  "put_fact c f m =
     put_slot (cu_var_o c) (symbol_to_str (f_o f))
       (put_slot (cu_var_p c) (symbol_to_str (f_p f)) (put_slot (cu_var_s c) (symbol_to_str (f_s f)) m))"

text \<open>The database while cursors of this thread hold the reader lock \<open>n\<close> times.\<close>

definition reading :: "nat \<Rightarrow> facts \<Rightarrow> facts" where
  "reading n st = st\<lparr>db_tx := (db_tx st)\<lparr>tx_readers := n\<rparr>\<rparr>"

lemma reading_simps [simp]:
  "db_symbols (reading n st) = db_symbols st" "db_hexastore (reading n st) = db_hexastore st" "db_heap (reading n st) = db_heap st"
  "db_mem (reading n st) = db_mem st" "tx_readers (db_tx (reading n st)) = n" "tx_owned (db_tx (reading n st)) = tx_owned (db_tx st)"
  "reading m (reading n st) = reading m st" "db_index (reading n st) = db_index st"
  by (simp_all add: reading_def)

lemma reading_same [simp]: "reading (tx_readers (db_tx st)) st = st"
  by (simp add: reading_def)

definition busy :: "facts_cursor \<Rightarrow> nat" where
  "busy c = (if cu_locked c then 1 else 0)"

lemma acquire_reading:
  "transaction_acquire_reader (db_tx (reading n st)) =
     (\<not> tx_owned (db_tx st), db_tx (reading (if tx_owned (db_tx st) then n else n + 1) st))"
  by (simp add: transaction_acquire_reader_def transaction_writer_owned_def reading_def)

lemma reading_put [simp]: "(reading n st)\<lparr>db_tx := db_tx (reading k st)\<rparr> = reading k st"
  by (simp add: reading_def)

lemma release_reading:
  "transaction_release_reader (db_tx (reading (n + (if l then 1 else 0)) st)) l = Some (db_tx (reading n st))"
  by (simp add: transaction_release_reader_def reading_def)

lemma with_reader_reading:
  assumes "act (reading (if tx_owned (db_tx st) then n else n + 1) st) =
    Some (r, reading (k + (if tx_owned (db_tx st) then 0 else 1)) st)"
  shows "with_reader act (reading n st) = Some (r, reading k st)"
  using assms release_reading [of k "\<not> tx_owned (db_tx st)" st]
  by (auto simp: with_reader_def acquire_reading split: if_splits)

lemma with_reader_cong:
  "(\<And>k. act (reading k st) = act' (reading k st)) \<Longrightarrow> with_reader act (reading n st) = with_reader act' (reading n st)"
  by (simp add: with_reader_def acquire_reading)

lemma stop_running:
  assumes "cu_started c \<noteq> 2"
  shows "facts_cursor_stop c (reading (n + busy c) st) =
    Some (c\<lparr>cu_it := [], cu_started := 2, cu_locked := False\<rparr>, reading n st)"
  using assms release_reading [of n "cu_locked c" st] by (simp add: facts_cursor_stop_def busy_def)

lemma next_gives:
  assumes "cursor_left c = a # as"
  obtains c' where "facts_cursor_next c m st = Some (Some a, c', put_fact c (db_heap st a) m, st)"
    "cursor_left c' = as" "vars_of c' = vars_of c" "cu_started c' \<noteq> 2" "cu_locked c' = cu_locked c"
proof -
  let ?it = "if cu_started c = 0 then cu_it c else tl (cu_it c)"
  from assms have run: "cu_started c \<noteq> 2" "map snd (takeWhile (\<lambda>e. fst e \<le> cu_end_key c) ?it) = a # as"
    by (auto simp: cursor_left_def split: if_splits)
  then obtain k rest where it: "?it = (k, a) # rest" "k \<le> cu_end_key c" "map snd (takeWhile (\<lambda>e. fst e \<le> cu_end_key c) rest) = as"
    by (cases ?it) (auto split: if_splits)
  let ?c = "if cu_started c = 0 then c\<lparr>cu_started := 1\<rparr> else c\<lparr>cu_it := tl (cu_it c)\<rparr>"
  have c: "cu_it ?c = (k, a) # rest" "cu_end_key ?c = cu_end_key c" "cu_started ?c \<noteq> 0" "cu_started ?c \<noteq> 2"
    "vars_of ?c = vars_of c" "cu_locked ?c = cu_locked c"
    "cu_var_s ?c = cu_var_s c" "cu_var_p ?c = cu_var_p c" "cu_var_o ?c = cu_var_o c"
    using it(1) run(1) by (auto simp: vars_of_def split: if_splits)
  have "facts_cursor_next c m st = Some (Some a, ?c, put_fact c (db_heap st a) m, st)"
    using run(1) it(2) c(1,2,7-9) by (simp add: facts_cursor_next_def Let_def put_fact_def)
  moreover have "cursor_left ?c = as" unfolding cursor_left_def using c(1-4) it(3) by simp
  ultimately show ?thesis using that c(4-6) by blast
qed

lemma next_ends:
  assumes left: "cursor_left c = []" and run: "cu_started c \<noteq> 2"
  obtains c' where "facts_cursor_next c m (reading (n + busy c) st) =
      Some (None, c', (\<lambda>i. if i \<in> cursor_slots c then None else m i), reading n st)" "cu_started c' = 2"
proof -
  let ?it = "if cu_started c = 0 then cu_it c else tl (cu_it c)"
  let ?c = "if cu_started c = 0 then c\<lparr>cu_started := 1\<rparr> else c\<lparr>cu_it := tl (cu_it c)\<rparr>"
  from left run have it: "?it = [] \<or> \<not> fst (hd ?it) \<le> cu_end_key c"
    unfolding cursor_left_def by (cases ?it) (auto split: if_splits)
  have c: "cu_it ?c = ?it" "cu_end_key ?c = cu_end_key c" "cu_started ?c \<noteq> 2" "busy ?c = busy c"
    "cu_var_s ?c = cu_var_s c" "cu_var_p ?c = cu_var_p c" "cu_var_o ?c = cu_var_o c"
    using run by (auto simp: busy_def)
  have cur: "(case cu_it ?c of [] \<Rightarrow> None | (k, a) # _ \<Rightarrow> if k \<le> cu_end_key ?c then Some a else None) = None"
    unfolding c(1,2) using it by (cases ?it) (simp_all add: case_prod_beta)
  have slots: "put_slot (cu_var_o c) None (put_slot (cu_var_p c) None (put_slot (cu_var_s c) None m)) =
      (\<lambda>i. if i \<in> cursor_slots c then None else m i)"
    by (auto simp: put_slot_def cursor_slots_def fun_eq_iff split: option.split)
  have "facts_cursor_stop ?c (reading (n + busy c) st) = Some (?c\<lparr>cu_it := [], cu_started := 2, cu_locked := False\<rparr>, reading n st)"
    using stop_running [OF c(3), of n st] c(4) by simp
  then have "facts_cursor_next c m (reading (n + busy c) st) =
      Some (None, ?c\<lparr>cu_it := [], cu_started := 2, cu_locked := False\<rparr>,
        put_slot (cu_var_o c) None (put_slot (cu_var_p c) None (put_slot (cu_var_s c) None m)), reading n st)"
    unfolding facts_cursor_next_def Let_def cur using run c(5-7) by simp
  with slots show ?thesis by (intro that [of "?c\<lparr>cu_it := [], cu_started := 2, cu_locked := False\<rparr>"]) simp_all
qed

section \<open>The cursor of a pattern\<close>

text \<open>A position that is a declared variable fits everything, any other its own string.\<close>

definition pattern_fits :: "binding list \<Rightarrow> triple \<Rightarrow> triple \<Rightarrow> bool" where
  "pattern_fits bs p t =
     (case p of (s, p, ob) \<Rightarrow> case t of (s', p', o') \<Rightarrow>
        (var_slot bs s = None \<longrightarrow> s' = s) \<and> (var_slot bs p = None \<longrightarrow> p' = p) \<and> (var_slot bs ob = None \<longrightarrow> o' = ob))"

definition fitting :: "binding list \<Rightarrow> triple \<Rightarrow> facts \<Rightarrow> addr set" where
  "fitting bs p st = {a \<in> stored st. pattern_fits bs p (triple_of (db_heap st a))}"

lemma key_scan_facts:
  assumes ok: "db_ok X st" and prefix: "rotate tree (x1, x2, x3) = (y1, y2, y3)" "y1 = None \<longrightarrow> y2 = None" "y2 = None \<longrightarrow> y3 = None"
  defines "l \<equiv> key_scan (tree_of (db_hexastore st) tree) (encode_cursor_key (lower x1, lower x2, lower x3) tree)
      (encode_cursor_key (upper x1, upper x2, upper x3) tree)"
  shows "distinct l"
    "set l = {a \<in> stored st. same_id x1 (f_s (db_heap st a)) \<and> same_id x2 (f_p (db_heap st a)) \<and> same_id x3 (f_o (db_heap st a))}"
proof -
  have hex: "hexa_ok (db_heap st) (stored st) (db_hexastore st)" by (rule store_okD(2) [OF db_ok_store [OF ok]])
  note scan = key_scan_trie [OF tree_of_ok [OF hex, of tree]]
  show "distinct l" unfolding l_def by (rule scan(2))
  have "(encode_cursor_key (lower x1, lower x2, lower x3) tree \<le> fact_cursor_key tree f \<and>
       fact_cursor_key tree f \<le> encode_cursor_key (upper x1, upper x2, upper x3) tree) \<longleftrightarrow>
      same_id x1 (f_s f) \<and> same_id x2 (f_p f) \<and> same_id x3 (f_o f)" for f
  proof -
    obtain a b c where abc: "rotate tree (f_s f, f_p f, f_o f) = (a, b, c)" by (metis prod_cases3)
    have "fact_cursor_key tree f = encode_triple_key a b c"
      "encode_cursor_key (lower x1, lower x2, lower x3) tree = encode_triple_key (lower y1) (lower y2) (lower y3)"
      "encode_cursor_key (upper x1, upper x2, upper x3) tree = encode_triple_key (upper y1) (upper y2) (upper y3)"
      "(same_id x1 (f_s f) \<and> same_id x2 (f_p f) \<and> same_id x3 (f_o f)) = (same_id y1 a \<and> same_id y2 b \<and> same_id y3 c)"
      using abc prefix(1) by (auto simp: fact_cursor_key_def cursor_key_eq rotate_def split: if_splits)
    then show ?thesis using key_range [OF prefix(2,3), of a b c] by simp
  qed
  then show "set l = {a \<in> stored st. same_id x1 (f_s (db_heap st a)) \<and> same_id x2 (f_p (db_heap st a)) \<and> same_id x3 (f_o (db_heap st a))}"
    unfolding l_def scan(1) by simp
qed

lemma init_reading:
  "facts_cursor_init tree start stop (reading n st) =
     (\<lparr>cu_it = raxSeekGe (tree_of (db_hexastore st) tree) (encode_cursor_key (case start of Some f \<Rightarrow> f | None \<Rightarrow> (P_FIRST, P_FIRST, P_FIRST)) tree),
       cu_end_key = encode_cursor_key (case stop of Some f \<Rightarrow> f | None \<Rightarrow> (P_LAST, P_LAST, P_LAST)) tree, cu_started = 0,
       cu_locked = (\<not> tx_owned (db_tx st)), cu_index_type = tree, cu_var_s = None, cu_var_p = None, cu_var_o = None\<rparr>,
      reading (if tx_owned (db_tx st) then n else n + 1) st)"
  by (simp add: facts_cursor_init_def acquire_reading)

lemma empty_reading:
  obtains c where "empty_cursor (reading n st) = Some (c, reading n st)" "cursor_left c = []" "cu_started c = 2"
    "cursor_slots c = {}" "\<not> cu_locked c"
proof -
  obtain c0 st0 where i: "facts_cursor_init 0 None None (reading n st) = (c0, st0)" by fastforce
  then have c0: "st0 = reading (n + busy c0) st" "cu_started c0 \<noteq> 2" "cursor_slots c0 = {}"
    by (auto simp: init_reading busy_def cursor_slots_def)
  let ?c = "c0\<lparr>cu_it := [], cu_started := 2, cu_locked := False\<rparr>"
  have "empty_cursor (reading n st) = Some (?c, reading n st)"
    using stop_running [OF c0(2), of n st] by (simp add: empty_cursor_def i c0(1))
  then show ?thesis using c0(3) by (intro that [of ?c]) (simp_all add: cursor_left_def cursor_slots_def)
qed

text \<open>What is shown of a cursor that was just opened for the pattern.\<close>

definition opens :: "facts_cursor action \<Rightarrow> slot option \<times> slot option \<times> slot option \<Rightarrow> addr list \<Rightarrow> nat \<Rightarrow> facts \<Rightarrow> bool" where
  "opens act vars l n st \<longleftrightarrow>
     (\<exists>c. act (reading n st) = Some (c, reading (n + busy c) st) \<and> cursor_left c = l \<and>
        (if cu_started c = 2 then \<not> cu_locked c \<and> cursor_slots c = {}
         else vars_of c = vars))"

lemma opens_empty: "opens (with_reader empty_cursor) vars [] n st"
proof -
  obtain c where c: "empty_cursor (reading (if tx_owned (db_tx st) then n else n + 1) st) =
      Some (c, reading (if tx_owned (db_tx st) then n else n + 1) st)"
    "cursor_left c = []" "cu_started c = 2" "cursor_slots c = {}" "\<not> cu_locked c" by (rule empty_reading)
  have "with_reader empty_cursor (reading n st) = Some (c, reading n st)"
    using with_reader_reading [of empty_cursor st n c n] c(1) by simp
  then show ?thesis using c unfolding opens_def by (auto simp: busy_def)
qed

lemma opens_range:
  assumes "(case start of Some f \<Rightarrow> f | None \<Rightarrow> (P_FIRST, P_FIRST, P_FIRST)) = lo"
    "(case stop of Some f \<Rightarrow> f | None \<Rightarrow> (P_LAST, P_LAST, P_LAST)) = hi"
  shows "opens (with_reader (\<lambda>st. case facts_cursor_init tree start stop st of (c, st) \<Rightarrow> Some (with_vars vs vp vo c, st))) (vs, vp, vo)
    (key_scan (tree_of (db_hexastore st) tree) (encode_cursor_key lo tree) (encode_cursor_key hi tree)) n st"
proof -
  let ?act = "\<lambda>st. case facts_cursor_init tree start stop st of (c, st) \<Rightarrow> Some (with_vars vs vp vo c, st)"
  let ?c = "with_vars vs vp vo (fst (facts_cursor_init tree start stop (reading n st)))"
  let ?n = "if tx_owned (db_tx st) then n else n + 1"
  have c: "cu_started ?c = 0" "busy ?c = (if tx_owned (db_tx st) then 0 else 1)" "vars_of ?c = (vs, vp, vo)"
    by (simp_all add: init_reading with_vars_def busy_def vars_of_def)
  have left: "cursor_left ?c = key_scan (tree_of (db_hexastore st) tree) (encode_cursor_key lo tree) (encode_cursor_key hi tree)"
    unfolding cursor_left_def key_scan_def init_reading assms by (simp add: with_vars_def)
  have "?act (reading ?n st) = Some (?c, reading (n + busy ?c + (if tx_owned (db_tx st) then 0 else 1)) st)"
    unfolding c(2) by (simp add: init_reading)
  then have "with_reader ?act (reading n st) = Some (?c, reading (n + busy ?c) st)"
    by (rule with_reader_reading)
  then show ?thesis using c left unfolding opens_def by (intro exI [of _ ?c]) simp
qed

text \<open>The symbol that a position asks for.\<close>

definition asked :: "binding list \<Rightarrow> facts \<Rightarrow> cstr \<Rightarrow> symbol option" where
  "asked bs st w = (if var_slot bs w = None then Some (intern_find_symbol_str (db_symbols st) w) else None)"

lemma asked_same_id:
  assumes "db_ok X st" "a \<in> stored st" "y \<in># fsyms (db_heap st a)"
    and "var_slot bs w = None \<longrightarrow> intern_find_symbol_str (db_symbols st) w \<noteq> P_FIRST"
  shows "same_id (asked bs st w) y \<longleftrightarrow> (var_slot bs w = None \<longrightarrow> sym_data y = w)"
  using find_same_id [OF assms(1-3), of w] assms(4) by (auto simp: asked_def)

lemma fits_symbols:
  assumes ok: "db_ok X st"
    and known: "\<And>w. w \<in> {s, p, ob} \<Longrightarrow> var_slot bs w = None \<longrightarrow> intern_find_symbol_str (db_symbols st) w \<noteq> P_FIRST"
  shows "fitting bs (s, p, ob) st = {a \<in> stored st. same_id (asked bs st s) (f_s (db_heap st a)) \<and>
    same_id (asked bs st p) (f_p (db_heap st a)) \<and> same_id (asked bs st ob) (f_o (db_heap st a))}"
proof -
  have "pattern_fits bs (s, p, ob) (triple_of (db_heap st a)) \<longleftrightarrow> same_id (asked bs st s) (f_s (db_heap st a)) \<and>
      same_id (asked bs st p) (f_p (db_heap st a)) \<and> same_id (asked bs st ob) (f_o (db_heap st a))"
    if a: "a \<in> stored st" for a
  proof -
    note same = asked_same_id [OF ok a]
    show ?thesis
      unfolding same [OF stored_symbols_in(1) known, of s, simplified] same [OF stored_symbols_in(2) known, of p, simplified]
        same [OF stored_symbols_in(3) known, of ob, simplified]
      by (simp add: pattern_fits_def triple_of_def)
  qed
  then show ?thesis unfolding fitting_def by blast
qed

lemma fitting_absent:
  assumes ok: "db_ok X st" and w: "w \<in> {s, p, ob}" "var_slot bs w = None" "intern_find_symbol_str (db_symbols st) w = P_FIRST"
  shows "fitting bs (s, p, ob) st = {}"
proof -
  have "sym_data y \<noteq> w" if "a \<in> stored st" "y \<in># fsyms (db_heap st a)" for a y
    by (rule find_absent [OF ok that w(3)])
  then have "sym_data (f_s (db_heap st a)) \<noteq> w" "sym_data (f_p (db_heap st a)) \<noteq> w" "sym_data (f_o (db_heap st a)) \<noteq> w"
    if "a \<in> stored st" for a
    using that stored_symbols_in [of "db_heap st a"] by blast+
  then show ?thesis using w(1,2) unfolding fitting_def pattern_fits_def triple_of_def by auto
qed

text \<open>What the cursor of a pattern gives: nothing if it names a string that is no symbol, else a range of one trie.\<close>

definition chosen_tree :: "binding list \<Rightarrow> triple \<Rightarrow> nat" where
  "chosen_tree bs q =
     (case q of (s, p, ob) \<Rightarrow>
        let vs = var_slot bs s; vp = var_slot bs p; vo = var_slot bs ob in
        if vs = None \<and> (vo \<noteq> None \<or> vp = None) \<or> (vs \<noteq> None \<and> vp \<noteq> None \<and> vo \<noteq> None) then 0
        else if vp = None then 1 else 2)"

definition names_nothing :: "binding list \<Rightarrow> triple \<Rightarrow> facts \<Rightarrow> bool" where
  "names_nothing bs q st =
     (case q of (s, p, ob) \<Rightarrow> \<exists>w \<in> {s, p, ob}. var_slot bs w = None \<and> intern_find_symbol_str (db_symbols st) w = P_FIRST)"

definition pattern_scan :: "binding list \<Rightarrow> triple \<Rightarrow> facts \<Rightarrow> addr list" where
  "pattern_scan bs q st =
     (if names_nothing bs q st then []
      else case q of (s, p, ob) \<Rightarrow>
        let asks = (\<lambda>f. encode_cursor_key (f (asked bs st s), f (asked bs st p), f (asked bs st ob)) (chosen_tree bs q))
        in key_scan (tree_of (db_hexastore st) (chosen_tree bs q)) (asks lower) (asks upper))"

lemma pattern_scan_fitting:
  assumes ok: "db_ok X st"
  shows "set (pattern_scan bs q st) = fitting bs q st" "distinct (pattern_scan bs q st)"
proof -
  obtain s p ob where q: "q = (s, p, ob)" by (rule prod_cases3)
  have "set (pattern_scan bs q st) = fitting bs q st \<and> distinct (pattern_scan bs q st)"
  proof (cases "names_nothing bs q st")
    case True
    then obtain w where "w \<in> {s, p, ob}" "var_slot bs w = None" "intern_find_symbol_str (db_symbols st) w = P_FIRST"
      unfolding names_nothing_def q by blast
    then have "fitting bs (s, p, ob) st = {}" by (rule fitting_absent [OF ok])
    with True show ?thesis by (simp add: pattern_scan_def q)
  next
    case False
    obtain y1 y2 y3 where rot: "rotate (chosen_tree bs q) (asked bs st s, asked bs st p, asked bs st ob) = (y1, y2, y3)"
      by (metis prod_cases3)
    then have prefix: "y1 = None \<longrightarrow> y2 = None" "y2 = None \<longrightarrow> y3 = None"
      by (auto simp: rotate_def chosen_tree_def q asked_def Let_def split: if_splits)
    have "fitting bs (s, p, ob) st = {a \<in> stored st. same_id (asked bs st s) (f_s (db_heap st a)) \<and>
        same_id (asked bs st p) (f_p (db_heap st a)) \<and> same_id (asked bs st ob) (f_o (db_heap st a))}"
      using False by (intro fits_symbols [OF ok]) (auto simp: names_nothing_def q)
    with False key_scan_facts [OF ok rot prefix] show ?thesis by (simp add: pattern_scan_def q Let_def)
  qed
  then show "set (pattern_scan bs q st) = fitting bs q st" "distinct (pattern_scan bs q st)" by simp_all
qed

lemma with_spo_opens:
  "opens (facts_with_spo bs s p ob) (var_slot bs s, var_slot bs p, var_slot bs ob) (pattern_scan bs (s, p, ob) st) n st"
proof -
  let ?vs = "var_slot bs s" and ?vp = "var_slot bs p" and ?vo = "var_slot bs ob"
  let ?find = "intern_find_symbol_str (db_symbols st)"
  let ?range = "\<lambda>tree start stop. with_reader (\<lambda>st.
    case facts_cursor_init tree start stop st of (c, st) \<Rightarrow> Some (with_vars ?vs ?vp ?vo c, st))"
  show ?thesis
  proof (cases "names_nothing bs (s, p, ob) st")
    case True
    then have scan: "pattern_scan bs (s, p, ob) st = []" by (simp add: pattern_scan_def)
    have null: "(?vs = None \<and> ?find s = P_FIRST) \<or> (?vp = None \<and> ?find p = P_FIRST) \<or> (?vo = None \<and> ?find ob = P_FIRST)"
      using True by (auto simp: names_nothing_def)
    have "facts_with_spo bs s p ob (reading n st) = with_reader empty_cursor (reading n st)"
    proof (cases "?vs = None \<and> ?vp = None \<and> ?vo = None")
      case True
      then show ?thesis using null by (simp add: facts_with_spo_def facts_with_3_def with_reader_def acquire_reading Let_def some_null_def)
    next
      case False
      moreover have "\<not> (?vs \<noteq> None \<and> ?vp \<noteq> None \<and> ?vo \<noteq> None)" using null by auto
      ultimately have "facts_with_spo bs s p ob = facts_with_1_2 s p ob ?vs ?vp ?vo"
        unfolding facts_with_spo_def Let_def by (simp only: if_False)
      moreover have "(?vs = None \<and> (if ?vs \<noteq> None then P_FIRST else ?find s) = P_FIRST) \<or>
          (?vp = None \<and> (if ?vp \<noteq> None then P_FIRST else ?find p) = P_FIRST) \<or>
          (?vo = None \<and> (if ?vo \<noteq> None then P_FIRST else ?find ob) = P_FIRST)" using null by presburger
      ultimately show ?thesis
        unfolding facts_with_1_2_def Let_def by (simp only:) (rule with_reader_cong, simp only: reading_simps if_True)
    qed
    then show ?thesis using opens_empty unfolding opens_def scan by simp
  next
    case False
    let ?b = "\<lambda>f. Some (f (asked bs st s), f (asked bs st p), f (asked bs st ob))"
    let ?tree = "chosen_tree bs (s, p, ob)"
    have known: "?vs = None \<Longrightarrow> ?find s \<noteq> P_FIRST" "?vp = None \<Longrightarrow> ?find p \<noteq> P_FIRST" "?vo = None \<Longrightarrow> ?find ob \<noteq> P_FIRST"
      using False by (auto simp: names_nothing_def)
    have run: "facts_with_spo bs s p ob (reading n st) = ?range ?tree (?b lower) (?b upper) (reading n st)"
      using known by (cases ?vs; cases ?vp; cases ?vo)
        (simp_all add: facts_with_spo_def facts_with_0_def facts_with_3_def facts_with_1_2_def with_reader_def
          acquire_reading init_reading Let_def some_null_def asked_def chosen_tree_def with_vars_def)
    have "opens (?range ?tree (?b lower) (?b upper)) (?vs, ?vp, ?vo) (pattern_scan bs (s, p, ob) st) n st"
      using opens_range [of "?b lower" _ "?b upper"] False by (simp add: pattern_scan_def Let_def)
    then show ?thesis unfolding opens_def run .
  qed
qed

end
