(* ===== verification/Query_Join.thy ===== *)
theory Query_Join
  imports Query_Scan
begin

text \<open>
  The backtracking cursor \<^verbatim>\<open>facts_with_cursor_next\<close> of \<^verbatim>\<open>lib/facts.c\<close> refines a recursive join:
  its levels are the frames of the recursion. The patterns are positive, and no stored string
  begins with a question mark, which the code would take for a variable once it is substituted.
\<close>

section \<open>The recursive join\<close>

type_synonym env = "cstr \<Rightarrow> cstr option"

definition subst1 :: "env \<Rightarrow> cstr \<Rightarrow> cstr" where
  "subst1 \<sigma> x = (if is_var x then case \<sigma> x of None \<Rightarrow> x | Some y \<Rightarrow> y else x)"

definition subst3 :: "env \<Rightarrow> triple \<Rightarrow> triple" where
  "subst3 \<sigma> p = (case p of (s, p, ob) \<Rightarrow> (subst1 \<sigma> s, subst1 \<sigma> p, subst1 \<sigma> ob))"

definition bind1 :: "cstr \<Rightarrow> cstr \<Rightarrow> env \<Rightarrow> env" where
  "bind1 x v \<sigma> = (if is_var x then \<sigma>(x \<mapsto> v) else \<sigma>)"

definition extend :: "triple \<Rightarrow> triple \<Rightarrow> env \<Rightarrow> env" where
  "extend q t \<sigma> = (case q of (s, p, ob) \<Rightarrow> case t of (s', p', o') \<Rightarrow> bind1 ob o' (bind1 p p' (bind1 s s' \<sigma>)))"

text \<open>The environment that the fact at an address makes of a pattern.\<close>

definition matched :: "facts \<Rightarrow> triple \<Rightarrow> env \<Rightarrow> addr \<Rightarrow> env" where
  "matched st p \<sigma> a = extend (subst3 \<sigma> p) (triple_of (db_heap st a)) \<sigma>"

fun solve :: "binding list \<Rightarrow> facts \<Rightarrow> triple list \<Rightarrow> env \<Rightarrow> env list" where
  "solve bs st [] \<sigma> = [\<sigma>]"
| "solve bs st (p # ps) \<sigma> = concat (map (\<lambda>a. solve bs st ps (matched st p \<sigma> a)) (pattern_scan bs (subst3 \<sigma> p) st))"

text \<open>How many rounds the loop needs for it.\<close>

fun turns :: "binding list \<Rightarrow> facts \<Rightarrow> triple list \<Rightarrow> env \<Rightarrow> nat" where
  "turns bs st [] \<sigma> = 0"
| "turns bs st (p # ps) \<sigma> =
     Suc (sum_list (map (\<lambda>a. Suc (turns bs st ps (matched st p \<sigma> a))) (pattern_scan bs (subst3 \<sigma> p) st)))"

definition plain_env :: "env \<Rightarrow> bool" where
  "plain_env \<sigma> \<longleftrightarrow> (\<forall>x v. \<sigma> x = Some v \<longrightarrow> \<not> is_var v)"

definition plain_triple :: "triple \<Rightarrow> bool" where
  "plain_triple t = (case t of (s, p, ob) \<Rightarrow> \<not> is_var s \<and> \<not> is_var p \<and> \<not> is_var ob)"

definition plain_facts :: "facts \<Rightarrow> bool" where
  "plain_facts st \<longleftrightarrow> (\<forall>a \<in> stored st. plain_triple (triple_of (db_heap st a)))"

definition declared :: "binding list \<Rightarrow> triple \<Rightarrow> bool" where
  "declared bs p = (case p of (s, p, ob) \<Rightarrow> \<forall>x \<in> {s, p, ob}. is_var x \<longrightarrow> bindings_get bs x \<noteq> None)"

definition bindings_ok :: "binding list \<Rightarrow> bool" where
  "bindings_ok bs \<longleftrightarrow> distinct (map fst bs) \<and> distinct (map snd bs)"

text \<open>The slots, apart from some, hold the environment.\<close>

definition agrees :: "binding list \<Rightarrow> slots \<Rightarrow> env \<Rightarrow> slot set \<Rightarrow> bool" where
  "agrees bs m \<sigma> S \<longleftrightarrow> (\<forall>(x, v) \<in> set bs. v \<notin> S \<longrightarrow> m v = \<sigma> x)"

section \<open>Substitution\<close>

lemma subst1_simps [simp]: "\<not> is_var x \<Longrightarrow> subst1 \<sigma> x = x" "subst1 Map.empty x = x"
  by (simp_all add: subst1_def)

lemma subst3_empty [simp]: "subst3 Map.empty p = p"
  by (cases p) (simp add: subst3_def)

lemma subst1_var: "plain_env \<sigma> \<Longrightarrow> is_var (subst1 \<sigma> x) \<longleftrightarrow> is_var x \<and> \<sigma> x = None"
  by (auto simp: subst1_def plain_env_def split: option.split)

lemma subst1_var_same: "plain_env \<sigma> \<Longrightarrow> is_var (subst1 \<sigma> x) \<Longrightarrow> subst1 \<sigma> x = x"
  by (auto simp: subst1_var) (simp add: subst1_def)

lemma subst1_twice:
  assumes "plain_env \<sigma>" "\<sigma> \<subseteq>\<^sub>m \<tau>"
  shows "subst1 \<tau> (subst1 \<sigma> x) = subst1 \<tau> x"
proof (cases "is_var x \<and> \<sigma> x \<noteq> None")
  case True
  then obtain y where y: "\<sigma> x = Some y" by blast
  then have "\<tau> x = Some y" using assms(2) by (metis domI map_le_def)
  moreover have "\<not> is_var y" using assms(1) y by (simp add: plain_env_def)
  ultimately show ?thesis using True y by (simp add: subst1_def)
next
  case False
  then have "subst1 \<sigma> x = x" by (auto simp: subst1_def)
  then show ?thesis by simp
qed

lemma subst3_twice: "plain_env \<sigma> \<Longrightarrow> \<sigma> \<subseteq>\<^sub>m \<tau> \<Longrightarrow> subst3 \<tau> (subst3 \<sigma> p) = subst3 \<tau> p"
  by (cases p) (simp add: subst3_def subst1_twice)

lemma declared_subst: "declared bs p \<Longrightarrow> plain_env \<sigma> \<Longrightarrow> declared bs (subst3 \<sigma> p)"
  using subst1_var_same by (cases p) (auto simp: declared_def subst3_def subst1_var)

lemma plain_bind1: "plain_env \<sigma> \<Longrightarrow> \<not> is_var v \<Longrightarrow> plain_env (bind1 x v \<sigma>)"
  by (simp add: plain_env_def bind1_def)

lemma plain_extend: "plain_env \<sigma> \<Longrightarrow> plain_triple t \<Longrightarrow> plain_env (extend q t \<sigma>)"
  by (cases q; cases t) (simp add: extend_def plain_triple_def plain_bind1)

lemma extend_other:
  assumes "\<not> is_var x \<or> x \<notin> (case q of (s, p, ob) \<Rightarrow> {s, p, ob})"
  shows "extend q t \<sigma> x = \<sigma> x"
  using assms by (cases q; cases t) (auto simp: extend_def bind1_def)

lemma extend_le:
  assumes "plain_env \<sigma>"
  shows "\<sigma> \<subseteq>\<^sub>m extend (subst3 \<sigma> p) t \<sigma>"
proof -
  have "extend (subst3 \<sigma> p) t \<sigma> x = \<sigma> x" if "x \<in> dom \<sigma>" for x
  proof (rule extend_other)
    have "x \<noteq> subst1 \<sigma> y" if "is_var x" for y
      using that \<open>x \<in> dom \<sigma>\<close> subst1_var_same [OF assms, of y] subst1_var [OF assms, of y] by auto
    then show "\<not> is_var x \<or> x \<notin> (case subst3 \<sigma> p of (s, p, ob) \<Rightarrow> {s, p, ob})"
      by (cases p) (auto simp: subst3_def)
  qed
  then show ?thesis by (simp add: map_le_def)
qed

section \<open>Specifications\<close>

definition cells :: "triple list \<Rightarrow> spec" where
  "cells ps = concat (map (\<lambda>(s, p, ob). [Some s, Some p, Some ob, None]) ps)"

lemma cells_simps [simp]:
  "cells [] = []" "cells ((s, p, ob) # ps) = Some s # Some p # Some ob # None # cells ps" "length (cells ps) = 4 * length ps"
proof -
  show "cells [] = []" "cells ((s, p, ob) # ps) = Some s # Some p # Some ob # None # cells ps" by (simp_all add: cells_def)
  show "length (cells ps) = 4 * length ps" by (induction ps) (auto simp: cells_def)
qed

lemma subst_scan_term:
  assumes "is_var x \<longrightarrow> bindings_get bs x \<noteq> None" "agrees bs m \<sigma> {}"
  shows "subst_scan bs m (Some x # r) = map_option (Cons (Some (subst1 \<sigma> x))) (subst_scan bs m r)"
proof (cases "is_var x")
  case True
  then obtain v where v: "bindings_get bs x = Some v" using assms(1) by auto
  then have "m v = \<sigma> x" using assms(2) bindings_get_in [OF v] by (auto simp: agrees_def)
  then show ?thesis using True v by (simp add: subst1_def option.case_distrib cong: option.case_cong split: option.split)
qed simp

lemma subst_cells:
  assumes "ps \<noteq> []" "\<And>p. p \<in> set ps \<Longrightarrow> declared bs p" "agrees bs m \<sigma> {}"
  shows "spec_subst bs m (cells ps @ [None, None]) = Some (cells (map (subst3 \<sigma>) ps) @ [None, None])"
proof -
  have "subst_scan bs m (cells ps @ [None, None]) = Some (cells (map (subst3 \<sigma>) ps) @ [None, None])"
    using assms(1,2)
  proof (induction ps rule: list_nonempty_induct)
    case (single p)
    obtain s pr ob where p: "p = (s, pr, ob)" by (rule prod_cases3)
    have d: "is_var x \<longrightarrow> bindings_get bs x \<noteq> None" if "x \<in> {s, pr, ob}" for x
      using single that by (auto simp: declared_def p)
    show ?case
      by (simp add: p subst3_def subst_scan_term [OF d assms(3)] del: subst_scan.simps(5))
  next
    case (cons p ps)
    obtain s pr ob where p: "p = (s, pr, ob)" by (rule prod_cases3)
    obtain s2 pr2 ob2 ps2 where ps: "ps = (s2, pr2, ob2) # ps2" using cons(1) by (metis list.exhaust prod_cases3)
    have d: "is_var x \<longrightarrow> bindings_get bs x \<noteq> None" if "x \<in> {s, pr, ob}" for x
      using cons(3) [of p] that by (auto simp: declared_def p)
    have "subst_scan bs m (None # cells ps @ [None, None]) = Some (None # cells (map (subst3 \<sigma>) ps) @ [None, None])"
      using cons(2,3) by (simp add: ps del: subst_scan.simps(5))
    moreover have "subst3 \<sigma> p = (subst1 \<sigma> s, subst1 \<sigma> pr, subst1 \<sigma> ob)" by (simp add: p subst3_def)
    ultimately show ?case
      by (simp add: p subst_scan_term [OF d assms(3)] del: subst_scan.simps(5))
  qed
  then show ?thesis using assms(1) by (cases ps) (auto simp: spec_subst_def)
qed

section \<open>Slots\<close>

lemma bindings_inj:
  assumes "bindings_ok bs" "(x, v) \<in> set bs" "(y, w) \<in> set bs"
  shows "x = y \<longleftrightarrow> v = w"
proof -
  have "inj_on fst (set bs)" "inj_on snd (set bs)" using assms(1) by (simp_all add: bindings_ok_def distinct_map)
  from inj_onD [OF this(1) _ assms(2,3)] inj_onD [OF this(2) _ assms(2,3)] show ?thesis by auto
qed

lemma agrees_put:
  assumes bs: "bindings_ok bs" and x: "is_var x" "bindings_get bs x = Some v" and old: "agrees bs m \<sigma> (insert v S)"
  shows "agrees bs (m(v := Some y)) (\<sigma>(x \<mapsto> y)) S"
proof -
  have xv: "(x, v) \<in> set bs" by (rule bindings_get_in [OF x(2)])
  have "z = x \<longleftrightarrow> w = v" if "(z, w) \<in> set bs" for z w
    by (rule bindings_inj [OF bs that xv])
  then show ?thesis using old by (auto simp: agrees_def)
qed

lemma agrees_put_slot:
  assumes bs: "bindings_ok bs" and x: "is_var x \<longrightarrow> bindings_get bs x \<noteq> None"
    and old: "agrees bs m \<sigma> (set_option (var_slot bs x) \<union> S)"
  shows "agrees bs (put_slot (var_slot bs x) (Some y) m) (bind1 x y \<sigma>) S"
proof (cases "is_var x")
  case True
  then obtain v where v: "bindings_get bs x = Some v" using x by auto
  with True old show ?thesis using agrees_put [OF bs True v] by (simp add: put_slot_def var_slot_def bind1_def)
next
  case False
  with old show ?thesis by (simp add: put_slot_def var_slot_def bind1_def)
qed

text \<open>The slots of a cursor opened for a pattern.\<close>

definition pattern_vars :: "binding list \<Rightarrow> triple \<Rightarrow> slot option \<times> slot option \<times> slot option" where
  "pattern_vars bs q = (case q of (s, p, ob) \<Rightarrow> (var_slot bs s, var_slot bs p, var_slot bs ob))"

lemma agrees_put_fact:
  assumes bs: "bindings_ok bs" and q: "declared bs q" and c: "vars_of c = pattern_vars bs q"
    and old: "agrees bs m \<sigma> (cursor_slots c)"
    and f: "\<And>y. y \<in># fsyms f \<Longrightarrow> symbol_to_str y = Some (sym_data y)"
  shows "agrees bs (put_fact c f m) (extend q (triple_of f) \<sigma>) {}"
proof -
  obtain s p ob where pq: "q = (s, p, ob)" by (rule prod_cases3)
  have d: "is_var x \<longrightarrow> bindings_get bs x \<noteq> None" if "x \<in> {s, p, ob}" for x
    using q that by (auto simp: declared_def pq)
  have v: "cu_var_s c = var_slot bs s" "cu_var_p c = var_slot bs p" "cu_var_o c = var_slot bs ob"
    using c by (simp_all add: vars_of_def pattern_vars_def pq)
  have str: "symbol_to_str (f_s f) = Some (sym_data (f_s f))" "symbol_to_str (f_p f) = Some (sym_data (f_p f))"
    "symbol_to_str (f_o f) = Some (sym_data (f_o f))"
    using f stored_symbols_in by blast+
  have "agrees bs m \<sigma> (set_option (var_slot bs s) \<union> (set_option (var_slot bs p) \<union> (set_option (var_slot bs ob) \<union> {})))"
    using old by (simp add: cursor_slots_def v Un_assoc)
  from agrees_put_slot [OF bs d this] have
    "agrees bs (put_slot (cu_var_s c) (symbol_to_str (f_s f)) m) (bind1 s (sym_data (f_s f)) \<sigma>)
      (set_option (var_slot bs p) \<union> (set_option (var_slot bs ob) \<union> {}))" by (simp add: v str)
  from agrees_put_slot [OF bs d this] have
    "agrees bs (put_slot (cu_var_p c) (symbol_to_str (f_p f)) (put_slot (cu_var_s c) (symbol_to_str (f_s f)) m))
      (bind1 p (sym_data (f_p f)) (bind1 s (sym_data (f_s f)) \<sigma>)) (set_option (var_slot bs ob) \<union> {})" by (simp add: v str)
  from agrees_put_slot [OF bs d this] show ?thesis
    by (simp add: v str put_fact_def extend_def triple_of_def pq)
qed

lemma pattern_vars_slots: "vars_of c = pattern_vars bs (s, p, ob) \<Longrightarrow>
    cursor_slots c = set_option (var_slot bs s) \<union> set_option (var_slot bs p) \<union> set_option (var_slot bs ob)"
  by (simp add: vars_of_def pattern_vars_def cursor_slots_def)

text \<open>The slots of a pattern are those of the variables that have no value yet.\<close>

lemma slot_of_var:
  assumes "bindings_ok bs" "(x, v) \<in> set bs" "v \<in> set_option (var_slot bs y)"
  shows "x = y" "is_var y"
proof -
  have y: "is_var y" "(y, v) \<in> set bs"
    using assms(3) by (auto simp: var_slot_def split: if_splits dest: bindings_get_in)
  show "is_var y" by (rule y(1))
  show "x = y" using bindings_inj [OF assms(1,2) y(2)] by simp
qed

lemma agrees_nullified:
  assumes bs: "bindings_ok bs" and c: "vars_of c = pattern_vars bs (subst3 \<sigma> p)" and \<sigma>: "plain_env \<sigma>"
    and old: "agrees bs m \<sigma> (cursor_slots c)"
  shows "agrees bs (\<lambda>i. if i \<in> cursor_slots c then None else m i) \<sigma> {}"
proof -
  obtain s pr ob where q: "subst3 \<sigma> p = (subst1 \<sigma> s, subst1 \<sigma> pr, subst1 \<sigma> ob)" by (cases p) (auto simp: subst3_def)
  have "\<sigma> x = None" if x: "(x, v) \<in> set bs" "v \<in> cursor_slots c" for x v
  proof -
    obtain y where y: "v \<in> set_option (var_slot bs (subst1 \<sigma> y))"
      using x(2) pattern_vars_slots [OF c [unfolded q]] by auto
    note s = slot_of_var [OF bs x(1) y]
    show ?thesis using s subst1_var [OF \<sigma>, of y] subst1_var_same [OF \<sigma>, of y] by simp
  qed
  then show ?thesis using old by (auto simp: agrees_def)
qed

lemma agrees_before:
  assumes bs: "bindings_ok bs" and q: "declared bs q" and c: "vars_of c = pattern_vars bs q"
    and new: "agrees bs m (extend q t \<sigma>) {}"
  shows "agrees bs m \<sigma> (cursor_slots c)"
proof -
  obtain s p ob where pq: "q = (s, p, ob)" by (rule prod_cases3)
  have "extend q t \<sigma> x = \<sigma> x" if x: "(x, v) \<in> set bs" "v \<notin> cursor_slots c" for x v
  proof (rule extend_other)
    have "bindings_get bs x = Some v"
      using bs x(1) by (simp add: bindings_get_map_of bindings_ok_def)
    then have "is_var x \<Longrightarrow> var_slot bs x = Some v" by (simp add: var_slot_def)
    then show "\<not> is_var x \<or> x \<notin> (case q of (s, p, ob) \<Rightarrow> {s, p, ob})"
      using x(2) pattern_vars_slots [OF c [unfolded pq]] by (auto simp: pq)
  qed
  then show ?thesis using new by (auto simp: agrees_def)
qed

end
