(* ===== verification/Query_Run.thy ===== *)
theory Query_Run
  imports Query_Join
begin

text \<open>
  The simulation: a state of the cursor of \<^verbatim>\<open>facts_with\<close> stands for the frames of the recursive
  join that are open, and every round of its loop is one step of the recursion.
\<close>

section \<open>Frames\<close>

text \<open>
  The open levels, the innermost first: the environment with which a level was opened, and the
  facts its cursor has still to give. The number of a level is the number of frames below it.
\<close>

type_synonym frames = "(env \<times> addr list) list"

definition query_ok :: "binding list \<Rightarrow> facts \<Rightarrow> triple list \<Rightarrow> bool" where
  "query_ok bs st ps \<longleftrightarrow> bindings_ok bs \<and> (\<exists>X. db_ok X st) \<and> plain_facts st \<and> (\<forall>p \<in> set ps. declared bs p)"

definition open_level :: "binding list \<Rightarrow> triple list \<Rightarrow> nat \<Rightarrow> env \<Rightarrow> addr list \<Rightarrow> with_level \<Rightarrow> bool" where
  "open_level bs ps i \<sigma> rem l \<longleftrightarrow>
     lv_init l \<and> lv_spec l = cells (map (subst3 \<sigma>) (drop i ps)) @ [None, None] \<and> cursor_left (lv_c l) = rem \<and>
     (if cu_started (lv_c l) = 2 then \<not> cu_locked (lv_c l) \<and> cursor_slots (lv_c l) = {}
      else vars_of (lv_c l) = pattern_vars bs (subst3 \<sigma> (ps ! i)))"

text \<open>The environment above the innermost frame: a fact of its cursor made it.\<close>

definition linked :: "triple list \<Rightarrow> with_level list \<Rightarrow> frames \<Rightarrow> env \<Rightarrow> bool" where
  "linked ps ls fs \<sigma> \<longleftrightarrow> plain_env \<sigma> \<and>
     (case fs of [] \<Rightarrow> True
      | (\<sigma>', rem) # fs' \<Rightarrow> cu_started (lv_c (ls ! length fs')) \<noteq> 2 \<and>
          (\<exists>t. \<sigma> = extend (subst3 \<sigma>' (ps ! length fs')) t \<sigma>'))"

fun frames_ok :: "binding list \<Rightarrow> facts \<Rightarrow> triple list \<Rightarrow> with_level list \<Rightarrow> frames \<Rightarrow> bool" where
  "frames_ok bs st ps ls [] = True"
| "frames_ok bs st ps ls ((\<sigma>, rem) # fs) =
     (length fs < length ps \<and> open_level bs ps (length fs) \<sigma> rem (ls ! length fs) \<and> set rem \<subseteq> stored st \<and>
      linked ps ls fs \<sigma> \<and> frames_ok bs st ps ls fs)"

fun held_by :: "with_level list \<Rightarrow> frames \<Rightarrow> nat" where
  "held_by ls [] = 0"
| "held_by ls (f # fs) = busy (lv_c (ls ! length fs)) + held_by ls fs"

definition closed_levels :: "triple list \<Rightarrow> with_level list \<Rightarrow> nat \<Rightarrow> bool" where
  "closed_levels ps ls d \<longleftrightarrow>
     (\<forall>i. d \<le> i \<and> i < length ps \<longrightarrow> \<not> lv_init (ls ! i) \<and> length (lv_spec (ls ! i)) = (length ps - i) * 4 + 2)"

text \<open>The state of a query whose levels are the frames; \<open>c0\<close> has the fields that never change.\<close>

definition machine :: "binding list \<Rightarrow> facts \<Rightarrow> triple list \<Rightarrow> nat \<Rightarrow> with_cursor \<Rightarrow> query \<Rightarrow> frames \<Rightarrow> bool" where
  "machine bs st ps n0 c0 q fs \<longleftrightarrow>
     q_c q = c0\<lparr>wc_l := wc_l (q_c q), wc_level := wc_level (q_c q)\<rparr> \<and>
     wc_bindings c0 = bs \<and> wc_count c0 = length ps \<and> wc_spec c0 = cells ps @ [None, None] \<and>
     length (wc_l (q_c q)) = length ps \<and> frames_ok bs st ps (wc_l (q_c q)) fs \<and>
     closed_levels ps (wc_l (q_c q)) (length fs) \<and> q_db q = reading (n0 + held_by (wc_l (q_c q)) fs) st"

lemma machineD:
  assumes "machine bs st ps n0 c0 q fs"
  shows "q_c q = c0\<lparr>wc_l := wc_l (q_c q), wc_level := wc_level (q_c q)\<rparr>"
    "wc_bindings (q_c q) = bs" "wc_count (q_c q) = length ps" "wc_spec (q_c q) = cells ps @ [None, None]"
    "length (wc_l (q_c q)) = length ps" "frames_ok bs st ps (wc_l (q_c q)) fs" "closed_levels ps (wc_l (q_c q)) (length fs)"
    "q_db q = reading (n0 + held_by (wc_l (q_c q)) fs) st" "wc_bindings c0 = bs" "wc_count c0 = length ps"
    "wc_spec c0 = cells ps @ [None, None]"
proof -
  show c: "q_c q = c0\<lparr>wc_l := wc_l (q_c q), wc_level := wc_level (q_c q)\<rparr>" and c0: "wc_bindings c0 = bs" "wc_count c0 = length ps"
    "wc_spec c0 = cells ps @ [None, None]" and
    "length (wc_l (q_c q)) = length ps" "frames_ok bs st ps (wc_l (q_c q)) fs" "closed_levels ps (wc_l (q_c q)) (length fs)"
    "q_db q = reading (n0 + held_by (wc_l (q_c q)) fs) st"
    using assms by (simp_all add: machine_def)
  from c obtain ls k where "q_c q = c0\<lparr>wc_l := ls, wc_level := k\<rparr>" by blast
  with c0 show "wc_bindings (q_c q) = bs" "wc_count (q_c q) = length ps" "wc_spec (q_c q) = cells ps @ [None, None]"
    by simp_all
qed

text \<open>Only the levels of the frames matter, and of those not what they found.\<close>

lemma linked_cong: "(\<And>i. i < length fs \<Longrightarrow> lv_c (ls' ! i) = lv_c (ls ! i)) \<Longrightarrow> linked ps ls' fs \<sigma> = linked ps ls fs \<sigma>"
  by (simp add: linked_def split: list.split)

lemma frames_ok_cong: "(\<And>i. i < length fs \<Longrightarrow> ls' ! i = ls ! i) \<Longrightarrow> frames_ok bs st ps ls' fs = frames_ok bs st ps ls fs"
proof (induction fs)
  case (Cons f fs)
  have "linked ps ls' fs (fst f) = linked ps ls fs (fst f)" using Cons.prems by (intro linked_cong) simp
  with Cons show ?case by (cases f) simp
qed simp

lemma held_by_cong: "(\<And>i. i < length fs \<Longrightarrow> ls' ! i = ls ! i) \<Longrightarrow> held_by ls' fs = held_by ls fs"
  by (induction fs) auto

lemma frames_ok_length: "frames_ok bs st ps ls fs \<Longrightarrow> length fs \<le> length ps"
  by (cases fs) auto

lemma frames_ok_Cons:
  "frames_ok bs st ps (ls[length fs := l]) ((\<sigma>, rem) # fs) \<longleftrightarrow>
     length fs < length ps \<and> open_level bs ps (length fs) \<sigma> rem (ls[length fs := l] ! length fs) \<and> set rem \<subseteq> stored st \<and>
     linked ps ls fs \<sigma> \<and> frames_ok bs st ps ls fs"
  using linked_cong [of fs "ls[length fs := l]" ls] frames_ok_cong [of fs "ls[length fs := l]" ls] by simp

lemma held_by_Cons: "length fs < length ls \<Longrightarrow> held_by (ls[length fs := l]) (f # fs) = busy (lv_c l) + held_by ls fs"
  using held_by_cong [of fs "ls[length fs := l]" ls] by simp

lemma closed_above:
  "closed_levels ps ls (Suc d) \<Longrightarrow> closed_levels ps (ls[d := l]) (Suc d)"
  by (simp add: closed_levels_def)

lemma closed_Suc: "closed_levels ps ls d \<Longrightarrow> closed_levels ps ls (Suc d)"
  by (simp add: closed_levels_def)

lemma level_of_machine: "machine bs st ps n0 c0 q fs \<Longrightarrow> i < length ps \<Longrightarrow> level_of q i = Some (wc_l (q_c q) ! i)"
  by (simp add: level_of_def machineD(5))

lemma set_level_simps [simp]:
  "q_m (set_level i l q) = q_m q" "q_db (set_level i l q) = q_db q" "wc_l (q_c (set_level i l q)) = (wc_l (q_c q))[i := l]"
  "wc_level (q_c (set_level i l q)) = wc_level (q_c q)"
  by (simp_all add: set_level_def)

lemma at_level_simps [simp]:
  "q_m (at_level i q) = q_m q" "q_db (at_level i q) = q_db q" "wc_l (q_c (at_level i q)) = wc_l (q_c q)"
  "wc_level (q_c (at_level i q)) = i"
  by (simp_all add: at_level_def)

lemma machine_at_level:
  assumes "machine bs st ps n0 c0 q fs"
  shows "machine bs st ps n0 c0 (at_level i q) fs"
proof -
  have "c\<lparr>wc_level := i\<rparr> = c0\<lparr>wc_l := wc_l c, wc_level := i\<rparr>" if "c = c0\<lparr>wc_l := wc_l c, wc_level := wc_level c\<rparr>" for c
    using that by (cases c; cases c0) simp
  from this [OF machineD(1) [OF assms]] assms show ?thesis by (simp add: machine_def at_level_def)
qed

lemma machine_set_level:
  assumes m: "machine bs st ps n0 c0 q fs0" and q': "q_c q' = q_c q"
    and ok: "frames_ok bs st ps ((wc_l (q_c q))[i := l]) fs" "closed_levels ps ((wc_l (q_c q))[i := l]) (length fs)"
    and db: "q_db q' = reading (n0 + held_by ((wc_l (q_c q))[i := l]) fs) st"
  shows "machine bs st ps n0 c0 (set_level i l q') fs"
proof -
  note d = machineD [OF m]
  have "q_c (set_level i l q') = c0\<lparr>wc_l := (wc_l (q_c q))[i := l], wc_level := wc_level (q_c q)\<rparr>"
    unfolding set_level_def q' by (subst d(1)) simp
  then show ?thesis using d(5,9-11) ok db unfolding machine_def by simp
qed

section \<open>Opening a level\<close>

lemma cells_nth_3: "ps \<noteq> [] \<Longrightarrow> rd (cells ps @ r) 3 = Some None"
  by (cases ps) (auto simp: numeral_3_eq_3)

lemma not_negated: "open_level bs ps i \<sigma> rem l \<Longrightarrow> i < length ps \<Longrightarrow> negated_level l = Some False"
  by (simp add: open_level_def negated_level_def cells_nth_3 is_not_def)

text \<open>What a level takes from the one below it.\<close>

lemma parent_spec:
  assumes m: "machine bs st ps n0 c0 q fs" and k: "length fs < length ps" and link: "linked ps (wc_l (q_c q)) fs \<sigma>"
  obtains \<tau> where "(if length fs > 0 then map_option (\<lambda>p. drop 4 (lv_spec p)) (level_of q (length fs - 1)) else Some (wc_spec (q_c q))) =
      Some (cells (map (subst3 \<tau>) (drop (length fs) ps)) @ [None, None])" "plain_env \<tau>" "\<tau> \<subseteq>\<^sub>m \<sigma>"
proof (cases fs)
  case Nil
  then show ?thesis using machineD(4) [OF m] by (intro that [of Map.empty]) (simp_all add: plain_env_def map_idI)
next
  case (Cons f fs')
  obtain \<sigma>' rem where f: "f = (\<sigma>', rem)" by (cases f)
  have ok: "open_level bs ps (length fs') \<sigma>' rem (wc_l (q_c q) ! length fs')" "linked ps (wc_l (q_c q)) fs' \<sigma>'"
    using machineD(6) [OF m] by (simp_all add: Cons f)
  have "drop (length fs') ps = ps ! length fs' # drop (Suc (length fs')) ps"
    using k Cons by (simp add: Cons_nth_drop_Suc)
  then have "drop 4 (lv_spec (wc_l (q_c q) ! length fs')) = cells (map (subst3 \<sigma>') (drop (length fs) ps)) @ [None, None]"
    using ok(1) by (cases "subst3 \<sigma>' (ps ! length fs')") (simp add: open_level_def Cons)
  moreover have "plain_env \<sigma>'" using ok(2) by (simp add: linked_def)
  moreover obtain t where "\<sigma> = extend (subst3 \<sigma>' (ps ! length fs')) t \<sigma>'" using link by (auto simp: linked_def Cons f)
  moreover from calculation have "\<sigma>' \<subseteq>\<^sub>m \<sigma>" using extend_le by blast
  ultimately show ?thesis using level_of_machine [OF m, of "length fs'"] k by (intro that [of \<sigma>']) (simp_all add: Cons)
qed

lemma init_opens:
  assumes q: "query_ok bs st ps" and m: "machine bs st ps n0 c0 q fs" and k: "length fs < length ps"
    and lev: "wc_level (q_c q) = length fs" and link: "linked ps (wc_l (q_c q)) fs \<sigma>" and ag: "agrees bs (q_m q) \<sigma> {}"
  obtains q' where "init_level q = Some q'" "machine bs st ps n0 c0 q' ((\<sigma>, pattern_scan bs (subst3 \<sigma> (ps ! length fs)) st) # fs)"
    "wc_level (q_c q') = length fs" "q_m q' = q_m q"
proof -
  let ?k = "length fs" and ?ls = "wc_l (q_c q)"
  note d = machineD [OF m]
  obtain X where ok: "db_ok X st" and bs: "bindings_ok bs" and dec: "\<And>p. p \<in> set ps \<Longrightarrow> declared bs p"
    using q by (auto simp: query_ok_def)
  let ?l = "?ls ! ?k"
  have l: "level_of q ?k = Some ?l" "\<not> lv_init ?l" "length (lv_spec ?l) = (length ps - ?k) * 4 + 2"
    using level_of_machine [OF m k] d(7) k by (simp_all add: closed_levels_def)
  obtain \<tau> where par: "(if ?k > 0 then map_option (\<lambda>p. drop 4 (lv_spec p)) (level_of q (?k - 1)) else Some (wc_spec (q_c q))) =
      Some (cells (map (subst3 \<tau>) (drop ?k ps)) @ [None, None])" and \<tau>: "plain_env \<tau>" "\<tau> \<subseteq>\<^sub>m \<sigma>"
    by (rule parent_spec [OF m k link])
  let ?par = "cells (map (subst3 \<tau>) (drop ?k ps)) @ [None, None]"
  let ?n = "(wc_count (q_c q) - ?k) * 4 + 1"
  have n: "?n = Suc (4 * (length ps - ?k))" using d(3) by simp
  have cut: "take ?n ?par @ [None] = ?par" "\<not> length ?par < ?n" unfolding n by simp_all
  have ne: "map (subst3 \<tau>) (drop ?k ps) \<noteq> []" using k by simp
  have "declared bs p" if "p \<in> set (map (subst3 \<tau>) (drop ?k ps))" for p
    using that declared_subst [OF dec \<tau>(1)] by (auto dest: in_set_dropD)
  from subst_cells [OF ne this ag]
  have sub: "spec_subst bs (q_m q) ?par = Some (cells (map (subst3 \<sigma>) (drop ?k ps)) @ [None, None])"
    by (simp add: subst3_twice [OF \<tau>] comp_def)
  obtain s p ob where pat: "subst3 \<sigma> (ps ! ?k) = (s, p, ob)" by (rule prod_cases3)
  have dr: "drop ?k ps = ps ! ?k # drop (Suc ?k) ps" using k by (simp add: Cons_nth_drop_Suc)
  let ?spec = "cells (map (subst3 \<sigma>) (drop ?k ps)) @ [None, None]"
  have spo: "?spec ! 0 = Some s" "?spec ! 1 = Some p" "?spec ! 2 = Some ob" unfolding dr by (simp_all add: pat)
  let ?N = "n0 + held_by ?ls fs"
  obtain c where c: "facts_with_spo bs s p ob (reading ?N st) = Some (c, reading (?N + busy c) st)"
    "cursor_left c = pattern_scan bs (s, p, ob) st"
    "if cu_started c = 2 then \<not> cu_locked c \<and> cursor_slots c = {} else vars_of c = pattern_vars bs (s, p, ob)"
    using with_spo_opens [of bs s p ob st ?N] unfolding opens_def pattern_vars_def by auto
  let ?l' = "?l\<lparr>lv_spec := ?spec, lv_c := c, lv_init := True\<rparr>"
  let ?q' = "set_level ?k ?l' (q\<lparr>q_db := reading (?N + busy c) st\<rparr>)"
  have "init_level q = Some ?q'"
    unfolding init_level_def Let_def lev l(1) par using l(2,3) cut sub spo c(1) d(2,3,8) by simp
  moreover have "machine bs st ps n0 c0 ?q' ((\<sigma>, pattern_scan bs (s, p, ob) st) # fs)"
  proof (rule machine_set_level [OF m])
    have kl: "?k < length ?ls" using k d(5) by simp
    have "open_level bs ps ?k \<sigma> (pattern_scan bs (s, p, ob) st) ?l'"
      unfolding open_level_def pat using c(2,3) by simp
    moreover have "set (pattern_scan bs (s, p, ob) st) \<subseteq> stored st"
      unfolding pattern_scan_fitting(1) [OF ok] by (auto simp: fitting_def)
    ultimately show "frames_ok bs st ps (?ls[?k := ?l']) ((\<sigma>, pattern_scan bs (s, p, ob) st) # fs)"
      unfolding frames_ok_Cons using k kl link d(6) by simp
    show "closed_levels ps (?ls[?k := ?l']) (length ((\<sigma>, pattern_scan bs (s, p, ob) st) # fs))"
      using closed_above [OF closed_Suc [OF d(7)]] by simp
    show "q_db (q\<lparr>q_db := reading (?N + busy c) st\<rparr>) = reading (n0 + held_by (?ls[?k := ?l']) ((\<sigma>, pattern_scan bs (s, p, ob) st) # fs)) st"
      unfolding held_by_Cons [OF kl] by (simp add: ac_simps)
  qed simp
  ultimately show ?thesis using lev by (intro that [of ?q']) (simp_all add: pat)
qed

section \<open>A round\<close>

text \<open>Between two rounds a level is to be opened, or its cursor to be moved on.\<close>

definition at_new_level :: "binding list \<Rightarrow> facts \<Rightarrow> triple list \<Rightarrow> nat \<Rightarrow> with_cursor \<Rightarrow> query \<Rightarrow> frames \<Rightarrow> env \<Rightarrow> bool" where
  "at_new_level bs st ps n0 c0 q fs \<sigma> \<longleftrightarrow>
     machine bs st ps n0 c0 q fs \<and> wc_level (q_c q) = length fs \<and> linked ps (wc_l (q_c q)) fs \<sigma> \<and> agrees bs (q_m q) \<sigma> {}"

definition at_open_level :: "binding list \<Rightarrow> facts \<Rightarrow> triple list \<Rightarrow> nat \<Rightarrow> with_cursor \<Rightarrow> query \<Rightarrow> frames \<Rightarrow> env \<Rightarrow> addr list \<Rightarrow> bool" where
  "at_open_level bs st ps n0 c0 q fs \<sigma> rem \<longleftrightarrow>
     machine bs st ps n0 c0 q ((\<sigma>, rem) # fs) \<and>
     agrees bs (q_m q) \<sigma> (cursor_slots (lv_c (wc_l (q_c q) ! length fs)))"

lemma plain_triple_of: "plain_facts st \<Longrightarrow> a \<in> stored st \<Longrightarrow> plain_triple (triple_of (db_heap st a))"
  by (simp add: plain_facts_def)

lemma open_level_gives:
  assumes q: "query_ok bs st ps" and at: "at_open_level bs st ps n0 c0 q fs \<sigma> (a # rem)"
  obtains q' q'' where "next_of (length fs) q = Some (Some a, q')" "store_fact (length fs) (Some a) q' = Some q''"
    "at_new_level bs st ps n0 c0 (at_level (Suc (length fs)) q'') ((\<sigma>, rem) # fs) (matched st (ps ! length fs) \<sigma> a)"
    "wc_level (q_c q') = wc_level (q_c q)" "wc_level (q_c q'') = wc_level (q_c q)"
proof -
  let ?k = "length fs" and ?ls = "wc_l (q_c q)"
  have m: "machine bs st ps n0 c0 q ((\<sigma>, a # rem) # fs)"
    and ag: "agrees bs (q_m q) \<sigma> (cursor_slots (lv_c (?ls ! ?k)))"
    using at by (simp_all add: at_open_level_def)
  note d = machineD [OF m]
  have fr: "?k < length ps" "open_level bs ps ?k \<sigma> (a # rem) (?ls ! ?k)" "a \<in> stored st" "set rem \<subseteq> stored st"
    "linked ps ?ls fs \<sigma>" "frames_ok bs st ps ?ls fs"
    using d(6) by simp_all
  have kl: "?k < length ?ls" using fr(1) d(5) by simp
  obtain X where ok: "db_ok X st" and bs: "bindings_ok bs" and dec: "declared bs (ps ! ?k)"
    using q fr(1) by (auto simp: query_ok_def)
  let ?l = "?ls ! ?k"
  have pl: "plain_env \<sigma>" using fr(5) by (simp add: linked_def)
  have left: "cursor_left (lv_c ?l) = a # rem" using fr(2) by (simp add: open_level_def)
  then have run: "cu_started (lv_c ?l) \<noteq> 2" by (auto simp: cursor_left_def)
  then have vars: "vars_of (lv_c ?l) = pattern_vars bs (subst3 \<sigma> (ps ! ?k))" using fr(2) by (simp add: open_level_def)
  obtain c' where c': "facts_cursor_next (lv_c ?l) (q_m q) (q_db q) =
      Some (Some a, c', put_fact (lv_c ?l) (db_heap (q_db q) a) (q_m q), q_db q)" "cursor_left c' = rem"
    "vars_of c' = vars_of (lv_c ?l)" "cu_started c' \<noteq> 2" "cu_locked c' = cu_locked (lv_c ?l)"
    by (rule next_gives [OF left])
  let ?m = "put_fact (lv_c ?l) (db_heap st a) (q_m q)"
  let ?q1 = "set_level ?k (?l\<lparr>lv_c := c'\<rparr>) (q\<lparr>q_m := ?m\<rparr>)"
  let ?l2 = "?l\<lparr>lv_c := c', lv_fact := Some a\<rparr>"
  let ?q2 = "set_level ?k ?l2 (q\<lparr>q_m := ?m\<rparr>)"
  have n: "next_of ?k q = Some (Some a, ?q1)"
    unfolding next_of_def level_of_machine [OF m fr(1)] using c'(1) d(8) by (simp add: set_level_def)
  have s: "store_fact ?k (Some a) ?q1 = Some ?q2"
    using kl by (simp add: store_fact_def level_of_def set_level_def)
  let ?q3 = "at_level (Suc ?k) ?q2"
  have "machine bs st ps n0 c0 ?q2 ((\<sigma>, rem) # fs)"
  proof (rule machine_set_level [OF m])
    have "open_level bs ps ?k \<sigma> rem ?l2" using fr(2) c'(2-4) run by (simp add: open_level_def)
    then show "frames_ok bs st ps (?ls[?k := ?l2]) ((\<sigma>, rem) # fs)" unfolding frames_ok_Cons using fr kl by simp
    show "closed_levels ps (?ls[?k := ?l2]) (length ((\<sigma>, rem) # fs))" using closed_above d(7) by simp
    show "q_db (q\<lparr>q_m := ?m\<rparr>) = reading (n0 + held_by (?ls[?k := ?l2]) ((\<sigma>, rem) # fs)) st"
      unfolding held_by_Cons [OF kl] using d(8) c'(5) by (simp add: busy_def)
  qed simp
  then have "machine bs st ps n0 c0 ?q3 ((\<sigma>, rem) # fs)" by (rule machine_at_level)
  moreover have "linked ps (wc_l (q_c ?q3)) ((\<sigma>, rem) # fs) (matched st (ps ! ?k) \<sigma> a)"
    unfolding linked_def matched_def using plain_extend [OF pl plain_triple_of] q fr(3) kl c'(4)
    by (simp del: split_paired_Ex add: query_ok_def) blast
  moreover have "agrees bs (q_m ?q3) (matched st (ps ! ?k) \<sigma> a) {}"
    unfolding matched_def using agrees_put_fact [OF bs declared_subst [OF dec pl] vars ag stored_symbol(3) [OF ok fr(3)]]
    by simp
  ultimately have "at_new_level bs st ps n0 c0 ?q3 ((\<sigma>, rem) # fs) (matched st (ps ! ?k) \<sigma> a)"
    unfolding at_new_level_def at_level_simps(4) by (intro conjI) simp_all
  then show ?thesis by (rule that [OF n s]) simp_all
qed

text \<open>A cursor that has nothing more to give: its level is closed, and the variables are as when it was opened.\<close>

lemma open_level_ends:
  assumes q: "query_ok bs st ps" and at: "at_open_level bs st ps n0 c0 q fs \<sigma> []"
  obtains q1 q2 q' where "next_of (length fs) q = Some (None, q1)" "store_fact (length fs) None q1 = Some q2"
    "stop_level (length fs) q2 = Some q'" "machine bs st ps n0 c0 q' fs" "linked ps (wc_l (q_c q')) fs \<sigma>"
    "agrees bs (q_m q') \<sigma> {}" "wc_level (q_c q1) = wc_level (q_c q)" "wc_level (q_c q2) = wc_level (q_c q)"
proof -
  let ?k = "length fs" and ?ls = "wc_l (q_c q)"
  have m: "machine bs st ps n0 c0 q ((\<sigma>, []) # fs)"
    and ag: "agrees bs (q_m q) \<sigma> (cursor_slots (lv_c (?ls ! ?k)))"
    using at by (simp_all add: at_open_level_def)
  note d = machineD [OF m]
  have fr: "?k < length ps" "open_level bs ps ?k \<sigma> [] (?ls ! ?k)" "linked ps ?ls fs \<sigma>" "frames_ok bs st ps ?ls fs"
    using d(6) by simp_all
  have kl: "?k < length ?ls" using fr(1) d(5) by simp
  have bs: "bindings_ok bs" using q by (simp add: query_ok_def)
  let ?l = "?ls ! ?k" and ?N = "n0 + held_by ?ls fs"
  have pl: "plain_env \<sigma>" using fr(3) by (simp add: linked_def)
  have left: "cursor_left (lv_c ?l) = []" using fr(2) by (simp add: open_level_def)
  have db: "q_db q = reading (?N + busy (lv_c ?l)) st" using d(8) by (simp add: ac_simps)
  obtain c' m' where c': "facts_cursor_next (lv_c ?l) (q_m q) (q_db q) = Some (None, c', m', reading ?N st)" "cu_started c' = 2"
    "agrees bs m' \<sigma> {}"
  proof (cases "cu_started (lv_c ?l) = 2")
    case True
    then have "cursor_slots (lv_c ?l) = {}" "busy (lv_c ?l) = 0" using fr(2) by (simp_all add: open_level_def busy_def)
    with True db ag show ?thesis by (intro that [of "lv_c ?l" "q_m q"]) (simp_all add: facts_cursor_next_def)
  next
    case False
    then have "vars_of (lv_c ?l) = pattern_vars bs (subst3 \<sigma> (ps ! ?k))" using fr(2) by (simp add: open_level_def)
    from agrees_nullified [OF bs this pl ag] show ?thesis
      using that unfolding db by (rule_tac next_ends [OF left False, of "q_m q" ?N st])
  qed
  let ?q1 = "set_level ?k (?l\<lparr>lv_c := c'\<rparr>) (q\<lparr>q_m := m', q_db := reading ?N st\<rparr>)"
  let ?q2 = "set_level ?k (?l\<lparr>lv_c := c', lv_fact := None\<rparr>) (q\<lparr>q_m := m', q_db := reading ?N st\<rparr>)"
  let ?l3 = "?l\<lparr>lv_fact := None, lv_c := c', lv_init := False\<rparr>"
  let ?q3 = "set_level ?k ?l3 (q\<lparr>q_m := m', q_db := reading ?N st\<rparr>)"
  have "next_of ?k q = Some (None, ?q1)"
    unfolding next_of_def level_of_machine [OF m fr(1)] using c'(1) by (simp add: set_level_def)
  moreover have "store_fact ?k None ?q1 = Some ?q2"
    using kl by (simp add: store_fact_def level_of_def set_level_def)
  moreover have "stop_level ?k ?q2 = Some ?q3"
    using kl c'(2) by (simp add: stop_level_def level_of_def set_level_def facts_cursor_stop_def)
  moreover have "machine bs st ps n0 c0 ?q3 fs"
  proof (rule machine_set_level [OF m])
    show "frames_ok bs st ps (?ls[?k := ?l3]) fs" using fr(4) frames_ok_cong [of fs "?ls[?k := ?l3]" ?ls] by simp
    have "length (lv_spec ?l) = (length ps - ?k) * 4 + 2" using fr(2) by (simp add: open_level_def)
    then have "\<not> lv_init (?ls[?k := ?l3] ! i) \<and> length (lv_spec (?ls[?k := ?l3] ! i)) = (length ps - i) * 4 + 2"
      if "?k \<le> i" "i < length ps" for i
      using that d(7) kl by (cases "i = ?k") (simp_all add: closed_levels_def)
    then show "closed_levels ps (?ls[?k := ?l3]) ?k" by (simp add: closed_levels_def)
    show "q_db (q\<lparr>q_m := m', q_db := reading ?N st\<rparr>) = reading (n0 + held_by (?ls[?k := ?l3]) fs) st"
      using held_by_cong [of fs "?ls[?k := ?l3]" ?ls] by simp
  qed simp
  moreover have "linked ps (wc_l (q_c ?q3)) fs \<sigma>" using fr(3) linked_cong [of fs "?ls[?k := ?l3]" ?ls] by simp
  ultimately show ?thesis using c'(3) by (intro that [of ?q1 ?q2 ?q3]) simp_all
qed

text \<open>The level below goes on from there.\<close>

lemma go_back:
  assumes q: "query_ok bs st ps" and m: "machine bs st ps n0 c0 q ((\<sigma>', rem) # fs)"
    and link: "linked ps (wc_l (q_c q)) ((\<sigma>', rem) # fs) \<sigma>" and ag: "agrees bs (q_m q) \<sigma> {}"
  shows "at_open_level bs st ps n0 c0 q fs \<sigma>' rem"
proof -
  let ?l = "wc_l (q_c q) ! length fs"
  have fr: "length fs < length ps" "open_level bs ps (length fs) \<sigma>' rem ?l" "linked ps (wc_l (q_c q)) fs \<sigma>'"
    using machineD(6) [OF m] by simp_all
  obtain t where t: "\<sigma> = extend (subst3 \<sigma>' (ps ! length fs)) t \<sigma>'" and run: "cu_started (lv_c ?l) \<noteq> 2"
    using link by (auto simp: linked_def)
  have "vars_of (lv_c ?l) = pattern_vars bs (subst3 \<sigma>' (ps ! length fs))" using fr(2) run by (simp add: open_level_def)
  moreover have "declared bs (subst3 \<sigma>' (ps ! length fs))"
    using q fr(1,3) by (intro declared_subst) (simp_all add: query_ok_def linked_def)
  moreover have "bindings_ok bs" using q by (simp add: query_ok_def)
  ultimately have "agrees bs (q_m q) \<sigma>' (cursor_slots (lv_c ?l))" using ag t by (intro agrees_before) simp_all
  then show ?thesis using m by (simp add: at_open_level_def)
qed

section \<open>The search\<close>

text \<open>What the frames have still to give, and the rounds it takes.\<close>

fun todo :: "binding list \<Rightarrow> facts \<Rightarrow> triple list \<Rightarrow> frames \<Rightarrow> env list" where
  "todo bs st ps [] = []"
| "todo bs st ps ((\<sigma>, rem) # fs) =
     concat (map (\<lambda>a. solve bs st (drop (Suc (length fs)) ps) (matched st (ps ! length fs) \<sigma> a)) rem) @ todo bs st ps fs"

fun rounds :: "binding list \<Rightarrow> facts \<Rightarrow> triple list \<Rightarrow> frames \<Rightarrow> nat" where
  "rounds bs st ps [] = 0"
| "rounds bs st ps ((\<sigma>, rem) # fs) =
     Suc (sum_list (map (\<lambda>a. Suc (turns bs st (drop (Suc (length fs)) ps) (matched st (ps ! length fs) \<sigma> a))) rem)) + rounds bs st ps fs"

lemma todo_new: "length fs < length ps \<Longrightarrow>
    solve bs st (drop (length fs) ps) \<sigma> @ todo bs st ps fs = todo bs st ps ((\<sigma>, pattern_scan bs (subst3 \<sigma> (ps ! length fs)) st) # fs) \<and>
    turns bs st (drop (length fs) ps) \<sigma> + rounds bs st ps fs = rounds bs st ps ((\<sigma>, pattern_scan bs (subst3 \<sigma> (ps ! length fs)) st) # fs)"
  by (simp add: Cons_nth_drop_Suc [symmetric])

definition searching :: "binding list \<Rightarrow> facts \<Rightarrow> triple list \<Rightarrow> nat \<Rightarrow> with_cursor \<Rightarrow> query \<Rightarrow> env list \<Rightarrow> nat \<Rightarrow> bool" where
  "searching bs st ps n0 c0 q T r \<longleftrightarrow>
     (\<exists>fs \<sigma>. at_new_level bs st ps n0 c0 q fs \<sigma> \<and> T = solve bs st (drop (length fs) ps) \<sigma> @ todo bs st ps fs \<and>
        r = turns bs st (drop (length fs) ps) \<sigma> + rounds bs st ps fs) \<or>
     (\<exists>fs \<sigma> rem. at_open_level bs st ps n0 c0 q fs \<sigma> rem \<and> wc_level (q_c q) = length fs \<and>
        T = todo bs st ps ((\<sigma>, rem) # fs) \<and> r = rounds bs st ps ((\<sigma>, rem) # fs))"

text \<open>A search ends with a result, from which it can go on, or finished.\<close>

definition finished :: "facts \<Rightarrow> nat \<Rightarrow> with_cursor \<Rightarrow> query \<Rightarrow> bool" where
  "finished st n0 c0 q \<longleftrightarrow> q_db q = reading n0 st \<and>
     q_c q = c0\<lparr>wc_l := wc_l (q_c q), wc_level := wc_level (q_c q), wc_count := 0\<rparr>"

definition stopped_at :: "binding list \<Rightarrow> facts \<Rightarrow> triple list \<Rightarrow> nat \<Rightarrow> with_cursor \<Rightarrow> query \<Rightarrow> env \<Rightarrow> env list \<Rightarrow> bool" where
  "stopped_at bs st ps n0 c0 q \<sigma> T \<longleftrightarrow>
     (\<exists>fs. at_new_level bs st ps n0 c0 q fs \<sigma> \<and> length fs = length ps \<and> T = todo bs st ps fs)"

fun outcome :: "binding list \<Rightarrow> facts \<Rightarrow> triple list \<Rightarrow> nat \<Rightarrow> with_cursor \<Rightarrow> env list \<Rightarrow> bool \<times> query \<Rightarrow> bool" where
  "outcome bs st ps n0 c0 [] (r, q) \<longleftrightarrow> \<not> r \<and> finished st n0 c0 q"
| "outcome bs st ps n0 c0 (\<sigma> # T) (r, q) \<longleftrightarrow> r \<and> stopped_at bs st ps n0 c0 q \<sigma> T"

lemma at_open_levelD:
  assumes "at_open_level bs st ps n0 c0 q fs \<sigma> rem"
  shows "length fs < length ps" "level_of q (length fs) = Some (wc_l (q_c q) ! length fs)"
    "negated_level (wc_l (q_c q) ! length fs) = Some False" "lv_init (wc_l (q_c q) ! length fs)"
    "wc_count (q_c q) = length ps" "wc_bindings (q_c q) = bs"
proof -
  have m: "machine bs st ps n0 c0 q ((\<sigma>, rem) # fs)" using assms by (simp add: at_open_level_def)
  note d = machineD [OF m]
  have o: "open_level bs ps (length fs) \<sigma> rem (wc_l (q_c q) ! length fs)" and k: "length fs < length ps" using d(6) by simp_all
  show "length fs < length ps" by (rule k)
  show "level_of q (length fs) = Some (wc_l (q_c q) ! length fs)" by (rule level_of_machine [OF m k])
  show "negated_level (wc_l (q_c q) ! length fs) = Some False" by (rule not_negated [OF o k])
  show "lv_init (wc_l (q_c q) ! length fs)" using o by (simp add: open_level_def)
  show "wc_count (q_c q) = length ps" "wc_bindings (q_c q) = bs" by (rule d(3), rule d(2))
qed

lemma finished_no_more:
  assumes "machine bs st ps n0 c0 q []"
  shows "finished st n0 c0 (no_more q)"
proof -
  have "c\<lparr>wc_count := 0\<rparr> = c0\<lparr>wc_l := wc_l c, wc_level := wc_level c, wc_count := 0\<rparr>"
    if "c = c0\<lparr>wc_l := wc_l c, wc_level := wc_level c\<rparr>" for c
    using that by (cases c; cases c0) simp
  from this [OF machineD(1) [OF assms]] show ?thesis
    using machineD(8) [OF assms] by (simp add: finished_def no_more_def)
qed

lemma turn_opened:
  assumes q: "query_ok bs st ps" and at: "at_open_level bs st ps n0 c0 q fs \<sigma> rem" and lev: "wc_level (q_c q) = length fs"
  shows "(\<exists>q' r. with_turn q = Some (Again q') \<and> searching bs st ps n0 c0 q' (todo bs st ps ((\<sigma>, rem) # fs)) r \<and>
      r < rounds bs st ps ((\<sigma>, rem) # fs)) \<or>
    (\<exists>q'. with_turn q = Some (Done False q') \<and> todo bs st ps ((\<sigma>, rem) # fs) = [] \<and> finished st n0 c0 q')"
proof (cases rem)
  case (Cons a rem')
  note d = at_open_levelD [OF at]
  have at': "at_open_level bs st ps n0 c0 q fs \<sigma> (a # rem')" using at Cons by simp
  obtain q' q'' where n: "next_of (length fs) q = Some (Some a, q')" "store_fact (length fs) (Some a) q' = Some q''"
    "at_new_level bs st ps n0 c0 (at_level (Suc (length fs)) q'') ((\<sigma>, rem') # fs) (matched st (ps ! length fs) \<sigma> a)"
    by (rule open_level_gives [OF q at'])
  have "with_turn q = Some (Again (at_level (Suc (length fs)) q''))"
    using d n(1,2) by (simp add: with_turn_def init_level_def Let_def lev)
  moreover have "searching bs st ps n0 c0 (at_level (Suc (length fs)) q'') (todo bs st ps ((\<sigma>, rem) # fs))
      (turns bs st (drop (Suc (length fs)) ps) (matched st (ps ! length fs) \<sigma> a) + rounds bs st ps ((\<sigma>, rem') # fs))"
    unfolding searching_def Cons using n(3)
    by (intro disjI1 exI [of _ "(\<sigma>, rem') # fs"] exI [of _ "matched st (ps ! length fs) \<sigma> a"]) simp
  ultimately show ?thesis
    by (intro disjI1 exI [of _ "at_level (Suc (length fs)) q''"] exI conjI) (assumption | simp add: Cons)+
next
  case Nil
  note d = at_open_levelD [OF at]
  obtain q1 q2 q' where n: "next_of (length fs) q = Some (None, q1)" "store_fact (length fs) None q1 = Some q2"
    "stop_level (length fs) q2 = Some q'" "machine bs st ps n0 c0 q' fs" "linked ps (wc_l (q_c q')) fs \<sigma>"
    "agrees bs (q_m q') \<sigma> {}" "wc_level (q_c q2) = wc_level (q_c q)"
    by (rule open_level_ends [OF q at [unfolded Nil]])
  have turn: "with_turn q = Some (if length fs > 0 then Again (at_level (length fs - 1) q') else Done False (no_more q'))"
    using d n(1-3,7) by (simp add: with_turn_def init_level_def Let_def lev backtrack_def)
  show ?thesis
  proof (cases fs)
    case Nil
    then show ?thesis using turn finished_no_more n(4) \<open>rem = []\<close> by simp
  next
    case (Cons f fs')
    obtain \<sigma>' rem' where f: "f = (\<sigma>', rem')" by (cases f)
    note m' = machine_at_level [OF n(4) [unfolded Cons f], of "length fs - 1"]
    have "at_open_level bs st ps n0 c0 (at_level (length fs - 1) q') fs' \<sigma>' rem'"
      by (rule go_back [OF q m', of \<sigma>]) (use n(5,6) in \<open>simp_all add: Cons f\<close>)
    then have "searching bs st ps n0 c0 (at_level (length fs - 1) q') (todo bs st ps ((\<sigma>, rem) # fs)) (rounds bs st ps fs)"
      unfolding searching_def by (intro disjI2 exI [of _ fs'] exI [of _ \<sigma>'] exI [of _ rem']) (simp add: Cons f Nil)
    then show ?thesis using turn by (intro disjI1 exI conjI) (assumption | simp add: Cons Nil)+
  qed
qed

lemma turn_new:
  assumes q: "query_ok bs st ps" and at: "at_new_level bs st ps n0 c0 q fs \<sigma>" and k: "length fs < length ps"
  obtains q1 where "at_open_level bs st ps n0 c0 q1 fs \<sigma> (pattern_scan bs (subst3 \<sigma> (ps ! length fs)) st)"
    "wc_level (q_c q1) = length fs" "with_turn q = with_turn q1"
proof -
  obtain q1 where q1: "init_level q = Some q1" "machine bs st ps n0 c0 q1 ((\<sigma>, pattern_scan bs (subst3 \<sigma> (ps ! length fs)) st) # fs)"
    "wc_level (q_c q1) = length fs" "q_m q1 = q_m q"
    using init_opens [OF q _ k] at unfolding at_new_level_def by blast
  then have at1: "at_open_level bs st ps n0 c0 q1 fs \<sigma> (pattern_scan bs (subst3 \<sigma> (ps ! length fs)) st)"
    using at by (auto simp: at_open_level_def at_new_level_def agrees_def)
  have "init_level q1 = Some q1" using at_open_levelD [OF at1] by (simp add: init_level_def Let_def q1(3))
  then have "with_turn q = with_turn q1" using q1(1) by (simp add: with_turn_def)
  with at1 q1(3) show ?thesis by (rule that)
qed

lemma search_round:
  assumes q: "query_ok bs st ps" and s: "searching bs st ps n0 c0 q T r"
  shows "(\<exists>q' r'. with_body q = Some (Inl q') \<and> searching bs st ps n0 c0 q' T r' \<and> r' < r) \<or>
    (\<exists>res. with_body q = Some (Inr res) \<and> outcome bs st ps n0 c0 T res)"
proof -
  have opened: ?thesis if at: "at_open_level bs st ps n0 c0 q1 fs \<sigma> rem" "wc_level (q_c q1) = length fs"
      "T = todo bs st ps ((\<sigma>, rem) # fs)" "r = rounds bs st ps ((\<sigma>, rem) # fs)"
    and same: "with_body q = (case with_turn q1 of None \<Rightarrow> None | Some (Done r q') \<Rightarrow> Some (Inr (r, q')) | Some (Again q') \<Rightarrow> Some (Inl q'))"
    for q1 fs \<sigma> rem
    using turn_opened [OF q at(1,2)] unfolding same at(3,4) by (elim disjE exE conjE) (auto simp del: todo.simps rounds.simps)
  from s consider (new) fs \<sigma> where "at_new_level bs st ps n0 c0 q fs \<sigma>" "T = solve bs st (drop (length fs) ps) \<sigma> @ todo bs st ps fs"
      "r = turns bs st (drop (length fs) ps) \<sigma> + rounds bs st ps fs"
    | (mid) fs \<sigma> rem where "at_open_level bs st ps n0 c0 q fs \<sigma> rem" "wc_level (q_c q) = length fs"
        "T = todo bs st ps ((\<sigma>, rem) # fs)" "r = rounds bs st ps ((\<sigma>, rem) # fs)"
    unfolding searching_def by blast
  then show ?thesis
  proof cases
    case new
    have lev: "wc_level (q_c q) = length fs" "wc_count (q_c q) = length ps" "length fs \<le> length ps"
      using new(1) machineD(3,6) frames_ok_length unfolding at_new_level_def by blast+
    show ?thesis
    proof (cases "length fs < length ps")
      case True
      obtain q1 where q1: "at_open_level bs st ps n0 c0 q1 fs \<sigma> (pattern_scan bs (subst3 \<sigma> (ps ! length fs)) st)"
        "wc_level (q_c q1) = length fs" "with_turn q = with_turn q1" by (rule turn_new [OF q new(1) True])
      show ?thesis
        using opened [OF q1(1,2)] new(2,3) todo_new [OF True] q1(3) lev True by (simp add: with_body_def del: todo.simps rounds.simps)
    next
      case False
      then have "outcome bs st ps n0 c0 T (True, q)" using new lev(3) by (auto simp: stopped_at_def)
      then show ?thesis using False lev by (simp add: with_body_def)
    qed
  next
    case mid
    then show ?thesis using opened [OF mid(1)] mid at_open_levelD(1,5) [OF mid(1)] by (simp add: with_body_def del: todo.simps rounds.simps)
  qed
qed

lemma search_ends:
  assumes "query_ok bs st ps" "searching bs st ps n0 c0 q T r"
  obtains res where "with_loop q = Some res" "outcome bs st ps n0 c0 T res"
proof -
  have "\<exists>res. run_loop with_body q = Some res \<and> outcome bs st ps n0 c0 T res"
    using assms(2)
  proof (induction r arbitrary: q rule: less_induct)
    case (less r)
    from search_round [OF assms(1) less.prems] show ?case
    proof (elim disjE exE conjE)
      fix q' r' assume "with_body q = Some (Inl q')" "searching bs st ps n0 c0 q' T r'" "r' < r"
      with less.IH [of r' q'] run_loop_simps(2) [of with_body q q'] show ?thesis by auto
    qed (auto simp: run_loop_simps(3))
  qed
  with that show thesis by (auto simp: with_loop_def)
qed

section \<open>The next result\<close>

text \<open>Before a call: new, at the last result, or finished. \<open>T\<close> is what the search has still to find.\<close>

definition ready :: "binding list \<Rightarrow> facts \<Rightarrow> triple list \<Rightarrow> nat \<Rightarrow> with_cursor \<Rightarrow> query \<Rightarrow> env list \<Rightarrow> bool" where
  "ready bs st ps n0 c0 q T \<longleftrightarrow>
     (at_new_level bs st ps n0 c0 q [] Map.empty \<and> T = solve bs st ps Map.empty) \<or>
     (\<exists>\<sigma>. stopped_at bs st ps n0 c0 q \<sigma> T) \<or> (T = [] \<and> finished st n0 c0 q)"

lemma resume_goes:
  assumes q: "query_ok bs st ps" and at: "stopped_at bs st ps n0 c0 q \<sigma> T" and ps: "ps \<noteq> []"
  shows "(\<exists>q' r. resume q = Some (Again q') \<and> searching bs st ps n0 c0 q' T r) \<or>
    (\<exists>r q'. resume q = Some (Done r q') \<and> outcome bs st ps n0 c0 T (r, q'))"
proof -
  obtain fs0 where at0: "at_new_level bs st ps n0 c0 q fs0 \<sigma>" "length fs0 = length ps" "T = todo bs st ps fs0"
    using at by (auto simp: stopped_at_def)
  then obtain \<sigma>' rem fs where fs0: "fs0 = (\<sigma>', rem) # fs" using ps by (cases fs0) auto
  have k: "length ps = Suc (length fs)" using at0(2) by (simp add: fs0)
  have drop: "drop (Suc (length fs)) ps = []" using at0(2) by (simp add: fs0)
  have T: "T = map (matched st (ps ! length fs) \<sigma>') rem @ todo bs st ps fs"
  proof -
    have "concat (map (\<lambda>a. [f a]) l) = map f l" for f :: "addr \<Rightarrow> env" and l by (induction l) simp_all
    then show ?thesis by (simp add: at0(3) fs0 drop)
  qed
  have op: "at_open_level bs st ps n0 c0 q fs \<sigma>' rem" and lev: "wc_level (q_c q) = length ps"
    using go_back [OF q] at0 unfolding at_new_level_def fs0 by auto
  note d = at_open_levelD [OF op]
  show ?thesis
  proof (cases rem)
    case (Cons a rem')
    obtain q' q'' where n: "next_of (length fs) q = Some (Some a, q')" "store_fact (length fs) (Some a) q' = Some q''"
      "at_new_level bs st ps n0 c0 (at_level (Suc (length fs)) q'') ((\<sigma>', rem') # fs) (matched st (ps ! length fs) \<sigma>' a)"
      "wc_level (q_c q'') = wc_level (q_c q)"
      by (rule open_level_gives [OF q op [unfolded Cons]])
    have "at_level (Suc (length fs)) q'' = q''" using n(4) lev at0(2) by (simp add: at_level_def fs0)
    then have "stopped_at bs st ps n0 c0 q'' (matched st (ps ! length fs) \<sigma>' a) (map (matched st (ps ! length fs) \<sigma>') rem' @ todo bs st ps fs)"
      unfolding stopped_at_def using n(3) at0(2) drop
      by (intro exI [of _ "(\<sigma>', rem') # fs"]) (simp add: fs0 concat_map_singleton)
    moreover have "resume q = Some (Done True q'')"
      using d n(1,2) by (simp add: resume_def Let_def k)
    ultimately show ?thesis by (intro disjI2 exI [of _ True] exI [of _ q'']) (simp add: T Cons)
  next
    case Nil
    obtain q1 q2 q' where n: "next_of (length fs) q = Some (None, q1)" "store_fact (length fs) None q1 = Some q2"
      "stop_level (length fs) q2 = Some q'" "machine bs st ps n0 c0 q' fs" "linked ps (wc_l (q_c q')) fs \<sigma>'"
      "agrees bs (q_m q') \<sigma>' {}" "wc_level (q_c q2) = wc_level (q_c q)"
      by (rule open_level_ends [OF q op [unfolded Nil]])
    have res: "resume q = Some (if length fs = 0 then Done False (no_more (at_level 0 q')) else Again (at_level (length fs - 1) q'))"
      using d n(1-3) by (simp add: resume_def Let_def k)
    show ?thesis
    proof (cases fs)
      case Nil
      have "finished st n0 c0 (no_more (at_level 0 q'))"
        by (rule finished_no_more [OF machine_at_level]) (use n(4) Nil in simp)
      then show ?thesis using res Nil by (intro disjI2 exI [of _ False] exI [of _ "no_more (at_level 0 q')"]) (simp add: T \<open>rem = []\<close>)
    next
      case (Cons f fs')
      obtain \<sigma>2 rem2 where f: "f = (\<sigma>2, rem2)" by (cases f)
      note m' = machine_at_level [OF n(4) [unfolded Cons f], of "length fs - 1"]
      have "at_open_level bs st ps n0 c0 (at_level (length fs - 1) q') fs' \<sigma>2 rem2"
        by (rule go_back [OF q m', of \<sigma>']) (use n(5,6) in \<open>simp_all add: Cons f\<close>)
      then have "searching bs st ps n0 c0 (at_level (length fs - 1) q') T (rounds bs st ps fs)"
        unfolding searching_def by (intro disjI2 exI [of _ fs'] exI [of _ \<sigma>2] exI [of _ rem2]) (simp add: Cons f T Nil)
      then show ?thesis using res by (intro disjI1 exI conjI) (assumption | simp add: Cons)+
    qed
  qed
qed

lemma next_inner_outcome:
  assumes q: "query_ok bs st ps" and at: "ready bs st ps n0 c0 q T" and ps: "ps \<noteq> []"
  obtains res where "facts_with_cursor_next_inner q = Some res" "outcome bs st ps n0 c0 T res"
proof -
  from at consider (new) "at_new_level bs st ps n0 c0 q [] Map.empty" "T = solve bs st ps Map.empty"
    | (stopped) \<sigma> where "stopped_at bs st ps n0 c0 q \<sigma> T" | (fin) "T = []" "finished st n0 c0 q"
    unfolding ready_def by blast
  then show ?thesis
  proof cases
    case new
    have "wc_level (q_c q) = 0" "wc_count (q_c q) = length ps"
      using new(1) machineD(3) by (auto simp: at_new_level_def)
    moreover have "searching bs st ps n0 c0 q T (turns bs st ps Map.empty)"
      unfolding searching_def using new by (intro disjI1 exI [of _ "[]"] exI [of _ Map.empty]) simp
    ultimately show ?thesis
      using that ps search_ends [OF q] by (metis facts_with_cursor_next_inner_def length_0_conv)
  next
    case stopped
    have lev: "wc_level (q_c q) = length ps" "wc_count (q_c q) = length ps"
      using stopped machineD(3) by (auto simp: stopped_at_def at_new_level_def)
    from resume_goes [OF q stopped ps] show ?thesis
    proof (elim disjE exE conjE)
      fix q' r assume r: "resume q = Some (Again q')" "searching bs st ps n0 c0 q' T r"
      obtain res where res: "with_loop q' = Some res" "outcome bs st ps n0 c0 T res" by (rule search_ends [OF q r(2)])
      then have "facts_with_cursor_next_inner q = Some res" using r(1) lev ps by (simp add: facts_with_cursor_next_inner_def)
      then show ?thesis using res(2) by (rule that)
    next
      fix r q' assume r: "resume q = Some (Done r q')" "outcome bs st ps n0 c0 T (r, q')"
      then have "facts_with_cursor_next_inner q = Some (r, q')" using lev ps by (simp add: facts_with_cursor_next_inner_def)
      then show ?thesis using r(2) by (rule that)
    qed
  next
    case fin
    have "wc_count (q_c q) = 0" using fin(2) unfolding finished_def by (metis with_cursor.select_convs(2) with_cursor.surjective with_cursor.update_convs(2))
    then have "facts_with_cursor_next_inner q = Some (False, q)" by (simp add: facts_with_cursor_next_inner_def)
    then show ?thesis by (rule that) (simp add: fin)
  qed
qed

lemma outcome_ready: "outcome bs st ps n0 c0 T (r, q) \<Longrightarrow> ready bs st ps n0 c0 q (tl T) \<and> r = (T \<noteq> [])"
  by (cases T) (auto simp: ready_def)

end
