(* ===== verification/Query_Answers.thy ===== *)
theory Query_Answers
  imports Query_Run
begin

text \<open>
  What a query answers: the recursive join gives every substitution of the variables under which
  all patterns are stored facts, each once; the calls of \<^verbatim>\<open>facts_with_cursor_next\<close> give the answers
  of the join in its order, cut to the offset and the limit; and \<^verbatim>\<open>facts_with_cursor_destroy\<close> gives all
  locks back.
\<close>

section \<open>The join and the contents\<close>

definition vars_in :: "triple \<Rightarrow> cstr set" where
  "vars_in p = (case p of (s, p, ob) \<Rightarrow> {x \<in> {s, p, ob}. is_var x})"

text \<open>No variable is twice in a pattern: the code does not compare the values.\<close>

definition linear :: "triple \<Rightarrow> bool" where
  "linear p = (case p of (s, p, ob) \<Rightarrow> (is_var s \<longrightarrow> s \<noteq> p \<and> s \<noteq> ob) \<and> (is_var p \<longrightarrow> p \<noteq> ob))"

text \<open>The answers to patterns over contents, from an environment on.\<close>

definition answers_from :: "contents \<Rightarrow> triple list \<Rightarrow> env \<Rightarrow> env set" where
  "answers_from C ps \<sigma> =
     {\<tau>. \<sigma> \<subseteq>\<^sub>m \<tau> \<and> dom \<tau> = dom \<sigma> \<union> (\<Union>p \<in> set ps. vars_in p) \<and> (\<forall>p \<in> set ps. subst3 \<tau> p \<in> dom C)}"

definition answers_of :: "contents \<Rightarrow> triple list \<Rightarrow> env set" where
  "answers_of C ps = answers_from C ps Map.empty"

lemma dom_bind1: "dom (bind1 x v \<sigma>) = dom \<sigma> \<union> {y \<in> {x}. is_var y}"
  by (auto simp: bind1_def)

lemma dom_extend: "dom (extend q t \<sigma>) = dom \<sigma> \<union> vars_in q"
  by (cases q; cases t) (auto simp: extend_def dom_bind1 vars_in_def)

lemma vars_in_subst: "plain_env \<sigma> \<Longrightarrow> vars_in (subst3 \<sigma> p) = vars_in p - dom \<sigma>"
  using subst1_var [of \<sigma>] subst1_var_same [of \<sigma>]
  by (cases p) (auto simp: vars_in_def subst3_def subst1_def plain_env_def split: option.splits)

lemma bind1_apply: "bind1 x v \<sigma> y = (if y = x \<and> is_var x then Some v else \<sigma> y)"
  by (simp add: bind1_def)

lemma subst1_varD:
  assumes "plain_env \<sigma>" "is_var (subst1 \<sigma> x)"
  shows "subst1 \<sigma> x = x" "is_var x" "\<sigma> x = None"
proof -
  show "subst1 \<sigma> x = x" by (rule subst1_var_same [OF assms])
  show "is_var x" "\<sigma> x = None" using assms(2) by (simp_all add: subst1_var [OF assms(1)])
qed

text \<open>A fact that fits a pattern is the pattern under the environment it makes.\<close>

lemma subst1_le: "\<sigma> \<subseteq>\<^sub>m \<tau> \<Longrightarrow> is_var x \<Longrightarrow> \<sigma> x = Some y \<Longrightarrow> subst1 \<tau> x = y"
  by (auto simp: subst1_def map_le_def dom_def split: option.split)

lemma fits_extend:
  assumes \<sigma>: "plain_env \<sigma>" and lin: "linear p"
    and fit: "pattern_fits bs (subst3 \<sigma> p) t"
  shows "subst3 (extend (subst3 \<sigma> p) t \<sigma>) p = t"
proof -
  obtain s pr ob where p: "p = (s, pr, ob)" by (rule prod_cases3)
  obtain s' pr' ob' where t: "t = (s', pr', ob')" by (rule prod_cases3)
  let ?\<tau> = "extend (subst3 \<sigma> p) t \<sigma>"
  have q: "subst3 \<sigma> p = (subst1 \<sigma> s, subst1 \<sigma> pr, subst1 \<sigma> ob)" by (simp add: p subst3_def)
  have le: "\<sigma> \<subseteq>\<^sub>m ?\<tau>" by (rule extend_le [OF \<sigma>])
  have known: "subst1 ?\<tau> x = x'" if "\<not> is_var (subst1 \<sigma> x)" "var_slot bs (subst1 \<sigma> x) = None \<longrightarrow> x' = subst1 \<sigma> x" for x x'
    using that subst1_twice [OF \<sigma> le, of x] by (simp add: var_slot_def)
  note var = subst1_varD [OF \<sigma>]
  have neq: "subst1 \<sigma> y \<noteq> x" if "is_var (subst1 \<sigma> x)" "y \<noteq> x" for x y
  proof
    assume y: "subst1 \<sigma> y = x"
    with var(2) [OF that(1)] have "is_var (subst1 \<sigma> y)" by simp
    from var(1) [OF this] y that(2) show False by simp
  qed
  have fits: "var_slot bs (subst1 \<sigma> s) = None \<longrightarrow> s' = subst1 \<sigma> s" "var_slot bs (subst1 \<sigma> pr) = None \<longrightarrow> pr' = subst1 \<sigma> pr"
    "var_slot bs (subst1 \<sigma> ob) = None \<longrightarrow> ob' = subst1 \<sigma> ob"
    using fit by (simp_all add: pattern_fits_def q t)
  have "subst1 ?\<tau> s = s'"
  proof (cases "is_var (subst1 \<sigma> s)")
    case True
    note v = var [OF True]
    have "pr \<noteq> s" "ob \<noteq> s" using lin v(2) by (auto simp: linear_def p)
    then have "?\<tau> s = Some s'" using v neq [OF True] by (auto simp: extend_def q t bind1_apply)
    then show ?thesis using v(2) by (simp add: subst1_def)
  qed (rule known [OF _ fits(1)])
  moreover have "subst1 ?\<tau> pr = pr'"
  proof (cases "is_var (subst1 \<sigma> pr)")
    case True
    note v = var [OF True]
    have "ob \<noteq> pr" using lin v(2) by (auto simp: linear_def p)
    then have "?\<tau> pr = Some pr'" using v neq [OF True] by (auto simp: extend_def q t bind1_apply)
    then show ?thesis using v(2) by (simp add: subst1_def)
  qed (rule known [OF _ fits(2)])
  moreover have "subst1 ?\<tau> ob = ob'"
  proof (cases "is_var (subst1 \<sigma> ob)")
    case True
    note v = var [OF True]
    have "?\<tau> ob = Some ob'" using v by (simp add: extend_def q t bind1_apply)
    then show ?thesis using v(2) by (simp add: subst1_def)
  qed (rule known [OF _ fits(3)])
  ultimately show ?thesis by (simp add: p t subst3_def)
qed

text \<open>Conversely a solution fits, and extends the environment.\<close>

lemma subst_fits:
  assumes \<sigma>: "plain_env \<sigma>" and le: "\<sigma> \<subseteq>\<^sub>m \<tau>" and dec: "declared bs p"
  shows "pattern_fits bs (subst3 \<sigma> p) (subst3 \<tau> p)"
proof -
  have "subst1 \<tau> x = subst1 \<sigma> x" if "var_slot bs (subst1 \<sigma> x) = None" "is_var x \<longrightarrow> bindings_get bs x \<noteq> None" for x
  proof -
    have "\<not> is_var (subst1 \<sigma> x)"
    proof
      assume v: "is_var (subst1 \<sigma> x)"
      from subst1_var_same [OF \<sigma> v] v that show False by (simp add: var_slot_def)
    qed
    then show ?thesis using subst1_twice [OF \<sigma> le, of x] by simp
  qed
  with dec show ?thesis by (cases p) (auto simp: pattern_fits_def subst3_def declared_def)
qed

lemma extend_subst_le:
  assumes \<sigma>: "plain_env \<sigma>" and le: "\<sigma> \<subseteq>\<^sub>m \<tau>" and all: "vars_in p \<subseteq> dom \<tau>"
  shows "extend (subst3 \<sigma> p) (subst3 \<tau> p) \<sigma> \<subseteq>\<^sub>m \<tau>"
proof -
  have "bind1 (subst1 \<sigma> x) (subst1 \<tau> x) \<rho> \<subseteq>\<^sub>m \<tau>" if "\<rho> \<subseteq>\<^sub>m \<tau>" "is_var x \<longrightarrow> x \<in> dom \<tau>" for x \<rho>
  proof (cases "is_var (subst1 \<sigma> x)")
    case True
    note x = subst1_varD [OF \<sigma> True]
    then have "\<tau> x = Some (subst1 \<tau> x)" using that(2) by (auto simp: subst1_def)
    then show ?thesis using that(1) x by (auto simp: bind1_def map_le_def)
  qed (use that(1) in \<open>simp add: bind1_def\<close>)
  note step = this
  obtain s pr ob where p: "p = (s, pr, ob)" by (rule prod_cases3)
  have "is_var x \<longrightarrow> x \<in> dom \<tau>" if "x \<in> {s, pr, ob}" for x using all that by (auto simp: vars_in_def p)
  then show ?thesis by (simp add: extend_def subst3_def p) (intro step le; simp)
qed

lemma solve_answers:
  assumes ok: "db_ok X st" and plain: "plain_facts st" and ps: "\<And>p. p \<in> set ps \<Longrightarrow> declared bs p \<and> linear p"
    and \<sigma>: "plain_env \<sigma>"
  shows "set (solve bs st ps \<sigma>) = answers_from (contents st) ps \<sigma>" "distinct (solve bs st ps \<sigma>)"
proof -
  have "set (solve bs st ps \<sigma>) = answers_from (contents st) ps \<sigma> \<and> distinct (solve bs st ps \<sigma>)"
    using ps \<sigma>
  proof (induction ps arbitrary: \<sigma>)
    case Nil
    have "\<tau> = \<sigma>" if "\<sigma> \<subseteq>\<^sub>m \<tau>" "dom \<tau> = dom \<sigma>" for \<tau>
      using that by (metis map_le_antisym map_le_def)
    then show ?case by (auto simp: answers_from_def)
  next
    case (Cons p ps)
    have p: "declared bs p" "linear p" using Cons.prems(1) by simp_all
    let ?q = "subst3 \<sigma> p" and ?t = "\<lambda>a. triple_of (db_heap st a)"
    note scan = pattern_scan_fitting [OF ok, of bs ?q]
    have fit: "a \<in> stored st \<and> pattern_fits bs ?q (?t a) \<and> subst3 (matched st p \<sigma> a) p = ?t a \<and> plain_env (matched st p \<sigma> a)"
      if "a \<in> set (pattern_scan bs ?q st)" for a
    proof -
      have a: "a \<in> stored st" "pattern_fits bs ?q (?t a)" using that scan(1) by (simp_all add: fitting_def)
      then show ?thesis using fits_extend [OF Cons.prems(2) p(2) a(2)] plain_extend [OF Cons.prems(2) plain_triple_of [OF plain a(1)]]
        by (simp add: matched_def)
    qed
    have IH: "set (solve bs st ps (matched st p \<sigma> a)) = answers_from (contents st) ps (matched st p \<sigma> a)"
      "distinct (solve bs st ps (matched st p \<sigma> a))" if "a \<in> set (pattern_scan bs ?q st)" for a
      using Cons.IH [of "matched st p \<sigma> a"] Cons.prems(1) fit [OF that] by simp_all
    have dom: "dom (matched st p \<sigma> a) = dom \<sigma> \<union> vars_in p" for a
      using dom_extend vars_in_subst [OF Cons.prems(2)] by (auto simp: matched_def)
    have le: "\<sigma> \<subseteq>\<^sub>m matched st p \<sigma> a" for a unfolding matched_def by (rule extend_le [OF Cons.prems(2)])
    have inst: "subst3 \<tau> p = ?t a" if "a \<in> set (pattern_scan bs ?q st)" "matched st p \<sigma> a \<subseteq>\<^sub>m \<tau>" for a \<tau>
      using fit [OF that(1)] subst3_twice [of "matched st p \<sigma> a" \<tau> p] that(2) plain_triple_of [OF plain, of a]
      by (cases "?t a") (auto simp: plain_triple_def subst3_def)
    have "\<tau> \<in> set (solve bs st (p # ps) \<sigma>) \<longleftrightarrow> \<tau> \<in> answers_from (contents st) (p # ps) \<sigma>" for \<tau>
    proof
      assume "\<tau> \<in> set (solve bs st (p # ps) \<sigma>)"
      then obtain a where a: "a \<in> set (pattern_scan bs ?q st)" "\<tau> \<in> answers_from (contents st) ps (matched st p \<sigma> a)"
        using IH(1) by auto
      then have t: "subst3 \<tau> p = ?t a" using inst by (simp add: answers_from_def)
      have "contents st (?t a) = Some (supp_of (db_heap st a))"
        using contents_stored [OF ok] fit [OF a(1)] by simp
      with t have "subst3 \<tau> p \<in> dom (contents st)" by auto
      with a(2) show "\<tau> \<in> answers_from (contents st) (p # ps) \<sigma>"
        using map_le_trans [OF le] dom [of a] by (auto simp: answers_from_def)
    next
      assume \<tau>: "\<tau> \<in> answers_from (contents st) (p # ps) \<sigma>"
      then obtain v where "contents st (subst3 \<tau> p) = Some v" by (auto simp: answers_from_def)
      then obtain a where a: "a \<in> stored st" "?t a = subst3 \<tau> p" unfolding contents_iff [OF ok] by blast
      have "pattern_fits bs ?q (?t a)"
        unfolding a(2) by (rule subst_fits [OF Cons.prems(2) _ p(1)]) (use \<tau> in \<open>simp add: answers_from_def\<close>)
      then have mem: "a \<in> set (pattern_scan bs ?q st)" using a(1) scan(1) by (simp add: fitting_def)
      have "vars_in p \<subseteq> dom \<tau>" "\<sigma> \<subseteq>\<^sub>m \<tau>" using \<tau> by (auto simp: answers_from_def)
      then have "matched st p \<sigma> a \<subseteq>\<^sub>m \<tau>" unfolding matched_def a(2) by (intro extend_subst_le [OF Cons.prems(2)])
      with \<tau> have "\<tau> \<in> answers_from (contents st) ps (matched st p \<sigma> a)"
        using dom [of a] by (auto simp: answers_from_def)
      with mem IH(1) show "\<tau> \<in> set (solve bs st (p # ps) \<sigma>)" by auto
    qed
    moreover have "distinct (solve bs st (p # ps) \<sigma>)"
    proof -
      have "?t a = ?t b" if "a \<in> set (pattern_scan bs ?q st)" "b \<in> set (pattern_scan bs ?q st)"
        "\<tau> \<in> set (solve bs st ps (matched st p \<sigma> a))" "\<tau> \<in> set (solve bs st ps (matched st p \<sigma> b))" for a b \<tau>
        using inst [OF that(1), of \<tau>] inst [OF that(2), of \<tau>] that(3,4) IH(1) that(1,2) by (simp add: answers_from_def)
      then have disj: "a = b" if "a \<in> set (pattern_scan bs ?q st)" "b \<in> set (pattern_scan bs ?q st)"
        "\<tau> \<in> set (solve bs st ps (matched st p \<sigma> a))" "\<tau> \<in> set (solve bs st ps (matched st p \<sigma> b))" for a b \<tau>
        using triple_inj [OF ok] fit that by meson
      have "distinct (concat (map f l))" if "distinct l" "\<And>a. a \<in> set l \<Longrightarrow> distinct (f a)"
        "\<And>a b x. a \<in> set l \<Longrightarrow> b \<in> set l \<Longrightarrow> x \<in> set (f a) \<Longrightarrow> x \<in> set (f b) \<Longrightarrow> a = b" for l and f :: "addr \<Rightarrow> env list"
        using that
      proof (induction l)
        case (Cons a l)
        have "set (f a) \<inter> set (concat (map f l)) = {}"
        proof (rule ccontr)
          assume "set (f a) \<inter> set (concat (map f l)) \<noteq> {}"
          then obtain x b where x: "x \<in> set (f a)" "b \<in> set l" "x \<in> set (f b)" by auto
          with Cons.prems(3) [of a b x] have "a = b" by simp
          with Cons.prems(1) x(2) show False by simp
        qed
        with Cons show ?case by (simp add: Cons.prems(2,3))
      qed simp
      then show ?thesis using scan(2) IH(2) disj by simp
    qed
    ultimately show ?case by blast
  qed
  then show "set (solve bs st ps \<sigma>) = answers_from (contents st) ps \<sigma>" "distinct (solve bs st ps \<sigma>)" by simp_all
qed

section \<open>Offset and limit\<close>

text \<open>Updates of the fields that the search does not use.\<close>

definition keeps_search :: "(with_cursor \<Rightarrow> with_cursor) \<Rightarrow> bool" where
  "keeps_search g \<longleftrightarrow>
     (\<forall>c ls k n. g (c\<lparr>wc_l := ls, wc_level := k\<rparr>) = (g c)\<lparr>wc_l := ls, wc_level := k\<rparr> \<and>
        g (c\<lparr>wc_l := ls, wc_level := k, wc_count := n\<rparr>) = (g c)\<lparr>wc_l := ls, wc_level := k, wc_count := n\<rparr>) \<and>
     (\<forall>c. wc_l (g c) = wc_l c \<and> wc_level (g c) = wc_level c \<and> wc_bindings (g c) = wc_bindings c \<and>
        wc_count (g c) = wc_count c \<and> wc_spec (g c) = wc_spec c)"

lemma keeps_searchD:
  assumes "keeps_search g"
  shows "g (c\<lparr>wc_l := ls, wc_level := k\<rparr>) = (g c)\<lparr>wc_l := ls, wc_level := k\<rparr>"
    "g (c\<lparr>wc_l := ls, wc_level := k, wc_count := n\<rparr>) = (g c)\<lparr>wc_l := ls, wc_level := k, wc_count := n\<rparr>"
    "wc_l (g c) = wc_l c" "wc_level (g c) = wc_level c" "wc_bindings (g c) = wc_bindings c"
    "wc_count (g c) = wc_count c" "wc_spec (g c) = wc_spec c"
  using assms unfolding keeps_search_def by blast+

lemma keeps_offset: "keeps_search (\<lambda>c. c\<lparr>wc_offset := wc_offset c - 1\<rparr>)"
  "keeps_search (\<lambda>c. c\<lparr>wc_result_count := wc_result_count c + 1\<rparr>)"
  by (simp_all add: keeps_search_def)

lemma upd_c_simps [simp]: "q_m (upd_c g q) = q_m q" "q_db (upd_c g q) = q_db q" "q_c (upd_c g q) = g (q_c q)"
  by (simp_all add: upd_c_def)

lemma machine_upd:
  assumes g: "keeps_search g" and m: "machine bs st ps n0 c0 q fs"
  shows "machine bs st ps n0 (g c0) (upd_c g q) fs"
proof -
  note d = machineD [OF m]
  have "g (q_c q) = (g c0)\<lparr>wc_l := wc_l (q_c q), wc_level := wc_level (q_c q)\<rparr>"
    by (subst d(1)) (rule keeps_searchD(1) [OF g])
  then show ?thesis using d(5-11) by (simp add: machine_def keeps_searchD(3-7) [OF g])
qed

lemma at_new_level_upd:
  "keeps_search g \<Longrightarrow> at_new_level bs st ps n0 c0 q fs \<sigma> \<Longrightarrow> at_new_level bs st ps n0 (g c0) (upd_c g q) fs \<sigma>"
  by (auto simp: at_new_level_def machine_upd keeps_searchD(3-7))

lemma finished_upd: "keeps_search g \<Longrightarrow> finished st n0 c0 q \<Longrightarrow> finished st n0 (g c0) (upd_c g q)"
proof -
  assume g: "keeps_search g" and f: "finished st n0 c0 q"
  then have "g (q_c q) = (g c0)\<lparr>wc_l := wc_l (q_c q), wc_level := wc_level (q_c q), wc_count := 0\<rparr>"
    unfolding finished_def by (metis keeps_searchD(2))
  then show ?thesis using f by (simp add: finished_def keeps_searchD(3-4) [OF g])
qed

lemma ready_upd:
  assumes g: "keeps_search g" and r: "ready bs st ps n0 c0 q T"
  shows "ready bs st ps n0 (g c0) (upd_c g q) T"
  using r unfolding ready_def stopped_at_def
  by (elim disjE exE conjE) (blast intro: at_new_level_upd [OF g] finished_upd [OF g])+

text \<open>The fields that stay.\<close>

definition options_of :: "with_cursor \<Rightarrow> (int \<times> int \<times> int) \<times> bool \<times> bool \<times> binding list option" where
  "options_of c = ((wc_limit c, wc_offset c, wc_result_count c), wc_is_sorted c, wc_locked c, None)"

lemma ready_options:
  assumes "ready bs st ps n0 c0 q T"
  shows "options_of (q_c q) = options_of c0"
proof -
  have "\<exists>ls k n. q_c q = c0\<lparr>wc_l := ls, wc_level := k\<rparr> \<or> q_c q = c0\<lparr>wc_l := ls, wc_level := k, wc_count := n\<rparr>"
    using assms unfolding ready_def stopped_at_def at_new_level_def machine_def finished_def by blast
  then show ?thesis by (auto simp: options_of_def)
qed

lemma ready_fields:
  assumes "ready bs st ps n0 c0 q T"
  shows "wc_limit (q_c q) = wc_limit c0" "wc_offset (q_c q) = wc_offset c0" "wc_result_count (q_c q) = wc_result_count c0"
    "wc_is_sorted (q_c q) = wc_is_sorted c0" "wc_locked (q_c q) = wc_locked c0"
  using ready_options [OF assms] by (simp_all add: options_of_def)

text \<open>What the caller will see of what is left to find.\<close>

definition window :: "with_cursor \<Rightarrow> env list \<Rightarrow> env list" where
  "window c T =
     (let T1 = drop (nat (wc_offset c)) T
      in if wc_limit c \<ge> 0 then take (nat (wc_limit c - wc_result_count c)) T1 else T1)"

lemma skip_outcome:
  assumes q: "query_ok bs st ps" and ps: "ps \<noteq> []" and r: "ready bs st ps n0 c0 q T"
  shows "\<exists>q'. skip_results k q = Some (k \<le> length T, q') \<and>
    (\<exists>x. (k \<le> length T \<longrightarrow> x = wc_offset c0 - int k) \<and> ready bs st ps n0 (c0\<lparr>wc_offset := x\<rparr>) q' (drop k T))"
  using r
proof (induction k arbitrary: q c0 T)
  case 0
  then show ?case by (intro exI [of _ q] conjI exI [of _ "wc_offset c0"]) simp_all
next
  case (Suc k)
  let ?g = "\<lambda>c. c\<lparr>wc_offset := wc_offset c - 1\<rparr>"
  obtain res where res: "facts_with_cursor_next_inner (upd_c ?g q) = Some res" "outcome bs st ps n0 (?g c0) T res"
    by (rule next_inner_outcome [OF q ready_upd [OF keeps_offset(1) Suc.prems] ps])
  obtain ok q1 where okq: "res = (ok, q1)" by (cases res)
  note o = outcome_ready [OF res(2) [unfolded okq]]
  show ?case
  proof (cases T)
    case Nil
    then show ?thesis using res(1) o unfolding okq
      by (intro exI [of _ q1]) (auto intro!: exI [of _ "wc_offset c0 - 1"])
  next
    case (Cons t T')
    have "ready bs st ps n0 (?g c0) q1 T'" using o Cons by simp
    from Suc.IH [OF this] obtain q' x where "skip_results k q1 = Some (k \<le> length T', q')"
      "k \<le> length T' \<longrightarrow> x = wc_offset (?g c0) - int k" "ready bs st ps n0 ((?g c0)\<lparr>wc_offset := x\<rparr>) q' (drop k T')" by blast
    then show ?thesis using res(1) o Cons unfolding okq
      by (intro exI [of _ q']) (auto intro!: exI [of _ x])
  qed
qed

lemma next_outcome:
  assumes q: "query_ok bs st ps" and ps: "ps \<noteq> []" and r: "ready bs st ps n0 c0 q T" and plain: "\<not> wc_is_sorted c0"
  obtains q' c0' T' where "facts_with_cursor_next q = Some (window c0 T \<noteq> [], q')" "ready bs st ps n0 c0' q' T'"
    "window c0' T' = tl (window c0 T)" "\<not> wc_is_sorted c0'" "wc_locked c0' = wc_locked c0"
    "window c0 T \<noteq> [] \<Longrightarrow> agrees bs (q_m q') (hd (window c0 T)) {}"
proof -
  note f = ready_fields [OF r]
  show thesis
  proof (cases "wc_limit c0 \<ge> 0 \<and> wc_result_count c0 \<ge> wc_limit c0")
    case True
    then have "window c0 T = []" by (simp add: window_def)
    moreover have "facts_with_cursor_next q = Some (False, q)"
      using True f plain by (simp add: facts_with_cursor_next_def next_unsorted_def)
    ultimately show thesis using r plain by (intro that [of q c0 T]) simp_all
  next
    case False
    let ?k = "nat (wc_offset c0)"
    obtain q1 x where s: "skip_results ?k q = Some (?k \<le> length T, q1)" "?k \<le> length T \<longrightarrow> x = wc_offset c0 - int ?k"
      "ready bs st ps n0 (c0\<lparr>wc_offset := x\<rparr>) q1 (drop ?k T)"
      using skip_outcome [OF q ps r, of ?k] by blast
    show thesis
    proof (cases "?k \<le> length T")
      case gone: False
      then have "window c0 T = []" "window (c0\<lparr>wc_offset := x\<rparr>) (drop ?k T) = []" by (simp_all add: window_def)
      moreover have "facts_with_cursor_next q = Some (False, q1)"
        using False f plain s(1) gone by (auto simp: facts_with_cursor_next_def next_unsorted_def)
      ultimately show thesis using s(3) plain by (intro that [of q1 "c0\<lparr>wc_offset := x\<rparr>" "drop ?k T"]) simp_all
    next
      case True
      let ?c1 = "c0\<lparr>wc_offset := x\<rparr>"
      have x: "x \<le> 0" using s(2) True by simp
      obtain res where res: "facts_with_cursor_next_inner q1 = Some res" "outcome bs st ps n0 ?c1 (drop ?k T) res"
        by (rule next_inner_outcome [OF q s(3) ps])
      obtain ok q2 where okq: "res = (ok, q2)" by (cases res)
      note o = outcome_ready [OF res(2) [unfolded okq]]
      have "next_unsorted q = do { (go, q) \<leftarrow> skip_results ?k q; if \<not> go then Some (False, q) else
          do { (ok, q) \<leftarrow> facts_with_cursor_next_inner q;
               Some (ok, if ok then upd_c (\<lambda>c. c\<lparr>wc_result_count := wc_result_count c + 1\<rparr>) q else q) } }"
        using False f by (auto simp: next_unsorted_def)
      then have nx: "facts_with_cursor_next q = Some (ok, if ok then upd_c (\<lambda>c. c\<lparr>wc_result_count := wc_result_count c + 1\<rparr>) q2 else q2)"
        using s(1) True res(1) okq plain f(4) by (simp add: facts_with_cursor_next_def)
      show thesis
      proof (cases "drop ?k T")
        case Nil
        then have "window c0 T = []" "window ?c1 [] = []" by (simp_all add: window_def)
        with o nx Nil plain show thesis by (intro that [of q2 ?c1 "[]"]) simp_all
      next
        case (Cons t T')
        let ?g = "\<lambda>c. c\<lparr>wc_result_count := wc_result_count c + 1\<rparr>"
        have "nat (wc_limit c0 - wc_result_count c0) = Suc (nat (wc_limit c0 - (wc_result_count c0 + 1)))" if "wc_limit c0 \<ge> 0"
          using False that by simp
        then have w: "window c0 T = t # window (?g ?c1) T'" using x by (simp add: window_def Cons)
        have "stopped_at bs st ps n0 ?c1 q2 t T'" using res(2) by (simp add: okq Cons)
        then have "agrees bs (q_m q2) t {}" by (auto simp: stopped_at_def at_new_level_def)
        moreover have "ready bs st ps n0 (?g ?c1) (upd_c ?g q2) T'"
          using ready_upd [OF keeps_offset(2), of bs st ps n0 ?c1 q2 T'] o Cons by simp
        ultimately show thesis using nx o w Cons plain by (intro that [of "upd_c ?g q2" "?g ?c1" T']) simp_all
      qed
    qed
  qed
qed

section \<open>All answers\<close>

text \<open>The loop of a caller: the slots after each call that returned 1.\<close>

definition answer_body :: "slots list \<times> query \<Rightarrow> (slots list \<times> query + slots list \<times> query) option" where
  "answer_body x =
     (case x of (ms, q) \<Rightarrow>
        do { (ok, q) \<leftarrow> facts_with_cursor_next q; Some (if ok then Inl (ms @ [q_m q], q) else Inr (ms, q)) })"

definition all_answers :: "query \<Rightarrow> (slots list \<times> query) option" where
  "all_answers q = run_loop answer_body ([], q)"

lemma answers_loop:
  assumes q: "query_ok bs st ps" and ps: "ps \<noteq> []" and r: "ready bs st ps n0 c0 q T" "\<not> wc_is_sorted c0"
  shows "\<exists>ms q' c0' T'. run_loop answer_body (acc, q) = Some (acc @ ms, q') \<and> ready bs st ps n0 c0' q' T' \<and>
    wc_locked c0' = wc_locked c0 \<and> list_all2 (\<lambda>m \<sigma>. agrees bs m \<sigma> {}) ms (window c0 T)"
  using r
proof (induction "window c0 T" arbitrary: acc q c0 T)
  case Nil
  obtain q' c0' T' where n: "facts_with_cursor_next q = Some (window c0 T \<noteq> [], q')" "ready bs st ps n0 c0' q' T'"
    "wc_locked c0' = wc_locked c0"
    by (rule next_outcome [OF q ps Nil.prems])
  have "answer_body (acc, q) = Some (Inr (acc, q'))" using n(1) Nil.hyps by (simp add: answer_body_def)
  then have "run_loop answer_body (acc, q) = Some (acc @ [], q')" by (simp add: run_loop_simps(3))
  with n(2,3) Nil.hyps show ?case by (intro exI [of _ "[]"]) auto
next
  case (Cons \<sigma> V)
  obtain q' c0' T' where n: "facts_with_cursor_next q = Some (window c0 T \<noteq> [], q')" "ready bs st ps n0 c0' q' T'"
    "window c0' T' = tl (window c0 T)" "\<not> wc_is_sorted c0'" "wc_locked c0' = wc_locked c0"
    "window c0 T \<noteq> [] \<Longrightarrow> agrees bs (q_m q') (hd (window c0 T)) {}"
    by (rule next_outcome [OF q ps Cons.prems]) blast
  have w: "window c0 T = \<sigma> # V" using Cons.hyps(2) by simp
  have "answer_body (acc, q) = Some (Inl (acc @ [q_m q'], q'))" using n(1) w by (simp add: answer_body_def)
  then have run: "run_loop answer_body (acc, q) = run_loop answer_body (acc @ [q_m q'], q')" by (rule run_loop_simps(2))
  have "V = window c0' T'" using n(3) w by simp
  from Cons.hyps(1) [OF this n(2,4), of "acc @ [q_m q']"] obtain ms q2 c2 T2
    where "run_loop answer_body (acc @ [q_m q'], q') = Some ((acc @ [q_m q']) @ ms, q2)" "ready bs st ps n0 c2 q2 T2"
      "wc_locked c2 = wc_locked c0'" "list_all2 (\<lambda>m \<sigma>. agrees bs m \<sigma> {}) ms (window c0' T')" by blast
  then show ?case using run n(3,5,6) w by (intro exI [of _ "q_m q' # ms"] exI [of _ q2] exI [of _ c2] exI [of _ T2]) simp
qed

end
