(* ===== verification/Query_Props.thy ===== *)
theory Query_Props
  imports Query_Answers Client
begin

text \<open>
  A whole query: \<^verbatim>\<open>facts_with_checked\<close> opens the cursor on a permutation of the patterns, the calls
  of \<^verbatim>\<open>facts_with_cursor_next\<close> give the answers, and \<^verbatim>\<open>facts_with_cursor_destroy\<close> leaves the database
  and its locks as they were.
\<close>

section \<open>Closing\<close>

definition level_busy :: "with_level \<Rightarrow> nat" where
  "level_busy l = (if lv_init l then busy (lv_c l) else 0)"

lemma stop_levels_reading:
  assumes "\<And>l. l \<in> set ls \<Longrightarrow> lv_init l \<Longrightarrow> cu_started (lv_c l) = 2 \<Longrightarrow> \<not> cu_locked (lv_c l)"
  shows "stop_levels ls (reading (N + sum_list (map level_busy ls)) st) = Some (reading N st)"
  using assms
proof (induction ls)
  case (Cons l ls)
  let ?M = "N + sum_list (map level_busy ls)"
  have IH: "stop_levels ls (reading ?M st) = Some (reading N st)" using Cons by simp
  show ?case
  proof (cases "lv_init l")
    case True
    have "\<exists>c. facts_cursor_stop (lv_c l) (reading (?M + busy (lv_c l)) st) = Some (c, reading ?M st)"
      using Cons.prems [of l] True stop_running [of "lv_c l" ?M st]
      by (cases "cu_started (lv_c l) = 2") (auto simp: facts_cursor_stop_def busy_def)
    then obtain c where "facts_cursor_stop (lv_c l) (reading (?M + busy (lv_c l)) st) = Some (c, reading ?M st)" by blast
    moreover have n: "N + sum_list (map level_busy (l # ls)) = ?M + busy (lv_c l)" using True by (simp add: level_busy_def)
    ultimately show ?thesis unfolding n using True IH by simp
  next
    case False
    then have n: "N + sum_list (map level_busy (l # ls)) = ?M" by (simp add: level_busy_def)
    show ?thesis unfolding n using False IH by simp
  qed
qed simp

lemma frames_open:
  "frames_ok bs st ps ls fs \<Longrightarrow> i < length fs \<Longrightarrow> \<exists>\<sigma> rem. open_level bs ps i \<sigma> rem (ls ! i)"
proof (induction fs)
  case (Cons f fs)
  then show ?case by (cases f; cases "i = length fs") auto
qed simp

lemma held_by_sum: "held_by ls fs = (\<Sum>i < length fs. busy (lv_c (ls ! i)))"
  by (induction fs) (simp_all add: ac_simps)

lemma machine_levels:
  assumes m: "machine bs st ps n0 c0 q fs"
  shows "sum_list (map level_busy (wc_l (q_c q))) = held_by (wc_l (q_c q)) fs"
    "l \<in> set (wc_l (q_c q)) \<Longrightarrow> lv_init l \<Longrightarrow> cu_started (lv_c l) = 2 \<Longrightarrow> \<not> cu_locked (lv_c l)"
proof -
  let ?ls = "wc_l (q_c q)"
  note d = machineD [OF m]
  have op: "lv_init (?ls ! i) \<and> (cu_started (lv_c (?ls ! i)) = 2 \<longrightarrow> \<not> cu_locked (lv_c (?ls ! i)))" if "i < length fs" for i
    using frames_open [OF d(6) that] by (auto simp: open_level_def split: if_splits)
  have cl: "\<not> lv_init (?ls ! i)" if "length fs \<le> i" "i < length ps" for i using d(7) that by (simp add: closed_levels_def)
  have "sum_list (map level_busy ?ls) = (\<Sum>i < length ps. level_busy (?ls ! i))"
    using d(5) by (simp add: sum_list_sum_nth atLeast0LessThan)
  also have "\<dots> = (\<Sum>i < length fs. level_busy (?ls ! i)) + (\<Sum>i \<in> {length fs..<length ps}. level_busy (?ls ! i))"
    using frames_ok_length [OF d(6)] by (simp add: sum.atLeastLessThan_concat lessThan_atLeast0)
  also have "(\<Sum>i \<in> {length fs..<length ps}. level_busy (?ls ! i)) = 0"
    using cl by (intro sum.neutral) (simp add: level_busy_def)
  also have "(\<Sum>i < length fs. level_busy (?ls ! i)) = (\<Sum>i < length fs. busy (lv_c (?ls ! i)))"
    using op by (intro sum.cong) (simp_all add: level_busy_def)
  finally show "sum_list (map level_busy ?ls) = held_by ?ls fs" by (simp add: held_by_sum)
  assume l: "l \<in> set ?ls" "lv_init l" "cu_started (lv_c l) = 2"
  then obtain i where i: "i < length ps" "l = ?ls ! i" using d(5) by (auto simp: in_set_conv_nth)
  then have "i < length fs" using cl [of i] l(2) by (cases "i < length fs") auto
  then show "\<not> cu_locked (lv_c l)" using op i l(3) by auto
qed

lemma destroy_reading:
  assumes "ready bs st ps n0 c0 q T" "n0 = k + (if wc_locked c0 then 1 else 0)"
  shows "\<exists>c. facts_with_cursor_destroy (q_c q) (q_db q) = Some (c, reading k st)"
proof -
  have "stop_levels (take (wc_count (q_c q)) (wc_l (q_c q))) (q_db q) = Some (reading n0 st)"
  proof (cases "\<exists>fs. machine bs st ps n0 c0 q fs")
    case True
    then obtain fs where m: "machine bs st ps n0 c0 q fs" by blast
    note d = machineD [OF m]
    have "stop_levels (wc_l (q_c q)) (reading (n0 + sum_list (map level_busy (wc_l (q_c q)))) st) = Some (reading n0 st)"
      by (rule stop_levels_reading) (rule machine_levels(2) [OF m])
    then show ?thesis using d(3,5,8) by (simp add: machine_levels(1) [OF m])
  next
    case False
    then have f: "finished st n0 c0 q" using assms(1) by (auto simp: ready_def stopped_at_def at_new_level_def)
    then obtain ls lev where "q_c q = c0\<lparr>wc_l := ls, wc_level := lev, wc_count := 0\<rparr>" unfolding finished_def by blast
    then show ?thesis using f by (simp add: finished_def)
  qed
  then show ?thesis
    using ready_fields(5) [OF assms(1)] release_reading [of k "wc_locked c0" st] assms(2)
    by (simp add: facts_with_cursor_destroy_def)
qed

section \<open>The order of the patterns\<close>

definition fact_of :: "triple \<Rightarrow> spec_fact" where
  "fact_of p = (case p of (s, p, ob) \<Rightarrow> \<lparr>sf_s = Some s, sf_p = Some p, sf_o = Some ob, sf_negated = None\<rparr>)"

lemma expanded_cells: "expanded (map fact_of ps) = cells ps @ [None, None]"
  by (induction ps) (auto simp: expanded_def fact_of_def fact_cells_def)

lemma cheapest_found:
  assumes "\<And>j. j \<in> set js \<Longrightarrow> j < length ps"
  obtains j c where "cheapest D t bv (expanded (map fact_of ps)) js b = Some (j, c)" "j \<in> insert (fst b) (set js)"
proof -
  have "\<exists>j c. cheapest D t bv (expanded (map fact_of ps)) js b = Some (j, c) \<and> j \<in> insert (fst b) (set js)"
    using assms
  proof (induction js arbitrary: b)
    case Nil
    then show ?case by (cases b) simp
  next
    case (Cons j js)
    obtain i c where b: "b = (i, c)" by (cases b)
    obtain s p ob where pat: "ps ! j = (s, p, ob)" by (rule prod_cases3)
    have "get4 (expanded (map fact_of ps)) j = Some (fact_of (ps ! j))" using Cons.prems by (simp add: get4_expanded)
    moreover obtain cost where "fact_cost D t bv (fact_of (ps ! j)) = Some cost"
      by (simp add: fact_cost_def fact_of_def pat Let_def)
    ultimately have "cheapest D t bv (expanded (map fact_of ps)) (j # js) b =
        cheapest D t bv (expanded (map fact_of ps)) js (if d_less D c (d_lit D 0) \<or> d_less D cost c then (j, cost) else (i, c))"
      by (simp add: b)
    with Cons.IH [of "if d_less D c (d_lit D 0) \<or> d_less D cost c then (j, cost) else (i, c)"] Cons.prems b
    show ?case by (auto split: if_splits)
  qed
  with that show thesis by blast
qed

lemma select_step_permutes:
  assumes i: "i < length ps"
  obtains ps' bv' where "select_step D t (length ps) i (expanded (map fact_of ps), bv) = Some (expanded (map fact_of ps'), bv')"
    "mset ps' = mset ps"
proof -
  obtain j c where j: "cheapest D t bv (expanded (map fact_of ps)) [i..<length ps] (i, d_minus_one D) = Some (j, c)"
    "j \<in> insert (fst (i, d_minus_one D)) (set [i..<length ps])"
    by (rule cheapest_found [of "[i..<length ps]" ps D t bv "(i, d_minus_one D)"]) auto
  then have jl: "j < length ps" using i by auto
  have get: "get4 (expanded (map fact_of qs)) n = Some (fact_of (qs ! n))" if "n < length qs" for qs n
    using that by (simp add: get4_expanded)
  have put: "put4 (expanded (map fact_of qs)) n (fact_of x) = expanded (map fact_of (qs[n := x]))" if "n < length qs" for qs n x
    using that by (simp add: put4_expanded map_update)
  let ?ps' = "if j \<noteq> i then ps[i := ps ! j, j := ps ! i] else ps"
  have "(if j \<noteq> i then put4 (put4 (expanded (map fact_of ps)) i (fact_of (ps ! j))) j (fact_of (ps ! i)) else expanded (map fact_of ps))
      = expanded (map fact_of ?ps')"
    using i jl by (simp add: put)
  moreover have "mset ?ps' = mset ps" using i jl by (simp add: mset_swap)
  moreover have "length ?ps' = length ps" by simp
  ultimately show ?thesis
    using that [of ?ps'] i j(1) by (simp add: select_step_def get [OF i] get [OF jl] get [of i ?ps'] Let_def del: map_map)
qed

lemma spec_sort_permutes:
  obtains ps' where "facts_spec_sort D t (cells ps @ [None, None]) (length ps) = Some (cells ps' @ [None, None])" "mset ps' = mset ps"
proof (cases "length ps \<le> 1")
  case True
  then show ?thesis by (intro that [of ps]) (simp_all add: facts_spec_sort_def)
next
  case False
  have "\<exists>ps' bv'. fold_opt (select_step D t (length ps)) is (expanded (map fact_of ps0), bv) = Some (expanded (map fact_of ps'), bv') \<and>
      mset ps' = mset ps0"
    if "set is \<subseteq> {..<length ps}" "length ps0 = length ps" for "is" ps0 bv
    using that
  proof (induction "is" arbitrary: ps0 bv)
    case (Cons i "is")
    obtain ps1 bv1 where 1: "select_step D t (length ps0) i (expanded (map fact_of ps0), bv) = Some (expanded (map fact_of ps1), bv1)"
      "mset ps1 = mset ps0"
      using select_step_permutes [of i ps0 D t bv] Cons.prems by auto
    then have "length ps1 = length ps" using Cons.prems(2) by (metis mset_eq_length)
    with Cons.IH [of ps1 bv1] Cons.prems 1 show ?case by auto
  qed auto
  moreover have "set [0..<length ps] \<subseteq> {..<length ps}" by auto
  ultimately obtain ps' bv' where
    "fold_opt (select_step D t (length ps)) [0..<length ps] (expanded (map fact_of ps), []) = Some (expanded (map fact_of ps'), bv')"
    "mset ps' = mset ps" by blast
  with False show ?thesis by (intro that [of ps']) (simp_all add: facts_spec_sort_def expanded_cells [symmetric])
qed

section \<open>Opening\<close>

lemma db_ok_reading: "db_ok X (reading k st) = db_ok X st" "db_ok X (st\<lparr>db_mem := h\<rparr>) = db_ok X st"
  by (simp_all add: db_ok_def store_ok_def stored_def fact_claims_def reading_def)

lemma contents_reading: "contents (reading k st) = contents st" "contents (st\<lparr>db_mem := h\<rparr>) = contents st"
  by (rule contents_frame; simp add: reading_def)+

lemma plain_facts_contents:
  assumes "db_ok X st" "\<forall>t \<in> dom (contents st). plain_triple t"
  shows "plain_facts st"
  using assms contents_stored by (fastforce simp: plain_facts_def)

lemma bindings_nullify_agrees: "agrees bs (bindings_nullify bs m) Map.empty {}"
  by (force simp: agrees_def bindings_nullify_eq)

lemma with_checked_opens:
  assumes facts: "spec_facts spec = Some (map fact_of ps)" and ps: "ps \<noteq> []"
    and room: "\<not> with_too_large lsz (length ps)" "length ps * 4 + 2 \<le> SIZE_MAX div 8"
    and mem: "malloc (db_mem st) = (True, h1)" "malloc h1 = (True, h)"
  obtains q ps' where "facts_with_checked D lsz bs spec m (reading k st) = Some (0, q)" "mset ps' = mset ps"
    "at_new_level bs (st\<lparr>db_mem := h\<rparr>) ps' (k + (if tx_owned (db_tx st) then 0 else 1)) (q_c q) q [] Map.empty"
    "options_of (q_c q) = ((- 1, 0, 0), False, \<not> tx_owned (db_tx st), None)"
proof -
  let ?n = "length ps" and ?l = "\<not> tx_owned (db_tx st)"
  let ?k = "if tx_owned (db_tx st) then k else k + 1"
  obtain ps' where srt: "facts_spec_sort D (db_symbols st) (cells ps @ [None, None]) ?n = Some (cells ps' @ [None, None])" "mset ps' = mset ps"
    by (rule spec_sort_permutes)
  have len: "length ps' = ?n" using srt(2) by (metis mset_eq_length)
  have count: "spec_count_facts spec = Some ?n" using facts by (simp add: spec_count_facts_def)
  have exp: "spec_expand spec h1 = Some (Some (cells ps @ [None, None]), h)"
    using room ps mem(2) facts count
    by (simp add: spec_expand_def with_too_large_def expanded_cells [symmetric] expanded_def)
  let ?ls = "map (\<lambda>i. zero_level ((?n - i) * 4 + 2)) [0..<?n]"
  let ?c = "(with_cursor0 bs ?n ?l)\<lparr>wc_l := ?ls, wc_spec := cells ps' @ [None, None]\<rparr>"
  let ?st = "st\<lparr>db_mem := h\<rparr>"
  let ?q = "\<lparr>q_c = ?c, q_m = bindings_nullify bs m, q_db = reading ?k ?st\<rparr>"
  have "facts_with_checked D lsz bs spec m (reading k st) = Some (0, ?q)"
    using ps room(1) mem(1) exp srt(1) count
    by (simp add: facts_with_checked_def acquire_reading Let_def) (simp add: reading_def)
  moreover have "machine bs ?st ps' (k + (if tx_owned (db_tx st) then 0 else 1)) ?c ?q []"
    by (simp add: machine_def with_cursor0_def len closed_levels_def zero_level_def)
  then have "at_new_level bs ?st ps' (k + (if tx_owned (db_tx st) then 0 else 1)) ?c ?q [] Map.empty"
    by (simp add: at_new_level_def linked_def plain_env_def bindings_nullify_agrees with_cursor0_def)
  moreover have "options_of ?c = ((- 1, 0, 0), False, ?l, None)" by (simp add: options_of_def with_cursor0_def)
  ultimately show thesis using srt(2) that [of ?q ps'] by simp
qed

section \<open>The answers\<close>

text \<open>The values of the variables.\<close>

definition values_of :: "binding list \<Rightarrow> slots \<Rightarrow> env" where
  "values_of bs m x = (case bindings_get bs x of None \<Rightarrow> None | Some v \<Rightarrow> m v)"

lemma values_of_agrees:
  assumes "agrees bs m \<sigma> {}" "\<And>x. x \<in> dom \<sigma> \<Longrightarrow> bindings_get bs x \<noteq> None"
  shows "values_of bs m = \<sigma>"
proof
  fix x
  show "values_of bs m x = \<sigma> x"
  proof (cases "bindings_get bs x")
    case None
    then show ?thesis using assms(2) [of x] by (cases "\<sigma> x") (auto simp: values_of_def)
  next
    case (Some v)
    then show ?thesis using assms(1) bindings_get_in [OF Some] by (auto simp: values_of_def agrees_def)
  qed
qed

definition cut :: "int \<Rightarrow> int \<Rightarrow> 'a list \<Rightarrow> 'a list" where
  "cut offset limit xs = (let ys = drop (nat offset) xs in if limit \<ge> 0 then take (nat limit) ys else ys)"

definition set_range :: "int \<Rightarrow> int \<Rightarrow> query \<Rightarrow> query" where
  "set_range offset limit = upd_c (\<lambda>c. c\<lparr>wc_limit := limit, wc_offset := offset\<rparr>)"

lemma query_answers:
  assumes ok: "db_ok X st" and plain: "\<forall>t \<in> dom (contents st). plain_triple t"
    and bs: "bindings_ok bs" and pats: "\<forall>p \<in> set ps. declared bs p \<and> linear p" and ps: "ps \<noteq> []"
    and facts: "spec_facts spec = Some (map fact_of ps)"
    and room: "\<not> with_too_large lsz (length ps)" "length ps * 4 + 2 \<le> SIZE_MAX div 8"
    and mem: "malloc (db_mem st) = (True, h1)" "malloc h1 = (True, h)"
  shows "\<exists>q ms q' c as. facts_with_checked D lsz bs spec m st = Some (0, q) \<and>
    all_answers (set_range offset limit q) = Some (ms, q') \<and>
    facts_with_cursor_destroy (q_c q') (q_db q') = Some (c, st\<lparr>db_mem := h\<rparr>) \<and>
    map (values_of bs) ms = cut offset limit as \<and> distinct as \<and> set as = answers_of (contents st) ps"
proof -
  let ?st = "st\<lparr>db_mem := h\<rparr>" and ?k = "tx_readers (db_tx st)"
  let ?n0 = "?k + (if tx_owned (db_tx st) then 0 else 1)"
  obtain q ps' where q: "facts_with_checked D lsz bs spec m (reading ?k st) = Some (0, q)" "mset ps' = mset ps"
    "at_new_level bs ?st ps' ?n0 (q_c q) q [] Map.empty" "options_of (q_c q) = ((- 1, 0, 0), False, \<not> tx_owned (db_tx st), None)"
    by (rule with_checked_opens [OF facts ps room mem])
  let ?g = "\<lambda>c. c\<lparr>wc_limit := limit, wc_offset := offset\<rparr>" and ?as = "solve bs ?st ps' Map.empty"
  have set: "set ps' = set ps" and ps': "ps' \<noteq> []" using q(2) ps by (metis set_mset_mset, auto)
  have qok: "query_ok bs ?st ps'"
    using ok plain_facts_contents [OF ok plain] bs pats
    by (auto simp: query_ok_def db_ok_reading plain_facts_def stored_def set)
  have sol: "set ?as = answers_of (contents st) ps" "distinct ?as"
    using solve_answers [of X ?st ps' bs Map.empty] qok ok pats
    by (simp_all add: db_ok_reading contents_reading answers_of_def answers_from_def set query_ok_def plain_env_def)
  have pats_vars: "bindings_get bs x \<noteq> None" if "x \<in> vars_in p" "p \<in> set ps" for x p
    using that pats by (cases p) (auto simp: vars_in_def declared_def)
  have "ready bs ?st ps' ?n0 (q_c q) q ?as" using q(3) by (simp add: ready_def)
  moreover have "keeps_search ?g" by (simp add: keeps_search_def)
  ultimately have "ready bs ?st ps' ?n0 (?g (q_c q)) (set_range offset limit q) ?as"
    unfolding set_range_def by (metis ready_upd)
  moreover have "\<not> wc_is_sorted (?g (q_c q))" "wc_locked (?g (q_c q)) = (\<not> tx_owned (db_tx st))" "window (?g (q_c q)) ?as = cut offset limit ?as"
    using q(4) by (simp_all add: options_of_def window_def cut_def Let_def)
  ultimately obtain ms q' c0' T' where run: "all_answers (set_range offset limit q) = Some (ms, q')" "ready bs ?st ps' ?n0 c0' q' T'"
    "wc_locked c0' = (\<not> tx_owned (db_tx st))" "list_all2 (\<lambda>m \<sigma>. agrees bs m \<sigma> {}) ms (cut offset limit ?as)"
    using answers_loop [OF qok ps', of ?n0 "?g (q_c q)" "set_range offset limit q" ?as "[]"] unfolding all_answers_def by auto
  obtain c where "facts_with_cursor_destroy (q_c q') (q_db q') = Some (c, reading ?k ?st)"
    using destroy_reading [OF run(2), of ?k] run(3) by auto
  moreover have "reading ?k ?st = ?st" by (simp add: reading_def)
  moreover have "map (values_of bs) ms = cut offset limit ?as"
  proof -
    have "values_of bs m = \<sigma>" if "agrees bs m \<sigma> {}" "\<sigma> \<in> set (cut offset limit ?as)" for m \<sigma>
    proof (rule values_of_agrees [OF that(1)])
      have "\<sigma> \<in> answers_of (contents st) ps" using that(2) sol(1)
        by (auto simp: cut_def Let_def dest: in_set_takeD in_set_dropD split: if_splits)
      then show "bindings_get bs x \<noteq> None" if "x \<in> dom \<sigma>" for x
        using that pats_vars by (auto simp: answers_of_def answers_from_def)
    qed
    with run(4) show ?thesis by (intro nth_equalityI) (auto simp: list_all2_conv_all_nth)
  qed
  ultimately show ?thesis using q(1) run(1) sol by auto
qed

text \<open>
  C1: A query answers right. On a consistent database whose strings do not look like variables, for
  patterns over declared variables, none twice in one pattern: \<^verbatim>\<open>facts_with_checked\<close> opens a cursor;
  if the caller then sets any limit and offset and calls \<^verbatim>\<open>facts_with_cursor_next\<close> until it returns 0,
  the calls end, and the values of the variables after them are the part of a list that offset and
  limit cut out; the list holds each substitution under which all patterns are stored facts, once;
  and \<^verbatim>\<open>facts_with_cursor_destroy\<close> then leaves the database and its locks as before the query.
\<close>

theorem facts_with_answers:
  assumes ok: "db_ok X st" and plain: "\<forall>t \<in> dom (contents st). plain_triple t"
    and bs: "bindings_ok bs" and pats: "\<forall>p \<in> set ps. declared bs p \<and> linear p" and ps: "ps \<noteq> []"
    and facts: "spec_facts spec = Some (map fact_of ps)"
    and room: "\<not> with_too_large lsz (length ps)" "length ps * 4 + 2 \<le> SIZE_MAX div 8"
    and mem: "malloc (db_mem st) = (True, h1)" "malloc h1 = (True, h)"
  shows "\<exists>q ms q' c as. facts_with_checked D lsz bs spec m st = Some (0, q) \<and>
    all_answers (set_range offset limit q) = Some (ms, q') \<and>
    facts_with_cursor_destroy (q_c q') (q_db q') = Some (c, st\<lparr>db_mem := h\<rparr>) \<and>
    map (values_of bs) ms = cut offset limit as \<and> distinct as \<and> set as = answers_of (contents st) ps"
  by (rule query_answers [OF assms])

lemma ex_one_fact:
  obtains st where "db_ok {#} st" "db_mem st = []" "contents st = [(''a'', ''b'', ''c'') \<mapsto> (1, 0)]"
proof (rule ex_add)
  fix st assume a: "facts_add_spo_origin ''a'' ''b'' ''c'' FACT_ORIGIN_ASSERTED ex_begun = Some (Some 3, st)" "db_mem st = []"
  have ok: "db_ok {#} ex_begun" using ex_db_ok(1) by (simp add: ex_begun_def db_ok_tx)
  have w: "can_write ex_begun" by (simp add: ex_begun_def can_write_def)
  have "contents ex_begun = contents ex_db" by (rule contents_frame) (simp_all add: ex_begun_def)
  then have c: "contents ex_begun = Map.empty" using ex_db_ok(4) by simp
  have "db_ok {#} st \<and> contents st = sp_add FACT_ORIGIN_ASSERTED (''a'', ''b'', ''c'') (contents ex_begun)"
    by (rule add_spo_origin_ok [OF ok w, of "''a''" "''b''" "''c''" FACT_ORIGIN_ASSERTED]) (use a(1) in auto)
  then show thesis using that [of st] a(2) by (simp add: c sp_add_def)
qed

theorem facts_with_answers_witness:
  "\<exists>st q ms q'. facts_with_checked \<lparr>d_lit = int, d_tenth = 0, d_minus_one = - 1, d_of_u64 = uint, d_times = (*), d_less = (<)\<rparr>
      64 [(''?x'', 0)] [Some ''?x'', Some ''b'', Some ''c'', None, None] (\<lambda>_. None) st = Some (0, q) \<and>
    all_answers (set_range 0 (- 1) q) = Some (ms, q') \<and> map (values_of [(''?x'', 0)]) ms = [[''?x'' \<mapsto> ''a'']]"
proof (rule ex_one_fact)
  fix st assume st: "db_ok {#} st" "db_mem st = []" "contents st = [(''a'', ''b'', ''c'') \<mapsto> (1, 0)]"
  let ?D = "\<lparr>d_lit = int, d_tenth = 0, d_minus_one = - 1, d_of_u64 = uint, d_times = (*), d_less = (<)\<rparr>"
  let ?ps = "[(''?x'', ''b'', ''c'')]" and ?bs = "[(''?x'', 0)] :: binding list"
  let ?spec = "[Some ''?x'', Some ''b'', Some ''c'', None, None]"
  have facts: "spec_facts ?spec = Some (map fact_of ?ps)"
    using spec_facts_spec_of [of "[Pos ''?x'' [(''b'', ''c'')]]" "[]"] by (simp add: spec_of_def fact_of_def)
  have one: "\<tau> = [''?x'' \<mapsto> ''a'']" if "\<tau> \<in> answers_of (contents st) ?ps" for \<tau>
  proof -
    have "vars_in (''?x'', ''b'', ''c'') = {''?x''}" by (auto simp: vars_in_def)
    with that have d0: "dom \<tau> = {''?x''}" "subst3 \<tau> (''?x'', ''b'', ''c'') \<in> dom (contents st)"
      by (simp_all add: answers_of_def answers_from_def)
    obtain v where v: "\<tau> = [''?x'' \<mapsto> v]" using d0(1) unfolding dom_eq_singleton_conv by blast
    have "subst3 [''?x'' \<mapsto> v] (''?x'', ''b'', ''c'') = (v, ''b'', ''c'')" by (simp add: subst3_def subst1_def)
    moreover have "dom (contents st) = {(''a'', ''b'', ''c'')}" by (simp add: st(3))
    ultimately have "v = ''a''" using d0(2) by (simp add: v)
    then show ?thesis by (simp add: v)
  qed
  have "[''?x'' \<mapsto> ''a''] \<in> answers_of (contents st) ?ps"
    by (auto simp: answers_of_def answers_from_def vars_in_def subst3_def subst1_def st(3))
  with one have set: "answers_of (contents st) ?ps = {[''?x'' \<mapsto> ''a'']}" by blast
  have "\<exists>q ms q' c as. facts_with_checked ?D 64 ?bs ?spec (\<lambda>_. None) st = Some (0, q) \<and>
      all_answers (set_range 0 (- 1) q) = Some (ms, q') \<and>
      facts_with_cursor_destroy (q_c q') (q_db q') = Some (c, st\<lparr>db_mem := []\<rparr>) \<and>
      map (values_of ?bs) ms = cut 0 (- 1) as \<and> distinct as \<and> set as = answers_of (contents st) ?ps"
    by (rule facts_with_answers [OF st(1) _ _ _ _ facts])
      (auto simp: st(2,3) plain_triple_def bindings_ok_def declared_def linear_def with_too_large_def total_ptrs_def)
  then obtain q ms q' as where r: "facts_with_checked ?D 64 ?bs ?spec (\<lambda>_. None) st = Some (0, q)"
    "all_answers (set_range 0 (- 1) q) = Some (ms, q')" "map (values_of ?bs) ms = cut 0 (- 1) as" "distinct as"
    "set as = {[''?x'' \<mapsto> ''a'']}" unfolding set by blast
  have "length as = 1" using distinct_card [OF r(4)] r(5) by simp
  then obtain \<tau> where "as = [\<tau>]" by (auto simp: length_Suc_conv)
  with r(5) have "as = [[''?x'' \<mapsto> ''a'']]" by simp
  then show ?thesis using r(1-3) by (intro exI [of _ st] exI [of _ q] exI [of _ ms] exI [of _ q']) (simp add: cut_def)
qed

end
