(* ===== verification/Sparql_Parse.thy ===== *)
theory Sparql_Parse
  imports Sparql
begin

text \<open>
  The tokens that the tokenizer gives, and the parser of \<^verbatim>\<open>INSERT DATA\<close> on them: it never reads past
  the last token, and it reads back the text of a list of triples.
\<close>

section \<open>The tokens\<close>

definition token_ok :: "nat \<Rightarrow> s_token \<Rightarrow> bool" where
  "token_ok L t \<longleftrightarrow> (\<forall>v. tk_value t = Some v \<longrightarrow> length v \<le> L) \<and>
     (tk_type t = TOKEN_CONST \<longrightarrow> tk_value t \<noteq> None) \<and>
     (tk_type t = TOKEN_VAR \<longrightarrow> (\<exists>n. tk_value t = Some (CHR ''?'' # n) \<and> list_all name_char n))"

text \<open>Exactly the last token is an end or an error.\<close>

fun stream_ok :: "nat \<Rightarrow> s_token list \<Rightarrow> bool" where
  "stream_ok L [] = False"
| "stream_ok L (t # ts) = (token_ok L t \<and> (if last_token t then ts = [] else stream_ok L ts))"

lemma stream_ok_snoc:
  "stream_ok L (us @ [t]) \<longleftrightarrow> token_ok L t \<and> last_token t \<and> (\<forall>u \<in> set us. token_ok L u \<and> \<not> last_token u)"
  by (induction us) auto

lemma copied_ok:
  assumes "copied ty v rest h = (t, p, h')" "length v \<le> L"
    and "ty = TOKEN_VAR \<longrightarrow> (\<exists>n. v = CHR ''?'' # n \<and> list_all name_char n)"
  shows "token_ok L t"
  using assms by (auto simp: copied_def token_ok_def token_def split: prod.splits if_splits)

lemma word_type_not_var: "word_type w \<noteq> TOKEN_VAR"
  by (auto simp: word_type_def keywords_list_def split: option.split if_splits)

lemma list_all_takeWhile: "list_all P (takeWhile P xs)"
  by (induction xs) auto

lemma next_token_ok:
  assumes r: "next_token p h = (t, p', h')"
  shows "token_ok (length p) t"
proof (cases "dropWhile blank p")
  case Nil
  with r show ?thesis by (auto simp: next_token_def token_ok_def token_def)
next
  case (Cons c r0)
  then have len: "length r0 < length p" using length_dropWhile_le [of blank p] by simp
  have take: "length (takeWhile P xs) \<le> length xs" for P and xs :: cstr by (rule length_takeWhile_le)
  have delim: "token_ok (length p) t" if "delimited stop r0 h = (t, p', h')" for stop
  proof (cases "dropWhile (\<lambda>c. c \<noteq> stop) r0")
    case Nil
    with that have "t = token TOKEN_ERROR None" by (simp add: delimited_def del: dropWhile_eq_Nil_conv)
    then show ?thesis by (simp add: token_ok_def token_def)
  next
    case (Cons a rest)
    with that have "copied TOKEN_CONST (takeWhile (\<lambda>c. c \<noteq> stop) r0) rest h = (t, p', h')" by (simp add: delimited_def)
    then show ?thesis using take [of "\<lambda>c. c \<noteq> stop" r0] len by (auto elim!: copied_ok)
  qed
  show ?thesis
  proof (cases "map_of single_tokens c")
    case (Some ty)
    with r Cons len show ?thesis
      by (auto simp: next_token_def token_ok_def token_def single_tokens_def split: prod.splits if_splits)
  next
    case None
    consider "c = CHR ''?''" | "c = CHR ''<''" | "c = CHR 0x22" | "c \<noteq> CHR ''?''" "c \<noteq> CHR ''<''" "c \<noteq> CHR 0x22" by blast
    then show ?thesis
    proof cases
      case 1
      with r Cons None take [of name_char r0] len show ?thesis
        by (auto simp: next_token_def list_all_takeWhile elim!: copied_ok)
    next
      case 2
      with r Cons None show ?thesis by (intro delim) (simp add: next_token_def)
    next
      case 3
      with r Cons None show ?thesis by (intro delim) (simp add: next_token_def)
    next
      case 4
      show ?thesis
      proof (cases "word_char c")
        case True
        with 4 r Cons None have "copied (word_type (c # takeWhile word_char r0)) (c # takeWhile word_char r0)
            (dropWhile word_char r0) h = (t, p', h')"
          by (auto simp: next_token_def Let_def)
        then show ?thesis using take [of word_char r0] len word_type_not_var by (auto elim!: copied_ok)
      next
        case False
        with 4 r Cons None show ?thesis by (auto simp: next_token_def Let_def token_ok_def token_def)
      qed
    qed
  qed
qed

lemma token_ok_mono: "token_ok L t \<Longrightarrow> L \<le> L' \<Longrightarrow> token_ok L' t"
  by (auto simp: token_ok_def)

lemma next_token_shorter: "next_token p h = (t, p', h') \<Longrightarrow> \<not> last_token t \<Longrightarrow> length p' \<le> length p"
  using next_token_progress by (rule less_imp_le)

lemma tokenize_from_ok:
  assumes "tokenize_from p ts h = (us, h')" "length p \<le> L" "\<forall>t \<in> set ts. token_ok L t \<and> \<not> last_token t"
  shows "us = [] \<or> stream_ok L us \<and> length us \<le> Suc (length ts + length p)"
  using assms
proof (induction p ts h arbitrary: us h' rule: tokenize_from.induct)
  case (1 p ts h)
  obtain t p1 h1 where n: "next_token p h = (t, p1, h1)" by (rule prod_cases3)
  obtain ok h2 where m: "malloc h1 = (ok, h2)" by (cases "malloc h1")
  have t: "token_ok L t" using token_ok_mono [OF next_token_ok [OF n] "1.prems"(2)] .
  consider "\<not> ok" | "ok" "last_token t" | "ok" "\<not> last_token t" by blast
  then show ?case
  proof cases
    case 1
    with "1.prems"(1) n m show ?thesis by (simp add: tokenize_from.simps [of p])
  next
    case 2
    with "1.prems" n m t show ?thesis by (auto simp: tokenize_from.simps [of p] stream_ok_snoc)
  next
    case 3
    have "tokenize_from p1 (ts @ [t]) h2 = (us, h')" using "1.prems"(1) n m 3 by (simp add: tokenize_from.simps [of p])
    moreover have "length p1 < length p" by (rule next_token_progress [OF n 3(2)])
    ultimately show ?thesis
      using "1.IH" [OF n [symmetric] refl m [symmetric] _ 3(2), of us h'] "1.prems"(2,3) t 3 by fastforce
  qed
qed

lemma tokenize_ok: "tokenize query h = (ts, h') \<Longrightarrow> ts = [] \<or> stream_ok (length query) ts \<and> length ts \<le> Suc (length query)"
  unfolding tokenize_def using tokenize_from_ok [of query "[]" h ts h' "length query"] by simp

lemma tokenize_from_spares: "tokenize_from p ts [] = (us, h') \<Longrightarrow> h' = []"
proof (induction p ts "[] :: mem" arbitrary: us h' rule: tokenize_from.induct)
  case (1 p ts)
  obtain t p1 h1 where n: "next_token p [] = (t, p1, h1)" by (rule prod_cases3)
  have h1: "h1 = []"
    using n by (auto simp: next_token_def delimited_def copied_def Let_def split: list.splits option.splits if_splits)
  show ?case
  proof (cases "last_token t")
    case False
    then have "tokenize_from p1 (ts @ [t]) [] = (us, h')" using "1.prems" n h1 by (simp add: tokenize_from.simps [of p])
    then show ?thesis using "1.hyps" [OF n [symmetric] refl _ _ False] h1 by simp
  qed (use "1.prems" n h1 in \<open>simp add: tokenize_from.simps [of p]\<close>)
qed

section \<open>The parser does not read past the last token\<close>

text \<open>The step returns, changes nothing but the allocator, and its result has the property.\<close>

definition parses :: "('a \<Rightarrow> s_token list \<Rightarrow> bool) \<Rightarrow> facts \<Rightarrow> 'a parsed \<Rightarrow> bool" where
  "parses Q st r \<longleftrightarrow> (\<exists>x h. r = Some (x, st\<lparr>db_mem := h\<rparr>) \<and> (db_mem st = [] \<longrightarrow> h = []) \<and>
     (\<forall>v ts. x = Some (v, ts) \<longrightarrow> Q v ts))"

lemma parses_error [simp]: "parses Q st (syntax_error st)" "parses Q st (Some (None, st))"
  by (auto simp: parses_def syntax_error_def intro!: exI [of _ "db_mem st"])

lemma parses_result [simp]: "parses Q st (Some (Some (v, ts), st)) \<longleftrightarrow> Q v ts"
proof
  assume "Q v ts"
  then show "parses Q st (Some (Some (v, ts), st))" by (auto simp: parses_def intro!: exI [of _ "db_mem st"])
qed (auto simp: parses_def)

lemma parses_later: "parses Q (st\<lparr>db_mem := h\<rparr>) r \<Longrightarrow> (db_mem st = [] \<longrightarrow> h = []) \<Longrightarrow> parses Q st r"
  by (auto simp: parses_def)

lemma parses_bind:
  assumes "parses P st m"
    and "\<And>h. (db_mem st = [] \<longrightarrow> h = []) \<Longrightarrow> parses Q (st\<lparr>db_mem := h\<rparr>) (k (None, st\<lparr>db_mem := h\<rparr>))"
    and "\<And>v ts h. P v ts \<Longrightarrow> (db_mem st = [] \<longrightarrow> h = []) \<Longrightarrow>
      parses Q (st\<lparr>db_mem := h\<rparr>) (k (Some (v, ts), st\<lparr>db_mem := h\<rparr>))"
  shows "parses Q st (Option.bind m k)"
proof -
  from assms(1) obtain x h where m: "m = Some (x, st\<lparr>db_mem := h\<rparr>)" "db_mem st = [] \<longrightarrow> h = []"
    "\<And>v ts. x = Some (v, ts) \<Longrightarrow> P v ts" unfolding parses_def by blast
  show ?thesis
  proof (rule parses_later [OF _ m(2)])
    show "parses Q (st\<lparr>db_mem := h\<rparr>) (Option.bind m k)"
      using m assms(2,3) by (cases x) auto
  qed
qed

lemma parses_or_error:
  assumes "\<And>h. (db_mem st = [] \<longrightarrow> h = []) \<Longrightarrow> parses Q (st\<lparr>db_mem := h\<rparr>) (use (st\<lparr>db_mem := h\<rparr>))"
  shows "parses Q st (or_error st use)"
proof -
  obtain ok h where m: "malloc (db_mem st) = (ok, h)" by (cases "malloc (db_mem st)")
  then have h: "db_mem st = [] \<longrightarrow> h = []" by auto
  show ?thesis by (rule parses_later [OF _ h]) (use assms [OF h] m in \<open>simp add: or_error_def\<close>)
qed

definition term_ok :: "nat \<Rightarrow> cstr option \<Rightarrow> bool" where
  "term_ok L v \<longleftrightarrow> (\<forall>x. v = Some x \<longrightarrow> length x \<le> L)"

lemma parses_expect:
  assumes "stream_ok L ts" "TOKEN_EOF \<notin> set tys" "TOKEN_ERROR \<notin> set tys"
    and "\<And>v ts'. stream_ok L ts' \<Longrightarrow> length ts' < length ts \<Longrightarrow> term_ok L v \<Longrightarrow>
      (set tys \<subseteq> {TOKEN_VAR, TOKEN_CONST} \<Longrightarrow> v \<noteq> None) \<Longrightarrow> parses Q st (use v ts')"
  shows "parses Q st (expect tys ts st use)"
proof (cases ts)
  case (Cons t ts')
  show ?thesis
  proof (cases "tk_type t \<in> set tys")
    case True
    then have "\<not> last_token t" using assms(2,3) by (auto simp: last_token_def)
    with assms(1) Cons have "stream_ok L ts'" "token_ok L t" by simp_all
    moreover from this(2) True have "set tys \<subseteq> {TOKEN_VAR, TOKEN_CONST} \<Longrightarrow> tk_value t \<noteq> None"
      by (auto simp: token_ok_def)
    ultimately have "parses Q st (use (tk_value t) ts')" using Cons by (intro assms(4)) (simp_all add: term_ok_def token_ok_def)
    then show ?thesis using Cons True by (simp add: expect_def)
  qed (simp add: expect_def Cons)
qed (use assms(1) in simp)

lemma parses_prefixes:
  assumes "stream_ok L ts" "\<forall>p \<in> set ps. length (snd p) \<le> L"
  shows "parses (\<lambda>ps ts'. stream_ok L ts' \<and> length ts' \<le> length ts \<and> (\<forall>p \<in> set ps. length (snd p) \<le> L)) st
    (parse_prefixes ps ts st)"
  using assms
proof (induction ts arbitrary: ps st rule: length_induct)
  case (1 ts)
  obtain t ts1 where ts: "ts = t # ts1" using "1.prems"(1) by (cases ts) auto
  show ?case
  proof (cases "tk_type t = TOKEN_PREFIX")
    case True
    then have ok1: "stream_ok L ts1" using "1.prems"(1) ts by (simp add: last_token_def)
    then obtain n ts2 where ts1: "ts1 = n # ts2" by (cases ts1) auto
    show ?thesis
    proof (cases "tk_type n = TOKEN_CONST")
      case const: True
      then have ok2: "stream_ok L ts2" and n: "token_ok L n" using ok1 ts1 by (simp_all add: last_token_def)
      then obtain u ts3 where ts2: "ts2 = u # ts3" by (cases ts2) auto
      obtain name where name: "tk_value n = Some name" using n const by (auto simp: token_ok_def)
      show ?thesis
      proof (cases "tk_type u = TOKEN_CONST \<and> \<not> (name = [] \<or> last name \<noteq> CHR '':'')")
        case c: True
        then have ok3: "stream_ok L ts3" and u: "token_ok L u" using ok2 ts2 by (simp_all add: last_token_def)
        then obtain uri where uri: "tk_value u = Some uri" "length uri \<le> L" using c by (auto simp: token_ok_def)
        have "parses (\<lambda>ps ts'. stream_ok L ts' \<and> length ts' \<le> length ts3 \<and> (\<forall>p \<in> set ps. length (snd p) \<le> L)) st
            (parse_prefixes (ps @ [(butlast name, uri)]) ts3 st)" for st
          using "1.IH" ok3 "1.prems"(2) uri(2) ts ts1 ts2 by auto
        then have "parses (\<lambda>ps ts'. stream_ok L ts' \<and> length ts' \<le> length ts \<and> (\<forall>p \<in> set ps. length (snd p) \<le> L)) st
            (parse_prefixes (ps @ [(butlast name, uri)]) ts3 st)" for st
          unfolding parses_def using ts ts1 ts2 by fastforce
        then show ?thesis using True const c name uri ts ts1 ts2 by (auto intro!: parses_or_error)
      next
        case False
        then show ?thesis using True const name ts ts1 ts2 by (auto intro!: parses_or_error)
      qed
    next
      case False
      then show ?thesis using True ts ts1 by simp
    qed
  next
    case False
    then show ?thesis using "1.prems" ts by simp
  qed
qed

lemma resolve_ok:
  assumes "term_ok L v" "\<forall>p \<in> set ps. length (snd p) \<le> L"
  shows "case resolve_prefix_list ps v h of (x, h') \<Rightarrow> term_ok (2 * L) x \<and> (h = [] \<longrightarrow> h' = [] \<and> (v \<noteq> None \<longrightarrow> x \<noteq> None))"
proof (cases v)
  case (Some y)
  let ?pre = "takeWhile (\<lambda>c. c \<noteq> CHR '':'') y" and ?suf = "dropWhile (\<lambda>c. c \<noteq> CHR '':'') y"
  have len: "length y \<le> L" using assms(1) Some by (simp add: term_ok_def)
  obtain a h1 where m: "malloc h = (a, h1)" by (cases "malloc h")
  obtain b h2 where m2: "malloc h1 = (b, h2)" by (cases "malloc h1")
  note mem = m m2
  show ?thesis
  proof (cases "is_var y \<or> CHR '':'' \<notin> set y \<or> \<not> a")
    case True
    then show ?thesis using Some len m m2 by (cases h) (auto simp: resolve_prefix_list_def term_ok_def)
  next
    case False
    show ?thesis
    proof (cases "find (\<lambda>x. strcmp (fst x) ?pre = 0) ps")
      case None
      then show ?thesis using Some False len m m2 by (cases h) (auto simp: resolve_prefix_list_def term_ok_def)
    next
      case found: (Some q)
      obtain n uri where q: "q = (n, uri)" by (cases q)
      have "q \<in> set ps" using found by (auto simp: find_Some_iff)
      with assms(2) q have "length uri \<le> L" by fastforce
      moreover have "length (tl ?suf) \<le> L" using length_dropWhile_le [of "\<lambda>c. c \<noteq> CHR '':''" y] len by simp
      ultimately have "length (uri @ tl ?suf) \<le> 2 * L" by simp
      then show ?thesis using Some False found q m m2 by (cases h) (auto simp: resolve_prefix_list_def term_ok_def)
    qed
  qed
qed (simp add: resolve_prefix_list_def term_ok_def)

lemma parses_insert_term:
  assumes "stream_ok L ts" "\<forall>p \<in> set ps. length (snd p) \<le> L"
    and "\<And>x ts' h. stream_ok L ts' \<Longrightarrow> length ts' < length ts \<Longrightarrow> term_ok (2 * L) x \<Longrightarrow> (db_mem st = [] \<longrightarrow> h = []) \<Longrightarrow>
      parses Q (st\<lparr>db_mem := h\<rparr>) (use x ts' (st\<lparr>db_mem := h\<rparr>))"
  shows "parses Q st (insert_term ps ts st use)"
  unfolding insert_term_def
proof (rule parses_expect [OF assms(1)])
  fix v ts' assume a: "stream_ok L ts'" "length ts' < length ts" "term_ok L v"
  obtain x h where r: "resolve_prefix_list ps v (db_mem st) = (x, h)" by (cases "resolve_prefix_list ps v (db_mem st)")
  then have x: "term_ok (2 * L) x" "db_mem st = [] \<longrightarrow> h = []"
    using resolve_ok [OF a(3) assms(2), of "db_mem st"] by auto
  show "parses Q st (case resolve_prefix_list ps v (db_mem st) of (x, h) \<Rightarrow> use x ts' (st\<lparr>db_mem := h\<rparr>))"
    unfolding r prod.case by (rule parses_later [OF assms(3) [OF a(1,2) x] x(2)])
qed simp_all

definition small_triple :: "nat \<Rightarrow> cstr \<times> cstr \<times> cstr \<Rightarrow> bool" where
  "small_triple L t = (case t of (s, p, ob) \<Rightarrow> length s \<le> L \<and> length p \<le> L \<and> length ob \<le> L)"

lemma skip_token_ok:
  assumes "stream_ok L ts" "ty \<noteq> TOKEN_EOF" "ty \<noteq> TOKEN_ERROR"
  obtains b ts' where "skip_token ty ts = Some (b, ts')" "stream_ok L ts'" "length ts' \<le> length ts"
proof (cases ts)
  case (Cons t r)
  show ?thesis
  proof (cases "tk_type t = ty")
    case True
    then have "stream_ok L r" using assms Cons by (auto simp: last_token_def)
    with True Cons show ?thesis by (intro that [of True r]) (simp_all add: skip_token_def)
  next
    case False
    with assms(1) Cons show ?thesis by (intro that [of False ts]) (simp_all add: skip_token_def)
  qed
qed (use assms(1) in simp)

lemma parses_insert_triples:
  assumes "stream_ok L ts" "\<forall>p \<in> set ps. length (snd p) \<le> L" "length ts < n" "\<forall>t \<in> set acc. small_triple (2 * L) t"
  shows "parses (\<lambda>us ts'. stream_ok L ts' \<and> length us + length ts' \<le> length acc + length ts \<and> (\<forall>t \<in> set us. small_triple (2 * L) t)) st
    (insert_triples n ps capacity acc ts st)" (is "parses (?Q acc ts) st _")
  using assms
proof (induction n arbitrary: capacity acc ts st)
  case (Suc n)
  obtain t r where ts: "ts = t # r" using Suc.prems(1) by (cases ts) auto
  show ?case
  proof (cases "tk_type t = TOKEN_RBRACE")
    case True
    then show ?thesis using Suc.prems ts by simp
  next
    case False
    have IH: "parses (?Q acc ts) st' (insert_triples n ps cap (acc @ [tri]) ts' st')"
      if "stream_ok L ts'" "length ts' < length ts" "small_triple (2 * L) tri" for st' cap tri ts'
    proof -
      have "parses (?Q (acc @ [tri]) ts') st' (insert_triples n ps cap (acc @ [tri]) ts' st')"
        using that Suc.prems by (intro Suc.IH) auto
      with that(2) show ?thesis unfolding parses_def by fastforce
    qed
    have next_one: "parses (?Q acc ts) st'
        ((if b then or_error st' else (\<lambda>use. use st')) (\<lambda>st. do {
           (_, ts) \<leftarrow> skip_token TOKEN_DOT ts';
           insert_triples n ps cap (acc @ [tri]) ts st }))"
      if ok: "stream_ok L ts'" "length ts' < length ts" "small_triple (2 * L) tri" for b st' ts' cap tri
    proof -
      obtain d ts2 where d: "skip_token TOKEN_DOT ts' = Some (d, ts2)" "stream_ok L ts2" "length ts2 \<le> length ts'"
        by (rule skip_token_ok [OF ok(1), of TOKEN_DOT]) simp_all
      have more: "parses (?Q acc ts) st'' (insert_triples n ps cap (acc @ [tri]) ts2 st'')" for st''
        by (rule IH [OF d(2) _ ok(3)]) (use d(3) ok(2) in simp)
      show ?thesis using more d(1) by (cases b) (simp_all add: parses_or_error)
    qed
    show ?thesis
    proof (cases "last_token t")
      case True
      then show ?thesis using False ts by simp
    next
      case nl: False
      have "parses (?Q acc ts) st (insert_term ps ts st (\<lambda>s ts st. insert_term ps ts st (\<lambda>p ts st. insert_term ps ts st (\<lambda>ob ts st.
            case (s, p, ob) of
              (Some s, Some p, Some ob) \<Rightarrow>
                (let full = (length acc = capacity);
                     grow = (\<lambda>use. if full then or_error st use else use st)
                 in grow (\<lambda>st. do {
                      (_, ts) \<leftarrow> skip_token TOKEN_DOT ts;
                      insert_triples n ps (if full then if capacity = 0 then 8 else capacity * 2 else capacity)
                        (acc @ [(s, p, ob)]) ts st }))
            | _ \<Rightarrow> syntax_error st))))"
      proof (rule parses_insert_term [OF Suc.prems(1,2)], rule parses_insert_term [OF _ Suc.prems(2)], assumption,
          rule parses_insert_term [OF _ Suc.prems(2)], assumption, goal_cases)
        case (1 s ts1 h1 p ts2 h2 ob ts3 h3)
        then show ?case
          using next_one [where ts' = ts3 and b = "length acc = capacity"]
          by (cases s; cases p; cases ob) (auto simp: Let_def term_ok_def small_triple_def)
      qed
      then show ?thesis using False nl by (simp add: ts)
    qed
  qed
qed simp

lemma parses_expect_word:
  assumes "stream_ok L ts" "\<And>ts'. stream_ok L ts' \<Longrightarrow> length ts' < length ts \<Longrightarrow> parses Q st (use ts')"
  shows "parses Q st (expect_word w ts st use)"
  unfolding expect_word_def by (rule parses_expect [OF assms(1)]) (use assms(2) in auto)

lemma parses_expect_eof:
  assumes "stream_ok L ts" "\<And>v ts'. parses Q st (use v ts')"
  shows "parses Q st (expect [TOKEN_EOF] ts st use)"
  using assms by (cases ts) (auto simp: expect_def)

lemma parses_insert:
  assumes "stream_ok L ts"
  shows "parses (\<lambda>us _. length us \<le> length ts \<and> (\<forall>t \<in> set us. small_triple (2 * L) t)) st (parse_insert ts st)"
proof -
  let ?Q = "\<lambda>us _. length us \<le> length ts \<and> (\<forall>t \<in> set us. small_triple (2 * L) t)"
  let ?R = "\<lambda>us ts'. stream_ok L ts' \<and> length us \<le> length ts \<and> (\<forall>t \<in> set us. small_triple (2 * L) t)"
  have tail: "parses ?Q st' (expect [TOKEN_RBRACE] ts' st' (\<lambda>_ ts. expect [TOKEN_EOF] ts st' (\<lambda>_ ts. Some (Some (us, ts), st'))))"
    if "stream_ok L ts'" "length us \<le> length ts" "\<forall>t \<in> set us. small_triple (2 * L) t" for st' ts' us
    by (rule parses_expect [OF that(1)], simp, simp, erule parses_expect_eof) (use that in simp)
  have body: "parses ?Q st' (do {
          (x, st) \<leftarrow> insert_triples (Suc (length ts')) ps 0 [] ts' st';
          case x of None \<Rightarrow> Some (None, st) | Some (triples, ts) \<Rightarrow>
          expect [TOKEN_RBRACE] ts st (\<lambda>_ ts. expect [TOKEN_EOF] ts st (\<lambda>_ ts. Some (Some (triples, ts), st))) })"
    if "stream_ok L ts'" "length ts' \<le> length ts" "\<forall>p \<in> set ps. length (snd p) \<le> L" for st' ts' ps
  proof (rule parses_bind [where P = ?R], goal_cases)
    case 1
    show ?case
      using parses_insert_triples [OF that(1,3), of "Suc (length ts')" "[]" st' 0] that(2)
      unfolding parses_def by fastforce
  qed (simp_all add: tail)
  show ?thesis
    unfolding parse_insert_def
  proof (rule parses_bind [OF parses_prefixes [OF assms, of "[]"]], goal_cases)
    case (3 ps ts1 h)
    then show ?case
      by (auto simp del: insert_triples.simps intro!: parses_expect_word parses_expect body)
  qed simp_all
qed

section \<open>Printing and reading back\<close>

definition triple_text :: "cstr \<times> cstr \<times> cstr \<Rightarrow> cstr" where
  "triple_text t = (case t of (s, p, ob) \<Rightarrow> '' <'' @ s @ ''> <'' @ p @ ''> <'' @ ob @ ''> .'')"

definition insert_text :: "(cstr \<times> cstr \<times> cstr) list \<Rightarrow> cstr" where
  "insert_text ts = ''INSERT DATA {'' @ concat (map triple_text ts) @ '' }''"

definition printable :: "cstr \<times> cstr \<times> cstr \<Rightarrow> bool" where
  "printable t = (case t of (s, p, ob) \<Rightarrow> CHR ''>'' \<notin> set s \<and> CHR ''>'' \<notin> set p \<and> CHR ''>'' \<notin> set ob)"

definition triple_tokens :: "cstr \<times> cstr \<times> cstr \<Rightarrow> s_token list" where
  "triple_tokens t = (case t of (s, p, ob) \<Rightarrow>
     [token TOKEN_CONST (Some s), token TOKEN_CONST (Some p), token TOKEN_CONST (Some ob), token TOKEN_DOT (Some ''.'')])"

lemma next_token_blank: "blank c \<Longrightarrow> next_token (c # p) h = next_token p h"
  by (simp add: next_token_def)

lemma next_token_term:
  assumes "CHR ''>'' \<notin> set x"
  shows "next_token (CHR ''<'' # x @ CHR ''>'' # rest) [] = (token TOKEN_CONST (Some x), rest, [])"
proof -
  have "takeWhile (\<lambda>c. c \<noteq> CHR ''>'') (x @ CHR ''>'' # rest) = x"
    "dropWhile (\<lambda>c. c \<noteq> CHR ''>'') (x @ CHR ''>'' # rest) = CHR ''>'' # rest"
    using assms by (auto simp: takeWhile_append dropWhile_append)
  then show ?thesis
    by (simp add: next_token_def blank_def single_tokens_def delimited_def copied_def del: dropWhile_append takeWhile_append)
qed

lemma next_token_single:
  "next_token (CHR ''.'' # rest) [] = (token TOKEN_DOT (Some ''.''), rest, [])"
  "next_token (CHR ''{'' # rest) [] = (token TOKEN_LBRACE (Some ''{''), rest, [])"
  "next_token (CHR ''}'' # rest) [] = (token TOKEN_RBRACE (Some ''}''), rest, [])"
  "next_token [] [] = (token TOKEN_EOF None, [], [])"
  by (simp_all add: next_token_def blank_def single_tokens_def)

lemma lower_case:
  "to_lower CHR ''I'' = CHR ''i''"
  "to_lower CHR ''N'' = CHR ''n''"
  "to_lower CHR ''S'' = CHR ''s''"
  "to_lower CHR ''E'' = CHR ''e''"
  "to_lower CHR ''R'' = CHR ''r''"
  "to_lower CHR ''T'' = CHR ''t''"
  "to_lower CHR ''P'' = CHR ''p''"
  "to_lower CHR ''F'' = CHR ''f''"
  "to_lower CHR ''X'' = CHR ''x''"
  "to_lower CHR ''O'' = CHR ''o''"
  "to_lower CHR ''L'' = CHR ''l''"
  "to_lower CHR ''C'' = CHR ''c''"
  "to_lower CHR ''D'' = CHR ''d''"
  "to_lower CHR ''A'' = CHR ''a''"
  by code_simp+

lemma word_types: "word_type ''INSERT'' = TOKEN_CONST" "word_type ''DATA'' = TOKEN_CONST"
  by (simp_all add: word_type_def keywords_list_def strcaseeq_def lower_case)

lemma word_chars:
  "word_char CHR ''I''" "word_char CHR ''N''" "word_char CHR ''S''" "word_char CHR ''E''" "word_char CHR ''R''"
  "word_char CHR ''T''" "word_char CHR ''D''" "word_char CHR ''A''" "\<not> word_char CHR '' ''"
  by code_simp+

lemma next_token_words:
  "next_token (''INSERT DATA '' @ rest) [] = (token TOKEN_CONST (Some ''INSERT''), '' DATA '' @ rest, [])"
  "next_token (''DATA '' @ rest) [] = (token TOKEN_CONST (Some ''DATA''), '' '' @ rest, [])"
  by (simp_all add: next_token_def blank_def single_tokens_def word_chars word_types copied_def)

lemma tokenize_step:
  "next_token p [] = (t, p', []) \<Longrightarrow> \<not> last_token t \<Longrightarrow> tokenize_from p acc [] = tokenize_from p' (acc @ [t]) []"
  by (simp add: tokenize_from.simps [of p])

lemma not_last_token: "last_token (token ty v) \<longleftrightarrow> ty = TOKEN_EOF \<or> ty = TOKEN_ERROR"
  by (simp add: last_token_def token_def)

lemma blank_space: "blank (CHR '' '')"
  by (simp add: blank_def)

lemma tokenize_triple:
  assumes "printable t"
  shows "tokenize_from (triple_text t @ rest) acc [] = tokenize_from rest (acc @ triple_tokens t) []"
proof -
  obtain s p ob where t: "t = (s, p, ob)" by (rule prod_cases3)
  have sp: "tokenize_from (CHR '' '' # q) a [] = tokenize_from q a []" for q a
    by (simp add: tokenize_from.simps next_token_blank blank_space)
  have tm: "tokenize_from (CHR ''<'' # x @ CHR ''>'' # q) a [] = tokenize_from q (a @ [token TOKEN_CONST (Some x)]) []"
    if "CHR ''>'' \<notin> set x" for x q a
    by (rule tokenize_step [OF next_token_term [OF that]]) (simp add: not_last_token)
  have dot: "tokenize_from (CHR ''.'' # q) a [] = tokenize_from q (a @ [token TOKEN_DOT (Some ''.'')]) []" for q a
    by (rule tokenize_step [OF next_token_single(1)]) (simp add: not_last_token)
  show ?thesis
    using assms by (simp add: t triple_text_def triple_tokens_def printable_def sp tm dot)
qed

lemma tokenize_triples:
  assumes "\<forall>t \<in> set ts. printable t"
  shows "tokenize_from (concat (map triple_text ts) @ rest) acc [] = tokenize_from rest (acc @ concat (map triple_tokens ts)) []"
  using assms by (induction ts arbitrary: acc) (simp_all add: tokenize_triple)

definition insert_tokens :: "(cstr \<times> cstr \<times> cstr) list \<Rightarrow> s_token list" where
  "insert_tokens ts =
     [token TOKEN_CONST (Some ''INSERT''), token TOKEN_CONST (Some ''DATA''), token TOKEN_LBRACE (Some ''{'')] @
     concat (map triple_tokens ts) @ [token TOKEN_RBRACE (Some ''}''), token TOKEN_EOF None]"

lemma tokenize_insert_text:
  assumes "\<forall>t \<in> set ts. printable t"
  shows "tokenize (insert_text ts) [] = (insert_tokens ts, [])"
proof -
  let ?w = "[token TOKEN_CONST (Some ''INSERT'')]" and ?d = "[token TOKEN_CONST (Some ''DATA'')]"
  let ?b = "[token TOKEN_LBRACE (Some ''{'')]" and ?c = "concat (map triple_tokens ts)"
  let ?body = "concat (map triple_text ts) @ '' }''"
  have sp: "tokenize_from (CHR '' '' # q) a [] = tokenize_from q a []" for q a
    by (simp add: tokenize_from.simps next_token_blank blank_space)
  have "tokenize (insert_text ts) [] = tokenize_from ('' DATA '' @ CHR ''{'' # ?body) ?w []"
    using tokenize_step [OF next_token_words(1) [of "CHR ''{'' # ?body"], of "[]"]
    by (simp add: tokenize_def insert_text_def not_last_token)
  also have "\<dots> = tokenize_from (CHR ''{'' # ?body) (?w @ ?d) []"
    using tokenize_step [OF next_token_words(2) [of "CHR ''{'' # ?body"], of ?w] by (simp add: sp not_last_token)
  also have "\<dots> = tokenize_from ?body (?w @ ?d @ ?b) []"
    using tokenize_step [OF next_token_single(2) [of ?body], of "?w @ ?d"] by (simp add: not_last_token)
  also have "\<dots> = tokenize_from '' }'' (?w @ ?d @ ?b @ ?c) []"
    using tokenize_triples [OF assms, of "'' }''" "?w @ ?d @ ?b"] by simp
  also have "\<dots> = tokenize_from [] (?w @ ?d @ ?b @ ?c @ [token TOKEN_RBRACE (Some ''}'')]) []"
    using tokenize_step [OF next_token_single(3) [of "[]"], of "?w @ ?d @ ?b @ ?c"] by (simp add: sp not_last_token)
  also have "\<dots> = (insert_tokens ts, [])"
    by (simp add: tokenize_from.simps next_token_single not_last_token insert_tokens_def)
  finally show ?thesis .
qed

lemma expect_token:
  "expect tys (token ty v # ts) st use = (if ty \<in> set tys then use v ts else syntax_error st)"
  by (simp add: expect_def token_def)

lemma insert_term_token:
  assumes "db_mem st = []"
  shows "insert_term [] (token TOKEN_CONST (Some x) # ts) st use = use (Some x) ts st"
proof -
  have "resolve_prefix_list [] (Some x) [] = (Some x, [])" by (simp add: resolve_prefix_list_def)
  moreover have st: "st\<lparr>db_mem := []\<rparr> = st" using assms by (cases st) simp
  ultimately show ?thesis using assms by (simp add: insert_term_def expect_token st)
qed

lemma insert_triples_tokens:
  assumes "db_mem st = []" "length ts < n"
  shows "insert_triples n [] capacity acc (concat (map triple_tokens ts) @ token TOKEN_RBRACE (Some ''}'') # rest) st =
    Some (Some (acc @ ts, token TOKEN_RBRACE (Some ''}'') # rest), st)"
  using assms(2)
proof (induction ts arbitrary: n capacity acc)
  case Nil
  then obtain k where "n = Suc k" by (cases n) auto
  then show ?case by (simp add: token_def)
next
  case (Cons t ts)
  obtain k where n: "n = Suc k" "length ts < k" using Cons.prems by (cases n) auto
  obtain s p ob where t: "t = (s, p, ob)" by (rule prod_cases3)
  let ?r = "concat (map triple_tokens ts) @ token TOKEN_RBRACE (Some ''}'') # rest"
  have first: "tk_type (token TOKEN_CONST v) \<noteq> TOKEN_RBRACE" "\<not> last_token (token TOKEN_CONST v)" for v
    by (simp_all add: token_def last_token_def)
  have dot: "skip_token TOKEN_DOT (token TOKEN_DOT v # r) = Some (True, r)" for v r by (simp add: skip_token_def token_def)
  have st: "st\<lparr>db_mem := []\<rparr> = st" using assms(1) by (cases st) simp
  have grow: "or_error st use = use st" for use :: "facts \<Rightarrow> (cstr \<times> cstr \<times> cstr) list parsed"
    by (simp add: or_error_def assms(1) st)
  show ?case
    using Cons.IH [OF n(2), of _ "acc @ [t]"] unfolding n(1)
    by (simp add: t triple_tokens_def first insert_term_token [OF assms(1)] dot grow Let_def)
qed

lemma length_triples_tokens: "length (concat (map triple_tokens ts)) = 4 * length ts"
  by (induction ts) (auto simp: triple_tokens_def split: prod.split)

lemma parse_insert_tokens:
  assumes "db_mem st = []"
  shows "\<exists>r. parse_insert (insert_tokens ts) st = Some (Some (ts, r), st)"
proof -
  have w: "strcaseeq ''INSERT'' ''INSERT''" "strcaseeq ''DATA'' ''DATA''" by (simp_all add: strcaseeq_def)
  have pre: "parse_prefixes [] (token TOKEN_CONST v # r) st = Some (Some ([], token TOKEN_CONST v # r), st)" for v r
    by (simp add: token_def)
  let ?c = "concat (map triple_tokens ts)" and ?e = "[token TOKEN_EOF None]"
  have "insert_triples (Suc (length (?c @ token TOKEN_RBRACE (Some ''}'') # ?e))) [] 0 [] (?c @ token TOKEN_RBRACE (Some ''}'') # ?e) st
      = Some (Some ([] @ ts, token TOKEN_RBRACE (Some ''}'') # ?e), st)"
    by (rule insert_triples_tokens [OF assms]) (simp add: length_triples_tokens)
  then show ?thesis
    by (simp add: parse_insert_def insert_tokens_def pre expect_word_def expect_token w
        del: insert_triples.simps parse_prefixes.simps)
qed

section \<open>Properties\<close>

text \<open>
  C16: Whatever the text and the allocator, the tokens are none, when memory ran out, or at most one more than the
  characters; then exactly the last of them is an end or an error, every constant has a value, every variable's
  value is a question mark and characters of a name, and no value is longer than the text.
\<close>

theorem tokenize_stream:
  "fst (tokenize query h) = [] \<or>
   stream_ok (length query) (fst (tokenize query h)) \<and> length (fst (tokenize query h)) \<le> Suc (length query)"
  using tokenize_ok [of query h "fst (tokenize query h)" "snd (tokenize query h)"] by simp

text \<open>
  C15: On what the tokenizer gives for any text, the parser of \<^verbatim>\<open>INSERT DATA\<close> returns, with the triples or an
  error, whichever allocations fail: it never reads past the last token, follows no null pointer, and changes nothing
  of the database.
\<close>

theorem parse_insert_returns:
  "fst (tokenize query h) = [] \<or>
   (\<exists>r h'. parse_insert (fst (tokenize query h)) st = Some (r, st\<lparr>db_mem := h'\<rparr>))"
proof -
  have "\<exists>r h'. parse_insert (fst (tokenize query h)) st = Some (r, st\<lparr>db_mem := h'\<rparr>)"
    if "stream_ok L (fst (tokenize query h))" for L
    using parses_insert [OF that, of st] unfolding parses_def by blast
  then show ?thesis using tokenize_ok [of query h "fst (tokenize query h)" "snd (tokenize query h)"] by auto
qed

end
