(* ===== verification/Sparql_Props.thy ===== *)
theory Sparql_Props
  imports Sparql_Parse Insert_Room Commit Facts_Props Query_Props
begin

text \<open>
  \<^verbatim>\<open>INSERT DATA\<close> and queries on a consistent database: an insertion is all or nothing, whatever the
  text, and inserts the triples of a printed list.
\<close>

section \<open>Adding the triples\<close>

definition with_asserted :: "triple set \<Rightarrow> contents \<Rightarrow> contents" where
  "with_asserted T C = (\<lambda>t. if t \<in> T \<and> C t = None then Some (1, 0) else C t)"

lemma with_asserted_add:
  "C t = None \<Longrightarrow> with_asserted T (sp_add FACT_ORIGIN_ASSERTED t C) = with_asserted (insert t T) C"
  "C t \<noteq> None \<Longrightarrow> with_asserted (insert t T) C = with_asserted T C"
  by (auto simp: with_asserted_def sp_add_def fun_eq_iff)

lemma new_card:
  assumes "finite T"
  shows "C t = None \<Longrightarrow> Suc (card (T - dom (sp_add FACT_ORIGIN_ASSERTED t C))) = card (insert t T - dom C)"
    "C t \<noteq> None \<Longrightarrow> card (insert t T - dom C) = card (T - dom C)"
proof -
  assume "C t = None"
  then have "insert t T - dom C = insert t (T - dom (sp_add FACT_ORIGIN_ASSERTED t C))" by (auto simp: sp_add_def)
  moreover have "t \<notin> T - dom (sp_add FACT_ORIGIN_ASSERTED t C)" by (simp add: sp_add_def)
  ultimately show "Suc (card (T - dom (sp_add FACT_ORIGIN_ASSERTED t C))) = card (insert t T - dom C)"
    using assms by simp
next
  assume "C t \<noteq> None"
  then have "insert t T - dom C = T - dom C" by auto
  then show "card (insert t T - dom C) = card (T - dom C)" by simp
qed

text \<open>
  The additions of a list of triples, also when one is refused: what is done is undone by a rollback,
  and where there is room none is refused.
\<close>

lemma add_triples_runs:
  assumes "in_transaction (X, st)" "\<forall>t \<in> set ts. small_triple MAX_STRING t" "n + int (length ts) \<le> INT_MAX"
  shows "\<exists>b m st'. add_triples ts n st = Some ((b, m), st') \<and> client_step\<^sup>*\<^sup>* (X, st) (X, st') \<and> rest_of st' = rest_of st \<and>
    card (stored st') \<le> card (stored st) + length ts \<and> length (entries st') \<le> length (entries st) + length ts \<and>
    (b \<longrightarrow> m = n + int (card (set ts - dom (contents st))) \<and> contents st' = with_asserted (set ts) (contents st)) \<and>
    (fits X st (length ts) \<longrightarrow> b \<and> db_mem st' = [])"
  using assms
proof (induction ts arbitrary: n st)
  case Nil
  have "with_asserted {} C = C" for C by (simp add: with_asserted_def)
  then show ?case by (auto simp: fits_def intro!: exI [of _ True])
next
  case (Cons t ts)
  obtain s p ob where t: "t = (s, p, ob)" by (rule prod_cases3)
  have len: "length s \<le> MAX_STRING" "length p \<le> MAX_STRING" "length ob \<le> MAX_STRING"
    using Cons.prems(2) t by (simp_all add: small_triple_def)
  have small: "\<forall>t \<in> set ts. small_triple MAX_STRING t" using Cons.prems(2) by simp
  note i = in_transactionD [OF Cons.prems(1)]
  note there = read_spo(2) [OF i(1), of s p ob]
  let ?C = "contents st"
  show ?case
  proof (cases "?C t = None")
    case False
    have "n + int (length ts) \<le> INT_MAX" using Cons.prems(3) by simp
    from Cons.IH [OF Cons.prems(1) small this] obtain b m st' where
      1: "add_triples ts n st = Some ((b, m), st')" "client_step\<^sup>*\<^sup>* (X, st) (X, st')" "rest_of st' = rest_of st"
      "card (stored st') \<le> card (stored st) + length ts" "length (entries st') \<le> length (entries st) + length ts"
      "b \<longrightarrow> m = n + int (card (set ts - dom ?C)) \<and> contents st' = with_asserted (set ts) ?C"
      "fits X st (length ts) \<longrightarrow> b \<and> db_mem st' = []" by blast
    have "add_triples (t # ts) n st = Some ((b, m), st')" using 1(1) there False t by simp
    moreover have "fits X st (length (t # ts)) \<longrightarrow> b \<and> db_mem st' = []" using 1(7) by (simp add: fits_def)
    moreover have "b \<longrightarrow> m = n + int (card (set (t # ts) - dom ?C)) \<and> contents st' = with_asserted (set (t # ts)) ?C"
      using 1(6) new_card(2) [where T = "set ts" and C = ?C and t = t] with_asserted_add(2) [where T = "set ts" and C = ?C and t = t]
        False by simp
    ultimately show ?thesis using 1(2-5) by fastforce
  next
    case True
    show ?thesis
    proof (cases rule: add_spo_origin_ok [OF i(1,5) len, of FACT_ORIGIN_ASSERTED, case_names refused added])
      case (refused st1)
      have "\<not> fits X st (length (t # ts))"
        using fits_step [OF Cons.prems(1) _ len, of "length ts" FACT_ORIGIN_ASSERTED] refused(1) by force
      moreover have "client_step (X, st) (X, st1)" by (rule client_step.add [OF len refused(1)])
      moreover have "add_triples (t # ts) n st = Some ((False, n), st1)"
        using there True t refused(1) by (simp add: facts_add_spo_def)
      ultimately show ?thesis using same_factsD [OF refused(3)] by fastforce
    next
      case (added a st1)
      have step: "client_step (X, st) (X, st1)" by (rule client_step.add [OF len added(1)])
      have fit: "fits X st (length (t # ts)) \<Longrightarrow> fits X st1 (length ts)"
        using fits_step [OF Cons.prems(1) _ len, of "length ts" FACT_ORIGIN_ASSERTED] added(1) by force
      have "finite (stored st)" by (simp add: stored_def finite_ptr_elems)
      then have size: "card (stored st1) \<le> Suc (card (stored st))" by (simp add: added(8) card_insert_if)
      have ent: "length (entries st1) \<le> Suc (length (entries st))" using added(7) by (auto simp: logged_def pushed_def)
      have "n + 1 + int (length ts) \<le> INT_MAX" using Cons.prems(3) by simp
      from Cons.IH [OF cl.inv_step [OF Cons.prems(1) step] small this] obtain b m st' where
        1: "add_triples ts (n + 1) st1 = Some ((b, m), st')" "client_step\<^sup>*\<^sup>* (X, st1) (X, st')" "rest_of st' = rest_of st1"
        "card (stored st') \<le> card (stored st1) + length ts" "length (entries st') \<le> length (entries st1) + length ts"
        "b \<longrightarrow> m = n + 1 + int (card (set ts - dom (contents st1))) \<and> contents st' = with_asserted (set ts) (contents st1)"
        "fits X st1 (length ts) \<longrightarrow> b \<and> db_mem st' = []" by blast
      have "add_triples (t # ts) n st = Some ((b, m), st')"
        using 1(1) there True t added(1) Cons.prems(3) by (simp add: facts_add_spo_def)
      moreover have "client_step\<^sup>*\<^sup>* (X, st) (X, st')" using step 1(2) by (rule converse_rtranclp_into_rtranclp)
      moreover have "b \<longrightarrow> m = n + int (card (set (t # ts) - dom ?C)) \<and> contents st' = with_asserted (set (t # ts)) ?C"
        using 1(6) added(5) t new_card(1) [where T = "set ts" and C = ?C and t = t]
          with_asserted_add(1) [where T = "set ts" and C = ?C and t = t, OF True] True by auto
      moreover have "rest_of st' = rest_of st" using 1(3) added(6) by simp
      moreover have "card (stored st') \<le> card (stored st) + length (t # ts)" using 1(4) size by simp
      moreover have "length (entries st') \<le> length (entries st) + length (t # ts)" using 1(5) ent by simp
      ultimately show ?thesis using 1(7) fit by blast
    qed
  qed
qed

lemma in_transaction_begun:
  assumes "db_ok X st" "idle st"
  obtains st1 where "facts_transaction_begin st = Some (0, st1)" "in_transaction (X, st1)" "tx_level (db_tx st1) = 1"
    "contents st1 = contents st" "fits X st1 = fits X st" "stored st1 = stored st" "entries st1 = []"
    "tx_listener (db_tx st1) = tx_listener (db_tx st)" "tx_internal_listener (db_tx st1) = tx_internal_listener (db_tx st)"
proof -
  let ?st = "st\<lparr>db_tx := (db_tx st)\<lparr>tx_owned := True, tx_level := 1\<rparr>\<rparr>"
  have "facts_transaction_begin st = Some (0, ?st)"
    using assms(2) by (simp add: facts_transaction_begin_def transaction_begin_def idle_def Let_def)
  moreover have "in_transaction (X, ?st)" using assms by (simp add: in_transaction_def db_ok_tx idle_def)
  moreover have "contents ?st = contents st" by (rule contents_frame) simp_all
  moreover have "entries ?st = []" using assms(2) by (simp add: idle_def)
  ultimately show ?thesis using that [of ?st] by (simp add: fits_def [abs_def] stored_def)
qed

definition no_listener :: "facts \<Rightarrow> bool" where
  "no_listener st \<longleftrightarrow> tx_listener (db_tx st) = None \<and> tx_internal_listener (db_tx st) = None"

text \<open>The answers of the allocator that are left when the additions are over.\<close>

definition memory_after :: "(cstr \<times> cstr \<times> cstr) list \<Rightarrow> facts \<Rightarrow> mem" where
  "memory_after ts st =
     (case do { (_, st) \<leftarrow> facts_transaction_begin st; add_triples ts 0 st } of
        None \<Rightarrow> [] | Some (_, st') \<Rightarrow> db_mem st')"

lemma insert_all_ok:
  assumes ok: "db_ok X st" and idle: "idle st" and q: "quiet cb"
    and small: "\<forall>t \<in> set ts. small_triple MAX_STRING t" and int: "int (length ts) \<le> INT_MAX"
    and size: "card (stored st) + 2 * length ts \<le> 2 ^ 55" "size X < 2 ^ 62"
    and mem: "memory_after ts st = []"
  shows "\<exists>r st'. insert_all cb ts st = Some (r, st') \<and> db_ok X st' \<and> idle st' \<and>
    (r = - 1 \<and> contents st' = contents st \<and> (no_listener st \<longrightarrow> \<not> fits X st (length ts)) \<or>
     r = int (card (set ts - dom (contents st))) \<and> contents st' = with_asserted (set ts) (contents st))"
proof -
  obtain st1 where b: "facts_transaction_begin st = Some (0, st1)" "in_transaction (X, st1)" "tx_level (db_tx st1) = 1"
    "contents st1 = contents st" "fits X st1 = fits X st" "stored st1 = stored st" "entries st1 = []"
    "tx_listener (db_tx st1) = tx_listener (db_tx st)" "tx_internal_listener (db_tx st1) = tx_internal_listener (db_tx st)"
    by (rule in_transaction_begun [OF ok idle])
  from add_triples_runs [OF b(2) small, of 0] int obtain ok' m st2 where
    a: "add_triples ts 0 st1 = Some ((ok', m), st2)" "client_step\<^sup>*\<^sup>* (X, st1) (X, st2)" "rest_of st2 = rest_of st1"
    "card (stored st2) \<le> card (stored st) + length ts" "length (entries st2) \<le> length ts"
    "ok' \<longrightarrow> m = int (card (set ts - dom (contents st))) \<and> contents st2 = with_asserted (set ts) (contents st)"
    "fits X st (length ts) \<longrightarrow> ok'" unfolding b(4-7) by auto
  have left: "db_mem st2 = []" using mem a(1) b(1) by (simp add: memory_after_def)
  have sz: "card (stored st2) + length (entries st2) \<le> 2 ^ 55" using a(4,5) size(1) by simp
  have lev: "tx_level (db_tx st2) = 1" using rest_of_tx(2) [OF a(3)] b(3) by simp
  show ?thesis
  proof (cases ok')
    case False
    from client_rollback [OF ok idle b(1) a(2) left sz size(2)] obtain st' where
      "facts_transaction_rollback st2 = Some (0, st')" "db_ok X st'" "idle st'" "contents st' = contents st" by blast
    then show ?thesis using a(1,7) b(1) False by (simp add: insert_all_def)
  next
    case True
    from client_commit [OF ok idle b(1) a(2) lev q left sz size(2)] obtain r st' where
      c: "facts_transaction_commit cb st2 = Some (r, st')" "db_ok X st'" "idle st'"
      "if vetoed cb st2 then r = - 1 \<and> contents st' = contents st else r = 0 \<and> contents st' = contents st2" by blast
    have again: "facts_transaction_rollback st' = Some (- 1, st')"
      using c(3) by (simp add: facts_transaction_rollback_def transaction_rollback_def may_finish_def idle_def)
    have listeners: "vetoed cb st2 \<Longrightarrow> \<not> no_listener st"
      using a(3) b(8,9) by (auto simp: vetoed_def no_listener_def rest_of_def tx_rest_def)
    show ?thesis
    proof (cases "vetoed cb st2")
      case True
      then show ?thesis using \<open>ok'\<close> a(1) b(1) c again listeners by (auto simp: insert_all_def)
    next
      case False
      then show ?thesis using \<open>ok'\<close> a(1,6) b(1) c by (auto simp: insert_all_def)
    qed
  qed
qed

lemma memory_fits:
  assumes "db_ok X st" "idle st" "fits X st (length ts)" "\<forall>t \<in> set ts. small_triple MAX_STRING t" "int (length ts) \<le> INT_MAX"
  shows "memory_after ts st = []"
proof -
  obtain st1 where b: "facts_transaction_begin st = Some (0, st1)" "in_transaction (X, st1)" "fits X st1 = fits X st"
    by (rule in_transaction_begun [OF assms(1,2)])
  from add_triples_runs [OF b(2) assms(4), of 0] assms(3,5) b show ?thesis by (auto simp: memory_after_def)
qed

section \<open>The text\<close>

lemma small_triple_mono: "small_triple L t \<Longrightarrow> L \<le> L' \<Longrightarrow> small_triple L' t"
  by (cases t) (auto simp: small_triple_def)

text \<open>The triples of a text, none when it is not an insertion, and the answers of the allocator left by the parser.\<close>

definition parsed_insertion :: "cstr \<Rightarrow> facts \<Rightarrow> (cstr \<times> cstr \<times> cstr) list option \<times> mem" where
  "parsed_insertion query st =
     (case tokenize query (db_mem st) of (ts, h) \<Rightarrow>
        if ts = [] \<or> tk_type (hd ts) = TOKEN_ERROR then (None, h)
        else (case parse_insert ts (st\<lparr>db_mem := h\<rparr>) of
                Some (x, st') \<Rightarrow> (map_option fst x, db_mem st')
              | None \<Rightarrow> (None, h)))"

definition insertion_of :: "cstr \<Rightarrow> facts \<Rightarrow> (cstr \<times> cstr \<times> cstr) list option" where
  "insertion_of query st = fst (parsed_insertion query st)"

text \<open>The state between the parser and the additions.\<close>

definition parsed_state :: "cstr \<Rightarrow> facts \<Rightarrow> facts" where
  "parsed_state query st = st\<lparr>db_mem := snd (parsed_insertion query st)\<rparr>"

lemma sparql_insert_runs:
  shows "facts_sparql_insert cb query st =
      (case insertion_of query st of None \<Rightarrow> Some (- 1, parsed_state query st) | Some ts \<Rightarrow> insert_all cb ts (parsed_state query st))"
    and "insertion_of query st = Some triples \<Longrightarrow>
      length triples \<le> Suc (length query) \<and> (\<forall>t \<in> set triples. small_triple (2 * length query) t)"
    and "db_mem st = [] \<Longrightarrow> parsed_state query st = st"
proof -
  obtain ts h where t: "tokenize query (db_mem st) = (ts, h)" by (cases "tokenize query (db_mem st)")
  have h: "db_mem st = [] \<longrightarrow> h = []" using tokenize_from_spares [of query "[]" ts h] t by (auto simp: tokenize_def)
  have id: "st\<lparr>db_mem := db_mem st\<rparr> = st" by (cases st) simp
  have "facts_sparql_insert cb query st =
      (case insertion_of query st of None \<Rightarrow> Some (- 1, parsed_state query st) | Some ts \<Rightarrow> insert_all cb ts (parsed_state query st)) \<and>
    (insertion_of query st = Some triples \<longrightarrow>
      length triples \<le> Suc (length query) \<and> (\<forall>t \<in> set triples. small_triple (2 * length query) t)) \<and>
    (db_mem st = [] \<longrightarrow> snd (parsed_insertion query st) = [])"
  proof (cases "ts = [] \<or> tk_type (hd ts) = TOKEN_ERROR")
    case True
    then have "parsed_insertion query st = (None, h)" using t by (simp add: parsed_insertion_def)
    moreover have "facts_sparql_insert cb query st = Some (- 1, st\<lparr>db_mem := h\<rparr>)"
      using True unfolding facts_sparql_insert_def t prod.case Let_def by (cases ts) simp_all
    ultimately show ?thesis using h by (simp add: insertion_of_def parsed_state_def)
  next
    case False
    then obtain t0 ts' where ts: "ts = t0 # ts'" "tk_type t0 \<noteq> TOKEN_ERROR" by (cases ts) simp_all
    with tokenize_ok [OF t] have ok: "stream_ok (length query) ts" "length ts \<le> Suc (length query)" by simp_all
    from parses_insert [OF ok(1), of "st\<lparr>db_mem := h\<rparr>"] obtain x g where
      p: "parse_insert ts (st\<lparr>db_mem := h\<rparr>) = Some (x, st\<lparr>db_mem := g\<rparr>)" "h = [] \<longrightarrow> g = []"
      "\<And>us v. x = Some (us, v) \<Longrightarrow> length us \<le> length ts \<and> (\<forall>t \<in> set us. small_triple (2 * length query) t)"
      unfolding parses_def by auto
    have run: "facts_sparql_insert cb query st =
        (case x of None \<Rightarrow> Some (- 1, st\<lparr>db_mem := g\<rparr>) | Some (triples, _) \<Rightarrow> insert_all cb triples (st\<lparr>db_mem := g\<rparr>))"
      using ts(2) p(1) unfolding facts_sparql_insert_def t prod.case Let_def ts(1) by simp
    have ins: "parsed_insertion query st = (map_option fst x, g)"
      using ts(2) p(1) unfolding parsed_insertion_def t prod.case ts(1) by simp
    show ?thesis
    proof (cases x)
      case None
      then show ?thesis using run ins p(2) h by (simp add: insertion_of_def parsed_state_def)
    next
      case (Some y)
      obtain us v where y: "y = (us, v)" by (cases y)
      show ?thesis using run ins p(2) p(3) [of us v] ok(2) h by (auto simp: Some y insertion_of_def parsed_state_def)
    qed
  qed
  then show "facts_sparql_insert cb query st =
      (case insertion_of query st of None \<Rightarrow> Some (- 1, parsed_state query st) | Some ts \<Rightarrow> insert_all cb ts (parsed_state query st))"
    "insertion_of query st = Some triples \<Longrightarrow>
      length triples \<le> Suc (length query) \<and> (\<forall>t \<in> set triples. small_triple (2 * length query) t)"
    "db_mem st = [] \<Longrightarrow> parsed_state query st = st" using id by (auto simp: parsed_state_def)
qed

lemma parsed_state_same:
  "db_ok X (parsed_state query st) = db_ok X st" "idle (parsed_state query st) = idle st"
  "stored (parsed_state query st) = stored st" "no_listener (parsed_state query st) = no_listener st"
  "contents (parsed_state query st) = contents st"
proof -
  show "contents (parsed_state query st) = contents st" by (rule contents_frame) (simp_all add: parsed_state_def)
qed (simp_all add: parsed_state_def db_ok_def store_ok_def stored_def fact_claims_def idle_def no_listener_def)

section \<open>Properties\<close>

text \<open>
  C10: An insertion is all or nothing, also when an addition is refused. For any text of less than \<open>2 ^ 31\<close> characters,
  on a consistent database with no open transaction, with callbacks that leave the database as it is, whatever
  allocations fail while the text is parsed and the triples are added, and whatever counter is at its end, if none
  fails when the additions are over: \<^verbatim>\<open>facts_sparql_insert\<close> returns; it returns -1 and the contents are as before, or it
  returns the number of the text's triples that were not stored, and the contents are those before and these triples,
  asserted once. It returns -1 only when the text is not an insertion (or was not parsed for want of memory), when a
  listener is registered, or when there was no room for the triples. The database is consistent and no transaction is open.
\<close>

theorem facts_sparql_insert_atomic:
  assumes ok: "db_ok X st" and idle: "idle st" and q: "quiet cb" and len: "length query < 2 ^ 31 - 1"
    and size: "card (stored st) \<le> 2 ^ 54" "size X < 2 ^ 62"
    and mem: "\<And>ts. insertion_of query st = Some ts \<Longrightarrow> memory_after ts (parsed_state query st) = []"
  shows "\<exists>r st'. facts_sparql_insert cb query st = Some (r, st') \<and> db_ok X st' \<and> idle st' \<and>
    (r = - 1 \<and> contents st' = contents st \<and>
       (insertion_of query st = None \<or> \<not> no_listener st \<or> \<not> fits X (parsed_state query st) (Suc (length query))) \<or>
     (\<exists>ts. insertion_of query st = Some ts \<and> r = int (card (set ts - dom (contents st))) \<and>
        contents st' = with_asserted (set ts) (contents st)))"
proof -
  note run = sparql_insert_runs [where query = query and st = st] and same = parsed_state_same [where query = query and st = st]
  show ?thesis
  proof (cases "insertion_of query st")
    case None
    then show ?thesis using run(1) [of cb] ok idle same by simp
  next
    case (Some ts)
    have ts: "length ts \<le> Suc (length query)" "\<forall>t \<in> set ts. small_triple MAX_STRING t"
      using run(2) [OF Some] small_triple_mono [of "2 * length query" _ MAX_STRING] len by auto
    have "fits X (parsed_state query st) (Suc (length query)) \<Longrightarrow> fits X (parsed_state query st) (length ts)"
      using ts(1) by (simp add: fits_def)
    moreover have "int (length ts) \<le> INT_MAX" "card (stored st) + 2 * length ts \<le> 2 ^ 55" using ts(1) len size(1) by simp_all
    ultimately show ?thesis
      using insert_all_ok [of X "parsed_state query st" cb ts] ok idle q ts(2) size(2) mem [OF Some] run(1) [of cb] Some same by auto
  qed
qed

lemma ex_db_next: "db_mem ex_db = []" "next_id (db_symbols ex_db) = 1"
proof -
  have "\<exists>st. facts_init_checked (\<lambda>_ _. 0) None 8 ex_globals = (Some st, ex_globals\<lparr>g_arena := arena_init (g_arena ex_globals)\<rparr>) \<and>
      db_mem st = [] \<and> next_id (db_symbols st) = 1"
    by (simp add: facts_init_checked_def ex_globals_def new_intern_def intern_init_checked_def set_init_checked_def
        new_hexastore_def new_justification_graph_def transaction_init_checked_def)
  then show "db_mem ex_db = []" "next_id (db_symbols ex_db) = 1" using ex_db_init by auto
qed

lemma ex_db_fits: "n \<le> 2 ^ 20 \<Longrightarrow> fits {#} ex_db n"
  using ex_db_ok(3) by (simp add: fits_def stored_def ex_db_tx transaction_zero_def ex_db_next)

lemma insertion_of_text:
  assumes "db_mem st = []" "\<forall>t \<in> set ts. printable t"
  shows "insertion_of (insert_text ts) st = Some ts"
proof -
  have st: "st\<lparr>db_mem := []\<rparr> = st" using assms(1) by (cases st) simp
  obtain r where p: "parse_insert (insert_tokens ts) st = Some (Some (ts, r), st)"
    using parse_insert_tokens [OF assms(1)] by blast
  have tok: "tokenize (insert_text ts) (db_mem st) = (insert_tokens ts, [])" using tokenize_insert_text [OF assms(2)] assms(1) by simp
  show ?thesis by (simp add: insertion_of_def parsed_insertion_def tok p st) (simp add: insert_tokens_def token_def)
qed

text \<open>
  A database whose symbol table has three identifiers left: the first of two triples is added, the
  second needs a fourth symbol and is refused, and the first is taken back.
\<close>

definition ex_late :: facts where
  "ex_late = ex_db\<lparr>db_symbols := (db_symbols ex_db)\<lparr>next_id := UINT64_MAX - 3\<rparr>\<rparr>"

definition ex_triples :: "triple list" where
  "ex_triples = [(''a'', ''b'', ''c''), (''a'', ''b'', ''d'')]"

lemma ex_late_run:
  "case facts_transaction_begin ex_late of None \<Rightarrow> False | Some (n, st) \<Rightarrow>
     (case add_triples ex_triples 0 st of Some ((b, n), st') \<Rightarrow> \<not> b \<and> n = 1 \<and> db_mem st' = [] | _ \<Rightarrow> False)"
  by code_simp

lemma ex_late_ok: "db_ok {#} ex_late" "idle ex_late" "stored ex_late = {}" "contents ex_late = Map.empty" "db_mem ex_late = []"
proof -
  show "db_mem ex_late = []" by (simp add: ex_late_def ex_db_next)
  show "idle ex_late" "stored ex_late = {}" using ex_db_ok(2,3) by (simp_all add: ex_late_def idle_def stored_def)
  have "contents ex_late = contents ex_db" by (rule contents_frame) (simp_all add: ex_late_def)
  then show "contents ex_late = Map.empty" by (simp add: ex_db_ok(4))
  have t: "intern_ok (db_symbols ex_db)" using ex_db_ok(1) by (simp add: db_ok_def symbols_ok_def)
  have "grown (db_symbols ex_db) (db_symbols ex_late)"
    using intern_okD(3) [OF t] by (simp add: grown_def ex_late_def ex_db_next word_le_nat_alt)
  note late = grown_ok [OF t this]
  then have "held (db_symbols ex_late) y = held (db_symbols ex_db) y" for y by (simp add: held_def split: option.split)
  then have "symbols_ok Y (db_symbols ex_late) = symbols_ok Y (db_symbols ex_db)" for Y
    using t late by (simp add: symbols_ok_def)
  then show "db_ok {#} ex_late"
    using ex_db_ok(1) by (simp add: db_ok_def store_ok_def stored_def fact_claims_def ex_late_def)
qed

theorem facts_sparql_insert_atomic_witness:
  "\<exists>st'. facts_sparql_insert ex_callbacks ''INSERT DATA { <a> <b> <c> . <a> <b> <d> . }'' ex_late = Some (- 1, st') \<and>
     idle st' \<and> contents st' = Map.empty"
proof -
  let ?q = "insert_text ex_triples"
  have q: "?q = ''INSERT DATA { <a> <b> <c> . <a> <b> <d> . }''" by (simp add: ex_triples_def insert_text_def triple_text_def)
  have ins: "insertion_of ?q ex_late = Some ex_triples"
    by (rule insertion_of_text [OF ex_late_ok(5)]) (simp add: ex_triples_def printable_def)
  note st = sparql_insert_runs(3) [OF ex_late_ok(5), of ?q]
  obtain n st1 m st2 where r: "facts_transaction_begin ex_late = Some (n, st1)" "add_triples ex_triples 0 st1 = Some ((False, m), st2)"
    "db_mem st2 = []" using ex_late_run by (auto split: option.splits prod.splits)
  have "memory_after ex_triples (parsed_state ?q ex_late) = []" unfolding st using r by (simp add: memory_after_def)
  then have "\<And>ts. insertion_of ?q ex_late = Some ts \<Longrightarrow> memory_after ts (parsed_state ?q ex_late) = []" using ins by simp
  from facts_sparql_insert_atomic [OF ex_late_ok(1,2) ex_callbacks_quiet _ _ _ this] obtain r' st' where
    e: "facts_sparql_insert ex_callbacks ?q ex_late = Some (r', st')" "idle st'" "r' = - 1 \<and> contents st' = Map.empty \<or> 0 \<le> r'"
    by (auto simp: q ex_late_ok)
  have "facts_sparql_insert ex_callbacks ?q ex_late = insert_all ex_callbacks ex_triples ex_late"
    by (simp add: sparql_insert_runs(1) ins st)
  with e(1) have "insert_all ex_callbacks ex_triples ex_late = Some (r', st')" by simp
  then have "r' = - 1" using r by (auto simp: insert_all_def split: bind_splits if_splits)
  with e show ?thesis unfolding q by simp
qed

text \<open>
  C5: Inserting the text of any list of less than \<open>2 ^ 31\<close> triples whose strings have no closing angle bracket, on a
  consistent database with no open transaction and no listener, with room for the facts: the result is the number of
  different triples that were not stored, these are now asserted once, and nothing else has changed; so a triple that
  was stored with derived support only is not asserted.
\<close>

theorem facts_sparql_insert_text:
  assumes ok: "db_ok X st" and idle: "idle st" and q: "quiet cb" and free: "no_listener st" and len: "length ts < 2 ^ 31"
    and fit: "fits X st (length ts)" and ts: "\<forall>t \<in> set ts. printable t \<and> small_triple MAX_STRING t"
  shows "\<exists>st'. facts_sparql_insert cb (insert_text ts) st = Some (int (card (set ts - dom (contents st))), st') \<and>
    db_ok X st' \<and> idle st' \<and> contents st' = with_asserted (set ts) (contents st)"
proof -
  have mem: "db_mem st = []" using fit by (simp add: fits_def)
  have small: "\<forall>t \<in> set ts. small_triple MAX_STRING t" "\<forall>t \<in> set ts. printable t" using ts by blast+
  have int: "int (length ts) \<le> INT_MAX" using len by simp
  have "facts_sparql_insert cb (insert_text ts) st = insert_all cb ts st"
    by (simp add: sparql_insert_runs(1) insertion_of_text [OF mem small(2)] sparql_insert_runs(3) [OF mem])
  moreover have "card (stored st) + 2 * length ts \<le> 2 ^ 55" "size X < 2 ^ 62" using fit by (simp_all add: fits_def)
  ultimately show ?thesis
    using insert_all_ok [OF ok idle q small(1) int _ _ memory_fits [OF ok idle fit small(1) int]] free fit by auto
qed

theorem facts_sparql_insert_text_witness:
  "\<exists>st'. facts_sparql_insert ex_callbacks ''INSERT DATA { <a> <b> <c> . <a> <b> <d> . }'' ex_db = Some (2, st') \<and>
     contents st' = [(''a'', ''b'', ''c'') \<mapsto> (1, 0), (''a'', ''b'', ''d'') \<mapsto> (1, 0)]"
proof -
  let ?ts = "[(''a'', ''b'', ''c''), (''a'', ''b'', ''d'')]"
  have "no_listener ex_db" by (simp add: no_listener_def ex_db_tx transaction_zero_def)
  moreover have "fits {#} ex_db (length ?ts)" by (rule ex_db_fits) simp
  ultimately have "\<exists>st'. facts_sparql_insert ex_callbacks (insert_text ?ts) ex_db =
      Some (int (card (set ?ts - dom (contents ex_db))), st') \<and>
      db_ok {#} st' \<and> idle st' \<and> contents st' = with_asserted (set ?ts) (contents ex_db)"
    by (intro facts_sparql_insert_text [OF ex_db_ok(1,2) ex_callbacks_quiet]) (simp_all add: printable_def small_triple_def)
  then show ?thesis
    by (auto simp: insert_text_def triple_text_def ex_db_ok(4) with_asserted_def fun_eq_iff)
qed

end
