(* ===== verification/Spec2Isabelle.thy ===== *)
theory Spec2Isabelle
  imports Prelude Rax Symbols Binding Spec Hashset Hashset_Inv Hashset_Ops Hashset_Del Hashset_Props Intern Hexastore Justification Rules Rule_Parser Rule_Roundtrip Stratify
    Arena Random_Gen Text_IO Facts_State Facts Hashset_Ptr Transactions Lifecycle Heapsort Query Query_With Query_Ops Facts_IO
    Facts_Inv Facts_Ops Facts_Spec Rollback Facts_Init Client Commit Facts_Props Magic Datalog_Sem Magic_Correct Magic_Props Workspace Solve Eval Eval_Inc Lftj Linda Linda_Space Sparql
    Facts_Frame Facts_Reset Workspace_Inv Locks Urcu Query_Scan Query_Join Query_Run Query_Answers Query_Props
    Memory Insert_Room Sparql_Parse Sparql_Props
begin

text \<open>
  A model of the Datalog fact database of this repository: triples of strings in an in-memory store with
  transactions, queries, a Datalog evaluator, a SPARQL front end and a tuple space, in C under \<^verbatim>\<open>src/lib\<close>
  and \<^verbatim>\<open>src/include\<close>.

  \<^bold>\<open>The parts of the program and how they interact.\<close> Strings are interned (\<^verbatim>\<open>intern.c\<close>): a symbol is a
  counted reference to one copy of a string, and equal strings are equal pointers. A fact (\<^verbatim>\<open>fact.c\<close>) is three
  symbols and two supports, asserted and derived; facts live in an arena shared by all databases
  (\<^verbatim>\<open>arena.c\<close>). A database (\<^verbatim>\<open>facts.c\<close>) has its facts in a hash set (\<^verbatim>\<open>set.c\<close>) and in three tries
  ordered by subject, predicate and object (\<^verbatim>\<open>hexastore.c\<close>); it journals every change on a rollback stack
  (\<^verbatim>\<open>transaction.c\<close>), tells listeners and observers about commits, and can write a log (\<^verbatim>\<open>io.c\<close>). A query is a
  specification (\<^verbatim>\<open>spec.c\<close>) over bindings of variables (\<^verbatim>\<open>binding.c\<close>): a backtracking join of range scans of
  the tries, in an order chosen by cost, with limit, offset and sorting. Rules (\<^verbatim>\<open>rule.c\<close>) are parsed, validated and
  stratified; an evaluation (\<^verbatim>\<open>eval.c\<close>) runs them semi-naively with scratch databases that share symbols and
  arena with the main one, using the solvers of \<^verbatim>\<open>lftj.c\<close>, and records justifications
  (\<^verbatim>\<open>justification.c\<close>) for incremental deletion; \<^verbatim>\<open>magic.c\<close> rewrites a program for a query.
  \<^verbatim>\<open>sparql.c\<close> and \<^verbatim>\<open>linda.c\<close> are clients of the database. \<^verbatim>\<open>urcu.h\<close> reclaims memory that readers may still see.

  \<^bold>\<open>How the code is modelled.\<close> A structure is a record and an enumeration a datatype; a pointer that may be
  null is an option, and the memory of facts is a map from addresses. An operation on a database is a function
  \<^typ>\<open>'a action\<close>, from the database to its result and the database after it; its value \<open>None\<close> is undefined
  behaviour, a failed assertion, a wait for oneself or a loop that does not end, so a theorem that gives the result as
  \<open>Some\<close> excludes all of them. Error results are the code's own (-1, a null pointer). Every allocation takes an answer
  from a list (\<^typ>\<open>mem\<close>), so any of them may fail; after the list is used up they succeed. Counters that can reach
  their end are kept at their width: \<^typ>\<open>u64\<close> words, numbers with the wrap-around or the check of the code written
  out, \<^verbatim>\<open>int\<close> sums whose overflow is undefined (\<open>None\<close>: the number of added triples, the numbers of solutions).
  Unbounded numbers stand for the strata and the predicate indexes of a program (\<open>strata_bounded\<close> gives the size of a
  program up to which no \<^verbatim>\<open>int\<close> overflows), for the levels of a transaction, and for the depth of a reader's
  sections, which in \<open>Locks\<close> takes no step beyond \<open>2 ^ 32 - 1\<close>. Assertions about the arguments of a
  call (pointers that are not null, lengths that are positive) are not modelled. Random numbers are
  the generator's state; the hash function, floating-point arithmetic, the formatting of numbers and the
  callbacks are parameters.

  \<^bold>\<open>The theories.\<close>
  \<^item> \<open>Prelude\<close>: memory, words, maps, loops (\<open>run_loop\<close>) and the lemmas the others share. \<open>Rax\<close>: the radix tree
    of \<^verbatim>\<open>deps/rax\<close> by its documented contract, an ordered dictionary, as a locale with its interpretation.
  \<^item> \<open>Symbols\<close> (\<^verbatim>\<open>intern.h\<close>, \<^verbatim>\<open>fact.c\<close>), \<open>Binding\<close>, \<open>Spec\<close>: the data, and the specifications with their
    cursor, their printing order and their sorting.
  \<^item> \<open>Hashset\<close> (the code of \<^verbatim>\<open>set.c\<close>), \<open>Hashset_Inv\<close>, \<open>Hashset_Ops\<close>, \<open>Hashset_Del\<close>, \<open>Hashset_Props\<close>: open
    addressing refines a finite set, through growth, failure and deletion; \<open>Hashset_Ptr\<close>: the same set over
    pointers whose keys are read from memory.
  \<^item> \<open>Intern\<close>: the symbol table, its reference counts and pages. \<open>Hexastore\<close>: keys, the three tries, their
    insertion and removal. \<open>Justification\<close>: the graph of justifications. \<open>Arena\<close>, \<open>Random_Gen\<close>, \<open>Text_IO\<close>.
  \<^item> \<open>Rules\<close>, \<open>Rule_Parser\<close>, \<open>Rule_Roundtrip\<close>, \<open>Stratify\<close> (\<^verbatim>\<open>rule.c\<close>): programs, their parser against a printer,
    and the stratification against its specification.
  \<^item> \<open>Facts_State\<close>, \<open>Facts\<close>, \<open>Transactions\<close>, \<open>Lifecycle\<close>, \<open>Facts_IO\<close> (\<^verbatim>\<open>facts.c\<close>, \<^verbatim>\<open>transaction.c\<close>, \<^verbatim>\<open>io.c\<close>):
    the database, its operations, commit and rollback, creation and destruction, dumps and logs.
  \<^item> \<open>Facts_Inv\<close> (the invariant \<open>db_ok\<close>: index, tries, arena and reference counts agree), \<open>Facts_Ops\<close>, \<open>Facts_Spec\<close>
    (the operations refine a map from triples to supports, read off the slots of the index), \<open>Rollback\<close>, \<open>Facts_Init\<close>, \<open>Client\<close> (a locale of journals,
    and any client inside a transaction), \<open>Commit\<close>, \<open>Facts_Props\<close>, \<open>Memory\<close> and \<open>Insert_Room\<close> (adding, and removing, succeed when
    there is room), \<open>Facts_Frame\<close>, \<open>Facts_Reset\<close> (what operations leave alone).
  \<^item> \<open>Heapsort\<close>, \<open>Query\<close>, \<open>Query_With\<close>, \<open>Query_Ops\<close> (\<^verbatim>\<open>facts.c\<close>): cursors, joins, their options and sorting;
    \<open>Query_Scan\<close>, \<open>Query_Join\<close>, \<open>Query_Run\<close>, \<open>Query_Answers\<close>, \<open>Query_Props\<close>: a range scan gives the matching
    facts, the machine of levels does what a recursive join does, and a query gives its answers.
  \<^item> \<open>Locks\<close> (many threads on the locks of \<^verbatim>\<open>transaction.c\<close>) and \<open>Urcu\<close> (\<^verbatim>\<open>urcu.h\<close>): step relations with
    their invariants; the first justifies the one-thread view the other theories take of the lock; in the second the stores of a
    reader wait in a buffer, and what its read lock promises holds only where they do not wait too long.
  \<^item> \<open>Datalog_Sem\<close> (what a program means), \<open>Magic\<close>, \<open>Magic_Correct\<close>, \<open>Magic_Props\<close> (\<^verbatim>\<open>magic.c\<close>).
  \<^item> \<open>Workspace\<close>, \<open>Solve\<close>, \<open>Eval\<close>, \<open>Eval_Inc\<close> (\<^verbatim>\<open>eval.c\<close>, \<^verbatim>\<open>lftj.c\<close>): the databases of an evaluation, the
    nested-loop solver, full and incremental evaluation; \<open>Workspace_Inv\<close>: their invariant; \<open>Lftj\<close>: the leapfrog
    triejoin.
  \<^item> \<open>Sparql\<close>, \<open>Sparql_Parse\<close>, \<open>Sparql_Props\<close> (\<^verbatim>\<open>sparql.c\<close>); \<open>Linda\<close>, \<open>Linda_Space\<close> (\<^verbatim>\<open>linda.c\<close>).

  \<^bold>\<open>Bounds and fuel.\<close> Loops that may not end are \<open>partial_function\<close>s with value \<open>None\<close>: the probes of the
  hash set and \<open>run_loop\<close>. Fuel is used where a structural bound is at hand: 5 and 6 for the mutual calls of insertion
  and resizing in the hash set, of which the deepest chain is a resize that resizes once more; the number of tokens for
  the loops of the SPARQL parser, each round of which takes one; the number of entries for a rollback; the levels of a
  trie for the leapfrog join. The bounds in hypotheses come from the code's own counters: \<open>MAX_STRING\<close> keeps
  \<^verbatim>\<open>size_t\<close> sums from wrapping, \<open>2 ^ 55\<close> facts keep the index from its largest size and the reference counts
  from \<^verbatim>\<open>UINT64_MAX\<close>.

  \<^bold>\<open>Not modelled.\<close> \<^verbatim>\<open>deps/rax\<close> and \<^verbatim>\<open>deps/linenoise\<close> are third-party code; the first is represented by its
  contract, the second only edits the line of the interactive tool. \<^verbatim>\<open>wyhash.h\<close> is a vendored hash function, a
  parameter here. \<^verbatim>\<open>sparql_repl.c\<close>, \<^verbatim>\<open>examples\<close>, \<^verbatim>\<open>t\<close> and \<^verbatim>\<open>check.h\<close> are input, output and tests. The
  interleaving of threads is modelled for the locks, whose state is only touched under a mutex, and for
  reclamation, with store buffers (weaker reorderings are not modelled); the other theories take the view of one thread, and \<^verbatim>\<open>linda.c\<close> that of one thread with whatever the others
  do while it waits. Freeing memory is not observable. Write errors of streams are not modelled.
\<close>

end
